(* ===== verification/Prism_Prelude.thy ===== *)
theory Prism_Prelude
  imports Main "HOL-Library.Word" "HOL-Library.Multiset"
begin

text \<open>
  Shared vocabulary of the development. A Rust function that returns \<open>Result<T, E>\<close> and may
  also panic is modelled with the three-way type \<open>outcome\<close>; a function whose only failure is a
  panic returns an \<open>option\<close>, where \<^const>\<open>None\<close> is the panic. The theory also models the
  \<open>Vec\<close> and iterator operations of the standard library the components use (bounds-checked
  reads, \<open>swap_remove\<close>, \<open>position\<close>, \<open>sort_unstable\<close> is \<^const>\<open>sort\<close>) and proves the list
  lemmas they share.
\<close>

named_theorems prism_simps \<open>unfolding rules of the operations that several components share\<close>

subsection \<open>Results, errors and panics\<close>

datatype ('e, 'a) outcome = Panic | Err 'e | Ok 'a

fun and_then :: "('e, 'a) outcome \<Rightarrow> ('a \<Rightarrow> ('e, 'b) outcome) \<Rightarrow> ('e, 'b) outcome" where
  "and_then Panic f = Panic"
| "and_then (Err e) f = Err e"
| "and_then (Ok a) f = f a"

fun of_panic :: "'a option \<Rightarrow> ('e, 'a) outcome" where
  "of_panic None = Panic"
| "of_panic (Some a) = Ok a"

lemma and_then_Ok [simp]: "and_then m f = Ok b \<longleftrightarrow> (\<exists>a. m = Ok a \<and> f a = Ok b)"
  by (cases m) auto

lemma and_then_Err: "and_then m f = Err e \<longleftrightarrow> m = Err e \<or> (\<exists>a. m = Ok a \<and> f a = Err e)"
  by (cases m) auto

lemma of_panic_Ok [simp]: "of_panic m = Ok a \<longleftrightarrow> m = Some a"
  by (cases m) auto

lemma of_panic_Err [simp]: "of_panic m \<noteq> Err e"
  by (cases m) auto

text \<open>A \<open>for\<close> loop whose body may return early with an error (the \<open>?\<close> operator).\<close>

fun try_each :: "('a \<Rightarrow> ('e, unit) outcome) \<Rightarrow> 'a list \<Rightarrow> ('e, unit) outcome" where
  "try_each f [] = Ok ()"
| "try_each f (x # xs) = and_then (f x) (\<lambda>_. try_each f xs)"

lemma try_each_Ok: "try_each f xs = Ok () \<longleftrightarrow> (\<forall>x \<in> set xs. f x = Ok ())"
  by (induction xs) auto

lemma try_each_Err: "try_each f xs = Err e \<Longrightarrow> \<exists>x \<in> set xs. f x = Err e"
  by (induction xs) (auto simp: and_then_Err)

lemma try_each_no_panic: "(\<And>x. f x \<noteq> Panic) \<Longrightarrow> try_each f xs \<noteq> Panic"
proof (induction xs)
  case (Cons x xs)
  then show ?case by (cases "f x") auto
qed simp

text \<open>The loop that inserts keys into a \<open>HashSet\<close> and reports the first one already present.\<close>

fun first_dup :: "('a \<Rightarrow> 'k) \<Rightarrow> 'k set \<Rightarrow> 'a list \<Rightarrow> 'a option" where
  "first_dup key seen [] = None"
| "first_dup key seen (x # xs) =
     (if key x \<in> seen then Some x else first_dup key (insert (key x) seen) xs)"

lemma first_dup_None:
  "first_dup key seen xs = None \<longleftrightarrow> distinct (map key xs) \<and> key ` set xs \<inter> seen = {}"
  by (induction xs arbitrary: seen) auto

lemma first_dup_Some: "first_dup key seen xs = Some x \<Longrightarrow> x \<in> set xs"
  by (induction xs arbitrary: seen) (auto split: if_splits)

subsection \<open>Machine integers\<close>

text \<open>The cast \<open>n as u32\<close> of a \<open>usize\<close> keeps the low 32 bits.\<close>

definition as_u32 :: "nat \<Rightarrow> nat" where
  "as_u32 n = n mod 2 ^ 32"

lemma as_u32_small [simp]: "n < 2 ^ 32 \<Longrightarrow> as_u32 n = n"
  by (simp add: as_u32_def)

lemma word_Suc_neq [simp]: "(g::32 word) + 1 \<noteq> g"
  by simp

text \<open>
  Arithmetic on \<open>u64\<close> and \<open>usize\<close>: a build with overflow checks (\<open>dbg\<close>) panics where a release
  build wraps around.
\<close>

definition u64_add :: "bool \<Rightarrow> nat \<Rightarrow> nat \<Rightarrow> nat option" where
  "u64_add dbg a b =
     (if a + b < 2 ^ 64 then Some (a + b) else if dbg then None else Some ((a + b) mod 2 ^ 64))"

definition u64_sub :: "bool \<Rightarrow> nat \<Rightarrow> nat \<Rightarrow> nat option" where
  "u64_sub dbg a b =
     (if b \<le> a then Some (a - b) else if dbg then None else Some (2 ^ 64 + a - b))"

lemma u64_add_Some [simp]: "a + b < 2 ^ 64 \<Longrightarrow> u64_add dbg a b = Some (a + b)"
  by (simp add: u64_add_def)

lemma u64_sub_Some [simp]: "b \<le> a \<Longrightarrow> u64_sub dbg a b = Some (a - b)"
  by (simp add: u64_sub_def)

lemma u64_add_release: "a < 2 ^ 64 \<Longrightarrow> \<exists>c. u64_add False a b = Some c \<and> c < 2 ^ 64"
  by (simp add: u64_add_def)

lemma u64_sub_release: "a < 2 ^ 64 \<Longrightarrow> \<exists>c. u64_sub False a b = Some c \<and> (b < 2 ^ 64 \<longrightarrow> c < 2 ^ 64)"
  by (auto simp: u64_sub_def)

subsection \<open>Vectors\<close>

definition nth_opt :: "'a list \<Rightarrow> nat \<Rightarrow> 'a option" where
  "nth_opt xs i = (if i < length xs then Some (xs ! i) else None)"

lemma nth_opt_Some: "nth_opt xs i = Some x \<longleftrightarrow> i < length xs \<and> xs ! i = x"
  by (simp add: nth_opt_def)

lemma nth_opt_None: "nth_opt xs i = None \<longleftrightarrow> length xs \<le> i"
  by (simp add: nth_opt_def not_less)

text \<open>\<open>Vec::swap_remove\<close>: the last element moves into the hole.\<close>

definition swap_remove :: "nat \<Rightarrow> 'a list \<Rightarrow> 'a list" where
  "swap_remove i xs = butlast (xs[i := last xs])"

lemma length_swap_remove [simp]: "length (swap_remove i xs) = length xs - 1"
  by (simp add: swap_remove_def)

lemma nth_swap_remove:
  "j < length xs - 1 \<Longrightarrow> swap_remove i xs ! j = (if j = i then last xs else xs ! j)"
  by (simp add: swap_remove_def nth_butlast nth_list_update)

lemma mset_swap_remove:
  assumes "i < length xs"
  shows "mset (swap_remove i xs) = mset xs - {#xs ! i#}"
proof (cases "i = length xs - 1")
  case True
  then have "swap_remove i xs = butlast xs"
    using assms by (simp add: swap_remove_def butlast_list_update)
  moreover have "xs = butlast xs @ [xs ! i]"
    using assms True by (metis append_butlast_last_id last_conv_nth list.size(3) not_less0)
  ultimately show ?thesis
    by (metis add_mset_remove_trivial mset_append mset_single_iff_right union_mset_add_mset_right
        add.right_neutral mset.simps)
next
  case False
  let ?l = "length xs - 1"
  have l: "?l < length xs" "i < ?l" using assms False by auto
  have "swap_remove i xs = (butlast xs)[i := last xs]"
    using l by (simp add: swap_remove_def butlast_list_update)
  then have "mset (swap_remove i xs) = add_mset (last xs) (mset (butlast xs) - {#butlast xs ! i#})"
    using l by (simp add: mset_update)
  moreover have "butlast xs ! i = xs ! i" using l by (simp add: nth_butlast)
  moreover have "mset xs = add_mset (last xs) (mset (butlast xs))"
    using assms by (metis add_mset_add_single append_butlast_last_id list.size(3) mset.simps
        mset_append not_less0)
  moreover have "xs ! i \<in># mset (butlast xs)"
    using l by (metis in_set_conv_nth length_butlast nth_butlast set_mset_mset)
  ultimately show ?thesis
    by (metis diff_union_single_conv add_mset_add_single union_commute)
qed

lemma set_swap_remove:
  assumes "i < length xs" "distinct xs"
  shows "set (swap_remove i xs) = set xs - {xs ! i}" "distinct (swap_remove i xs)"
proof -
  have m: "mset (swap_remove i xs) = mset (remove1 (xs ! i) xs)"
    using assms by (simp add: mset_swap_remove)
  show "set (swap_remove i xs) = set xs - {xs ! i}"
    using assms mset_eq_setD[OF m] by simp
  show "distinct (swap_remove i xs)"
    using assms mset_eq_imp_distinct_iff[OF m] by simp
qed

text \<open>\<open>iter().filter_map(f)\<close> is \<^const>\<open>List.map_filter\<close>.\<close>

lemma set_filter_map: "set (List.map_filter f xs) = {y. \<exists>x \<in> set xs. f x = Some y}"
  by (induction xs) (auto simp: List.map_filter_simps split: option.splits)

lemma set_enumerate0: "(i, x) \<in> set (enumerate 0 xs) \<longleftrightarrow> i < length xs \<and> xs ! i = x"
  by (auto simp: in_set_enumerate_eq)

text \<open>\<open>iter().position(p)\<close>: the index of the first element that satisfies \<open>p\<close>.\<close>

fun position :: "('a \<Rightarrow> bool) \<Rightarrow> 'a list \<Rightarrow> nat option" where
  "position p [] = None"
| "position p (x # xs) = (if p x then Some 0 else map_option Suc (position p xs))"

lemma position_Some:
  "position p xs = Some i \<Longrightarrow> i < length xs \<and> p (xs ! i) \<and> (\<forall>j < i. \<not> p (xs ! j))"
proof (induction xs arbitrary: i)
  case (Cons x xs)
  then show ?case
    by (auto split: if_splits simp: nth_Cons split: nat.splits)
qed simp

lemma position_None: "position p xs = None \<longleftrightarrow> (\<forall>x \<in> set xs. \<not> p x)"
  by (induction xs) auto

text \<open>\<open>VecDeque::remove(i)\<close> and \<open>Vec::remove(i)\<close> keep the order of the rest.\<close>

definition remove_at :: "nat \<Rightarrow> 'a list \<Rightarrow> 'a list" where
  "remove_at i xs = take i xs @ drop (Suc i) xs"

lemma length_remove_at [simp]: "i < length xs \<Longrightarrow> length (remove_at i xs) = length xs - 1"
  by (auto simp: remove_at_def)

lemma mset_remove_at:
  assumes "i < length xs"
  shows "add_mset (xs ! i) (mset (remove_at i xs)) = mset xs"
proof -
  have "mset xs = mset (take i xs @ xs ! i # drop (Suc i) xs)"
    using assms by (simp add: id_take_nth_drop[symmetric])
  then show ?thesis by (simp add: remove_at_def)
qed

subsection \<open>Ordered maps\<close>

text \<open>
  A \<open>BTreeMap\<close> whose iteration order matters is an association list with strictly increasing
  keys; \<open>btree_push\<close> is \<open>entry(k).or_default().push(x)\<close>.
\<close>

fun btree_push :: "'k::linorder \<Rightarrow> 'a \<Rightarrow> ('k \<times> 'a list) list \<Rightarrow> ('k \<times> 'a list) list" where
  "btree_push k x [] = [(k, [x])]"
| "btree_push k x ((k', xs) # m) =
     (if k = k' then (k', xs @ [x]) # m
      else if k < k' then (k, [x]) # (k', xs) # m
      else (k', xs) # btree_push k x m)"

lemma keys_btree_push: "fst ` set (btree_push k x m) = insert k (fst ` set m)"
  by (induction k x m rule: btree_push.induct) auto

lemma sorted_btree_push:
  "sorted_wrt (<) (map fst m) \<Longrightarrow> sorted_wrt (<) (map fst (btree_push k x m))"
proof (induction m)
  case (Cons p m)
  obtain k' xs where p: "p = (k', xs)" by (cases p)
  have "\<forall>y \<in> fst ` set (btree_push k x m). k' < y" if "k' < k"
    using that Cons.prems p by (simp add: keys_btree_push)
  then show ?case using Cons p by (auto simp: not_less_iff_gr_or_eq)
qed simp

lemma map_of_btree_push:
  "sorted_wrt (<) (map fst m) \<Longrightarrow> map_of (btree_push k x m) j =
     (if j = k then Some ((case map_of m k of None \<Rightarrow> [] | Some xs \<Rightarrow> xs) @ [x]) else map_of m j)"
proof (induction m)
  case (Cons p m)
  obtain k' xs where p: "p = (k', xs)" by (cases p)
  have "map_of m k = None" if "k < k'"
    using that Cons.prems p by (fastforce simp: map_of_eq_None_iff)
  then show ?case using Cons p by auto
qed simp

text \<open>\<open>BTreeMap::insert\<close>.\<close>

fun btree_insert :: "'k::linorder \<Rightarrow> 'a \<Rightarrow> ('k \<times> 'a) list \<Rightarrow> ('k \<times> 'a) list" where
  "btree_insert k x [] = [(k, x)]"
| "btree_insert k x ((k', y) # m) =
     (if k = k' then (k, x) # m else if k < k' then (k, x) # (k', y) # m else (k', y) # btree_insert k x m)"

lemma keys_btree_insert: "fst ` set (btree_insert k x m) = insert k (fst ` set m)"
  by (induction k x m rule: btree_insert.induct) auto

lemma sorted_btree_insert:
  "sorted_wrt (<) (map fst m) \<Longrightarrow> sorted_wrt (<) (map fst (btree_insert k x m))"
proof (induction m)
  case (Cons p m)
  obtain k' y where p: "p = (k', y)" by (cases p)
  have "\<forall>z \<in> fst ` set (btree_insert k x m). k' < z" if "k' < k"
    using that Cons.prems p by (simp add: keys_btree_insert)
  then show ?case using Cons p by (auto simp: not_less_iff_gr_or_eq)
qed simp

lemma map_of_btree_insert: "map_of (btree_insert k x m) = (map_of m)(k \<mapsto> x)"
  by (induction k x m rule: btree_insert.induct) (auto simp: fun_eq_iff)

text \<open>\<open>BTreeMap::remove\<close>.\<close>

definition btree_remove :: "'k \<Rightarrow> ('k \<times> 'a) list \<Rightarrow> ('k \<times> 'a) list" where
  "btree_remove k m = filter (\<lambda>p. fst p \<noteq> k) m"

lemma map_of_btree_remove: "map_of (btree_remove k m) = (map_of m)(k := None)"
  by (induction m) (auto simp: btree_remove_def fun_eq_iff)

lemma keys_btree_remove: "fst ` set (btree_remove k m) = fst ` set m - {k}"
  by (auto simp: btree_remove_def)

lemma sorted_btree_remove:
  "sorted_wrt (<) (map fst m) \<Longrightarrow> sorted_wrt (<) (map fst (btree_remove k m))"
  by (simp add: btree_remove_def sorted_wrt_map sorted_wrt_filter)

lemma btree_remove_absent: "k \<notin> fst ` set m \<Longrightarrow> btree_remove k m = m"
  by (induction m) (auto simp: btree_remove_def)

lemma mset_btree_insert:
  "sorted_wrt (<) (map fst m) \<Longrightarrow> mset (btree_insert k x m) = add_mset (k, x) (mset (btree_remove k m))"
proof (induction k x m rule: btree_insert.induct)
  case (2 k x k' y m)
  show ?case
  proof (cases "k < k'")
    case True
    then have "k \<notin> fst ` set ((k', y) # m)" using 2(2) by fastforce
    then show ?thesis using True by (simp add: btree_remove_absent)
  next
    case False
    show ?thesis
    proof (cases "k = k'")
      case True
      then have "k \<notin> fst ` set m" using 2(2) by fastforce
      then have "filter (\<lambda>p. fst p \<noteq> k) m = m" by (auto simp: filter_id_conv)
      then show ?thesis using True by (simp add: btree_remove_def)
    next
      case neq: False
      then show ?thesis using 2 False by (simp add: btree_remove_def)
    qed
  qed
qed (simp add: btree_remove_def)

lemma mset_btree_remove:
  fixes m :: "('k::linorder \<times> 'a) list"
  shows "sorted_wrt (<) (map fst m) \<Longrightarrow> map_of m k = Some v \<Longrightarrow>
    mset m = add_mset (k, v) (mset (btree_remove k m))"
proof (induction m)
  case (Cons p m)
  obtain k' y where p: "p = (k', y)" by (cases p)
  show ?case
  proof (cases "k = k'")
    case True
    then have "filter (\<lambda>p. fst p \<noteq> k) m = m" using Cons.prems(1) p by (fastforce simp: filter_id_conv)
    then show ?thesis using Cons.prems(2) p True by (simp add: btree_remove_def)
  next
    case False
    then show ?thesis using Cons p by (simp add: btree_remove_def)
  qed
qed simp

lemma filter_length_mset: "mset xs = mset ys \<Longrightarrow> length (filter P xs) = length (filter P ys)"
  by (metis mset_filter size_mset)

lemma count_btree_insert:
  assumes "sorted_wrt (<) (map fst m)"
  shows "length (filter P (btree_insert k x m)) = of_bool (P (k, x)) + length (filter P (btree_remove k m))"
  using filter_length_mset[of "btree_insert k x m" "(k, x) # btree_remove k m" P] mset_btree_insert[OF assms, of k x]
  by simp

lemma count_btree_remove:
  fixes m :: "('k::linorder \<times> 'a) list"
  assumes "sorted_wrt (<) (map fst m)" "map_of m k = Some v"
  shows "length (filter P m) = of_bool (P (k, v)) + length (filter P (btree_remove k m))"
  using filter_length_mset[of m "(k, v) # btree_remove k m" P] mset_btree_remove[OF assms]
  by simp

lemma map_of_sorted_mem:
  fixes m :: "('k::linorder \<times> 'a) list"
  shows "sorted_wrt (<) (map fst m) \<Longrightarrow> map_of m k = Some v \<longleftrightarrow> (k, v) \<in> set m"
  using map_of_eq_Some_iff[of m k v] strict_sorted_iff[of "map fst m"] by auto

subsection \<open>Runs of a step relation\<close>

inductive steps :: "('s \<Rightarrow> 's \<Rightarrow> bool) \<Rightarrow> nat \<Rightarrow> 's \<Rightarrow> 's \<Rightarrow> bool" for step where
  steps_0: "steps step 0 s s"
| steps_Suc: "steps step n s s' \<Longrightarrow> step s' s'' \<Longrightarrow> steps step (Suc n) s s''"

text \<open>
  A system whose invariant survives every step from a state that is small enough, where a step grows
  the state by at most one.
\<close>

locale growing_system =
  fixes step :: "'s \<Rightarrow> 's \<Rightarrow> bool" and inv :: "'s \<Rightarrow> bool" and extent :: "'s \<Rightarrow> nat" and limit :: nat
  assumes step_inv: "inv s \<Longrightarrow> extent s < limit \<Longrightarrow> step s s' \<Longrightarrow> inv s'"
    and step_extent: "inv s \<Longrightarrow> step s s' \<Longrightarrow> extent s' \<le> extent s + 1"
begin

lemma run_inv:
  assumes "steps step n s s'" "inv s" "extent s + n \<le> limit"
  shows "inv s' \<and> extent s' \<le> extent s + n"
  using assms
proof (induction rule: steps.induct)
  case (steps_Suc n s s' s'')
  then have "inv s'" "extent s' \<le> extent s + n" "extent s' < limit" by auto
  then show ?case using step_inv step_extent steps_Suc by fastforce
qed simp

end

end
