(* ===== verification/Sparse_Column.thy ===== *)
theory Sparse_Column
  imports Prism_Prelude
begin

text \<open>
  The generation-aware sparse-set column of \<open>prism-ecs-core/src/column.rs\<close> (\<open>Column<T>\<close>) and
  the entity handle of \<open>entity.rs\<close>. A column is three vectors: the dense values, the entity of
  each dense entry, and the sparse index from an entity id to a dense position. Every operation
  is a function on that record; \<^const>\<open>None\<close> is a panic (an index out of bounds, or a failed
  \<open>debug_assert\<close> when the first argument \<open>dbg\<close> says the build has debug assertions).
  The abstraction is the partial map \<open>column_get c\<close> from handles to values; the locale
  \<open>gen_store\<close> states what the world relies on, and the column is its interpretation.
\<close>

subsection \<open>Entity handles\<close>

datatype entity = Entity (eid: nat) (egen: "32 word")

text \<open>The derived \<open>Ord\<close> compares the id first, then the generation.\<close>

instantiation entity :: linorder
begin

definition less_eq_entity :: "entity \<Rightarrow> entity \<Rightarrow> bool" where
  "less_eq_entity a b = (eid a < eid b \<or> eid a = eid b \<and> egen a \<le> egen b)"

definition less_entity :: "entity \<Rightarrow> entity \<Rightarrow> bool" where
  "less_entity a b = (eid a < eid b \<or> eid a = eid b \<and> egen a < egen b)"

instance
proof
  fix x y :: entity
  assume "x \<le> y" "y \<le> x"
  then show "x = y"
    by (cases x, cases y) (auto simp: less_eq_entity_def)
qed (auto simp: less_eq_entity_def less_entity_def)

end

subsection \<open>The column and its operations\<close>

record 'a column =
  dense :: "'a list"
  sparse :: "nat option list"
  entities :: "entity list"

definition column_new :: "'a column" where
  "column_new = \<lparr>dense = [], sparse = [], entities = []\<rparr>"

definition check_invariants :: "'a column \<Rightarrow> bool" where
  "check_invariants c \<longleftrightarrow>
     length (dense c) = length (entities c) \<and>
     list_all (\<lambda>(i, slot). case slot of None \<Rightarrow> True
         | Some d \<Rightarrow> d < length (entities c) \<and> eid (entities c ! d) = i)
       (enumerate 0 (sparse c))"

text \<open>\<open>remove_dense_entry\<close>: the last entry is swapped into the hole and the vectors shrink.\<close>

definition swap_with_last :: "nat \<Rightarrow> 'a column \<Rightarrow> 'a column option" where
  "swap_with_last d c =
     (let l = length (dense c) - 1 in
      if d = l then Some c
      else if d < l \<and> l < length (entities c) \<and> eid (entities c ! l) < length (sparse c)
      then Some (c\<lparr>
          dense := (dense c)[d := dense c ! l, l := dense c ! d],
          sparse := (sparse c)[eid (entities c ! l) := Some (as_u32 d)],
          entities := (entities c)[d := entities c ! l, l := entities c ! d]\<rparr>)
      else None)"

definition remove_dense_entry :: "bool \<Rightarrow> nat \<Rightarrow> 'a column \<Rightarrow> ('a \<times> 'a column) option" where
  "remove_dense_entry dbg d c =
     (if dense c = [] then None
      else case swap_with_last d c of None \<Rightarrow> None
      | Some c1 \<Rightarrow>
          let c2 = c1\<lparr>entities := butlast (entities c1), dense := butlast (dense c1)\<rparr> in
          if dbg \<and> \<not> check_invariants c2 then None else Some (last (dense c1), c2))"

definition grow_sparse :: "nat \<Rightarrow> 'a column \<Rightarrow> 'a column" where
  "grow_sparse i c =
     (if length (sparse c) \<le> i
      then c\<lparr>sparse := sparse c @ replicate (i + 1 - length (sparse c)) None\<rparr> else c)"

definition push_entry :: "bool \<Rightarrow> entity \<Rightarrow> 'a \<Rightarrow> 'a column \<Rightarrow> 'a column option" where
  "push_entry dbg e v c =
     (let c' = c\<lparr>sparse := (sparse c)[eid e := Some (as_u32 (length (dense c)))],
                 dense := dense c @ [v], entities := entities c @ [e]\<rparr> in
      if dbg \<and> \<not> check_invariants c' then None else Some c')"

definition column_insert :: "bool \<Rightarrow> entity \<Rightarrow> 'a \<Rightarrow> 'a column \<Rightarrow> 'a column option" where
  "column_insert dbg e v c =
     (let c0 = grow_sparse (eid e) c in
      case sparse c0 ! eid e of
        None \<Rightarrow> push_entry dbg e v c0
      | Some d \<Rightarrow>
          if length (entities c0) \<le> d then None
          else if egen (entities c0 ! d) = egen e
          then (if d < length (dense c0) then Some (c0\<lparr>dense := (dense c0)[d := v]\<rparr>) else None)
          else (case remove_dense_entry dbg d c0 of
                  None \<Rightarrow> None
                | Some (_, c1) \<Rightarrow> push_entry dbg e v c1))"

text \<open>The position of the entry the handle may see: in range and of the same generation.\<close>

definition dense_index :: "'a column \<Rightarrow> entity \<Rightarrow> nat option" where
  "dense_index c e =
     (case nth_opt (sparse c) (eid e) of
        Some (Some d) \<Rightarrow>
          (case nth_opt (entities c) d of
             None \<Rightarrow> None
           | Some stored \<Rightarrow> if egen stored \<noteq> egen e then None else Some d)
      | _ \<Rightarrow> None)"

definition column_get :: "'a column \<Rightarrow> entity \<Rightarrow> 'a option" where
  "column_get c e = (case dense_index c e of None \<Rightarrow> None | Some d \<Rightarrow> nth_opt (dense c) d)"

text \<open>\<open>get_mut\<close> hands out the cell; the caller's write is the function \<open>f\<close>.\<close>

definition column_update :: "entity \<Rightarrow> ('a \<Rightarrow> 'a) \<Rightarrow> 'a column \<Rightarrow> 'a column" where
  "column_update e f c =
     (case dense_index c e of None \<Rightarrow> c
      | Some d \<Rightarrow> if d < length (dense c) then c\<lparr>dense := (dense c)[d := f (dense c ! d)]\<rparr> else c)"

definition column_remove :: "bool \<Rightarrow> entity \<Rightarrow> 'a column \<Rightarrow> ('a option \<times> 'a column) option" where
  "column_remove dbg e c =
     (case dense_index c e of
        None \<Rightarrow> Some (None, c)
      | Some d \<Rightarrow>
          (case remove_dense_entry dbg d (c\<lparr>sparse := (sparse c)[eid e := None]\<rparr>) of
             None \<Rightarrow> None
           | Some (v, c') \<Rightarrow> if dbg \<and> \<not> check_invariants c' then None else Some (Some v, c')))"

definition column_has :: "'a column \<Rightarrow> entity \<Rightarrow> bool" where
  "column_has c e \<longleftrightarrow> dense_index c e \<noteq> None"

definition column_len :: "'a column \<Rightarrow> nat" where
  "column_len c = length (dense c)"

definition column_clear :: "'a column \<Rightarrow> 'a column" where
  "column_clear c = c\<lparr>dense := [], entities := [], sparse := map (\<lambda>_. None) (sparse c)\<rparr>"

definition column_iter :: "'a column \<Rightarrow> (entity \<times> 'a) list" where
  "column_iter c = zip (entities c) (dense c)"


subsection \<open>The representation invariant\<close>

text \<open>
  \<open>indexed X c\<close>: the three vectors agree, except that the sparse cells of the ids in \<open>X\<close> may
  hold anything (the state in the middle of an eviction). \<open>col_inv\<close> is the invariant between
  calls; the dense length fits the \<open>u32\<close> index.
\<close>

definition indexed :: "nat set \<Rightarrow> 'a column \<Rightarrow> bool" where
  "indexed X c \<longleftrightarrow>
     length (dense c) = length (entities c) \<and> length (entities c) \<le> 2 ^ 32 \<and>
     distinct (map eid (entities c)) \<and> (\<forall>e \<in> set (entities c). eid e < length (sparse c)) \<and>
     (\<forall>i < length (sparse c). i \<notin> X \<longrightarrow>
        (\<forall>k. sparse c ! i = Some k \<longleftrightarrow> k < length (entities c) \<and> eid (entities c ! k) = i))"

definition col_inv :: "'a column \<Rightarrow> bool" where
  "col_inv c \<longleftrightarrow> indexed {} c"

lemma indexedI:
  assumes "length (dense c) = length (entities c)" "length (entities c) \<le> 2 ^ 32"
    and "distinct (map eid (entities c))" "\<And>e. e \<in> set (entities c) \<Longrightarrow> eid e < length (sparse c)"
    and "\<And>i k. i < length (sparse c) \<Longrightarrow> i \<notin> X \<Longrightarrow>
           sparse c ! i = Some k \<longleftrightarrow> k < length (entities c) \<and> eid (entities c ! k) = i"
  shows "indexed X c"
  using assms by (simp add: indexed_def)

lemma indexed_len: "indexed X c \<Longrightarrow> length (dense c) = length (entities c)"
  and indexed_bound: "indexed X c \<Longrightarrow> length (entities c) \<le> 2 ^ 32"
  and indexed_distinct: "indexed X c \<Longrightarrow> distinct (map eid (entities c))"
  and indexed_range: "indexed X c \<Longrightarrow> e \<in> set (entities c) \<Longrightarrow> eid e < length (sparse c)"
  and indexed_cell: "indexed X c \<Longrightarrow> i < length (sparse c) \<Longrightarrow> i \<notin> X \<Longrightarrow>
           sparse c ! i = Some k \<longleftrightarrow> k < length (entities c) \<and> eid (entities c ! k) = i"
  by (auto simp: indexed_def)

lemma indexed_weaken: "indexed X c \<Longrightarrow> X \<subseteq> Y \<Longrightarrow> indexed Y c"
  unfolding indexed_def by blast

lemma eid_inj:
  assumes "distinct (map eid es)" "i < length es" "j < length es" "eid (es ! i) = eid (es ! j)"
  shows "i = j"
  using assms by (simp add: distinct_conv_nth) (metis)

lemma check_invariants_iff:
  "check_invariants c \<longleftrightarrow> length (dense c) = length (entities c) \<and>
     (\<forall>i < length (sparse c). \<forall>k. sparse c ! i = Some k \<longrightarrow>
        k < length (entities c) \<and> eid (entities c ! k) = i)"
proof -
  have "list_all P (enumerate 0 xs) \<longleftrightarrow> (\<forall>i < length xs. P (i, xs ! i))"
    for P and xs :: "nat option list"
    by (auto simp: list_all_length nth_enumerate_eq)
  then show ?thesis
    by (auto simp: check_invariants_def split: option.splits)
qed

lemma col_inv_check: "col_inv c \<Longrightarrow> check_invariants c"
  by (auto simp: col_inv_def check_invariants_iff indexed_len indexed_cell)

lemma col_inv_new [simp]: "col_inv column_new"
  by (simp add: col_inv_def indexed_def column_new_def)

lemma indexed_grow: "indexed X c \<Longrightarrow> indexed X (grow_sparse i c)"
  unfolding indexed_def grow_sparse_def
  by (auto simp: nth_append)

lemma grow_sparse_fields [simp]:
  "dense (grow_sparse i c) = dense c" "entities (grow_sparse i c) = entities c"
  "i < length (sparse (grow_sparse i c))"
  by (auto simp: grow_sparse_def)

lemma dense_index_grow [simp]: "dense_index (grow_sparse i c) e = dense_index c e"
  by (simp add: dense_index_def grow_sparse_def nth_opt_def nth_append split: option.split)

subsection \<open>What a handle sees\<close>

lemma dense_index_iff:
  assumes "col_inv c"
  shows "dense_index c e = Some d \<longleftrightarrow> d < length (entities c) \<and> entities c ! d = e"
proof
  assume "dense_index c e = Some d"
  then have *: "eid e < length (sparse c)" "sparse c ! eid e = Some d"
    "egen (entities c ! d) = egen e"
    by (auto simp: dense_index_def nth_opt_def split: option.splits if_splits)
  then show "d < length (entities c) \<and> entities c ! d = e"
    using assms indexed_cell[of "{}" c "eid e" d] by (auto simp: col_inv_def entity.expand)
next
  assume *: "d < length (entities c) \<and> entities c ! d = e"
  then have "eid e < length (sparse c)"
    using assms indexed_range[of "{}" c e] by (auto simp: col_inv_def)
  moreover from this have "sparse c ! eid e = Some d"
    using assms * indexed_cell[of "{}" c "eid e" d] by (auto simp: col_inv_def)
  ultimately show "dense_index c e = Some d"
    using * by (simp add: dense_index_def nth_opt_def)
qed

lemma column_iter_distinct: "col_inv c \<Longrightarrow> distinct (map fst (column_iter c))"
  by (simp add: column_iter_def col_inv_def indexed_def distinct_map)

lemma column_get_iff:
  assumes "col_inv c"
  shows "column_get c e = Some v \<longleftrightarrow> (e, v) \<in> set (column_iter c)"
proof -
  have len: "length (dense c) = length (entities c)"
    using assms indexed_len by (auto simp: col_inv_def)
  have "column_get c e = Some v \<longleftrightarrow>
      (\<exists>d. dense_index c e = Some d \<and> d < length (dense c) \<and> dense c ! d = v)"
    by (simp add: column_get_def nth_opt_Some split: option.splits)
  also have "\<dots> \<longleftrightarrow> (e, v) \<in> set (column_iter c)"
    using len unfolding dense_index_iff[OF assms] column_iter_def in_set_zip fst_conv snd_conv
    by metis
  finally show ?thesis .
qed

lemma column_get_map_of: "col_inv c \<Longrightarrow> column_get c e = map_of (column_iter c) e"
  using column_get_iff column_iter_distinct
  by (metis map_of_eq_Some_iff not_Some_eq)

lemma column_has_get: "col_inv c \<Longrightarrow> column_has c e \<longleftrightarrow> column_get c e \<noteq> None"
proof -
  assume "col_inv c"
  then have "length (dense c) = length (entities c)"
    using indexed_len by (auto simp: col_inv_def)
  then show ?thesis
    using dense_index_iff[OF \<open>col_inv c\<close>, of e]
    by (cases "dense_index c e") (auto simp: column_has_def column_get_def nth_opt_def)
qed

lemma column_get_same_id:
  assumes "col_inv c" "column_get c e = Some v" "column_get c e' = Some v'" "eid e = eid e'"
  shows "e = e'"
proof -
  have "e \<in> set (entities c)" "e' \<in> set (entities c)"
    using assms(2,3) unfolding column_get_iff[OF assms(1)] column_iter_def
    by (auto dest: set_zip_leftD)
  moreover have "inj_on eid (set (entities c))"
    using assms(1) indexed_distinct[of "{}" c] by (simp add: col_inv_def distinct_map)
  ultimately show ?thesis
    using assms(4) by (auto dest: inj_onD)
qed

subsection \<open>Swap-remove of a dense entry\<close>

lemma swap_entry_list:
  assumes "d < length xs"
  shows "butlast (xs[d := xs ! (length xs - 1), length xs - 1 := xs ! d]) = swap_remove d xs"
    and "last (xs[d := xs ! (length xs - 1), length xs - 1 := xs ! d]) = xs ! d"
proof -
  have "xs \<noteq> []" using assms by auto
  then have l: "xs ! (length xs - 1) = last xs" by (simp add: last_conv_nth)
  show "butlast (xs[d := xs ! (length xs - 1), length xs - 1 := xs ! d]) = swap_remove d xs"
    using assms l by (auto intro!: nth_equalityI simp: nth_swap_remove nth_butlast nth_list_update)
  show "last (xs[d := xs ! (length xs - 1), length xs - 1 := xs ! d]) = xs ! d"
    using assms \<open>xs \<noteq> []\<close> by (simp add: last_conv_nth)
qed

lemma swap_remove_last: "xs \<noteq> [] \<Longrightarrow> swap_remove (length xs - 1) xs = butlast xs"
  by (simp add: swap_remove_def butlast_list_update)

text \<open>The column after \<open>remove_dense_entry\<close>, as one expression.\<close>

definition removed_entry :: "nat \<Rightarrow> 'a column \<Rightarrow> 'a column" where
  "removed_entry d c = c\<lparr>
     sparse := (if d = length (entities c) - 1 then sparse c
                else (sparse c)[eid (last (entities c)) := Some d]),
     entities := swap_remove d (entities c), dense := swap_remove d (dense c)\<rparr>"

lemma remove_dense_entry_eq:
  assumes "indexed X c" "d < length (entities c)"
  shows "remove_dense_entry dbg d c =
     (if dbg \<and> \<not> check_invariants (removed_entry d c) then None
      else Some (dense c ! d, removed_entry d c))"
proof -
  let ?l = "length (entities c) - 1"
  have len: "length (dense c) = length (entities c)" and ne: "entities c \<noteq> []" "dense c \<noteq> []"
    using assms indexed_len by fastforce+
  have d32: "as_u32 d = d"
    using assms indexed_bound[of X c] by simp
  have last: "last (entities c) = entities c ! ?l" using ne by (simp add: last_conv_nth)
  have r: "eid (entities c ! ?l) < length (sparse c)"
    using assms(1) ne by (intro indexed_range) simp_all
  show ?thesis
  proof (cases "d = ?l")
    case True
    then have sw: "swap_with_last d c = Some c" by (simp add: swap_with_last_def len)
    have "butlast (entities c) = swap_remove d (entities c)"
      "butlast (dense c) = swap_remove d (dense c)" "last (dense c) = dense c ! d"
      using True ne swap_remove_last[of "entities c"] swap_remove_last[of "dense c"] len
      by (simp_all add: last_conv_nth)
    then have "c\<lparr>entities := butlast (entities c), dense := butlast (dense c)\<rparr> = removed_entry d c"
      "last (dense c) = dense c ! d"
      using True by (simp_all add: removed_entry_def)
    then show ?thesis
      using ne sw by (simp add: remove_dense_entry_def Let_def)
  next
    case False
    then have "d < ?l" using assms(2) by simp
    then show ?thesis
      using ne len r d32 last assms(2) swap_entry_list[of d "dense c"]
        swap_entry_list[of d "entities c"]
      by (simp add: remove_dense_entry_def swap_with_last_def removed_entry_def Let_def)
  qed
qed

lemma removed_entry_indexed:
  assumes "indexed X c" "d < length (entities c)" "eid (entities c ! d) \<in> X"
  shows "indexed X (removed_entry d c)"
proof (rule indexedI)
  let ?es = "entities c" and ?es' = "entities (removed_entry d c)"
  note [simp] = removed_entry_def
  have ne: "?es \<noteq> []" and dist: "distinct (map eid ?es)"
    using assms indexed_distinct by fastforce+
  have lastl: "last ?es = ?es ! (length ?es - 1)" using ne by (simp add: last_conv_nth)
  have de: "distinct ?es" using dist by (simp add: distinct_map)
  have setes: "set ?es' = set ?es - {?es ! d}" and "distinct ?es'"
    using set_swap_remove[OF assms(2) de] by simp_all
  then show "distinct (map eid ?es')"
    using dist by (auto simp: distinct_map intro: inj_on_subset)
  show "length (dense (removed_entry d c)) = length ?es'"
    using assms(1) indexed_len by fastforce
  show "length ?es' \<le> 2 ^ 32" using indexed_bound[OF assms(1)] by simp
  show "eid e < length (sparse (removed_entry d c))" if "e \<in> set ?es'" for e
    using that setes indexed_range[OF assms(1)] by simp
  fix i k
  assume i: "i < length (sparse (removed_entry d c))" "i \<notin> X"
  have nth': "?es' ! k = (if k = d then last ?es else ?es ! k)" if "k < length ?es - 1" for k
    using that by (simp add: nth_swap_remove)
  have cell: "sparse c ! i = Some k \<longleftrightarrow> k < length ?es \<and> eid (?es ! k) = i" for k
    using indexed_cell[OF assms(1) _ i(2)] i(1) by (simp split: if_splits)
  have nd: "i \<noteq> eid (?es ! d)" using assms(3) i(2) by blast
  have inj: "eid (?es ! a) = eid (?es ! b) \<Longrightarrow> a < length ?es \<Longrightarrow> b < length ?es \<Longrightarrow> a = b" for a b
    using eid_inj[OF dist] by blast
  show "sparse (removed_entry d c) ! i = Some k \<longleftrightarrow> k < length ?es' \<and> eid (?es' ! k) = i"
  proof (cases "d = length ?es - 1")
    case True
    then have "k < length ?es \<and> eid (?es ! k) = i \<longleftrightarrow> k < length ?es - 1 \<and> eid (?es' ! k) = i"
      using nd nth'[of k] by (cases "k = length ?es - 1") auto
    then show ?thesis using cell[of k] True by simp
  next
    case False
    then have dl: "d < length ?es - 1" using assms(2) by simp
    show ?thesis
    proof (cases "i = eid (last ?es)")
      case True
      have "eid (?es ! k) \<noteq> i" if k: "k < length ?es - 1"
      proof
        assume "eid (?es ! k) = i"
        then have "k = length ?es - 1" using inj[of k "length ?es - 1"] True lastl ne k by simp
        then show False using k by simp
      qed
      then have "k < length ?es - 1 \<and> eid (?es' ! k) = i \<longleftrightarrow> k = d"
        using True dl nth'[of k] by (cases "k = d") auto
      then show ?thesis using True False i(1) by auto
    next
      case ne_last: False
      then have "sparse (removed_entry d c) ! i = sparse c ! i" using False i(1) by simp
      moreover have "k < length ?es \<and> eid (?es ! k) = i \<longleftrightarrow> k < length ?es - 1 \<and> eid (?es' ! k) = i"
        using nth'[of k] nd ne_last lastl by (cases "k = length ?es - 1") auto
      ultimately show ?thesis using cell[of k] by simp
    qed
  qed
qed

lemma removed_entry_iter:
  assumes "length (dense c) = length (entities c)" "d < length (entities c)"
  shows "mset (column_iter (removed_entry d c)) =
     mset (column_iter c) - {#(entities c ! d, dense c ! d)#}"
proof -
  have "column_iter (removed_entry d c) = swap_remove d (column_iter c)"
    using assms last_zip[of "entities c" "dense c", symmetric]
    by (cases "entities c = []"; cases "dense c = []")
       (auto simp: column_iter_def removed_entry_def nth_swap_remove intro!: nth_equalityI)
  then show ?thesis
    using assms by (simp add: mset_swap_remove column_iter_def)
qed

lemma removed_entry_set:
  assumes "indexed X c" "d < length (entities c)"
  shows "set (column_iter (removed_entry d c)) = set (column_iter c) - {(entities c ! d, dense c ! d)}"
proof -
  have len: "length (dense c) = length (entities c)" using assms indexed_len by blast
  have "distinct (column_iter c)"
    using assms indexed_distinct[of X c]
    by (auto simp: column_iter_def distinct_map intro: distinct_zipI1)
  then have "mset (column_iter (removed_entry d c)) =
      mset (remove1 (entities c ! d, dense c ! d) (column_iter c))"
    using removed_entry_iter[OF len assms(2)] by simp
  then show ?thesis
    using \<open>distinct (column_iter c)\<close> by (metis mset_eq_setD set_remove1_eq)
qed

subsection \<open>Insert, remove and update against the map of handles\<close>

lemma push_entry_spec:
  assumes "indexed {eid e} c" "eid e \<notin> eid ` set (entities c)" "eid e < length (sparse c)"
    and "length (entities c) < 2 ^ 32"
  obtains c' where "push_entry dbg e v c = Some c'" "col_inv c'"
    and "column_iter c' = column_iter c @ [(e, v)]"
proof -
  let ?c' = "c\<lparr>sparse := (sparse c)[eid e := Some (as_u32 (length (dense c)))],
                 dense := dense c @ [v], entities := entities c @ [e]\<rparr>"
  have len: "length (dense c) = length (entities c)" using assms(1) indexed_len by blast
  have cell: "sparse c ! i = Some k \<longleftrightarrow> k < length (entities c) \<and> eid (entities c ! k) = i"
    if "i < length (sparse c)" "i \<noteq> eid e" for i k
    using indexed_cell[OF assms(1) that(1)] that(2) by simp
  have fresh: "eid (entities c ! k) \<noteq> eid e" if "k < length (entities c)" for k
    using assms(2) that by (metis image_eqI nth_mem)
  have inv: "col_inv ?c'"
    unfolding col_inv_def
  proof (rule indexedI)
    fix i k
    assume "i < length (sparse ?c')"
    then show "sparse ?c' ! i = Some k \<longleftrightarrow> k < length (entities ?c') \<and> eid (entities ?c' ! k) = i"
      using cell[of i k] fresh[of k] assms(4) len
      by (cases "i = eid e") (auto simp: nth_append nth_list_update less_Suc_eq)
  qed (use assms len indexed_distinct[OF assms(1)] indexed_range[OF assms(1)] in auto)
  moreover have "push_entry dbg e v c = Some ?c'"
    using col_inv_check[OF inv] by (simp add: push_entry_def Let_def)
  moreover have "column_iter ?c' = column_iter c @ [(e, v)]"
    using len by (simp add: column_iter_def)
  ultimately show ?thesis using that by blast
qed

lemma dense_cell:
  assumes "col_inv c" "i < length (sparse c)"
  shows "sparse c ! i = Some d \<longleftrightarrow> d < length (entities c) \<and> eid (entities c ! d) = i"
  using assms indexed_cell[of "{}" c i d] by (simp add: col_inv_def)

text \<open>No entry of another generation occupies the id: the debug build does not evict.\<close>

definition no_stale :: "entity \<Rightarrow> 'a column \<Rightarrow> bool" where
  "no_stale e c \<longleftrightarrow> (\<forall>e' \<in> set (entities c). eid e' = eid e \<longrightarrow> e' = e)"

lemma column_iter_keys: "col_inv c \<Longrightarrow> fst ` set (column_iter c) = set (entities c)"
  using indexed_len[of "{}" c] by (simp add: column_iter_def col_inv_def flip: set_map)

lemma column_insert_fresh:
  assumes "col_inv c" "length (entities c) < 2 ^ 32" "eid e \<notin> eid ` set (entities c)"
  obtains c' where "column_insert dbg e v c = Some c'" "col_inv c'"
    and "set (column_iter c') = insert (e, v) (set (column_iter c))"
proof -
  let ?g = "grow_sparse (eid e) c"
  have g: "indexed {eid e} ?g"
    using assms(1) indexed_grow indexed_weaken unfolding col_inv_def by (metis empty_subsetI)
  have "sparse ?g ! eid e = None"
  proof (rule ccontr)
    assume "sparse ?g ! eid e \<noteq> None"
    then obtain d where "sparse ?g ! eid e = Some d" by auto
    then have "d < length (entities c) \<and> eid (entities c ! d) = eid e"
      using dense_cell[of ?g "eid e" d] assms(1) indexed_grow[of "{}" c]
      by (simp add: col_inv_def)
    then show False using assms(3) by (metis image_eqI nth_mem)
  qed
  then have "column_insert dbg e v c = push_entry dbg e v ?g"
    by (simp add: column_insert_def Let_def)
  moreover obtain c' where "push_entry dbg e v ?g = Some c'" "col_inv c'"
    "column_iter c' = column_iter ?g @ [(e, v)]"
    using push_entry_spec[OF g, of dbg v] assms by auto
  ultimately show ?thesis
    using that by (simp add: column_iter_def)
qed

lemma column_insert_same:
  assumes "col_inv c" "e \<in> set (entities c)"
  obtains c' where "column_insert dbg e v c = Some c'" "col_inv c'"
    and "set (column_iter c') = insert (e, v) {(e', x) \<in> set (column_iter c). e' \<noteq> e}"
proof -
  let ?g = "grow_sparse (eid e) c"
  have g: "col_inv ?g" using assms(1) indexed_grow by (simp add: col_inv_def)
  obtain d where d: "d < length (entities c)" "entities c ! d = e"
    using assms(2) by (metis in_set_conv_nth)
  have len: "length (dense c) = length (entities c)"
    using assms(1) indexed_len by (auto simp: col_inv_def)
  have "sparse ?g ! eid e = Some d" using dense_cell[OF g, of "eid e" d] d by simp
  then have ins: "column_insert dbg e v c = Some (?g\<lparr>dense := (dense c)[d := v]\<rparr>)"
    using d len by (simp add: column_insert_def Let_def)
  have "set (zip (entities c) ((dense c)[d := v])) =
      insert (e, v) {(e', x) \<in> set (zip (entities c) (dense c)). e' \<noteq> e}"
  proof -
    have "distinct (entities c)"
      using assms(1) indexed_distinct[of "{}" c] by (simp add: col_inv_def distinct_map)
    then have "\<forall>k < length (entities c). entities c ! k = e \<longleftrightarrow> k = d"
      using d nth_eq_iff_index_eq by blast
    then show ?thesis
      using d len by (auto simp: set_zip nth_list_update)
  qed
  then have "set (column_iter (?g\<lparr>dense := (dense c)[d := v]\<rparr>)) =
      insert (e, v) {(e', x) \<in> set (column_iter c). e' \<noteq> e}"
    by (simp add: column_iter_def)
  moreover have "col_inv (?g\<lparr>dense := (dense c)[d := v]\<rparr>)"
    using g by (simp add: col_inv_def indexed_def)
  ultimately show ?thesis using that ins by blast
qed

lemma evicting_debug_check:
  assumes "indexed {} c" "d < length (entities c)"
  shows "\<not> check_invariants (removed_entry d c)"
proof -
  let ?es = "entities c" and ?i = "eid (entities c ! d)"
  have dist: "distinct (map eid ?es)" and ne: "?es \<noteq> []"
    using assms indexed_distinct by fastforce+
  have i: "?i < length (sparse c)" "sparse c ! ?i = Some d"
    using assms indexed_range indexed_cell by fastforce+
  show ?thesis
  proof (cases "d = length ?es - 1")
    case True
    then show ?thesis using i by (auto simp: check_invariants_iff removed_entry_def)
  next
    case False
    then have dl: "d < length ?es - 1" using assms(2) by simp
    have "eid (last ?es) \<noteq> ?i"
      using eid_inj[OF dist, of "length ?es - 1" d] ne assms(2) False
      by (auto simp: last_conv_nth)
    moreover from this have "sparse (removed_entry d c) ! ?i = Some d"
      using i False by (simp add: removed_entry_def)
    moreover have "entities (removed_entry d c) ! d = last ?es"
      using dl by (simp add: removed_entry_def nth_swap_remove)
    moreover have "?i < length (sparse (removed_entry d c))"
      using i(1) False unfolding removed_entry_def by simp
    ultimately show ?thesis by (metis check_invariants_iff)
  qed
qed

lemma column_iter_same_id:
  assumes "col_inv c" "(a, x) \<in> set (column_iter c)" "(b, y) \<in> set (column_iter c)" "eid a = eid b"
  shows "a = b \<and> x = y"
proof -
  have "column_get c a = Some x" "column_get c b = Some y"
    using assms by (simp_all add: column_get_iff)
  then show ?thesis
    using column_get_same_id[OF assms(1), of a x b y] assms(4) by auto
qed

lemma iter_without_id:
  assumes "col_inv c" "d < length (entities c)"
  shows "set (column_iter c) - {(entities c ! d, dense c ! d)} =
     {(e', x) \<in> set (column_iter c). eid e' \<noteq> eid (entities c ! d)}"
proof -
  have "(entities c ! d, dense c ! d) \<in> set (column_iter c)"
    using assms indexed_len[of "{}" c] by (auto simp: column_iter_def col_inv_def set_zip)
  then show ?thesis
    by (auto dest: column_iter_same_id[OF assms(1)])
qed

lemma column_insert_evict:
  assumes inv: "col_inv c" and d: "d < length (entities c)" "eid (entities c ! d) = eid e"
    and stale: "entities c ! d \<noteq> e"
  shows "column_insert True e v c = None"
    and "\<exists>c'. column_insert False e v c = Some c' \<and> col_inv c' \<and>
       set (column_iter c') = insert (e, v) {(e', x) \<in> set (column_iter c). eid e' \<noteq> eid e}"
proof -
  let ?g = "grow_sparse (eid e) c"
  have g: "col_inv ?g" using inv indexed_grow by (simp add: col_inv_def)
  have cell: "sparse ?g ! eid e = Some d" using dense_cell[OF g, of "eid e" d] d by simp
  have gen: "egen (entities c ! d) \<noteq> egen e" using stale d(2) by (metis entity.expand)
  note rem = remove_dense_entry_eq[of "{}" ?g d, folded col_inv_def, OF g]
  show "column_insert True e v c = None"
    using rem[of True] evicting_debug_check[of ?g d] g d cell gen
    by (simp add: column_insert_def Let_def col_inv_def)
  have ix: "indexed {eid e} (removed_entry d ?g)"
    using removed_entry_indexed[of "{eid e}" ?g d] indexed_weaken[of "{}" ?g "{eid e}"] g d
    by (simp add: col_inv_def)
  have iter: "set (column_iter (removed_entry d ?g)) =
      {(e', x) \<in> set (column_iter c). eid e' \<noteq> eid e}"
    using removed_entry_set[of "{}" ?g d] iter_without_id[OF g, of d] g d
    by (simp add: col_inv_def column_iter_def)
  then have fresh: "eid e \<notin> eid ` set (entities (removed_entry d ?g))"
    using indexed_len[OF ix] by (auto simp: column_iter_def set_zip in_set_conv_nth image_iff)
      (metis (mono_tags, lifting) case_prod_conv mem_Collect_eq)
  have len: "length (sparse (removed_entry d ?g)) = length (sparse ?g)"
    "length (entities (removed_entry d ?g)) < 2 ^ 32"
    using indexed_bound[of "{}" c] inv d(1) by (auto simp: removed_entry_def col_inv_def)
  obtain c' where "push_entry False e v (removed_entry d ?g) = Some c'" "col_inv c'"
    "column_iter c' = column_iter (removed_entry d ?g) @ [(e, v)]"
    using push_entry_spec[OF ix fresh _ len(2), of False v] len(1) by auto
  moreover have "column_insert False e v c = push_entry False e v (removed_entry d ?g)"
    using rem[of False] d cell gen by (simp add: column_insert_def Let_def)
  ultimately show "\<exists>c'. column_insert False e v c = Some c' \<and> col_inv c' \<and>
       set (column_iter c') = insert (e, v) {(e', x) \<in> set (column_iter c). eid e' \<noteq> eid e}"
    using iter by auto
qed

text \<open>Insert and remove in general, as equations on the set of entries.\<close>

lemma column_insert_iter:
  assumes inv: "col_inv c" and room: "length (entities c) < 2 ^ 32" and ok: "dbg \<longrightarrow> no_stale e c"
  shows "\<exists>c'. column_insert dbg e v c = Some c' \<and> col_inv c' \<and>
     set (column_iter c') = insert (e, v) {(e', x) \<in> set (column_iter c). eid e' \<noteq> eid e}"
proof (cases "eid e \<in> eid ` set (entities c)")
  case False
  have "eid a \<noteq> eid e" if "(a, x) \<in> set (column_iter c)" for a x
    using that False column_iter_keys[OF inv] by (metis fst_conv image_eqI)
  then have "{(e', x) \<in> set (column_iter c). eid e' \<noteq> eid e} = set (column_iter c)"
    by auto
  then show ?thesis using column_insert_fresh[OF inv room False, of dbg v] by metis
next
  case True
  then obtain d where d: "d < length (entities c)" "eid (entities c ! d) = eid e"
    by (metis imageE in_set_conv_nth)
  show ?thesis
  proof (cases "entities c ! d = e")
    case True
    then have e_in: "e \<in> set (entities c)" using d by (metis nth_mem)
    have "e' \<noteq> e \<longleftrightarrow> eid e' \<noteq> eid e" if e': "(e', x) \<in> set (column_iter c)" for e' x
    proof -
      have "e \<in> fst ` set (column_iter c)"
        using e_in column_iter_keys[OF inv] by simp
      then obtain y where "(e, y) \<in> set (column_iter c)" by auto
      then show ?thesis using column_iter_same_id[OF inv e'] by auto
    qed
    then have same: "{(e', x) \<in> set (column_iter c). eid e' \<noteq> eid e} =
        {(e', x) \<in> set (column_iter c). e' \<noteq> e}" by fast
    show ?thesis
      unfolding same by (rule column_insert_same[OF inv e_in, of dbg v]) simp
  next
    case stale: False
    have "\<not> dbg"
    proof
      assume dbg
      then have "no_stale e c" using ok by simp
      then show False using d stale by (auto simp: no_stale_def)
    qed
    then show ?thesis using column_insert_evict(2)[OF inv d stale] by simp
  qed
qed

lemma column_insert_get:
  assumes "col_inv c" "length (entities c) < 2 ^ 32" "dbg \<longrightarrow> no_stale e c"
  shows "\<exists>c'. column_insert dbg e v c = Some c' \<and> col_inv c' \<and>
     (\<forall>e'. column_get c' e' =
        (if e' = e then Some v else if eid e' = eid e then None else column_get c e'))"
proof -
  obtain c' where c': "column_insert dbg e v c = Some c'" "col_inv c'"
    "set (column_iter c') = insert (e, v) {(e', x) \<in> set (column_iter c). eid e' \<noteq> eid e}"
    using column_insert_iter[OF assms, of v] by blast
  have "column_get c' e' = (if e' = e then Some v else if eid e' = eid e then None else column_get c e')"
    for e'
  proof -
    have "column_get c' e' = Some x \<longleftrightarrow> e' = e \<and> x = v \<or> column_get c e' = Some x \<and> eid e' \<noteq> eid e"
      for x using c'(2,3) assms(1) by (auto simp: column_get_iff)
    then show ?thesis
      by (cases "column_get c' e'") (auto, (metis option.exhaust)+)
  qed
  then show ?thesis using c' by blast
qed

lemma column_remove_get:
  assumes inv: "col_inv c"
  shows "\<exists>c'. column_remove dbg e c = Some (column_get c e, c') \<and> col_inv c' \<and>
     (\<forall>e'. column_get c' e' = (if e' = e then None else column_get c e'))"
proof (cases "dense_index c e")
  case None
  then have "column_get c e = None" by (simp add: column_get_def)
  then show ?thesis using None inv by (simp add: column_remove_def)
next
  case (Some d)
  let ?c0 = "c\<lparr>sparse := (sparse c)[eid e := None]\<rparr>"
  have d: "d < length (entities c)" "entities c ! d = e" using Some dense_index_iff[OF inv] by auto
  have len: "length (dense c) = length (entities c)"
    using inv indexed_len by (auto simp: col_inv_def)
  have ix: "indexed {eid e} ?c0"
    using inv by (auto simp: col_inv_def indexed_def)
  have ixr: "indexed {eid e} (removed_entry d ?c0)" using removed_entry_indexed[OF ix, of d] d by simp
  have none: "sparse (removed_entry d ?c0) ! eid e = None"
  proof (cases "d = length (entities c) - 1")
    case False
    then have "eid (last (entities c)) \<noteq> eid e"
      using d eid_inj[of "entities c" "length (entities c) - 1" d] inv indexed_distinct[of "{}" c]
      by (cases "entities c = []") (auto simp: last_conv_nth col_inv_def)
    then show ?thesis
      using False dense_cell[OF inv, of "eid e" d] indexed_range[of "{}" c e] inv d
      by (auto simp: removed_entry_def col_inv_def)
  qed (use indexed_range[of "{}" c e] inv d in \<open>auto simp: removed_entry_def col_inv_def\<close>)
  have iter: "set (column_iter (removed_entry d ?c0)) =
      {(e', x) \<in> set (column_iter c). eid e' \<noteq> eid e}"
    using removed_entry_set[OF ix, of d] iter_without_id[OF inv d(1)] d
    by (simp add: column_iter_def)
  have fresh: "eid x \<noteq> eid e" if "x \<in> set (entities (removed_entry d ?c0))" for x
  proof -
    have "x \<in> fst ` set (column_iter (removed_entry d ?c0))"
      using that indexed_len[OF ixr] by (simp add: column_iter_def flip: set_map)
    then show ?thesis using iter by auto
  qed
  have inv': "col_inv (removed_entry d ?c0)"
    unfolding col_inv_def
  proof (rule indexedI)
    fix i k
    assume "i < length (sparse (removed_entry d ?c0))"
    then show "sparse (removed_entry d ?c0) ! i = Some k \<longleftrightarrow>
        k < length (entities (removed_entry d ?c0)) \<and> eid (entities (removed_entry d ?c0) ! k) = i"
      using indexed_cell[OF ixr, of i k] none fresh nth_mem by (cases "i = eid e") fastforce+
  qed (use indexed_len[OF ixr] indexed_bound[OF ixr] indexed_distinct[OF ixr] indexed_range[OF ixr]
       in auto)
  have get: "column_get (removed_entry d ?c0) e' = (if e' = e then None else column_get c e')" for e'
  proof -
    have "column_get (removed_entry d ?c0) e' = Some x \<longleftrightarrow> column_get c e' = Some x \<and> e' \<noteq> e" for x
      using iter column_get_iff[OF inv'] column_get_iff[OF inv] d len column_iter_same_id[OF inv]
        nth_mem[of d "column_iter c"]
      by (auto simp: column_iter_def)
    then show ?thesis by (metis not_Some_eq)
  qed
  have "column_remove dbg e c = Some (Some (dense c ! d), removed_entry d ?c0)"
    using Some d remove_dense_entry_eq[OF ix, of d] col_inv_check[OF inv']
    by (simp add: column_remove_def)
  moreover have "column_get c e = Some (dense c ! d)"
    using Some d len by (simp add: column_get_def nth_opt_def)
  ultimately show ?thesis using inv' get by auto
qed

lemma column_update_get:
  assumes inv: "col_inv c"
  shows "col_inv (column_update e f c)"
    and "column_get (column_update e f c) e' =
       (if e' = e then map_option f (column_get c e) else column_get c e')"
proof -
  have len: "length (dense c) = length (entities c)"
    using inv indexed_len by (auto simp: col_inv_def)
  show "col_inv (column_update e f c)"
    using inv by (auto simp: column_update_def col_inv_def indexed_def split: option.split)
  have idx: "dense_index (column_update e f c) a = dense_index c a" for a
    by (simp add: column_update_def dense_index_def split: option.split)
  have inj: "dense_index c e = Some d \<Longrightarrow> dense_index c e' = Some d \<Longrightarrow> e' = e" for d
    using dense_index_iff[OF inv] by metis
  show "column_get (column_update e f c) e' =
       (if e' = e then map_option f (column_get c e) else column_get c e')"
    unfolding column_get_def idx using inj
    by (auto simp: column_update_def nth_opt_def nth_list_update split: option.split)
qed

lemma column_clear_spec:
  "col_inv (column_clear c)" "column_get (column_clear c) e = None" "column_len (column_clear c) = 0"
proof -
  show inv: "col_inv (column_clear c)"
    by (simp add: col_inv_def indexed_def column_clear_def)
  show "column_get (column_clear c) e = None"
    by (simp add: column_get_map_of[OF inv]) (simp add: column_iter_def column_clear_def)
qed (simp add: column_len_def column_clear_def)

lemma column_get_new [simp]: "column_get column_new e = None"
  by (simp add: column_get_def dense_index_def column_new_def nth_opt_def)

subsection \<open>The interface the world relies on\<close>

text \<open>
  \<open>gen_store\<close>: a store of one value per entity id, tagged with the generation it was written
  for. Writing for a handle makes every other generation of that id invisible; removing needs the
  matching handle; a lookup with the handle of another generation sees nothing.
\<close>

locale gen_store =
  fixes inv :: "'c \<Rightarrow> bool"
    and room :: "'c \<Rightarrow> bool"
    and empty :: "'c"
    and ins :: "entity \<Rightarrow> 'a \<Rightarrow> 'c \<Rightarrow> 'c option"
    and rem :: "entity \<Rightarrow> 'c \<Rightarrow> ('a option \<times> 'c) option"
    and look :: "'c \<Rightarrow> entity \<Rightarrow> 'a option"
  assumes inv_empty: "inv empty"
    and look_empty: "look empty e = None"
    and ins: "inv c \<Longrightarrow> room c \<Longrightarrow> \<exists>c'. ins e v c = Some c' \<and> inv c' \<and>
       (\<forall>e'. look c' e' = (if e' = e then Some v else if eid e' = eid e then None else look c e'))"
    and rem: "inv c \<Longrightarrow> \<exists>c'. rem e c = Some (look c e, c') \<and> inv c' \<and>
       (\<forall>e'. look c' e' = (if e' = e then None else look c e'))"
    and one_generation: "inv c \<Longrightarrow> look c e = Some v \<Longrightarrow> look c e' = Some v' \<Longrightarrow>
       eid e = eid e' \<Longrightarrow> e = e'"
begin

lemma insE:
  assumes "inv c" "room c" "ins e v c = Some c'"
  shows "inv c'" "look c' e' = (if e' = e then Some v else if eid e' = eid e then None else look c e')"
  using ins[OF assms(1,2), of e v] assms(3) by auto

lemma remE:
  assumes "inv c" "rem e c = Some (r, c')"
  shows "inv c'" "r = look c e" "look c' e' = (if e' = e then None else look c e')"
  using rem[OF assms(1), of e] assms(2) by auto

text \<open>A slot that is reused for a newer generation hides what older handles stored.\<close>

lemma ins_hides_other_generations:
  assumes "inv c" "room c" "ins e v c = Some c'" "eid stale = eid e" "stale \<noteq> e"
  shows "look c' stale = None" "\<exists>c''. rem stale c' = Some (None, c'') \<and> (\<forall>x. look c'' x = look c' x)"
proof -
  show *: "look c' stale = None" using insE(2)[OF assms(1-3)] assms(4,5) by simp
  show "\<exists>c''. rem stale c' = Some (None, c'') \<and> (\<forall>x. look c'' x = look c' x)"
    using rem[OF insE(1)[OF assms(1-3)], of stale] * by force
qed

lemma ins_rem_roundtrip:
  assumes "inv c" "room c" "ins e v c = Some c'"
  shows "\<exists>c''. rem e c' = Some (Some v, c'') \<and>
     (\<forall>x. look c'' x = (if eid x = eid e then None else look c x))"
proof -
  have "look c' e = Some v" using insE(2)[OF assms] by simp
  then obtain c'' where "rem e c' = Some (Some v, c'')"
    and "\<And>x. look c'' x = (if x = e then None else look c' x)"
    using rem[OF insE(1)[OF assms], of e] by auto
  then show ?thesis using insE(2)[OF assms] by auto
qed

end

interpretation col: gen_store col_inv "\<lambda>c. length (entities c) < 2 ^ 32" column_new
    "column_insert False" "column_remove dbg" column_get
proof (unfold_locales, goal_cases)
  case (3 c e v)
  then show ?case using column_insert_get[of c False e v] by simp
next
  case (4 c e)
  then show ?case by (rule column_remove_get)
next
  case (5 c e v e' v')
  then show ?case by (rule column_get_same_id)
qed simp_all

end
