(* ===== verification/Ecs_World.thy ===== *)
theory Ecs_World
  imports Sparse_Column
begin

text \<open>
  The ECS world of \<open>prism-ecs-core\<close>: entity slots with generations, the free list, the component
  store (one column per component type), resources, staging, the mutation policy and the queries
  (\<open>world.rs\<close>, \<open>store.rs\<close>, \<open>query.rs\<close>, \<open>mutation.rs\<close>, \<open>error.rs\<close>). Component and resource
  types are their \<open>TypeId\<close>, a natural number; values of all types share the type \<open>'v\<close>. The
  type-erased extension map is the record extension: the field the core reads itself is the world
  epoch; other crates extend the record. Operations that can panic or fail return an \<open>outcome\<close>;
  \<open>dbg\<close> is passed on to the columns. Generations wrap at 32 bits as in a release build.
\<close>

subsection \<open>Data\<close>

datatype entity_kind = Node | Pipeline | Model | Tensor | Layer | Expert | Dispatch | Kernel
  | KernelVariant | Buffer | CommandBuffer | Executable | Fence | Session | Artifact | Device
  | Residency | Agent | WorkGroup | WorkUnit

datatype mutation_policy_t = TransactionalOnly | ControlledDirect | Bootstrap | TestHarness

fun direct_mutations_allowed :: "mutation_policy_t \<Rightarrow> bool" where
  "direct_mutations_allowed ControlledDirect = True"
| "direct_mutations_allowed Bootstrap = True"
| "direct_mutations_allowed TestHarness = True"
| "direct_mutations_allowed TransactionalOnly = False"

type_synonym type_id = nat

datatype world_error = StaleHandle entity | DirectMutationDisallowed string
  | EntityCapacityExceeded nat nat | EntityNotFound entity | DuplicateComponent entity type_id
  | MissingComponent entity type_id | MissingResource type_id | DuplicateResource type_id
  | TypeMismatch string string | CapacityExhausted string | MutationPolicyViolation string
  | BorrowConflict string | InvalidPendingEntity string | InvariantViolation string

datatype entity_allocation = NewSlot | ReusedSlot "32 word"

record occupant_t =
  okind :: entity_kind
  oname :: "string option"

record entity_slot =
  generation :: "32 word"
  occupant :: "occupant_t option"

type_synonym 'v component_store = "type_id \<rightharpoonup> 'v column"

record 'v world =
  component_store :: "'v component_store"
  resource_store :: "type_id \<rightharpoonup> 'v"
  entity_meta :: "entity_slot option list"
  next_id :: nat
  free_list :: "nat list"
  staging :: "(type_id \<times> entity \<times> 'v) list"
  component_versions :: "entity \<rightharpoonup> nat"
  mutation_policy :: mutation_policy_t
  epoch_ext :: "nat option"

definition world_new :: "'v world" where
  "world_new = \<lparr>component_store = Map.empty, resource_store = Map.empty, entity_meta = [],
     next_id = 1, free_list = [], staging = [], component_versions = Map.empty,
     mutation_policy = Bootstrap, epoch_ext = None\<rparr>"

subsection \<open>The component store\<close>

definition column_or_new :: "type_id \<Rightarrow> 'v component_store \<Rightarrow> 'v column" where
  "column_or_new t s = (case s t of None \<Rightarrow> column_new | Some c \<Rightarrow> c)"

definition store_insert :: "bool \<Rightarrow> type_id \<Rightarrow> entity \<Rightarrow> 'v \<Rightarrow> 'v component_store \<Rightarrow> 'v component_store option" where
  "store_insert dbg t e v s = map_option (\<lambda>c. s(t \<mapsto> c)) (column_insert dbg e v (column_or_new t s))"

definition store_get :: "'v component_store \<Rightarrow> type_id \<Rightarrow> entity \<Rightarrow> 'v option" where
  "store_get s t e = (case s t of None \<Rightarrow> None | Some c \<Rightarrow> column_get c e)"

definition store_remove :: "bool \<Rightarrow> type_id \<Rightarrow> entity \<Rightarrow> 'v component_store \<Rightarrow> ('v option \<times> 'v component_store) option" where
  "store_remove dbg t e s =
     map_option (\<lambda>(r, c). (r, s(t \<mapsto> c))) (column_remove dbg e (column_or_new t s))"

definition store_update :: "type_id \<Rightarrow> entity \<Rightarrow> ('v \<Rightarrow> 'v) \<Rightarrow> 'v component_store \<Rightarrow> 'v component_store" where
  "store_update t e f s = s(t \<mapsto> column_update e f (column_or_new t s))"

definition store_contains :: "'v component_store \<Rightarrow> type_id \<Rightarrow> entity \<Rightarrow> bool" where
  "store_contains s t e = (case s t of None \<Rightarrow> False | Some c \<Rightarrow> column_has c e)"

subsection \<open>Entity lifetime\<close>

definition slot_at :: "('v, 'm) world_scheme \<Rightarrow> nat \<Rightarrow> entity_slot option" where
  "slot_at w i = (case nth_opt (entity_meta w) i of None \<Rightarrow> None | Some s \<Rightarrow> s)"

definition occupied :: "entity_slot option \<Rightarrow> bool" where
  "occupied s = (case s of None \<Rightarrow> False | Some sl \<Rightarrow> occupant sl \<noteq> None)"

definition validate_generation :: "('v, 'm) world_scheme \<Rightarrow> entity \<Rightarrow> bool" where
  "validate_generation w e =
     (if eid e = 0 then False
      else case slot_at w (eid e - 1) of
             None \<Rightarrow> False
           | Some slot \<Rightarrow> occupant slot \<noteq> None \<and> generation slot = egen e)"

definition is_alive :: "('v, 'm) world_scheme \<Rightarrow> entity \<Rightarrow> bool" where
  "is_alive w e = validate_generation w e"

definition has_entity :: "('v, 'm) world_scheme \<Rightarrow> entity \<Rightarrow> bool" where
  "has_entity w e = is_alive w e"

text \<open>
  The slot allocation of \<open>spawn\<close> and \<open>spawn_entity\<close>: reuse the most recently freed id (its
  generation is advanced), or take a fresh id. Ids in the free list are positive, since
  \<open>despawn\<close> pushes ids of live handles, so \<open>free - 1\<close> does not underflow.
\<close>

definition take_slot :: "occupant_t \<Rightarrow> ('v, 'm) world_scheme \<Rightarrow>
    (entity \<times> entity_allocation) \<times> ('v, 'm) world_scheme" where
  "take_slot occ w =
     (if free_list w \<noteq> [] then
        let free = last (free_list w); idx = free - 1;
            w1 = w\<lparr>free_list := butlast (free_list w)\<rparr>;
            fresh = Some \<lparr>generation = 0, occupant = Some occ\<rparr> in
        if idx < length (entity_meta w) then
          (case entity_meta w ! idx of
             Some slot \<Rightarrow>
               ((Entity free (generation slot + 1), ReusedSlot (generation slot)),
                w1\<lparr>entity_meta := (entity_meta w)[idx :=
                     Some \<lparr>generation = generation slot + 1, occupant = Some occ\<rparr>]\<rparr>)
           | None \<Rightarrow>
               ((Entity free 0, NewSlot), w1\<lparr>entity_meta := (entity_meta w)[idx := fresh]\<rparr>))
        else ((Entity free 0, NewSlot), w1\<lparr>entity_meta := entity_meta w @ [fresh]\<rparr>)
      else
        ((Entity (next_id w) 0, NewSlot),
         w\<lparr>next_id := next_id w + 1,
           entity_meta := entity_meta w @ [Some \<lparr>generation = 0, occupant = Some occ\<rparr>]\<rparr>))"

definition spawn :: "entity_kind \<Rightarrow> string option \<Rightarrow> ('v, 'm) world_scheme \<Rightarrow>
    (world_error, (entity \<times> entity_allocation) \<times> ('v, 'm) world_scheme) outcome" where
  "spawn kind nm w =
     (if \<not> direct_mutations_allowed (mutation_policy w)
      then Err (DirectMutationDisallowed ''spawn'')
      else Ok (take_slot \<lparr>okind = kind, oname = nm\<rparr> w))"

text \<open>\<open>spawn_entity\<close> asserts the policy (a panic) and reports the handle only.\<close>

definition spawn_entity :: "entity_kind \<Rightarrow> ('v, 'm) world_scheme \<Rightarrow>
    (entity \<times> ('v, 'm) world_scheme) option" where
  "spawn_entity kind w =
     (if \<not> direct_mutations_allowed (mutation_policy w) then None
      else let ((e, _), w') = take_slot \<lparr>okind = kind, oname = None\<rparr> w in Some (e, w'))"

text \<open>\<open>spawn_entity_with_id\<close>: id 0 underflows the index and panics.\<close>

definition spawn_entity_with_id :: "nat \<Rightarrow> entity_kind \<Rightarrow> ('v, 'm) world_scheme \<Rightarrow>
    (entity \<times> ('v, 'm) world_scheme) option" where
  "spawn_entity_with_id i kind w =
     (if i = 0 then None
      else let idx = i - 1 in
        case slot_at w idx of
          Some slot \<Rightarrow>
            if occupant slot \<noteq> None then Some (Entity i (generation slot), w)
            else Some (Entity i 0,
                   w\<lparr>entity_meta := (entity_meta w)[idx :=
                        Some \<lparr>generation = 0, occupant = Some \<lparr>okind = kind, oname = None\<rparr>\<rparr>],
                     next_id := (if next_id w \<le> i then i + 1 else next_id w)\<rparr>)
        | None \<Rightarrow>
            Some (Entity i 0,
                   w\<lparr>entity_meta :=
                        (entity_meta w @ replicate (idx + 1 - length (entity_meta w)) None)[idx :=
                        Some \<lparr>generation = 0, occupant = Some \<lparr>okind = kind, oname = None\<rparr>\<rparr>],
                     next_id := (if next_id w \<le> i then i + 1 else next_id w)\<rparr>))"

definition despawn :: "entity \<Rightarrow> ('v, 'm) world_scheme \<Rightarrow>
    (world_error, bool \<times> ('v, 'm) world_scheme) outcome" where
  "despawn e w =
     (if \<not> is_alive w e then Ok (False, w)
      else if \<not> validate_generation w e then Err (StaleHandle e)
      else let idx = eid e - 1;
               w1 = (case slot_at w idx of
                  Some slot \<Rightarrow> w\<lparr>entity_meta := (entity_meta w)[idx :=
                     Some \<lparr>generation = generation slot + 1, occupant = None\<rparr>]\<rparr>
                | None \<Rightarrow> w)
           in Ok (True, w1\<lparr>free_list := free_list w1 @ [eid e]\<rparr>))"

definition entity_kind_of :: "('v, 'm) world_scheme \<Rightarrow> entity \<Rightarrow> entity_kind option" where
  "entity_kind_of w e =
     (if \<not> validate_generation w e then None
      else case slot_at w (eid e - 1) of None \<Rightarrow> None | Some s \<Rightarrow> map_option okind (occupant s))"

definition world_name :: "('v, 'm) world_scheme \<Rightarrow> entity \<Rightarrow> string option" where
  "world_name w e =
     (if \<not> validate_generation w e then None
      else case slot_at w (eid e - 1) of
             None \<Rightarrow> None
           | Some s \<Rightarrow> (case occupant s of None \<Rightarrow> None | Some o' \<Rightarrow> oname o'))"

definition check_generation :: "('v, 'm) world_scheme \<Rightarrow> entity \<Rightarrow> bool \<times> 32 word" where
  "check_generation w e =
     (if eid e = 0 then (False, 0)
      else case slot_at w (eid e - 1) of
             Some slot \<Rightarrow> (occupant slot \<noteq> None \<and> generation slot = egen e, generation slot)
           | None \<Rightarrow> (False, 0))"

definition entity_ref :: "('v, 'm) world_scheme \<Rightarrow> entity \<Rightarrow> (world_error, entity \<times> 32 word) outcome" where
  "entity_ref w e =
     (let (alive, gen) = check_generation w e in
      if \<not> alive then Err (StaleHandle e) else Ok (e, gen))"

subsection \<open>Listing entities\<close>

text \<open>The scans over \<open>entity_meta\<close>: position \<open>i\<close> holds the entity with id \<open>i + 1\<close>.\<close>

definition all_entities :: "('v, 'm) world_scheme \<Rightarrow> entity list" where
  "all_entities w = List.map_filter
     (\<lambda>(i, slot). case slot of None \<Rightarrow> None
        | Some s \<Rightarrow> if occupant s \<noteq> None then Some (Entity (i + 1) (generation s)) else None)
     (enumerate 0 (entity_meta w))"

definition entity_count :: "('v, 'm) world_scheme \<Rightarrow> nat" where
  "entity_count w = length (filter occupied (entity_meta w))"

definition entities_of_kind :: "entity_kind \<Rightarrow> ('v, 'm) world_scheme \<Rightarrow> entity list" where
  "entities_of_kind k w = map
     (\<lambda>(i, slot). Entity (i + 1) (case slot of None \<Rightarrow> 0 | Some s \<Rightarrow> generation s))
     (filter (\<lambda>(i, slot). case slot of None \<Rightarrow> False
          | Some s \<Rightarrow> (case occupant s of None \<Rightarrow> False | Some o' \<Rightarrow> okind o' = k))
       (enumerate 0 (entity_meta w)))"

subsection \<open>The allocation invariant\<close>

text \<open>
  Ids run from 1 to \<open>next_id - 1\<close>, one slot each; the free list names each vacated slot at most
  once and no occupied one; every column keeps its own invariant.
\<close>

definition vacated :: "('v, 'm) world_scheme \<Rightarrow> nat \<Rightarrow> bool" where
  "vacated w i \<longleftrightarrow> i \<noteq> 0 \<and> (\<exists>s. slot_at w (i - 1) = Some s \<and> occupant s = None)"

definition store_inv :: "'v component_store \<Rightarrow> bool" where
  "store_inv s \<longleftrightarrow> (\<forall>t c. s t = Some c \<longrightarrow> col_inv c)"

definition world_inv :: "('v, 'm) world_scheme \<Rightarrow> bool" where
  "world_inv w \<longleftrightarrow> next_id w = length (entity_meta w) + 1 \<and> distinct (free_list w) \<and>
     (\<forall>i \<in> set (free_list w). vacated w i) \<and> store_inv (component_store w)"

lemma world_invI:
  assumes "next_id w = length (entity_meta w) + 1" "distinct (free_list w)"
    and "\<And>i. i \<in> set (free_list w) \<Longrightarrow> vacated w i" "store_inv (component_store w)"
  shows "world_inv w"
  using assms by (simp add: world_inv_def)

lemma world_inv_new [simp]: "world_inv world_new"
  by (simp add: world_inv_def world_new_def store_inv_def)

lemma slot_at_Some: "slot_at w i = Some s \<longleftrightarrow> i < length (entity_meta w) \<and> entity_meta w ! i = Some s"
  by (auto simp: slot_at_def nth_opt_def)

lemma is_alive_iff:
  "is_alive w e \<longleftrightarrow> eid e \<noteq> 0 \<and>
     (\<exists>s. slot_at w (eid e - 1) = Some s \<and> occupant s \<noteq> None \<and> generation s = egen e)"
  by (auto simp: is_alive_def validate_generation_def split: option.split)

lemma is_alive_inj: "is_alive w e \<Longrightarrow> is_alive w e' \<Longrightarrow> eid e = eid e' \<Longrightarrow> e = e'"
  by (auto simp: is_alive_iff intro: entity.expand)

lemma alive_not_vacated: "is_alive w e \<Longrightarrow> \<not> vacated w (eid e)"
  by (auto simp: is_alive_iff vacated_def)

lemma alive_not_free: "world_inv w \<Longrightarrow> is_alive w e \<Longrightarrow> eid e \<notin> set (free_list w)"
  using alive_not_vacated by (auto simp: world_inv_def)

lemma alive_cong:
  assumes "\<And>i. slot_at w' i = slot_at w i"
  shows "is_alive w' e = is_alive w e" "vacated w' i = vacated w i"
    and "entity_kind_of w' e = entity_kind_of w e" "world_name w' e = world_name w e"
  using assms
  by (simp_all add: is_alive_def validate_generation_def vacated_def entity_kind_of_def world_name_def)

text \<open>One slot changes: liveness elsewhere does not.\<close>

lemma alive_other:
  assumes "\<And>i. i \<noteq> j \<Longrightarrow> slot_at w' i = slot_at w i" "eid e \<noteq> j + 1"
  shows "is_alive w' e = is_alive w e" "entity_kind_of w' e = entity_kind_of w e"
proof -
  have "eid e = 0 \<or> eid e - 1 \<noteq> j" using assms(2) by auto
  then show "is_alive w' e = is_alive w e" "entity_kind_of w' e = entity_kind_of w e"
    using assms(1) by (auto simp: is_alive_def validate_generation_def entity_kind_of_def)
qed

lemma vacated_other:
  assumes "\<And>i. i \<noteq> j \<Longrightarrow> slot_at w' i = slot_at w i" "i \<noteq> j + 1"
  shows "vacated w' i = vacated w i"
  using assms by (cases i) (auto simp: vacated_def)

lemma slot_at_update:
  assumes "j < length (entity_meta w)"
  shows "slot_at (w\<lparr>entity_meta := (entity_meta w)[j := s]\<rparr>) i = (if i = j then s else slot_at w i)"
  using assms by (auto simp: slot_at_def nth_opt_def)

lemma slot_at_append:
  "slot_at (w\<lparr>entity_meta := entity_meta w @ [s]\<rparr>) i =
     (if i = length (entity_meta w) then s else slot_at w i)"
  by (auto simp: slot_at_def nth_opt_def nth_append)

lemma slot_at_more [simp]:
  "slot_at (w\<lparr>free_list := f\<rparr>) i = slot_at w i" "slot_at (w\<lparr>next_id := n\<rparr>) i = slot_at w i"
  "slot_at (w\<lparr>component_store := cs\<rparr>) i = slot_at w i"
  "slot_at (w\<lparr>component_versions := cv\<rparr>) i = slot_at w i"
  "slot_at (w\<lparr>epoch_ext := ep\<rparr>) i = slot_at w i" "slot_at (w\<lparr>staging := st\<rparr>) i = slot_at w i"
  by (simp_all add: slot_at_def)

subsection \<open>Spawning\<close>

text \<open>What \<open>take_slot\<close> does, in one statement: which slot changes, and the rest of the state.\<close>

lemma take_slot_reuse:
  assumes "world_inv w" "free_list w \<noteq> []"
  obtains s where "slot_at w (last (free_list w) - 1) = Some s" "occupant s = None"
    and "take_slot occ w = ((Entity (last (free_list w)) (generation s + 1), ReusedSlot (generation s)),
       w\<lparr>free_list := butlast (free_list w), entity_meta := (entity_meta w)[last (free_list w) - 1 :=
           Some \<lparr>generation = generation s + 1, occupant = Some occ\<rparr>]\<rparr>)"
proof -
  let ?f = "last (free_list w)"
  have "vacated w ?f" using assms by (simp add: world_inv_def)
  then obtain s where s: "slot_at w (?f - 1) = Some s" "occupant s = None"
    by (auto simp: vacated_def)
  then have "take_slot occ w = ((Entity ?f (generation s + 1), ReusedSlot (generation s)),
       w\<lparr>free_list := butlast (free_list w), entity_meta := (entity_meta w)[?f - 1 :=
           Some \<lparr>generation = generation s + 1, occupant = Some occ\<rparr>]\<rparr>)"
    using assms(2) by (simp add: take_slot_def Let_def slot_at_Some)
  then show ?thesis using that s by blast
qed

text \<open>\<open>spawned\<close> relates the world before and after a spawn of \<open>e\<close>.\<close>

definition spawned :: "occupant_t \<Rightarrow> entity \<Rightarrow> ('v, 'm) world_scheme \<Rightarrow> ('v, 'm) world_scheme \<Rightarrow> bool" where
  "spawned occ e w w' \<longleftrightarrow> eid e \<noteq> 0 \<and>
     slot_at w' (eid e - 1) = Some \<lparr>generation = egen e, occupant = Some occ\<rparr> \<and>
     (\<forall>i. i \<noteq> eid e - 1 \<longrightarrow> slot_at w' i = slot_at w i) \<and>
     \<not> occupied (slot_at w (eid e - 1)) \<and> component_store w' = component_store w"

lemma take_slot_spec:
  assumes "world_inv w" "take_slot occ w = ((e, alloc), w')"
  shows "world_inv w' \<and> spawned occ e w w' \<and>
    (alloc = NewSlot \<longrightarrow> slot_at w (eid e - 1) = None) \<and>
    (\<forall>s. slot_at w (eid e - 1) = Some s \<longrightarrow> egen e = generation s + 1)"
proof (cases "free_list w = []")
  case True
  have e: "e = Entity (next_id w) 0" "alloc = NewSlot" and
    w': "w' = w\<lparr>next_id := next_id w + 1,
           entity_meta := entity_meta w @ [Some \<lparr>generation = 0, occupant = Some occ\<rparr>]\<rparr>"
    using assms(2) True by (auto simp: take_slot_def)
  have n: "next_id w - 1 = length (entity_meta w)" "next_id w \<noteq> 0"
    using assms(1) by (simp_all add: world_inv_def)
  have sl: "slot_at w' i = (if i = length (entity_meta w)
      then Some \<lparr>generation = 0, occupant = Some occ\<rparr> else slot_at w i)" for i
    unfolding w' using slot_at_append[of "w\<lparr>next_id := next_id w + 1\<rparr>"] by simp
  have old: "slot_at w (length (entity_meta w)) = None" by (simp add: slot_at_def nth_opt_def)
  show ?thesis
    using assms(1) True e n old unfolding spawned_def sl
    by (auto simp: world_inv_def w' occupied_def)
next
  case False
  let ?f = "last (free_list w)"
  obtain s where s: "slot_at w (?f - 1) = Some s" "occupant s = None"
    and e: "e = Entity ?f (generation s + 1)" "alloc = ReusedSlot (generation s)"
    and w': "w' = w\<lparr>free_list := butlast (free_list w), entity_meta := (entity_meta w)[?f - 1 :=
           Some \<lparr>generation = generation s + 1, occupant = Some occ\<rparr>]\<rparr>"
    using take_slot_reuse[OF assms(1) False, of occ] assms(2) by (metis Pair_inject)
  have f0: "?f \<noteq> 0" using assms(1) False by (auto simp: world_inv_def vacated_def)
  have lt: "?f - 1 < length (entity_meta w)" using s(1) by (simp add: slot_at_Some)
  have sl: "slot_at w' i = (if i = ?f - 1
      then Some \<lparr>generation = generation s + 1, occupant = Some occ\<rparr> else slot_at w i)" for i
    unfolding w' using slot_at_update[of "?f - 1" "w\<lparr>free_list := butlast (free_list w)\<rparr>"] lt by simp
  have notin: "?f \<notin> set (butlast (free_list w))"
  proof -
    have "distinct (butlast (free_list w) @ [?f])"
      using assms(1) False by (simp add: world_inv_def)
    then show ?thesis by simp
  qed
  have inv: "world_inv w'"
  proof (rule world_invI)
    fix i assume "i \<in> set (free_list w')"
    then have "i \<noteq> ?f" "vacated w i"
      using assms(1) notin by (auto simp: w' world_inv_def dest: in_set_butlastD)
    then show "vacated w' i" using vacated_other[of "?f - 1" w' w i] sl f0 by simp
  qed (use assms(1) in \<open>auto simp: w' world_inv_def distinct_butlast\<close>)
  then show ?thesis
    using s e f0 sl by (simp add: spawned_def occupied_def w')
qed

lemma spawned_alive:
  assumes "spawned occ e w w'"
  shows "is_alive w' e" "\<not> is_alive w e" "entity_kind_of w' e = Some (okind occ)"
    and "world_name w' e = oname occ" "x \<noteq> e \<Longrightarrow> is_alive w' x = is_alive w x"
proof -
  show a: "is_alive w' e" "\<not> is_alive w e"
    using assms by (auto simp: spawned_def is_alive_iff occupied_def)
  show "entity_kind_of w' e = Some (okind occ)" "world_name w' e = oname occ"
    using a(1) assms by (auto simp: entity_kind_of_def world_name_def is_alive_def spawned_def)
  assume "x \<noteq> e"
  show "is_alive w' x = is_alive w x"
  proof (cases "eid x = eid e")
    case True
    then show ?thesis
      using assms \<open>x \<noteq> e\<close> a(1) is_alive_inj[of w' x e]
      by (auto simp: spawned_def is_alive_iff occupied_def)
  next
    case False
    then show ?thesis using assms by (intro alive_other(1)[of "eid e - 1"]) (auto simp: spawned_def)
  qed
qed

subsection \<open>Despawning and reserved ids\<close>

lemma despawn_alive:
  assumes "world_inv w" "is_alive w e"
  obtains s where "slot_at w (eid e - 1) = Some s" "generation s = egen e" "occupant s \<noteq> None"
    and "despawn e w = Ok (True, w\<lparr>
       entity_meta := (entity_meta w)[eid e - 1 :=
          Some \<lparr>generation = egen e + 1, occupant = None\<rparr>],
       free_list := free_list w @ [eid e]\<rparr>)"
proof -
  obtain s where s: "slot_at w (eid e - 1) = Some s" "generation s = egen e" "occupant s \<noteq> None"
    using assms(2) by (auto simp: is_alive_iff)
  then have "despawn e w = Ok (True, w\<lparr>
       entity_meta := (entity_meta w)[eid e - 1 :=
          Some \<lparr>generation = egen e + 1, occupant = None\<rparr>],
       free_list := free_list w @ [eid e]\<rparr>)"
    using assms(2) by (simp add: despawn_def is_alive_def Let_def)
  then show ?thesis using that s by blast
qed

lemma despawn_dead: "\<not> is_alive w e \<Longrightarrow> despawn e w = Ok (False, w)"
  by (simp add: despawn_def)

text \<open>\<open>despawned\<close> relates the world before and after the removal of the live handle \<open>e\<close>.\<close>

definition despawned :: "entity \<Rightarrow> ('v, 'm) world_scheme \<Rightarrow> ('v, 'm) world_scheme \<Rightarrow> bool" where
  "despawned e w w' \<longleftrightarrow>
     slot_at w' (eid e - 1) = Some \<lparr>generation = egen e + 1, occupant = None\<rparr> \<and>
     (\<forall>i. i \<noteq> eid e - 1 \<longrightarrow> slot_at w' i = slot_at w i) \<and>
     free_list w' = free_list w @ [eid e] \<and> component_store w' = component_store w"

lemma despawn_spec:
  assumes inv: "world_inv w" and alive: "is_alive w e"
  shows "\<exists>w'. despawn e w = Ok (True, w') \<and> world_inv w' \<and> despawned e w w'"
proof -
  obtain s where s: "slot_at w (eid e - 1) = Some s"
    and d: "despawn e w = Ok (True, w\<lparr>entity_meta := (entity_meta w)[eid e - 1 :=
          Some \<lparr>generation = egen e + 1, occupant = None\<rparr>], free_list := free_list w @ [eid e]\<rparr>)"
    using despawn_alive[OF assms] by blast
  let ?w' = "w\<lparr>entity_meta := (entity_meta w)[eid e - 1 :=
          Some \<lparr>generation = egen e + 1, occupant = None\<rparr>], free_list := free_list w @ [eid e]\<rparr>"
  have lt: "eid e - 1 < length (entity_meta w)" using s by (simp add: slot_at_Some)
  have sl: "slot_at ?w' i = (if i = eid e - 1
      then Some \<lparr>generation = egen e + 1, occupant = None\<rparr> else slot_at w i)" for i
    using slot_at_update[OF lt] by simp
  have e0: "eid e \<noteq> 0" using alive by (simp add: is_alive_iff)
  have "world_inv ?w'"
  proof (rule world_invI)
    fix i assume "i \<in> set (free_list ?w')"
    then have "i = eid e \<or> vacated w i \<and> i \<noteq> eid e"
      using inv alive_not_vacated[OF alive] by (auto simp: world_inv_def)
    then show "vacated ?w' i"
      using vacated_other[of "eid e - 1" ?w' w i] sl e0 by (auto simp: vacated_def)
  qed (use inv alive_not_free[OF inv alive] in \<open>auto simp: world_inv_def\<close>)
  then show ?thesis using d sl by (auto simp: despawned_def)
qed

lemma despawned_dead:
  assumes "despawned e w w'" "is_alive w e"
  shows "\<not> is_alive w' e" "x \<noteq> e \<Longrightarrow> is_alive w' x = is_alive w x"
proof -
  have sl: "slot_at w' (eid e - 1) = Some \<lparr>generation = egen e + 1, occupant = None\<rparr>"
    and other: "\<And>i. i \<noteq> eid e - 1 \<Longrightarrow> slot_at w' i = slot_at w i"
    using assms(1) by (auto simp: despawned_def)
  show "\<not> is_alive w' e" using sl by (auto simp: is_alive_iff)
  assume "x \<noteq> e"
  show "is_alive w' x = is_alive w x"
  proof (cases "eid x = eid e")
    case True
    then have "\<not> is_alive w x" using is_alive_inj[of w x e] assms(2) \<open>x \<noteq> e\<close> by blast
    then show ?thesis using sl True by (auto simp: is_alive_iff)
  next
    case False
    then show ?thesis
      using assms(2) other by (intro alive_other(1)[of "eid e - 1"]) (auto simp: is_alive_iff)
  qed
qed

text \<open>
  \<open>spawn_entity_with_id\<close> on an id that is neither occupied nor on the free list (a gap, or an id
  past the allocator) keeps the invariant and acts as a spawn with generation 0.
\<close>

lemma spawn_with_id_slots:
  assumes "i \<noteq> 0" "\<not> occupied (slot_at w (i - 1))" "next_id w = length (entity_meta w) + 1"
  obtains w' where "spawn_entity_with_id i k w = Some (Entity i 0, w')"
    and "\<And>j. slot_at w' j = (if j = i - 1
           then Some \<lparr>generation = 0, occupant = Some \<lparr>okind = k, oname = None\<rparr>\<rparr> else slot_at w j)"
    and "next_id w' = length (entity_meta w') + 1" "free_list w' = free_list w"
    and "component_store w' = component_store w" "component_versions w' = component_versions w"
    and "epoch_ext w' = epoch_ext w" "next_id w \<le> next_id w'" "i < next_id w'"
    and "mutation_policy w' = mutation_policy w" "world.more w' = world.more w"
proof -
  let ?s = "Some \<lparr>generation = 0, occupant = Some \<lparr>okind = k, oname = None\<rparr>\<rparr>"
  let ?w' = "w\<lparr>entity_meta :=
       (entity_meta w @ replicate (i - length (entity_meta w)) None)[i - 1 := ?s],
     next_id := (if next_id w \<le> i then i + 1 else next_id w)\<rparr>"
  have sp: "spawn_entity_with_id i k w = Some (Entity i 0, ?w')"
  proof (cases "slot_at w (i - 1)")
    case None
    then show ?thesis using assms(1) by (simp add: spawn_entity_with_id_def Let_def)
  next
    case (Some s)
    then have "i - length (entity_meta w) = 0" using assms(1) by (auto simp: slot_at_Some)
    moreover have "occupant s = None" using assms(2) Some by (simp add: occupied_def)
    ultimately
    show ?thesis using assms(1) Some by (simp add: spawn_entity_with_id_def Let_def)
  qed
  have sl: "slot_at ?w' j = (if j = i - 1 then ?s else slot_at w j)" for j
    using assms(1) by (auto simp: slot_at_def nth_opt_def nth_list_update nth_append)
  show ?thesis using assms(1,3) by (intro that[OF sp sl]) auto
qed

lemma spawn_with_id_occupied:
  assumes "i \<noteq> 0" "slot_at w (i - 1) = Some s" "occupant s \<noteq> None"
  shows "spawn_entity_with_id i k w = Some (Entity i (generation s), w)"
  using assms by (simp add: spawn_entity_with_id_def Let_def)

lemma spawn_with_id_spec:
  assumes inv: "world_inv w" and i: "i \<noteq> 0" "\<not> occupied (slot_at w (i - 1))" "i \<notin> set (free_list w)"
  shows "\<exists>w'. spawn_entity_with_id i k w = Some (Entity i 0, w') \<and> world_inv w' \<and>
     spawned \<lparr>okind = k, oname = None\<rparr> (Entity i 0) w w'"
proof -
  have n: "next_id w = length (entity_meta w) + 1" using inv by (simp add: world_inv_def)
  obtain w' where w': "spawn_entity_with_id i k w = Some (Entity i 0, w')"
    "\<And>j. slot_at w' j = (if j = i - 1
           then Some \<lparr>generation = 0, occupant = Some \<lparr>okind = k, oname = None\<rparr>\<rparr> else slot_at w j)"
    "next_id w' = length (entity_meta w') + 1" "free_list w' = free_list w"
    "component_store w' = component_store w"
    using spawn_with_id_slots[OF i(1,2) n, of k] by metis
  have "world_inv w'"
  proof (rule world_invI)
    fix j assume "j \<in> set (free_list w')"
    then have "vacated w j" "j \<noteq> i" using inv i(3) w'(4) by (auto simp: world_inv_def)
    then show "vacated w' j" using vacated_other[of "i - 1" w' w j] w'(2) i(1) by simp
  qed (use w' inv in \<open>auto simp: world_inv_def\<close>)
  then show ?thesis using w' i by (auto simp: spawned_def)
qed

subsection \<open>Runs of lifecycle operations\<close>

inductive life_step :: "('v, 'm) world_scheme \<Rightarrow> ('v, 'm) world_scheme \<Rightarrow> bool" where
  step_spawn: "spawn k n w = Ok (r, w') \<Longrightarrow> life_step w w'"
| step_spawn_entity: "spawn_entity k w = Some (e, w') \<Longrightarrow> life_step w w'"
| step_despawn: "despawn e w = Ok (b, w') \<Longrightarrow> life_step w w'"

inductive life_run :: "nat \<Rightarrow> ('v, 'm) world_scheme \<Rightarrow> ('v, 'm) world_scheme \<Rightarrow> bool" where
  run_0: "life_run 0 w w"
| run_Suc: "life_run n w w' \<Longrightarrow> life_step w' w'' \<Longrightarrow> life_run (Suc n) w w''"

inductive_cases life_stepE: "life_step w w'"

lemma spawn_Ok: "spawn k n w = Ok (r, w') \<Longrightarrow> take_slot \<lparr>okind = k, oname = n\<rparr> w = (r, w')"
  by (simp add: spawn_def split: if_splits)

lemma spawn_entity_Some:
  "spawn_entity k w = Some (e, w') \<Longrightarrow> \<exists>a. take_slot \<lparr>okind = k, oname = None\<rparr> w = ((e, a), w')"
  by (auto simp: spawn_entity_def split: if_splits prod.splits)

text \<open>One step keeps the invariant and advances any slot's generation by at most one.\<close>

definition gen_advance :: "('v, 'm) world_scheme \<Rightarrow> ('v, 'm) world_scheme \<Rightarrow> bool" where
  "gen_advance w w' \<longleftrightarrow> (\<forall>i s. slot_at w i = Some s \<longrightarrow>
     (\<exists>s'. slot_at w' i = Some s' \<and> (generation s' = generation s \<or> generation s' = generation s + 1)))"

lemma take_slot_advance:
  assumes "world_inv w" "take_slot occ w = (r, w')"
  shows "world_inv w' \<and> gen_advance w w'"
proof -
  obtain e a where r: "r = (e, a)" by (cases r)
  note spec = take_slot_spec[OF assms(1) assms(2)[unfolded r]]
  have "\<exists>s'. slot_at w' i = Some s' \<and> (generation s' = generation s \<or> generation s' = generation s + 1)"
    if "slot_at w i = Some s" for i s
    using spec that by (cases "i = eid e - 1") (auto simp: spawned_def)
  then show ?thesis using spec by (auto simp: gen_advance_def)
qed

lemma despawn_advance:
  assumes "world_inv w" "despawn e w = Ok (b, w')"
  shows "world_inv w' \<and> gen_advance w w'"
proof (cases "is_alive w e")
  case True
  then have d: "world_inv w'" "despawned e w w'"
    using despawn_spec[OF assms(1) True] assms(2) by auto
  obtain s where "slot_at w (eid e - 1) = Some s" "generation s = egen e"
    using True by (auto simp: is_alive_iff)
  then have "\<exists>s'. slot_at w' i = Some s' \<and> (generation s' = generation t \<or> generation s' = generation t + 1)"
    if "slot_at w i = Some t" for i t
    using d(2) that by (cases "i = eid e - 1") (auto simp: despawned_def)
  then show ?thesis using d(1) by (auto simp: gen_advance_def)
next
  case False
  then show ?thesis using assms by (auto simp: despawn_dead gen_advance_def)
qed

lemma life_step_advance:
  assumes "life_step w w'" "world_inv w"
  shows "world_inv w' \<and> gen_advance w w'"
  by (rule life_stepE[OF assms(1)])
     (auto dest: take_slot_advance[OF assms(2)] despawn_advance[OF assms(2)]
           dest!: spawn_Ok spawn_entity_Some)

lemma unat_Suc32: "unat (g::32 word) + 1 < 2 ^ 32 \<Longrightarrow> unat (g + 1) = unat g + 1"
  by (simp add: unat_word_ariths)

lemma life_run_retired:
  assumes "life_run n w w'" "world_inv w" "slot_at w i = Some s"
    and "unat (generation s) + n < 2 ^ 32"
  shows "world_inv w' \<and> (\<exists>s'. slot_at w' i = Some s' \<and>
     unat (generation s) \<le> unat (generation s') \<and> unat (generation s') \<le> unat (generation s) + n)"
  using assms
proof (induction rule: life_run.induct)
  case (run_0 w)
  then show ?case by auto
next
  case (run_Suc n w w' w'')
  then obtain s' where s': "world_inv w'" "slot_at w' i = Some s'"
    "unat (generation s) \<le> unat (generation s')" "unat (generation s') \<le> unat (generation s) + n"
    by auto
  have adv: "world_inv w''" "gen_advance w' w''"
    using life_step_advance[OF run_Suc.hyps(2) s'(1)] by auto
  obtain t where t: "slot_at w'' i = Some t"
    "generation t = generation s' \<or> generation t = generation s' + 1"
    using adv(2) s'(2) by (auto simp: gen_advance_def)
  have "unat (generation s' + 1) = unat (generation s') + 1"
    using s'(4) run_Suc.prems(3) by (intro unat_Suc32) simp
  then show ?case using adv(1) t s' by auto
qed

subsection \<open>Counting and listing\<close>

lemma occupied_slot_iff:
  "occupied (slot_at w i) \<longleftrightarrow> i < length (entity_meta w) \<and> occupied (entity_meta w ! i)"
  by (auto simp: slot_at_def nth_opt_def occupied_def)

lemma entity_count_card: "entity_count w = card {i. occupied (slot_at w i)}"
  by (simp add: entity_count_def length_filter_conv_card occupied_slot_iff)

lemma occupied_finite [simp]: "finite {i. occupied (slot_at w i)}"
  by (rule finite_subset[of _ "{..<length (entity_meta w)}"]) (auto simp: occupied_slot_iff)

lemma spawned_count: "spawned occ e w w' \<Longrightarrow> entity_count w' = Suc (entity_count w)"
proof -
  assume sp: "spawned occ e w w'"
  have "occupied (slot_at w' i) \<longleftrightarrow> i = eid e - 1 \<or> occupied (slot_at w i)" for i
    using sp by (cases "i = eid e - 1") (auto simp: spawned_def occupied_def)
  then have "{i. occupied (slot_at w' i)} = insert (eid e - 1) {i. occupied (slot_at w i)}"
    by auto
  then show ?thesis using sp by (simp add: entity_count_card spawned_def)
qed

lemma despawned_count:
  assumes "despawned e w w'" "is_alive w e"
  shows "entity_count w = Suc (entity_count w')"
proof -
  have "occupied (slot_at w i) \<longleftrightarrow> i = eid e - 1 \<or> occupied (slot_at w' i)" for i
    using assms by (cases "i = eid e - 1") (auto simp: despawned_def occupied_def is_alive_iff)
  then have "{i. occupied (slot_at w i)} = insert (eid e - 1) {i. occupied (slot_at w' i)}"
    by auto
  moreover have "\<not> occupied (slot_at w' (eid e - 1))"
    using assms by (simp add: despawned_def occupied_def)
  ultimately show ?thesis by (simp add: entity_count_card)
qed

lemma set_all_entities: "set (all_entities w) = {e. is_alive w e}"
proof -
  have pick: "(case slot of None \<Rightarrow> None
        | Some s \<Rightarrow> if occupant s \<noteq> None then Some (Entity (i + 1) (generation s)) else None) = Some e \<longleftrightarrow>
      (\<exists>s. slot = Some s \<and> occupant s \<noteq> None \<and> e = Entity (i + 1) (generation s))"
    for i slot e by (auto split: option.split)
  have "e \<in> set (all_entities w) \<longleftrightarrow> (\<exists>i s. i < length (entity_meta w) \<and> entity_meta w ! i = Some s \<and>
      occupant s \<noteq> None \<and> e = Entity (i + 1) (generation s))" for e
    unfolding all_entities_def set_filter_map Bex_def split_paired_Ex set_enumerate0 prod.case
      mem_Collect_eq pick by blast
  also have "\<dots> e \<longleftrightarrow> is_alive w e" for e
  proof
    assume "is_alive w e"
    then obtain s where "eid e \<noteq> 0" "slot_at w (eid e - 1) = Some s" "occupant s \<noteq> None"
      "generation s = egen e" by (auto simp: is_alive_iff)
    then show "\<exists>i s. i < length (entity_meta w) \<and> entity_meta w ! i = Some s \<and>
        occupant s \<noteq> None \<and> e = Entity (i + 1) (generation s)"
      by (intro exI[of _ "eid e - 1"] exI[of _ s]) (auto simp: slot_at_Some intro: entity.expand)
  qed (auto simp: is_alive_iff slot_at_Some)
  finally show ?thesis by blast
qed

lemma all_entities_map:
  "all_entities w = map (\<lambda>(i, s). Entity (i + 1) (generation (the s)))
     (filter (\<lambda>(i, s). occupied s) (enumerate 0 (entity_meta w)))"
proof -
  have "List.map_filter (\<lambda>(i, slot). case slot of None \<Rightarrow> None
        | Some s \<Rightarrow> if occupant s \<noteq> None then Some (Entity (i + 1) (generation s)) else None) xs =
      map (\<lambda>(i, s). Entity (i + 1) (generation (the s))) (filter (\<lambda>(i, s). occupied s) xs)"
    for xs :: "(nat \<times> entity_slot option) list"
  proof (induction xs)
    case (Cons x xs)
    then show ?case by (cases x; cases "snd x") (auto simp: occupied_def)
  qed simp
  then show ?thesis by (simp add: all_entities_def)
qed

lemma all_entities_distinct: "distinct (map eid (all_entities w))"
proof -
  have "map eid (all_entities w) = map Suc (map fst (filter (\<lambda>(i, s). occupied s) (enumerate 0 (entity_meta w))))"
    by (simp add: all_entities_map case_prod_beta)
  moreover have "distinct (map fst (filter P (enumerate 0 xs)))" for P and xs :: "entity_slot option list"
    by (rule distinct_map_filter) simp
  ultimately show ?thesis by (simp add: distinct_map del: map_map)
qed

lemma length_all_entities: "length (all_entities w) = entity_count w"
proof -
  have "filter occupied (entity_meta w) = map snd (filter (\<lambda>(i, s). occupied s) (enumerate 0 (entity_meta w)))"
    using filter_map[of occupied snd "enumerate 0 (entity_meta w)"]
    by (simp add: comp_def split_def)
  then show ?thesis by (simp add: all_entities_map entity_count_def)
qed

lemma set_entities_of_kind: "set (entities_of_kind k w) = {e. entity_kind_of w e = Some k}"
proof -
  have sel: "(case slot of None \<Rightarrow> False | Some s \<Rightarrow> (case occupant s of None \<Rightarrow> False | Some o' \<Rightarrow> okind o' = k))
      \<longleftrightarrow> (\<exists>s o'. slot = Some s \<and> occupant s = Some o' \<and> okind o' = k)" for slot
    by (auto split: option.split)
  have "e \<in> set (entities_of_kind k w) \<longleftrightarrow> (\<exists>i s o'. i < length (entity_meta w) \<and>
      entity_meta w ! i = Some s \<and> occupant s = Some o' \<and> okind o' = k \<and>
      e = Entity (i + 1) (generation s))" for e
    by (auto simp: entities_of_kind_def sel set_enumerate0 image_iff)
  also have "\<dots> e \<longleftrightarrow> entity_kind_of w e = Some k" for e
  proof
    assume "entity_kind_of w e = Some k"
    then obtain s o' where "eid e \<noteq> 0" "slot_at w (eid e - 1) = Some s" "occupant s = Some o'"
      "okind o' = k" "generation s = egen e"
      by (auto simp: entity_kind_of_def validate_generation_def split: if_splits option.splits)
    then show "\<exists>i s o'. i < length (entity_meta w) \<and> entity_meta w ! i = Some s \<and>
        occupant s = Some o' \<and> okind o' = k \<and> e = Entity (i + 1) (generation s)"
      by (intro exI[of _ "eid e - 1"] exI[of _ s]) (auto simp: slot_at_Some intro: entity.expand)
  qed (auto simp: entity_kind_of_def validate_generation_def slot_at_def nth_opt_def)
  finally show ?thesis by blast
qed

subsection \<open>Properties\<close>

text \<open>C29: spawning in a world whose policy allows direct mutation succeeds with a handle that was not
  alive, is alive afterwards with the given kind and name, leaves the liveness of every other handle
  alone, counts one entity more and keeps the allocation invariant.\<close>

theorem spawn_fresh:
  assumes "world_inv w" and "direct_mutations_allowed (mutation_policy w)"
  shows "\<exists>e alloc w'. spawn k n w = Ok ((e, alloc), w') \<and> world_inv w' \<and>
     \<not> is_alive w e \<and> is_alive w' e \<and> entity_kind_of w' e = Some k \<and> world_name w' e = n \<and>
     (\<forall>x. x \<noteq> e \<longrightarrow> is_alive w' x = is_alive w x) \<and> entity_count w' = Suc (entity_count w)"
proof -
  obtain e a w' where t: "take_slot \<lparr>okind = k, oname = n\<rparr> w = ((e, a), w')"
    by (metis prod.exhaust)
  then have "spawn k n w = Ok ((e, a), w')" using assms(2) by (simp add: spawn_def)
  then show ?thesis
    using take_slot_spec[OF assms(1) t] spawned_alive spawned_count by fastforce
qed

definition sample_world :: "nat world" where
  "sample_world = world_new\<lparr>entity_meta :=
     [Some \<lparr>generation = 0, occupant = Some \<lparr>okind = Model, oname = None\<rparr>\<rparr>,
      Some \<lparr>generation = 1, occupant = None\<rparr>],
     next_id := 3, free_list := [2]\<rparr>"

lemma sample_world_inv: "world_inv sample_world"
  by (simp add: world_inv_def sample_world_def world_new_def vacated_def slot_at_def nth_opt_def
      store_inv_def)

theorem spawn_fresh_witness:
  "\<exists>e alloc w'. spawn Tensor (Some ''x'') sample_world = Ok ((e, alloc), w') \<and> e = Entity 2 2 \<and>
     is_alive w' e"
proof -
  have "direct_mutations_allowed (mutation_policy sample_world)"
    by (simp add: sample_world_def world_new_def)
  from spawn_fresh[OF sample_world_inv this, of Tensor "Some ''x''"] obtain e a w' where
    *: "spawn Tensor (Some ''x'') sample_world = Ok ((e, a), w')" "is_alive w' e" by blast
  moreover have "e = Entity 2 2"
    using *(1) by (simp add: spawn_def take_slot_def sample_world_def world_new_def)
  ultimately show ?thesis by blast
qed

text \<open>Despawning a live handle reports true, kills exactly that handle, frees its id and keeps
  the invariant; despawning any other handle reports false and changes nothing (it never returns the
  StaleHandle error).\<close>

theorem despawn_correct:
  assumes "world_inv w"
  shows "if is_alive w e then
       \<exists>w'. despawn e w = Ok (True, w') \<and> world_inv w' \<and> \<not> is_alive w' e \<and>
         (\<forall>x. x \<noteq> e \<longrightarrow> is_alive w' x = is_alive w x) \<and> free_list w' = free_list w @ [eid e] \<and>
         entity_count w = Suc (entity_count w')
     else despawn e w = Ok (False, w)"
proof (cases "is_alive w e")
  case True
  then obtain w' where "despawn e w = Ok (True, w')" "world_inv w'" "despawned e w w'"
    using despawn_spec[OF assms] by blast
  then show ?thesis
    using True despawned_dead[of e w w'] despawned_count[of e w w'] by (auto simp: despawned_def)
qed (simp add: despawn_dead)

theorem despawn_correct_witness:
  "\<exists>w'. despawn (Entity 1 0) sample_world = Ok (True, w') \<and> \<not> is_alive w' (Entity 1 0)"
proof -
  have "is_alive sample_world (Entity 1 0)"
    by (simp add: is_alive_iff sample_world_def world_new_def slot_at_def nth_opt_def)
  then show ?thesis using despawn_correct[OF sample_world_inv, of "Entity 1 0"] by auto
qed

text \<open>A despawned handle stays dead through any sequence of spawns and despawns that is too short
  to wrap its slot's 32-bit generation counter, and the invariant holds at the end.\<close>

theorem despawned_stays_dead:
  assumes "world_inv w" and "is_alive w e" and "despawn e w = Ok (b, w1)"
    and "life_run n w1 w2" and "unat (egen e) + 1 + n < 2 ^ 32"
  shows "world_inv w2 \<and> \<not> is_alive w2 e"
proof -
  have w1: "world_inv w1" "despawned e w w1"
    using despawn_spec[OF assms(1,2)] assms(3) by auto
  let ?s = "\<lparr>generation = egen e + 1, occupant = None\<rparr>"
  have g: "unat (egen e + 1) = unat (egen e) + 1" using assms(5) by (intro unat_Suc32) simp
  have s: "slot_at w1 (eid e - 1) = Some ?s" using w1(2) by (simp add: despawned_def)
  obtain s' where "world_inv w2" "slot_at w2 (eid e - 1) = Some s'"
    "unat (egen e) + 1 \<le> unat (generation s')"
    using life_run_retired[OF assms(4) w1(1) s] assms(5) g by auto
  then show ?thesis by (auto simp: is_alive_iff)
qed

theorem despawned_stays_dead_witness:
  "\<exists>w1 w2. despawn (Entity 1 0) sample_world = Ok (True, w1) \<and> life_run 1 w1 w2 \<and>
     is_alive w2 (Entity 1 2) \<and> \<not> is_alive w2 (Entity 1 0)"
proof -
  have a: "is_alive sample_world (Entity 1 0)"
    by (simp add: is_alive_iff sample_world_def world_new_def slot_at_def nth_opt_def)
  obtain w1 where w1: "despawn (Entity 1 0) sample_world = Ok (True, w1)"
    using despawn_spec[OF sample_world_inv a] by auto
  have e1: "w1 = sample_world\<lparr>entity_meta := [Some \<lparr>generation = 1, occupant = None\<rparr>,
      Some \<lparr>generation = 1, occupant = None\<rparr>], free_list := [2, 1]\<rparr>"
    using w1 a by (simp add: despawn_def is_alive_def sample_world_def world_new_def slot_at_def
        nth_opt_def split: if_splits)
  define w2 where "w2 = sample_world\<lparr>entity_meta := [Some \<lparr>generation = 2, occupant =
      Some \<lparr>okind = Agent, oname = None\<rparr>\<rparr>, Some \<lparr>generation = 1, occupant = None\<rparr>], free_list := [2]\<rparr>"
  have "spawn Agent None w1 = Ok ((Entity 1 2, ReusedSlot 1), w2)"
    by (simp add: e1 w2_def spawn_def take_slot_def sample_world_def world_new_def)
  then have run: "life_run (Suc 0) w1 w2" by (intro run_Suc[OF run_0] step_spawn)
  have "\<not> is_alive w2 (Entity 1 0)"
    using despawned_stays_dead[OF sample_world_inv a w1 run] by simp
  moreover have "is_alive w2 (Entity 1 2)"
    by (simp add: is_alive_iff w2_def sample_world_def slot_at_def nth_opt_def)
  ultimately show ?thesis using w1 run by auto
qed

text \<open>Committing a spawn at the reserved id of a vacated slot (the path of a world transaction)
  resets the slot's generation to 0, so the handle that was despawned is alive again, and the id stays on
  the free list, so the next ordinary spawn takes the occupied slot away from it.\<close>

theorem reserved_spawn_resurrects:
  assumes inv: "world_inv w" and alive: "is_alive w (Entity i 0)"
    and desp: "despawn (Entity i 0) w = Ok (b, w1)"
    and re: "spawn_entity_with_id i k w1 = Some (e, w2)"
    and pol: "direct_mutations_allowed (mutation_policy w2)"
  shows "e = Entity i 0 \<and> is_alive w2 (Entity i 0) \<and> i \<in> set (free_list w2) \<and>
     (\<exists>r w3. spawn k' n w2 = Ok (r, w3) \<and> \<not> is_alive w3 (Entity i 0))"
proof -
  have w1: "world_inv w1" "despawned (Entity i 0) w w1" "i \<noteq> 0"
    using despawn_spec[OF inv alive] desp alive by (auto simp: is_alive_iff)
  have "\<not> occupied (slot_at w1 (i - 1))" "next_id w1 = length (entity_meta w1) + 1"
    using w1 by (auto simp: despawned_def occupied_def world_inv_def)
  then obtain w' where w': "spawn_entity_with_id i k w1 = Some (Entity i 0, w')"
    "slot_at w' (i - 1) = Some \<lparr>generation = 0, occupant = Some \<lparr>okind = k, oname = None\<rparr>\<rparr>"
    "free_list w' = free_list w1"
    using spawn_with_id_slots[OF w1(3), of w1 k] by metis
  have eq: "e = Entity i 0" "w' = w2" using w'(1) re by simp_all
  note e = eq(1) and sl = w'(2)[unfolded eq] and fr = w'(3)[unfolded eq]
  have al: "is_alive w2 (Entity i 0)" using sl w1(3) by (simp add: is_alive_iff)
  have free: "free_list w2 = free_list w @ [i]" using fr w1(2) by (simp add: despawned_def)
  have idx: "i - 1 < length (entity_meta w2)" "entity_meta w2 ! (i - 1) = Some \<lparr>generation = 0,
      occupant = Some \<lparr>okind = k, oname = None\<rparr>\<rparr>"
    using sl by (auto simp: slot_at_Some)
  let ?w3 = "w2\<lparr>free_list := free_list w, entity_meta := (entity_meta w2)[i - 1 :=
      Some \<lparr>generation = 1, occupant = Some \<lparr>okind = k', oname = n\<rparr>\<rparr>]\<rparr>"
  have "spawn k' n w2 = Ok ((Entity i 1, ReusedSlot 0), ?w3)"
    using pol free idx by (simp add: spawn_def take_slot_def Let_def)
  moreover have "\<not> is_alive ?w3 (Entity i 0)"
    using idx(1) by (simp add: is_alive_iff slot_at_def nth_opt_def)
  ultimately show ?thesis using e al free by auto
qed

theorem reserved_spawn_resurrects_witness:
  "\<exists>w1 w2. despawn (Entity 1 0) sample_world = Ok (True, w1) \<and>
     spawn_entity_with_id 1 Session w1 = Some (Entity 1 0, w2) \<and> is_alive w2 (Entity 1 0)"
proof -
  have a: "is_alive sample_world (Entity 1 0)"
    by (simp add: is_alive_iff sample_world_def world_new_def slot_at_def nth_opt_def)
  define w1 where "w1 = sample_world\<lparr>entity_meta := [Some \<lparr>generation = 1, occupant = None\<rparr>,
      Some \<lparr>generation = 1, occupant = None\<rparr>], free_list := [2, 1]\<rparr>"
  define w2 where "w2 = w1\<lparr>entity_meta := [Some \<lparr>generation = 0, occupant =
      Some \<lparr>okind = Session, oname = None\<rparr>\<rparr>, Some \<lparr>generation = 1, occupant = None\<rparr>]\<rparr>"
  have d: "despawn (Entity 1 0) sample_world = Ok (True, w1)"
    using a by (simp add: despawn_def is_alive_def sample_world_def world_new_def slot_at_def
        nth_opt_def w1_def)
  have r: "spawn_entity_with_id 1 Session w1 = Some (Entity 1 0, w2)"
    by (simp add: spawn_entity_with_id_def slot_at_def nth_opt_def w1_def w2_def sample_world_def
        world_new_def)
  have "direct_mutations_allowed (mutation_policy w2)"
    by (simp add: w2_def w1_def sample_world_def world_new_def)
  from reserved_spawn_resurrects[OF sample_world_inv a d r this, of Agent None]
  show ?thesis using d r by blast
qed

text \<open>The entity scans agree with liveness: \<open>all_entities\<close> lists each live handle exactly once,
  its length is \<open>entity_count\<close>, and \<open>entities_of_kind\<close> lists the live handles of that kind.\<close>

theorem entity_scans_agree:
  "set (all_entities w) = {e. is_alive w e} \<and> distinct (all_entities w) \<and>
   length (all_entities w) = entity_count w \<and>
   set (entities_of_kind k w) = {e \<in> set (all_entities w). entity_kind_of w e = Some k}"
proof -
  have "entity_kind_of w e = Some k \<Longrightarrow> is_alive w e" for e
    by (simp add: entity_kind_of_def is_alive_def split: if_splits)
  then have "{e. entity_kind_of w e = Some k} = {e. is_alive w e \<and> entity_kind_of w e = Some k}"
    by blast
  moreover have "distinct (all_entities w)"
    using all_entities_distinct[of w] by (simp add: distinct_map)
  ultimately show ?thesis
    by (simp add: set_all_entities length_all_entities set_entities_of_kind)
qed

end
