(* ===== verification/Ecs_Components.thy ===== *)
theory Ecs_Components
  imports Ecs_World
begin

text \<open>
  Component, staging, resource and query operations of the world (\<open>world.rs\<close> from
  \<open>remove_component\<close> on, \<open>query.rs\<close>). Each guard keeps the source's order: some operations check
  the policy before the handle, others after. \<open>MissingComponent\<close> and the resource errors carry the
  type id where the code carries the type's name.
\<close>

subsection \<open>Component access\<close>

definition remove_component :: "bool \<Rightarrow> type_id \<Rightarrow> entity \<Rightarrow> ('v, 'm) world_scheme \<Rightarrow>
    (world_error, 'v option \<times> ('v, 'm) world_scheme) outcome" where
  "remove_component dbg t e w =
     (if \<not> direct_mutations_allowed (mutation_policy w)
      then Err (DirectMutationDisallowed ''remove_component'')
      else if \<not> validate_generation w e then Ok (None, w)
      else and_then (of_panic (store_remove dbg t e (component_store w)))
             (\<lambda>(r, s). Ok (r, w\<lparr>component_store := s\<rparr>)))"

definition add_component :: "bool \<Rightarrow> type_id \<Rightarrow> entity \<Rightarrow> 'v \<Rightarrow> ('v, 'm) world_scheme \<Rightarrow>
    (world_error, ('v, 'm) world_scheme) outcome" where
  "add_component dbg t e v w =
     (if \<not> direct_mutations_allowed (mutation_policy w)
      then Err (DirectMutationDisallowed ''add_component'')
      else if \<not> validate_generation w e then Err (StaleHandle e)
      else and_then (of_panic (store_insert dbg t e v (component_store w)))
             (\<lambda>s. Ok (w\<lparr>component_store := s\<rparr>)))"

definition insert_component :: "bool \<Rightarrow> type_id \<Rightarrow> entity \<Rightarrow> 'v \<Rightarrow> ('v, 'm) world_scheme \<Rightarrow>
    (world_error, ('v, 'm) world_scheme) outcome" where
  "insert_component dbg t e v w =
     (if \<not> is_alive w e then Err (StaleHandle e)
      else if \<not> direct_mutations_allowed (mutation_policy w)
      then Err (DirectMutationDisallowed ''insert_component'')
      else and_then (of_panic (store_insert dbg t e v (component_store w)))
             (\<lambda>s. Ok (w\<lparr>component_store := s\<rparr>)))"

definition get_component :: "('v, 'm) world_scheme \<Rightarrow> type_id \<Rightarrow> entity \<Rightarrow> 'v option" where
  "get_component w t e =
     (if \<not> validate_generation w e then None else store_get (component_store w) t e)"

text \<open>
  \<open>get_component_mut\<close> and \<open>component_mut\<close>: the write through the reference is \<open>f\<close>. Both
  create an empty column when there is none, also when they then report a missing component.
\<close>

definition get_component_mut :: "type_id \<Rightarrow> entity \<Rightarrow> ('v \<Rightarrow> 'v) \<Rightarrow> ('v, 'm) world_scheme \<Rightarrow>
    ('v, 'm) world_scheme" where
  "get_component_mut t e f w =
     (if \<not> validate_generation w e then w
      else w\<lparr>component_store := store_update t e f (component_store w)\<rparr>)"

definition component :: "('v, 'm) world_scheme \<Rightarrow> type_id \<Rightarrow> entity \<Rightarrow> (world_error, 'v) outcome" where
  "component w t e =
     (if \<not> is_alive w e then Err (StaleHandle e)
      else case store_get (component_store w) t e of
             None \<Rightarrow> Err (MissingComponent e t) | Some v \<Rightarrow> Ok v)"

definition component_mut :: "type_id \<Rightarrow> entity \<Rightarrow> ('v \<Rightarrow> 'v) \<Rightarrow> ('v, 'm) world_scheme \<Rightarrow>
    (world_error, unit) outcome \<times> ('v, 'm) world_scheme" where
  "component_mut t e f w =
     (if \<not> is_alive w e then (Err (StaleHandle e), w)
      else let w' = w\<lparr>component_store := store_update t e f (component_store w)\<rparr> in
        if column_get (column_or_new t (component_store w)) e = None
        then (Err (MissingComponent e t), w') else (Ok (), w'))"

definition has_component :: "('v, 'm) world_scheme \<Rightarrow> type_id \<Rightarrow> entity \<Rightarrow> bool" where
  "has_component w t e \<longleftrightarrow> is_alive w e \<and> store_contains (component_store w) t e"

subsection \<open>Staging\<close>

definition stage_component :: "type_id \<Rightarrow> entity \<Rightarrow> 'v \<Rightarrow> ('v, 'm) world_scheme \<Rightarrow>
    (world_error, ('v, 'm) world_scheme) outcome" where
  "stage_component t e v w =
     (if \<not> validate_generation w e then Err (StaleHandle e)
      else Ok (w\<lparr>staging := staging w @ [(t, e, v)]\<rparr>))"

fun apply_staged :: "bool \<Rightarrow> (type_id \<times> entity \<times> 'v) list \<Rightarrow> 'v component_store \<Rightarrow>
    'v component_store option" where
  "apply_staged dbg [] s = Some s"
| "apply_staged dbg ((t, e, v) # ops) s =
     (case store_insert dbg t e v s of None \<Rightarrow> None | Some s' \<Rightarrow> apply_staged dbg ops s')"

definition commit_stage :: "bool \<Rightarrow> ('v, 'm) world_scheme \<Rightarrow> ('v, 'm) world_scheme option" where
  "commit_stage dbg w = map_option (\<lambda>s. w\<lparr>staging := [], component_store := s\<rparr>)
     (apply_staged dbg (staging w) (component_store w))"

definition rollback_stage :: "('v, 'm) world_scheme \<Rightarrow> ('v, 'm) world_scheme" where
  "rollback_stage w = w\<lparr>staging := []\<rparr>"

subsection \<open>Resources\<close>

definition add_resource :: "type_id \<Rightarrow> 'v \<Rightarrow> ('v, 'm) world_scheme \<Rightarrow> ('v, 'm) world_scheme" where
  "add_resource t r w = w\<lparr>resource_store := (resource_store w)(t \<mapsto> r)\<rparr>"

definition insert_resource :: "type_id \<Rightarrow> 'v \<Rightarrow> ('v, 'm) world_scheme \<Rightarrow>
    (world_error, ('v, 'm) world_scheme) outcome" where
  "insert_resource t r w =
     (if resource_store w t \<noteq> None then Err (DuplicateResource t)
      else Ok (w\<lparr>resource_store := (resource_store w)(t \<mapsto> r)\<rparr>))"

definition resource :: "('v, 'm) world_scheme \<Rightarrow> type_id \<Rightarrow> (world_error, 'v) outcome" where
  "resource w t = (case resource_store w t of None \<Rightarrow> Err (MissingResource t) | Some r \<Rightarrow> Ok r)"

definition remove_resource :: "type_id \<Rightarrow> ('v, 'm) world_scheme \<Rightarrow>
    (world_error, 'v \<times> ('v, 'm) world_scheme) outcome" where
  "remove_resource t w =
     (case resource_store w t of None \<Rightarrow> Err (MissingResource t)
      | Some r \<Rightarrow> Ok (r, w\<lparr>resource_store := (resource_store w)(t := None)\<rparr>))"

subsection \<open>Queries\<close>

text \<open>
  The iterators walk the dense array of the (first) column. A query is what the iterator yields
  when it is run to its end; no step consults the entity table.
\<close>

definition col_entries :: "'v component_store \<Rightarrow> type_id \<Rightarrow> (entity \<times> 'v) list" where
  "col_entries s t = (case s t of None \<Rightarrow> [] | Some c \<Rightarrow> column_iter c)"

definition query :: "('v, 'm) world_scheme \<Rightarrow> type_id \<Rightarrow> (entity \<times> 'v) list" where
  "query w t = col_entries (component_store w) t"

definition query2 :: "('v, 'm) world_scheme \<Rightarrow> type_id \<Rightarrow> type_id \<Rightarrow> (entity \<times> 'v \<times> 'v) list" where
  "query2 w ta tb = (case component_store w tb of None \<Rightarrow> []
     | Some cb \<Rightarrow> List.map_filter
         (\<lambda>(e, a). if column_has cb e then map_option (\<lambda>b. (e, a, b)) (column_get cb e) else None)
         (col_entries (component_store w) ta))"

definition query3 :: "('v, 'm) world_scheme \<Rightarrow> type_id \<Rightarrow> type_id \<Rightarrow> type_id \<Rightarrow>
    (entity \<times> 'v \<times> 'v \<times> 'v) list" where
  "query3 w ta tb tc = (case (component_store w tb, component_store w tc) of
       (Some cb, Some cc) \<Rightarrow> List.map_filter
         (\<lambda>(e, a). if column_has cb e \<and> column_has cc e
            then (case (column_get cb e, column_get cc e) of
                    (Some b, Some c) \<Rightarrow> Some (e, a, b, c) | _ \<Rightarrow> None)
            else None)
         (col_entries (component_store w) ta)
     | _ \<Rightarrow> [])"

subsection \<open>The store as a family of generational stores\<close>

definition store_len :: "'v component_store \<Rightarrow> type_id \<Rightarrow> nat" where
  "store_len s t = length (entities (column_or_new t s))"

lemma column_or_new_inv: "store_inv s \<Longrightarrow> col_inv (column_or_new t s)"
  by (auto simp: store_inv_def column_or_new_def split: option.split)

lemma store_get_column: "store_get s t e = column_get (column_or_new t s) e"
  by (simp add: store_get_def column_or_new_def split: option.split)

lemma store_inv_upd: "store_inv s \<Longrightarrow> col_inv c \<Longrightarrow> store_inv (s(t \<mapsto> c))"
  by (auto simp: store_inv_def)

lemma column_or_new_upd: "column_or_new t' (s(t \<mapsto> c)) = (if t' = t then c else column_or_new t' s)"
  by (simp add: column_or_new_def)

lemma column_len_card: "col_inv c \<Longrightarrow> length (entities c) = card (set (column_iter c))"
  using column_iter_distinct[of c] indexed_len[of "{}" c]
  by (simp add: column_iter_def col_inv_def distinct_card distinct_zipI1 flip: distinct_map)

lemma column_insert_len:
  assumes "col_inv c" "length (entities c) < 2 ^ 32" "column_insert dbg e v c = Some c'"
    and "dbg \<longrightarrow> no_stale e c"
  shows "length (entities c') \<le> length (entities c) + 1"
proof -
  let ?old = "{(e', x) \<in> set (column_iter c). eid e' \<noteq> eid e}"
  have c': "col_inv c'" "set (column_iter c') = insert (e, v) ?old"
    using column_insert_iter[OF assms(1,2,4), of v] assms(3) by auto
  have "card (insert (e, v) ?old) \<le> Suc (card ?old)" by (rule card_insert_le_m1) simp_all
  moreover have "card ?old \<le> card (set (column_iter c))" by (rule card_mono) auto
  ultimately show ?thesis using c' assms(1) by (simp add: column_len_card)
qed

lemma store_insert_spec:
  assumes "store_inv s" "store_len s t < 2 ^ 32" "dbg \<longrightarrow> no_stale e (column_or_new t s)"
  shows "\<exists>s'. store_insert dbg t e v s = Some s' \<and> store_inv s' \<and>
     (\<forall>t' e'. store_get s' t' e' = (if t' \<noteq> t then store_get s t' e'
        else if e' = e then Some v else if eid e' = eid e then None else store_get s t e')) \<and>
     (\<forall>t'. store_len s' t' \<le> store_len s t' + 1)"
proof -
  let ?c = "column_or_new t s"
  have inv: "col_inv ?c" and room: "length (entities ?c) < 2 ^ 32"
    using assms by (simp_all add: column_or_new_inv store_len_def)
  obtain c' where c': "column_insert dbg e v ?c = Some c'" "col_inv c'"
    "\<And>e'. column_get c' e' = (if e' = e then Some v else if eid e' = eid e then None else column_get ?c e')"
    using column_insert_get[OF inv room assms(3), of v] by blast
  have "length (entities c') \<le> length (entities ?c) + 1"
    using column_insert_len[OF inv room c'(1) assms(3)] .
  then show ?thesis
    using c' assms(1) store_inv_upd
    by (auto simp: store_insert_def store_get_column column_or_new_upd store_len_def)
qed

lemma store_remove_spec:
  assumes "store_inv s"
  shows "\<exists>s'. store_remove dbg t e s = Some (store_get s t e, s') \<and> store_inv s' \<and>
     (\<forall>t' e'. store_get s' t' e' = (if t' = t \<and> e' = e then None else store_get s t' e'))"
proof -
  obtain c' where "column_remove dbg e (column_or_new t s) = Some (column_get (column_or_new t s) e, c')"
    "col_inv c'" "\<And>e'. column_get c' e' = (if e' = e then None else column_get (column_or_new t s) e')"
    using column_remove_get[OF column_or_new_inv[OF assms]] by blast
  then show ?thesis
    using assms store_inv_upd
    by (auto simp: store_remove_def store_get_column column_or_new_upd)
qed

lemma alive_store [simp]: "is_alive (w\<lparr>component_store := s\<rparr>) e = is_alive w e"
  by (rule alive_cong) simp

lemma alive_staging [simp]: "is_alive (w\<lparr>staging := st\<rparr>) e = is_alive w e"
  by (rule alive_cong) simp

lemma world_inv_store:
  "world_inv w \<Longrightarrow> store_inv s \<Longrightarrow> world_inv (w\<lparr>component_store := s\<rparr>)"
  by (auto simp: world_inv_def vacated_def)

lemma get_component_alive: "get_component w t e = (if is_alive w e then store_get (component_store w) t e else None)"
  by (simp add: get_component_def is_alive_def)

subsection \<open>Staged operations\<close>

text \<open>The value the last staged operation on \<open>(t, e)\<close> leaves.\<close>

fun last_staged :: "(type_id \<times> entity \<times> 'v) list \<Rightarrow> type_id \<Rightarrow> entity \<Rightarrow> 'v option" where
  "last_staged [] t e = None"
| "last_staged ((t', e', v) # ops) t e =
     (case last_staged ops t e of Some x \<Rightarrow> Some x
      | None \<Rightarrow> if t' = t \<and> e' = e then Some v else None)"

text \<open>No staged operation names another generation of \<open>e\<close>'s id.\<close>

definition sole_handle :: "(type_id \<times> entity \<times> 'v) list \<Rightarrow> entity \<Rightarrow> bool" where
  "sole_handle ops e \<longleftrightarrow> list_all (\<lambda>(t, a, v). eid a = eid e \<longrightarrow> a = e) ops"

lemma apply_staged_spec:
  assumes "store_inv s" "\<And>t. store_len s t + length ops \<le> 2 ^ 32"
  shows "\<exists>s'. apply_staged False ops s = Some s' \<and> store_inv s' \<and>
     (\<forall>t e. sole_handle ops e \<longrightarrow>
        store_get s' t e = (case last_staged ops t e of Some v \<Rightarrow> Some v | None \<Rightarrow> store_get s t e))"
  using assms
proof (induction ops arbitrary: s)
  case (Cons op ops)
  obtain t a v where op: "op = (t, a, v)" by (cases op)
  have "store_len s t < 2 ^ 32" using Cons.prems(2)[of t] by simp
  then obtain s1 where s1: "store_insert False t a v s = Some s1" "store_inv s1"
    "\<And>t' e'. store_get s1 t' e' = (if t' \<noteq> t then store_get s t' e'
        else if e' = a then Some v else if eid e' = eid a then None else store_get s t e')"
    "\<And>t'. store_len s1 t' \<le> store_len s t' + 1"
    using store_insert_spec[OF Cons.prems(1), of t False a v] by blast
  have "store_len s1 t' + length ops \<le> 2 ^ 32" for t'
    using Cons.prems(2)[of t'] s1(4)[of t'] by simp
  from Cons.IH[OF s1(2) this] obtain s' where s': "apply_staged False ops s1 = Some s'"
    "store_inv s'" "\<And>t e. sole_handle ops e \<Longrightarrow>
        store_get s' t e = (case last_staged ops t e of Some v \<Rightarrow> Some v | None \<Rightarrow> store_get s1 t e)"
    by blast
  have "store_get s' t' e = (case last_staged (op # ops) t' e of Some v \<Rightarrow> Some v | None \<Rightarrow> store_get s t' e)"
    if sep: "sole_handle (op # ops) e" for t' e
  proof -
    have "store_get s1 t' e = (if t' = t \<and> e = a then Some v else store_get s t' e)"
      using s1(3)[of t' e] sep op by (auto simp: sole_handle_def)
    then show ?thesis using s'(3)[of e t'] sep by (auto simp: op sole_handle_def split: option.split)
  qed
  moreover have "apply_staged False (op # ops) s = Some s'" using s1(1) s'(1) by (simp add: op)
  ultimately show ?case using s'(2) by blast
qed simp

lemma apply_staged_singleton:
  "apply_staged dbg [(t, e, v)] s = store_insert dbg t e v s"
  by (simp split: option.split)

subsection \<open>Properties\<close>

text \<open>Adding a component, on every branch: a transactional-only world refuses it, a stale handle is
  reported, an insert that has to evict another generation panics in a debug build, and otherwise the
  handle reads the new value, every other live component is unchanged and the invariant holds.\<close>

theorem add_component_correct:
  assumes inv: "world_inv w" and room: "store_len (component_store w) t < 2 ^ 32"
  shows "if \<not> direct_mutations_allowed (mutation_policy w)
       then add_component dbg t e v w = Err (DirectMutationDisallowed ''add_component'')
     else if \<not> is_alive w e then add_component dbg t e v w = Err (StaleHandle e)
     else if dbg \<and> \<not> no_stale e (column_or_new t (component_store w)) then add_component dbg t e v w = Panic
     else \<exists>w'. add_component dbg t e v w = Ok w' \<and> world_inv w' \<and> (\<forall>x. is_alive w' x = is_alive w x) \<and>
       (\<forall>t' x. get_component w' t' x = (if t' = t \<and> x = e then Some v else get_component w t' x))"
proof (cases "direct_mutations_allowed (mutation_policy w) \<and> is_alive w e")
  case False
  then show ?thesis by (auto simp: add_component_def is_alive_def)
next
  case True
  let ?s = "component_store w"
  have sinv: "store_inv ?s" using inv by (simp add: world_inv_def)
  have run: "add_component dbg t e v w = and_then (of_panic (store_insert dbg t e v ?s))
      (\<lambda>s. Ok (w\<lparr>component_store := s\<rparr>))"
    using True by (simp add: add_component_def is_alive_def)
  show ?thesis
  proof (cases "dbg \<and> \<not> no_stale e (column_or_new t ?s)")
    case evict: True
    then obtain x where x: "x \<in> set (entities (column_or_new t ?s))" "eid x = eid e" "x \<noteq> e"
      by (auto simp: no_stale_def)
    then have "store_insert dbg t e v ?s = None"
      using evict column_insert_evict(1)[OF column_or_new_inv[OF sinv], of _ t e v]
      by (auto simp: store_insert_def in_set_conv_nth)
    then show ?thesis using True evict run by simp
  next
    case False
    then obtain s' where s': "store_insert dbg t e v ?s = Some s'" "store_inv s'"
      "\<And>t' e'. store_get s' t' e' = (if t' \<noteq> t then store_get ?s t' e'
        else if e' = e then Some v else if eid e' = eid e then None else store_get ?s t e')"
      using store_insert_spec[OF sinv room, of dbg e v] by blast
    have "get_component (w\<lparr>component_store := s'\<rparr>) t' x =
        (if t' = t \<and> x = e then Some v else get_component w t' x)" for t' x
      using s'(3)[of t' x] True is_alive_inj[of w x e] by (auto simp: get_component_alive)
    then show ?thesis
      using True False run s'(1,2) world_inv_store[OF inv] by auto
  qed
qed

definition column_world :: "nat world" where
  "column_world = sample_world\<lparr>component_store :=
     [7 \<mapsto> \<lparr>dense = [40], sparse = [None, Some 0], entities = [Entity 1 0]\<rparr>]\<rparr>"

lemma column_world_inv: "world_inv column_world" "store_len (component_store column_world) t < 2 ^ 32"
proof -
  have "store_inv [7 \<mapsto> \<lparr>dense = [40::nat], sparse = [None, Some 0], entities = [Entity 1 0]\<rparr>]"
    by (auto simp: store_inv_def col_inv_def indexed_def nth_Cons split: nat.splits if_splits)
  then show "world_inv column_world"
    using world_inv_store[OF sample_world_inv] by (simp add: column_world_def)
  show "store_len (component_store column_world) t < 2 ^ 32"
    by (simp add: store_len_def column_or_new_def column_world_def column_new_def)
qed

lemma column_world_facts:
  "is_alive column_world (Entity 1 0)" "direct_mutations_allowed (mutation_policy column_world)"
  "get_component column_world 7 (Entity 1 0) = Some 40"
  by (simp_all add: column_world_def is_alive_iff sample_world_def world_new_def slot_at_def nth_opt_def
      get_component_alive store_get_def column_get_def dense_index_def)

theorem add_component_correct_witness:
  "\<exists>w'. add_component False 7 (Entity 1 0) 41 column_world = Ok w' \<and>
     get_component w' 7 (Entity 1 0) = Some 41"
  using add_component_correct[OF column_world_inv(1) column_world_inv(2)[of 7],
      of False "Entity 1 0" 41] column_world_facts
  by auto

text \<open>Removing a component through a live handle in a world that allows it returns the value the handle
  read and removes exactly that one; a dead handle gets nothing and changes nothing.\<close>

theorem remove_component_correct:
  assumes inv: "world_inv w" and pol: "direct_mutations_allowed (mutation_policy w)"
  shows "\<exists>w'. remove_component dbg t e w = Ok (get_component w t e, w') \<and> world_inv w' \<and>
     (\<forall>t' x. get_component w' t' x = (if t' = t \<and> x = e then None else get_component w t' x))"
proof (cases "is_alive w e")
  case True
  have sinv: "store_inv (component_store w)" using inv by (simp add: world_inv_def)
  obtain s' where s': "store_remove dbg t e (component_store w) =
      Some (store_get (component_store w) t e, s')" "store_inv s'"
    "\<And>t' e'. store_get s' t' e' = (if t' = t \<and> e' = e then None else store_get (component_store w) t' e')"
    using store_remove_spec[OF sinv, of dbg t e] by blast
  then have "remove_component dbg t e w = Ok (get_component w t e, w\<lparr>component_store := s'\<rparr>)"
    using True pol by (simp add: remove_component_def get_component_alive is_alive_def)
  moreover have "get_component (w\<lparr>component_store := s'\<rparr>) t' x =
      (if t' = t \<and> x = e then None else get_component w t' x)" for t' x
    using s'(3)[of t' x] by (auto simp: get_component_alive)
  ultimately show ?thesis using world_inv_store[OF inv s'(2)] by blast
next
  case False
  then show ?thesis
    using assms by (auto simp: remove_component_def get_component_alive is_alive_def)
qed

theorem remove_component_correct_witness:
  "\<exists>w'. remove_component True 7 (Entity 1 0) column_world = Ok (Some 40, w') \<and>
     get_component w' 7 (Entity 1 0) = None"
  using remove_component_correct[OF column_world_inv(1) column_world_facts(2), of True 7 "Entity 1 0"]
    column_world_facts(3) by auto

text \<open>In a release build, committing staged inserts whose handles are all live when the commit runs
  leaves on every live handle the value staged last for it, keeps every other component, empties the stage
  and keeps the invariant.\<close>

theorem commit_stage_correct:
  assumes inv: "world_inv w"
    and room: "\<forall>t. store_len (component_store w) t + length (staging w) \<le> 2 ^ 32"
    and live: "\<forall>(t, e, v) \<in> set (staging w). is_alive w e"
  shows "\<exists>w'. commit_stage False w = Some w' \<and> staging w' = [] \<and> world_inv w' \<and>
     (\<forall>t e. get_component w' t e = (if \<not> is_alive w e then None
        else case last_staged (staging w) t e of Some v \<Rightarrow> Some v | None \<Rightarrow> get_component w t e))"
proof -
  have sinv: "store_inv (component_store w)" using inv by (simp add: world_inv_def)
  obtain s' where s': "apply_staged False (staging w) (component_store w) = Some s'" "store_inv s'"
    "\<And>t e. sole_handle (staging w) e \<Longrightarrow> store_get s' t e =
       (case last_staged (staging w) t e of Some v \<Rightarrow> Some v | None \<Rightarrow> store_get (component_store w) t e)"
    using apply_staged_spec[OF sinv, of "staging w"] room by blast
  let ?w' = "w\<lparr>staging := [], component_store := s'\<rparr>"
  have "sole_handle (staging w) e" if "is_alive w e" for e
    using live that is_alive_inj[of w] by (fastforce simp: sole_handle_def list_all_iff)
  then have "get_component ?w' t e = (if \<not> is_alive w e then None
        else case last_staged (staging w) t e of Some v \<Rightarrow> Some v | None \<Rightarrow> get_component w t e)" for t e
    using s'(3)[of e t] by (auto simp: get_component_alive split: option.split)
  moreover have "world_inv ?w'"
    using inv s'(2) by (auto simp: world_inv_def vacated_def slot_at_def)
  ultimately show ?thesis using s'(1) by (auto simp: commit_stage_def)
qed

theorem commit_stage_correct_witness:
  "\<exists>w'. commit_stage False (column_world\<lparr>staging := [(7, Entity 1 0, 1), (8, Entity 1 0, 2), (7, Entity 1 0, 3)]\<rparr>)
      = Some w' \<and> get_component w' 7 (Entity 1 0) = Some 3 \<and> get_component w' 8 (Entity 1 0) = Some 2"
proof -
  let ?w = "column_world\<lparr>staging := [(7, Entity 1 0, 1), (8, Entity 1 0, 2), (7, Entity 1 0, 3)]\<rparr>"
  have "world_inv ?w"
    using column_world_inv(1) by (auto simp: world_inv_def vacated_def slot_at_def)
  moreover have "\<forall>t. store_len (component_store ?w) t + length (staging ?w) \<le> 2 ^ 32"
    by (simp add: store_len_def column_or_new_def column_world_def column_new_def)
  moreover have a: "is_alive ?w (Entity 1 0)"
    by (simp add: column_world_def is_alive_iff sample_world_def world_new_def slot_at_def nth_opt_def)
  ultimately obtain w' where "commit_stage False ?w = Some w'"
    "\<And>t e. get_component w' t e = (if \<not> is_alive ?w e then None
        else case last_staged (staging ?w) t e of Some v \<Rightarrow> Some v | None \<Rightarrow> get_component ?w t e)"
    using commit_stage_correct[of ?w] by auto
  then show ?thesis using a by auto
qed

text \<open>A staged insert is not checked again when it is committed. If its handle was despawned and the
  slot reused in between, the commit writes for the dead handle, evicts the live successor's component
  in a release build, and panics in a debug build.\<close>

theorem stale_commit_evicts:
  assumes inv: "world_inv w" and room: "store_len (component_store w) t < 2 ^ 32"
    and stg: "staging w = [(t, stale, v)]"
    and live: "get_component w t e = Some x" and ids: "eid stale = eid e" "stale \<noteq> e"
  shows "commit_stage True w = None \<and>
     (\<exists>w'. commit_stage False w = Some w' \<and> is_alive w' e \<and> get_component w' t e = None)"
proof -
  let ?c = "column_or_new t (component_store w)"
  have sinv: "store_inv (component_store w)" using inv by (simp add: world_inv_def)
  have e: "is_alive w e" "column_get ?c e = Some x"
    using live by (auto simp: get_component_alive store_get_column split: if_splits)
  have "e \<in> set (entities ?c)"
    using e(2) column_get_iff[OF column_or_new_inv[OF sinv]] column_iter_keys[OF column_or_new_inv[OF sinv]]
    by (metis fst_conv image_eqI)
  then have "store_insert True t stale v (component_store w) = None"
    using column_insert_evict(1)[OF column_or_new_inv[OF sinv], of _ t stale v] ids
    by (auto simp: store_insert_def in_set_conv_nth)
  moreover obtain s' where "store_insert False t stale v (component_store w) = Some s'"
    "store_get s' t e = None"
    using store_insert_spec[OF sinv room, of False stale v] ids by fastforce
  ultimately show ?thesis
    using stg e(1) by (auto simp: commit_stage_def apply_staged_singleton get_component_alive
        simp del: apply_staged.simps)
qed

theorem stale_commit_evicts_witness:
  "\<exists>w'. commit_stage False (column_world\<lparr>staging := [(7, Entity 1 5, 99)]\<rparr>) = Some w' \<and>
     get_component (column_world\<lparr>staging := [(7, Entity 1 5, 99)]\<rparr>) 7 (Entity 1 0) = Some 40 \<and>
     get_component w' 7 (Entity 1 0) = None"
proof -
  let ?w = "column_world\<lparr>staging := [(7, Entity 1 5, 99)]\<rparr>"
  have "world_inv ?w" "store_len (component_store ?w) 7 < 2 ^ 32"
    using column_world_inv by (auto simp: world_inv_def vacated_def slot_at_def)
  moreover have "staging ?w = [(7, Entity 1 5, 99)]" by simp
  moreover have g: "get_component ?w 7 (Entity 1 0) = Some 40"
    by (simp add: column_world_def is_alive_iff sample_world_def world_new_def slot_at_def nth_opt_def
      get_component_alive store_get_def column_get_def dense_index_def)
  ultimately show ?thesis
    using stale_commit_evicts[of ?w 7 "Entity 1 5" 99 "Entity 1 0" 40] by auto
qed

text \<open>The queries: one component type, and the joins.\<close>

lemma query_iff: "store_inv (component_store w) \<Longrightarrow>
    (e, v) \<in> set (query w t) \<longleftrightarrow> store_get (component_store w) t e = Some v"
  using column_get_iff[of "the (component_store w t)" e v]
  by (auto simp: query_def col_entries_def store_get_def store_inv_def split: option.split)

lemma has_get_cases:
  assumes "col_inv c"
  shows "column_has c e \<longleftrightarrow> (\<exists>v. column_get c e = Some v)"
  using column_has_get[OF assms] by auto

lemma query2_iff:
  assumes "store_inv (component_store w)"
  shows "(e, a, b) \<in> set (query2 w ta tb) \<longleftrightarrow> (e, a) \<in> set (query w ta) \<and> (e, b) \<in> set (query w tb)"
proof (cases "component_store w tb")
  case (Some cb)
  then have "col_inv cb" using assms by (auto simp: store_inv_def)
  then show ?thesis
    using Some query_iff[OF assms, of e b tb]
    by (auto simp: query2_def query_def set_filter_map has_get_cases store_get_def
        intro!: bexI[of _ "(e, a)"] split: if_splits)
qed (simp add: query2_def query_def col_entries_def)

lemma query3_iff:
  assumes "store_inv (component_store w)"
  shows "(e, a, b, c) \<in> set (query3 w ta tb tc) \<longleftrightarrow>
     (e, a) \<in> set (query w ta) \<and> (e, b) \<in> set (query w tb) \<and> (e, c) \<in> set (query w tc)"
proof (cases "component_store w tb")
  case b: (Some cb)
  show ?thesis
  proof (cases "component_store w tc")
    case c: (Some cc)
    have "col_inv cb" "col_inv cc" using assms b c by (auto simp: store_inv_def)
    then show ?thesis
      using b c query_iff[OF assms, of e b tb] query_iff[OF assms, of e c tc]
      by (auto simp: query3_def query_def set_filter_map has_get_cases store_get_def
          intro!: bexI[of _ "(e, a)"] split: if_splits)
  qed (simp add: query3_def query_def col_entries_def b)
qed (simp add: query3_def query_def col_entries_def)

text \<open>C39: A query lists every entity at most once, yields every component a live handle can read, and the
  two- and three-way queries are the joins of the single ones.\<close>

theorem queries_are_joins:
  assumes "world_inv w"
  shows "distinct (map fst (query w ta)) \<and>
     (\<forall>e v. get_component w ta e = Some v \<longrightarrow> (e, v) \<in> set (query w ta)) \<and>
     (\<forall>e a b. (e, a, b) \<in> set (query2 w ta tb) \<longleftrightarrow>
        (e, a) \<in> set (query w ta) \<and> (e, b) \<in> set (query w tb)) \<and>
     (\<forall>e a b c. (e, a, b, c) \<in> set (query3 w ta tb tc) \<longleftrightarrow>
        (e, a) \<in> set (query w ta) \<and> (e, b) \<in> set (query w tb) \<and> (e, c) \<in> set (query w tc))"
proof -
  have s: "store_inv (component_store w)" using assms by (simp add: world_inv_def)
  have "distinct (map fst (query w ta))"
    using s column_iter_distinct
    by (auto simp: query_def col_entries_def store_inv_def split: option.split)
  moreover have "get_component w ta e = Some v \<longrightarrow> (e, v) \<in> set (query w ta)" for e v
    using query_iff[OF s] by (simp add: get_component_alive)
  ultimately show ?thesis using query2_iff[OF s] query3_iff[OF s] by blast
qed

theorem queries_are_joins_witness:
  "(Entity 1 0, 40, 40) \<in> set (query2 column_world 7 7)"
  using queries_are_joins[OF column_world_inv(1), of 7 7 7] column_world_facts(3) by auto

text \<open>Despawning does not touch the columns, and the queries do not look at liveness: a query still
  yields the component of a handle after it was despawned.\<close>

theorem query_yields_despawned:
  assumes inv: "world_inv w" and got: "get_component w t e = Some v"
    and desp: "despawn e w = Ok (b, w')"
  shows "b \<and> \<not> is_alive w' e \<and> get_component w' t e = None \<and> (e, v) \<in> set (query w' t)"
proof -
  have a: "is_alive w e" "store_get (component_store w) t e = Some v"
    using got by (auto simp: get_component_alive split: if_splits)
  then have d: "b" "world_inv w'" "despawned e w w'" using despawn_spec[OF inv a(1)] desp by auto
  then have "\<not> is_alive w' e" "component_store w' = component_store w"
    using despawned_dead[of e w w'] a(1) by (auto simp: despawned_def)
  then show ?thesis
    using d a(2) query_iff[of w' e v t] by (simp add: get_component_alive world_inv_def)
qed

theorem query_yields_despawned_witness:
  "\<exists>w'. despawn (Entity 1 0) column_world = Ok (True, w') \<and> (Entity 1 0, 40) \<in> set (query w' 7)"
proof -
  obtain w' where d: "despawn (Entity 1 0) column_world = Ok (True, w')"
    using despawn_spec[OF column_world_inv(1) column_world_facts(1)] by auto
  then show ?thesis
    using query_yields_despawned[OF column_world_inv(1) column_world_facts(3) d] by auto
qed

text \<open>The transactional-only policy stops the direct component operations and spawns but not all
  mutation: staging and committing a component, and despawning, still change the world.\<close>

theorem policy_bypass:
  assumes inv: "world_inv w" and pol: "mutation_policy w = TransactionalOnly"
    and alive: "is_alive w e" and empty: "staging w = []"
    and room: "store_len (component_store w) t < 2 ^ 32"
  shows "(\<exists>er. add_component dbg t e v w = Err er) \<and> (\<exists>er. insert_component dbg t e v w = Err er) \<and>
     (\<exists>er. remove_component dbg t e w = Err er) \<and> (\<exists>er. spawn k n w = Err er) \<and>
     spawn_entity k w = None \<and>
     (\<exists>w1 w2. stage_component t e v w = Ok w1 \<and> commit_stage False w1 = Some w2 \<and>
        get_component w2 t e = Some v) \<and>
     (\<exists>w3. despawn e w = Ok (True, w3) \<and> \<not> is_alive w3 e)"
proof -
  have sinv: "store_inv (component_store w)" using inv by (simp add: world_inv_def)
  obtain s' where "store_insert False t e v (component_store w) = Some s'" "store_get s' t e = Some v"
    using store_insert_spec[OF sinv room, of False e v] by fastforce
  then have "\<exists>w1 w2. stage_component t e v w = Ok w1 \<and> commit_stage False w1 = Some w2 \<and>
        get_component w2 t e = Some v"
    using alive empty
    by (auto simp: stage_component_def commit_stage_def apply_staged_singleton get_component_alive
        is_alive_def[symmetric] simp del: apply_staged.simps)
  moreover have "\<exists>w3. despawn e w = Ok (True, w3) \<and> \<not> is_alive w3 e"
    using despawn_spec[OF inv alive] despawned_dead(1)[OF _ alive] by blast
  ultimately show ?thesis
    using pol alive
    by (simp add: add_component_def insert_component_def remove_component_def spawn_def spawn_entity_def)
qed

theorem policy_bypass_witness:
  "\<exists>w1 w2. stage_component 7 (Entity 1 0) 5 (column_world\<lparr>mutation_policy := TransactionalOnly\<rparr>) = Ok w1 \<and>
     commit_stage False w1 = Some w2 \<and> get_component w2 7 (Entity 1 0) = Some 5"
proof -
  let ?w = "column_world\<lparr>mutation_policy := TransactionalOnly\<rparr>"
  have "world_inv ?w" "store_len (component_store ?w) 7 < 2 ^ 32"
    using column_world_inv by (auto simp: world_inv_def vacated_def slot_at_def)
  moreover have "is_alive ?w (Entity 1 0)" "staging ?w = []"
    by (simp_all add: column_world_def is_alive_iff sample_world_def world_new_def slot_at_def nth_opt_def)
  ultimately show ?thesis using policy_bypass[of ?w "Entity 1 0" 7] by simp
qed

end
