(* ===== verification/World_Txn.thy ===== *)
theory World_Txn
  imports Ecs_Components
begin

text \<open>
  The staged world transaction of \<open>prism-ecs-constitutional/src/world_txn\<close>: staging
  (\<open>WorldTxn\<close>), validation (\<open>prepare_inner\<close>), application (\<open>apply_prepared\<close>) and the
  \<open>transit\<close> entry point, with the journal, the error type and the schema catalogue of
  \<open>schema.rs\<close>. The boxed closures are represented by the data they capture: an apply closure is a
  \<open>txn_op\<close>, a spawn's closures are determined by its entity and kind, and all component preflight
  closures return \<open>Ok\<close>. The world's extension map gains the journal and the two event lists.
  Event payloads are opaque (\<open>'e\<close>, \<open>'a\<close>); hashes are never computed by this code.
\<close>

subsection \<open>Schemas and the catalogue\<close>

record schema_key =
  namespace :: string
  key_id :: nat
  key_version :: nat

record registration_t =
  reg_key :: schema_key
  reg_type_id :: type_id
  reg_type_name :: string

type_synonym catalogue_t = "schema_key \<rightharpoonup> registration_t"

datatype catalogue_error = VersionZero schema_key | DuplicateKey schema_key
  | TypeUnderTwoKeys type_id schema_key schema_key | ReservedNamespace schema_key

text \<open>The registration loop of \<open>SchemaCatalogue::build\<close>, without the digest.\<close>

fun build_from :: "catalogue_t \<Rightarrow> (type_id \<rightharpoonup> schema_key) \<Rightarrow> registration_t list \<Rightarrow>
    (catalogue_error, catalogue_t) outcome" where
  "build_from by_key by_type [] = Ok by_key"
| "build_from by_key by_type (reg # regs) =
     (let key = reg_key reg;
          continue = build_from (by_key(key \<mapsto> reg)) (by_type(reg_type_id reg \<mapsto> key)) regs;
          namespace_check = (if namespace key \<noteq> [] \<and> hd (namespace key) = CHR ''_''
                   then Err (ReservedNamespace key) else continue) in
      if key_version key = 0 then Err (VersionZero key)
      else if by_key key \<noteq> None then Err (DuplicateKey key)
      else case by_type (reg_type_id reg) of
        Some existing \<Rightarrow>
          if namespace existing \<noteq> namespace key \<or> key_id existing \<noteq> key_id key
          then Err (TypeUnderTwoKeys (reg_type_id reg) existing key) else namespace_check
      | None \<Rightarrow> namespace_check)"

declare build_from.simps(2) [simp del]

definition catalogue_build :: "registration_t list \<Rightarrow> (catalogue_error, catalogue_t) outcome" where
  "catalogue_build regs = build_from Map.empty Map.empty regs"

definition registration :: "catalogue_t \<Rightarrow> schema_key \<Rightarrow> registration_t option" where
  "registration cat key = cat key"

subsection \<open>Errors, journal, staged operations\<close>

datatype txn_error = UnregisteredSchema schema_key | StaleEpoch nat nat | StaleRead entity nat nat nat
  | InvalidEntity entity | SchemaMismatch nat string | ComponentNotFound entity nat
  | Conflict entity nat | WorldApply string

datatype change_type = Insert | Update | Remove

record component_change =
  cc_entity :: entity
  cc_schema_key :: schema_key
  cc_change_type :: change_type
  cc_before_hash :: "nat list option"
  cc_after_hash :: "nat list option"
  cc_world_epoch :: nat

record 'v staged_insert =
  si_entity :: entity
  si_schema_id :: nat
  si_schema_version :: nat
  si_schema_key :: schema_key
  si_type_id :: type_id
  si_is_durable :: bool
  si_value :: 'v

record staged_remove =
  sr_entity :: entity
  sr_schema_id :: nat
  sr_schema_version :: nat
  sr_schema_key :: schema_key
  sr_type_id :: type_id
  sr_is_durable :: bool

record staged_spawn =
  sp_entity :: entity
  sp_kind :: entity_kind
  sp_is_pending :: bool

text \<open>A pending operation is a staged insert that waits for its entity.\<close>

record 'v pending_op =
  po_schema_id :: nat
  po_schema_version :: nat
  po_schema_key :: schema_key
  po_type_id :: type_id
  po_is_durable :: bool
  po_value :: 'v

definition resolve_op :: "'v pending_op \<Rightarrow> entity \<Rightarrow> 'v staged_insert" where
  "resolve_op po e = \<lparr>si_entity = e, si_schema_id = po_schema_id po,
     si_schema_version = po_schema_version po, si_schema_key = po_schema_key po,
     si_type_id = po_type_id po, si_is_durable = po_is_durable po, si_value = po_value po\<rparr>"

record read_dependency =
  rd_entity :: entity
  rd_schema_id :: nat
  rd_observed_version :: nat

record ('v, 'e, 'a) world_txn =
  inserts :: "'v staged_insert list"
  removes :: "staged_remove list"
  spawns :: "staged_spawn list"
  pending_resolutions :: "(entity \<times> 'v pending_op list) list"
  events :: "'e list"
  advisory_events :: "'a list"
  read_deps :: "read_dependency list"
  expected_epoch :: nat

record ('v, 'e, 'a) txn_world = "'v world" +
  journal_ext :: "component_change list option"
  events_ext :: "'e list option"
  advisory_ext :: "'a list option"

definition current_epoch :: "('v, 'm) world_scheme \<Rightarrow> nat" where
  "current_epoch w = (case epoch_ext w of None \<Rightarrow> 0 | Some n \<Rightarrow> n)"

definition component_version :: "('v, 'm) world_scheme \<Rightarrow> entity \<Rightarrow> nat" where
  "component_version w e = (case component_versions w e of None \<Rightarrow> 0 | Some n \<Rightarrow> n)"

subsection \<open>Staging\<close>

definition txn_new :: "('v, 'm) world_scheme \<Rightarrow> ('v, 'e, 'a) world_txn" where
  "txn_new w = \<lparr>inserts = [], removes = [], spawns = [], pending_resolutions = [], events = [],
     advisory_events = [], read_deps = [], expected_epoch = current_epoch w\<rparr>"

definition stage_spawn :: "entity \<Rightarrow> entity_kind \<Rightarrow> ('v, 'e, 'a) world_txn \<Rightarrow> ('v, 'e, 'a) world_txn" where
  "stage_spawn e k txn = txn\<lparr>spawns := spawns txn @ [\<lparr>sp_entity = e, sp_kind = k, sp_is_pending = False\<rparr>]\<rparr>"

text \<open>The token returned is the 1-based position of the spawn.\<close>

definition spawn_pending :: "entity_kind \<Rightarrow> ('v, 'e, 'a) world_txn \<Rightarrow> nat \<times> ('v, 'e, 'a) world_txn" where
  "spawn_pending k txn = (length (spawns txn) + 1,
     txn\<lparr>spawns := spawns txn @ [\<lparr>sp_entity = Entity 0 0, sp_kind = k, sp_is_pending = True\<rparr>]\<rparr>)"

definition push_pending :: "nat \<Rightarrow> 'v pending_op \<Rightarrow> ('v, 'e, 'a) world_txn \<Rightarrow> ('v, 'e, 'a) world_txn" where
  "push_pending token po txn =
     txn\<lparr>pending_resolutions := btree_push (Entity token 0) po (pending_resolutions txn)\<rparr>"

definition no_namespace :: "nat \<Rightarrow> nat \<Rightarrow> schema_key" where
  "no_namespace i v = \<lparr>namespace = [], key_id = i, key_version = v\<rparr>"

definition add_component_pending :: "nat \<Rightarrow> nat \<Rightarrow> nat \<Rightarrow> type_id \<Rightarrow> 'v \<Rightarrow>
    ('v, 'e, 'a) world_txn \<Rightarrow> ('v, 'e, 'a) world_txn" where
  "add_component_pending token schema_id schema_version t v =
     push_pending token \<lparr>po_schema_id = schema_id, po_schema_version = schema_version,
       po_schema_key = no_namespace (as_u32 schema_id) schema_version, po_type_id = t,
       po_is_durable = True, po_value = v\<rparr>"

definition put_durable_pending :: "nat \<Rightarrow> schema_key \<Rightarrow> type_id \<Rightarrow> 'v \<Rightarrow>
    ('v, 'e, 'a) world_txn \<Rightarrow> ('v, 'e, 'a) world_txn" where
  "put_durable_pending token key t v =
     push_pending token \<lparr>po_schema_id = key_id key, po_schema_version = key_version key,
       po_schema_key = key, po_type_id = t, po_is_durable = True, po_value = v\<rparr>"

definition put_transient_pending :: "nat \<Rightarrow> type_id \<Rightarrow> 'v \<Rightarrow>
    ('v, 'e, 'a) world_txn \<Rightarrow> ('v, 'e, 'a) world_txn" where
  "put_transient_pending token t v =
     push_pending token \<lparr>po_schema_id = 0, po_schema_version = 0,
       po_schema_key = no_namespace 0 0, po_type_id = t, po_is_durable = False, po_value = v\<rparr>"

definition push_insert :: "entity \<Rightarrow> nat \<Rightarrow> nat \<Rightarrow> schema_key \<Rightarrow> type_id \<Rightarrow> 'v \<Rightarrow> bool \<Rightarrow>
    ('v, 'e, 'a) world_txn \<Rightarrow> ('v, 'e, 'a) world_txn" where
  "push_insert e schema_id schema_version key t v durable txn =
     txn\<lparr>inserts := inserts txn @ [\<lparr>si_entity = e, si_schema_id = schema_id,
       si_schema_version = schema_version, si_schema_key = key, si_type_id = t,
       si_is_durable = durable, si_value = v\<rparr>]\<rparr>"

definition push_remove :: "entity \<Rightarrow> nat \<Rightarrow> nat \<Rightarrow> schema_key \<Rightarrow> type_id \<Rightarrow> bool \<Rightarrow>
    ('v, 'e, 'a) world_txn \<Rightarrow> ('v, 'e, 'a) world_txn" where
  "push_remove e schema_id schema_version key t durable txn =
     txn\<lparr>removes := removes txn @ [\<lparr>sr_entity = e, sr_schema_id = schema_id,
       sr_schema_version = schema_version, sr_schema_key = key, sr_type_id = t,
       sr_is_durable = durable\<rparr>]\<rparr>"

definition txn_add_component :: "entity \<Rightarrow> nat \<Rightarrow> nat \<Rightarrow> type_id \<Rightarrow> 'v \<Rightarrow>
    ('v, 'e, 'a) world_txn \<Rightarrow> ('v, 'e, 'a) world_txn" where
  "txn_add_component e schema_id schema_version t v =
     push_insert e schema_id schema_version (no_namespace (as_u32 schema_id) schema_version) t v True"

definition txn_remove_component :: "entity \<Rightarrow> nat \<Rightarrow> type_id \<Rightarrow>
    ('v, 'e, 'a) world_txn \<Rightarrow> ('v, 'e, 'a) world_txn" where
  "txn_remove_component e schema_id t =
     push_remove e schema_id 0 (no_namespace (as_u32 schema_id) 0) t True"

definition put_durable :: "entity \<Rightarrow> schema_key \<Rightarrow> type_id \<Rightarrow> 'v \<Rightarrow>
    ('v, 'e, 'a) world_txn \<Rightarrow> ('v, 'e, 'a) world_txn" where
  "put_durable e key t v = push_insert e (key_id key) (key_version key) key t v True"

definition put_transient :: "entity \<Rightarrow> type_id \<Rightarrow> 'v \<Rightarrow>
    ('v, 'e, 'a) world_txn \<Rightarrow> ('v, 'e, 'a) world_txn" where
  "put_transient e t v = push_insert e 0 0 (no_namespace 0 0) t v False"

definition remove_durable :: "entity \<Rightarrow> schema_key \<Rightarrow> type_id \<Rightarrow>
    ('v, 'e, 'a) world_txn \<Rightarrow> ('v, 'e, 'a) world_txn" where
  "remove_durable e key t = push_remove e (key_id key) (key_version key) key t True"

definition remove_transient :: "entity \<Rightarrow> type_id \<Rightarrow>
    ('v, 'e, 'a) world_txn \<Rightarrow> ('v, 'e, 'a) world_txn" where
  "remove_transient e t = push_remove e 0 0 (no_namespace 0 0) t False"

definition emit_event :: "'e \<Rightarrow> ('v, 'e, 'a) world_txn \<Rightarrow> ('v, 'e, 'a) world_txn" where
  "emit_event ev txn = txn\<lparr>events := events txn @ [ev]\<rparr>"

definition emit_advisory_event :: "'a \<Rightarrow> ('v, 'e, 'a) world_txn \<Rightarrow> ('v, 'e, 'a) world_txn" where
  "emit_advisory_event ev txn = txn\<lparr>advisory_events := advisory_events txn @ [ev]\<rparr>"

definition record_read :: "read_dependency \<Rightarrow> ('v, 'e, 'a) world_txn \<Rightarrow> ('v, 'e, 'a) world_txn" where
  "record_read dep txn = txn\<lparr>read_deps := read_deps txn @ [dep]\<rparr>"

subsection \<open>Resolving pending spawns\<close>

text \<open>
  Step 1aa of \<open>prepare_inner\<close>. Every pending spawn gets the id \<open>allocator_base + i\<close> for its
  position \<open>i\<close> among all spawns, and an operation on token \<open>t\<close> the id
  \<open>allocator_base + (t - 1)\<close>, in the order of the tokens.
\<close>

definition resolve_spawns :: "nat \<Rightarrow> staged_spawn list \<Rightarrow> staged_spawn list" where
  "resolve_spawns base ss =
     map (\<lambda>(i, s). if sp_is_pending s then s\<lparr>sp_entity := Entity (base + i) 0\<rparr> else s) (enumerate 0 ss)"

definition resolve_id :: "bool \<Rightarrow> nat \<Rightarrow> nat \<Rightarrow> nat option" where
  "resolve_id dbg base token =
     (case u64_sub dbg token 1 of None \<Rightarrow> None | Some d \<Rightarrow> u64_add dbg base d)"

fun resolve_ops :: "bool \<Rightarrow> nat \<Rightarrow> (entity \<times> 'v pending_op list) list \<Rightarrow> 'v staged_insert list option" where
  "resolve_ops dbg base [] = Some []"
| "resolve_ops dbg base ((token, ops) # rest) =
     (case resolve_id dbg base (eid token) of None \<Rightarrow> None
      | Some i \<Rightarrow> (case resolve_ops dbg base rest of None \<Rightarrow> None
          | Some out \<Rightarrow> Some (map (\<lambda>po. resolve_op po (Entity i 0)) ops @ out)))"

definition resolve_pending :: "bool \<Rightarrow> nat \<Rightarrow> ('v, 'e, 'a) world_txn \<Rightarrow> ('v, 'e, 'a) world_txn option" where
  "resolve_pending dbg base txn =
     (if pending_resolutions txn \<noteq> [] \<or> list_ex sp_is_pending (spawns txn)
      then map_option (\<lambda>new. txn\<lparr>inserts := inserts txn @ new,
             spawns := resolve_spawns base (spawns txn), pending_resolutions := []\<rparr>)
           (resolve_ops dbg base (pending_resolutions txn))
      else Some txn)"

subsection \<open>Preparing\<close>

text \<open>An apply closure is the store operation it performs.\<close>

datatype 'v store_op = PutOp type_id entity 'v | DropOp type_id entity

record 'v prepared_durable_op =
  pd_entity :: entity
  pd_schema_key :: schema_key
  pd_apply :: "'v store_op"
  pd_journal_entry :: component_change
  pd_encoded_value :: "nat list option"

record 'v prepared_transient_op =
  pt_entity :: entity
  pt_apply :: "'v store_op"

record ('v, 'e, 'a) prepared_txn =
  p_expected_epoch :: nat
  p_durable_ops :: "'v prepared_durable_op list"
  p_transient_ops :: "'v prepared_transient_op list"
  p_spawns :: "staged_spawn list"
  p_journal :: "component_change list"
  p_events :: "'e list"
  p_advisory_events :: "'a list"

definition journal_entry :: "nat \<Rightarrow> change_type \<Rightarrow> entity \<Rightarrow> schema_key \<Rightarrow> component_change" where
  "journal_entry epoch ct e key = \<lparr>cc_entity = e, cc_schema_key = key, cc_change_type = ct,
     cc_before_hash = None, cc_after_hash = None, cc_world_epoch = epoch\<rparr>"

definition prepare_insert_op :: "nat \<Rightarrow> 'v staged_insert \<Rightarrow> 'v prepared_durable_op" where
  "prepare_insert_op epoch i = \<lparr>pd_entity = si_entity i, pd_schema_key = si_schema_key i,
     pd_apply = PutOp (si_type_id i) (si_entity i) (si_value i),
     pd_journal_entry = journal_entry epoch Insert (si_entity i) (si_schema_key i), pd_encoded_value = None\<rparr>"

definition prepare_remove_op :: "nat \<Rightarrow> staged_remove \<Rightarrow> 'v prepared_durable_op" where
  "prepare_remove_op epoch r = \<lparr>pd_entity = sr_entity r, pd_schema_key = sr_schema_key r,
     pd_apply = DropOp (sr_type_id r) (sr_entity r),
     pd_journal_entry = journal_entry epoch Remove (sr_entity r) (sr_schema_key r), pd_encoded_value = None\<rparr>"

text \<open>The individual validation steps; each is a loop of \<open>prepare_inner\<close>.\<close>

definition check_spawn :: "('v, 'm) world_scheme \<Rightarrow> staged_spawn \<Rightarrow> (txn_error, unit) outcome" where
  "check_spawn w s = (if has_entity w (sp_entity s) then Err (InvalidEntity (sp_entity s)) else Ok ())"

definition check_duplicate_spawns :: "staged_spawn list \<Rightarrow> (txn_error, unit) outcome" where
  "check_duplicate_spawns ss = (case first_dup sp_entity {} ss of
     Some s \<Rightarrow> Err (InvalidEntity (sp_entity s)) | None \<Rightarrow> Ok ())"

definition check_read :: "('v, 'm) world_scheme \<Rightarrow> read_dependency \<Rightarrow> (txn_error, unit) outcome" where
  "check_read w d = (let current_ver = component_version w (rd_entity d) in
     if current_ver \<noteq> rd_observed_version d
     then Err (StaleRead (rd_entity d) (rd_schema_id d) (rd_observed_version d) current_ver) else Ok ())"

definition check_target :: "('v, 'm) world_scheme \<Rightarrow> staged_spawn list \<Rightarrow> entity \<Rightarrow> (txn_error, unit) outcome" where
  "check_target w ss e =
     (if e \<in> set (map sp_entity ss) then Ok ()
      else if \<not> has_entity w e then Err (InvalidEntity e) else Ok ())"

definition check_conflicts :: "'v staged_insert list \<Rightarrow> staged_remove list \<Rightarrow> (txn_error, unit) outcome" where
  "check_conflicts ins rems =
     (case first_dup (\<lambda>i. (si_entity i, si_type_id i)) {} ins of
        Some i \<Rightarrow> Err (Conflict (si_entity i) (si_schema_id i))
      | None \<Rightarrow> (case first_dup (\<lambda>r. (sr_entity r, sr_type_id r)) {} rems of
            Some r \<Rightarrow> Err (Conflict (sr_entity r) (sr_schema_id r))
          | None \<Rightarrow> Ok ()))"

definition check_schema :: "catalogue_t \<Rightarrow> 'v staged_insert \<Rightarrow> (txn_error, unit) outcome" where
  "check_schema cat i =
     (if si_is_durable i then
        (case registration cat (si_schema_key i) of
           None \<Rightarrow> Err (UnregisteredSchema (si_schema_key i))
         | Some reg \<Rightarrow> if reg_type_id reg \<noteq> si_type_id i
             then Err (SchemaMismatch (si_schema_id i) (reg_type_name reg)) else Ok ())
      else Ok ())"

definition check_catalogue :: "catalogue_t option \<Rightarrow> 'v staged_insert list \<Rightarrow> (txn_error, unit) outcome" where
  "check_catalogue cat ins = (case cat of None \<Rightarrow> Ok () | Some c \<Rightarrow> try_each (check_schema c) ins)"

text \<open>Steps 1b to 1h, on the resolved transaction. The preflights of step 1f always succeed.\<close>

definition validate_txn :: "('v, 'm) world_scheme \<Rightarrow> catalogue_t option \<Rightarrow> ('v, 'e, 'a) world_txn \<Rightarrow>
    (txn_error, unit) outcome" where
  "validate_txn w cat txn =
     and_then (try_each (check_spawn w) (spawns txn)) (\<lambda>_.
     and_then (check_duplicate_spawns (spawns txn)) (\<lambda>_.
     and_then (try_each (check_read w) (read_deps txn)) (\<lambda>_.
     and_then (try_each (\<lambda>i. check_target w (spawns txn) (si_entity i)) (inserts txn)) (\<lambda>_.
     and_then (try_each (\<lambda>r. check_target w (spawns txn) (sr_entity r)) (removes txn)) (\<lambda>_.
     and_then (check_conflicts (inserts txn) (removes txn)) (\<lambda>_.
       check_catalogue cat (inserts txn)))))))"

text \<open>Phase 2: the split into durable and transient operations, and the journal.\<close>

definition build_prepared :: "nat \<Rightarrow> ('v, 'e, 'a) world_txn \<Rightarrow> ('v, 'e, 'a) prepared_txn" where
  "build_prepared next_epoch txn =
     (let durable = map (prepare_insert_op next_epoch) (filter si_is_durable (inserts txn)) @
            map (prepare_remove_op next_epoch) (filter sr_is_durable (removes txn));
          transient =
            map (\<lambda>i. \<lparr>pt_entity = si_entity i, pt_apply = PutOp (si_type_id i) (si_entity i) (si_value i)\<rparr>)
              (filter (\<lambda>i. \<not> si_is_durable i) (inserts txn)) @
            map (\<lambda>r. \<lparr>pt_entity = sr_entity r, pt_apply = DropOp (sr_type_id r) (sr_entity r)\<rparr>)
              (filter (\<lambda>r. \<not> sr_is_durable r) (removes txn))
      in \<lparr>p_expected_epoch = expected_epoch txn, p_durable_ops = durable, p_transient_ops = transient,
          p_spawns = spawns txn, p_journal = map pd_journal_entry durable,
          p_events = events txn, p_advisory_events = advisory_events txn\<rparr>)"

definition prepare_inner :: "bool \<Rightarrow> ('v, 'm) world_scheme \<Rightarrow> catalogue_t option \<Rightarrow>
    ('v, 'e, 'a) world_txn \<Rightarrow> (txn_error, ('v, 'e, 'a) prepared_txn) outcome" where
  "prepare_inner dbg w cat txn =
     (if current_epoch w \<noteq> expected_epoch txn
      then Err (StaleEpoch (expected_epoch txn) (current_epoch w))
      else and_then (of_panic (resolve_pending dbg (next_id w) txn)) (\<lambda>txn'.
        and_then (validate_txn w cat txn') (\<lambda>_.
          Ok (build_prepared (current_epoch w + 1) txn'))))"

subsection \<open>Applying\<close>

definition run_store_op :: "bool \<Rightarrow> 'v store_op \<Rightarrow> 'v component_store \<Rightarrow> 'v component_store option" where
  "run_store_op dbg op s = (case op of
     PutOp t e v \<Rightarrow> store_insert dbg t e v s
   | DropOp t e \<Rightarrow> map_option snd (store_remove dbg t e s))"

definition bump_version :: "entity \<Rightarrow> (entity \<rightharpoonup> nat) \<Rightarrow> (entity \<rightharpoonup> nat)" where
  "bump_version e vs = vs(e \<mapsto> (case vs e of None \<Rightarrow> 0 | Some n \<Rightarrow> n) + 1)"

fun apply_ops :: "bool \<Rightarrow> (entity \<times> 'v store_op) list \<Rightarrow> ('v, 'm) world_scheme \<Rightarrow>
    ('v, 'm) world_scheme option" where
  "apply_ops dbg [] w = Some w"
| "apply_ops dbg ((e, op) # ops) w =
     (case run_store_op dbg op (component_store w) of None \<Rightarrow> None
      | Some s \<Rightarrow> apply_ops dbg ops
          (w\<lparr>component_store := s, component_versions := bump_version e (component_versions w)\<rparr>))"

fun apply_spawns :: "staged_spawn list \<Rightarrow> ('v, 'm) world_scheme \<Rightarrow> ('v, 'm) world_scheme option" where
  "apply_spawns [] w = Some w"
| "apply_spawns (s # ss) w =
     (case spawn_entity_with_id (eid (sp_entity s)) (sp_kind s) w of None \<Rightarrow> None
      | Some (_, w') \<Rightarrow> apply_spawns ss w')"

record commit_receipt =
  committed_epoch :: nat
  journal_length :: nat
  event_count :: nat
  advisory_event_count :: nat

definition prepared_ops :: "('v, 'e, 'a) prepared_txn \<Rightarrow> (entity \<times> 'v store_op) list" where
  "prepared_ops p = map (\<lambda>o'. (pd_entity o', pd_apply o')) (p_durable_ops p) @
     map (\<lambda>o'. (pt_entity o', pt_apply o')) (p_transient_ops p)"

definition apply_prepared :: "bool \<Rightarrow> ('v, 'e, 'a) prepared_txn \<Rightarrow> ('v, 'e, 'a) txn_world \<Rightarrow>
    (commit_receipt \<times> ('v, 'e, 'a) txn_world) option" where
  "apply_prepared dbg p w =
     (if current_epoch w \<noteq> p_expected_epoch p then None
      else case apply_spawns (p_spawns p) w of None \<Rightarrow> None
      | Some w1 \<Rightarrow> (case apply_ops dbg (prepared_ops p) w1 of None \<Rightarrow> None
      | Some w2 \<Rightarrow> (case apply_spawns (p_spawns p) w2 of None \<Rightarrow> None
      | Some w3 \<Rightarrow>
          let next_epoch = current_epoch w3 + 1 in
          Some (\<lparr>committed_epoch = next_epoch, journal_length = length (p_journal p),
                 event_count = length (p_events p), advisory_event_count = length (p_advisory_events p)\<rparr>,
            w3\<lparr>epoch_ext := Some next_epoch, journal_ext := Some (p_journal p),
               events_ext := Some (p_events p), advisory_ext := Some (p_advisory_events p)\<rparr>))))"

definition prepare :: "bool \<Rightarrow> ('v, 'm) world_scheme \<Rightarrow> catalogue_t option \<Rightarrow> ('v, 'e, 'a) world_txn \<Rightarrow>
    (txn_error, ('v, 'e, 'a) prepared_txn) outcome" where
  "prepare dbg w cat txn = prepare_inner dbg w cat txn"

definition transit :: "bool \<Rightarrow> ('v, 'e, 'a) world_txn \<Rightarrow> ('v, 'e, 'a) txn_world \<Rightarrow>
    (txn_error, nat \<times> ('v, 'e, 'a) txn_world) outcome" where
  "transit dbg txn w =
     and_then (prepare dbg w None txn) (\<lambda>p.
       and_then (of_panic (apply_prepared dbg p w)) (\<lambda>(r, w'). Ok (committed_epoch r, w')))"

subsection \<open>What a commit leaves for its readers\<close>

definition last_journal :: "('v, 'e, 'a) txn_world \<Rightarrow> component_change list" where
  "last_journal w = (case journal_ext w of None \<Rightarrow> [] | Some j \<Rightarrow> j)"

definition last_committed_events :: "('v, 'e, 'a) txn_world \<Rightarrow> 'e list" where
  "last_committed_events w = (case events_ext w of None \<Rightarrow> [] | Some es \<Rightarrow> es)"

definition drain_committed_events :: "('v, 'e, 'a) txn_world \<Rightarrow> 'e list \<times> ('v, 'e, 'a) txn_world" where
  "drain_committed_events w = (case events_ext w of None \<Rightarrow> ([], w)
     | Some es \<Rightarrow> (es, w\<lparr>events_ext := Some []\<rparr>))"

definition last_committed_advisory_events :: "('v, 'e, 'a) txn_world \<Rightarrow> 'a list" where
  "last_committed_advisory_events w = (case advisory_ext w of None \<Rightarrow> [] | Some es \<Rightarrow> es)"

definition drain_committed_advisory_events :: "('v, 'e, 'a) txn_world \<Rightarrow> 'a list \<times> ('v, 'e, 'a) txn_world" where
  "drain_committed_advisory_events w = (case advisory_ext w of None \<Rightarrow> ([], w)
     | Some es \<Rightarrow> (es, w\<lparr>advisory_ext := Some []\<rparr>))"

subsection \<open>What validation accepts\<close>

text \<open>The declarative reading of steps 1b to 1h.\<close>

definition registered :: "catalogue_t \<Rightarrow> 'v staged_insert \<Rightarrow> bool" where
  "registered cat i \<longleftrightarrow> (\<exists>reg. cat (si_schema_key i) = Some reg \<and> reg_type_id reg = si_type_id i)"

definition targets :: "('v, 'e, 'a) world_txn \<Rightarrow> entity set" where
  "targets txn = si_entity ` set (inserts txn) \<union> sr_entity ` set (removes txn)"

definition spawned_entities :: "('v, 'e, 'a) world_txn \<Rightarrow> entity set" where
  "spawned_entities txn = sp_entity ` set (spawns txn)"

definition valid_txn :: "('v, 'm) world_scheme \<Rightarrow> catalogue_t option \<Rightarrow> ('v, 'e, 'a) world_txn \<Rightarrow> bool" where
  "valid_txn w cat txn \<longleftrightarrow>
     (\<forall>e \<in> spawned_entities txn. \<not> is_alive w e) \<and> distinct (map sp_entity (spawns txn)) \<and>
     (\<forall>d \<in> set (read_deps txn). component_version w (rd_entity d) = rd_observed_version d) \<and>
     (\<forall>e \<in> targets txn. is_alive w e \<or> e \<in> spawned_entities txn) \<and>
     distinct (map (\<lambda>i. (si_entity i, si_type_id i)) (inserts txn)) \<and>
     distinct (map (\<lambda>r. (sr_entity r, sr_type_id r)) (removes txn)) \<and>
     (\<forall>c. cat = Some c \<longrightarrow> (\<forall>i \<in> set (inserts txn). si_is_durable i \<longrightarrow> registered c i))"

lemma check_spawn_Ok: "check_spawn w s = Ok () \<longleftrightarrow> \<not> is_alive w (sp_entity s)"
  by (simp add: check_spawn_def has_entity_def)

lemma check_duplicate_spawns_Ok: "check_duplicate_spawns ss = Ok () \<longleftrightarrow> distinct (map sp_entity ss)"
  using first_dup_None[of sp_entity "{}" ss]
  by (auto simp: check_duplicate_spawns_def split: option.split)

lemma check_read_Ok: "check_read w d = Ok () \<longleftrightarrow> component_version w (rd_entity d) = rd_observed_version d"
  by (simp add: check_read_def Let_def)

lemma check_target_Ok: "check_target w ss e = Ok () \<longleftrightarrow> e \<in> sp_entity ` set ss \<or> is_alive w e"
  by (simp add: check_target_def has_entity_def)

lemma check_conflicts_Ok: "check_conflicts ins rems = Ok () \<longleftrightarrow>
    distinct (map (\<lambda>i. (si_entity i, si_type_id i)) ins) \<and>
    distinct (map (\<lambda>r. (sr_entity r, sr_type_id r)) rems)"
  using first_dup_None[of "\<lambda>i. (si_entity i, si_type_id i)" "{}" ins]
    first_dup_None[of "\<lambda>r. (sr_entity r, sr_type_id r)" "{}" rems]
  by (auto simp: check_conflicts_def split: option.split)

lemma check_schema_Ok: "check_schema c i = Ok () \<longleftrightarrow> (si_is_durable i \<longrightarrow> registered c i)"
  by (auto simp: check_schema_def registered_def registration_def split: option.split)

lemma check_catalogue_Ok: "check_catalogue cat ins = Ok () \<longleftrightarrow>
    (\<forall>c. cat = Some c \<longrightarrow> (\<forall>i \<in> set ins. si_is_durable i \<longrightarrow> registered c i))"
  by (auto simp: check_catalogue_def try_each_Ok check_schema_Ok split: option.split)

lemmas check_Ok = check_spawn_Ok check_duplicate_spawns_Ok check_read_Ok check_target_Ok
  check_conflicts_Ok check_catalogue_Ok try_each_Ok

lemma validate_txn_Ok: "validate_txn w cat txn = Ok () \<longleftrightarrow> valid_txn w cat txn"
proof -
  have un: "(\<forall>i \<in> set (inserts txn). Q (si_entity i)) \<and> (\<forall>r \<in> set (removes txn). Q (sr_entity r)) \<longleftrightarrow>
      (\<forall>e \<in> targets txn. Q e)" for Q
    by (auto simp: targets_def)
  have "validate_txn w cat txn = Ok () \<longleftrightarrow>
      (\<forall>s \<in> set (spawns txn). \<not> is_alive w (sp_entity s)) \<and> distinct (map sp_entity (spawns txn)) \<and>
      (\<forall>d \<in> set (read_deps txn). component_version w (rd_entity d) = rd_observed_version d) \<and>
      ((\<forall>i \<in> set (inserts txn). is_alive w (si_entity i) \<or> si_entity i \<in> spawned_entities txn) \<and>
       (\<forall>r \<in> set (removes txn). is_alive w (sr_entity r) \<or> sr_entity r \<in> spawned_entities txn)) \<and>
      (distinct (map (\<lambda>i. (si_entity i, si_type_id i)) (inserts txn)) \<and>
       distinct (map (\<lambda>r. (sr_entity r, sr_type_id r)) (removes txn))) \<and>
      check_catalogue cat (inserts txn) = Ok ()"
    unfolding validate_txn_def check_conflicts_Ok[symmetric] check_duplicate_spawns_Ok[symmetric]
      check_spawn_Ok[symmetric] check_read_Ok[symmetric]
    by (simp add: check_target_Ok try_each_Ok spawned_entities_def disj_commute)
  then show ?thesis
    unfolding un[of "\<lambda>e. is_alive w e \<or> e \<in> spawned_entities txn"] check_catalogue_Ok
    by (simp add: valid_txn_def spawned_entities_def)
qed

lemma prepare_Ok:
  "prepare dbg w cat txn = Ok p \<longleftrightarrow> current_epoch w = expected_epoch txn \<and>
     (\<exists>txn'. resolve_pending dbg (next_id w) txn = Some txn' \<and> valid_txn w cat txn' \<and>
        p = build_prepared (current_epoch w + 1) txn')"
  by (auto simp: prepare_def prepare_inner_def validate_txn_Ok)

text \<open>Each error names a reason that holds of the world and the resolved transaction.\<close>

fun error_holds :: "('v, 'm) world_scheme \<Rightarrow> catalogue_t option \<Rightarrow> ('v, 'e, 'a) world_txn \<Rightarrow> txn_error \<Rightarrow> bool" where
  "error_holds w cat txn (StaleEpoch ex cur) = (ex = expected_epoch txn \<and> cur = current_epoch w \<and> ex \<noteq> cur)"
| "error_holds w cat txn (InvalidEntity e) =
     ((e \<in> spawned_entities txn \<and> (is_alive w e \<or> \<not> distinct (map sp_entity (spawns txn)))) \<or>
      (e \<in> targets txn \<and> e \<notin> spawned_entities txn \<and> \<not> is_alive w e))"
| "error_holds w cat txn (StaleRead e sid obs cur) =
     (cur = component_version w e \<and> cur \<noteq> obs \<and>
      (\<exists>d \<in> set (read_deps txn). rd_entity d = e \<and> rd_schema_id d = sid \<and> rd_observed_version d = obs))"
| "error_holds w cat txn (Conflict e sid) = (e \<in> targets txn \<and>
      (\<not> distinct (map (\<lambda>i. (si_entity i, si_type_id i)) (inserts txn)) \<or>
       \<not> distinct (map (\<lambda>r. (sr_entity r, sr_type_id r)) (removes txn))))"
| "error_holds w cat txn (UnregisteredSchema key) = (\<exists>c. cat = Some c \<and> c key = None \<and>
      (\<exists>i \<in> set (inserts txn). si_is_durable i \<and> si_schema_key i = key))"
| "error_holds w cat txn (SchemaMismatch sid nm) = (\<exists>c reg i. cat = Some c \<and> i \<in> set (inserts txn) \<and>
      si_is_durable i \<and> c (si_schema_key i) = Some reg \<and> reg_type_id reg \<noteq> si_type_id i \<and>
      reg_type_name reg = nm \<and> si_schema_id i = sid)"
| "error_holds w cat txn _ = False"

lemma check_spawns_error:
  "try_each (check_spawn w) (spawns txn) = Err err \<Longrightarrow> error_holds w cat txn err"
  by (drule try_each_Err) (auto simp: check_spawn_def has_entity_def spawned_entities_def split: if_splits)

lemma check_duplicate_spawns_error:
  assumes "check_duplicate_spawns (spawns txn) = Err err"
  shows "error_holds w cat txn err"
  using assms first_dup_Some[of sp_entity "{}" "spawns txn"] first_dup_None[of sp_entity "{}" "spawns txn"]
  by (auto simp: check_duplicate_spawns_def spawned_entities_def split: option.splits)

lemma check_reads_error:
  "try_each (check_read w) (read_deps txn) = Err err \<Longrightarrow> error_holds w cat txn err"
  by (drule try_each_Err) (auto simp: check_read_def Let_def split: if_splits)

lemma check_targets_error:
  "try_each (\<lambda>i. check_target w (spawns txn) (si_entity i)) (inserts txn) = Err err \<Longrightarrow> error_holds w cat txn err"
  "try_each (\<lambda>r. check_target w (spawns txn) (sr_entity r)) (removes txn) = Err err \<Longrightarrow> error_holds w cat txn err"
  by (drule try_each_Err, auto simp: check_target_def has_entity_def targets_def spawned_entities_def
      split: if_splits)+

lemma check_conflicts_error:
  assumes "check_conflicts (inserts txn) (removes txn) = Err err"
  shows "error_holds w cat txn err"
  using assms
    first_dup_Some[of "\<lambda>i. (si_entity i, si_type_id i)" "{}" "inserts txn"]
    first_dup_None[of "\<lambda>i. (si_entity i, si_type_id i)" "{}" "inserts txn"]
    first_dup_Some[of "\<lambda>r. (sr_entity r, sr_type_id r)" "{}" "removes txn"]
    first_dup_None[of "\<lambda>r. (sr_entity r, sr_type_id r)" "{}" "removes txn"]
  by (auto simp: check_conflicts_def targets_def split: option.splits)

lemma check_schema_error:
  assumes "check_schema c i = Err err" "i \<in> set (inserts txn)"
  shows "error_holds w (Some c) txn err"
  using assms by (auto 0 3 simp: check_schema_def registration_def split: option.splits if_splits)

lemma check_catalogue_error:
  assumes "check_catalogue cat (inserts txn) = Err err"
  shows "error_holds w cat txn err"
  using assms check_schema_error[of _ _ err txn w]
  by (auto simp: check_catalogue_def split: option.splits dest!: try_each_Err)

lemmas check_errors = check_spawns_error check_duplicate_spawns_error check_reads_error
  check_targets_error check_conflicts_error check_catalogue_error

lemma validate_txn_Err: "validate_txn w cat txn = Err err \<Longrightarrow> error_holds w cat txn err"
  unfolding validate_txn_def and_then_Err by (elim disjE exE conjE; erule check_errors)

text \<open>No validation step panics.\<close>

lemma and_then_no_panic: "m \<noteq> Panic \<Longrightarrow> (\<And>u. f u \<noteq> Panic) \<Longrightarrow> and_then m f \<noteq> Panic"
  by (cases m) auto

lemma check_schema_no_panic: "check_schema c i \<noteq> Panic"
  by (simp add: check_schema_def split: option.split)

lemma check_no_panic:
  "try_each (check_spawn w) ss \<noteq> Panic" "try_each (check_read w) ds \<noteq> Panic"
  "try_each (\<lambda>x. check_target w ss (f x)) xs \<noteq> Panic"
  by (rule try_each_no_panic, simp add: check_spawn_def check_read_def check_target_def Let_def)+

lemma check_no_panic':
  "check_duplicate_spawns ss \<noteq> Panic" "check_conflicts ins rems \<noteq> Panic"
  by (simp_all add: check_duplicate_spawns_def check_conflicts_def split: option.split)

lemma check_catalogue_no_panic: "check_catalogue cat ins \<noteq> Panic"
  using try_each_no_panic[of "check_schema (the cat)" ins] check_schema_no_panic
  by (cases cat) (auto simp: check_catalogue_def)

lemma validate_no_panic: "validate_txn w cat txn \<noteq> Panic"
  unfolding validate_txn_def
  by (intro and_then_no_panic check_no_panic check_no_panic' check_catalogue_no_panic)

subsection \<open>What application does\<close>

fun op_key :: "'v store_op \<Rightarrow> type_id \<times> entity" where
  "op_key (PutOp t e v) = (t, e)"
| "op_key (DropOp t e) = (t, e)"

fun op_result :: "'v store_op \<Rightarrow> 'v option" where
  "op_result (PutOp t e v) = Some v"
| "op_result (DropOp t e) = None"

text \<open>The effect of the last operation on a component, \<^const>\<open>None\<close> when none touches it.\<close>

fun last_op :: "(entity \<times> 'v store_op) list \<Rightarrow> type_id \<times> entity \<Rightarrow> 'v option option" where
  "last_op [] k = None"
| "last_op (o' # ops) k = (case last_op ops k of Some r \<Rightarrow> Some r
     | None \<Rightarrow> if op_key (snd o') = k then Some (op_result (snd o')) else None)"

text \<open>No operation names another generation of \<open>e\<close>'s id.\<close>

definition sole_target :: "(entity \<times> 'v store_op) list \<Rightarrow> entity \<Rightarrow> bool" where
  "sole_target ops e \<longleftrightarrow>
     (\<forall>o' \<in> set ops. eid (snd (op_key (snd o'))) = eid e \<longrightarrow> snd (op_key (snd o')) = e)"

lemma sole_target_Cons: "sole_target (o' # ops) e \<longleftrightarrow>
    (eid (snd (op_key (snd o'))) = eid e \<longrightarrow> snd (op_key (snd o')) = e) \<and> sole_target ops e"
  by (simp add: sole_target_def)

definition touches :: "(entity \<times> 'v store_op) list \<Rightarrow> entity \<Rightarrow> nat" where
  "touches ops e = length (filter (\<lambda>o'. fst o' = e) ops)"

lemma last_op_None: "last_op ops k = None \<longleftrightarrow> k \<notin> (op_key \<circ> snd) ` set ops"
  by (induction ops) (auto split: option.splits)

lemma last_op_append: "last_op (xs @ ys) k = (case last_op ys k of Some r \<Rightarrow> Some r | None \<Rightarrow> last_op xs k)"
  by (induction xs) (auto split: option.splits)

lemma last_op_distinct:
  assumes "distinct (map (op_key \<circ> snd) ops)" "o' \<in> set ops"
  shows "last_op ops (op_key (snd o')) = Some (op_result (snd o'))"
  using assms
proof (induction ops)
  case (Cons a ops)
  then show ?case
  proof (cases "o' \<in> set ops")
    case False
    then have "last_op ops (op_key (snd o')) = None" using Cons.prems by (auto simp: last_op_None)
    then show ?thesis using False Cons.prems by simp
  qed simp
qed simp

lemma store_insert_len:
  assumes "store_inv s" "store_len s t < 2 ^ 32" "store_insert False t e v s = Some s'"
  shows "store_inv s' \<and> (\<forall>t'. store_len s' t' \<le> store_len s t' + 1)"
  using store_insert_spec[OF assms(1,2), of False e v] assms(3) by auto

lemma store_remove_len:
  assumes "store_inv s" "store_remove False t e s = Some (r, s')"
  shows "store_len s' t' \<le> store_len s t'"
proof -
  have inv: "col_inv (column_or_new t s)" using assms(1) by (rule column_or_new_inv)
  obtain c' where c': "column_remove False e (column_or_new t s) = Some (r, c')" "s' = s(t \<mapsto> c')"
    using assms(2) by (auto simp: store_remove_def)
  obtain c'' where c'': "column_remove False e (column_or_new t s) =
      Some (column_get (column_or_new t s) e, c'')" "col_inv c''"
    "\<And>e'. column_get c'' e' = (if e' = e then None else column_get (column_or_new t s) e')"
    using column_remove_get[OF inv] by blast
  have eq: "c'' = c'" using c' c'' by simp
  have "set (column_iter c') \<subseteq> set (column_iter (column_or_new t s))"
    using c''(2,3) inv by (auto simp: eq column_get_iff[symmetric] split: if_splits)
  then have "length (entities c') \<le> length (entities (column_or_new t s))"
    using c''(2) inv by (auto simp: eq column_len_card intro: card_mono)
  then show ?thesis by (auto simp: store_len_def column_or_new_upd c'(2))
qed

lemma run_store_op_spec:
  assumes "store_inv s" "store_len s (fst (op_key op)) < 2 ^ 32"
  obtains s' where "run_store_op False op s = Some s'" "store_inv s'"
    and "\<And>t e. eid (snd (op_key op)) = eid e \<longrightarrow> snd (op_key op) = e \<Longrightarrow>
       store_get s' t e = (if op_key op = (t, e) then op_result op else store_get s t e)"
    and "\<And>t. store_len s' t \<le> store_len s t + 1"
proof (cases op)
  case (PutOp t e v)
  obtain s' where "store_insert False t e v s = Some s'" "store_inv s'"
    "\<And>t' e'. store_get s' t' e' = (if t' \<noteq> t then store_get s t' e'
        else if e' = e then Some v else if eid e' = eid e then None else store_get s t e')"
    "\<And>t'. store_len s' t' \<le> store_len s t' + 1"
    using store_insert_spec[OF assms(1), of t False e v] assms(2) PutOp by auto
  then show ?thesis using that[of s'] PutOp by (auto simp: run_store_op_def)
next
  case (DropOp t e)
  obtain s' where "store_remove False t e s = Some (store_get s t e, s')" "store_inv s'"
    "\<And>t' e'. store_get s' t' e' = (if t' = t \<and> e' = e then None else store_get s t' e')"
    using store_remove_spec[OF assms(1), of False t e] by blast
  moreover have "store_len s' t' \<le> store_len s t' + 1" for t'
    using store_remove_len[OF assms(1) calculation(1), of t'] by simp
  ultimately show ?thesis using that[of s'] DropOp by (auto simp: run_store_op_def)
qed

lemma component_version_bump:
  "component_version (w\<lparr>component_store := s, component_versions := bump_version a (component_versions w)\<rparr>) e =
     component_version w e + (if a = e then 1 else 0)"
  by (simp add: component_version_def bump_version_def)

text \<open>Applying the operations changes the store and the versions only.\<close>

lemma apply_ops_spec:
  assumes "store_inv (component_store w)" "\<And>t. store_len (component_store w) t + length ops \<le> 2 ^ 32"
  obtains s vs where
    "apply_ops False ops w = Some (w\<lparr>component_store := s, component_versions := vs\<rparr>)" "store_inv s"
    and "\<And>t e. sole_target ops e \<Longrightarrow> store_get s t e =
       (case last_op ops (t, e) of Some r \<Rightarrow> r | None \<Rightarrow> store_get (component_store w) t e)"
    and "\<And>e. component_version (w\<lparr>component_store := s, component_versions := vs\<rparr>) e =
       component_version w e + touches ops e"
  using assms
proof (induction ops arbitrary: w thesis)
  case Nil
  show ?case by (rule Nil.prems(1)[of "component_versions w" "component_store w"])
      (use Nil.prems(2) in \<open>simp_all add: touches_def\<close>)
next
  case (Cons o' ops)
  obtain a op where o': "o' = (a, op)" by (cases o')
  have "store_len (component_store w) (fst (op_key op)) < 2 ^ 32"
    using Cons.prems(3)[of "fst (op_key op)"] by simp
  from run_store_op_spec[OF Cons.prems(2) this] obtain s1 where
    s1: "run_store_op False op (component_store w) = Some s1" "store_inv s1"
    "\<And>t e. eid (snd (op_key op)) = eid e \<longrightarrow> snd (op_key op) = e \<Longrightarrow>
       store_get s1 t e = (if op_key op = (t, e) then op_result op else store_get (component_store w) t e)"
    "\<And>t. store_len s1 t \<le> store_len (component_store w) t + 1" by metis
  let ?w1 = "w\<lparr>component_store := s1, component_versions := bump_version a (component_versions w)\<rparr>"
  have room: "store_len (component_store ?w1) t + length ops \<le> 2 ^ 32" for t
    using Cons.prems(3)[of t] s1(4)[of t] by simp
  show ?case
  proof (rule Cons.IH[of ?w1, OF _ _ room])
    show "store_inv (component_store ?w1)" using s1(2) by simp
    fix s vs
    assume r: "apply_ops False ops ?w1 = Some (?w1\<lparr>component_store := s, component_versions := vs\<rparr>)"
      "store_inv s"
      "\<And>t e. sole_target ops e \<Longrightarrow> store_get s t e =
         (case last_op ops (t, e) of Some r \<Rightarrow> r | None \<Rightarrow> store_get (component_store ?w1) t e)"
      "\<And>e. component_version (?w1\<lparr>component_store := s, component_versions := vs\<rparr>) e =
         component_version ?w1 e + touches ops e"
    show thesis
    proof (rule Cons.prems(1)[of vs s])
      show "apply_ops False (o' # ops) w = Some (w\<lparr>component_store := s, component_versions := vs\<rparr>)"
        using r(1) s1(1) o' by simp
      show "store_inv s" by fact
      show "store_get s t e = (case last_op (o' # ops) (t, e) of Some r \<Rightarrow> r
          | None \<Rightarrow> store_get (component_store w) t e)" if "sole_target (o' # ops) e" for t e
        using that r(3)[of e t] s1(3)[of e t] by (auto simp: o' sole_target_Cons split: option.split)
      show "component_version (w\<lparr>component_store := s, component_versions := vs\<rparr>) e =
          component_version w e + touches (o' # ops) e" for e
        using r(4)[of e] by (simp add: component_version_bump o' touches_def)
    qed
  qed
qed

text \<open>Reserved spawns change the entity table and the allocator only.\<close>

lemma spawn_with_id_frame:
  assumes "spawn_entity_with_id i k w = Some (e, w')"
  obtains em n where "w' = w\<lparr>entity_meta := em, next_id := n\<rparr>"
proof -
  have "w' = w\<lparr>entity_meta := entity_meta w', next_id := next_id w'\<rparr>"
    using assms by (auto simp: spawn_entity_with_id_def Let_def split: if_splits option.splits)
  then show ?thesis by (rule that)
qed

lemma apply_spawns_frame:
  assumes "apply_spawns ss w = Some w'"
  obtains em n where "w' = w\<lparr>entity_meta := em, next_id := n\<rparr>"
  using assms
proof (induction ss arbitrary: w thesis)
  case Nil
  then show ?case by (intro Nil.prems(1)[of "next_id w" "entity_meta w"]) simp
next
  case (Cons s ss)
  obtain e w1 where w1: "spawn_entity_with_id (eid (sp_entity s)) (sp_kind s) w = Some (e, w1)"
    "apply_spawns ss w1 = Some w'" using Cons.prems(2) by (auto split: option.splits)
  obtain em1 n1 where "w1 = w\<lparr>entity_meta := em1, next_id := n1\<rparr>" using spawn_with_id_frame[OF w1(1)] .
  moreover obtain em n where "w' = w1\<lparr>entity_meta := em, next_id := n\<rparr>" using Cons.IH[OF _ w1(2)] .
  ultimately show ?case by (intro Cons.prems(1)[of n em]) simp
qed

text \<open>A reserved id is usable when it is positive, of generation 0 and its slot is not occupied.\<close>

definition fresh_spawn :: "('v, 'm) world_scheme \<Rightarrow> staged_spawn \<Rightarrow> bool" where
  "fresh_spawn w s \<longleftrightarrow> egen (sp_entity s) = 0 \<and> eid (sp_entity s) \<noteq> 0 \<and>
     \<not> occupied (slot_at w (eid (sp_entity s) - 1))"

definition fresh_spawns :: "('v, 'm) world_scheme \<Rightarrow> staged_spawn list \<Rightarrow> bool" where
  "fresh_spawns w ss \<longleftrightarrow> list_all (fresh_spawn w) ss"

definition spawn_slot :: "staged_spawn \<Rightarrow> entity_slot" where
  "spawn_slot s = \<lparr>generation = 0, occupant = Some \<lparr>okind = sp_kind s, oname = None\<rparr>\<rparr>"

lemma apply_spawns_fresh:
  assumes "fresh_spawns w ss" "distinct (map sp_entity ss)" "next_id w = length (entity_meta w) + 1"
  obtains w' where "apply_spawns ss w = Some w'" "next_id w' = length (entity_meta w') + 1"
    and "\<And>s. s \<in> set ss \<Longrightarrow> slot_at w' (eid (sp_entity s) - 1) = Some (spawn_slot s)"
    and "\<And>j. \<forall>s \<in> set ss. j \<noteq> eid (sp_entity s) - 1 \<Longrightarrow> slot_at w' j = slot_at w j"
  using assms
proof (induction ss arbitrary: w thesis)
  case Nil
  show ?case by (rule Nil.prems(1)[of w]) (use Nil.prems(4) in simp_all)
next
  case (Cons s ss)
  let ?i = "eid (sp_entity s)"
  have s: "?i \<noteq> 0" "\<not> occupied (slot_at w (?i - 1))" "egen (sp_entity s) = 0"
    and rest: "fresh_spawns w ss"
    using Cons.prems(2) by (simp_all add: fresh_spawns_def fresh_spawn_def)
  obtain w1 where w1: "spawn_entity_with_id ?i (sp_kind s) w = Some (Entity ?i 0, w1)"
    "\<And>j. slot_at w1 j = (if j = ?i - 1 then Some (spawn_slot s) else slot_at w j)"
    "next_id w1 = length (entity_meta w1) + 1"
    using spawn_with_id_slots[OF s(1,2) Cons.prems(4), of "sp_kind s"] unfolding spawn_slot_def by metis
  have ne: "eid (sp_entity s') \<noteq> ?i \<and> eid (sp_entity s') - 1 \<noteq> ?i - 1" if "s' \<in> set ss" for s'
  proof -
    have z: "egen (sp_entity s') = 0" "eid (sp_entity s') \<noteq> 0"
      using rest that by (auto simp: fresh_spawns_def fresh_spawn_def list_all_iff)
    moreover have "sp_entity s' \<noteq> sp_entity s" using Cons.prems(3) that by (auto simp: image_iff)
    ultimately have "eid (sp_entity s') \<noteq> ?i" using s(3) by (auto intro: entity.expand)
    then show ?thesis using z s(1) by auto
  qed
  have fr: "fresh_spawns w1 ss"
    using rest ne w1(2) by (auto simp: fresh_spawns_def fresh_spawn_def list_all_iff)
  show ?case
  proof (rule Cons.IH[of w1, OF _ fr _ w1(3)])
    show "distinct (map sp_entity ss)" using Cons.prems(3) by simp
    fix w' assume w': "apply_spawns ss w1 = Some w'" "next_id w' = length (entity_meta w') + 1"
      "\<And>s. s \<in> set ss \<Longrightarrow> slot_at w' (eid (sp_entity s) - 1) = Some (spawn_slot s)"
      "\<And>j. \<forall>s \<in> set ss. j \<noteq> eid (sp_entity s) - 1 \<Longrightarrow> slot_at w' j = slot_at w1 j"
    show thesis
    proof (rule Cons.prems(1)[of w'])
      show "apply_spawns (s # ss) w = Some w'" using w1(1) w'(1) by simp
      show "next_id w' = length (entity_meta w') + 1" by fact
      show "slot_at w' (eid (sp_entity x) - 1) = Some (spawn_slot x)" if "x \<in> set (s # ss)" for x
      proof -
        have "\<forall>y \<in> set ss. ?i - 1 \<noteq> eid (sp_entity y) - 1" using ne by fastforce
        from w'(4)[OF this] show ?thesis using that w'(3)[of x] w1(2)[of "?i - 1"] by auto
      qed
      show "slot_at w' j = slot_at w j" if "\<forall>x \<in> set (s # ss). j \<noteq> eid (sp_entity x) - 1" for j
        using that w'(4)[of j] w1(2)[of j] by simp
    qed
  qed
qed

text \<open>The second pass over the spawns finds every slot occupied.\<close>

lemma apply_spawns_again:
  assumes "\<And>s. s \<in> set ss \<Longrightarrow> eid (sp_entity s) \<noteq> 0"
    and "\<And>s. s \<in> set ss \<Longrightarrow> slot_at w (eid (sp_entity s) - 1) = Some (spawn_slot s)"
  shows "apply_spawns ss w = Some w"
  using assms
proof (induction ss)
  case (Cons s ss)
  have "spawn_entity_with_id (eid (sp_entity s)) (sp_kind s) w = Some (Entity (eid (sp_entity s)) 0, w)"
    using spawn_with_id_occupied[of "eid (sp_entity s)" w "spawn_slot s"] Cons.prems[of s]
    by (simp add: spawn_slot_def)
  then show ?case using Cons by simp
qed simp

text \<open>
  The specification of a commit: the epoch advances by one, the reserved handles become alive and no
  other handle changes its liveness, each component holds the effect of its last operation, and each
  handle's version counts the operations on it.
\<close>

definition commits :: "('v, 'e, 'a) prepared_txn \<Rightarrow> ('v, 'e, 'a) txn_world \<Rightarrow> commit_receipt \<Rightarrow>
    ('v, 'e, 'a) txn_world \<Rightarrow> bool" where
  "commits p w r w' \<longleftrightarrow>
     current_epoch w' = current_epoch w + 1 \<and>
     r = \<lparr>committed_epoch = current_epoch w', journal_length = length (last_journal w'),
          event_count = length (last_committed_events w'),
          advisory_event_count = length (last_committed_advisory_events w')\<rparr> \<and>
     last_journal w' = p_journal p \<and> last_committed_events w' = p_events p \<and>
     last_committed_advisory_events w' = p_advisory_events p \<and>
     (\<forall>e. is_alive w' e \<longleftrightarrow> is_alive w e \<or> e \<in> sp_entity ` set (p_spawns p)) \<and>
     (\<forall>s \<in> set (p_spawns p). entity_kind_of w' (sp_entity s) = Some (sp_kind s)) \<and>
     (\<forall>t e. is_alive w' e \<longrightarrow> get_component w' t e =
        (case last_op (prepared_ops p) (t, e) of Some x \<Rightarrow> x | None \<Rightarrow> store_get (component_store w) t e)) \<and>
     (\<forall>e. component_version w' e = component_version w e + touches (prepared_ops p) e) \<and>
     resource_store w' = resource_store w \<and> mutation_policy w' = mutation_policy w \<and>
     store_inv (component_store w') \<and> next_id w' = length (entity_meta w') + 1 \<and>
     free_list w' = free_list w \<and>
     (\<forall>j. (\<forall>s \<in> set (p_spawns p). j \<noteq> eid (sp_entity s) - 1) \<longrightarrow> slot_at w' j = slot_at w j)"

lemma commits_get:
  "commits p w r w' \<Longrightarrow> is_alive w' e \<Longrightarrow> get_component w' t e =
     (case last_op (prepared_ops p) (t, e) of Some x \<Rightarrow> x | None \<Rightarrow> store_get (component_store w) t e)"
  by (simp add: commits_def)

definition op_targets :: "('v, 'e, 'a) prepared_txn \<Rightarrow> entity set" where
  "op_targets p = (snd \<circ> op_key \<circ> snd) ` set (prepared_ops p)"

lemma sole_targets:
  assumes "fresh_spawns w (p_spawns p)"
    and "\<forall>a \<in> op_targets p. is_alive w a \<or> a \<in> sp_entity ` set (p_spawns p)"
    and "is_alive w e \<or> e \<in> sp_entity ` set (p_spawns p)"
  shows "sole_target (prepared_ops p) e"
proof -
  have "a = b" if "is_alive w a \<or> a \<in> sp_entity ` set (p_spawns p)"
    "is_alive w b \<or> b \<in> sp_entity ` set (p_spawns p)" "eid a = eid b" for a b
  proof -
    have "\<not> is_alive w x" if "s \<in> set (p_spawns p)" "eid x = eid (sp_entity s)" for x s
      using that assms(1)
      by (auto simp: fresh_spawns_def fresh_spawn_def list_all_iff is_alive_iff occupied_def)
    moreover have "x = y" if "x \<in> sp_entity ` set (p_spawns p)" "y \<in> sp_entity ` set (p_spawns p)"
      "eid x = eid y" for x y
      using that assms(1)
      by (auto simp: fresh_spawns_def fresh_spawn_def list_all_iff intro: entity.expand)
    ultimately show ?thesis using that is_alive_inj[of w a b] by (metis imageE)
  qed
  then show ?thesis
    using assms(2,3) by (auto simp: sole_target_def op_targets_def)
qed

lemma alive_after_spawns:
  assumes fresh: "fresh_spawns w ss"
    and new: "\<And>s. s \<in> set ss \<Longrightarrow> slot_at w' (eid (sp_entity s) - 1) = Some (spawn_slot s)"
    and old: "\<And>j. \<forall>s \<in> set ss. j \<noteq> eid (sp_entity s) - 1 \<Longrightarrow> slot_at w' j = slot_at w j"
  shows "is_alive w' e \<longleftrightarrow> is_alive w e \<or> e \<in> sp_entity ` set ss"
    and "s \<in> set ss \<Longrightarrow> entity_kind_of w' (sp_entity s) = Some (sp_kind s)"
proof -
  have f: "egen (sp_entity s) = 0 \<and> eid (sp_entity s) \<noteq> 0 \<and> \<not> occupied (slot_at w (eid (sp_entity s) - 1))"
    if "s \<in> set ss" for s
    using fresh that by (auto simp: fresh_spawns_def fresh_spawn_def list_all_iff)
  have al: "is_alive w' (sp_entity s)" if "s \<in> set ss" for s
    using new[OF that] f[OF that] by (simp add: is_alive_iff spawn_slot_def)
  show "is_alive w' e \<longleftrightarrow> is_alive w e \<or> e \<in> sp_entity ` set ss"
  proof (cases "\<exists>s \<in> set ss. eid (sp_entity s) = eid e")
    case True
    then obtain s where s: "s \<in> set ss" "eid (sp_entity s) = eid e" by blast
    then have "\<not> is_alive w e" using f[of s] by (auto simp: is_alive_iff occupied_def)
    moreover have "is_alive w' e \<longleftrightarrow> e = sp_entity s"
      using is_alive_inj[of w' e "sp_entity s"] al[OF s(1)] s(2) by auto
    moreover have "e \<in> sp_entity ` set ss \<Longrightarrow> e = sp_entity s"
      using f s by (auto intro!: entity.expand)
    ultimately show ?thesis using s(1) by auto
  next
    case False
    then have "e \<notin> sp_entity ` set ss" by auto
    moreover have "is_alive w' e = is_alive w e"
    proof (cases "eid e = 0")
      case False
      then have "\<forall>s \<in> set ss. eid e - 1 \<noteq> eid (sp_entity s) - 1"
        using f \<open>\<not> (\<exists>s \<in> set ss. eid (sp_entity s) = eid e)\<close>
        by (metis One_nat_def Suc_pred neq0_conv)
      then show ?thesis using old[of "eid e - 1"] by (simp add: is_alive_iff)
    qed (simp add: is_alive_iff)
    ultimately show ?thesis by simp
  qed
  show "entity_kind_of w' (sp_entity s) = Some (sp_kind s)" if "s \<in> set ss"
    using new[OF that] al[OF that] by (simp add: entity_kind_of_def is_alive_def spawn_slot_def)
qed

lemma alive_frame [simp]:
  "is_alive (w\<lparr>component_versions := vs\<rparr>) e = is_alive w e"
  "is_alive (w\<lparr>epoch_ext := ep\<rparr>) e = is_alive w e"
  by (rule alive_cong, simp)+

lemma entity_kind_frame [simp]:
  "entity_kind_of (w\<lparr>component_store := s\<rparr>) e = entity_kind_of w e"
  "entity_kind_of (w\<lparr>component_versions := vs\<rparr>) e = entity_kind_of w e"
  "entity_kind_of (w\<lparr>epoch_ext := ep\<rparr>) e = entity_kind_of w e"
  by (rule alive_cong(3), simp)+

lemma ext_frame [simp]:
  fixes w :: "('v, 'e, 'a) txn_world"
  shows "slot_at (w\<lparr>journal_ext := j\<rparr>) i = slot_at w i" "slot_at (w\<lparr>events_ext := es\<rparr>) i = slot_at w i"
    "slot_at (w\<lparr>advisory_ext := as\<rparr>) i = slot_at w i"
  by (simp_all add: slot_at_def)

lemma component_version_frame [simp]:
  fixes w :: "('v, 'e, 'a) txn_world"
  shows "component_version (w\<lparr>journal_ext := j\<rparr>) e = component_version w e"
    "component_version (w\<lparr>events_ext := es\<rparr>) e = component_version w e"
    "component_version (w\<lparr>advisory_ext := as\<rparr>) e = component_version w e"
    "component_version (w\<lparr>epoch_ext := ep\<rparr>) e = component_version w e"
  by (simp_all add: component_version_def)

lemma apply_prepared_spec:
  fixes w :: "('v, 'e, 'a) txn_world"
  assumes inv: "world_inv w" and ep: "current_epoch w = p_expected_epoch p"
    and fresh: "fresh_spawns w (p_spawns p)" and dist: "distinct (map sp_entity (p_spawns p))"
    and tgt: "\<forall>a \<in> op_targets p. is_alive w a \<or> a \<in> sp_entity ` set (p_spawns p)"
    and room: "\<forall>t. store_len (component_store w) t + length (prepared_ops p) \<le> 2 ^ 32"
  shows "\<exists>r w'. apply_prepared False p w = Some (r, w') \<and> commits p w r w'"
proof -
  let ?ss = "p_spawns p" and ?ops = "prepared_ops p"
  have n: "next_id w = length (entity_meta w) + 1" and sinv: "store_inv (component_store w)"
    using inv by (simp_all add: world_inv_def)
  obtain w1 where w1: "apply_spawns ?ss w = Some w1" "next_id w1 = length (entity_meta w1) + 1"
    and new: "\<And>s. s \<in> set ?ss \<Longrightarrow> slot_at w1 (eid (sp_entity s) - 1) = Some (spawn_slot s)"
    and old: "\<And>j. \<forall>s \<in> set ?ss. j \<noteq> eid (sp_entity s) - 1 \<Longrightarrow> slot_at w1 j = slot_at w j"
    using apply_spawns_fresh[OF fresh dist n] by blast
  obtain em m where fr: "w1 = w\<lparr>entity_meta := em, next_id := m\<rparr>" using apply_spawns_frame[OF w1(1)] .
  have cs: "component_store w1 = component_store w" by (simp add: fr)
  obtain s vs where ops: "apply_ops False ?ops w1 = Some (w1\<lparr>component_store := s, component_versions := vs\<rparr>)"
    "store_inv s"
    and get: "\<And>t e. sole_target ?ops e \<Longrightarrow> store_get s t e =
       (case last_op ?ops (t, e) of Some r \<Rightarrow> r | None \<Rightarrow> store_get (component_store w) t e)"
    and ver: "\<And>e. component_version (w1\<lparr>component_store := s, component_versions := vs\<rparr>) e =
       component_version w1 e + touches ?ops e"
    using apply_ops_spec[of w1 ?ops] sinv room unfolding cs by metis
  let ?w2 = "w1\<lparr>component_store := s, component_versions := vs\<rparr>"
  have again: "apply_spawns ?ss ?w2 = Some ?w2"
  proof (rule apply_spawns_again)
    fix x assume x: "x \<in> set ?ss"
    then show "eid (sp_entity x) \<noteq> 0"
      using fresh by (auto simp: fresh_spawns_def fresh_spawn_def list_all_iff)
    show "slot_at ?w2 (eid (sp_entity x) - 1) = Some (spawn_slot x)" using new[OF x] by simp
  qed
  let ?w' = "?w2\<lparr>epoch_ext := Some (current_epoch w + 1), journal_ext := Some (p_journal p),
               events_ext := Some (p_events p), advisory_ext := Some (p_advisory_events p)\<rparr>"
  let ?r = "\<lparr>committed_epoch = current_epoch w + 1, journal_length = length (p_journal p),
      event_count = length (p_events p), advisory_event_count = length (p_advisory_events p)\<rparr>"
  have e1: "current_epoch w1 = current_epoch w" by (simp add: fr current_epoch_def)
  have run: "apply_prepared False p w = Some (?r, ?w')"
    using ep w1(1) ops(1) again e1 by (simp add: apply_prepared_def Let_def current_epoch_def)
  have slots: "slot_at ?w' j = slot_at w1 j" for j by simp
  have alive: "is_alive ?w' e \<longleftrightarrow> is_alive w e \<or> e \<in> sp_entity ` set ?ss" for e
    using alive_after_spawns(1)[OF fresh new old, of e] alive_cong(1)[OF slots, of e] by simp
  have kind: "entity_kind_of ?w' (sp_entity x) = Some (sp_kind x)" if "x \<in> set ?ss" for x
    using alive_after_spawns(2)[OF fresh new old that] alive_cong(3)[OF slots, of "sp_entity x"] by simp
  have comp: "get_component ?w' t e = (case last_op ?ops (t, e) of Some r \<Rightarrow> r
      | None \<Rightarrow> store_get (component_store w) t e)" if "is_alive ?w' e" for t e
    using that get[OF sole_targets[OF fresh tgt]] alive[of e] by (simp add: get_component_alive)
  have vers: "component_version ?w' e = component_version w e + touches ?ops e" for e
    using ver[of e] by (simp add: fr component_version_def)
  have "commits p w ?r ?w'" unfolding commits_def slots
    using alive kind comp vers ops(2) w1(2) old
    by (intro conjI) (simp_all add: current_epoch_def last_journal_def
        last_committed_events_def last_committed_advisory_events_def fr)
  then show ?thesis using run by blast
qed

definition insert_op :: "'v staged_insert \<Rightarrow> entity \<times> 'v store_op" where
  "insert_op i = (si_entity i, PutOp (si_type_id i) (si_entity i) (si_value i))"

definition remove_op :: "staged_remove \<Rightarrow> entity \<times> 'v store_op" where
  "remove_op r = (sr_entity r, DropOp (sr_type_id r) (sr_entity r))"

text \<open>Durable inserts, durable removes, transient inserts, transient removes: in this order.\<close>

lemma prepared_ops_build:
  "prepared_ops (build_prepared n txn) =
     map insert_op (filter si_is_durable (inserts txn)) @ map remove_op (filter sr_is_durable (removes txn)) @
     map insert_op (filter (\<lambda>i. \<not> si_is_durable i) (inserts txn)) @
     map remove_op (filter (\<lambda>r. \<not> sr_is_durable r) (removes txn))"
  by (simp add: prepared_ops_def build_prepared_def Let_def comp_def prepare_insert_op_def
      prepare_remove_op_def insert_op_def remove_op_def)

lemma set_prepared_ops:
  "set (prepared_ops (build_prepared n txn)) = insert_op ` set (inserts txn) \<union> remove_op ` set (removes txn)"
  by (auto simp: prepared_ops_build)

lemma length_prepared_ops:
  "length (prepared_ops (build_prepared n txn)) = length (inserts txn) + length (removes txn)"
  using sum_length_filter_compl[of si_is_durable "inserts txn"]
    sum_length_filter_compl[of sr_is_durable "removes txn"]
  by (simp add: prepared_ops_build)

lemma op_targets_build [simp]: "op_targets (build_prepared n txn) = targets txn"
  by (simp add: op_targets_def set_prepared_ops targets_def image_Un image_image insert_op_def remove_op_def)

lemma build_prepared_simps [simp]:
  "p_spawns (build_prepared n txn) = spawns txn" "p_expected_epoch (build_prepared n txn) = expected_epoch txn"
  "p_events (build_prepared n txn) = events txn" "p_advisory_events (build_prepared n txn) = advisory_events txn"
  by (simp_all add: build_prepared_def Let_def)

text \<open>
  The effect a transaction asks for on one component. When it both inserts and removes the component,
  the later of the two in the order above wins: the removal, unless it is durable and the insert is not.
\<close>

definition staged_insert_of :: "('v, 'e, 'a) world_txn \<Rightarrow> type_id \<Rightarrow> entity \<Rightarrow> 'v staged_insert option" where
  "staged_insert_of txn t e = find (\<lambda>i. si_entity i = e \<and> si_type_id i = t) (inserts txn)"

definition staged_remove_of :: "('v, 'e, 'a) world_txn \<Rightarrow> type_id \<Rightarrow> entity \<Rightarrow> staged_remove option" where
  "staged_remove_of txn t e = find (\<lambda>r. sr_entity r = e \<and> sr_type_id r = t) (removes txn)"

definition staged_effect :: "('v, 'e, 'a) world_txn \<Rightarrow> type_id \<Rightarrow> entity \<Rightarrow> 'v option option" where
  "staged_effect txn t e = (case (staged_insert_of txn t e, staged_remove_of txn t e) of
       (None, None) \<Rightarrow> None
     | (Some i, None) \<Rightarrow> Some (Some (si_value i))
     | (None, Some r) \<Rightarrow> Some None
     | (Some i, Some r) \<Rightarrow> Some (if sr_is_durable r \<and> \<not> si_is_durable i then Some (si_value i) else None))"

lemma last_op_inserts:
  assumes "distinct (map (\<lambda>i. (si_entity i, si_type_id i)) ins)"
  shows "last_op (map insert_op (filter P ins)) (t, e) =
     (case find (\<lambda>i. si_entity i = e \<and> si_type_id i = t) ins of None \<Rightarrow> None
      | Some i \<Rightarrow> if P i then Some (Some (si_value i)) else None)"
  using assms
proof (induction ins)
  case (Cons i ins)
  have "find (\<lambda>i. si_entity i = e \<and> si_type_id i = t) ins = None" if "si_entity i = e" "si_type_id i = t"
    using Cons.prems that by (auto simp: find_None_iff image_iff)
  then show ?case using Cons by (auto simp: insert_op_def split: option.split)
qed simp

lemma last_op_removes:
  assumes "distinct (map (\<lambda>r. (sr_entity r, sr_type_id r)) rems)"
  shows "last_op (map remove_op (filter P rems)) (t, e) =
     (case find (\<lambda>r. sr_entity r = e \<and> sr_type_id r = t) rems of None \<Rightarrow> None
      | Some r \<Rightarrow> if P r then Some None else None)"
  using assms
proof (induction rems)
  case (Cons r rems)
  have "find (\<lambda>r. sr_entity r = e \<and> sr_type_id r = t) rems = None" if "sr_entity r = e" "sr_type_id r = t"
    using Cons.prems that by (auto simp: find_None_iff image_iff)
  then show ?case using Cons by (auto simp: remove_op_def split: option.split)
qed simp

lemma last_op_staged:
  assumes "valid_txn w cat txn"
  shows "last_op (prepared_ops (build_prepared n txn)) (t, e) = staged_effect txn t e"
  using assms
  by (auto simp: prepared_ops_build last_op_append last_op_inserts last_op_removes valid_txn_def
      staged_effect_def staged_insert_of_def staged_remove_of_def split: option.split)

text \<open>Room for the new components: no column grows past the 32-bit index space.\<close>

definition has_room :: "('v, 'm) world_scheme \<Rightarrow> nat \<Rightarrow> bool" where
  "has_room w n \<longleftrightarrow> (\<forall>t. store_len (component_store w) t + n \<le> 2 ^ 32)"

lemma prepared_applies:
  fixes w :: "('v, 'e, 'a) txn_world"
  assumes inv: "world_inv w" and prep: "prepare dbg w cat txn = Ok p"
    and fresh: "fresh_spawns w (p_spawns p)" and room: "has_room w (length (prepared_ops p))"
  shows "\<exists>r w'. apply_prepared False p w = Some (r, w') \<and> commits p w r w'"
proof -
  obtain txn' where txn': "current_epoch w = expected_epoch txn" "valid_txn w cat txn'"
    "p = build_prepared (current_epoch w + 1) txn'"
    "resolve_pending dbg (next_id w) txn = Some txn'"
    using prep by (auto simp: prepare_Ok)
  have "expected_epoch txn' = expected_epoch txn"
    using txn'(4) by (auto simp: resolve_pending_def split: if_splits)
  then show ?thesis
    using txn'(1-3) fresh room
    by (intro apply_prepared_spec[OF inv])
      (auto simp: valid_txn_def spawned_entities_def has_room_def)
qed

lemma current_epoch_ext [simp]:
  fixes w :: "('v, 'e, 'a) txn_world"
  shows "current_epoch (w\<lparr>epoch_ext := Some n\<rparr>) = n"
    "current_epoch (w\<lparr>journal_ext := j\<rparr>) = current_epoch w"
    "current_epoch (w\<lparr>events_ext := es\<rparr>) = current_epoch w"
    "current_epoch (w\<lparr>advisory_ext := as\<rparr>) = current_epoch w"
  by (simp_all add: current_epoch_def)

lemma apply_prepared_epoch:
  fixes w :: "('v, 'e, 'a) txn_world"
  assumes "apply_prepared dbg p w = Some (r, w')"
  shows "current_epoch w = p_expected_epoch p" "current_epoch w' = current_epoch w + 1"
    "committed_epoch r = current_epoch w + 1" "last_journal w' = p_journal p"
proof -
  have ep: "epoch_ext v' = epoch_ext v" if "apply_ops dbg ops v = Some v'"
    for ops and v v' :: "('v, 'e, 'a) txn_world"
    using that
  proof (induction ops arbitrary: v)
    case (Cons a ops)
    then show ?case by (cases a) (fastforce split: option.splits)
  qed simp
  then have ops: "current_epoch v' = current_epoch v" if "apply_ops dbg ops v = Some v'"
    for ops and v v' :: "('v, 'e, 'a) txn_world"
    using ep[OF that] by (simp add: current_epoch_def)
  have sps: "current_epoch v' = current_epoch v" if run: "apply_spawns ss v = Some v'"
    for ss and v v' :: "('v, 'e, 'a) txn_world"
  proof -
    obtain em n where "v' = v\<lparr>entity_meta := em, next_id := n\<rparr>" using apply_spawns_frame[OF run] .
    then show ?thesis by (simp add: current_epoch_def)
  qed
  show "current_epoch w = p_expected_epoch p" "current_epoch w' = current_epoch w + 1"
    "committed_epoch r = current_epoch w + 1" "last_journal w' = p_journal p"
    using assms by (auto simp: apply_prepared_def Let_def last_journal_def dest!: ops sps
        split: if_splits option.splits)
qed

text \<open>Resolution of the pending spawns and their operations.\<close>

lemma nth_resolve_spawns:
  "i < length ss \<Longrightarrow> resolve_spawns base ss ! i =
     (if sp_is_pending (ss ! i) then (ss ! i)\<lparr>sp_entity := Entity (base + i) 0\<rparr> else ss ! i)"
  by (simp add: resolve_spawns_def nth_enumerate_eq)

lemma length_resolve_spawns [simp]: "length (resolve_spawns base ss) = length ss"
  by (simp add: resolve_spawns_def)

lemma resolve_ops_mem:
  assumes "resolve_ops dbg base prs = Some out" "(token, ops) \<in> set prs" "po \<in> set ops"
    and "resolve_id dbg base (eid token) = Some j"
  shows "resolve_op po (Entity j 0) \<in> set out"
  using assms
proof (induction prs arbitrary: out)
  case (Cons pr prs)
  then show ?case by (cases pr) (auto split: option.splits)
qed simp

lemma resolve_id_token: "base + i < 2 ^ 64 \<Longrightarrow> resolve_id dbg base (Suc i) = Some (base + i)"
  by (simp add: resolve_id_def)

lemma slot_past_end: "world_inv w \<Longrightarrow> next_id w \<le> i \<Longrightarrow> slot_at w (i - 1) = None"
  by (auto simp: world_inv_def slot_at_def nth_opt_def)

lemma pending_fresh:
  assumes "world_inv w" "\<forall>s \<in> set ss. sp_is_pending s"
  shows "fresh_spawns w (resolve_spawns (next_id w) ss)"
proof -
  have "fresh_spawn w s" if "s \<in> set (resolve_spawns (next_id w) ss)" for s
  proof -
    obtain i where i: "i < length ss" "s = resolve_spawns (next_id w) ss ! i"
      using \<open>s \<in> _\<close> by (auto simp: in_set_conv_nth)
    then have "sp_entity s = Entity (next_id w + i) 0" using assms(2) by (simp add: nth_resolve_spawns)
    then show ?thesis
      using slot_past_end[OF assms(1), of "next_id w + i"] assms(1)
      by (simp add: fresh_spawn_def occupied_def world_inv_def)
  qed
  then show ?thesis by (simp add: fresh_spawns_def list_all_iff)
qed

definition family :: "schema_key \<Rightarrow> string \<times> nat" where
  "family k = (namespace k, key_id k)"

definition reserved :: "schema_key \<Rightarrow> bool" where
  "reserved k \<longleftrightarrow> namespace k \<noteq> [] \<and> hd (namespace k) = CHR ''_''"

lemma build_from_Cons:
  "build_from bk bt (reg # regs) = Ok cat \<longleftrightarrow>
     key_version (reg_key reg) \<noteq> 0 \<and> bk (reg_key reg) = None \<and> \<not> reserved (reg_key reg) \<and>
     (\<forall>k. bt (reg_type_id reg) = Some k \<longrightarrow> family k = family (reg_key reg)) \<and>
     build_from (bk(reg_key reg \<mapsto> reg)) (bt(reg_type_id reg \<mapsto> reg_key reg)) regs = Ok cat"
proof (cases "bt (reg_type_id reg)")
  case None
  then show ?thesis by (auto simp: build_from.simps Let_def reserved_def simp del: fun_upd_apply)
next
  case (Some k)
  then show ?thesis by (auto simp: build_from.simps Let_def reserved_def family_def simp del: fun_upd_apply)
qed

lemma catalogue_keys:
  assumes "build_from bk bt regs = Ok cat"
    and "\<And>k reg. bk k = Some reg \<Longrightarrow> reg_key reg = k \<and> bt (reg_type_id reg) \<noteq> None"
  shows "(\<forall>k reg. cat k = Some reg \<longleftrightarrow> bk k = Some reg \<or> (reg \<in> set regs \<and> reg_key reg = k)) \<and>
     distinct (map reg_key regs) \<and> (\<forall>reg \<in> set regs. bk (reg_key reg) = None \<and>
       key_version (reg_key reg) \<noteq> 0)"
  using assms
proof (induction regs arbitrary: bk bt)
  case (Cons reg regs)
  let ?k = "reg_key reg"
  have new: "key_version ?k \<noteq> 0" "bk ?k = None"
    and rec: "build_from (bk(?k \<mapsto> reg)) (bt(reg_type_id reg \<mapsto> ?k)) regs = Ok cat"
    using Cons.prems(1) by (simp_all add: build_from_Cons)
  have "\<And>k r. (bk(?k \<mapsto> reg)) k = Some r \<Longrightarrow> reg_key r = k \<and> (bt(reg_type_id reg \<mapsto> ?k)) (reg_type_id r) \<noteq> None"
    using Cons.prems(2) by (auto split: if_splits)
  from Cons.IH[OF rec this] show ?case using new by (auto split: if_splits)
qed simp

lemma catalogue_types:
  assumes "build_from bk bt regs = Ok cat" "r \<in> set regs"
  shows "\<not> reserved (reg_key r)"
    and "bt (reg_type_id r) = Some k \<Longrightarrow> family k = family (reg_key r)"
    and "r' \<in> set regs \<Longrightarrow> reg_type_id r = reg_type_id r' \<Longrightarrow> family (reg_key r) = family (reg_key r')"
  using assms
proof (induction regs arbitrary: bk bt r r' k)
  case (Cons reg regs)
  let ?k = "reg_key reg"
  have step: "build_from (bk(?k \<mapsto> reg)) (bt(reg_type_id reg \<mapsto> ?k)) regs = Ok cat" "\<not> reserved ?k"
    "\<And>k. bt (reg_type_id reg) = Some k \<Longrightarrow> family k = family ?k"
    if "build_from bk bt (reg # regs) = Ok cat" for bk bt
    using that by (simp_all add: build_from_Cons)
  {
    case 1
    then show ?case using Cons.IH(1)[OF step(1)[OF 1(1)]] step(2)[OF 1(1)] by auto
  next
    case 2
    show ?case
    proof (cases "reg_type_id r = reg_type_id reg")
      case True
      have "family ?k = family (reg_key r)"
        using 2(3) Cons.IH(2)[OF _ step(1)[OF 2(2)], of r ?k] True by auto
      then show ?thesis using step(3)[OF 2(2)] 2(1) True by simp
    next
      case False
      then show ?thesis using 2(1,3) Cons.IH(2)[OF _ step(1)[OF 2(2)], of r k] by auto
    qed
  next
    case 3
    have same: "family ?k = family (reg_key x)" if "x \<in> set regs" "reg_type_id x = reg_type_id reg" for x
      using that Cons.IH(2)[OF _ step(1)[OF 3(3)], of x ?k] by simp
    show ?case
    proof (cases "r \<in> set regs")
      case r: True
      show ?thesis
      proof (cases "r' \<in> set regs")
        case True
        then show ?thesis using Cons.IH(3)[OF _ 3(2) step(1)[OF 3(3)] r] by simp
      next
        case False
        then have "r' = reg" using 3(1) by simp
        then show ?thesis using same[OF r] 3(2) by simp
      qed
    next
      case False
      then have r: "r = reg" using 3(4) by simp
      show ?thesis
      proof (cases "r' \<in> set regs")
        case True
        then show ?thesis using same[OF True] 3(2) r by simp
      next
        case False
        then show ?thesis using 3(1) r by simp
      qed
    qed
  }
qed simp_all

subsection \<open>Properties\<close>

text \<open>C1: preparing a transaction succeeds exactly when the epoch is the one it started from, its
  pending tokens resolve, and the resolved transaction is valid: the spawned handles are new and
  distinct, every recorded read still has its version, every target is alive or spawned, no component is
  inserted twice or removed twice and every durable insert has a matching registration; the prepared
  transaction is then the resolved one, split into its durable and transient operations.\<close>

theorem prepare_ok_iff:
  "prepare dbg w cat txn = Ok p \<longleftrightarrow> current_epoch w = expected_epoch txn \<and>
     (\<exists>txn'. resolve_pending dbg (next_id w) txn = Some txn' \<and> valid_txn w cat txn' \<and>
        p = build_prepared (current_epoch w + 1) txn')"
  by (rule prepare_Ok)


text \<open>A world with one live entity that carries a component, at epoch 4.\<close>

definition txn_sample :: "(nat, nat, nat) txn_world" where
  "txn_sample = \<lparr>component_store = [7 \<mapsto> \<lparr>dense = [40], sparse = [None, Some 0], entities = [Entity 1 0]\<rparr>],
     resource_store = Map.empty,
     entity_meta = [Some \<lparr>generation = 0, occupant = Some \<lparr>okind = Model, oname = None\<rparr>\<rparr>],
     next_id = 2, free_list = [], staging = [], component_versions = Map.empty,
     mutation_policy = Bootstrap, epoch_ext = Some 4,
     journal_ext = None, events_ext = None, advisory_ext = None\<rparr>"

definition txn_put :: "(nat, nat, nat) world_txn" where
  "txn_put = put_transient (Entity 1 0) 7 41 (txn_new txn_sample)"

lemma txn_sample_inv: "world_inv txn_sample" "is_alive txn_sample (Entity 1 0)"
  "current_epoch txn_sample = 4" "next_id txn_sample = 2" "has_room txn_sample 9"
proof -
  have "store_inv [7 \<mapsto> \<lparr>dense = [40::nat], sparse = [None, Some 0], entities = [Entity 1 0]\<rparr>]"
    by (auto simp: store_inv_def col_inv_def indexed_def nth_Cons split: nat.splits if_splits)
  then show "world_inv txn_sample" by (simp add: world_inv_def txn_sample_def)
  show "is_alive txn_sample (Entity 1 0)" "current_epoch txn_sample = 4" "next_id txn_sample = 2"
    by (simp_all add: is_alive_iff txn_sample_def slot_at_def nth_opt_def current_epoch_def)
  show "has_room txn_sample 9"
    by (simp add: has_room_def store_len_def txn_sample_def column_or_new_def column_new_def)
qed

lemma has_room_mono: "has_room w n \<Longrightarrow> m \<le> n \<Longrightarrow> has_room w m"
  by (auto simp: has_room_def intro: order_trans[OF add_left_mono])

lemma txn_put_prepares:
  "prepare dbg txn_sample None txn_put = Ok (build_prepared 5 txn_put)"
  unfolding prepare_Ok
  using txn_sample_inv
  by (simp add: txn_put_def put_transient_def push_insert_def txn_new_def resolve_pending_def valid_txn_def
      spawned_entities_def targets_def)

text \<open>C2: A prepared transaction whose reserved handles are usable applies to the world it was
  prepared on: it does not panic and the new world is the one the commit specification describes (epoch,
  receipt, journal, events, liveness, components, versions).\<close>

theorem commit_correct:
  fixes w :: "('v, 'e, 'a) txn_world"
  assumes "world_inv w" and "prepare dbg w cat txn = Ok p"
    and "fresh_spawns w (p_spawns p)" and "has_room w (length (prepared_ops p))"
  shows "\<exists>r w'. apply_prepared False p w = Some (r, w') \<and> commits p w r w'"
  using assms by (rule prepared_applies)

theorem commit_correct_witness:
  "\<exists>r w'. apply_prepared False (build_prepared 5 txn_put) txn_sample = Some (r, w') \<and>
     current_epoch w' = 5 \<and> get_component w' 7 (Entity 1 0) = Some 41"
proof -
  let ?p = "build_prepared 5 txn_put"
  have "fresh_spawns txn_sample (p_spawns ?p)"
    by (simp add: fresh_spawns_def txn_put_def put_transient_def push_insert_def txn_new_def)
  moreover have "length (prepared_ops ?p) \<le> 9"
    by (simp add: length_prepared_ops txn_put_def put_transient_def push_insert_def txn_new_def)
  ultimately obtain r w' where a: "apply_prepared False ?p txn_sample = Some (r, w')"
    and c: "commits ?p txn_sample r w'"
    using commit_correct[OF txn_sample_inv(1) txn_put_prepares[of False]]
      has_room_mono[OF txn_sample_inv(5)] by blast
  have "last_op (prepared_ops ?p) (7, Entity 1 0) = Some (Some 41)"
    by (simp add: prepared_ops_build txn_put_def put_transient_def push_insert_def txn_new_def insert_op_def)
  then show ?thesis using a c txn_sample_inv(2,3) by (auto simp: commits_def)
qed

text \<open>C3: after a commit, every component of a live handle holds what the transaction staged for it: the
  inserted value, nothing when it was removed (also when it was inserted too, unless a durable removal
  meets a transient insert), and otherwise what the store held before.\<close>

theorem commit_reads_staged:
  fixes w :: "('v, 'e, 'a) txn_world"
  assumes "world_inv w" and "prepare False w cat txn = Ok p"
    and "resolve_pending False (next_id w) txn = Some txn'"
    and "fresh_spawns w (p_spawns p)" and "has_room w (length (prepared_ops p))"
    and "apply_prepared False p w = Some (r, w')" and "is_alive w' e"
  shows "get_component w' t e = (case staged_effect txn' t e of Some x \<Rightarrow> x
     | None \<Rightarrow> store_get (component_store w) t e)"
proof -
  have "commits p w r w'" using prepared_applies[OF assms(1,2,4,5)] assms(6) by auto
  moreover have "last_op (prepared_ops p) (t, e) = staged_effect txn' t e"
    using assms(2,3) last_op_staged by (auto simp: prepare_Ok)
  ultimately show ?thesis using assms(7) by (simp add: commits_def)
qed

theorem commit_reads_staged_witness:
  "\<exists>r w'. apply_prepared False (build_prepared 5 txn_put) txn_sample = Some (r, w') \<and>
     get_component w' 7 (Entity 1 0) = Some 41"
proof -
  let ?p = "build_prepared 5 txn_put"
  have fresh: "fresh_spawns txn_sample (p_spawns ?p)"
    by (simp add: fresh_spawns_def txn_put_def put_transient_def push_insert_def txn_new_def)
  have room: "has_room txn_sample (length (prepared_ops ?p))"
    using has_room_mono[OF txn_sample_inv(5)]
    by (simp add: length_prepared_ops txn_put_def put_transient_def push_insert_def txn_new_def)
  obtain r w' where a: "apply_prepared False ?p txn_sample = Some (r, w')" "commits ?p txn_sample r w'"
    using prepared_applies[OF txn_sample_inv(1) txn_put_prepares[of False] fresh room] by blast
  have al: "is_alive w' (Entity 1 0)" using a(2) txn_sample_inv(2) by (simp add: commits_def)
  have "resolve_pending False (next_id txn_sample) txn_put = Some txn_put"
    by (simp add: resolve_pending_def txn_put_def put_transient_def push_insert_def txn_new_def)
  from commit_reads_staged[OF txn_sample_inv(1) txn_put_prepares[of False] this fresh room a(1) al, of 7]
  show ?thesis using a(1)
    by (auto simp: staged_effect_def staged_insert_of_def staged_remove_of_def txn_put_def
        put_transient_def push_insert_def txn_new_def)
qed

text \<open>Two transactions prepared on the same epoch cannot both commit: once one is applied, the other
  is rejected with a stale epoch when it is prepared again, and panics when its prepared form is applied.\<close>

theorem first_committer_wins:
  fixes w :: "('v, 'e, 'a) txn_world"
  assumes "prepare dbg w cat txn1 = Ok p1" and "prepare dbg w cat txn2 = Ok p2"
    and "apply_prepared dbg p1 w = Some (r, w')"
  shows "prepare dbg w' cat txn2 = Err (StaleEpoch (current_epoch w) (current_epoch w + 1)) \<and>
     apply_prepared dbg p2 w' = None"
proof -
  have e: "expected_epoch txn2 = current_epoch w" "p_expected_epoch p2 = current_epoch w"
  proof -
    obtain txn' where "current_epoch w = expected_epoch txn2"
      "resolve_pending dbg (next_id w) txn2 = Some txn'" "p2 = build_prepared (current_epoch w + 1) txn'"
      using assms(2) by (auto simp: prepare_Ok)
    then show "expected_epoch txn2 = current_epoch w" "p_expected_epoch p2 = current_epoch w"
      by (auto simp: resolve_pending_def split: if_splits)
  qed
  then show ?thesis
    using apply_prepared_epoch(2)[OF assms(3)]
    by (simp add: prepare_def prepare_inner_def apply_prepared_def)
qed

theorem first_committer_wins_witness:
  "\<exists>w' :: (nat, nat, nat) txn_world.
     prepare False w' None txn_put = Err (StaleEpoch 4 5) \<and> current_epoch w' = 5"
proof -
  let ?p = "build_prepared 5 txn_put"
  have "fresh_spawns txn_sample (p_spawns ?p)" "has_room txn_sample (length (prepared_ops ?p))"
    using has_room_mono[OF txn_sample_inv(5)]
    by (simp_all add: length_prepared_ops fresh_spawns_def txn_put_def put_transient_def push_insert_def txn_new_def)
  then obtain r w' where a: "apply_prepared False ?p txn_sample = Some (r, w')"
    using prepared_applies[OF txn_sample_inv(1) txn_put_prepares[of False]] by blast
  show ?thesis
    using first_committer_wins[OF txn_put_prepares[of False] txn_put_prepares[of False] a]
      apply_prepared_epoch(2)[OF a] txn_sample_inv(3) by auto
qed

text \<open>An operation staged on the token of a pending spawn is prepared for exactly the handle that
  spawn will get, a handle past the allocator's last one that has never been alive.\<close>

theorem pending_token_resolves:
  assumes "world_inv w" and "prepare dbg w cat txn = Ok p"
    and "i < length (spawns txn)" and "sp_is_pending (spawns txn ! i)" and "next_id w + i < 2 ^ 64"
    and "(Entity (Suc i) g, ops) \<in> set (pending_resolutions txn)" and "po \<in> set ops"
  shows "sp_entity (p_spawns p ! i) = Entity (next_id w + i) 0 \<and>
     sp_kind (p_spawns p ! i) = sp_kind (spawns txn ! i) \<and>
     fresh_spawn w (p_spawns p ! i) \<and>
     insert_op (resolve_op po (sp_entity (p_spawns p ! i))) \<in> set (prepared_ops p)"
proof -
  obtain txn' where r: "resolve_pending dbg (next_id w) txn = Some txn'"
    and p: "p = build_prepared (current_epoch w + 1) txn'"
    using assms(2) by (auto simp: prepare_Ok)
  have "pending_resolutions txn \<noteq> []" using assms(6) by auto
  then obtain new where new: "resolve_ops dbg (next_id w) (pending_resolutions txn) = Some new"
    and txn': "txn' = txn\<lparr>inserts := inserts txn @ new, spawns := resolve_spawns (next_id w) (spawns txn),
             pending_resolutions := []\<rparr>"
    using r unfolding resolve_pending_def by (cases "resolve_ops dbg (next_id w) (pending_resolutions txn)") simp_all
  have sp: "p_spawns p ! i = (spawns txn ! i)\<lparr>sp_entity := Entity (next_id w + i) 0\<rparr>"
    using assms(3,4) by (simp add: p txn' nth_resolve_spawns)
  moreover have "resolve_op po (Entity (next_id w + i) 0) \<in> set new"
    using resolve_ops_mem[OF new assms(6,7)] assms(5) by (simp add: resolve_id_token)
  then have "insert_op (resolve_op po (Entity (next_id w + i) 0)) \<in> set (prepared_ops p)"
    by (simp add: p set_prepared_ops txn')
  moreover have "fresh_spawn w (p_spawns p ! i)"
    using slot_past_end[OF assms(1), of "next_id w + i"] assms(1)
    by (simp add: sp fresh_spawn_def occupied_def world_inv_def)
  ultimately show ?thesis unfolding sp by simp
qed

definition txn_spawn :: "(nat, nat, nat) world_txn" where
  "txn_spawn = put_transient_pending 1 7 50 (snd (spawn_pending Agent (txn_new txn_sample)))"

lemma txn_spawn_eq:
  "txn_spawn = \<lparr>inserts = [], removes = [],
     spawns = [\<lparr>sp_entity = Entity 0 0, sp_kind = Agent, sp_is_pending = True\<rparr>],
     pending_resolutions = [(Entity 1 0, [\<lparr>po_schema_id = 0, po_schema_version = 0,
       po_schema_key = no_namespace 0 0, po_type_id = 7, po_is_durable = False, po_value = 50\<rparr>])],
     events = [], advisory_events = [], read_deps = [], expected_epoch = 4\<rparr>"
  by (simp add: txn_spawn_def put_transient_pending_def push_pending_def spawn_pending_def txn_new_def
      txn_sample_inv(3))

text \<open>Spawning through a token end to end: a transaction that stages one pending spawn and one
  component on its token commits, the handle that was not alive becomes alive with the staged kind, its
  component reads the staged value and the epoch advances.\<close>

theorem pending_spawn_commits:
  fixes w :: "('v, 'e, 'a) txn_world"
  assumes "world_inv w" and "has_room w 1" and "next_id w < 2 ^ 64"
    and "spawn_pending k (txn_new w) = (token, txn1)"
    and "txn = put_durable_pending token key t v txn1"
  shows "\<exists>w' e. transit False txn w = Ok (current_epoch w + 1, w') \<and> current_epoch w' = current_epoch w + 1 \<and>
     \<not> is_alive w e \<and> is_alive w' e \<and> entity_kind_of w' e = Some k \<and> get_component w' t e = Some v"
proof -
  let ?e = "Entity (next_id w) 0"
  let ?po = "\<lparr>po_schema_id = key_id key, po_schema_version = key_version key,
       po_schema_key = key, po_type_id = t, po_is_durable = True, po_value = v\<rparr>"
  let ?sp = "\<lparr>sp_entity = ?e, sp_kind = k, sp_is_pending = True\<rparr>"
  let ?txn = "(txn_new w :: ('v, 'e, 'a) world_txn)\<lparr>inserts := [resolve_op ?po ?e], spawns := [?sp]\<rparr>"
  let ?p = "build_prepared (current_epoch w + 1) ?txn"
  have txn: "txn = (txn_new w)\<lparr>spawns := [\<lparr>sp_entity = Entity 0 0, sp_kind = k, sp_is_pending = True\<rparr>],
      pending_resolutions := [(Entity 1 0, [?po])]\<rparr>"
    using assms(4,5) by (auto simp: spawn_pending_def put_durable_pending_def push_pending_def txn_new_def)
  have "resolve_pending False (next_id w) txn = Some ?txn"
    using assms(3) resolve_id_token[of "next_id w" 0 False]
    by (simp add: txn resolve_pending_def resolve_spawns_def txn_new_def)
  moreover have fr: "fresh_spawn w ?sp" and dead: "\<not> is_alive w ?e"
    using slot_past_end[OF assms(1), of "next_id w"] assms(1)
    by (simp_all add: fresh_spawn_def occupied_def world_inv_def is_alive_iff)
  moreover have "valid_txn w None ?txn"
    using dead by (simp add: valid_txn_def spawned_entities_def targets_def txn_new_def resolve_op_def)
  moreover have "expected_epoch txn = current_epoch w" by (simp add: txn txn_new_def)
  ultimately have prep: "prepare False w None txn = Ok ?p" by (simp add: prepare_Ok)
  have ops: "prepared_ops ?p = [(?e, PutOp t ?e v)]"
    by (simp add: prepared_ops_build resolve_op_def insert_op_def txn_new_def)
  obtain r w' where a: "apply_prepared False ?p w = Some (r, w')" "commits ?p w r w'"
    using prepared_applies[OF assms(1) prep] fr assms(2) ops by (auto simp: fresh_spawns_def)
  have "is_alive w' ?e" "entity_kind_of w' ?e = Some k" "current_epoch w' = current_epoch w + 1"
    "committed_epoch r = current_epoch w + 1"
    using a(2) by (auto simp: commits_def)
  moreover have "get_component w' t ?e = Some v"
    unfolding commits_get[OF a(2) \<open>is_alive w' ?e\<close>] ops by simp
  ultimately show ?thesis using prep a(1) dead by (auto simp: transit_def)
qed

theorem pending_spawn_commits_witness:
  "\<exists>w' e. transit False (put_durable_pending 1 (no_namespace 3 1) 7 50
       (snd (spawn_pending Agent (txn_new txn_sample)))) txn_sample = Ok (5, w') \<and>
     is_alive w' e \<and> get_component w' 7 e = Some 50"
proof -
  have "spawn_pending Agent (txn_new txn_sample) = (1, snd (spawn_pending Agent (txn_new txn_sample)))"
    by (simp add: spawn_pending_def txn_new_def)
  from pending_spawn_commits[OF txn_sample_inv(1) has_room_mono[OF txn_sample_inv(5)] _ this refl,
      of "no_namespace 3 1" 7 50]
  show ?thesis using txn_sample_inv(3,4) by auto
qed

theorem pending_token_resolves_witness:
  "\<exists>p. prepare False txn_sample None txn_spawn = Ok p \<and> sp_entity (p_spawns p ! 0) = Entity 2 0 \<and>
     (Entity 2 0, PutOp 7 (Entity 2 0) 50) \<in> set (prepared_ops p)"
proof -
  have n: "next_id txn_sample + 0 < 2 ^ 64" using txn_sample_inv(4) by simp
  obtain txn' where "resolve_pending False (next_id txn_sample) txn_spawn = Some txn'"
    "valid_txn txn_sample None txn'"
  proof
    let ?txn = "txn_spawn\<lparr>inserts := [resolve_op \<lparr>po_schema_id = 0, po_schema_version = 0,
       po_schema_key = no_namespace 0 0, po_type_id = 7, po_is_durable = False, po_value = 50\<rparr> (Entity 2 0)],
       spawns := [\<lparr>sp_entity = Entity 2 0, sp_kind = Agent, sp_is_pending = True\<rparr>], pending_resolutions := []\<rparr>"
    show "resolve_pending False (next_id txn_sample) txn_spawn = Some ?txn"
      using resolve_id_token[of 2 0 False]
      by (simp add: txn_spawn_eq resolve_pending_def resolve_spawns_def txn_sample_inv(4))
    have "\<not> is_alive txn_sample (Entity 2 0)"
      by (simp add: is_alive_iff txn_sample_def slot_at_def nth_opt_def)
    then show "valid_txn txn_sample None ?txn"
      by (simp add: valid_txn_def spawned_entities_def targets_def txn_spawn_eq resolve_op_def)
  qed
  then obtain p where p: "prepare False txn_sample None txn_spawn = Ok p"
    using txn_sample_inv(3) by (auto simp: prepare_Ok txn_spawn_eq)
  let ?po = "\<lparr>po_schema_id = 0, po_schema_version = 0, po_schema_key = no_namespace 0 0,
       po_type_id = 7, po_is_durable = False, po_value = 50 :: nat\<rparr>"
  have "sp_entity (p_spawns p ! 0) = Entity (next_id txn_sample + 0) 0 \<and>
     insert_op (resolve_op ?po (Entity (next_id txn_sample + 0) 0)) \<in> set (prepared_ops p)"
    using pending_token_resolves[OF txn_sample_inv(1) p _ _ n, where g = 0 and ops = "[?po]" and po = ?po]
    by (auto simp: txn_spawn_eq)
  then show ?thesis using p by (auto simp: txn_sample_inv(4) insert_op_def resolve_op_def)
qed

text \<open>A transaction that both inserts and removes one component of a live handle is not reported as
  a conflict: it commits, journals both changes and leaves the component absent.\<close>

theorem insert_remove_accepted:
  fixes w :: "('v, 'e, 'a) txn_world"
  assumes "world_inv w" and "is_alive w e" and "has_room w 2"
  shows "\<exists>w'. transit False (txn_remove_component e sid t (txn_add_component e sid sv t v (txn_new w))) w =
       Ok (current_epoch w + 1, w') \<and> is_alive w' e \<and> get_component w' t e = None \<and>
     map cc_change_type (last_journal w') = [Insert, Remove]"
proof -
  let ?txn = "txn_remove_component e sid t (txn_add_component e sid sv t v (txn_new w)) :: ('v, 'e, 'a) world_txn"
  note defs = txn_remove_component_def txn_add_component_def push_insert_def push_remove_def txn_new_def
  let ?p = "build_prepared (current_epoch w + 1) ?txn"
  have "resolve_pending False (next_id w) ?txn = Some ?txn" by (simp add: resolve_pending_def defs)
  moreover have "valid_txn w None ?txn"
    using assms(2) by (simp add: valid_txn_def spawned_entities_def targets_def defs)
  moreover have "expected_epoch ?txn = current_epoch w" by (simp add: defs)
  ultimately have prep: "prepare False w None ?txn = Ok ?p" by (simp add: prepare_Ok)
  have ops: "prepared_ops ?p = [(e, PutOp t e v), (e, DropOp t e)]"
    by (simp add: prepared_ops_build insert_op_def remove_op_def defs)
  have "fresh_spawns w (p_spawns ?p)" by (simp add: fresh_spawns_def defs)
  moreover have "has_room w (length (prepared_ops ?p))"
    using assms(3) unfolding ops by (simp add: numeral_2_eq_2)
  ultimately obtain r w' where a: "apply_prepared False ?p w = Some (r, w')" "commits ?p w r w'"
    using prepared_applies[OF assms(1) prep] by auto
  have al: "is_alive w' e" using a(2) assms(2) by (simp add: commits_def)
  have "get_component w' t e = None" unfolding commits_get[OF a(2) al] ops by simp
  moreover have "map cc_change_type (last_journal w') = [Insert, Remove]"
    using apply_prepared_epoch(4)[OF a(1)]
    by (simp add: build_prepared_def prepare_insert_op_def prepare_remove_op_def journal_entry_def defs)
  ultimately show ?thesis
    using prep a(1) al apply_prepared_epoch(3)[OF a(1)] by (auto simp: transit_def)
qed

theorem insert_remove_accepted_witness:
  "\<exists>w'. transit False (txn_remove_component (Entity 1 0) 3 7
       (txn_add_component (Entity 1 0) 3 1 7 41 (txn_new txn_sample))) txn_sample = Ok (5, w') \<and>
     get_component w' 7 (Entity 1 0) = None"
  using insert_remove_accepted[OF txn_sample_inv(1,2) has_room_mono[OF txn_sample_inv(5)], of 3 7 1 41]
    txn_sample_inv(3) by auto

text \<open>A spawn staged with a nonzero generation passes every check and commits, but the slot gets
  generation 0: the staged handle is not alive afterwards, and a component staged on it lands in the
  store where no live handle reads it.\<close>

theorem nonzero_generation_spawn_lost:
  fixes w :: "('v, 'e, 'a) txn_world"
  assumes "world_inv w" and "has_room w 1" and "i \<noteq> 0" and "\<not> occupied (slot_at w (i - 1))" and "g \<noteq> 0"
  shows "\<exists>w'. transit False (put_transient (Entity i g) t v (stage_spawn (Entity i g) k (txn_new w))) w =
       Ok (current_epoch w + 1, w') \<and> \<not> is_alive w' (Entity i g) \<and> is_alive w' (Entity i 0) \<and>
     get_component w' t (Entity i g) = None \<and> store_get (component_store w') t (Entity i g) = Some v"
proof -
  let ?e = "Entity i g"
  let ?txn = "put_transient ?e t v (stage_spawn ?e k (txn_new w)) :: ('v, 'e, 'a) world_txn"
  note defs = put_transient_def stage_spawn_def push_insert_def txn_new_def
  let ?p = "build_prepared (current_epoch w + 1) ?txn"
  have dead: "\<not> is_alive w ?e" using assms(4) by (auto simp: is_alive_iff occupied_def)
  have "resolve_pending False (next_id w) ?txn = Some ?txn" by (simp add: resolve_pending_def defs)
  moreover have "valid_txn w None ?txn"
    using dead by (simp add: valid_txn_def spawned_entities_def targets_def defs)
  moreover have "expected_epoch ?txn = current_epoch w" by (simp add: defs)
  ultimately have prep: "prepare False w None ?txn = Ok ?p" by (simp add: prepare_Ok)
  have n: "next_id w = length (entity_meta w) + 1" and sinv: "store_inv (component_store w)"
    using assms(1) by (simp_all add: world_inv_def)
  obtain w1 where w1: "spawn_entity_with_id i k w = Some (Entity i 0, w1)"
    "\<And>j. slot_at w1 j = (if j = i - 1
       then Some \<lparr>generation = 0, occupant = Some \<lparr>okind = k, oname = None\<rparr>\<rparr> else slot_at w j)"
    "component_store w1 = component_store w"
    using spawn_with_id_slots[OF assms(3,4) n, of k] by metis
  obtain s where s: "store_insert False t ?e v (component_store w) = Some s"
    "store_get s t ?e = Some v"
  proof -
    have "store_len (component_store w) t + 1 \<le> 2 ^ 32" using assms(2) unfolding has_room_def by blast
    then have "store_len (component_store w) t < 2 ^ 32" by linarith
    from store_insert_spec[OF sinv this, of False ?e v] show ?thesis using that by auto
  qed
  let ?w2 = "w1\<lparr>component_store := s, component_versions := bump_version ?e (component_versions w1)\<rparr>"
  have sp: "p_spawns ?p = [\<lparr>sp_entity = ?e, sp_kind = k, sp_is_pending = False\<rparr>]"
    and ops: "prepared_ops ?p = [(?e, PutOp t ?e v)]"
    by (simp_all add: prepared_ops_build insert_op_def defs)
  have again: "spawn_entity_with_id i k ?w2 = Some (Entity i 0, ?w2)"
    using spawn_with_id_occupied[OF assms(3), of ?w2 "\<lparr>generation = 0, occupant = Some \<lparr>okind = k, oname = None\<rparr>\<rparr>"] w1(2)
    by simp
  obtain r w' where a: "apply_prepared False ?p w = Some (r, w')" and sl: "\<And>j. slot_at w' j = slot_at w1 j"
    and cs: "component_store w' = s"
  proof -
    have "current_epoch w = p_expected_epoch ?p" by (simp add: defs)
    then show ?thesis
      using that w1(1,3) s(1) again sp ops unfolding apply_prepared_def by (simp add: run_store_op_def Let_def)
  qed
  have "\<not> is_alive w' ?e" "is_alive w' (Entity i 0)"
    using sl w1(2) assms(3,5) by (simp_all add: is_alive_iff)
  then show ?thesis
    using prep a cs s(2) apply_prepared_epoch(3)[OF a] by (auto simp: transit_def get_component_alive)
qed

theorem nonzero_generation_spawn_lost_witness:
  "\<exists>w'. transit False (put_transient (Entity 2 3) 7 50 (stage_spawn (Entity 2 3) Agent (txn_new txn_sample)))
       txn_sample = Ok (5, w') \<and> \<not> is_alive w' (Entity 2 3)"
proof -
  have "\<not> occupied (slot_at txn_sample (2 - 1))"
    by (simp add: txn_sample_def slot_at_def nth_opt_def occupied_def)
  from nonzero_generation_spawn_lost[OF txn_sample_inv(1) has_room_mono[OF txn_sample_inv(5)] _ this, of 3 7 50 Agent]
  show ?thesis using txn_sample_inv(3) by auto
qed

text \<open>A schema catalogue that builds holds exactly the given registrations under their keys; the
  keys are distinct, have a nonzero version and no reserved namespace, and all keys of one type share
  their namespace and id.\<close>

theorem catalogue_build_correct:
  assumes "catalogue_build regs = Ok cat"
  shows "(\<forall>k reg. registration cat k = Some reg \<longleftrightarrow> reg \<in> set regs \<and> reg_key reg = k) \<and>
     distinct (map reg_key regs) \<and>
     (\<forall>reg \<in> set regs. key_version (reg_key reg) \<noteq> 0 \<and> \<not> reserved (reg_key reg)) \<and>
     (\<forall>r \<in> set regs. \<forall>r' \<in> set regs. reg_type_id r = reg_type_id r' \<longrightarrow> family (reg_key r) = family (reg_key r'))"
proof -
  have b: "build_from Map.empty Map.empty regs = Ok cat" using assms by (simp add: catalogue_build_def)
  have "\<forall>k reg. registration cat k = Some reg \<longleftrightarrow> reg \<in> set regs \<and> reg_key reg = k"
    "distinct (map reg_key regs)" "\<forall>reg \<in> set regs. key_version (reg_key reg) \<noteq> 0"
    using catalogue_keys[OF b] by (simp_all add: registration_def)
  moreover have "\<forall>r \<in> set regs. \<forall>r' \<in> set regs. reg_type_id r = reg_type_id r' \<longrightarrow> family (reg_key r) = family (reg_key r')"
    "\<forall>reg \<in> set regs. \<not> reserved (reg_key reg)"
    using catalogue_types(3)[OF b] catalogue_types(1)[OF b] by blast+
  ultimately show ?thesis by blast
qed

theorem catalogue_build_correct_witness:
  "\<exists>cat. catalogue_build [\<lparr>reg_key = \<lparr>namespace = ''a'', key_id = 1, key_version = 1\<rparr>, reg_type_id = 7, reg_type_name = ''T''\<rparr>,
       \<lparr>reg_key = \<lparr>namespace = ''a'', key_id = 1, key_version = 2\<rparr>, reg_type_id = 7, reg_type_name = ''T''\<rparr>] = Ok cat \<and>
     registration cat \<lparr>namespace = ''a'', key_id = 1, key_version = 2\<rparr> \<noteq> None"
proof -
  let ?a = "\<lparr>reg_key = \<lparr>namespace = ''a'', key_id = 1, key_version = 1\<rparr>, reg_type_id = 7, reg_type_name = ''T''\<rparr>"
  let ?b = "\<lparr>reg_key = \<lparr>namespace = ''a'', key_id = 1, key_version = 2\<rparr>, reg_type_id = 7, reg_type_name = ''T''\<rparr>"
  have "\<exists>cat. catalogue_build [?a, ?b] = Ok cat"
    by (simp add: catalogue_build_def build_from_Cons reserved_def family_def)
  then obtain cat where c: "catalogue_build [?a, ?b] = Ok cat" by blast
  have "registration cat (reg_key ?b) = Some ?b"
    using catalogue_build_correct[OF c] by force
  then show ?thesis using c by auto
qed


end
