(* ===== verification/Service_Types.thy ===== *)
theory Service_Types
  imports World_Txn
begin

text \<open>
  What the services of \<open>prism-ecs-constitutional\<close> share: the component types of the work and session
  modules with their schema keys (\<open>work.rs\<close>, \<open>session.rs\<close>, \<open>residency.rs\<close>, \<open>lifecycle.rs\<close>), domain
  events with their JSON payloads (\<open>command.rs\<close>), the schema registry (\<open>schema.rs\<close>), and what a
  committed transaction means for a service.
\<close>

subsection \<open>Lifecycle states\<close>

datatype session_lifecycle = Created | Admitted | Active | Quiescing | Saving | Completed | Failed
  | Releasing | Released

datatype residency_lifecycle = Desired | Binding | Resident | Evicting | Evicted

datatype device_lifecycle = DevDiscovered | DevInitializing | DevReady | DevDegraded | DevUnavailable
  | DevRemoved

datatype model_lifecycle = ModelCreated | ModelValidated | ModelDeployable | ModelDeprecated | ModelRemoved

subsection \<open>Components of work items\<close>

datatype work_kind = LoadModel | CompileGraph | RunInference | Distill | Validate | Package | Teardown
  | CustomWork nat

datatype prereq_kind = ComponentPresent | EventReceived | ResourceAvailable | CustomPrereq nat

record prerequisite =
  pre_entity :: entity
  pre_kind :: prereq_kind
  pre_generation :: nat

record work_item =
  wi_kind :: work_kind
  wi_target :: entity
  retry_count :: "32 word"
  max_retries :: "32 word"

datatype work_state = WPending | WReady | WLeased "32 word" | WCompleted | WFailed | WCancelled

record work_lease =
  wl_work_entity :: entity
  wl_generation :: "32 word"
  wl_attempt :: "32 word"
  wl_cancellation_epoch :: nat
  wl_expiry :: nat

record resource_claim =
  memory_bytes :: nat
  compute_units :: nat
  claim_priority :: nat

subsection \<open>Components of sessions and residencies\<close>

record session_config =
  max_tokens :: nat
  max_input_tokens :: nat
  max_output_tokens :: nat
  batch_size :: nat
  session_priority :: nat
  deadline_epochs :: nat

record residency_device_ref =
  rdr_device_id :: nat
  rdr_stable_id :: string

record residency_model_ref =
  rmr_residency_id :: nat
  rmr_model_id :: nat

record model_artifact_ref =
  mar_artifact_id :: nat
  mar_digest :: "8 word list"

record residency_memory_claim =
  requested_bytes :: nat
  actual_bytes :: nat

datatype residency_format = Native | Quantized | Distilled

record device_memory_limits =
  total_bytes :: nat
  max_alloc_bytes :: nat

text \<open>
  A component value with its Rust type as constructor. \<open>VOther\<close> stands for the component types of
  the modules that are not modelled, with its schema key and a number for its type.
\<close>

datatype 'x comp_value =
    VWorkItem work_item | VWorkState work_state | VWorkLease work_lease | VResourceClaim resource_claim
  | VPrerequisites "prerequisite list" | VWorkOutput "8 word list"
  | VSessionConfig session_config | VSessionModels "nat list" | VSessionDevices "nat list"
  | VSessionLifecycle session_lifecycle | VResidencyModelRef residency_model_ref
  | VModelLifecycle model_lifecycle | VDeviceLifecycle device_lifecycle
  | VResidencyDeviceRef residency_device_ref | VResidencyLifecycle residency_lifecycle
  | VModelId nat | VModelArtifactRef model_artifact_ref | VResidencyMemoryClaim residency_memory_claim
  | VResidencyFormat residency_format | VAllocationToken string | VArtifactDigest "8 word list"
  | VDeviceStableId string | VDeviceMemoryLimits device_memory_limits
  | VOther schema_key nat 'x

text \<open>\<open>TypeId::of\<close>: distinct numbers for distinct types.\<close>

abbreviation (input) "T_work_item \<equiv> 1 :: type_id"
abbreviation (input) "T_work_state \<equiv> 2 :: type_id"
abbreviation (input) "T_work_lease \<equiv> 3 :: type_id"
abbreviation (input) "T_resource_claim \<equiv> 4 :: type_id"
abbreviation (input) "T_prerequisites \<equiv> 5 :: type_id"
abbreviation (input) "T_work_output \<equiv> 6 :: type_id"
abbreviation (input) "T_session_config \<equiv> 7 :: type_id"
abbreviation (input) "T_session_models \<equiv> 8 :: type_id"
abbreviation (input) "T_session_devices \<equiv> 9 :: type_id"
abbreviation (input) "T_session_lifecycle \<equiv> 10 :: type_id"
abbreviation (input) "T_residency_model_ref \<equiv> 11 :: type_id"
abbreviation (input) "T_model_lifecycle \<equiv> 12 :: type_id"
abbreviation (input) "T_device_lifecycle \<equiv> 13 :: type_id"
abbreviation (input) "T_residency_device_ref \<equiv> 14 :: type_id"
abbreviation (input) "T_residency_lifecycle \<equiv> 15 :: type_id"
abbreviation (input) "T_model_id \<equiv> 16 :: type_id"
abbreviation (input) "T_model_artifact_ref \<equiv> 17 :: type_id"
abbreviation (input) "T_residency_memory_claim \<equiv> 18 :: type_id"
abbreviation (input) "T_residency_format \<equiv> 19 :: type_id"
abbreviation (input) "T_allocation_token \<equiv> 20 :: type_id"
abbreviation (input) "T_artifact_digest \<equiv> 21 :: type_id"
abbreviation (input) "T_device_stable_id \<equiv> 22 :: type_id"
abbreviation (input) "T_device_memory_limits \<equiv> 23 :: type_id"
abbreviation (input) "T_model_name \<equiv> 24 :: type_id"
abbreviation (input) "T_model_format \<equiv> 25 :: type_id"

subsection \<open>Typed reads\<close>

text \<open>\<open>World::get_component::<T>\<close>: the column of the type, downcast to it.\<close>

definition get_work_item :: "('x comp_value, 'm) world_scheme \<Rightarrow> entity \<Rightarrow> work_item option" where
  "get_work_item w e = (case get_component w T_work_item e of Some (VWorkItem i) \<Rightarrow> Some i | _ \<Rightarrow> None)"

definition get_work_state :: "('x comp_value, 'm) world_scheme \<Rightarrow> entity \<Rightarrow> work_state option" where
  "get_work_state w e = (case get_component w T_work_state e of Some (VWorkState s) \<Rightarrow> Some s | _ \<Rightarrow> None)"

definition get_work_lease :: "('x comp_value, 'm) world_scheme \<Rightarrow> entity \<Rightarrow> work_lease option" where
  "get_work_lease w e = (case get_component w T_work_lease e of Some (VWorkLease l) \<Rightarrow> Some l | _ \<Rightarrow> None)"

definition get_work_output :: "('x comp_value, 'm) world_scheme \<Rightarrow> entity \<Rightarrow> 8 word list option" where
  "get_work_output w e = (case get_component w T_work_output e of Some (VWorkOutput b) \<Rightarrow> Some b | _ \<Rightarrow> None)"

definition get_session_config :: "('x comp_value, 'm) world_scheme \<Rightarrow> entity \<Rightarrow> session_config option" where
  "get_session_config w e =
     (case get_component w T_session_config e of Some (VSessionConfig c) \<Rightarrow> Some c | _ \<Rightarrow> None)"

definition get_session_models :: "('x comp_value, 'm) world_scheme \<Rightarrow> entity \<Rightarrow> nat list option" where
  "get_session_models w e =
     (case get_component w T_session_models e of Some (VSessionModels ms) \<Rightarrow> Some ms | _ \<Rightarrow> None)"

definition get_session_devices :: "('x comp_value, 'm) world_scheme \<Rightarrow> entity \<Rightarrow> nat list option" where
  "get_session_devices w e =
     (case get_component w T_session_devices e of Some (VSessionDevices ds) \<Rightarrow> Some ds | _ \<Rightarrow> None)"

definition get_session_lifecycle :: "('x comp_value, 'm) world_scheme \<Rightarrow> entity \<Rightarrow> session_lifecycle option" where
  "get_session_lifecycle w e =
     (case get_component w T_session_lifecycle e of Some (VSessionLifecycle l) \<Rightarrow> Some l | _ \<Rightarrow> None)"

definition get_residency_model_ref :: "('x comp_value, 'm) world_scheme \<Rightarrow> entity \<Rightarrow> residency_model_ref option" where
  "get_residency_model_ref w e =
     (case get_component w T_residency_model_ref e of Some (VResidencyModelRef r) \<Rightarrow> Some r | _ \<Rightarrow> None)"

definition get_model_lifecycle :: "('x comp_value, 'm) world_scheme \<Rightarrow> entity \<Rightarrow> model_lifecycle option" where
  "get_model_lifecycle w e =
     (case get_component w T_model_lifecycle e of Some (VModelLifecycle l) \<Rightarrow> Some l | _ \<Rightarrow> None)"

definition get_device_lifecycle :: "('x comp_value, 'm) world_scheme \<Rightarrow> entity \<Rightarrow> device_lifecycle option" where
  "get_device_lifecycle w e =
     (case get_component w T_device_lifecycle e of Some (VDeviceLifecycle l) \<Rightarrow> Some l | _ \<Rightarrow> None)"

definition get_residency_device_ref :: "('x comp_value, 'm) world_scheme \<Rightarrow> entity \<Rightarrow> residency_device_ref option" where
  "get_residency_device_ref w e =
     (case get_component w T_residency_device_ref e of Some (VResidencyDeviceRef r) \<Rightarrow> Some r | _ \<Rightarrow> None)"

definition get_residency_lifecycle :: "('x comp_value, 'm) world_scheme \<Rightarrow> entity \<Rightarrow> residency_lifecycle option" where
  "get_residency_lifecycle w e =
     (case get_component w T_residency_lifecycle e of Some (VResidencyLifecycle l) \<Rightarrow> Some l | _ \<Rightarrow> None)"

definition get_model_artifact_ref :: "('x comp_value, 'm) world_scheme \<Rightarrow> entity \<Rightarrow> model_artifact_ref option" where
  "get_model_artifact_ref w e =
     (case get_component w T_model_artifact_ref e of Some (VModelArtifactRef r) \<Rightarrow> Some r | _ \<Rightarrow> None)"

definition get_artifact_digest :: "('x comp_value, 'm) world_scheme \<Rightarrow> entity \<Rightarrow> 8 word list option" where
  "get_artifact_digest w e =
     (case get_component w T_artifact_digest e of Some (VArtifactDigest d) \<Rightarrow> Some d | _ \<Rightarrow> None)"

definition get_device_stable_id :: "('x comp_value, 'm) world_scheme \<Rightarrow> entity \<Rightarrow> string option" where
  "get_device_stable_id w e =
     (case get_component w T_device_stable_id e of Some (VDeviceStableId s) \<Rightarrow> Some s | _ \<Rightarrow> None)"

definition get_device_memory_limits :: "('x comp_value, 'm) world_scheme \<Rightarrow> entity \<Rightarrow> device_memory_limits option" where
  "get_device_memory_limits w e =
     (case get_component w T_device_memory_limits e of Some (VDeviceMemoryLimits l) \<Rightarrow> Some l | _ \<Rightarrow> None)"

lemmas typed_get_defs = get_work_item_def get_work_state_def get_work_lease_def get_work_output_def
  get_session_config_def get_session_models_def get_session_devices_def get_session_lifecycle_def
  get_residency_model_ref_def get_model_lifecycle_def get_device_lifecycle_def
  get_residency_device_ref_def get_residency_lifecycle_def get_model_artifact_ref_def
  get_artifact_digest_def get_device_stable_id_def get_device_memory_limits_def

subsection \<open>Schema keys\<close>

definition work_key :: "nat \<Rightarrow> schema_key" where
  "work_key i = \<lparr>namespace = ''prism.work'', key_id = i, key_version = 1\<rparr>"

definition session_key :: "nat \<Rightarrow> schema_key" where
  "session_key i = \<lparr>namespace = ''prism.session'', key_id = i, key_version = 1\<rparr>"

definition residency_key :: "nat \<Rightarrow> schema_key" where
  "residency_key i = \<lparr>namespace = ''prism.residency'', key_id = i, key_version = 1\<rparr>"

definition device_key :: "nat \<Rightarrow> schema_key" where
  "device_key i = \<lparr>namespace = ''prism.device'', key_id = i, key_version = 1\<rparr>"

text \<open>
  \<open>SCHEMA_KEY\<close> and \<open>TypeId::of\<close> of the component types. An allocation token is transient and staged
  with the empty key.
\<close>

fun durable_key :: "'x comp_value \<Rightarrow> schema_key" where
  "durable_key (VWorkItem _) = work_key 18"
| "durable_key (VWorkState _) = work_key 19"
| "durable_key (VWorkLease _) = work_key 20"
| "durable_key (VResourceClaim _) = work_key 21"
| "durable_key (VPrerequisites _) = work_key 22"
| "durable_key (VWorkOutput _) = work_key 23"
| "durable_key (VSessionConfig _) = session_key 13"
| "durable_key (VSessionModels _) = session_key 14"
| "durable_key (VSessionDevices _) = session_key 15"
| "durable_key (VSessionLifecycle _) = session_key 16"
| "durable_key (VResidencyModelRef _) = session_key 17"
| "durable_key (VModelId _) = residency_key 5"
| "durable_key (VModelArtifactRef _) = residency_key 6"
| "durable_key (VModelLifecycle _) = residency_key 7"
| "durable_key (VResidencyDeviceRef _) = residency_key 8"
| "durable_key (VResidencyMemoryClaim _) = residency_key 9"
| "durable_key (VResidencyFormat _) = residency_key 10"
| "durable_key (VResidencyLifecycle _) = residency_key 11"
| "durable_key (VAllocationToken _) = no_namespace 0 0"
| "durable_key (VArtifactDigest _) = \<lparr>namespace = ''prism.artifact'', key_id = 3, key_version = 1\<rparr>"
| "durable_key (VDeviceStableId _) = device_key 69"
| "durable_key (VDeviceMemoryLimits _) = device_key 73"
| "durable_key (VDeviceLifecycle _) = device_key 76"
| "durable_key (VOther key _ _) = key"

fun value_type :: "'x comp_value \<Rightarrow> type_id" where
  "value_type (VWorkItem _) = T_work_item"
| "value_type (VWorkState _) = T_work_state"
| "value_type (VWorkLease _) = T_work_lease"
| "value_type (VResourceClaim _) = T_resource_claim"
| "value_type (VPrerequisites _) = T_prerequisites"
| "value_type (VWorkOutput _) = T_work_output"
| "value_type (VSessionConfig _) = T_session_config"
| "value_type (VSessionModels _) = T_session_models"
| "value_type (VSessionDevices _) = T_session_devices"
| "value_type (VSessionLifecycle _) = T_session_lifecycle"
| "value_type (VResidencyModelRef _) = T_residency_model_ref"
| "value_type (VModelLifecycle _) = T_model_lifecycle"
| "value_type (VDeviceLifecycle _) = T_device_lifecycle"
| "value_type (VResidencyDeviceRef _) = T_residency_device_ref"
| "value_type (VResidencyLifecycle _) = T_residency_lifecycle"
| "value_type (VModelId _) = T_model_id"
| "value_type (VModelArtifactRef _) = T_model_artifact_ref"
| "value_type (VResidencyMemoryClaim _) = T_residency_memory_claim"
| "value_type (VResidencyFormat _) = T_residency_format"
| "value_type (VAllocationToken _) = T_allocation_token"
| "value_type (VArtifactDigest _) = T_artifact_digest"
| "value_type (VDeviceStableId _) = T_device_stable_id"
| "value_type (VDeviceMemoryLimits _) = T_device_memory_limits"
| "value_type (VOther _ n _) = 100 + n"

text \<open>\<open>put_durable::<T>\<close>, with the key and the type id of the value's type.\<close>

definition put_value :: "entity \<Rightarrow> 'x comp_value \<Rightarrow> ('x comp_value, 'e, 'a) world_txn \<Rightarrow>
    ('x comp_value, 'e, 'a) world_txn" where
  "put_value e v = put_durable e (durable_key v) (value_type v) v"

definition remove_work_lease :: "entity \<Rightarrow> ('x comp_value, 'e, 'a) world_txn \<Rightarrow>
    ('x comp_value, 'e, 'a) world_txn" where
  "remove_work_lease e = remove_durable e (work_key 20) T_work_lease"

subsection \<open>Events and payloads\<close>

datatype json = JNull | JBool bool | JNum nat | JStr string | JArr "json list" | JObj "(string \<times> json) list"

fun json_get :: "string \<Rightarrow> json \<Rightarrow> json option" where
  "json_get k (JObj kvs) = map_of kvs k"
| "json_get k _ = None"

fun as_u64 :: "json \<Rightarrow> nat option" where
  "as_u64 (JNum n) = Some n"
| "as_u64 _ = None"

fun as_str :: "json \<Rightarrow> string option" where
  "as_str (JStr s) = Some s"
| "as_str _ = None"

fun as_array :: "json \<Rightarrow> json list option" where
  "as_array (JArr xs) = Some xs"
| "as_array _ = None"

text \<open>\<open>Entity\<close> derives \<open>Serialize\<close> as a tuple struct of two fields: an array of two numbers.\<close>

definition json_of_entity :: "entity \<Rightarrow> json" where
  "json_of_entity e = JArr [JNum (eid e), JNum (unat (egen e))]"

text \<open>\<open>format!("{}", n)\<close>: the decimal notation of a number.\<close>

fun decimal :: "nat \<Rightarrow> string" where
  "decimal n = (if n < 10 then [char_of (48 + n)] else decimal (n div 10) @ [char_of (48 + n mod 10)])"

declare decimal.simps [simp del]

type_synonym message_id = "8 word list"

record domain_event =
  ev_id :: message_id
  ev_kind :: string
  ev_entity_id :: "nat option"
  ev_payload :: json

type_synonym ('x, 'a) service_world = "('x comp_value, domain_event, 'a) txn_world"
type_synonym ('x, 'a) service_txn = "('x comp_value, domain_event, 'a) world_txn"

subsection \<open>The schema registry\<close>

datatype component_durability = Durable | Ephemeral

record schema_entry =
  se_schema_id :: nat
  se_version :: nat
  se_type_name :: string
  se_description :: string
  se_durability :: component_durability
  se_type_id :: "type_id option"

type_synonym schema_registry = "nat \<rightharpoonup> schema_entry"

definition registry_new :: schema_registry where
  "registry_new = Map.empty"

definition register :: "schema_entry \<Rightarrow> schema_registry \<Rightarrow> schema_registry" where
  "register entry reg = reg(se_schema_id entry \<mapsto> entry)"

definition register_for_type :: "type_id \<Rightarrow> nat \<Rightarrow> nat \<Rightarrow> string \<Rightarrow> string \<Rightarrow> component_durability \<Rightarrow>
    schema_registry \<Rightarrow> schema_registry" where
  "register_for_type t sid version name description durability reg =
     reg(sid \<mapsto> \<lparr>se_schema_id = sid, se_version = version, se_type_name = name,
        se_description = description, se_durability = durability, se_type_id = Some t\<rparr>)"

definition registry_get :: "nat \<Rightarrow> schema_registry \<Rightarrow> schema_entry option" where
  "registry_get sid reg = reg sid"

datatype schema_error = DifferentType nat type_id | NotRegistered nat

definition verify_type :: "schema_registry \<Rightarrow> type_id \<Rightarrow> nat \<Rightarrow> (schema_error, unit) outcome" where
  "verify_type reg t sid = (case registry_get sid reg of
     Some entry \<Rightarrow> (case se_type_id entry of
         Some tid \<Rightarrow> if tid = t then Ok () else Err (DifferentType sid t)
       | None \<Rightarrow> Ok ())
   | None \<Rightarrow> Err (NotRegistered sid))"

text \<open>\<open>map_err\<close> prefixes the name of the schema.\<close>

fun map_err :: "('e \<Rightarrow> 'f) \<Rightarrow> ('e, 'a) outcome \<Rightarrow> ('f, 'a) outcome" where
  "map_err f Panic = Panic"
| "map_err f (Err e) = Err (f e)"
| "map_err f (Ok a) = Ok a"

definition verify_all :: "schema_registry \<Rightarrow> (string \<times> type_id \<times> nat) list \<Rightarrow>
    (string \<times> schema_error, unit) outcome" where
  "verify_all reg specs = try_each (\<lambda>(name, t, sid). map_err (Pair name) (verify_type reg t sid)) specs"

lemma map_err_Ok [simp]: "map_err f m = Ok a \<longleftrightarrow> m = Ok a"
  by (cases m) auto

lemma map_err_Err: "map_err f m = Err e \<longleftrightarrow> (\<exists>e'. m = Err e' \<and> e = f e')"
  by (cases m) auto

lemma verify_type_Ok: "verify_type reg t sid = Ok () \<longleftrightarrow>
    (\<exists>entry. reg sid = Some entry \<and> (se_type_id entry = None \<or> se_type_id entry = Some t))"
  by (auto simp: verify_type_def registry_get_def split: option.split)

lemma verify_all_Ok: "verify_all reg specs = Ok () \<longleftrightarrow>
    (\<forall>(name, t, sid) \<in> set specs. verify_type reg t sid = Ok ())"
  by (simp add: verify_all_def try_each_Ok case_prod_beta)

subsection \<open>What a commit means for a service\<close>

text \<open>The transactions of the services have no pending spawns.\<close>

definition plain_txn :: "('v, 'e, 'a) world_txn \<Rightarrow> bool" where
  "plain_txn txn \<longleftrightarrow> pending_resolutions txn = [] \<and> \<not> list_ex sp_is_pending (spawns txn)"

text \<open>
  \<open>committed txn w w'\<close>: the world \<open>w'\<close> after \<open>txn\<close> was committed on \<open>w\<close>, as a reader sees it.
\<close>

definition committed :: "('v, 'e, 'a) world_txn \<Rightarrow> ('v, 'e, 'a) txn_world \<Rightarrow> ('v, 'e, 'a) txn_world \<Rightarrow> bool" where
  "committed txn w w' \<longleftrightarrow> world_inv w' \<and> current_epoch w' = current_epoch w + 1 \<and>
     last_committed_events w' = events txn \<and>
     (\<forall>e. is_alive w' e \<longleftrightarrow> is_alive w e \<or> e \<in> spawned_entities txn) \<and>
     (\<forall>s \<in> set (spawns txn). entity_kind_of w' (sp_entity s) = Some (sp_kind s)) \<and>
     (\<forall>e. is_alive w e \<longrightarrow> entity_kind_of w' e = entity_kind_of w e) \<and>
     (\<forall>t e. is_alive w' e \<longrightarrow> get_component w' t e =
        (case staged_effect txn t e of Some x \<Rightarrow> x | None \<Rightarrow> store_get (component_store w) t e))"

lemma commits_inv:
  assumes inv: "world_inv w" and c: "commits p w r w'" and fresh: "fresh_spawns w (p_spawns p)"
    and free: "\<forall>s \<in> set (p_spawns p). eid (sp_entity s) \<notin> set (free_list w)"
  shows "world_inv w'"
proof (rule world_invI)
  show "next_id w' = length (entity_meta w') + 1" "store_inv (component_store w')" "distinct (free_list w')"
    using c inv by (simp_all add: commits_def world_inv_def)
  fix i assume "i \<in> set (free_list w')"
  then have i: "i \<in> set (free_list w)" using c by (simp add: commits_def)
  then have v: "vacated w i" using inv by (simp add: world_inv_def)
  have "\<forall>s \<in> set (p_spawns p). i - 1 \<noteq> eid (sp_entity s) - 1"
  proof
    fix s assume s: "s \<in> set (p_spawns p)"
    have "eid (sp_entity s) \<noteq> 0" using fresh s by (auto simp: fresh_spawns_def fresh_spawn_def list_all_iff)
    moreover have "eid (sp_entity s) \<noteq> i" using free s i by auto
    ultimately show "i - 1 \<noteq> eid (sp_entity s) - 1" using v by (auto simp: vacated_def)
  qed
  then have "slot_at w' (i - 1) = slot_at w (i - 1)" using c by (simp add: commits_def)
  then show "vacated w' i" using v by (simp add: vacated_def)
qed

lemma commits_kind:
  assumes c: "commits p w r w'" and fresh: "fresh_spawns w (p_spawns p)" and al: "is_alive w e"
  shows "entity_kind_of w' e = entity_kind_of w e"
proof -
  have occ: "occupied (slot_at w (eid e - 1))" using al by (auto simp: is_alive_iff occupied_def)
  have "\<forall>s \<in> set (p_spawns p). eid e - 1 \<noteq> eid (sp_entity s) - 1"
  proof
    fix s assume "s \<in> set (p_spawns p)"
    then have "\<not> occupied (slot_at w (eid (sp_entity s) - 1))"
      using fresh by (auto simp: fresh_spawns_def fresh_spawn_def list_all_iff)
    then show "eid e - 1 \<noteq> eid (sp_entity s) - 1" using occ by metis
  qed
  then have "slot_at w' (eid e - 1) = slot_at w (eid e - 1)" using c by (simp add: commits_def)
  then show ?thesis by (simp add: entity_kind_of_def validate_generation_def)
qed

lemma transit_valid:
  fixes w :: "('v, 'e, 'a) txn_world"
  assumes inv: "world_inv w" and plain: "plain_txn txn" and ep: "expected_epoch txn = current_epoch w"
    and valid: "valid_txn w None txn" and fresh: "fresh_spawns w (spawns txn)"
    and free: "\<forall>s \<in> set (spawns txn). eid (sp_entity s) \<notin> set (free_list w)"
    and room: "has_room w (length (inserts txn) + length (removes txn))"
  shows "\<exists>w'. transit False txn w = Ok (current_epoch w + 1, w') \<and> committed txn w w'"
proof -
  let ?p = "build_prepared (current_epoch w + 1) txn"
  have prep: "prepare False w None txn = Ok ?p"
    using plain ep valid by (simp add: prepare_Ok plain_txn_def resolve_pending_def)
  have fr: "fresh_spawns w (p_spawns ?p)" using fresh by simp
  obtain r w' where a: "apply_prepared False ?p w = Some (r, w')" "commits ?p w r w'"
    using prepared_applies[OF inv prep fr] room by (auto simp: length_prepared_ops)
  have "world_inv w'" using commits_inv[OF inv a(2) fr] free by simp
  moreover have "\<forall>e. is_alive w e \<longrightarrow> entity_kind_of w' e = entity_kind_of w e"
    using commits_kind[OF a(2) fr] by blast
  ultimately have "committed txn w w'"
    using a(2) last_op_staged[OF valid]
    by (simp add: committed_def commits_def spawned_entities_def)
  moreover have "transit False txn w = Ok (current_epoch w + 1, w')"
    using prep a by (simp add: transit_def commits_def)
  ultimately show ?thesis by blast
qed

text \<open>A transaction on one handle that is not alive is rejected for that handle.\<close>

lemma transit_dead_target:
  fixes w :: "('v, 'e, 'a) txn_world"
  assumes plain: "plain_txn txn" and ep: "expected_epoch txn = current_epoch w"
    and no: "spawns txn = []" "read_deps txn = []" and dead: "\<not> is_alive w e"
    and tgt: "\<forall>i \<in> set (inserts txn). si_entity i = e" "\<forall>r \<in> set (removes txn). sr_entity r = e"
    and ne: "inserts txn \<noteq> [] \<or> removes txn \<noteq> []"
  shows "transit False txn w = Err (InvalidEntity e)"
proof -
  have t: "check_target w [] e = Err (InvalidEntity e)" using dead by (simp add: check_target_def has_entity_def)
  have "try_each (\<lambda>i. check_target w [] (f i)) xs = (if xs = [] then Ok () else Err (InvalidEntity e))"
    if "\<forall>i \<in> set xs. f i = e" for xs :: "'z list" and f
    using that t by (cases xs) auto
  from this[of "inserts txn" si_entity] this[of "removes txn" sr_entity]
  have "validate_txn w None txn = Err (InvalidEntity e)"
    using no ne tgt by (auto simp: validate_txn_def check_duplicate_spawns_def)
  moreover have "resolve_pending False (next_id w) txn = Some txn"
    using plain no by (simp add: plain_txn_def resolve_pending_def)
  ultimately show ?thesis using ep by (simp add: transit_def prepare_def prepare_inner_def)
qed

text \<open>What a commit stages on a handle is read there; handles that are not staged on keep their components.\<close>

lemma committed_new:
  "committed txn w w' \<Longrightarrow> is_alive w' e \<Longrightarrow> staged_effect txn t e = Some v \<Longrightarrow> get_component w' t e = v"
  by (simp add: committed_def)

lemma untargeted_unstaged: "a \<notin> targets txn \<Longrightarrow> staged_effect txn t a = None"
proof -
  assume "a \<notin> targets txn"
  then have "staged_insert_of txn t a = None" "staged_remove_of txn t a = None"
    by (auto simp: targets_def staged_insert_of_def staged_remove_of_def find_None_iff)
  then show ?thesis by (simp add: staged_effect_def)
qed

lemma committed_old:
  assumes "committed txn w w'" "is_alive w a" "a \<notin> targets txn"
  shows "get_component w' t a = get_component w t a"
  using assms untargeted_unstaged[OF assms(3), of t] by (simp add: committed_def get_component_alive)

text \<open>The handle that \<open>next_entity_id\<close> reserves is fresh.\<close>

lemma next_id_fresh:
  assumes "world_inv w"
  shows "fresh_spawn w \<lparr>sp_entity = Entity (next_id w) 0, sp_kind = k, sp_is_pending = b\<rparr>"
    and "\<not> is_alive w (Entity (next_id w) 0)" and "next_id w \<notin> set (free_list w)"
proof -
  have s: "slot_at w (next_id w - 1) = None" using slot_past_end[OF assms, of "next_id w"] by simp
  show "fresh_spawn w \<lparr>sp_entity = Entity (next_id w) 0, sp_kind = k, sp_is_pending = b\<rparr>"
    using s assms by (simp add: fresh_spawn_def occupied_def world_inv_def)
  show "\<not> is_alive w (Entity (next_id w) 0)" using s by (simp add: is_alive_iff)
  show "next_id w \<notin> set (free_list w)" using assms s by (auto simp: world_inv_def vacated_def)
qed

text \<open>Reading staged transactions: rules for evaluating the transaction a command builds.\<close>

lemmas staging_defs = put_value_def remove_work_lease_def put_durable_def put_transient_def
  txn_add_component_def remove_durable_def push_insert_def push_remove_def emit_event_def
  stage_spawn_def txn_new_def

lemmas staged_defs = staged_effect_def staged_insert_of_def staged_remove_of_def

subsection \<open>Transactions on one handle\<close>

definition on_handle :: "entity \<Rightarrow> ('v, 'e, 'a) world_txn \<Rightarrow> bool" where
  "on_handle e txn \<longleftrightarrow> spawns txn = [] \<and> read_deps txn = [] \<and> pending_resolutions txn = [] \<and>
     (\<forall>i \<in> set (inserts txn). si_entity i = e) \<and> (\<forall>r \<in> set (removes txn). sr_entity r = e) \<and>
     distinct (map si_type_id (inserts txn)) \<and> distinct (map sr_type_id (removes txn))"

text \<open>Readers see the staged values on the handle and everything else unchanged.\<close>

definition handle_update :: "entity \<Rightarrow> ('v, 'e, 'a) world_txn \<Rightarrow> ('v, 'e, 'a) txn_world \<Rightarrow>
    ('v, 'e, 'a) txn_world \<Rightarrow> bool" where
  "handle_update e txn w w' \<longleftrightarrow> world_inv w' \<and> current_epoch w' = current_epoch w + 1 \<and>
     last_committed_events w' = events txn \<and>
     (\<forall>a. is_alive w' a = is_alive w a) \<and> (\<forall>a. is_alive w a \<longrightarrow> entity_kind_of w' a = entity_kind_of w a) \<and>
     (\<forall>t a. get_component w' t a = (if a = e then (case staged_effect txn t e of Some x \<Rightarrow> x
        | None \<Rightarrow> get_component w t e) else get_component w t a))"

lemma distinct_on_one:
  assumes "distinct (map g xs)"
  shows "distinct (map (\<lambda>x. (f x, g x)) xs)"
  using assms by (induction xs) auto

lemma on_handle_commits:
  fixes w :: "('v, 'e, 'a) txn_world"
  assumes inv: "world_inv w" and h: "on_handle e txn" and ep: "expected_epoch txn = current_epoch w"
    and al: "is_alive w e" and room: "has_room w (length (inserts txn) + length (removes txn))"
  shows "\<exists>w'. transit False txn w = Ok (current_epoch w + 1, w') \<and> handle_update e txn w w'"
proof -
  have v: "valid_txn w None txn"
    using h al by (auto simp: valid_txn_def on_handle_def spawned_entities_def targets_def
        intro: distinct_on_one)
  have "plain_txn txn" "fresh_spawns w (spawns txn)" "\<forall>s \<in> set (spawns txn). eid (sp_entity s) \<notin> set (free_list w)"
    using h by (simp_all add: on_handle_def plain_txn_def fresh_spawns_def)
  then obtain w' where w': "transit False txn w = Ok (current_epoch w + 1, w')" "committed txn w w'"
    using transit_valid[OF inv _ ep v _ _ room] by blast
  have alive: "is_alive w' a = is_alive w a" for a
    using w'(2) h by (simp add: committed_def on_handle_def spawned_entities_def)
  have other: "staged_effect txn t a = None" if "a \<noteq> e" for t a
    using h that by (intro untargeted_unstaged) (auto simp: targets_def on_handle_def)
  have get: "get_component w' t a = (if a = e then (case staged_effect txn t e of Some x \<Rightarrow> x
        | None \<Rightarrow> get_component w t e) else get_component w t a)" for t a
  proof (cases "is_alive w a")
    case True
    then have "get_component w t a = store_get (component_store w) t a" by (simp add: get_component_alive)
    then have "get_component w' t a = (case staged_effect txn t a of Some x \<Rightarrow> x
        | None \<Rightarrow> get_component w t a)"
      using w'(2) alive True by (simp add: committed_def split: option.split)
    then show ?thesis using other[of a t] by (cases "a = e") (simp_all split: option.split)
  next
    case False
    then show ?thesis using alive al by (auto simp: get_component_alive)
  qed
  have "handle_update e txn w w'"
    using w'(2) alive get by (simp add: handle_update_def committed_def)
  then show ?thesis using w'(1) by blast
qed

lemma on_handle_dead:
  fixes w :: "('v, 'e, 'a) txn_world"
  assumes "on_handle e txn" "expected_epoch txn = current_epoch w" "\<not> is_alive w e" "inserts txn \<noteq> []"
  shows "transit False txn w = Err (InvalidEntity e)"
  using assms by (intro transit_dead_target) (simp_all add: on_handle_def plain_txn_def)

subsection \<open>Transactions that spawn one handle\<close>

definition spawns_handle :: "entity \<Rightarrow> entity_kind \<Rightarrow> ('v, 'e, 'a) world_txn \<Rightarrow> bool" where
  "spawns_handle e k txn \<longleftrightarrow> spawns txn = [\<lparr>sp_entity = e, sp_kind = k, sp_is_pending = False\<rparr>] \<and>
     read_deps txn = [] \<and> pending_resolutions txn = [] \<and> removes txn = [] \<and>
     (\<forall>i \<in> set (inserts txn). si_entity i = e) \<and> distinct (map si_type_id (inserts txn))"

text \<open>The new handle carries what was staged, every other handle is as before.\<close>

definition spawn_update :: "entity \<Rightarrow> entity_kind \<Rightarrow> ('v, 'e, 'a) world_txn \<Rightarrow> ('v, 'e, 'a) txn_world \<Rightarrow>
    ('v, 'e, 'a) txn_world \<Rightarrow> bool" where
  "spawn_update e k txn w w' \<longleftrightarrow> world_inv w' \<and> current_epoch w' = current_epoch w + 1 \<and>
     last_committed_events w' = events txn \<and> (\<forall>a. is_alive w' a \<longleftrightarrow> is_alive w a \<or> a = e) \<and>
     entity_kind_of w' e = Some k \<and> (\<forall>a. is_alive w a \<longrightarrow> entity_kind_of w' a = entity_kind_of w a) \<and>
     (\<forall>t v. staged_effect txn t e = Some v \<longrightarrow> get_component w' t e = v) \<and>
     (\<forall>t a. is_alive w a \<longrightarrow> get_component w' t a = get_component w t a)"

lemma spawns_handle_commits:
  fixes w :: "('v, 'e, 'a) txn_world"
  assumes inv: "world_inv w" and h: "spawns_handle e k txn" and ep: "expected_epoch txn = current_epoch w"
    and fresh: "fresh_spawn w \<lparr>sp_entity = e, sp_kind = k, sp_is_pending = False\<rparr>"
    and free: "eid e \<notin> set (free_list w)" and room: "has_room w (length (inserts txn))"
  shows "\<exists>w'. transit False txn w = Ok (current_epoch w + 1, w') \<and> spawn_update e k txn w w'"
proof -
  have dead: "\<not> is_alive w e" using fresh by (auto simp: fresh_spawn_def occupied_def is_alive_iff)
  have v: "valid_txn w None txn"
    using h dead by (auto simp: valid_txn_def spawned_entities_def targets_def spawns_handle_def
        intro: distinct_on_one)
  have "plain_txn txn" "fresh_spawns w (spawns txn)" "\<forall>s \<in> set (spawns txn). eid (sp_entity s) \<notin> set (free_list w)"
    "has_room w (length (inserts txn) + length (removes txn))"
    using h fresh free room by (simp_all add: spawns_handle_def plain_txn_def fresh_spawns_def)
  then obtain w' where t: "transit False txn w = Ok (current_epoch w + 1, w')" and cm: "committed txn w w'"
    using transit_valid[OF inv _ ep v] by blast
  have alive: "is_alive w' a \<longleftrightarrow> is_alive w a \<or> a = e" for a
    using cm h by (simp add: committed_def spawned_entities_def spawns_handle_def)
  have new: "get_component w' t e = v" if "staged_effect txn t e = Some v" for t v
    using committed_new[OF cm _ that] alive[of e] by simp
  have old: "get_component w' t a = get_component w t a" if "is_alive w a" for t a
  proof (rule committed_old[OF cm that])
    show "a \<notin> targets txn" using h dead that by (auto simp: targets_def spawns_handle_def)
  qed
  have "spawn_update e k txn w w'"
    unfolding spawn_update_def using cm h alive new old by (simp add: committed_def spawns_handle_def)
  then show ?thesis using t by blast
qed

end
