(* ===== verification/Work_Items.thy ===== *)
theory Work_Items
  imports Service_Types
begin

text \<open>
  Work items (\<open>work.rs\<close>): the five commands that create, lease, complete, fail and cancel an item, each
  with its preflight on the world and its execution into a transaction, the composition of the two
  with \<open>transit\<close>, and the replay of a creation. The abstract side is the state machine of one item.
\<close>

subsection \<open>States, errors, commands\<close>

definition work_is_terminal :: "work_state \<Rightarrow> bool" where
  "work_is_terminal s = (s = WCompleted \<or> s = WFailed \<or> s = WCancelled)"

definition is_pending_or_ready :: "work_state \<Rightarrow> bool" where
  "is_pending_or_ready s = (s = WPending \<or> s = WReady)"

datatype work_error = EntityNotFound nat | MissingComponent nat string
  | InvalidTransition nat work_state string | LeaseGenerationMismatch nat "32 word" "32 word"
  | CommitFailed txn_error

record create_work =
  cw_id :: message_id
  cw_kind :: work_kind
  cw_target_entity :: entity
  cw_prerequisites :: "prerequisite list"
  cw_resource_claim :: resource_claim

record lease_work =
  lw_id :: message_id
  lw_work_entity :: entity
  lw_lease_generation :: "32 word"
  lw_attempt :: "32 word"
  lw_cancellation_epoch :: nat
  lw_expiry :: nat

record complete_work =
  dw_id :: message_id
  dw_work_entity :: entity
  dw_output :: "8 word list"
  dw_lease_generation :: "32 word"

record fail_work =
  fw_id :: message_id
  fw_work_entity :: entity
  fw_error :: string
  fw_lease_generation :: "32 word"

record cancel_work =
  xw_id :: message_id
  xw_work_entity :: entity

subsection \<open>Schemas\<close>

definition validate_work_schemas :: "schema_registry \<Rightarrow> (string \<times> schema_error, unit) outcome" where
  "validate_work_schemas reg = verify_all reg
     [(''SCHEMA_WORK_ITEM'', T_work_item, 18), (''SCHEMA_WORK_STATE'', T_work_state, 19),
      (''SCHEMA_WORK_LEASE'', T_work_lease, 20), (''SCHEMA_RESOURCE_CLAIM'', T_resource_claim, 21),
      (''SCHEMA_WORK_PREREQUISITES'', T_prerequisites, 22), (''SCHEMA_WORK_OUTPUT'', T_work_output, 23)]"

subsection \<open>The name of a work kind\<close>

text \<open>\<open>format!("{:?}", kind)\<close>.\<close>

fun work_kind_debug :: "work_kind \<Rightarrow> string" where
  "work_kind_debug LoadModel = ''LoadModel''"
| "work_kind_debug CompileGraph = ''CompileGraph''"
| "work_kind_debug RunInference = ''RunInference''"
| "work_kind_debug Distill = ''Distill''"
| "work_kind_debug Validate = ''Validate''"
| "work_kind_debug Package = ''Package''"
| "work_kind_debug Teardown = ''Teardown''"
| "work_kind_debug (CustomWork n) = ''Custom('' @ decimal n @ '')''"

subsection \<open>Creating\<close>

definition create_preflight :: "create_work \<Rightarrow> ('x, 'a) service_world \<Rightarrow> (work_error, unit) outcome" where
  "create_preflight cmd w =
     (if \<not> has_entity w (cw_target_entity cmd) then Err (EntityNotFound (eid (cw_target_entity cmd)))
      else Ok ())"

definition create_event :: "create_work \<Rightarrow> entity \<Rightarrow> domain_event" where
  "create_event cmd e = \<lparr>ev_id = cw_id cmd, ev_kind = ''work_created'', ev_entity_id = Some (eid e),
     ev_payload = JObj [(''work_entity'', json_of_entity e),
       (''kind'', JStr (work_kind_debug (cw_kind cmd))),
       (''target_entity'', json_of_entity (cw_target_entity cmd))]\<rparr>"

definition create_execute :: "create_work \<Rightarrow> ('x, 'a) service_world \<Rightarrow> ('x, 'a) service_txn \<Rightarrow>
    domain_event \<times> ('x, 'a) service_txn" where
  "create_execute cmd w txn =
     (let e = Entity (next_id w) 0;
          ev = create_event cmd e;
          txn1 = stage_spawn e Executable txn;
          txn2 = put_value e (VWorkItem \<lparr>wi_kind = cw_kind cmd, wi_target = cw_target_entity cmd,
             retry_count = 0, max_retries = 0\<rparr>) txn1;
          txn3 = put_value e (VWorkState WPending) txn2;
          txn4 = put_value e (VResourceClaim (cw_resource_claim cmd)) txn3;
          txn5 = (if cw_prerequisites cmd \<noteq> [] then put_value e (VPrerequisites (cw_prerequisites cmd)) txn4
             else txn4)
      in (ev, emit_event ev txn5))"

subsection \<open>Leasing\<close>

text \<open>
  The preflights look the item up under the handle with its id and generation 0; the executions stage on
  the handle of the command.
\<close>

definition lookup_state :: "entity \<Rightarrow> ('x, 'a) service_world \<Rightarrow> (work_error, work_state) outcome" where
  "lookup_state e w =
     (let entity = Entity (eid e) 0 in
      if \<not> has_entity w entity then Err (EntityNotFound (eid e))
      else case get_work_state w entity of
        None \<Rightarrow> Err (MissingComponent (eid e) ''WorkState'')
      | Some state \<Rightarrow> Ok state)"

definition lease_preflight :: "lease_work \<Rightarrow> ('x, 'a) service_world \<Rightarrow> (work_error, unit) outcome" where
  "lease_preflight cmd w =
     and_then (lookup_state (lw_work_entity cmd) w) (\<lambda>state.
       if state \<noteq> WReady then Err (InvalidTransition (eid (lw_work_entity cmd)) state ''Leased'') else Ok ())"

definition lease_component :: "lease_work \<Rightarrow> work_lease" where
  "lease_component cmd = \<lparr>wl_work_entity = lw_work_entity cmd, wl_generation = lw_lease_generation cmd,
     wl_attempt = lw_attempt cmd, wl_cancellation_epoch = lw_cancellation_epoch cmd,
     wl_expiry = lw_expiry cmd\<rparr>"

definition lease_execute :: "lease_work \<Rightarrow> ('x, 'a) service_world \<Rightarrow> ('x, 'a) service_txn \<Rightarrow>
    domain_event \<times> ('x, 'a) service_txn" where
  "lease_execute cmd w txn =
     (let e = lw_work_entity cmd;
          txn1 = put_value e (VWorkState (WLeased (lw_lease_generation cmd))) txn;
          txn2 = put_value e (VWorkLease (lease_component cmd)) txn1;
          ev = \<lparr>ev_id = lw_id cmd, ev_kind = ''work_leased'', ev_entity_id = Some (eid e),
            ev_payload = JObj [(''work_entity'', json_of_entity e),
              (''lease_generation'', JNum (unat (lw_lease_generation cmd))),
              (''attempt'', JNum (unat (lw_attempt cmd)))]\<rparr>
      in (ev, emit_event ev txn2))"

subsection \<open>Completing and failing\<close>

text \<open>The check of the lease generation that the two preflights share.\<close>

definition check_lease :: "entity \<Rightarrow> 32 word \<Rightarrow> string \<Rightarrow> work_state \<Rightarrow> (work_error, unit) outcome" where
  "check_lease e expected to state = (case state of
     WLeased gen \<Rightarrow> if gen = expected then Ok () else Err (LeaseGenerationMismatch (eid e) expected gen)
   | _ \<Rightarrow> Err (InvalidTransition (eid e) state to))"

definition complete_preflight :: "complete_work \<Rightarrow> ('x, 'a) service_world \<Rightarrow> (work_error, unit) outcome" where
  "complete_preflight cmd w = and_then (lookup_state (dw_work_entity cmd) w)
     (check_lease (dw_work_entity cmd) (dw_lease_generation cmd) ''Completed'')"

definition complete_execute :: "complete_work \<Rightarrow> ('x, 'a) service_world \<Rightarrow> ('x, 'a) service_txn \<Rightarrow>
    domain_event \<times> ('x, 'a) service_txn" where
  "complete_execute cmd w txn =
     (let e = dw_work_entity cmd;
          txn1 = put_value e (VWorkState WCompleted) txn;
          txn2 = put_value e (VWorkOutput (dw_output cmd)) txn1;
          txn3 = remove_work_lease e txn2;
          ev = \<lparr>ev_id = dw_id cmd, ev_kind = ''work_completed'', ev_entity_id = Some (eid e),
            ev_payload = JObj [(''work_entity'', json_of_entity e),
              (''lease_generation'', JNum (unat (dw_lease_generation cmd)))]\<rparr>
      in (ev, emit_event ev txn3))"

definition fail_preflight :: "fail_work \<Rightarrow> ('x, 'a) service_world \<Rightarrow> (work_error, unit) outcome" where
  "fail_preflight cmd w = and_then (lookup_state (fw_work_entity cmd) w)
     (check_lease (fw_work_entity cmd) (fw_lease_generation cmd) ''Failed/Retry'')"

definition fail_event :: "fail_work \<Rightarrow> string \<Rightarrow> domain_event" where
  "fail_event cmd kind = \<lparr>ev_id = fw_id cmd, ev_kind = kind, ev_entity_id = Some (eid (fw_work_entity cmd)),
     ev_payload = JObj [(''work_entity'', json_of_entity (fw_work_entity cmd)),
       (''error'', JStr (fw_error cmd)), (''lease_generation'', JNum (unat (fw_lease_generation cmd)))]\<rparr>"

definition fail_execute :: "fail_work \<Rightarrow> ('x, 'a) service_world \<Rightarrow> ('x, 'a) service_txn \<Rightarrow>
    domain_event \<times> ('x, 'a) service_txn" where
  "fail_execute cmd w txn =
     (let e = fw_work_entity cmd;
          entity = Entity (eid e) 0;
          should_retry = (case get_work_item w entity of Some wi \<Rightarrow> retry_count wi < max_retries wi
             | None \<Rightarrow> False);
          txn1 = remove_work_lease e txn
      in if should_retry
         then let txn2 = (case get_work_item w entity of
                    Some wi \<Rightarrow> put_value e (VWorkItem (wi\<lparr>retry_count := retry_count wi + 1\<rparr>)) txn1
                  | None \<Rightarrow> txn1);
                txn3 = put_value e (VWorkState WReady) txn2;
                ev = fail_event cmd ''work_retried''
              in (ev, emit_event ev txn3)
         else let txn2 = put_value e (VWorkState WFailed) txn1;
                ev = fail_event cmd ''work_failed''
              in (ev, emit_event ev txn2))"

subsection \<open>Cancelling\<close>

definition cancel_preflight :: "cancel_work \<Rightarrow> ('x, 'a) service_world \<Rightarrow> (work_error, unit) outcome" where
  "cancel_preflight cmd w = and_then (lookup_state (xw_work_entity cmd) w) (\<lambda>state.
     if work_is_terminal state then Err (InvalidTransition (eid (xw_work_entity cmd)) state ''Cancelled'')
     else Ok ())"

definition cancel_execute :: "cancel_work \<Rightarrow> ('x, 'a) service_world \<Rightarrow> ('x, 'a) service_txn \<Rightarrow>
    domain_event \<times> ('x, 'a) service_txn" where
  "cancel_execute cmd w txn =
     (let e = xw_work_entity cmd;
          txn1 = (if get_work_lease w (Entity (eid e) 0) \<noteq> None then remove_work_lease e txn else txn);
          txn2 = put_value e (VWorkState WCancelled) txn1;
          ev = \<lparr>ev_id = xw_id cmd, ev_kind = ''work_cancelled'', ev_entity_id = Some (eid e),
            ev_payload = JObj [(''work_entity'', json_of_entity e)]\<rparr>
      in (ev, emit_event ev txn2))"

subsection \<open>Running a command\<close>

datatype work_command = CreateWork create_work | LeaseWork lease_work | CompleteWork complete_work
  | FailWork fail_work | CancelWork cancel_work

fun work_preflight :: "work_command \<Rightarrow> ('x, 'a) service_world \<Rightarrow> (work_error, unit) outcome" where
  "work_preflight (CreateWork c) = create_preflight c"
| "work_preflight (LeaseWork c) = lease_preflight c"
| "work_preflight (CompleteWork c) = complete_preflight c"
| "work_preflight (FailWork c) = fail_preflight c"
| "work_preflight (CancelWork c) = cancel_preflight c"

fun work_execute :: "work_command \<Rightarrow> ('x, 'a) service_world \<Rightarrow> ('x, 'a) service_txn \<Rightarrow>
    domain_event \<times> ('x, 'a) service_txn" where
  "work_execute (CreateWork c) = create_execute c"
| "work_execute (LeaseWork c) = lease_execute c"
| "work_execute (CompleteWork c) = complete_execute c"
| "work_execute (FailWork c) = fail_execute c"
| "work_execute (CancelWork c) = cancel_execute c"

text \<open>The protocol of the callers: preflight, execution into a new transaction, commit.\<close>

definition run_work :: "work_command \<Rightarrow> ('x, 'a) service_world \<Rightarrow>
    (work_error, domain_event \<times> ('x, 'a) service_world) outcome" where
  "run_work cmd w = and_then (work_preflight cmd w) (\<lambda>_.
     let (ev, txn) = work_execute cmd w (txn_new w) in
     and_then (map_err CommitFailed (transit False txn w)) (\<lambda>(_, w'). Ok (ev, w')))"

subsection \<open>Replay\<close>

fun parse_work_kind :: "string \<Rightarrow> work_kind" where
  "parse_work_kind s =
     (if s = ''LoadModel'' then LoadModel else if s = ''CompileGraph'' then CompileGraph
      else if s = ''RunInference'' then RunInference else if s = ''Distill'' then Distill
      else if s = ''Validate'' then Validate else if s = ''Package'' then Package
      else if s = ''Teardown'' then Teardown else CustomWork 0)"

declare parse_work_kind.simps [simp del]

datatype replay_error = MissingField string | ReplayWorldError world_error

definition need :: "string \<Rightarrow> 'b option \<Rightarrow> (replay_error, 'b) outcome" where
  "need field x = (case x of None \<Rightarrow> Err (MissingField field) | Some y \<Rightarrow> Ok y)"

definition field :: "string \<Rightarrow> (json \<Rightarrow> 'b option) \<Rightarrow> domain_event \<Rightarrow> 'b option" where
  "field k conv ev = Option.bind (json_get k (ev_payload ev)) conv"

definition replay_work_created :: "bool \<Rightarrow> ('x, 'a) service_world \<Rightarrow> domain_event \<Rightarrow>
    (replay_error, ('x, 'a) service_world) outcome" where
  "replay_work_created dbg w ev =
     and_then (need ''work_entity'' (field ''work_entity'' as_u64 ev)) (\<lambda>i.
     and_then (need ''kind'' (field ''kind'' as_str ev)) (\<lambda>kind_str.
     and_then (need ''target_entity'' (field ''target_entity'' as_u64 ev)) (\<lambda>target.
     and_then (of_panic (spawn_entity_with_id i Executable w)) (\<lambda>(ce, w1).
     and_then (map_err ReplayWorldError (add_component dbg T_work_item ce
        (VWorkItem \<lparr>wi_kind = parse_work_kind kind_str, wi_target = Entity target 0,
           retry_count = 0, max_retries = 0\<rparr>) w1)) (\<lambda>w2.
       map_err ReplayWorldError (add_component dbg T_resource_claim ce
        (VResourceClaim \<lparr>memory_bytes = 0, compute_units = 0, claim_priority = 0\<rparr>) w2))))))"

subsection \<open>The state machine of one item\<close>

text \<open>What a reader of the world sees of a work item.\<close>

record work_view =
  v_item :: "work_item option"
  v_state :: "work_state option"
  v_lease :: "work_lease option"
  v_output :: "8 word list option"

definition work_view_of :: "('x comp_value, 'm) world_scheme \<Rightarrow> entity \<Rightarrow> work_view" where
  "work_view_of w e = \<lparr>v_item = get_work_item w e, v_state = get_work_state w e,
     v_lease = get_work_lease w e, v_output = get_work_output w e\<rparr>"

definition may_retry :: "work_view \<Rightarrow> bool" where
  "may_retry v \<longleftrightarrow> (\<exists>wi. v_item v = Some wi \<and> retry_count wi < max_retries wi)"

text \<open>
  One command on an item: ready items are leased; a lease holder completes or fails them, and a failed
  item with retries left becomes ready again; every item that is not in a terminal state can be cancelled.
\<close>

fun work_target :: "work_command \<Rightarrow> entity option" where
  "work_target (CreateWork c) = None"
| "work_target (LeaseWork c) = Some (lw_work_entity c)"
| "work_target (CompleteWork c) = Some (dw_work_entity c)"
| "work_target (FailWork c) = Some (fw_work_entity c)"
| "work_target (CancelWork c) = Some (xw_work_entity c)"

fun item_guard :: "work_command \<Rightarrow> work_state \<Rightarrow> (work_error, unit) outcome" where
  "item_guard (LeaseWork c) s = (if s = WReady then Ok ()
     else Err (InvalidTransition (eid (lw_work_entity c)) s ''Leased''))"
| "item_guard (CompleteWork c) s = (case s of
     WLeased g \<Rightarrow> if g = dw_lease_generation c then Ok ()
       else Err (LeaseGenerationMismatch (eid (dw_work_entity c)) (dw_lease_generation c) g)
   | _ \<Rightarrow> Err (InvalidTransition (eid (dw_work_entity c)) s ''Completed''))"
| "item_guard (FailWork c) s = (case s of
     WLeased g \<Rightarrow> if g = fw_lease_generation c then Ok ()
       else Err (LeaseGenerationMismatch (eid (fw_work_entity c)) (fw_lease_generation c) g)
   | _ \<Rightarrow> Err (InvalidTransition (eid (fw_work_entity c)) s ''Failed/Retry''))"
| "item_guard (CancelWork c) s = (if work_is_terminal s
     then Err (InvalidTransition (eid (xw_work_entity c)) s ''Cancelled'') else Ok ())"
| "item_guard (CreateWork c) s = Ok ()"

fun item_effect :: "work_command \<Rightarrow> work_view \<Rightarrow> work_view" where
  "item_effect (LeaseWork c) v =
     v\<lparr>v_state := Some (WLeased (lw_lease_generation c)), v_lease := Some (lease_component c)\<rparr>"
| "item_effect (CompleteWork c) v =
     v\<lparr>v_state := Some WCompleted, v_lease := None, v_output := Some (dw_output c)\<rparr>"
| "item_effect (FailWork c) v = (if may_retry v
     then v\<lparr>v_item := map_option (\<lambda>wi. wi\<lparr>retry_count := retry_count wi + 1\<rparr>) (v_item v),
            v_state := Some WReady, v_lease := None\<rparr>
     else v\<lparr>v_state := Some WFailed, v_lease := None\<rparr>)"
| "item_effect (CancelWork c) v = v\<lparr>v_state := Some WCancelled, v_lease := None\<rparr>"
| "item_effect (CreateWork c) v = v"

definition item_step :: "work_command \<Rightarrow> entity \<Rightarrow> work_view \<Rightarrow> (work_error, work_view) outcome" where
  "item_step cmd e v = (case v_state v of None \<Rightarrow> Err (MissingComponent (eid e) ''WorkState'')
     | Some s \<Rightarrow> and_then (item_guard cmd s) (\<lambda>_. Ok (item_effect cmd v)))"

text \<open>The preflights evaluate the guard on the item with the command's id and generation 0.\<close>

lemma lookup_state_view:
  "is_alive w (Entity (eid e) 0) \<Longrightarrow> lookup_state e w = (case v_state (work_view_of w (Entity (eid e) 0)) of
     None \<Rightarrow> Err (MissingComponent (eid e) ''WorkState'') | Some s \<Rightarrow> Ok s)"
  "\<not> is_alive w (Entity (eid e) 0) \<Longrightarrow> lookup_state e w = Err (EntityNotFound (eid e))"
  by (simp_all add: lookup_state_def has_entity_def Let_def work_view_of_def)

lemma preflight_guard:
  assumes "work_target cmd = Some e"
  shows "is_alive w (Entity (eid e) 0) \<Longrightarrow> work_preflight cmd w =
      (case v_state (work_view_of w (Entity (eid e) 0)) of
         None \<Rightarrow> Err (MissingComponent (eid e) ''WorkState'') | Some s \<Rightarrow> item_guard cmd s)"
    and "\<not> is_alive w (Entity (eid e) 0) \<Longrightarrow> work_preflight cmd w = Err (EntityNotFound (eid e))"
  using assms
  by (cases cmd; auto simp: lease_preflight_def complete_preflight_def fail_preflight_def cancel_preflight_def
      lookup_state_view check_lease_def split: option.split work_state.split)+

text \<open>What the executions stage.\<close>

lemma execute_on_handle:
  assumes "work_target cmd = Some e" "work_execute cmd w (txn_new w) = (ev, txn)"
  shows "on_handle e txn" "expected_epoch txn = current_epoch w" "events txn = [ev]"
    and "length (inserts txn) + length (removes txn) \<le> 3" "inserts txn \<noteq> []"
  using assms
  by (cases cmd; auto simp: on_handle_def lease_execute_def complete_execute_def fail_execute_def
      cancel_execute_def staging_defs Let_def split: if_splits option.splits)+

definition view_effect :: "('x, 'a) service_txn \<Rightarrow> entity \<Rightarrow> work_view \<Rightarrow> work_view" where
  "view_effect txn e v =
     \<lparr>v_item = (case staged_effect txn T_work_item e of Some (Some (VWorkItem i)) \<Rightarrow> Some i
        | Some _ \<Rightarrow> None | None \<Rightarrow> v_item v),
      v_state = (case staged_effect txn T_work_state e of Some (Some (VWorkState s)) \<Rightarrow> Some s
        | Some _ \<Rightarrow> None | None \<Rightarrow> v_state v),
      v_lease = (case staged_effect txn T_work_lease e of Some (Some (VWorkLease l)) \<Rightarrow> Some l
        | Some _ \<Rightarrow> None | None \<Rightarrow> v_lease v),
      v_output = (case staged_effect txn T_work_output e of Some (Some (VWorkOutput b)) \<Rightarrow> Some b
        | Some _ \<Rightarrow> None | None \<Rightarrow> v_output v)\<rparr>"

lemma handle_update_view:
  assumes "handle_update e txn w w'"
  shows "work_view_of w' e = view_effect txn e (work_view_of w e)"
    and "a \<noteq> e \<Longrightarrow> work_view_of w' a = work_view_of w a"
  using assms
  by (auto simp: work_view_of_def view_effect_def handle_update_def typed_get_defs
      split: option.split comp_value.split)

lemma execute_effect:
  assumes "work_target cmd = Some e" "work_execute cmd w (txn_new w) = (ev, txn)" "egen e = 0"
  shows "view_effect txn e (work_view_of w e) = item_effect cmd (work_view_of w e)"
proof -
  have e: "Entity (eid e) 0 = e" using assms(3) by (cases e) simp
  note ev = view_effect_def work_view_of_def staging_defs staged_defs Let_def e
  show ?thesis
  proof (cases cmd)
    case (LeaseWork c)
    then show ?thesis using assms(1,2) by (auto simp: lease_execute_def ev)
  next
    case (CompleteWork c)
    then show ?thesis using assms(1,2) by (auto simp: complete_execute_def ev)
  next
    case (FailWork c)
    have fw: "fw_work_entity c = e" using FailWork assms(1) by simp
    show ?thesis
    proof (cases "may_retry (work_view_of w e)")
      case True
      then obtain wi where "get_work_item w e = Some wi" "retry_count wi < max_retries wi"
        by (auto simp: may_retry_def work_view_of_def)
      then show ?thesis using True assms(2) fw FailWork by (auto simp: fail_execute_def ev)
    next
      case False
      then have "\<not> (case get_work_item w e of Some wi \<Rightarrow> retry_count wi < max_retries wi | None \<Rightarrow> False)"
        by (auto simp: may_retry_def work_view_of_def split: option.splits)
      then show ?thesis using False assms(2) fw FailWork by (auto simp: fail_execute_def ev)
    qed
  next
    case (CancelWork c)
    then show ?thesis
      using assms(1,2) by (cases "get_work_lease w e = None") (auto simp: cancel_execute_def ev)
  qed (use assms(1) in simp)
qed

text \<open>A command on a handle of generation 0.\<close>

lemma run_work_handle:
  fixes w :: "('x, 'a) service_world"
  assumes inv: "world_inv w" and room: "has_room w 3" and tgt: "work_target cmd = Some e"
    and g: "egen e = 0" and al: "is_alive w e"
  shows "case item_step cmd e (work_view_of w e) of
     Panic \<Rightarrow> False
   | Err err \<Rightarrow> run_work cmd w = Err err
   | Ok v \<Rightarrow> \<exists>ev txn w'. run_work cmd w = Ok (ev, w') \<and> work_view_of w' e = v \<and>
       handle_update e txn w w' \<and> events txn = [ev]"
proof -
  have e: "Entity (eid e) 0 = e" using g by (cases e) simp
  obtain ev txn where x: "work_execute cmd w (txn_new w) = (ev, txn)" by fastforce
  note h = execute_on_handle[OF tgt x]
  obtain w' where w': "transit False txn w = Ok (current_epoch w + 1, w')" "handle_update e txn w w'"
    using on_handle_commits[OF inv h(1,2) al has_room_mono[OF room h(4)]] by blast
  have v: "work_view_of w' e = item_effect cmd (work_view_of w e)"
    using handle_update_view(1)[OF w'(2)] execute_effect[OF tgt x g] by simp
  have pre: "work_preflight cmd w = (case v_state (work_view_of w e) of
       None \<Rightarrow> Err (MissingComponent (eid e) ''WorkState'') | Some s \<Rightarrow> item_guard cmd s)"
    using preflight_guard(1)[OF tgt, of w] al unfolding e .
  have np: "item_guard cmd s \<noteq> Panic" for s by (cases cmd; cases s) (simp_all add: work_is_terminal_def)
  show ?thesis
  proof (cases "v_state (work_view_of w e)")
    case None
    then show ?thesis using pre by (simp add: item_step_def run_work_def)
  next
    case (Some s)
    show ?thesis
    proof (cases "item_guard cmd s")
      case (Ok u)
      then have "run_work cmd w = Ok (ev, w')" using pre Some x w'(1) by (simp add: run_work_def)
      then show ?thesis using Ok Some v w'(2) h(3) by (auto simp: item_step_def)
    qed (use np pre Some in \<open>simp_all add: item_step_def run_work_def\<close>)
  qed
qed

text \<open>A command on any other handle fails.\<close>

lemma run_work_dead:
  fixes w :: "('x, 'a) service_world"
  assumes tgt: "work_target cmd = Some e" and bad: "\<not> is_alive w e \<or> egen e \<noteq> 0"
  shows "\<exists>err. run_work cmd w = Err err"
proof (cases "is_alive w (Entity (eid e) 0)")
  case False
  then show ?thesis using preflight_guard(2)[OF tgt, of w] by (simp add: run_work_def)
next
  case True
  then have dead: "\<not> is_alive w e" using bad is_alive_inj[OF True, of e] by (cases e) auto
  obtain ev txn where x: "work_execute cmd w (txn_new w) = (ev, txn)" by fastforce
  have t: "transit False txn w = Err (InvalidEntity e)"
    using on_handle_dead execute_on_handle[OF tgt x] dead by blast
  have np: "item_guard cmd s \<noteq> Panic" for s by (cases cmd; cases s) (simp_all add: work_is_terminal_def)
  have "work_preflight cmd w \<noteq> Panic"
    using preflight_guard(1)[OF tgt True] np by (simp split: option.split)
  then show ?thesis using x t by (cases "work_preflight cmd w") (auto simp: run_work_def)
qed

subsection \<open>Creation\<close>

definition created_item :: "create_work \<Rightarrow> work_item" where
  "created_item c = \<lparr>wi_kind = cw_kind c, wi_target = cw_target_entity c, retry_count = 0, max_retries = 0\<rparr>"

text \<open>The specification of a creation: a new handle \<open>e\<close> with its components; nothing else changes.\<close>

definition work_created :: "create_work \<Rightarrow> entity \<Rightarrow> ('x, 'a) service_world \<Rightarrow> ('x, 'a) service_world \<Rightarrow> bool" where
  "work_created c e w w' \<longleftrightarrow> \<not> is_alive w e \<and> (\<forall>a. is_alive w' a \<longleftrightarrow> is_alive w a \<or> a = e) \<and>
     entity_kind_of w' e = Some Executable \<and> get_work_item w' e = Some (created_item c) \<and>
     get_work_state w' e = Some WPending \<and>
     get_component w' T_resource_claim e = Some (VResourceClaim (cw_resource_claim c)) \<and>
     (cw_prerequisites c \<noteq> [] \<longrightarrow>
        get_component w' T_prerequisites e = Some (VPrerequisites (cw_prerequisites c))) \<and>
     (\<forall>t a. is_alive w a \<longrightarrow> get_component w' t a = get_component w t a) \<and>
     current_epoch w' = current_epoch w + 1 \<and> last_committed_events w' = [create_event c e] \<and> world_inv w'"

lemma run_create:
  fixes w :: "('x, 'a) service_world"
  assumes inv: "world_inv w" and room: "has_room w 4"
  shows "is_alive w (cw_target_entity c) \<Longrightarrow> \<exists>w'. run_work (CreateWork c) w =
       Ok (create_event c (Entity (next_id w) 0), w') \<and> work_created c (Entity (next_id w) 0) w w'"
    and "\<not> is_alive w (cw_target_entity c) \<Longrightarrow>
       run_work (CreateWork c) w = Err (EntityNotFound (eid (cw_target_entity c)))"
proof -
  let ?e = "Entity (next_id w) 0"
  let ?p = "cw_prerequisites c"
  define txn where "txn = snd (create_execute c w (txn_new w :: ('x, 'a) service_txn))"
  have x: "create_execute c w (txn_new w) = (create_event c ?e, txn)"
    by (simp add: txn_def create_execute_def Let_def)
  note fresh = next_id_fresh[OF inv]
  note ev = txn_def create_execute_def staging_defs Let_def
  have h: "spawns_handle ?e Executable txn" "expected_epoch txn = current_epoch w"
    "events txn = [create_event c ?e]" "length (inserts txn) \<le> 4"
    by (auto simp: ev spawns_handle_def)
  obtain w' where t: "transit False txn w = Ok (current_epoch w + 1, w')" and su: "spawn_update ?e Executable txn w w'"
    using spawns_handle_commits[OF inv h(1,2) fresh(1) _ has_room_mono[OF room h(4)]] fresh(3) by auto
  have "staged_effect txn T_work_item ?e = Some (Some (VWorkItem (created_item c)))"
    "staged_effect txn T_work_state ?e = Some (Some (VWorkState WPending))"
    "staged_effect txn T_resource_claim ?e = Some (Some (VResourceClaim (cw_resource_claim c)))"
    "?p \<noteq> [] \<Longrightarrow> staged_effect txn T_prerequisites ?e = Some (Some (VPrerequisites ?p))"
    by (auto simp: ev staged_defs created_item_def)
  then have new: "get_work_item w' ?e = Some (created_item c)" "get_work_state w' ?e = Some WPending"
    "get_component w' T_resource_claim ?e = Some (VResourceClaim (cw_resource_claim c))"
    "?p \<noteq> [] \<Longrightarrow> get_component w' T_prerequisites ?e = Some (VPrerequisites ?p)"
    using su by (simp_all add: typed_get_defs spawn_update_def)
  have "work_created c ?e w w'"
    unfolding work_created_def using su new fresh(2) h(3) by (simp add: spawn_update_def)
  then show "is_alive w (cw_target_entity c) \<Longrightarrow> \<exists>w'. run_work (CreateWork c) w =
       Ok (create_event c ?e, w') \<and> work_created c ?e w w'"
    using t x by (simp add: run_work_def create_preflight_def has_entity_def)
  show "\<not> is_alive w (cw_target_entity c) \<Longrightarrow>
       run_work (CreateWork c) w = Err (EntityNotFound (eid (cw_target_entity c)))"
    by (simp add: run_work_def create_preflight_def has_entity_def)
qed

subsection \<open>Histories\<close>

text \<open>
  A history runs commands one after the other; a rejected command leaves the world as it was. Room
  for the components of one command is assumed at every step.
\<close>

inductive work_run :: "work_command list \<Rightarrow> ('x, 'a) service_world \<Rightarrow> ('x, 'a) service_world \<Rightarrow> bool" where
  run_done: "work_run [] w w"
| run_ok: "has_room w 4 \<Longrightarrow> run_work cmd w = Ok (ev, w1) \<Longrightarrow> work_run cmds w1 w' \<Longrightarrow> work_run (cmd # cmds) w w'"
| run_rejected: "run_work cmd w = Err err \<Longrightarrow> work_run cmds w w' \<Longrightarrow> work_run (cmd # cmds) w w'"

inductive_cases work_run_ConsE: "work_run (cmd # cmds) w w'"
inductive_simps work_run_Nil [simp]: "work_run [] w w'"

lemma run_work_step:
  fixes w :: "('x, 'a) service_world"
  assumes inv: "world_inv w" and room: "has_room w 4" and run: "run_work cmd w = Ok (ev, w')"
    and al: "is_alive w e"
  shows "world_inv w'" "is_alive w' e"
    and "work_view_of w' e = work_view_of w e \<or>
      (work_target cmd = Some e \<and> item_step cmd e (work_view_of w e) = Ok (work_view_of w' e))"
proof -
  have "world_inv w' \<and> is_alive w' e \<and> (work_view_of w' e = work_view_of w e \<or>
      (work_target cmd = Some e \<and> item_step cmd e (work_view_of w e) = Ok (work_view_of w' e)))"
  proof (cases "work_target cmd")
    case None
    then obtain c where c: "cmd = CreateWork c" by (cases cmd) auto
    then have "is_alive w (cw_target_entity c)" using run_create(2)[OF inv room] run by fastforce
    then obtain w'' where "run_work cmd w = Ok (create_event c (Entity (next_id w) 0), w'')"
      "work_created c (Entity (next_id w) 0) w w''"
      using run_create(1)[OF inv room] c by blast
    then have "work_created c (Entity (next_id w) 0) w w'" using run by simp
    then show ?thesis using al by (simp add: work_created_def work_view_of_def typed_get_defs)
  next
    case (Some a)
    have a: "is_alive w a" "egen a = 0" using run_work_dead[OF Some, of w] run by auto
    have "has_room w 3" using has_room_mono[OF room] by simp
    note r = run_work_handle[OF inv this Some a(2,1)]
    obtain v where v: "item_step cmd a (work_view_of w a) = Ok v"
      using r run by (cases "item_step cmd a (work_view_of w a)") auto
    then obtain txn where t: "work_view_of w' a = v" "handle_update a txn w w'"
      using r run by auto
    show ?thesis
    proof (cases "e = a")
      case True
      then show ?thesis using t v Some al by (auto simp: handle_update_def)
    next
      case False
      then show ?thesis using handle_update_view(2)[OF t(2)] t(2) al by (simp add: handle_update_def)
    qed
  qed
  then show "world_inv w'" "is_alive w' e" "work_view_of w' e = work_view_of w e \<or>
      (work_target cmd = Some e \<and> item_step cmd e (work_view_of w e) = Ok (work_view_of w' e))"
    by auto
qed

text \<open>What every step of the item keeps, every history keeps.\<close>

lemma work_run_keeps:
  fixes w :: "('x, 'a) service_world"
  assumes "work_run cmds w w'" "world_inv w" "is_alive w e" "P (work_view_of w e)"
    and step: "\<And>cmd v v'. P v \<Longrightarrow> work_target cmd = Some e \<Longrightarrow> item_step cmd e v = Ok v' \<Longrightarrow> P v'"
  shows "P (work_view_of w' e)"
  using assms(1-4)
proof (induction rule: work_run.induct)
  case (run_ok w cmd ev w1 cmds w')
  note s = run_work_step[OF run_ok.prems(1) run_ok.hyps(1,2) run_ok.prems(2)]
  have "P (work_view_of w1 e)" using s(3) step run_ok.prems(3) by metis
  then show ?case using run_ok.IH s(1,2) by blast
qed auto

subsection \<open>The invariant of an item\<close>

text \<open>
  A leased item carries the lease of its generation, any other item carries none; the retries never exceed
  their maximum.
\<close>

definition item_inv :: "entity \<Rightarrow> work_view \<Rightarrow> bool" where
  "item_inv e v \<longleftrightarrow>
     (case v_state v of
        Some (WLeased g) \<Rightarrow> (\<exists>l. v_lease v = Some l \<and> wl_generation l = g \<and> wl_work_entity l = e)
      | _ \<Rightarrow> v_lease v = None) \<and>
     (\<forall>wi. v_item v = Some wi \<longrightarrow> retry_count wi \<le> max_retries wi)"

lemma item_step_cases:
  assumes "item_step cmd e v = Ok v'" "work_target cmd = Some e"
  obtains (lease) c where "cmd = LeaseWork c" "lw_work_entity c = e" "v_state v = Some WReady"
      "v' = v\<lparr>v_state := Some (WLeased (lw_lease_generation c)), v_lease := Some (lease_component c)\<rparr>"
    | (complete) c where "cmd = CompleteWork c" "v_state v = Some (WLeased (dw_lease_generation c))"
      "v' = v\<lparr>v_state := Some WCompleted, v_lease := None, v_output := Some (dw_output c)\<rparr>"
    | (retry) c wi where "cmd = FailWork c" "v_state v = Some (WLeased (fw_lease_generation c))"
      "v_item v = Some wi" "retry_count wi < max_retries wi"
      "v' = v\<lparr>v_item := Some (wi\<lparr>retry_count := retry_count wi + 1\<rparr>), v_state := Some WReady, v_lease := None\<rparr>"
    | (failed) c where "cmd = FailWork c" "v_state v = Some (WLeased (fw_lease_generation c))"
      "\<not> may_retry v" "v' = v\<lparr>v_state := Some WFailed, v_lease := None\<rparr>"
    | (cancel) c s where "cmd = CancelWork c" "v_state v = Some s" "\<not> work_is_terminal s"
      "v' = v\<lparr>v_state := Some WCancelled, v_lease := None\<rparr>"
proof (cases cmd)
  case (FailWork c)
  then have "v_state v = Some (WLeased (fw_lease_generation c))"
    using assms(1) by (auto simp: item_step_def split: option.splits work_state.splits if_splits)
  then show thesis
    using that(3,4) FailWork assms(1) by (auto simp: item_step_def may_retry_def split: if_splits)
qed (use assms that in \<open>auto simp: item_step_def split: option.splits work_state.splits if_splits\<close>)

lemma word_less_Suc_le: "(a::32 word) < b \<Longrightarrow> a + 1 \<le> b"
  by (rule inc_le)

lemma item_inv_step:
  assumes "item_inv e v" "work_target cmd = Some e" "item_step cmd e v = Ok v'"
  shows "item_inv e v'"
  using assms(3,2)
proof (cases rule: item_step_cases)
  case (lease c)
  then show ?thesis using assms(1) by (auto simp: item_inv_def lease_component_def)
next
  case (retry c wi)
  then show ?thesis using assms(1) word_less_Suc_le by (auto simp: item_inv_def)
qed (use assms(1) in \<open>auto simp: item_inv_def\<close>)

lemma terminal_stuck: "v_state v = Some s \<Longrightarrow> work_is_terminal s \<Longrightarrow> work_target cmd = Some e \<Longrightarrow>
    item_step cmd e v \<noteq> Ok v'"
  by (cases cmd; cases s) (simp_all add: item_step_def work_is_terminal_def)

lemma unadmitted_step:
  assumes "v_state v = Some WPending \<or> v_state v = Some WCancelled" "work_target cmd = Some e"
    "item_step cmd e v = Ok v'"
  shows "v_state v' = Some WCancelled"
  using assms(3,2) by (cases rule: item_step_cases) (use assms(1) in \<open>auto simp: work_is_terminal_def\<close>)

subsection \<open>Properties\<close>

text \<open>A world with a model, a ready work item for it, and an item in a reused slot.\<close>

definition work_sample :: "(unit, unit) service_world" where
  "work_sample = \<lparr>component_store =
       [T_work_item \<mapsto> \<lparr>dense = [VWorkItem \<lparr>wi_kind = Distill, wi_target = Entity 1 0, retry_count = 1, max_retries = 2\<rparr>],
          sparse = [None, None, Some 0], entities = [Entity 2 0]\<rparr>,
        T_work_state \<mapsto> \<lparr>dense = [VWorkState WReady], sparse = [None, None, Some 0], entities = [Entity 2 0]\<rparr>],
     resource_store = Map.empty,
     entity_meta = [Some \<lparr>generation = 0, occupant = Some \<lparr>okind = Model, oname = None\<rparr>\<rparr>,
       Some \<lparr>generation = 0, occupant = Some \<lparr>okind = Executable, oname = None\<rparr>\<rparr>,
       Some \<lparr>generation = 1, occupant = Some \<lparr>okind = Executable, oname = None\<rparr>\<rparr>],
     next_id = 4, free_list = [], staging = [], component_versions = Map.empty,
     mutation_policy = Bootstrap, epoch_ext = Some 4,
     journal_ext = None, events_ext = None, advisory_ext = None\<rparr>"

lemma work_sample_inv:
  "world_inv work_sample" "has_room work_sample 100" "is_alive work_sample (Entity 1 0)"
  "is_alive work_sample (Entity 2 0)" "is_alive work_sample (Entity 3 1)" "next_id work_sample = 4"
  "get_work_state work_sample (Entity 2 0) = Some WReady"
  "get_work_item work_sample (Entity 2 0) =
     Some \<lparr>wi_kind = Distill, wi_target = Entity 1 0, retry_count = 1, max_retries = 2\<rparr>"
  "get_work_lease work_sample (Entity 2 0) = None" "get_work_output work_sample (Entity 2 0) = None"
proof -
  have "store_inv (component_store work_sample)"
    by (auto simp: work_sample_def store_inv_def col_inv_def indexed_def nth_Cons split: nat.splits if_splits)
  then show "world_inv work_sample" by (simp add: world_inv_def work_sample_def)
  show "has_room work_sample 100"
    by (simp add: has_room_def store_len_def work_sample_def column_or_new_def column_new_def)
  show al: "is_alive work_sample (Entity 1 0)" "is_alive work_sample (Entity 2 0)"
    "is_alive work_sample (Entity 3 1)" "next_id work_sample = 4"
    by (simp_all add: is_alive_iff work_sample_def slot_at_def nth_opt_def)
  show "get_work_state work_sample (Entity 2 0) = Some WReady"
    "get_work_item work_sample (Entity 2 0) =
       Some \<lparr>wi_kind = Distill, wi_target = Entity 1 0, retry_count = 1, max_retries = 2\<rparr>"
    "get_work_lease work_sample (Entity 2 0) = None" "get_work_output work_sample (Entity 2 0) = None"
    unfolding typed_get_defs get_component_alive using al
    by (simp_all add: work_sample_def store_get_def column_get_def dense_index_def nth_opt_def)
qed

definition lease_sample :: lease_work where
  "lease_sample = \<lparr>lw_id = [], lw_work_entity = Entity 2 0, lw_lease_generation = 7, lw_attempt = 1,
     lw_cancellation_epoch = 0, lw_expiry = 0\<rparr>"

definition create_sample :: create_work where
  "create_sample = \<lparr>cw_id = [], cw_kind = Distill, cw_target_entity = Entity 1 0, cw_prerequisites = [],
     cw_resource_claim = \<lparr>memory_bytes = 1, compute_units = 1, claim_priority = 1\<rparr>\<rparr>"

text \<open>C8: running a command on a live work item of generation 0 refines the state machine of the item:
  where the machine rejects the command the caller gets its error and nothing is committed; where it
  steps, the command commits, readers of the item see the machine's new view, every other handle and every
  other component type is untouched except what the command staged on the item, and the command's event is the one
  committed.\<close>

theorem work_command_refines:
  fixes w :: "('x, 'a) service_world"
  assumes "world_inv w" and "has_room w 3" and "work_target cmd = Some e" and "egen e = 0" and "is_alive w e"
  shows "case item_step cmd e (work_view_of w e) of
     Panic \<Rightarrow> False
   | Err err \<Rightarrow> run_work cmd w = Err err
   | Ok v \<Rightarrow> \<exists>ev w'. run_work cmd w = Ok (ev, w') \<and> work_view_of w' e = v \<and> world_inv w' \<and>
       (\<forall>a. is_alive w' a = is_alive w a) \<and> current_epoch w' = current_epoch w + 1 \<and>
       last_committed_events w' = [ev] \<and> (\<forall>t a. a \<noteq> e \<longrightarrow> get_component w' t a = get_component w t a)"
  using run_work_handle[OF assms] by (auto simp: handle_update_def split: outcome.split)

theorem work_command_refines_witness:
  "\<exists>ev w'. run_work (LeaseWork lease_sample) work_sample = Ok (ev, w') \<and>
     get_work_state w' (Entity 2 0) = Some (WLeased 7) \<and>
     get_work_lease w' (Entity 2 0) = Some (lease_component lease_sample)"
proof -
  have "has_room work_sample 3" using has_room_mono[OF work_sample_inv(2)] by simp
  from work_command_refines[OF work_sample_inv(1) this, of "LeaseWork lease_sample" "Entity 2 0"]
  show ?thesis
    using work_sample_inv(4,7) by (auto simp: item_step_def work_view_of_def lease_sample_def)
qed

text \<open>C9: through every history of commands, a live item keeps its invariant (a lease component exactly
  while it is leased, of the same generation and naming the item; retries within their maximum), and once
  it has completed, failed or been cancelled nothing about it changes any more.\<close>

theorem work_history_safe:
  fixes w :: "('x, 'a) service_world"
  assumes "work_run cmds w w'" and "world_inv w" and "is_alive w e" and "item_inv e (work_view_of w e)"
  shows "item_inv e (work_view_of w' e) \<and>
     (\<forall>s. get_work_state w e = Some s \<and> work_is_terminal s \<longrightarrow> work_view_of w' e = work_view_of w e)"
proof (intro conjI allI impI)
  show "item_inv e (work_view_of w' e)"
    using work_run_keeps[OF assms(1-3), of "item_inv e"] assms(4) item_inv_step by blast
  fix s assume s: "get_work_state w e = Some s \<and> work_is_terminal s"
  then have "v_state (work_view_of w e) = Some s" by (simp add: work_view_of_def)
  then show "work_view_of w' e = work_view_of w e"
    using work_run_keeps[OF assms(1-3), of "\<lambda>v. v = work_view_of w e"] terminal_stuck s by metis
qed

theorem work_history_safe_witness:
  "\<exists>w'. work_run [LeaseWork lease_sample, LeaseWork lease_sample] work_sample w' \<and>
     get_work_state w' (Entity 2 0) = Some (WLeased 7) \<and> item_inv (Entity 2 0) (work_view_of w' (Entity 2 0))"
proof -
  let ?e = "Entity 2 0" and ?l = "LeaseWork lease_sample"
  have room: "has_room work_sample 3" "has_room work_sample 4"
    using has_room_mono[OF work_sample_inv(2)] by simp_all
  have inv: "item_inv ?e (work_view_of work_sample ?e)"
    by (simp add: item_inv_def work_view_of_def work_sample_inv word_le_nat_alt)
  have tgt: "work_target ?l = Some ?e" by (simp add: lease_sample_def)
  have l: "item_step ?l ?e (work_view_of work_sample ?e) = Ok (item_effect ?l (work_view_of work_sample ?e))"
    by (simp add: item_step_def work_view_of_def work_sample_inv)
  obtain ev w1 where w1: "run_work ?l work_sample = Ok (ev, w1)"
    "work_view_of w1 ?e = item_effect ?l (work_view_of work_sample ?e)" "is_alive w1 ?e"
    using run_work_handle[OF work_sample_inv(1) room(1) tgt _ work_sample_inv(4)] l work_sample_inv(4)
    by (auto simp: handle_update_def)
  have s1: "v_state (work_view_of w1 ?e) = Some (WLeased 7)" using w1(2) by (simp add: lease_sample_def)
  then have "run_work ?l w1 = Err (InvalidTransition 2 (WLeased 7) ''Leased'')"
    using preflight_guard(1)[OF tgt, of w1] w1(3) by (simp add: run_work_def lease_sample_def)
  then have run: "work_run [?l, ?l] work_sample w1"
    using run_ok[OF room(2) w1(1) run_rejected] by simp
  have "get_work_state w1 ?e = Some (WLeased 7)" using s1 by (simp add: work_view_of_def)
  then show ?thesis
    using run work_history_safe[OF run work_sample_inv(1,4) inv] by blast
qed

text \<open>Creating a work item succeeds exactly when its target is alive. It takes a fresh handle, on which readers
  find the item, the state pending, the resource claim and the prerequisites, leaves all other handles as they
  are and commits one event.\<close>

theorem create_work_correct:
  fixes w :: "('x, 'a) service_world"
  assumes "world_inv w" and "has_room w 4"
  shows "if is_alive w (cw_target_entity c)
     then \<exists>w'. run_work (CreateWork c) w = Ok (create_event c (Entity (next_id w) 0), w') \<and>
       work_created c (Entity (next_id w) 0) w w'
     else run_work (CreateWork c) w = Err (EntityNotFound (eid (cw_target_entity c)))"
  using run_create[OF assms] by simp

theorem create_work_correct_witness:
  "\<exists>w'. run_work (CreateWork create_sample) work_sample = Ok (create_event create_sample (Entity 4 0), w') \<and>
     get_work_state w' (Entity 4 0) = Some WPending"
proof -
  have "has_room work_sample 4" using has_room_mono[OF work_sample_inv(2)] by simp
  from create_work_correct[OF work_sample_inv(1) this, of create_sample]
  show ?thesis using work_sample_inv(3,6) by (auto simp: create_sample_def work_created_def)
qed

text \<open>An item created by these commands is never leased, completed or failed by them: through every
  history after its creation it is pending or cancelled, since no command makes an item ready. Nor is it
  ever retried, since it is created with no retries.\<close>

theorem unadmitted_work_never_runs:
  fixes w :: "('x, 'a) service_world"
  assumes "world_inv w" and "has_room w 4" and "run_work (CreateWork c) w = Ok (ev, w1)" and "work_run cmds w1 w'"
  shows "(get_work_state w' (Entity (next_id w) 0) = Some WPending \<or>
      get_work_state w' (Entity (next_id w) 0) = Some WCancelled) \<and>
     get_work_item w' (Entity (next_id w) 0) = Some (created_item c)"
proof -
  let ?e = "Entity (next_id w) 0"
  let ?P = "\<lambda>v. (v_state v = Some WPending \<or> v_state v = Some WCancelled) \<and> v_item v = Some (created_item c)"
  have "is_alive w (cw_target_entity c)" using run_create(2)[OF assms(1,2)] assms(3) by fastforce
  then have cr: "work_created c ?e w w1" using run_create(1)[OF assms(1,2)] assms(3) by fastforce
  have "?P (work_view_of w' ?e)"
  proof (rule work_run_keeps[OF assms(4)])
    show "world_inv w1" "is_alive w1 ?e" "?P (work_view_of w1 ?e)"
      using cr by (simp_all add: work_created_def work_view_of_def)
    fix cmd v v' assume v: "?P v" and t: "work_target cmd = Some ?e" and s: "item_step cmd ?e v = Ok v'"
    have "v_state v' = Some WCancelled" using unadmitted_step v t s by blast
    moreover have "v_item v' = v_item v"
      using s t by (cases rule: item_step_cases) (use v in \<open>auto\<close>)
    ultimately show "?P v'" using v by simp
  qed
  then show ?thesis by (simp add: work_view_of_def)
qed

theorem unadmitted_work_never_runs_witness:
  "\<exists>ev w1. run_work (CreateWork create_sample) work_sample = Ok (ev, w1) \<and>
     get_work_item w1 (Entity 4 0) = Some (created_item create_sample)"
proof -
  have room: "has_room work_sample 4" using has_room_mono[OF work_sample_inv(2)] by simp
  obtain ev w1 where w1: "run_work (CreateWork create_sample) work_sample = Ok (ev, w1)"
    using run_create(1)[OF work_sample_inv(1) room, of create_sample] work_sample_inv(3)
    by (auto simp: create_sample_def)
  then show ?thesis
    using unadmitted_work_never_runs[OF work_sample_inv(1) room w1, of "[]" w1] work_sample_inv(6) by simp
qed

text \<open>A live work item in a reused slot is out of reach: since the preflights look for its id with generation
  0, every command on its handle is answered with "entity not found".\<close>

theorem reused_slot_work_unreachable:
  fixes w :: "('x, 'a) service_world"
  assumes "is_alive w e" and "egen e \<noteq> 0" and "work_target cmd = Some e"
  shows "run_work cmd w = Err (EntityNotFound (eid e))"
proof -
  have "\<not> is_alive w (Entity (eid e) 0)" using is_alive_inj[OF assms(1), of "Entity (eid e) 0"] assms(2) entity.sel by metis
  then show ?thesis using preflight_guard(2)[OF assms(3), of w] by (simp add: run_work_def)
qed

theorem reused_slot_work_unreachable_witness:
  "run_work (CancelWork \<lparr>xw_id = [], xw_work_entity = Entity 3 1\<rparr>) work_sample = Err (EntityNotFound 3)"
  using reused_slot_work_unreachable[OF work_sample_inv(5), of "CancelWork \<lparr>xw_id = [], xw_work_entity = Entity 3 1\<rparr>"]
  by simp

text \<open>The event of a creation cannot be replayed: the payload holds the handle as an array of id and
  generation, the replay expects a number.\<close>

theorem created_event_not_replayable:
  "replay_work_created dbg w (create_event c e) = Err (MissingField ''work_entity'')"
  by (simp add: replay_work_created_def create_event_def need_def field_def json_of_entity_def)

end
