(* ===== verification/Lifecycle.thy ===== *)
theory Lifecycle
  imports Service_Types
begin

text \<open>
  The transition guards of \<open>lifecycle.rs\<close> (sessions, inference phases, teardown) and of
  \<open>ModelLifecycle\<close> in \<open>residency.rs\<close>, and what can be reached along them.
\<close>

subsection \<open>States and predicates\<close>

datatype inference_phase = AwaitingInput | Prefill | Decode | ToolWait | Compaction | OutputFinalization

datatype teardown_state = TActive | TQuiescing | TReleasing | TReleased

datatype artifact_lifecycle = ArtDiscovered | ArtValidated | ArtLoaded | ArtInvalid

definition session_is_terminal :: "session_lifecycle \<Rightarrow> bool" where
  "session_is_terminal s = (s = Released)"

definition session_is_releasing :: "session_lifecycle \<Rightarrow> bool" where
  "session_is_releasing s = (s = Releasing \<or> s = Quiescing)"

definition is_generating :: "inference_phase \<Rightarrow> bool" where
  "is_generating p = (p = Prefill \<or> p = Decode)"

definition teardown_is_terminal :: "teardown_state \<Rightarrow> bool" where
  "teardown_is_terminal s = (s = TReleased)"

definition is_usable :: "artifact_lifecycle \<Rightarrow> bool" where
  "is_usable a = (a = ArtValidated \<or> a = ArtLoaded)"

definition is_available :: "device_lifecycle \<Rightarrow> bool" where
  "is_available d = (d = DevReady)"

definition is_resident :: "residency_lifecycle \<Rightarrow> bool" where
  "is_resident r = (r = Resident)"

datatype lifecycle_error = InvalidSessionTransition session_lifecycle session_lifecycle
  | InvalidPhaseTransition inference_phase inference_phase
  | InvalidTeardownTransition teardown_state teardown_state

subsection \<open>Guards\<close>

text \<open>The \<open>match\<close> of \<open>SessionLifecycle::can_transition_to\<close>; its last two arms are the guarded one and
  the default.\<close>

definition session_allowed :: "session_lifecycle \<Rightarrow> session_lifecycle \<Rightarrow> bool" where
  "session_allowed s target = (case (s, target) of
       (Created, Admitted) \<Rightarrow> True
     | (Admitted, Active) \<Rightarrow> True
     | (Active, Quiescing) \<Rightarrow> True
     | (Active, Saving) \<Rightarrow> True
     | (Quiescing, Saving) \<Rightarrow> True
     | (Quiescing, Releasing) \<Rightarrow> True
     | (Saving, Completed) \<Rightarrow> True
     | (Saving, Active) \<Rightarrow> True
     | (Completed, Releasing) \<Rightarrow> True
     | (Releasing, Released) \<Rightarrow> True
     | (Failed, Releasing) \<Rightarrow> True
     | _ \<Rightarrow> target = Failed \<and> \<not> session_is_terminal s \<and> s \<noteq> Completed \<and> s \<noteq> Releasing)"

definition session_can_transition :: "session_lifecycle \<Rightarrow> session_lifecycle \<Rightarrow> (lifecycle_error, unit) outcome" where
  "session_can_transition s target =
     (if session_allowed s target then Ok () else Err (InvalidSessionTransition s target))"

definition phase_allowed :: "inference_phase \<Rightarrow> inference_phase \<Rightarrow> bool" where
  "phase_allowed p target = (case (p, target) of
       (AwaitingInput, Prefill) \<Rightarrow> True
     | (Prefill, Decode) \<Rightarrow> True
     | (Decode, Decode) \<Rightarrow> True
     | (Decode, ToolWait) \<Rightarrow> True
     | (Decode, OutputFinalization) \<Rightarrow> True
     | (ToolWait, AwaitingInput) \<Rightarrow> True
     | (Decode, Compaction) \<Rightarrow> True
     | (Compaction, Decode) \<Rightarrow> True
     | (OutputFinalization, AwaitingInput) \<Rightarrow> True
     | _ \<Rightarrow> False)"

definition phase_can_transition :: "inference_phase \<Rightarrow> inference_phase \<Rightarrow> (lifecycle_error, unit) outcome" where
  "phase_can_transition p target =
     (if phase_allowed p target then Ok () else Err (InvalidPhaseTransition p target))"

fun teardown_allowed :: "teardown_state \<Rightarrow> teardown_state \<Rightarrow> bool" where
  "teardown_allowed TActive TQuiescing = True"
| "teardown_allowed TQuiescing TReleasing = True"
| "teardown_allowed TReleasing TReleased = True"
| "teardown_allowed _ _ = False"

definition teardown_can_transition :: "teardown_state \<Rightarrow> teardown_state \<Rightarrow> (lifecycle_error, unit) outcome" where
  "teardown_can_transition s target =
     (if teardown_allowed s target then Ok () else Err (InvalidTeardownTransition s target))"

fun model_can_transition :: "model_lifecycle \<Rightarrow> model_lifecycle \<Rightarrow> bool" where
  "model_can_transition ModelCreated ModelValidated = True"
| "model_can_transition ModelValidated ModelDeployable = True"
| "model_can_transition ModelDeployable ModelDeprecated = True"
| "model_can_transition ModelDeprecated ModelRemoved = True"
| "model_can_transition _ _ = False"

subsection \<open>Reachability\<close>

text \<open>
  The stages of a session. \<open>Active\<close>, \<open>Quiescing\<close> and \<open>Saving\<close> lead into each other and share one
  stage, as do the two outcomes.
\<close>

fun session_stage :: "session_lifecycle \<Rightarrow> nat" where
  "session_stage Created = 0"
| "session_stage Admitted = 1"
| "session_stage Active = 2"
| "session_stage Quiescing = 2"
| "session_stage Saving = 2"
| "session_stage Completed = 3"
| "session_stage Failed = 3"
| "session_stage Releasing = 4"
| "session_stage Released = 5"

text \<open>What the guards let a session reach: its own state, \<open>Failed\<close> from the stages before, and every
  later state, except that a failed session never completes nor the other way round.\<close>

definition session_reaches :: "session_lifecycle \<Rightarrow> session_lifecycle \<Rightarrow> bool" where
  "session_reaches s t \<longleftrightarrow> s = t \<or> session_stage s < session_stage t \<or>
     (session_stage s = 2 \<and> session_stage t = 2)"

lemma session_step_reaches: "session_allowed s t \<Longrightarrow> session_reaches s t"
  by (cases s; cases t) (simp_all add: session_reaches_def session_allowed_def session_is_terminal_def)

lemma session_reaches_trans: "session_reaches r s \<Longrightarrow> session_reaches s t \<Longrightarrow> session_reaches r t"
  by (auto simp: session_reaches_def)

lemma session_path:
  "session_allowed\<^sup>*\<^sup>* Created Admitted" "session_allowed\<^sup>*\<^sup>* Admitted Active"
  "session_allowed\<^sup>*\<^sup>* Active Quiescing" "session_allowed\<^sup>*\<^sup>* Quiescing Saving"
  "session_allowed\<^sup>*\<^sup>* Saving Active" "session_allowed\<^sup>*\<^sup>* Saving Completed"
  "session_allowed\<^sup>*\<^sup>* Saving Failed" "session_allowed\<^sup>*\<^sup>* Completed Releasing"
  "session_allowed\<^sup>*\<^sup>* Failed Releasing" "session_allowed\<^sup>*\<^sup>* Releasing Released"
  by (rule r_into_rtranclp, simp add: session_allowed_def session_is_terminal_def)+

lemma session_paths:
  "session_allowed\<^sup>*\<^sup>* Active Saving" "session_allowed\<^sup>*\<^sup>* Quiescing Active"
  "session_allowed\<^sup>*\<^sup>* Saving Quiescing" "session_allowed\<^sup>*\<^sup>* Saving Releasing"
  using session_path by (blast intro: rtranclp_trans)+

lemma session_reaches_path:
  assumes "session_reaches s t"
  shows "session_allowed\<^sup>*\<^sup>* s t"
proof -
  have live: "session_allowed\<^sup>*\<^sup>* x Saving \<and> session_allowed\<^sup>*\<^sup>* Saving x" if "session_stage x = 2" for x
    using that session_path session_paths by (cases x) auto
  have down: "session_allowed\<^sup>*\<^sup>* x Saving" if "session_stage x \<le> 2" for x
    using that session_path session_paths by (cases x) (auto intro: rtranclp_trans)
  have up: "session_allowed\<^sup>*\<^sup>* Saving x" if "2 \<le> session_stage x" for x
    using that session_path session_paths by (cases x) (auto intro: rtranclp_trans)
  show ?thesis
  proof (cases "session_stage s \<le> 2 \<and> 2 \<le> session_stage t")
    case True
    then show ?thesis using down up rtranclp_trans[of session_allowed s Saving t] by blast
  next
    case False
    then show ?thesis
      using assms session_path by (cases s; cases t) (auto simp: session_reaches_def intro: rtranclp_trans)
  qed
qed

lemma session_closed: "session_allowed\<^sup>*\<^sup>* s t \<Longrightarrow> session_reaches s t"
proof (induction rule: rtranclp_induct)
  case base
  show ?case by (simp add: session_reaches_def)
next
  case (step y z)
  then show ?case using session_reaches_trans session_step_reaches by blast
qed

text \<open>Inference phases lead around a cycle, so each reaches each.\<close>

lemma phase_paths: "phase_allowed\<^sup>*\<^sup>* p Decode" "phase_allowed\<^sup>*\<^sup>* Decode p"
proof -
  have s: "phase_allowed\<^sup>*\<^sup>* AwaitingInput Prefill" "phase_allowed\<^sup>*\<^sup>* Prefill Decode"
    "phase_allowed\<^sup>*\<^sup>* ToolWait AwaitingInput" "phase_allowed\<^sup>*\<^sup>* Compaction Decode"
    "phase_allowed\<^sup>*\<^sup>* OutputFinalization AwaitingInput" "phase_allowed\<^sup>*\<^sup>* Decode ToolWait"
    "phase_allowed\<^sup>*\<^sup>* Decode Compaction" "phase_allowed\<^sup>*\<^sup>* Decode OutputFinalization"
    by (rule r_into_rtranclp, simp add: phase_allowed_def)+
  show "phase_allowed\<^sup>*\<^sup>* p Decode" "phase_allowed\<^sup>*\<^sup>* Decode p"
    using s by (cases p; blast intro: rtranclp_trans)+
qed

fun teardown_rank :: "teardown_state \<Rightarrow> nat" where
  "teardown_rank TActive = 0"
| "teardown_rank TQuiescing = 1"
| "teardown_rank TReleasing = 2"
| "teardown_rank TReleased = 3"

fun model_rank :: "model_lifecycle \<Rightarrow> nat" where
  "model_rank ModelCreated = 0"
| "model_rank ModelValidated = 1"
| "model_rank ModelDeployable = 2"
| "model_rank ModelDeprecated = 3"
| "model_rank ModelRemoved = 4"

text \<open>A chain: an injective rank that every step advances by one.\<close>

lemma chain_reaches:
  fixes rank :: "'s \<Rightarrow> nat"
  assumes step: "\<And>s t. R s t \<longleftrightarrow> rank t = rank s + 1" and inj: "\<And>s t. rank s = rank t \<Longrightarrow> s = t"
    and down: "\<And>t n. n < rank t \<Longrightarrow> \<exists>s. rank s = n"
  shows "R\<^sup>*\<^sup>* s t \<longleftrightarrow> rank s \<le> rank t"
proof
  show "R\<^sup>*\<^sup>* s t \<Longrightarrow> rank s \<le> rank t"
    by (induction rule: rtranclp_induct) (simp_all add: step)
  show "rank s \<le> rank t \<Longrightarrow> R\<^sup>*\<^sup>* s t"
  proof (induction "rank t" arbitrary: t)
    case 0
    then show ?case using inj[of s t] by simp
  next
    case (Suc n)
    show ?case
    proof (cases "rank s = rank t")
      case True
      then show ?thesis using inj[of s t] by simp
    next
      case False
      obtain u where u: "rank u = n" using down[of n t] Suc.hyps(2) by auto
      then have "R\<^sup>*\<^sup>* s u" using Suc.hyps(1)[of u] Suc.hyps(2) Suc.prems False by simp
      moreover have "R u t" using u Suc.hyps(2) step by simp
      ultimately show ?thesis by simp
    qed
  qed
qed

lemma teardown_step: "teardown_allowed s t \<longleftrightarrow> teardown_rank t = teardown_rank s + 1"
  by (cases s; cases t) simp_all

lemma model_step: "model_can_transition s t \<longleftrightarrow> model_rank t = model_rank s + 1"
  by (cases s; cases t) simp_all

lemma teardown_inj: "teardown_rank s = teardown_rank t \<Longrightarrow> s = t"
  by (cases s; cases t) simp_all

lemma model_inj: "model_rank s = model_rank t \<Longrightarrow> s = t"
  by (cases s; cases t) simp_all

lemma rank_below:
  "n < teardown_rank t \<Longrightarrow> \<exists>s. teardown_rank s = n" "n < model_rank m \<Longrightarrow> \<exists>s. model_rank s = n"
proof -
  have "n = 0 \<or> n = 1 \<or> n = 2" if "n < teardown_rank t" using that by (cases t) auto
  then show "n < teardown_rank t \<Longrightarrow> \<exists>s. teardown_rank s = n" using teardown_rank.simps(1-3) by metis
  have "n = 0 \<or> n = 1 \<or> n = 2 \<or> n = 3" if "n < model_rank m" using that by (cases m) auto
  then show "n < model_rank m \<Longrightarrow> \<exists>s. model_rank s = n" using model_rank.simps(1-4) by metis
qed

text \<open>What the guards let each lifecycle reach, exactly. A session reaches its own state, every state of
  a later stage, and the three running states from each other: every session can be released, a released
  one stays so, and neither outcome leads back to a running state. Inference phases all reach each other.
  Teardown and model lifecycles are chains.\<close>

theorem lifecycle_reachability:
  "(session_allowed\<^sup>*\<^sup>* s s' \<longleftrightarrow> session_reaches s s') \<and> phase_allowed\<^sup>*\<^sup>* p p' \<and>
   (teardown_allowed\<^sup>*\<^sup>* t t' \<longleftrightarrow> teardown_rank t \<le> teardown_rank t') \<and>
   (model_can_transition\<^sup>*\<^sup>* m m' \<longleftrightarrow> model_rank m \<le> model_rank m')"
proof (intro conjI)
  show "session_allowed\<^sup>*\<^sup>* s s' \<longleftrightarrow> session_reaches s s'" using session_closed session_reaches_path by blast
  show "phase_allowed\<^sup>*\<^sup>* p p'" using phase_paths by (blast intro: rtranclp_trans)
  show "teardown_allowed\<^sup>*\<^sup>* t t' \<longleftrightarrow> teardown_rank t \<le> teardown_rank t'"
    by (rule chain_reaches[OF teardown_step teardown_inj rank_below(1)])
  show "model_can_transition\<^sup>*\<^sup>* m m' \<longleftrightarrow> model_rank m \<le> model_rank m'"
    by (rule chain_reaches[OF model_step model_inj rank_below(2)])
qed

end
