(* ===== verification/Sessions.thy ===== *)
theory Sessions
  imports Lifecycle
begin

text \<open>
  Sessions (\<open>session.rs\<close>): admission of a session for a set of models and devices, lifecycle
  transitions, and the replay of an admission.
\<close>

subsection \<open>Errors and commands\<close>

datatype session_error = SchemaError "string \<times> schema_error" | NoModels | NoDevices | ModelNotFound nat
  | ModelNotAdmissible nat | DeviceNotFound nat | DeviceNotReady nat | SessionNotFound nat
  | InvalidTransition lifecycle_error | CommitFailed txn_error | MissingSessionId

record create_session =
  cs_id :: message_id
  cs_config :: session_config
  cs_models :: "nat list"
  cs_devices :: "nat list"

record transition_session =
  ts_id :: message_id
  ts_session :: entity
  ts_target :: session_lifecycle

definition validate_session_schemas :: "schema_registry \<Rightarrow> (string \<times> schema_error, unit) outcome" where
  "validate_session_schemas reg = verify_all reg
     [(''SessionConfig schema'', T_session_config, 13), (''SessionModels schema'', T_session_models, 14),
      (''SessionDevices schema'', T_session_devices, 15), (''SessionLifecycle schema'', T_session_lifecycle, 16),
      (''ResidencyModelRef schema'', T_residency_model_ref, 17)]"

subsection \<open>Preflight of an admission\<close>

definition check_model :: "('x, 'a) service_world \<Rightarrow> nat \<Rightarrow> (session_error, unit) outcome" where
  "check_model w model =
     (let entity = Entity model 0 in
      if \<not> has_entity w entity then Err (ModelNotFound model)
      else if entity_kind_of w entity \<noteq> Some Model then Err (ModelNotFound model)
      else case get_model_lifecycle w entity of
        Some l \<Rightarrow> if \<not> (l = ModelDeployable \<or> l = ModelCreated \<or> l = ModelValidated)
          then Err (ModelNotAdmissible model) else Ok ()
      | None \<Rightarrow> Ok ())"

definition check_device :: "('x, 'a) service_world \<Rightarrow> nat \<Rightarrow> (session_error, unit) outcome" where
  "check_device w device =
     (let entity = Entity device 0 in
      if \<not> has_entity w entity then Err (DeviceNotFound device)
      else if entity_kind_of w entity \<noteq> Some Device then Err (DeviceNotFound device)
      else case get_device_lifecycle w entity of
        Some l \<Rightarrow> if \<not> is_available l then Err (DeviceNotReady device) else Ok ()
      | None \<Rightarrow> Err (DeviceNotReady device))"

text \<open>The body of the loop of \<open>find_residency\<close>, which returns the first entity that passes it.\<close>

definition residency_matches :: "('x, 'a) service_world \<Rightarrow> nat \<Rightarrow> nat \<Rightarrow> entity \<Rightarrow> bool" where
  "residency_matches w model device e =
     (case get_residency_device_ref w e of
        None \<Rightarrow> False
      | Some dev_ref \<Rightarrow> if rdr_device_id dev_ref \<noteq> device then False
          else case get_residency_lifecycle w e of
            None \<Rightarrow> False
          | Some l \<Rightarrow> if \<not> (l = Resident \<or> l = Binding) then False
              else case get_residency_model_ref w e of
                None \<Rightarrow> False
              | Some model_ref \<Rightarrow> rmr_model_id model_ref = model)"

definition find_residency :: "('x, 'a) service_world \<Rightarrow> nat \<Rightarrow> nat \<Rightarrow> nat option" where
  "find_residency w model device =
     map_option eid (find (residency_matches w model device) (entities_of_kind Residency w))"

definition check_residency :: "('x, 'a) service_world \<Rightarrow> nat list \<Rightarrow> nat \<Rightarrow> (session_error, unit) outcome" where
  "check_residency w devices model =
     (if \<not> list_ex (\<lambda>device. find_residency w model device \<noteq> None) devices
      then Err (ModelNotAdmissible model) else Ok ())"

definition session_preflight :: "create_session \<Rightarrow> ('x, 'a) service_world \<Rightarrow> schema_registry \<Rightarrow>
    (session_error, unit) outcome" where
  "session_preflight cmd w reg =
     and_then (map_err SchemaError (validate_session_schemas reg)) (\<lambda>_.
       if cs_models cmd = [] then Err NoModels
       else if cs_devices cmd = [] then Err NoDevices
       else and_then (try_each (check_model w) (cs_models cmd)) (\<lambda>_.
         and_then (try_each (check_device w) (cs_devices cmd)) (\<lambda>_.
           try_each (check_residency w (cs_devices cmd)) (cs_models cmd))))"

subsection \<open>Admission\<close>

definition session_matches :: "('x, 'a) service_world \<Rightarrow> nat list \<Rightarrow> nat list \<Rightarrow> entity \<Rightarrow> bool" where
  "session_matches w models devices e =
     (case get_session_models w (Entity (eid e) 0) of
        None \<Rightarrow> False
      | Some ms \<Rightarrow> if length ms \<noteq> length models then False
          else if \<not> list_all (\<lambda>m. m \<in> set ms) models then False
          else case get_session_devices w (Entity (eid e) 0) of
            None \<Rightarrow> False
          | Some ds \<Rightarrow> if length ds \<noteq> length devices then False
              else if \<not> list_all (\<lambda>d. d \<in> set ds) devices then False else True)"

definition find_existing_session :: "('x, 'a) service_world \<Rightarrow> nat list \<Rightarrow> nat list \<Rightarrow> nat option" where
  "find_existing_session w models devices =
     map_option eid (find (session_matches w models devices) (entities_of_kind Session w))"

definition idempotent_event :: "message_id \<Rightarrow> nat \<Rightarrow> domain_event" where
  "idempotent_event mid existing = \<lparr>ev_id = mid, ev_kind = ''session_admitted'', ev_entity_id = Some existing,
     ev_payload = JObj [(''session_id'', JNum existing), (''idempotent'', JBool True)]\<rparr>"

definition admitted_event :: "create_session \<Rightarrow> nat \<Rightarrow> domain_event" where
  "admitted_event cmd i = \<lparr>ev_id = cs_id cmd, ev_kind = ''session_admitted'', ev_entity_id = Some i,
     ev_payload = JObj [(''session_id'', JNum i), (''models'', JArr (map JNum (cs_models cmd))),
       (''devices'', JArr (map JNum (cs_devices cmd)))]\<rparr>"

definition readmit_txn :: "create_session \<Rightarrow> nat \<Rightarrow> ('x, 'a) service_world \<Rightarrow> ('x, 'a) service_txn" where
  "readmit_txn cmd existing w = emit_event (idempotent_event (cs_id cmd) existing)
     (put_value (Entity existing 0) (VSessionConfig (cs_config cmd)) (txn_new w))"

definition admit_txn :: "create_session \<Rightarrow> entity \<Rightarrow> ('x, 'a) service_world \<Rightarrow> ('x, 'a) service_txn" where
  "admit_txn cmd e w =
     (let txn1 = stage_spawn e Session (txn_new w);
          txn2 = put_value e (VSessionConfig (cs_config cmd)) txn1;
          txn3 = put_value e (VSessionModels (cs_models cmd)) txn2;
          txn4 = put_value e (VSessionDevices (cs_devices cmd)) txn3;
          txn5 = put_value e (VSessionLifecycle Created) txn4
      in emit_event (admitted_event cmd (eid e)) txn5)"

definition commit_session :: "('x, 'a) service_txn \<Rightarrow> domain_event \<Rightarrow> ('x, 'a) service_world \<Rightarrow>
    (session_error, (nat \<times> domain_event) \<times> ('x, 'a) service_world) outcome" where
  "commit_session txn ev w =
     and_then (map_err CommitFailed (transit False txn w)) (\<lambda>(epoch, w'). Ok ((epoch, ev), w'))"

definition create_session_execute :: "create_session \<Rightarrow> schema_registry \<Rightarrow> ('x, 'a) service_world \<Rightarrow>
    (session_error, (nat \<times> domain_event) \<times> ('x, 'a) service_world) outcome" where
  "create_session_execute cmd reg w =
     and_then (session_preflight cmd w reg) (\<lambda>_.
       case find_existing_session w (cs_models cmd) (cs_devices cmd) of
         Some existing \<Rightarrow> commit_session (readmit_txn cmd existing w) (idempotent_event (cs_id cmd) existing) w
       | None \<Rightarrow>
           let session_id = Entity (next_id w) 0 in
           commit_session (admit_txn cmd session_id w) (admitted_event cmd (eid session_id)) w)"

subsection \<open>Transitions\<close>

fun session_name :: "session_lifecycle \<Rightarrow> string" where
  "session_name Created = ''created''"
| "session_name Admitted = ''admitted''"
| "session_name Active = ''active''"
| "session_name Quiescing = ''quiescing''"
| "session_name Saving = ''saving''"
| "session_name Completed = ''completed''"
| "session_name Failed = ''failed''"
| "session_name Releasing = ''releasing''"
| "session_name Released = ''released''"

text \<open>The derived \<open>Debug\<close> names.\<close>

fun session_debug :: "session_lifecycle \<Rightarrow> string" where
  "session_debug Created = ''Created''"
| "session_debug Admitted = ''Admitted''"
| "session_debug Active = ''Active''"
| "session_debug Quiescing = ''Quiescing''"
| "session_debug Saving = ''Saving''"
| "session_debug Completed = ''Completed''"
| "session_debug Failed = ''Failed''"
| "session_debug Releasing = ''Releasing''"
| "session_debug Released = ''Released''"

definition transition_event :: "transition_session \<Rightarrow> session_lifecycle \<Rightarrow> domain_event" where
  "transition_event cmd current = \<lparr>ev_id = ts_id cmd, ev_kind = ''session_'' @ session_name (ts_target cmd),
     ev_entity_id = Some (eid (ts_session cmd)),
     ev_payload = JObj [(''session_id'', JNum (eid (ts_session cmd))),
       (''from'', JStr (session_debug current)), (''to'', JStr (session_debug (ts_target cmd)))]\<rparr>"

definition transition_txn :: "transition_session \<Rightarrow> session_lifecycle \<Rightarrow> ('x, 'a) service_world \<Rightarrow>
    ('x, 'a) service_txn" where
  "transition_txn cmd current w = emit_event (transition_event cmd current)
     (put_value (ts_session cmd) (VSessionLifecycle (ts_target cmd)) (txn_new w))"

definition transition_execute :: "transition_session \<Rightarrow> schema_registry \<Rightarrow> ('x, 'a) service_world \<Rightarrow>
    (session_error, (nat \<times> domain_event) \<times> ('x, 'a) service_world) outcome" where
  "transition_execute cmd reg w =
     (let e = ts_session cmd in
      and_then (map_err SchemaError (validate_session_schemas reg)) (\<lambda>_.
        if \<not> has_entity w e then Err (SessionNotFound (eid e))
        else if entity_kind_of w e \<noteq> Some Session then Err (SessionNotFound (eid e))
        else case get_session_lifecycle w e of
          None \<Rightarrow> Err (SessionNotFound (eid e))
        | Some current \<Rightarrow>
            and_then (map_err InvalidTransition (session_can_transition current (ts_target cmd))) (\<lambda>_.
              commit_session (transition_txn cmd current w) (transition_event cmd current) w)))"

subsection \<open>Replay\<close>

definition payload_ids :: "string \<Rightarrow> domain_event \<Rightarrow> nat list" where
  "payload_ids k ev = (case Option.bind (json_get k (ev_payload ev)) as_array of
     Some xs \<Rightarrow> List.map_filter as_u64 xs | None \<Rightarrow> [])"

definition default_config :: session_config where
  "default_config = \<lparr>max_tokens = 4096, max_input_tokens = 2048, max_output_tokens = 2048, batch_size = 1,
     session_priority = 1, deadline_epochs = 100\<rparr>"

definition replay_txn :: "entity \<Rightarrow> domain_event \<Rightarrow> ('x, 'a) service_world \<Rightarrow> ('x, 'a) service_txn" where
  "replay_txn e ev w =
     (let txn1 = (if \<not> has_entity w e then stage_spawn e Session (txn_new w) else txn_new w);
          txn2 = txn_add_component e 13 1 T_session_config (VSessionConfig default_config) txn1;
          txn3 = txn_add_component e 14 1 T_session_models (VSessionModels (payload_ids ''models'' ev)) txn2;
          txn4 = txn_add_component e 15 1 T_session_devices (VSessionDevices (payload_ids ''devices'' ev)) txn3
      in txn_add_component e 16 1 T_session_lifecycle (VSessionLifecycle Created) txn4)"

definition replay_session_admitted :: "('x, 'a) service_world \<Rightarrow> domain_event \<Rightarrow>
    (session_error, nat \<times> ('x, 'a) service_world) outcome" where
  "replay_session_admitted w ev =
     (case (case ev_entity_id ev of Some i \<Rightarrow> Some i
            | None \<Rightarrow> Option.bind (json_get ''session_id'' (ev_payload ev)) as_u64) of
        None \<Rightarrow> Err MissingSessionId
      | Some session_id \<Rightarrow>
          map_err CommitFailed (transit False (replay_txn (Entity session_id 0) ev w) w))"

subsection \<open>What admission requires\<close>

text \<open>The schema \<open>sid\<close> is registered, for the type \<open>t\<close> or without a type.\<close>

definition schema_bound :: "schema_registry \<Rightarrow> type_id \<Rightarrow> nat \<Rightarrow> bool" where
  "schema_bound reg t sid \<longleftrightarrow> (\<exists>entry. reg sid = Some entry \<and> (se_type_id entry = None \<or> se_type_id entry = Some t))"

definition session_schemas :: "schema_registry \<Rightarrow> bool" where
  "session_schemas reg \<longleftrightarrow> schema_bound reg T_session_config 13 \<and> schema_bound reg T_session_models 14 \<and>
     schema_bound reg T_session_devices 15 \<and> schema_bound reg T_session_lifecycle 16 \<and>
     schema_bound reg T_residency_model_ref 17"

definition usable_model :: "('x, 'a) service_world \<Rightarrow> nat \<Rightarrow> bool" where
  "usable_model w m \<longleftrightarrow> is_alive w (Entity m 0) \<and> entity_kind_of w (Entity m 0) = Some Model \<and>
     get_model_lifecycle w (Entity m 0) \<notin> {Some ModelDeprecated, Some ModelRemoved}"

definition ready_device :: "('x, 'a) service_world \<Rightarrow> nat \<Rightarrow> bool" where
  "ready_device w d \<longleftrightarrow> is_alive w (Entity d 0) \<and> entity_kind_of w (Entity d 0) = Some Device \<and>
     get_device_lifecycle w (Entity d 0) = Some DevReady"

text \<open>A live residency entity places the model on the device.\<close>

definition placed :: "('x, 'a) service_world \<Rightarrow> nat \<Rightarrow> nat \<Rightarrow> bool" where
  "placed w m d \<longleftrightarrow> (\<exists>e r l q. is_alive w e \<and> entity_kind_of w e = Some Residency \<and>
     get_residency_device_ref w e = Some r \<and> rdr_device_id r = d \<and>
     get_residency_lifecycle w e = Some l \<and> l \<in> {Resident, Binding} \<and>
     get_residency_model_ref w e = Some q \<and> rmr_model_id q = m)"

definition admissible :: "create_session \<Rightarrow> ('x, 'a) service_world \<Rightarrow> schema_registry \<Rightarrow> bool" where
  "admissible cmd w reg \<longleftrightarrow> session_schemas reg \<and> cs_models cmd \<noteq> [] \<and> cs_devices cmd \<noteq> [] \<and>
     (\<forall>m \<in> set (cs_models cmd). usable_model w m) \<and> (\<forall>d \<in> set (cs_devices cmd). ready_device w d) \<and>
     (\<forall>m \<in> set (cs_models cmd). \<exists>d \<in> set (cs_devices cmd). placed w m d)"

lemma validate_session_schemas_Ok: "validate_session_schemas reg = Ok () \<longleftrightarrow> session_schemas reg"
  by (simp add: validate_session_schemas_def verify_all_Ok verify_type_Ok session_schemas_def schema_bound_def)

lemma check_model_Ok: "check_model w m = Ok () \<longleftrightarrow> usable_model w m"
proof (cases "get_model_lifecycle w (Entity m 0)")
  case (Some l)
  then show ?thesis by (cases l) (simp_all add: check_model_def usable_model_def has_entity_def Let_def)
qed (simp add: check_model_def usable_model_def has_entity_def Let_def)

lemma check_device_Ok: "check_device w d = Ok () \<longleftrightarrow> ready_device w d"
  by (auto simp: check_device_def ready_device_def has_entity_def is_available_def Let_def split: option.split)

lemma entities_of_kind_iff:
  "e \<in> set (entities_of_kind k w) \<longleftrightarrow> is_alive w e \<and> entity_kind_of w e = Some k"
  by (auto simp: set_entities_of_kind entity_kind_of_def is_alive_def split: if_splits)

lemma find_residency_Some: "find_residency w m d \<noteq> None \<longleftrightarrow> placed w m d"
proof -
  have "residency_matches w m d e \<longleftrightarrow> (\<exists>r l q. get_residency_device_ref w e = Some r \<and> rdr_device_id r = d \<and>
     get_residency_lifecycle w e = Some l \<and> l \<in> {Resident, Binding} \<and>
     get_residency_model_ref w e = Some q \<and> rmr_model_id q = m)" for e
    by (auto simp: residency_matches_def split: option.split)
  then show ?thesis
    by (auto simp: find_residency_def placed_def find_None_iff entities_of_kind_iff)
qed

lemma session_preflight_Ok: "session_preflight cmd w reg = Ok () \<longleftrightarrow> admissible cmd w reg"
proof -
  have "check_residency w ds m = Ok () \<longleftrightarrow> (\<exists>d \<in> set ds. placed w m d)" for ds m
    using find_residency_Some[of w m] by (simp add: check_residency_def list_ex_iff)
  then show ?thesis
    by (auto simp: session_preflight_def admissible_def validate_session_schemas_Ok try_each_Ok
        check_model_Ok check_device_Ok)
qed

subsection \<open>What the transactions do\<close>

text \<open>What a reader of the world sees of a session.\<close>

record session_view =
  sv_config :: "session_config option"
  sv_models :: "nat list option"
  sv_devices :: "nat list option"
  sv_lifecycle :: "session_lifecycle option"

definition session_view_of :: "('x comp_value, 'm) world_scheme \<Rightarrow> entity \<Rightarrow> session_view" where
  "session_view_of w e = \<lparr>sv_config = get_session_config w e, sv_models = get_session_models w e,
     sv_devices = get_session_devices w e, sv_lifecycle = get_session_lifecycle w e\<rparr>"

lemma commit_session_Ok:
  "commit_session txn ev w = Ok ((n, ev'), w') \<longleftrightarrow> transit False txn w = Ok (n, w') \<and> ev' = ev"
  by (auto simp: commit_session_def)

lemma session_view_frame:
  assumes "\<forall>t. get_component w' t a = get_component w t a"
  shows "session_view_of w' a = session_view_of w a"
  using assms by (simp add: session_view_of_def typed_get_defs)

lemma readmit_effect:
  fixes w :: "('x, 'a) service_world"
  assumes inv: "world_inv w" and room: "has_room w 1" and al: "is_alive w (Entity i 0)"
  shows "\<exists>w'. transit False (readmit_txn cmd i w) w = Ok (current_epoch w + 1, w') \<and>
     handle_update (Entity i 0) (readmit_txn cmd i w) w w' \<and>
     session_view_of w' (Entity i 0) = (session_view_of w (Entity i 0))\<lparr>sv_config := Some (cs_config cmd)\<rparr>"
proof -
  let ?txn = "readmit_txn cmd i w"
  note ev = readmit_txn_def staging_defs
  have h: "on_handle (Entity i 0) ?txn" "expected_epoch ?txn = current_epoch w"
    "length (inserts ?txn) + length (removes ?txn) = 1"
    by (auto simp: ev on_handle_def)
  obtain w' where w': "transit False ?txn w = Ok (current_epoch w + 1, w')" "handle_update (Entity i 0) ?txn w w'"
    using on_handle_commits[OF inv h(1,2) al] room h(3) by auto
  have "staged_effect ?txn T_session_config (Entity i 0) = Some (Some (VSessionConfig (cs_config cmd)))"
    "t \<noteq> T_session_config \<Longrightarrow> staged_effect ?txn t (Entity i 0) = None" for t
    by (auto simp: ev staged_defs)
  then have "session_view_of w' (Entity i 0) = (session_view_of w (Entity i 0))\<lparr>sv_config := Some (cs_config cmd)\<rparr>"
    using w'(2) by (simp add: session_view_of_def typed_get_defs handle_update_def)
  then show ?thesis using w' by blast
qed

lemma admit_effect:
  fixes w :: "('x, 'a) service_world"
  assumes inv: "world_inv w" and room: "has_room w 4" and e: "e = Entity (next_id w) 0"
  shows "\<exists>w'. transit False (admit_txn cmd e w) w = Ok (current_epoch w + 1, w') \<and>
     spawn_update e Session (admit_txn cmd e w) w w' \<and>
     session_view_of w' e = \<lparr>sv_config = Some (cs_config cmd), sv_models = Some (cs_models cmd),
       sv_devices = Some (cs_devices cmd), sv_lifecycle = Some Created\<rparr>"
proof -
  let ?txn = "admit_txn cmd e w"
  note ev = admit_txn_def staging_defs Let_def
  have h: "spawns_handle e Session ?txn" "expected_epoch ?txn = current_epoch w" "length (inserts ?txn) = 4"
    by (auto simp: ev spawns_handle_def)
  obtain w' where w': "transit False ?txn w = Ok (current_epoch w + 1, w')" "spawn_update e Session ?txn w w'"
    using spawns_handle_commits[OF inv h(1,2)] next_id_fresh[OF inv] room h(3) e by auto
  have "staged_effect ?txn T_session_config e = Some (Some (VSessionConfig (cs_config cmd)))"
    "staged_effect ?txn T_session_models e = Some (Some (VSessionModels (cs_models cmd)))"
    "staged_effect ?txn T_session_devices e = Some (Some (VSessionDevices (cs_devices cmd)))"
    "staged_effect ?txn T_session_lifecycle e = Some (Some (VSessionLifecycle Created))"
    by (auto simp: ev staged_defs)
  then have "session_view_of w' e = \<lparr>sv_config = Some (cs_config cmd), sv_models = Some (cs_models cmd),
       sv_devices = Some (cs_devices cmd), sv_lifecycle = Some Created\<rparr>"
    using w'(2) by (simp add: session_view_of_def typed_get_defs spawn_update_def)
  then show ?thesis using w' by blast
qed

lemma transition_effect:
  fixes w :: "('x, 'a) service_world"
  assumes inv: "world_inv w" and room: "has_room w 1" and al: "is_alive w (ts_session cmd)"
  shows "\<exists>w'. transit False (transition_txn cmd current w) w = Ok (current_epoch w + 1, w') \<and>
     handle_update (ts_session cmd) (transition_txn cmd current w) w w' \<and>
     session_view_of w' (ts_session cmd) =
       (session_view_of w (ts_session cmd))\<lparr>sv_lifecycle := Some (ts_target cmd)\<rparr>"
proof -
  let ?e = "ts_session cmd" and ?txn = "transition_txn cmd current w"
  note ev = transition_txn_def staging_defs
  have h: "on_handle ?e ?txn" "expected_epoch ?txn = current_epoch w"
    "length (inserts ?txn) + length (removes ?txn) = 1"
    by (auto simp: ev on_handle_def)
  obtain w' where w': "transit False ?txn w = Ok (current_epoch w + 1, w')" "handle_update ?e ?txn w w'"
    using on_handle_commits[OF inv h(1,2) al] room h(3) by auto
  have "staged_effect ?txn T_session_lifecycle ?e = Some (Some (VSessionLifecycle (ts_target cmd)))"
    "t \<noteq> T_session_lifecycle \<Longrightarrow> staged_effect ?txn t ?e = None" for t
    by (auto simp: ev staged_defs)
  then have "session_view_of w' ?e = (session_view_of w ?e)\<lparr>sv_lifecycle := Some (ts_target cmd)\<rparr>"
    using w'(2) by (simp add: session_view_of_def typed_get_defs handle_update_def)
  then show ?thesis using w' by blast
qed

text \<open>An existing session is a live session entity of generation 0 with the models and devices.\<close>

lemma session_matches_iff: "session_matches w ms ds e \<longleftrightarrow>
    (\<exists>ms' ds'. get_session_models w (Entity (eid e) 0) = Some ms' \<and> length ms' = length ms \<and> set ms \<subseteq> set ms' \<and>
       get_session_devices w (Entity (eid e) 0) = Some ds' \<and> length ds' = length ds \<and> set ds \<subseteq> set ds')"
  by (auto simp: session_matches_def list_all_iff split: option.split)

lemma find_existing_alive:
  assumes "find_existing_session w ms ds = Some i"
  shows "is_alive w (Entity i 0)" and "session_matches w ms ds (Entity i 0)"
proof -
  obtain e where e: "session_matches w ms ds e" "eid e = i"
    using assms by (auto simp: find_existing_session_def find_Some_iff)
  then show "session_matches w ms ds (Entity i 0)" by (simp add: session_matches_iff)
  then show "is_alive w (Entity i 0)"
    by (auto simp: session_matches_iff get_session_models_def get_component_alive split: if_splits)
qed

subsection \<open>The result of an admission\<close>

definition readmitted :: "create_session \<Rightarrow> nat \<Rightarrow> ('x, 'a) service_world \<Rightarrow> ('x, 'a) service_world \<Rightarrow> bool" where
  "readmitted cmd i w w' \<longleftrightarrow> world_inv w' \<and> (\<forall>a. is_alive w' a = is_alive w a) \<and>
     session_view_of w' (Entity i 0) = (session_view_of w (Entity i 0))\<lparr>sv_config := Some (cs_config cmd)\<rparr> \<and>
     (\<forall>t a. a \<noteq> Entity i 0 \<longrightarrow> get_component w' t a = get_component w t a) \<and>
     last_committed_events w' = [idempotent_event (cs_id cmd) i]"

definition admitted :: "create_session \<Rightarrow> entity \<Rightarrow> ('x, 'a) service_world \<Rightarrow> ('x, 'a) service_world \<Rightarrow> bool" where
  "admitted cmd e w w' \<longleftrightarrow> world_inv w' \<and> \<not> is_alive w e \<and> (\<forall>a. is_alive w' a \<longleftrightarrow> is_alive w a \<or> a = e) \<and>
     entity_kind_of w' e = Some Session \<and>
     session_view_of w' e = \<lparr>sv_config = Some (cs_config cmd), sv_models = Some (cs_models cmd),
       sv_devices = Some (cs_devices cmd), sv_lifecycle = Some Created\<rparr> \<and>
     (\<forall>t a. is_alive w a \<longrightarrow> get_component w' t a = get_component w t a) \<and>
     last_committed_events w' = [admitted_event cmd (eid e)]"

lemma create_session_result:
  fixes w :: "('x, 'a) service_world"
  assumes inv: "world_inv w" and room: "has_room w 4" and adm: "admissible cmd w reg"
  shows "case find_existing_session w (cs_models cmd) (cs_devices cmd) of
     Some i \<Rightarrow> \<exists>w'. create_session_execute cmd reg w =
         Ok ((current_epoch w + 1, idempotent_event (cs_id cmd) i), w') \<and> readmitted cmd i w w'
   | None \<Rightarrow> \<exists>w'. create_session_execute cmd reg w =
         Ok ((current_epoch w + 1, admitted_event cmd (next_id w)), w') \<and> admitted cmd (Entity (next_id w) 0) w w'"
proof (cases "find_existing_session w (cs_models cmd) (cs_devices cmd)")
  case (Some i)
  have pre: "session_preflight cmd w reg = Ok ()" using adm by (simp add: session_preflight_Ok)
  obtain w' where w': "transit False (readmit_txn cmd i w) w = Ok (current_epoch w + 1, w')"
    "handle_update (Entity i 0) (readmit_txn cmd i w) w w'"
    "session_view_of w' (Entity i 0) = (session_view_of w (Entity i 0))\<lparr>sv_config := Some (cs_config cmd)\<rparr>"
    using readmit_effect[OF inv has_room_mono[OF room] find_existing_alive(1)[OF Some]] by force
  moreover have "events (readmit_txn cmd i w) = [idempotent_event (cs_id cmd) i]"
    by (simp add: readmit_txn_def staging_defs)
  ultimately have "readmitted cmd i w w'" by (simp add: readmitted_def handle_update_def)
  then show ?thesis using Some pre w'(1) by (simp add: create_session_execute_def commit_session_def)
next
  case None
  let ?e = "Entity (next_id w) 0"
  have pre: "session_preflight cmd w reg = Ok ()" using adm by (simp add: session_preflight_Ok)
  obtain w' where w': "transit False (admit_txn cmd ?e w) w = Ok (current_epoch w + 1, w')"
    "spawn_update ?e Session (admit_txn cmd ?e w) w w'"
    "session_view_of w' ?e = \<lparr>sv_config = Some (cs_config cmd), sv_models = Some (cs_models cmd),
       sv_devices = Some (cs_devices cmd), sv_lifecycle = Some Created\<rparr>"
    using admit_effect[OF inv room refl] by blast
  moreover have "events (admit_txn cmd ?e w) = [admitted_event cmd (next_id w)]"
    by (simp add: admit_txn_def staging_defs Let_def)
  ultimately have "admitted cmd ?e w w'"
    using next_id_fresh(2)[OF inv] by (simp add: admitted_def spawn_update_def)
  then show ?thesis using None pre w'(1) by (simp add: create_session_execute_def commit_session_def)
qed

lemma create_session_rejected:
  "\<not> admissible cmd w reg \<Longrightarrow> create_session_execute cmd reg w \<noteq> Ok r"
  by (auto simp: create_session_execute_def session_preflight_Ok)

subsection \<open>The result of a transition\<close>

definition transitioned :: "transition_session \<Rightarrow> session_lifecycle \<Rightarrow> ('x, 'a) service_world \<Rightarrow>
    ('x, 'a) service_world \<Rightarrow> bool" where
  "transitioned cmd current w w' \<longleftrightarrow> world_inv w' \<and> (\<forall>a. is_alive w' a = is_alive w a) \<and>
     session_view_of w' (ts_session cmd) = (session_view_of w (ts_session cmd))\<lparr>sv_lifecycle := Some (ts_target cmd)\<rparr> \<and>
     (\<forall>t a. a \<noteq> ts_session cmd \<longrightarrow> get_component w' t a = get_component w t a) \<and>
     last_committed_events w' = [transition_event cmd current]"

text \<open>What the transition requires, and the state it finds.\<close>

definition transition_enabled :: "transition_session \<Rightarrow> schema_registry \<Rightarrow> ('x, 'a) service_world \<Rightarrow>
    session_lifecycle \<Rightarrow> bool" where
  "transition_enabled cmd reg w current \<longleftrightarrow> session_schemas reg \<and>
     entity_kind_of w (ts_session cmd) = Some Session \<and>
     get_session_lifecycle w (ts_session cmd) = Some current \<and> session_allowed current (ts_target cmd)"

lemma session_can_transition_Ok: "session_can_transition s t = Ok () \<longleftrightarrow> session_allowed s t"
  by (simp add: session_can_transition_def)

lemma lifecycle_alive: "get_session_lifecycle w e = Some l \<Longrightarrow> is_alive w e"
  by (auto simp: get_session_lifecycle_def get_component_alive split: if_splits)

lemma transition_enabled_iff:
  "(\<exists>r. transition_execute cmd reg w = Ok r) \<longrightarrow> (\<exists>current. transition_enabled cmd reg w current)"
  by (auto simp: transition_execute_def transition_enabled_def Let_def validate_session_schemas_Ok
      session_can_transition_Ok split: if_splits option.splits)

lemma transition_result:
  fixes w :: "('x, 'a) service_world"
  assumes inv: "world_inv w" and room: "has_room w 1" and en: "transition_enabled cmd reg w current"
  shows "\<exists>w'. transition_execute cmd reg w = Ok ((current_epoch w + 1, transition_event cmd current), w') \<and>
     transitioned cmd current w w'"
proof -
  have al: "is_alive w (ts_session cmd)" using en lifecycle_alive by (auto simp: transition_enabled_def)
  obtain w' where w': "transit False (transition_txn cmd current w) w = Ok (current_epoch w + 1, w')"
    "handle_update (ts_session cmd) (transition_txn cmd current w) w w'"
    "session_view_of w' (ts_session cmd) =
       (session_view_of w (ts_session cmd))\<lparr>sv_lifecycle := Some (ts_target cmd)\<rparr>"
    using transition_effect[OF inv room al, of current] by blast
  have "events (transition_txn cmd current w) = [transition_event cmd current]"
    by (simp add: transition_txn_def staging_defs)
  then have "transitioned cmd current w w'" using w'(2,3) by (simp add: transitioned_def handle_update_def)
  then show ?thesis
    using w'(1) en al
    by (auto simp: transition_execute_def transition_enabled_def Let_def validate_session_schemas_Ok
        session_can_transition_Ok has_entity_def commit_session_def)
qed

subsection \<open>Histories\<close>

datatype session_command = CreateSession create_session | TransitionSession transition_session

fun run_session :: "session_command \<Rightarrow> schema_registry \<Rightarrow> ('x, 'a) service_world \<Rightarrow>
    (session_error, (nat \<times> domain_event) \<times> ('x, 'a) service_world) outcome" where
  "run_session (CreateSession c) = create_session_execute c"
| "run_session (TransitionSession c) = transition_execute c"

inductive session_run :: "schema_registry \<Rightarrow> session_command list \<Rightarrow> ('x, 'a) service_world \<Rightarrow>
    ('x, 'a) service_world \<Rightarrow> bool" for reg where
  srun_done: "session_run reg [] w w"
| srun_ok: "has_room w 4 \<Longrightarrow> run_session cmd reg w = Ok (r, w1) \<Longrightarrow> session_run reg cmds w1 w' \<Longrightarrow>
    session_run reg (cmd # cmds) w w'"
| srun_rejected: "run_session cmd reg w = Err err \<Longrightarrow> session_run reg cmds w w' \<Longrightarrow>
    session_run reg (cmd # cmds) w w'"

inductive_simps session_run_Nil [simp]: "session_run reg [] w w'"

text \<open>One successful command leaves a live session's models and devices, and moves its lifecycle by an
  allowed transition or not at all.\<close>

definition same_members :: "session_view \<Rightarrow> session_view \<Rightarrow> bool" where
  "same_members v v' \<longleftrightarrow> sv_models v' = sv_models v \<and> sv_devices v' = sv_devices v"

lemma run_session_step:
  fixes w :: "('x, 'a) service_world"
  assumes inv: "world_inv w" and room: "has_room w 4" and run: "run_session cmd reg w = Ok (r, w')"
    and al: "is_alive w e"
  shows "world_inv w' \<and> is_alive w' e \<and> same_members (session_view_of w e) (session_view_of w' e) \<and>
     (get_session_lifecycle w' e = get_session_lifecycle w e \<or>
      (\<exists>l l'. get_session_lifecycle w e = Some l \<and> get_session_lifecycle w' e = Some l' \<and> session_allowed l l'))"
proof (cases cmd)
  case (CreateSession c)
  have adm: "admissible c w reg" using run create_session_rejected CreateSession by fastforce
  note cr = create_session_result[OF inv room adm]
  show ?thesis
  proof (cases "find_existing_session w (cs_models c) (cs_devices c)")
    case (Some i)
    then have "readmitted c i w w'" using cr run CreateSession by auto
    then show ?thesis
      using al session_view_frame[of w' e w]
      by (cases "e = Entity i 0") (auto simp: readmitted_def same_members_def session_view_of_def)
  next
    case None
    then have "admitted c (Entity (next_id w) 0) w w'" using cr run CreateSession by auto
    then show ?thesis
      using al session_view_frame[of w' e w] by (auto simp: admitted_def same_members_def session_view_of_def)
  qed
next
  case (TransitionSession c)
  obtain cur where en: "transition_enabled c reg w cur"
    using run TransitionSession transition_enabled_iff[of c reg w] by auto
  have "has_room w 1" using has_room_mono[OF room] by simp
  then have tr: "transitioned c cur w w'" using transition_result[OF inv _ en] run TransitionSession by auto
  show ?thesis
  proof (cases "e = ts_session c")
    case True
    then show ?thesis
      using tr en al by (auto simp: transitioned_def transition_enabled_def same_members_def session_view_of_def)
  next
    case False
    then show ?thesis
      using tr al session_view_frame[of w' e w] by (auto simp: transitioned_def same_members_def session_view_of_def)
  qed
qed

lemma session_run_reaches:
  fixes w :: "('x, 'a) service_world"
  assumes "session_run reg cmds w w'" "world_inv w" "get_session_lifecycle w e = Some l"
  shows "\<exists>l'. get_session_lifecycle w' e = Some l' \<and> session_reaches l l' \<and>
     same_members (session_view_of w e) (session_view_of w' e)"
  using assms
proof (induction arbitrary: l rule: session_run.induct)
  case (srun_done w)
  then show ?case by (simp add: session_reaches_def same_members_def)
next
  case (srun_ok w cmd r w1 cmds w')
  note s = run_session_step[OF srun_ok.prems(1) srun_ok.hyps(1,2) lifecycle_alive[OF srun_ok.prems(2)]]
  then obtain l1 where l1: "get_session_lifecycle w1 e = Some l1" "session_reaches l l1"
    using srun_ok.prems(2) session_step_reaches by (auto simp: session_reaches_def)
  then show ?case
    using srun_ok.IH[of l1] s session_reaches_trans by (auto simp: same_members_def)
qed

subsection \<open>Replay of an admission\<close>

lemma payload_admitted [simp]:
  "payload_ids ''models'' (admitted_event cmd i) = cs_models cmd"
  "payload_ids ''devices'' (admitted_event cmd i) = cs_devices cmd"
proof -
  have "List.map_filter as_u64 (map JNum xs) = xs" for xs by (induction xs) (simp_all add: List.map_filter_simps)
  then show "payload_ids ''models'' (admitted_event cmd i) = cs_models cmd"
    "payload_ids ''devices'' (admitted_event cmd i) = cs_devices cmd"
    by (simp_all add: payload_ids_def admitted_event_def)
qed

lemma payload_idempotent [simp]:
  "payload_ids ''models'' (idempotent_event mid i) = []" "payload_ids ''devices'' (idempotent_event mid i) = []"
  by (simp_all add: payload_ids_def idempotent_event_def)

definition replayed_view :: "domain_event \<Rightarrow> session_view" where
  "replayed_view ev = \<lparr>sv_config = Some default_config, sv_models = Some (payload_ids ''models'' ev),
     sv_devices = Some (payload_ids ''devices'' ev), sv_lifecycle = Some Created\<rparr>"

lemma replay_staged:
  "staged_effect (replay_txn e ev w) T_session_config e = Some (Some (VSessionConfig default_config))"
  "staged_effect (replay_txn e ev w) T_session_models e = Some (Some (VSessionModels (payload_ids ''models'' ev)))"
  "staged_effect (replay_txn e ev w) T_session_devices e = Some (Some (VSessionDevices (payload_ids ''devices'' ev)))"
  "staged_effect (replay_txn e ev w) T_session_lifecycle e = Some (Some (VSessionLifecycle Created))"
  by (auto simp: replay_txn_def staging_defs staged_defs Let_def)

lemma replay_view:
  assumes "\<forall>t v. staged_effect (replay_txn e ev w) t e = Some v \<longrightarrow> get_component w' t e = v"
  shows "session_view_of w' e = replayed_view ev"
  using assms replay_staged[of e ev w] by (simp add: session_view_of_def replayed_view_def typed_get_defs)

text \<open>Replaying on a live session overwrites it; replaying on a free id spawns it.\<close>

lemma replay_live:
  fixes w :: "('x, 'a) service_world"
  assumes inv: "world_inv w" and room: "has_room w 4" and al: "is_alive w (Entity i 0)"
    and i: "ev_entity_id ev = Some i"
  shows "\<exists>w'. replay_session_admitted w ev = Ok (current_epoch w + 1, w') \<and>
     session_view_of w' (Entity i 0) = replayed_view ev \<and> (\<forall>a. is_alive w' a = is_alive w a)"
proof -
  let ?txn = "replay_txn (Entity i 0) ev w"
  have h: "on_handle (Entity i 0) ?txn" "expected_epoch ?txn = current_epoch w"
    "length (inserts ?txn) + length (removes ?txn) = 4"
    using al by (auto simp: replay_txn_def staging_defs Let_def on_handle_def has_entity_def)
  obtain w' where w': "transit False ?txn w = Ok (current_epoch w + 1, w')" "handle_update (Entity i 0) ?txn w w'"
    using on_handle_commits[OF inv h(1,2) al] room h(3) by auto
  have "session_view_of w' (Entity i 0) = replayed_view ev"
    using w'(2) by (intro replay_view[where w = w]) (simp add: handle_update_def)
  then show ?thesis using w' i by (simp add: replay_session_admitted_def handle_update_def)
qed

lemma replay_fresh:
  fixes w :: "('x, 'a) service_world"
  assumes inv: "world_inv w" and room: "has_room w 4" and i: "ev_entity_id ev = Some i"
    and free: "i \<noteq> 0" "\<not> occupied (slot_at w (i - 1))" "i \<notin> set (free_list w)"
  shows "\<exists>w'. replay_session_admitted w ev = Ok (current_epoch w + 1, w') \<and>
     session_view_of w' (Entity i 0) = replayed_view ev \<and> entity_kind_of w' (Entity i 0) = Some Session"
proof -
  let ?e = "Entity i 0"
  let ?txn = "replay_txn ?e ev w"
  have dead: "\<not> is_alive w ?e" using free by (auto simp: is_alive_iff occupied_def)
  have h: "spawns_handle ?e Session ?txn" "expected_epoch ?txn = current_epoch w" "length (inserts ?txn) = 4"
    using dead by (auto simp: replay_txn_def staging_defs Let_def spawns_handle_def has_entity_def)
  have "fresh_spawn w \<lparr>sp_entity = ?e, sp_kind = Session, sp_is_pending = False\<rparr>"
    using free by (simp add: fresh_spawn_def)
  then obtain w' where w': "transit False ?txn w = Ok (current_epoch w + 1, w')" "spawn_update ?e Session ?txn w w'"
    using spawns_handle_commits[OF inv h(1,2)] room h(3) free(3) by auto
  have "session_view_of w' ?e = replayed_view ev"
    using w'(2) by (intro replay_view[where w = w]) (simp add: spawn_update_def)
  then show ?thesis using w' i by (simp add: replay_session_admitted_def spawn_update_def)
qed

subsection \<open>Properties\<close>

text \<open>A world with a deployable model, a ready device, the residency that places one on the other, and a
  released session for both.\<close>

definition one_entry :: "entity \<Rightarrow> 'v \<Rightarrow> 'v column" where
  "one_entry e v = \<lparr>dense = [v], sparse = replicate (eid e) None @ [Some 0], entities = [e]\<rparr>"

definition session_sample :: "(unit, unit) service_world" where
  "session_sample = \<lparr>component_store =
       [T_model_lifecycle \<mapsto> one_entry (Entity 1 0) (VModelLifecycle ModelDeployable),
        T_device_lifecycle \<mapsto> one_entry (Entity 2 0) (VDeviceLifecycle DevReady),
        T_residency_device_ref \<mapsto> one_entry (Entity 3 0) (VResidencyDeviceRef \<lparr>rdr_device_id = 2, rdr_stable_id = ''d''\<rparr>),
        T_residency_lifecycle \<mapsto> one_entry (Entity 3 0) (VResidencyLifecycle Resident),
        T_residency_model_ref \<mapsto> one_entry (Entity 3 0) (VResidencyModelRef \<lparr>rmr_residency_id = 3, rmr_model_id = 1\<rparr>),
        T_session_models \<mapsto> one_entry (Entity 4 0) (VSessionModels [1]),
        T_session_devices \<mapsto> one_entry (Entity 4 0) (VSessionDevices [2]),
        T_session_lifecycle \<mapsto> one_entry (Entity 4 0) (VSessionLifecycle Released)],
     resource_store = Map.empty,
     entity_meta = map (\<lambda>k. Some \<lparr>generation = 0, occupant = Some \<lparr>okind = k, oname = None\<rparr>\<rparr>)
       [Model, Device, Residency, Session],
     next_id = 5, free_list = [], staging = [], component_versions = Map.empty,
     mutation_policy = Bootstrap, epoch_ext = Some 4,
     journal_ext = None, events_ext = None, advisory_ext = None\<rparr>"

definition session_registry :: schema_registry where
  "session_registry =
     register_for_type T_session_config 13 1 ''SessionConfig'' '''' Durable
     (register_for_type T_session_models 14 1 ''SessionModels'' '''' Durable
     (register_for_type T_session_devices 15 1 ''SessionDevices'' '''' Durable
     (register_for_type T_session_lifecycle 16 1 ''SessionLifecycle'' '''' Durable
     (register_for_type T_residency_model_ref 17 1 ''ResidencyModelRef'' '''' Durable registry_new))))"

definition create_session_sample :: "create_session" where
  "create_session_sample = \<lparr>cs_id = [], cs_config = default_config, cs_models = [1], cs_devices = [2]\<rparr>"

lemma col_inv_one: "eid e < 2 ^ 32 \<Longrightarrow> col_inv (one_entry e v)"
  by (auto simp: one_entry_def col_inv_def indexed_def nth_append split: if_splits)

lemma column_get_one: "column_get (one_entry e v) a = (if a = e then Some v else None)"
  by (cases a; cases e) (auto simp: one_entry_def column_get_def dense_index_def nth_opt_def nth_append split: option.split)

lemma session_sample_inv:
  "world_inv session_sample" "has_room session_sample 100" "next_id session_sample = 5"
  "session_schemas session_registry"
proof -
  have "store_inv (component_store session_sample)"
    by (auto simp: session_sample_def store_inv_def col_inv_one split: if_splits)
  then show "world_inv session_sample" by (simp add: world_inv_def session_sample_def)
  show "has_room session_sample 100"
    by (simp add: has_room_def store_len_def session_sample_def column_or_new_def column_new_def one_entry_def)
  show "next_id session_sample = 5" by (simp add: session_sample_def)
  show "session_schemas session_registry"
    by (simp add: session_schemas_def schema_bound_def session_registry_def register_for_type_def registry_new_def)
qed

lemma session_sample_get:
  "get_model_lifecycle session_sample (Entity 1 0) = Some ModelDeployable"
  "get_device_lifecycle session_sample (Entity 2 0) = Some DevReady"
  "get_residency_device_ref session_sample (Entity 3 0) = Some \<lparr>rdr_device_id = 2, rdr_stable_id = ''d''\<rparr>"
  "get_residency_lifecycle session_sample (Entity 3 0) = Some Resident"
  "get_residency_model_ref session_sample (Entity 3 0) = Some \<lparr>rmr_residency_id = 3, rmr_model_id = 1\<rparr>"
  "get_session_models session_sample (Entity 4 0) = Some [1]"
  "get_session_devices session_sample (Entity 4 0) = Some [2]"
  "get_session_lifecycle session_sample (Entity 4 0) = Some Released"
  "map (entity_kind_of session_sample) [Entity 1 0, Entity 2 0, Entity 3 0, Entity 4 0] =
     [Some Model, Some Device, Some Residency, Some Session]"
  by (simp_all add: typed_get_defs get_component_alive is_alive_iff store_get_def column_get_one
      session_sample_def slot_at_def nth_opt_def entity_kind_of_def validate_generation_def)

lemma session_sample_alive:
  "is_alive session_sample (Entity 1 0)" "is_alive session_sample (Entity 2 0)"
  "is_alive session_sample (Entity 3 0)" "is_alive session_sample (Entity 4 0)"
  by (simp_all add: is_alive_iff session_sample_def slot_at_def nth_opt_def)

lemma session_sample_find: "find_existing_session session_sample [1] [2] = Some 4"
proof -
  have "entities_of_kind Session session_sample = [Entity 4 0]"
    by (simp add: entities_of_kind_def session_sample_def)
  then show ?thesis
    using session_sample_get by (simp add: find_existing_session_def session_matches_iff)
qed

lemma session_sample_admissible: "admissible create_session_sample session_sample session_registry"
proof -
  have "placed session_sample 1 2"
    unfolding placed_def using session_sample_get session_sample_alive by fastforce
  then show ?thesis
    using session_sample_inv(4) session_sample_get session_sample_alive
    by (simp add: admissible_def usable_model_def ready_device_def create_session_sample_def)
qed

text \<open>The preflight of an admission passes exactly when the session schemas are registered, models and
  devices are named, every model is live, of its kind and neither deprecated nor removed, every device is
  ready, and every model has a residency that is resident or binding on one of the devices.\<close>

theorem session_preflight_iff:
  "session_preflight cmd w reg = Ok () \<longleftrightarrow> admissible cmd w reg"
  by (rule session_preflight_Ok)



text \<open>A transition succeeds exactly when the schemas are registered, the handle is a live session with a
  lifecycle and the guard allows the step; it then sets the lifecycle and changes nothing else.\<close>

theorem transition_session_correct:
  fixes w :: "('x, 'a) service_world"
  assumes "world_inv w" and "has_room w 1"
  shows "(transition_enabled cmd reg w current \<longrightarrow> (\<exists>w'. transition_execute cmd reg w =
       Ok ((current_epoch w + 1, transition_event cmd current), w') \<and> transitioned cmd current w w')) \<and>
     ((\<exists>r. transition_execute cmd reg w = Ok r) \<longrightarrow> (\<exists>s. transition_enabled cmd reg w s))"
  using transition_result[OF assms] transition_enabled_iff by blast

theorem transition_session_correct_witness:
  "\<not> (\<exists>r. transition_execute \<lparr>ts_id = [], ts_session = Entity 4 0, ts_target = Active\<rparr> session_registry
     session_sample = Ok r)"
proof -
  have room: "has_room session_sample 1" using has_room_mono[OF session_sample_inv(2)] by simp
  show ?thesis
    using transition_session_correct[OF session_sample_inv(1) room,
        of "\<lparr>ts_id = [], ts_session = Entity 4 0, ts_target = Active\<rparr>" session_registry] session_sample_get(8)
    by (auto simp: transition_enabled_def session_allowed_def)
qed

text \<open>C10: through every history of admissions and transitions a session keeps its models and devices, and its
  lifecycle moves only to states the guards let it reach; so a released session stays released.\<close>

theorem session_history_safe:
  fixes w :: "('x, 'a) service_world"
  assumes "session_run reg cmds w w'" and "world_inv w" and "get_session_lifecycle w e = Some l"
  shows "\<exists>l'. get_session_lifecycle w' e = Some l' \<and> session_reaches l l' \<and>
     get_session_models w' e = get_session_models w e \<and> get_session_devices w' e = get_session_devices w e"
  using session_run_reaches[OF assms] by (auto simp: same_members_def session_view_of_def)

theorem session_history_safe_witness:
  "\<exists>w'. session_run session_registry [CreateSession create_session_sample] session_sample w' \<and>
     get_session_lifecycle w' (Entity 4 0) = Some Released"
proof -
  have room: "has_room session_sample 4" using has_room_mono[OF session_sample_inv(2)] by simp
  obtain r w' where "create_session_execute create_session_sample session_registry session_sample = Ok (r, w')"
    using create_session_result[OF session_sample_inv(1) room session_sample_admissible]
    by (auto split: option.splits)
  then have "session_run session_registry [CreateSession create_session_sample] session_sample w'"
    using srun_ok[OF room _ srun_done, of "CreateSession create_session_sample"] by simp
  moreover have "session_reaches Released l \<Longrightarrow> l = Released" for l by (cases l) (simp_all add: session_reaches_def)
  ultimately show ?thesis
    using session_history_safe[OF _ session_sample_inv(1) session_sample_get(8)] by blast
qed

text \<open>An admission is answered by a released session with the same models and devices: the command
  succeeds, no session entity is created and the session it names stays released.\<close>

theorem released_session_readmitted:
  fixes w :: "('x, 'a) service_world"
  assumes "world_inv w" and "has_room w 4" and "admissible cmd w reg"
    and "find_existing_session w (cs_models cmd) (cs_devices cmd) = Some i"
    and "get_session_lifecycle w (Entity i 0) = Some Released"
  shows "\<exists>w'. create_session_execute cmd reg w =
       Ok ((current_epoch w + 1, idempotent_event (cs_id cmd) i), w') \<and>
     get_session_lifecycle w' (Entity i 0) = Some Released \<and> (\<forall>a. is_alive w' a = is_alive w a)"
  using create_session_result[OF assms(1-3)] assms(4,5) by (auto simp: readmitted_def session_view_of_def)

theorem released_session_readmitted_witness:
  "\<exists>w'. create_session_execute create_session_sample session_registry session_sample =
       Ok ((5, idempotent_event [] 4), w') \<and> get_session_lifecycle w' (Entity 4 0) = Some Released"
proof -
  have room: "has_room session_sample 4" using has_room_mono[OF session_sample_inv(2)] by simp
  have ep: "current_epoch session_sample = 4" by (simp add: session_sample_def current_epoch_def)
  show ?thesis
    using released_session_readmitted[OF session_sample_inv(1) room session_sample_admissible _ session_sample_get(8)]
      session_sample_find ep by (auto simp: create_session_sample_def)
qed

text \<open>Replaying the event of an admission on a world where its id is free restores a session with the
  same models and devices in state \<open>Created\<close>, with the default configuration in place of its own.\<close>

theorem session_replay_roundtrip:
  fixes w0 w :: "('x, 'a) service_world"
  assumes "world_inv w0" and "has_room w0 4" and "admissible cmd w0 reg"
    and "find_existing_session w0 (cs_models cmd) (cs_devices cmd) = None"
    and "world_inv w" and "has_room w 4" and "\<not> occupied (slot_at w (next_id w0 - 1))"
    and "next_id w0 \<notin> set (free_list w)"
  shows "\<exists>n ev w1 w'. create_session_execute cmd reg w0 = Ok ((n, ev), w1) \<and>
     replay_session_admitted w ev = Ok (current_epoch w + 1, w') \<and>
     session_view_of w' (Entity (next_id w0) 0) =
       (session_view_of w1 (Entity (next_id w0) 0))\<lparr>sv_config := Some default_config\<rparr>"
proof -
  let ?ev = "admitted_event cmd (next_id w0)"
  obtain w1 where w1: "create_session_execute cmd reg w0 = Ok ((current_epoch w0 + 1, ?ev), w1)"
    "admitted cmd (Entity (next_id w0) 0) w0 w1"
    using create_session_result[OF assms(1-3)] assms(4) by auto
  have "ev_entity_id ?ev = Some (next_id w0)" "next_id w0 \<noteq> 0"
    using assms(1) by (simp_all add: admitted_event_def world_inv_def)
  then obtain w' where "replay_session_admitted w ?ev = Ok (current_epoch w + 1, w')"
    "session_view_of w' (Entity (next_id w0) 0) = replayed_view ?ev"
    using replay_fresh[OF assms(5,6) _ _ assms(7,8)] by blast
  then show ?thesis using w1 by (auto simp: admitted_def replayed_view_def)
qed

theorem session_replay_roundtrip_witness:
  "\<exists>n ev w1 w'. create_session_execute (create_session_sample\<lparr>cs_models := [1, 1]\<rparr>) session_registry session_sample =
       Ok ((n, ev), w1) \<and>
     replay_session_admitted session_sample ev = Ok (5, w') \<and> get_session_models w' (Entity 5 0) = get_session_models w1 (Entity 5 0)"
proof -
  let ?c = "create_session_sample\<lparr>cs_models := [1, 1]\<rparr>"
  have room: "has_room session_sample 4" using has_room_mono[OF session_sample_inv(2)] by simp
  have adm: "admissible ?c session_sample session_registry"
    using session_sample_admissible by (simp add: admissible_def create_session_sample_def)
  have "entities_of_kind Session session_sample = [Entity 4 0]"
    by (simp add: entities_of_kind_def session_sample_def)
  then have none: "find_existing_session session_sample (cs_models ?c) (cs_devices ?c) = None"
    using session_sample_get(6) by (simp add: find_existing_session_def session_matches_iff)
  have slot: "\<not> occupied (slot_at session_sample (next_id session_sample - 1))"
    "next_id session_sample \<notin> set (free_list session_sample)" "current_epoch session_sample = 4"
    by (simp_all add: session_sample_def slot_at_def nth_opt_def occupied_def current_epoch_def)
  from session_replay_roundtrip[OF session_sample_inv(1) room adm none session_sample_inv(1) room slot(1,2)]
  show ?thesis using slot(3) session_sample_inv(3) by (auto simp: session_view_of_def)
qed

text \<open>Replaying the event of an idempotent admission wipes the session: it carries no models and devices,
  so the session ends up with none, in state \<open>Created\<close> whatever its state was.\<close>

theorem idempotent_replay_wipes:
  fixes w :: "('x, 'a) service_world"
  assumes "world_inv w" and "has_room w 4" and "is_alive w (Entity i 0)"
  shows "\<exists>w'. replay_session_admitted w (idempotent_event mid i) = Ok (current_epoch w + 1, w') \<and>
     get_session_models w' (Entity i 0) = Some [] \<and> get_session_devices w' (Entity i 0) = Some [] \<and>
     get_session_lifecycle w' (Entity i 0) = Some Created"
proof -
  have "ev_entity_id (idempotent_event mid i) = Some i" by (simp add: idempotent_event_def)
  from replay_live[OF assms this] show ?thesis by (auto simp: session_view_of_def replayed_view_def)
qed

theorem idempotent_replay_wipes_witness:
  "\<exists>w'. replay_session_admitted session_sample (idempotent_event [] 4) = Ok (5, w') \<and>
     get_session_models session_sample (Entity 4 0) = Some [1] \<and> get_session_models w' (Entity 4 0) = Some []"
proof -
  have room: "has_room session_sample 4" using has_room_mono[OF session_sample_inv(2)] by simp
  have ep: "current_epoch session_sample = 4" by (simp add: session_sample_def current_epoch_def)
  show ?thesis
    using idempotent_replay_wipes[OF session_sample_inv(1) room session_sample_alive(4)] session_sample_get(6) ep
    by auto
qed

end
