(* ===== verification/Residencies.thy ===== *)
theory Residencies
  imports Sessions
begin

text \<open>
  Deployment of models (\<open>residency.rs\<close>): the command that places a model on a device once the
  execution plane has allocated its memory, its preflight, the search for an existing model and
  residency, and the schema checks of the module. \<open>MessageId::compute\<close> (a BLAKE3 hash from a library) is the
  parameter \<open>digest\<close>; the random UUID of a new model is the parameter \<open>uuid\<close>.
\<close>

subsection \<open>Commands, outcomes, errors\<close>

record deploy_model =
  dm_id :: message_id
  dm_artifact :: nat
  dm_device :: nat
  dm_stable_id :: string
  dm_format :: residency_format
  dm_memory_bytes :: nat

record effect_outcome =
  eo_id :: message_id
  eo_request_id :: message_id
  eo_success :: bool
  eo_output :: json

datatype deployment_error = EffectFailed | RequestMismatch | DeploySchemaError "string \<times> schema_error"
  | ArtifactNotFound nat | DeployDeviceNotFound nat | DeployDeviceNotReady nat | StableIdMismatch string string
  | InsufficientMemory nat nat nat | DeployCommitFailed txn_error

definition validate_residency_schemas :: "schema_registry \<Rightarrow> (string \<times> schema_error, unit) outcome" where
  "validate_residency_schemas reg = verify_all reg
     [(''ModelId schema'', T_model_id, 5), (''ModelArtifactRef schema'', T_model_artifact_ref, 6),
      (''ModelLifecycle schema'', T_model_lifecycle, 7), (''ModelName schema'', T_model_name, 13),
      (''ModelFormat schema'', T_model_format, 14), (''ResidencyDeviceRef schema'', T_residency_device_ref, 8),
      (''ResidencyMemoryClaim schema'', T_residency_memory_claim, 9),
      (''ResidencyFormat schema'', T_residency_format, 10),
      (''ResidencyLifecycle schema'', T_residency_lifecycle, 11),
      (''AllocationToken schema'', T_allocation_token, 12)]"

text \<open>The id of the allocation request that the outcome must answer.\<close>

definition effect_request_id :: "(string \<Rightarrow> message_id) \<Rightarrow> deploy_model \<Rightarrow> message_id" where
  "effect_request_id digest cmd =
     digest (''alloc:'' @ decimal (dm_artifact cmd) @ '':'' @ decimal (dm_device cmd))"

subsection \<open>Preflight\<close>

definition deploy_preflight :: "deploy_model \<Rightarrow> ('x, 'a) service_world \<Rightarrow> schema_registry \<Rightarrow>
    (deployment_error, unit) outcome" where
  "deploy_preflight cmd w reg =
     and_then (map_err DeploySchemaError (validate_residency_schemas reg)) (\<lambda>_.
       let artifact = Entity (dm_artifact cmd) 0; device = Entity (dm_device cmd) 0 in
       if \<not> has_entity w artifact then Err (ArtifactNotFound (dm_artifact cmd))
       else if entity_kind_of w artifact \<noteq> Some Artifact then Err (ArtifactNotFound (dm_artifact cmd))
       else if get_artifact_digest w artifact = None then Err (ArtifactNotFound (dm_artifact cmd))
       else if \<not> has_entity w device then Err (DeployDeviceNotFound (dm_device cmd))
       else if entity_kind_of w device \<noteq> Some Device then Err (DeployDeviceNotFound (dm_device cmd))
       else case get_device_lifecycle w device of
         None \<Rightarrow> Err (DeployDeviceNotReady (dm_device cmd))
       | Some l \<Rightarrow>
           if \<not> is_available l then Err (DeployDeviceNotReady (dm_device cmd))
           else case get_device_stable_id w device of
             None \<Rightarrow> Err (DeployDeviceNotReady (dm_device cmd))
           | Some stored \<Rightarrow>
               if stored \<noteq> dm_stable_id cmd then Err (StableIdMismatch (dm_stable_id cmd) stored)
               else case get_device_memory_limits w device of
                 None \<Rightarrow> Ok ()
               | Some limits \<Rightarrow>
                   if total_bytes limits < dm_memory_bytes cmd \<and> max_alloc_bytes limits < dm_memory_bytes cmd
                   then Err (InsufficientMemory (dm_memory_bytes cmd) (total_bytes limits) (max_alloc_bytes limits))
                   else Ok ())"

subsection \<open>Searches\<close>

definition find_model_by_artifact :: "('x, 'a) service_world \<Rightarrow> nat \<Rightarrow> nat option" where
  "find_model_by_artifact w artifact = map_option eid (find (\<lambda>e.
     case get_model_artifact_ref w e of None \<Rightarrow> False | Some r \<Rightarrow> mar_artifact_id r = artifact)
     (entities_of_kind Model w))"

definition find_residency_for_model :: "('x, 'a) service_world \<Rightarrow> nat \<Rightarrow> nat option" where
  "find_residency_for_model w model =
     (let model_ref = get_model_artifact_ref w (Entity model 0);
          matching = find (\<lambda>e. case get_residency_device_ref w e of None \<Rightarrow> False
             | Some dev_ref \<Rightarrow> (case model_ref of None \<Rightarrow> False
                 | Some r \<Rightarrow> mar_artifact_id r = rdr_device_id dev_ref)) (entities_of_kind Residency w)
      in case matching of
        Some e \<Rightarrow> Some (eid e)
      | None \<Rightarrow> (case model_ref of
            None \<Rightarrow> None
          | Some _ \<Rightarrow> let candidate = model + 1 in
              if has_entity w (Entity candidate 0) \<and> entity_kind_of w (Entity candidate 0) = Some Residency
              then Some candidate else None))"

subsection \<open>Execution\<close>

definition parse_format :: "string \<Rightarrow> residency_format" where
  "parse_format s = (if s = ''quantized'' then Quantized else if s = ''distilled'' then Distilled else Native)"

definition unwrap_or :: "'b \<Rightarrow> 'b option \<Rightarrow> 'b" where
  "unwrap_or d x = (case x of None \<Rightarrow> d | Some y \<Rightarrow> y)"

record allocation =
  al_token :: string
  al_bytes :: nat
  al_format_str :: string

definition parse_allocation :: "deploy_model \<Rightarrow> effect_outcome \<Rightarrow> allocation" where
  "parse_allocation cmd oc =
     \<lparr>al_token = unwrap_or ''unknown'' (Option.bind (json_get ''allocation_token'' (eo_output oc)) as_str),
      al_bytes = unwrap_or (dm_memory_bytes cmd) (Option.bind (json_get ''actual_bytes'' (eo_output oc)) as_u64),
      al_format_str = unwrap_or ''native'' (Option.bind (json_get ''format'' (eo_output oc)) as_str)\<rparr>"

text \<open>The residency components, which both branches attach in the same order.\<close>

definition stage_residency :: "deploy_model \<Rightarrow> allocation \<Rightarrow> entity \<Rightarrow> ('x, 'a) service_txn \<Rightarrow>
    ('x, 'a) service_txn" where
  "stage_residency cmd al residency txn =
     (let txn1 = put_value residency (VResidencyDeviceRef
             \<lparr>rdr_device_id = dm_device cmd, rdr_stable_id = dm_stable_id cmd\<rparr>) txn;
          txn2 = put_value residency (VResidencyMemoryClaim
             \<lparr>requested_bytes = dm_memory_bytes cmd, actual_bytes = al_bytes al\<rparr>) txn1;
          txn3 = put_value residency (VResidencyFormat (parse_format (al_format_str al))) txn2;
          txn4 = put_value residency (VResidencyLifecycle Binding) txn3
      in put_transient residency T_allocation_token (VAllocationToken (al_token al)) txn4)"

definition redeploy_event :: "deploy_model \<Rightarrow> nat \<Rightarrow> nat \<Rightarrow> domain_event" where
  "redeploy_event cmd model residency = \<lparr>ev_id = dm_id cmd, ev_kind = ''model_deployed'', ev_entity_id = Some model,
     ev_payload = JObj [(''model_id'', JNum model), (''residency_id'', JNum residency),
       (''device'', JNum (dm_device cmd)), (''idempotent'', JBool True)]\<rparr>"

definition deploy_event :: "deploy_model \<Rightarrow> allocation \<Rightarrow> nat \<Rightarrow> nat \<Rightarrow> domain_event" where
  "deploy_event cmd al model residency =
     \<lparr>ev_id = dm_id cmd, ev_kind = ''model_deployed'', ev_entity_id = Some model,
      ev_payload = JObj [(''model_id'', JNum model), (''residency_id'', JNum residency),
        (''device'', JNum (dm_device cmd)), (''artifact'', JNum (dm_artifact cmd)),
        (''format'', JStr (al_format_str al)), (''memory_requested'', JNum (dm_memory_bytes cmd)),
        (''memory_actual'', JNum (al_bytes al))]\<rparr>"

definition redeploy_txn :: "deploy_model \<Rightarrow> allocation \<Rightarrow> 8 word list \<Rightarrow> nat \<Rightarrow> entity \<Rightarrow> ('x, 'a) service_world \<Rightarrow>
    ('x, 'a) service_txn" where
  "redeploy_txn cmd al artifact_digest model residency w =
     (let txn1 = (if \<not> has_entity w residency then stage_spawn residency Residency (txn_new w) else txn_new w);
          txn2 = put_value (Entity model 0) (VModelArtifactRef
             \<lparr>mar_artifact_id = dm_artifact cmd, mar_digest = artifact_digest\<rparr>) txn1
      in emit_event (redeploy_event cmd model (eid residency)) (stage_residency cmd al residency txn2))"

definition deploy_txn :: "nat \<Rightarrow> deploy_model \<Rightarrow> allocation \<Rightarrow> 8 word list \<Rightarrow> entity \<Rightarrow> entity \<Rightarrow> ('x, 'a) service_world \<Rightarrow>
    ('x, 'a) service_txn" where
  "deploy_txn uuid cmd al artifact_digest model residency w =
     (let txn1 = stage_spawn model Model (txn_new w);
          txn2 = put_value model (VModelId uuid) txn1;
          txn3 = put_value model (VModelArtifactRef
             \<lparr>mar_artifact_id = dm_artifact cmd, mar_digest = artifact_digest\<rparr>) txn2;
          txn4 = put_value model (VModelLifecycle ModelCreated) txn3;
          txn5 = stage_spawn residency Residency txn4
      in emit_event (deploy_event cmd al (eid model) (eid residency)) (stage_residency cmd al residency txn5))"

definition commit_deploy :: "('x, 'a) service_txn \<Rightarrow> domain_event \<Rightarrow> ('x, 'a) service_world \<Rightarrow>
    (deployment_error, (nat \<times> domain_event) \<times> ('x, 'a) service_world) outcome" where
  "commit_deploy txn ev w =
     and_then (map_err DeployCommitFailed (transit False txn w)) (\<lambda>(epoch, w'). Ok ((epoch, ev), w'))"

definition deploy_execute :: "(string \<Rightarrow> message_id) \<Rightarrow> nat \<Rightarrow> deploy_model \<Rightarrow> schema_registry \<Rightarrow> effect_outcome \<Rightarrow>
    ('x, 'a) service_world \<Rightarrow> (deployment_error, (nat \<times> domain_event) \<times> ('x, 'a) service_world) outcome" where
  "deploy_execute digest uuid cmd reg oc w =
     and_then (deploy_preflight cmd w reg) (\<lambda>_.
       if \<not> eo_success oc then Err EffectFailed
       else if eo_request_id oc \<noteq> effect_request_id digest cmd then Err RequestMismatch
       else
         let al = parse_allocation cmd oc;
             stored = get_artifact_digest w (Entity (dm_artifact cmd) 0) in
         case find_model_by_artifact w (dm_artifact cmd) of
           Some model \<Rightarrow>
             let residency = (case find_residency_for_model w model of Some i \<Rightarrow> Entity i 0
                   | None \<Rightarrow> Entity (next_id w) 0) in
             (case stored of None \<Rightarrow> Err (ArtifactNotFound (dm_artifact cmd))
              | Some d \<Rightarrow> commit_deploy (redeploy_txn cmd al d model residency w)
                  (redeploy_event cmd model (eid residency)) w)
         | None \<Rightarrow>
             let model = Entity (next_id w) 0; residency = Entity (next_id w + 1) 0 in
             (case stored of None \<Rightarrow> Err (ArtifactNotFound (dm_artifact cmd))
              | Some d \<Rightarrow> commit_deploy (deploy_txn uuid cmd al d model residency w)
                  (deploy_event cmd al (eid model) (eid residency)) w))"

subsection \<open>Replay\<close>

definition payload_num :: "string \<Rightarrow> domain_event \<Rightarrow> nat option" where
  "payload_num k ev = Option.bind (json_get k (ev_payload ev)) as_u64"

definition replay_deploy_txn :: "entity \<Rightarrow> entity \<Rightarrow> nat \<Rightarrow> domain_event \<Rightarrow> ('x, 'a) service_world \<Rightarrow>
    ('x, 'a) service_txn" where
  "replay_deploy_txn model residency device ev w =
     (let txn1 = (if \<not> has_entity w model then stage_spawn model Model (txn_new w) else txn_new w);
          txn2 = (if \<not> has_entity w residency then stage_spawn residency Residency txn1 else txn1);
          txn3 = txn_add_component model 7 1 T_model_lifecycle (VModelLifecycle ModelCreated) txn2;
          txn4 = (case payload_num ''artifact'' ev of None \<Rightarrow> txn3
             | Some artifact \<Rightarrow> txn_add_component model 6 1 T_model_artifact_ref (VModelArtifactRef
                 \<lparr>mar_artifact_id = artifact, mar_digest = replicate 32 0\<rparr>) txn3);
          format = (case Option.bind (json_get ''format'' (ev_payload ev)) as_str of
             Some s \<Rightarrow> parse_format s | None \<Rightarrow> Native);
          txn5 = txn_add_component residency 8 1 T_residency_device_ref (VResidencyDeviceRef
             \<lparr>rdr_device_id = device, rdr_stable_id = ''replay''\<rparr>) txn4;
          txn6 = txn_add_component residency 9 1 T_residency_memory_claim (VResidencyMemoryClaim
             \<lparr>requested_bytes = unwrap_or 0 (payload_num ''memory_requested'' ev),
              actual_bytes = unwrap_or 0 (payload_num ''memory_actual'' ev)\<rparr>) txn5;
          txn7 = txn_add_component residency 10 1 T_residency_format (VResidencyFormat format) txn6
      in txn_add_component residency 11 1 T_residency_lifecycle (VResidencyLifecycle Binding) txn7)"

datatype replay_deploy_error = MissingInEvent string | ReplayCommitFailed txn_error

definition replay_model_deployed :: "('x, 'a) service_world \<Rightarrow> domain_event \<Rightarrow>
    (replay_deploy_error, (nat \<times> nat) \<times> ('x, 'a) service_world) outcome" where
  "replay_model_deployed w ev =
     (case (case ev_entity_id ev of Some i \<Rightarrow> Some i | None \<Rightarrow> payload_num ''model_id'' ev) of
        None \<Rightarrow> Err (MissingInEvent ''model_id'')
      | Some model_id \<Rightarrow> (case payload_num ''residency_id'' ev of
          None \<Rightarrow> Err (MissingInEvent ''residency_id'')
        | Some residency_id \<Rightarrow> (case payload_num ''device'' ev of
            None \<Rightarrow> Err (MissingInEvent ''device'')
          | Some device \<Rightarrow>
              and_then (map_err ReplayCommitFailed (transit False
                 (replay_deploy_txn (Entity model_id 0) (Entity residency_id 0) device ev w) w))
                (\<lambda>(epoch, w'). Ok ((epoch, model_id), w')))))"

subsection \<open>What deployment requires\<close>

definition residency_schemas :: "schema_registry \<Rightarrow> bool" where
  "residency_schemas reg \<longleftrightarrow> schema_bound reg T_model_id 5 \<and> schema_bound reg T_model_artifact_ref 6 \<and>
     schema_bound reg T_model_lifecycle 7 \<and> schema_bound reg T_model_name 13 \<and> schema_bound reg T_model_format 14 \<and>
     schema_bound reg T_residency_device_ref 8 \<and> schema_bound reg T_residency_memory_claim 9 \<and>
     schema_bound reg T_residency_format 10 \<and> schema_bound reg T_residency_lifecycle 11 \<and>
     schema_bound reg T_allocation_token 12"

text \<open>A device that is too small is refused only when both of its limits are below the request.\<close>

definition deployable :: "deploy_model \<Rightarrow> ('x, 'a) service_world \<Rightarrow> schema_registry \<Rightarrow> bool" where
  "deployable cmd w reg \<longleftrightarrow> residency_schemas reg \<and>
     entity_kind_of w (Entity (dm_artifact cmd) 0) = Some Artifact \<and>
     get_artifact_digest w (Entity (dm_artifact cmd) 0) \<noteq> None \<and> ready_device w (dm_device cmd) \<and>
     get_device_stable_id w (Entity (dm_device cmd) 0) = Some (dm_stable_id cmd) \<and>
     (\<forall>l. get_device_memory_limits w (Entity (dm_device cmd) 0) = Some l \<longrightarrow>
        dm_memory_bytes cmd \<le> total_bytes l \<or> dm_memory_bytes cmd \<le> max_alloc_bytes l)"

lemma validate_residency_schemas_Ok: "validate_residency_schemas reg = Ok () \<longleftrightarrow> residency_schemas reg"
  by (simp add: validate_residency_schemas_def verify_all_Ok verify_type_Ok residency_schemas_def schema_bound_def)

lemma kind_alive: "entity_kind_of w e = Some k \<Longrightarrow> is_alive w e"
  by (auto simp: entity_kind_of_def is_alive_def split: if_splits)

lemma deploy_preflight_Ok: "deploy_preflight cmd w reg = Ok () \<longleftrightarrow> deployable cmd w reg"
proof -
  let ?art = "Entity (dm_artifact cmd) 0" and ?dev = "Entity (dm_device cmd) 0"
  have "deploy_preflight cmd w reg = Ok () \<longleftrightarrow> residency_schemas reg \<and> is_alive w ?art \<and>
     entity_kind_of w ?art = Some Artifact \<and> get_artifact_digest w ?art \<noteq> None \<and>
     is_alive w ?dev \<and> entity_kind_of w ?dev = Some Device \<and> get_device_lifecycle w ?dev = Some DevReady \<and>
     get_device_stable_id w ?dev = Some (dm_stable_id cmd) \<and>
     (\<forall>l. get_device_memory_limits w ?dev = Some l \<longrightarrow>
        \<not> (total_bytes l < dm_memory_bytes cmd \<and> max_alloc_bytes l < dm_memory_bytes cmd))"
    by (auto simp: deploy_preflight_def Let_def validate_residency_schemas_Ok has_entity_def is_available_def
        split: option.split)
  then show ?thesis using kind_alive[of w ?art Artifact] by (auto simp: deployable_def ready_device_def not_less)
qed

text \<open>The outcome answers this command's allocation request.\<close>

definition answers :: "(string \<Rightarrow> message_id) \<Rightarrow> deploy_model \<Rightarrow> effect_outcome \<Rightarrow> bool" where
  "answers digest cmd oc \<longleftrightarrow> eo_success oc \<and> eo_request_id oc = effect_request_id digest cmd"

subsection \<open>The result of a first deployment\<close>

definition deployed :: "nat \<Rightarrow> deploy_model \<Rightarrow> allocation \<Rightarrow> 8 word list \<Rightarrow> entity \<Rightarrow> entity \<Rightarrow>
    ('x, 'a) service_world \<Rightarrow> ('x, 'a) service_world \<Rightarrow> bool" where
  "deployed uuid cmd al d model residency w w' \<longleftrightarrow> world_inv w' \<and>
     (\<forall>a. is_alive w' a \<longleftrightarrow> is_alive w a \<or> a = model \<or> a = residency) \<and>
     entity_kind_of w' model = Some Model \<and> entity_kind_of w' residency = Some Residency \<and>
     get_component w' T_model_id model = Some (VModelId uuid) \<and>
     get_model_artifact_ref w' model = Some \<lparr>mar_artifact_id = dm_artifact cmd, mar_digest = d\<rparr> \<and>
     get_model_lifecycle w' model = Some ModelCreated \<and>
     get_residency_device_ref w' residency = Some \<lparr>rdr_device_id = dm_device cmd, rdr_stable_id = dm_stable_id cmd\<rparr> \<and>
     get_component w' T_residency_memory_claim residency =
       Some (VResidencyMemoryClaim \<lparr>requested_bytes = dm_memory_bytes cmd, actual_bytes = al_bytes al\<rparr>) \<and>
     get_component w' T_residency_format residency = Some (VResidencyFormat (parse_format (al_format_str al))) \<and>
     get_residency_lifecycle w' residency = Some Binding \<and>
     get_component w' T_allocation_token residency = Some (VAllocationToken (al_token al)) \<and>
     get_component w' T_residency_model_ref residency =
       store_get (component_store w) T_residency_model_ref residency \<and>
     (\<forall>t a. is_alive w a \<longrightarrow> get_component w' t a = get_component w t a) \<and>
     last_committed_events w' = [deploy_event cmd al (eid model) (eid residency)]"

lemma next_ids_fresh:
  assumes "world_inv w"
  shows "fresh_spawn w \<lparr>sp_entity = Entity (next_id w + n) 0, sp_kind = k, sp_is_pending = b\<rparr>"
    and "\<not> is_alive w (Entity (next_id w + n) 0)" and "next_id w + n \<notin> set (free_list w)"
proof -
  have s: "slot_at w (next_id w + n - 1) = None" using slot_past_end[OF assms, of "next_id w + n"] by simp
  show "fresh_spawn w \<lparr>sp_entity = Entity (next_id w + n) 0, sp_kind = k, sp_is_pending = b\<rparr>"
    using s assms by (simp add: fresh_spawn_def occupied_def world_inv_def)
  show "\<not> is_alive w (Entity (next_id w + n) 0)" using s by (simp add: is_alive_iff)
  show "next_id w + n \<notin> set (free_list w)" using assms s by (auto simp: world_inv_def vacated_def)
qed

lemma deploy_effect:
  fixes w :: "('x, 'a) service_world"
  assumes inv: "world_inv w" and room: "has_room w 8"
    and ids: "model = Entity (next_id w) 0" "residency = Entity (next_id w + 1) 0"
  shows "\<exists>w'. transit False (deploy_txn uuid cmd al d model residency w) w = Ok (current_epoch w + 1, w') \<and>
     deployed uuid cmd al d model residency w w'"
proof -
  let ?txn = "deploy_txn uuid cmd al d model residency w"
  note ev = deploy_txn_def stage_residency_def staging_defs Let_def
  have ne: "model \<noteq> residency" using ids by simp
  note fm = next_ids_fresh[OF inv, of 0, simplified, folded ids(1)]
    and fr = next_ids_fresh[OF inv, of 1, folded ids(2)]
  have sp: "spawns ?txn = [\<lparr>sp_entity = model, sp_kind = Model, sp_is_pending = False\<rparr>,
      \<lparr>sp_entity = residency, sp_kind = Residency, sp_is_pending = False\<rparr>]"
    by (simp add: ev)
  have misc: "pending_resolutions ?txn = []" "read_deps ?txn = []" "removes ?txn = []"
    "expected_epoch ?txn = current_epoch w" "events ?txn = [deploy_event cmd al (eid model) (eid residency)]"
    "length (inserts ?txn) = 8"
    by (simp_all add: ev)
  have tg: "\<forall>i \<in> set (inserts ?txn). si_entity i = model \<or> si_entity i = residency"
    "distinct (map (\<lambda>i. (si_entity i, si_type_id i)) (inserts ?txn))"
    using ne by (auto simp: ev)
  have v: "valid_txn w None ?txn"
    using sp misc(2,3) tg fm(2) fr(2) ne by (auto simp: valid_txn_def spawned_entities_def targets_def)
  have "plain_txn ?txn" using sp misc(1) by (simp add: plain_txn_def)
  moreover have "fresh_spawns w (spawns ?txn)" using sp fm(1) fr(1) by (simp add: fresh_spawns_def)
  moreover have "\<forall>s \<in> set (spawns ?txn). eid (sp_entity s) \<notin> set (free_list w)"
    using sp fm(3) fr(3) ids by simp
  moreover have "has_room w (length (inserts ?txn) + length (removes ?txn))" using room misc(3,6) by simp
  ultimately obtain w' where t: "transit False ?txn w = Ok (current_epoch w + 1, w')" and cm: "committed ?txn w w'"
    using transit_valid[OF inv _ misc(4) v] by blast
  have alive: "is_alive w' a \<longleftrightarrow> is_alive w a \<or> a = model \<or> a = residency" for a
    using cm sp by (auto simp: committed_def spawned_entities_def)
  have get: "get_component w' t a = y" if "staged_effect ?txn t a = Some y" "a = model \<or> a = residency" for t a y
    using committed_new[OF cm _ that(1)] alive[of a] that(2) by blast
  have old: "get_component w' t a = get_component w t a" if "is_alive w a" for t a
  proof (rule committed_old[OF cm that])
    show "a \<notin> targets ?txn" using tg(1) misc(3) that fm(2) fr(2) by (auto simp: targets_def)
  qed
  have st: "staged_effect ?txn T_model_id model = Some (Some (VModelId uuid))"
    "staged_effect ?txn T_model_artifact_ref model =
       Some (Some (VModelArtifactRef \<lparr>mar_artifact_id = dm_artifact cmd, mar_digest = d\<rparr>))"
    "staged_effect ?txn T_model_lifecycle model = Some (Some (VModelLifecycle ModelCreated))"
    "staged_effect ?txn T_residency_device_ref residency =
       Some (Some (VResidencyDeviceRef \<lparr>rdr_device_id = dm_device cmd, rdr_stable_id = dm_stable_id cmd\<rparr>))"
    "staged_effect ?txn T_residency_memory_claim residency =
       Some (Some (VResidencyMemoryClaim \<lparr>requested_bytes = dm_memory_bytes cmd, actual_bytes = al_bytes al\<rparr>))"
    "staged_effect ?txn T_residency_format residency =
       Some (Some (VResidencyFormat (parse_format (al_format_str al))))"
    "staged_effect ?txn T_residency_lifecycle residency = Some (Some (VResidencyLifecycle Binding))"
    "staged_effect ?txn T_allocation_token residency = Some (Some (VAllocationToken (al_token al)))"
    using ne by (simp_all add: ev staged_defs)
  note new = st(1-3)[THEN get, simplified] st(4-8)[THEN get, simplified]
  have "staged_effect ?txn T_residency_model_ref residency = None" by (simp add: ev staged_defs)
  then have "get_component w' T_residency_model_ref residency =
       store_get (component_store w) T_residency_model_ref residency"
    using cm alive[of residency] by (simp add: committed_def)
  moreover have "entity_kind_of w' model = Some Model" "entity_kind_of w' residency = Some Residency"
    using cm sp by (simp_all add: committed_def)
  ultimately have "deployed uuid cmd al d model residency w w'"
    unfolding deployed_def typed_get_defs using cm alive old new misc(5) by (simp add: committed_def)
  then show ?thesis using t by blast
qed

lemma deploy_result:
  fixes w :: "('x, 'a) service_world"
  assumes inv: "world_inv w" and room: "has_room w 8" and dp: "deployable cmd w reg"
    and an: "answers digest cmd oc" and none: "find_model_by_artifact w (dm_artifact cmd) = None"
  shows "\<exists>d w'. get_artifact_digest w (Entity (dm_artifact cmd) 0) = Some d \<and>
     deploy_execute digest uuid cmd reg oc w =
       Ok ((current_epoch w + 1, deploy_event cmd (parse_allocation cmd oc) (next_id w) (next_id w + 1)), w') \<and>
     deployed uuid cmd (parse_allocation cmd oc) d (Entity (next_id w) 0) (Entity (next_id w + 1) 0) w w'"
proof -
  obtain d where d: "get_artifact_digest w (Entity (dm_artifact cmd) 0) = Some d"
    using dp by (auto simp: deployable_def)
  obtain w' where "transit False (deploy_txn uuid cmd (parse_allocation cmd oc) d (Entity (next_id w) 0)
      (Entity (next_id w + 1) 0) w) w = Ok (current_epoch w + 1, w')"
    "deployed uuid cmd (parse_allocation cmd oc) d (Entity (next_id w) 0) (Entity (next_id w + 1) 0) w w'"
    using deploy_effect[OF inv room refl refl] by blast
  moreover have "deploy_preflight cmd w reg = Ok ()" using dp by (simp add: deploy_preflight_Ok)
  ultimately show ?thesis
    using d an none by (auto simp: deploy_execute_def answers_def Let_def commit_deploy_def)
qed

text \<open>A deployed model is placed on no device as far as sessions can tell.\<close>

lemma deployed_not_placed:
  assumes dep: "deployed uuid cmd al d (Entity m 0) r w w'"
    and orphan: "store_get (component_store w) T_residency_model_ref r = None"
    and no_ref: "\<And>e q. get_residency_model_ref w e = Some q \<Longrightarrow> rmr_model_id q \<noteq> m"
  shows "\<not> placed w' m dev"
proof
  assume "placed w' m dev"
  then obtain e q where e: "is_alive w' e" "entity_kind_of w' e = Some Residency"
    "get_residency_model_ref w' e = Some q" "rmr_model_id q = m"
    by (auto simp: placed_def)
  consider "is_alive w e" | "e = Entity m 0" | "e = r" using e(1) dep by (auto simp: deployed_def)
  then show False
  proof cases
    case 1
    then have "get_residency_model_ref w' e = get_residency_model_ref w e"
      using dep by (simp add: deployed_def get_residency_model_ref_def)
    then show ?thesis using no_ref e(3,4) by auto
  next
    case 2
    then show ?thesis using dep e(2) by (simp add: deployed_def)
  next
    case 3
    then have "get_residency_model_ref w' e = None"
      using dep orphan by (simp add: deployed_def get_residency_model_ref_def)
    then show ?thesis using e(3) by simp
  qed
qed

subsection \<open>The result of a second deployment\<close>

lemma find_residency_alive:
  assumes "find_residency_for_model w m = Some r"
  shows "is_alive w (Entity m 0)"
proof -
  have "get_model_artifact_ref w (Entity m 0) \<noteq> None"
    using assms by (auto simp: find_residency_for_model_def Let_def find_Some_iff split: option.splits)
  then show ?thesis by (auto simp: get_model_artifact_ref_def get_component_alive split: if_splits)
qed

definition redeployed :: "deploy_model \<Rightarrow> nat \<Rightarrow> nat \<Rightarrow> ('x, 'a) service_world \<Rightarrow> ('x, 'a) service_world \<Rightarrow> bool" where
  "redeployed cmd m r w w' \<longleftrightarrow> world_inv w' \<and> (\<forall>a. is_alive w' a = is_alive w a) \<and>
     get_residency_device_ref w' (Entity r 0) = Some \<lparr>rdr_device_id = dm_device cmd, rdr_stable_id = dm_stable_id cmd\<rparr> \<and>
     get_residency_lifecycle w' (Entity r 0) = Some Binding \<and>
     (\<forall>t a. a \<noteq> Entity m 0 \<longrightarrow> a \<noteq> Entity r 0 \<longrightarrow> get_component w' t a = get_component w t a) \<and>
     last_committed_events w' = [redeploy_event cmd m r]"

lemma redeploy_effect:
  fixes w :: "('x, 'a) service_world"
  assumes inv: "world_inv w" and room: "has_room w 6" and al: "is_alive w (Entity m 0)" "is_alive w (Entity r 0)"
  shows "\<exists>w'. transit False (redeploy_txn cmd alloc d m (Entity r 0) w) w = Ok (current_epoch w + 1, w') \<and>
     redeployed cmd m r w w'"
proof -
  let ?m = "Entity m 0" and ?r = "Entity r 0" and ?txn = "redeploy_txn cmd alloc d m (Entity r 0) w"
  note ev = redeploy_txn_def stage_residency_def staging_defs Let_def has_entity_def
  have misc: "spawns ?txn = []" "pending_resolutions ?txn = []" "read_deps ?txn = []" "removes ?txn = []"
    "expected_epoch ?txn = current_epoch w" "events ?txn = [redeploy_event cmd m r]" "length (inserts ?txn) = 6"
    using al by (simp_all add: ev)
  have tg: "\<forall>i \<in> set (inserts ?txn). si_entity i = ?m \<or> si_entity i = ?r"
    "distinct (map (\<lambda>i. (si_entity i, si_type_id i)) (inserts ?txn))"
    using al by (auto simp: ev)
  have v: "valid_txn w None ?txn"
    using misc tg al by (auto simp: valid_txn_def spawned_entities_def targets_def)
  have "plain_txn ?txn" "fresh_spawns w (spawns ?txn)" "\<forall>s \<in> set (spawns ?txn). eid (sp_entity s) \<notin> set (free_list w)"
    "has_room w (length (inserts ?txn) + length (removes ?txn))"
    using misc room by (simp_all add: plain_txn_def fresh_spawns_def)
  then obtain w' where t: "transit False ?txn w = Ok (current_epoch w + 1, w')" and cm: "committed ?txn w w'"
    using transit_valid[OF inv _ misc(5) v] by blast
  have alive: "is_alive w' a = is_alive w a" for a
    using cm misc(1) by (simp add: committed_def spawned_entities_def)
  have "staged_effect ?txn T_residency_device_ref ?r =
       Some (Some (VResidencyDeviceRef \<lparr>rdr_device_id = dm_device cmd, rdr_stable_id = dm_stable_id cmd\<rparr>))"
    "staged_effect ?txn T_residency_lifecycle ?r = Some (Some (VResidencyLifecycle Binding))"
    using al by (simp_all add: ev staged_defs)
  then have new: "get_residency_device_ref w' ?r = Some \<lparr>rdr_device_id = dm_device cmd, rdr_stable_id = dm_stable_id cmd\<rparr>"
    "get_residency_lifecycle w' ?r = Some Binding"
    using cm al(2) alive by (simp_all add: committed_def typed_get_defs)
  have "get_component w' t a = get_component w t a" if "a \<noteq> ?m" "a \<noteq> ?r" for t a
  proof (cases "is_alive w a")
    case True
    have "a \<notin> targets ?txn" using tg(1) misc(4) that by (auto simp: targets_def)
    then show ?thesis by (rule committed_old[OF cm True])
  qed (simp add: get_component_alive alive)
  then have "redeployed cmd m r w w'"
    using cm alive new misc(6) by (simp add: redeployed_def committed_def)
  then show ?thesis using t by blast
qed

lemma redeploy_result:
  fixes w :: "('x, 'a) service_world"
  assumes inv: "world_inv w" and room: "has_room w 6" and dp: "deployable cmd w reg"
    and an: "answers digest cmd oc" and m: "find_model_by_artifact w (dm_artifact cmd) = Some m"
    and r: "find_residency_for_model w m = Some r" and al: "is_alive w (Entity r 0)"
  shows "\<exists>w'. deploy_execute digest uuid cmd reg oc w = Ok ((current_epoch w + 1, redeploy_event cmd m r), w') \<and>
     redeployed cmd m r w w'"
proof -
  obtain d where d: "get_artifact_digest w (Entity (dm_artifact cmd) 0) = Some d"
    using dp by (auto simp: deployable_def)
  obtain w' where "transit False (redeploy_txn cmd (parse_allocation cmd oc) d m (Entity r 0) w) w =
      Ok (current_epoch w + 1, w')" "redeployed cmd m r w w'"
    using redeploy_effect[OF inv room find_residency_alive[OF r] al] by blast
  moreover have "deploy_preflight cmd w reg = Ok ()" using dp by (simp add: deploy_preflight_Ok)
  ultimately show ?thesis
    using d an m r by (auto simp: deploy_execute_def answers_def Let_def commit_deploy_def)
qed

subsection \<open>The result of a replay\<close>

text \<open>What the replay of a first deployment restores: all but the model's UUID, the artifact's digest, the device's
  stable id and the allocation token.\<close>

definition deploy_restored :: "deploy_model \<Rightarrow> allocation \<Rightarrow> entity \<Rightarrow> entity \<Rightarrow> ('x, 'a) service_world \<Rightarrow> bool" where
  "deploy_restored cmd al model residency w' \<longleftrightarrow>
     entity_kind_of w' model = Some Model \<and> entity_kind_of w' residency = Some Residency \<and>
     get_model_artifact_ref w' model = Some \<lparr>mar_artifact_id = dm_artifact cmd, mar_digest = replicate 32 0\<rparr> \<and>
     get_model_lifecycle w' model = Some ModelCreated \<and>
     get_residency_device_ref w' residency = Some \<lparr>rdr_device_id = dm_device cmd, rdr_stable_id = ''replay''\<rparr> \<and>
     get_component w' T_residency_memory_claim residency =
       Some (VResidencyMemoryClaim \<lparr>requested_bytes = dm_memory_bytes cmd, actual_bytes = al_bytes al\<rparr>) \<and>
     get_component w' T_residency_format residency = Some (VResidencyFormat (parse_format (al_format_str al))) \<and>
     get_residency_lifecycle w' residency = Some Binding"

text \<open>The id is positive, its slot is empty and it is not up for reuse.\<close>

definition id_free :: "('v, 'm) world_scheme \<Rightarrow> nat \<Rightarrow> bool" where
  "id_free w i \<longleftrightarrow> i \<noteq> 0 \<and> \<not> occupied (slot_at w (i - 1)) \<and> i \<notin> set (free_list w)"

lemma id_free_fresh:
  assumes "id_free w i"
  shows "fresh_spawn w \<lparr>sp_entity = Entity i 0, sp_kind = k, sp_is_pending = b\<rparr>" "\<not> is_alive w (Entity i 0)"
  using assms by (auto simp: id_free_def fresh_spawn_def is_alive_iff occupied_def)

lemma replay_deploy_result:
  fixes w :: "('x, 'a) service_world"
  assumes inv: "world_inv w" and room: "has_room w 6" and free: "id_free w m" "id_free w r" and ne: "m \<noteq> r"
  shows "\<exists>w'. replay_model_deployed w (deploy_event cmd al m r) = Ok ((current_epoch w + 1, m), w') \<and>
     deploy_restored cmd al (Entity m 0) (Entity r 0) w'"
proof -
  let ?m = "Entity m 0" and ?r = "Entity r 0" and ?ev = "deploy_event cmd al m r"
  let ?txn = "replay_deploy_txn ?m ?r (dm_device cmd) ?ev w"
  have pl: "payload_num ''artifact'' ?ev = Some (dm_artifact cmd)" "payload_num ''device'' ?ev = Some (dm_device cmd)"
    "payload_num ''residency_id'' ?ev = Some r" "payload_num ''memory_requested'' ?ev = Some (dm_memory_bytes cmd)"
    "payload_num ''memory_actual'' ?ev = Some (al_bytes al)" "ev_entity_id ?ev = Some m"
    "Option.bind (json_get ''format'' (ev_payload ?ev)) as_str = Some (al_format_str al)"
    by (simp_all add: payload_num_def deploy_event_def)
  note fm = id_free_fresh[OF free(1)] and fr = id_free_fresh[OF free(2)]
  note ev = replay_deploy_txn_def staging_defs Let_def has_entity_def pl unwrap_or_def
  have sp: "spawns ?txn = [\<lparr>sp_entity = ?m, sp_kind = Model, sp_is_pending = False\<rparr>,
      \<lparr>sp_entity = ?r, sp_kind = Residency, sp_is_pending = False\<rparr>]"
    using fm(2) fr(2) by (simp add: ev)
  have misc: "pending_resolutions ?txn = []" "read_deps ?txn = []" "removes ?txn = []"
    "expected_epoch ?txn = current_epoch w" "length (inserts ?txn) = 6"
    using fm(2) fr(2) by (simp_all add: ev)
  have tg: "\<forall>i \<in> set (inserts ?txn). si_entity i = ?m \<or> si_entity i = ?r"
    "distinct (map (\<lambda>i. (si_entity i, si_type_id i)) (inserts ?txn))"
    using ne fm(2) fr(2) by (auto simp: ev)
  have v: "valid_txn w None ?txn"
    using sp misc(2,3) tg fm(2) fr(2) ne by (auto simp: valid_txn_def spawned_entities_def targets_def)
  have "plain_txn ?txn" "fresh_spawns w (spawns ?txn)" using sp misc(1) fm(1) fr(1) by (simp_all add: plain_txn_def fresh_spawns_def)
  moreover have "\<forall>s \<in> set (spawns ?txn). eid (sp_entity s) \<notin> set (free_list w)"
    using sp free by (simp add: id_free_def)
  moreover have "has_room w (length (inserts ?txn) + length (removes ?txn))" using room misc(3,5) by simp
  ultimately obtain w' where t: "transit False ?txn w = Ok (current_epoch w + 1, w')" and cm: "committed ?txn w w'"
    using transit_valid[OF inv _ misc(4) v] by blast
  have alive: "is_alive w' ?m" "is_alive w' ?r" using cm sp by (simp_all add: committed_def spawned_entities_def)
  have "staged_effect ?txn T_model_artifact_ref ?m =
       Some (Some (VModelArtifactRef \<lparr>mar_artifact_id = dm_artifact cmd, mar_digest = replicate 32 0\<rparr>))"
    "staged_effect ?txn T_model_lifecycle ?m = Some (Some (VModelLifecycle ModelCreated))"
    using ne fm(2) fr(2) by (simp_all add: ev staged_defs)
  note new_m = this[THEN committed_new[OF cm alive(1)]]
  have "staged_effect ?txn T_residency_device_ref ?r =
       Some (Some (VResidencyDeviceRef \<lparr>rdr_device_id = dm_device cmd, rdr_stable_id = ''replay''\<rparr>))"
    "staged_effect ?txn T_residency_memory_claim ?r =
       Some (Some (VResidencyMemoryClaim \<lparr>requested_bytes = dm_memory_bytes cmd, actual_bytes = al_bytes al\<rparr>))"
    "staged_effect ?txn T_residency_format ?r =
       Some (Some (VResidencyFormat (parse_format (al_format_str al))))"
    "staged_effect ?txn T_residency_lifecycle ?r = Some (Some (VResidencyLifecycle Binding))"
    using ne fm(2) fr(2) by (simp_all add: ev staged_defs)
  note new_r = this[THEN committed_new[OF cm alive(2)]]
  have "entity_kind_of w' ?m = Some Model" "entity_kind_of w' ?r = Some Residency"
    using cm sp by (simp_all add: committed_def)
  then have "deploy_restored cmd al ?m ?r w'"
    unfolding deploy_restored_def typed_get_defs by (simp add: new_m new_r)
  moreover have "replay_model_deployed w ?ev = Ok ((current_epoch w + 1, m), w')"
    using t by (simp add: replay_model_deployed_def pl)
  ultimately show ?thesis by blast
qed

subsection \<open>Properties\<close>

text \<open>
  A world with an artifact, two ready devices, and a model deployed from the artifact to the first
  device; \<open>fresh_sample\<close> is the same world without the model.
\<close>

definition slots_of :: "entity_kind list \<Rightarrow> entity_slot option list" where
  "slots_of ks = map (\<lambda>k. Some \<lparr>generation = 0, occupant = Some \<lparr>okind = k, oname = None\<rparr>\<rparr>) ks"

definition fresh_sample :: "(unit, unit) service_world" where
  "fresh_sample = \<lparr>component_store =
       [T_artifact_digest \<mapsto> one_entry (Entity 1 0) (VArtifactDigest []),
        T_device_lifecycle \<mapsto> one_entry (Entity 2 0) (VDeviceLifecycle DevReady),
        T_device_stable_id \<mapsto> one_entry (Entity 2 0) (VDeviceStableId ''d'')],
     resource_store = Map.empty, entity_meta = slots_of [Artifact, Device],
     next_id = 3, free_list = [], staging = [], component_versions = Map.empty,
     mutation_policy = Bootstrap, epoch_ext = Some 4,
     journal_ext = None, events_ext = None, advisory_ext = None\<rparr>"

definition deploy_sample :: deploy_model where
  "deploy_sample = \<lparr>dm_id = [], dm_artifact = 1, dm_device = 2, dm_stable_id = ''d'', dm_format = Native,
     dm_memory_bytes = 8\<rparr>"

definition outcome_sample :: effect_outcome where
  "outcome_sample = \<lparr>eo_id = [], eo_request_id = [1], eo_success = True, eo_output = JNull\<rparr>"

definition residency_registry :: schema_registry where
  "residency_registry = (\<lambda>i. if i \<in> {5..14} then Some \<lparr>se_schema_id = i, se_version = 1, se_type_name = '''',
     se_description = '''', se_durability = Durable, se_type_id = None\<rparr> else None)"

lemma fresh_sample_inv:
  "world_inv fresh_sample" "has_room fresh_sample 100" "deployable deploy_sample fresh_sample residency_registry"
  "answers (\<lambda>_. [1]) deploy_sample outcome_sample" "find_model_by_artifact fresh_sample 1 = None"
  "next_id fresh_sample = 3" "current_epoch fresh_sample = 4"
proof -
  have "store_inv (component_store fresh_sample)"
    by (auto simp: fresh_sample_def store_inv_def col_inv_one split: if_splits)
  then show "world_inv fresh_sample" by (simp add: world_inv_def fresh_sample_def slots_of_def)
  show "has_room fresh_sample 100"
    by (simp add: has_room_def store_len_def fresh_sample_def column_or_new_def column_new_def one_entry_def)
  have al: "is_alive fresh_sample (Entity 1 0)" "is_alive fresh_sample (Entity 2 0)"
    by (simp_all add: is_alive_iff fresh_sample_def slots_of_def slot_at_def nth_opt_def)
  have k: "entity_kind_of fresh_sample (Entity 1 0) = Some Artifact"
    "entity_kind_of fresh_sample (Entity 2 0) = Some Device"
    by (simp_all add: entity_kind_of_def validate_generation_def fresh_sample_def slots_of_def slot_at_def nth_opt_def)
  have g: "get_artifact_digest fresh_sample (Entity 1 0) = Some []"
    "get_device_lifecycle fresh_sample (Entity 2 0) = Some DevReady"
    "get_device_stable_id fresh_sample (Entity 2 0) = Some ''d''"
    "get_device_memory_limits fresh_sample (Entity 2 0) = None"
    using al by (simp_all add: typed_get_defs get_component_alive store_get_def column_get_one fresh_sample_def)
  have "residency_schemas residency_registry"
    by (simp add: residency_schemas_def schema_bound_def residency_registry_def)
  then show "deployable deploy_sample fresh_sample residency_registry"
    using al k g by (simp add: deployable_def deploy_sample_def ready_device_def)
  show "answers (\<lambda>_. [1]) deploy_sample outcome_sample"
    by (simp add: answers_def outcome_sample_def effect_request_id_def)
  have "entities_of_kind Model fresh_sample = []"
    by (simp add: entities_of_kind_def fresh_sample_def slots_of_def)
  then show "find_model_by_artifact fresh_sample 1 = None" by (simp add: find_model_by_artifact_def)
  show "next_id fresh_sample = 3" "current_epoch fresh_sample = 4"
    by (simp_all add: fresh_sample_def current_epoch_def)
qed

text \<open>The preflight of a deployment passes exactly when its schemas are registered, the artifact has a digest,
  the device is ready and has the stable id of the command, and at least one of the device's memory
  limits, total or largest allocation, covers the request.\<close>

theorem deploy_preflight_iff:
  "deploy_preflight cmd w reg = Ok () \<longleftrightarrow> deployable cmd w reg"
  by (rule deploy_preflight_Ok)

text \<open>C11: A first deployment of an artifact that is deployable and answered by a successful allocation commits:
  two fresh handles carry the model and its residency with all their components, and nothing else changes.\<close>

theorem first_deployment_correct:
  fixes w :: "('x, 'a) service_world"
  assumes "world_inv w" and "has_room w 8" and "deployable cmd w reg" and "answers digest cmd oc"
    and "find_model_by_artifact w (dm_artifact cmd) = None"
  shows "\<exists>d w'. get_artifact_digest w (Entity (dm_artifact cmd) 0) = Some d \<and>
     deploy_execute digest uuid cmd reg oc w =
       Ok ((current_epoch w + 1, deploy_event cmd (parse_allocation cmd oc) (next_id w) (next_id w + 1)), w') \<and>
     deployed uuid cmd (parse_allocation cmd oc) d (Entity (next_id w) 0) (Entity (next_id w + 1) 0) w w'"
  using deploy_result[OF assms] .

theorem first_deployment_correct_witness:
  "\<exists>r w'. deploy_execute (\<lambda>_. [1]) 7 deploy_sample residency_registry outcome_sample fresh_sample = Ok (r, w') \<and>
     get_model_lifecycle w' (Entity 3 0) = Some ModelCreated \<and> get_residency_lifecycle w' (Entity 4 0) = Some Binding"
proof -
  have room: "has_room fresh_sample 8" using has_room_mono[OF fresh_sample_inv(2)] by simp
  have none: "find_model_by_artifact fresh_sample (dm_artifact deploy_sample) = None"
    using fresh_sample_inv(5) by (simp add: deploy_sample_def)
  from first_deployment_correct[OF fresh_sample_inv(1) room fresh_sample_inv(3,4) none, of 7]
  show ?thesis using fresh_sample_inv(6) by (auto simp: deployed_def)
qed

text \<open>A model that was just deployed is refused to sessions: the deployment gives its residency no
  reference to the model, which admission looks for, so no admission that names the model succeeds.\<close>

theorem deployed_model_not_admitted:
  fixes w :: "('x, 'a) service_world"
  assumes "world_inv w" and "has_room w 8" and "deployable cmd w reg" and "answers digest cmd oc"
    and "find_model_by_artifact w (dm_artifact cmd) = None"
    and "store_get (component_store w) T_residency_model_ref (Entity (next_id w + 1) 0) = None"
    and "\<forall>e q. get_residency_model_ref w e = Some q \<longrightarrow> rmr_model_id q \<noteq> next_id w"
  shows "\<exists>r w'. deploy_execute digest uuid cmd reg oc w = Ok (r, w') \<and>
     (\<forall>c reg'. next_id w \<in> set (cs_models c) \<longrightarrow> (\<forall>s. create_session_execute c reg' w' \<noteq> Ok s))"
proof -
  obtain d r w' where w': "deploy_execute digest uuid cmd reg oc w = Ok (r, w')"
    "deployed uuid cmd (parse_allocation cmd oc) d (Entity (next_id w) 0) (Entity (next_id w + 1) 0) w w'"
    using deploy_result[OF assms(1-5)] by blast
  have "\<not> placed w' (next_id w) dev" for dev using deployed_not_placed[OF w'(2) assms(6)] assms(7) by blast
  then have "\<not> admissible c w' reg'" if "next_id w \<in> set (cs_models c)" for c reg'
    using that unfolding admissible_def by blast
  then show ?thesis using w'(1) create_session_rejected by blast
qed

theorem deployed_model_not_admitted_witness:
  "\<exists>r w'. deploy_execute (\<lambda>_. [1]) 7 deploy_sample residency_registry outcome_sample fresh_sample = Ok (r, w') \<and>
     (\<forall>s. create_session_execute \<lparr>cs_id = [], cs_config = default_config, cs_models = [3], cs_devices = [2]\<rparr>
        session_registry w' \<noteq> Ok s)"
proof -
  let ?c = "\<lparr>cs_id = [], cs_config = default_config, cs_models = [3], cs_devices = [2]\<rparr>"
  have room: "has_room fresh_sample 8" using has_room_mono[OF fresh_sample_inv(2)] by simp
  have none: "find_model_by_artifact fresh_sample (dm_artifact deploy_sample) = None"
    using fresh_sample_inv(5) by (simp add: deploy_sample_def)
  have o: "store_get (component_store fresh_sample) T_residency_model_ref e = None" for e
    by (simp add: store_get_def fresh_sample_def)
  then have "get_residency_model_ref fresh_sample e = None" for e
    by (simp add: get_residency_model_ref_def get_component_alive)
  then have "\<forall>e q. get_residency_model_ref fresh_sample e = Some q \<longrightarrow> rmr_model_id q \<noteq> next_id fresh_sample"
    by simp
  from deployed_model_not_admitted[OF fresh_sample_inv(1) room fresh_sample_inv(3,4) none o this, where uuid = 7]
  obtain r w' where "deploy_execute (\<lambda>_. [1]) 7 deploy_sample residency_registry outcome_sample fresh_sample = Ok (r, w')"
    "\<forall>c reg'. next_id fresh_sample \<in> set (cs_models c) \<longrightarrow> (\<forall>s. create_session_execute c reg' w' \<noteq> Ok s)"
    by blast
  moreover have "next_id fresh_sample \<in> set (cs_models ?c)" using fresh_sample_inv(6) by simp
  ultimately show ?thesis by blast
qed

text \<open>Replaying the event of a first deployment in a world where its two ids are free restores model and
  residency: their kinds, lifecycles, artifact, device, memory claim and format.\<close>

theorem deployment_replay_roundtrip:
  fixes w0 w :: "('x, 'a) service_world"
  assumes "world_inv w0" and "has_room w0 8" and "deployable cmd w0 reg" and "answers digest cmd oc"
    and "find_model_by_artifact w0 (dm_artifact cmd) = None" and "world_inv w" and "has_room w 6"
    and "id_free w (next_id w0)" and "id_free w (next_id w0 + 1)"
  shows "\<exists>n ev w1 w'. deploy_execute digest uuid cmd reg oc w0 = Ok ((n, ev), w1) \<and>
     replay_model_deployed w ev = Ok ((current_epoch w + 1, next_id w0), w') \<and>
     deploy_restored cmd (parse_allocation cmd oc) (Entity (next_id w0) 0) (Entity (next_id w0 + 1) 0) w'"
  using deploy_result[OF assms(1-5), of uuid]
    replay_deploy_result[OF assms(6-9), of cmd "parse_allocation cmd oc"] by auto

theorem deployment_replay_roundtrip_witness:
  "\<exists>n ev w1 w'. deploy_execute (\<lambda>_. [1]) 7 deploy_sample residency_registry outcome_sample fresh_sample = Ok ((n, ev), w1) \<and>
     replay_model_deployed fresh_sample ev = Ok ((5, 3), w') \<and> get_residency_lifecycle w' (Entity 4 0) = Some Binding"
proof -
  have room: "has_room fresh_sample 8" "has_room fresh_sample 6" using has_room_mono[OF fresh_sample_inv(2)] by simp_all
  have none: "find_model_by_artifact fresh_sample (dm_artifact deploy_sample) = None"
    using fresh_sample_inv(5) by (simp add: deploy_sample_def)
  have free: "id_free fresh_sample (next_id fresh_sample)" "id_free fresh_sample (next_id fresh_sample + 1)"
    by (simp_all add: id_free_def fresh_sample_def slots_of_def slot_at_def nth_opt_def occupied_def)
  from deployment_replay_roundtrip[OF fresh_sample_inv(1) room(1) fresh_sample_inv(3,4) none fresh_sample_inv(1) room(2) free,
      of 7]
  show ?thesis using fresh_sample_inv(6,7) by (auto simp: deploy_restored_def)
qed

text \<open>Deploying an artifact again, for whatever device, moves the residency of its model: no residency is
  created, the one found names the device of the command and is binding again, and all handles but it and
  the model are as before.\<close>

theorem redeployment_moves_residency:
  fixes w :: "('x, 'a) service_world"
  assumes "world_inv w" and "has_room w 6" and "deployable cmd w reg" and "answers digest cmd oc"
    and "find_model_by_artifact w (dm_artifact cmd) = Some m" and "find_residency_for_model w m = Some r"
    and "is_alive w (Entity r 0)"
  shows "\<exists>w'. deploy_execute digest uuid cmd reg oc w = Ok ((current_epoch w + 1, redeploy_event cmd m r), w') \<and>
     redeployed cmd m r w w'"
  using redeploy_result[OF assms] .

definition moved_sample :: "(unit, unit) service_world" where
  "moved_sample = fresh_sample\<lparr>component_store := (component_store fresh_sample)
       (T_model_artifact_ref \<mapsto> one_entry (Entity 3 0) (VModelArtifactRef \<lparr>mar_artifact_id = 1, mar_digest = []\<rparr>),
        T_residency_device_ref \<mapsto> one_entry (Entity 4 0) (VResidencyDeviceRef \<lparr>rdr_device_id = 5, rdr_stable_id = ''e''\<rparr>)),
     entity_meta := slots_of [Artifact, Device, Model, Residency, Device], next_id := 6\<rparr>"

theorem redeployment_moves_residency_witness:
  "\<exists>r w'. deploy_execute (\<lambda>_. [1]) 7 deploy_sample residency_registry outcome_sample moved_sample = Ok (r, w') \<and>
     map_option rdr_device_id (get_residency_device_ref moved_sample (Entity 4 0)) = Some 5 \<and>
     map_option rdr_device_id (get_residency_device_ref w' (Entity 4 0)) = Some 2"
proof -
  let ?w = moved_sample
  have "store_inv (component_store ?w)"
    by (auto simp: moved_sample_def fresh_sample_def store_inv_def col_inv_one split: if_splits)
  then have inv: "world_inv ?w" by (simp add: world_inv_def moved_sample_def fresh_sample_def slots_of_def)
  have room: "has_room ?w 6"
    by (simp add: has_room_def store_len_def moved_sample_def fresh_sample_def column_or_new_def column_new_def one_entry_def)
  have al: "is_alive ?w (Entity 1 0)" "is_alive ?w (Entity 2 0)" "is_alive ?w (Entity 3 0)" "is_alive ?w (Entity 4 0)"
    by (simp_all add: is_alive_iff moved_sample_def fresh_sample_def slots_of_def slot_at_def nth_opt_def)
  have k: "entity_kind_of ?w (Entity 1 0) = Some Artifact" "entity_kind_of ?w (Entity 2 0) = Some Device"
    "entity_kind_of ?w (Entity 4 0) = Some Residency"
    by (simp_all add: entity_kind_of_def validate_generation_def moved_sample_def fresh_sample_def slots_of_def
        slot_at_def nth_opt_def)
  have g: "get_artifact_digest ?w (Entity 1 0) = Some []" "get_device_lifecycle ?w (Entity 2 0) = Some DevReady"
    "get_device_stable_id ?w (Entity 2 0) = Some ''d''" "get_device_memory_limits ?w (Entity 2 0) = None"
    "get_model_artifact_ref ?w (Entity 3 0) = Some \<lparr>mar_artifact_id = 1, mar_digest = []\<rparr>"
    "get_residency_device_ref ?w (Entity 4 0) = Some \<lparr>rdr_device_id = 5, rdr_stable_id = ''e''\<rparr>"
    using al by (simp_all add: typed_get_defs get_component_alive store_get_def column_get_one moved_sample_def fresh_sample_def)
  have "residency_schemas residency_registry"
    by (simp add: residency_schemas_def schema_bound_def residency_registry_def)
  then have dp: "deployable deploy_sample ?w residency_registry"
    using al k g by (simp add: deployable_def deploy_sample_def ready_device_def)
  have "entities_of_kind Model ?w = [Entity 3 0]" "entities_of_kind Residency ?w = [Entity 4 0]"
    by (simp_all add: entities_of_kind_def moved_sample_def fresh_sample_def slots_of_def)
  then have m: "find_model_by_artifact ?w (dm_artifact deploy_sample) = Some 3"
    and r: "find_residency_for_model ?w 3 = Some 4"
    using g al k by (simp_all add: find_model_by_artifact_def deploy_sample_def find_residency_for_model_def has_entity_def)
  from redeployment_moves_residency[OF inv room dp fresh_sample_inv(4) m r al(4), where uuid = 7]
  obtain w' where "deploy_execute (\<lambda>_. [1]) 7 deploy_sample residency_registry outcome_sample ?w =
      Ok ((current_epoch ?w + 1, redeploy_event deploy_sample 3 4), w')" "redeployed deploy_sample 3 4 ?w w'" by blast
  then show ?thesis using g(6) by (auto simp: redeployed_def deploy_sample_def)
qed

text \<open>The schema ids of the session and the residency modules collide: once schema 13 is registered with a
  type, the registry cannot pass the checks of both modules.\<close>

theorem schema_ids_collide:
  assumes "reg 13 = Some entry" and "se_type_id entry \<noteq> None"
  shows "validate_session_schemas reg \<noteq> Ok () \<or> validate_residency_schemas reg \<noteq> Ok ()"
  using assms by (auto simp: validate_session_schemas_Ok validate_residency_schemas_Ok session_schemas_def
      residency_schemas_def schema_bound_def)

theorem schema_ids_collide_witness:
  "validate_session_schemas session_registry = Ok () \<and> validate_residency_schemas session_registry \<noteq> Ok ()"
proof -
  have "session_registry 13 = Some \<lparr>se_schema_id = 13, se_version = 1, se_type_name = ''SessionConfig'',
     se_description = '''', se_durability = Durable, se_type_id = Some T_session_config\<rparr>"
    by (simp add: session_registry_def register_for_type_def)
  from schema_ids_collide[where reg = session_registry, OF this] session_sample_inv(4)
  show ?thesis by (simp add: validate_session_schemas_Ok)
qed

end
