(* ===== verification/Inference.thy ===== *)
theory Inference
  imports Prism_Prelude
begin

text \<open>
  The token bookkeeping of an inference request (\<open>inference.rs\<close> of the runtime): the metadata a work entity
  carries, the prefill chunks, the decode steps and the tokens admission reserves. Token counts are \<open>u32\<close>
  and saturate.
\<close>

subsection \<open>Inference metadata\<close>

datatype inference_phase = Prefill | Decode

record inference_hint =
  ih_prompt_tokens :: "32 word"
  ih_max_new_tokens :: "32 word"
  ih_prefill_chunk_tokens :: "32 word"
  ih_kv_epoch :: nat
  ih_kv_tokens :: "32 word"
  ih_kv_capacity_tokens :: "32 word"
  ih_deadline_ms :: nat
  ih_priority :: "32 word"

record inference_metadata =
  phase :: inference_phase
  prompt_tokens :: "32 word"
  prefilled_tokens :: "32 word"
  generated_tokens :: "32 word"
  max_new_tokens :: "32 word"
  prefill_chunk_tokens :: "32 word"
  kv_epoch :: nat
  kv_tokens :: "32 word"
  kv_capacity_tokens :: "32 word"
  deadline_ms :: nat
  inf_priority :: "32 word"

text \<open>\<open>u32::MAX\<close> is \<open>- 1\<close>; \<open>saturating_add\<close> and \<open>saturating_sub\<close> on \<open>u32\<close>.\<close>

definition sat_add32 :: "32 word \<Rightarrow> 32 word \<Rightarrow> 32 word" where
  "sat_add32 a b = (if unat a + unat b < 2 ^ 32 then a + b else - 1)"

definition sat_sub32 :: "32 word \<Rightarrow> 32 word \<Rightarrow> 32 word" where
  "sat_sub32 a b = (if b \<le> a then a - b else 0)"

definition inference_default :: inference_metadata where
  "inference_default = \<lparr>phase = Prefill, prompt_tokens = 0, prefilled_tokens = 0, generated_tokens = 0,
     max_new_tokens = 1, prefill_chunk_tokens = 1, kv_epoch = 0, kv_tokens = 0,
     kv_capacity_tokens = - 1, deadline_ms = 0, inf_priority = 0\<rparr>"

text \<open>The hints of a claim without hints are \<open>InferenceHint::default()\<close>.\<close>

definition hint_default :: inference_hint where
  "hint_default = \<lparr>ih_prompt_tokens = 0, ih_max_new_tokens = 1, ih_prefill_chunk_tokens = 1, ih_kv_epoch = 0,
     ih_kv_tokens = 0, ih_kv_capacity_tokens = 0, ih_deadline_ms = 0, ih_priority = 0\<rparr>"

definition from_typed_resource_claim :: "inference_hint option \<Rightarrow> inference_metadata" where
  "from_typed_resource_claim claim =
     (let hint = (case claim of None \<Rightarrow> hint_default | Some h \<Rightarrow> h) in
      inference_default\<lparr>prompt_tokens := ih_prompt_tokens hint,
        max_new_tokens := max (ih_max_new_tokens hint) 1,
        prefill_chunk_tokens := max (ih_prefill_chunk_tokens hint) 1,
        kv_epoch := ih_kv_epoch hint, kv_tokens := ih_kv_tokens hint,
        kv_capacity_tokens := (if ih_kv_capacity_tokens hint = 0 then - 1 else ih_kv_capacity_tokens hint),
        deadline_ms := ih_deadline_ms hint, inf_priority := ih_priority hint\<rparr>)"

definition reserved_tokens :: "inference_metadata \<Rightarrow> 32 word" where
  "reserved_tokens m = sat_add32 (sat_add32 (kv_tokens m) (prompt_tokens m)) (max_new_tokens m)"

definition required_kv_tokens :: "inference_metadata \<Rightarrow> 32 word" where
  "required_kv_tokens m = reserved_tokens m"

definition next_prefill_chunk :: "inference_metadata \<Rightarrow> 32 word \<Rightarrow> 32 word \<times> 32 word" where
  "next_prefill_chunk m scheduler_limit =
     (let start = min (prefilled_tokens m) (prompt_tokens m);
          limit = min (prefill_chunk_tokens m) (max scheduler_limit 1)
      in (start, min (sat_add32 start limit) (prompt_tokens m)))"

definition deadline_expired :: "inference_metadata \<Rightarrow> nat \<Rightarrow> bool" where
  "deadline_expired m now_ms \<longleftrightarrow> deadline_ms m \<noteq> 0 \<and> now_ms \<ge> deadline_ms m"

definition next_after_prefill :: "32 word \<Rightarrow> inference_metadata \<Rightarrow> inference_metadata" where
  "next_after_prefill scheduler_limit m =
     (let (_, e) = next_prefill_chunk m scheduler_limit;
          next1 = m\<lparr>prefilled_tokens := e,
            kv_tokens := sat_add32 (kv_tokens m) (sat_sub32 e (min (prefilled_tokens m) (prompt_tokens m)))\<rparr>
      in if prefilled_tokens next1 \<ge> prompt_tokens next1 then next1\<lparr>phase := Decode\<rparr> else next1)"

definition next_after_decode :: "inference_metadata \<Rightarrow> inference_metadata" where
  "next_after_decode m = m\<lparr>generated_tokens := sat_add32 (generated_tokens m) 1,
     kv_tokens := sat_add32 (kv_tokens m) 1, phase := Decode\<rparr>"

definition is_complete_after_decode :: "inference_metadata \<Rightarrow> bool" where
  "is_complete_after_decode m \<longleftrightarrow> sat_add32 (generated_tokens m) 1 \<ge> max_new_tokens m"

subsection \<open>Saturating arithmetic\<close>

lemma unat_sat_add32: "unat (sat_add32 a b) = min (unat a + unat b) (2 ^ 32 - 1)"
proof -
  have "unat (a + b) = unat a + unat b" if "unat a + unat b < 2 ^ 32"
    using that by (simp add: unat_word_ariths)
  moreover have "unat (- 1 :: 32 word) = 2 ^ 32 - 1" by (simp add: unsigned_minus_1_eq_mask mask_eq_exp_minus_1)
  ultimately show ?thesis by (auto simp: sat_add32_def)
qed

lemma unat_sat_sub32: "unat (sat_sub32 a b) = unat a - unat b"
  by (auto simp: sat_sub32_def unat_sub word_le_nat_alt)

lemma unat_min: "unat (min a b) = min (unat a) (unat b)"
  by (simp add: min_def word_le_nat_alt)

lemma unat_max: "unat (max a b) = max (unat a) (unat b)"
  by (simp add: max_def word_le_nat_alt)

lemmas sat_arith = unat_sat_add32 unat_sat_sub32 unat_min unat_max

subsection \<open>Prefilling\<close>

text \<open>The tokens a prefill step may take.\<close>

definition chunk_limit :: "32 word \<Rightarrow> inference_metadata \<Rightarrow> nat" where
  "chunk_limit s m = min (unat (prefill_chunk_tokens m)) (max (unat s) 1)"

lemma min_add_diff: "a \<le> b \<Longrightarrow> b \<le> c \<Longrightarrow> min M (min M (k + (b - a)) + (c - b)) = min M (k + (c - a))"
  for a b c k M :: nat
  by (cases "M \<le> k + (b - a)") simp_all

lemma unat_lt32: "unat (a :: 32 word) < 2 ^ 32"
  using unsigned_less[where 'b = 32 and 'a = nat, of a] by simp

lemma prefill_step:
  assumes "prefilled_tokens m \<le> prompt_tokens m"
  shows "unat (prefilled_tokens (next_after_prefill s m)) =
      min (unat (prompt_tokens m)) (unat (prefilled_tokens m) + chunk_limit s m)"
    and "unat (kv_tokens (next_after_prefill s m)) = min (2 ^ 32 - 1)
      (unat (kv_tokens m) + (unat (prefilled_tokens (next_after_prefill s m)) - unat (prefilled_tokens m)))"
    and "phase (next_after_prefill s m) = (if prefilled_tokens (next_after_prefill s m) = prompt_tokens m
      then Decode else phase m)"
    and "next_after_prefill s m = m\<lparr>prefilled_tokens := prefilled_tokens (next_after_prefill s m),
      kv_tokens := kv_tokens (next_after_prefill s m), phase := phase (next_after_prefill s m)\<rparr>"
    and "prefilled_tokens (next_after_prefill s m) \<le> prompt_tokens m"
proof -
  have le: "unat (prefilled_tokens m) \<le> unat (prompt_tokens m)" using assms by (simp add: word_le_nat_alt)
  have bound: "unat (prompt_tokens m) \<le> 2 ^ 32 - 1" using unat_lt32[of "prompt_tokens m"] by simp
  have "prefilled_tokens (next_after_prefill s m) = min (sat_add32 (min (prefilled_tokens m) (prompt_tokens m))
      (min (prefill_chunk_tokens m) (max s 1))) (prompt_tokens m)"
    by (simp add: next_after_prefill_def next_prefill_chunk_def Let_def)
  then have filled: "unat (prefilled_tokens (next_after_prefill s m)) =
      unat (min (sat_add32 (min (prefilled_tokens m) (prompt_tokens m))
        (min (prefill_chunk_tokens m) (max s 1))) (prompt_tokens m))" by simp
  show "unat (prefilled_tokens (next_after_prefill s m)) =
      min (unat (prompt_tokens m)) (unat (prefilled_tokens m) + chunk_limit s m)"
    unfolding filled sat_arith chunk_limit_def using le bound by (simp add: min_def)
  show "unat (kv_tokens (next_after_prefill s m)) = min (2 ^ 32 - 1)
      (unat (kv_tokens m) + (unat (prefilled_tokens (next_after_prefill s m)) - unat (prefilled_tokens m)))"
  proof -
    have "kv_tokens (next_after_prefill s m) = sat_add32 (kv_tokens m)
        (sat_sub32 (prefilled_tokens (next_after_prefill s m)) (min (prefilled_tokens m) (prompt_tokens m)))"
      by (simp add: next_after_prefill_def next_prefill_chunk_def Let_def)
    then show ?thesis using le by (simp only: sat_arith min_absorb1 min.commute)
  qed
  show le': "prefilled_tokens (next_after_prefill s m) \<le> prompt_tokens m"
    unfolding word_le_nat_alt filled unat_min by simp
  show "phase (next_after_prefill s m) = (if prefilled_tokens (next_after_prefill s m) = prompt_tokens m
      then Decode else phase m)"
    using le' by (auto simp: next_after_prefill_def Let_def split: prod.splits)
  show "next_after_prefill s m = m\<lparr>prefilled_tokens := prefilled_tokens (next_after_prefill s m),
      kv_tokens := kv_tokens (next_after_prefill s m), phase := phase (next_after_prefill s m)\<rparr>"
    by (simp add: next_after_prefill_def Let_def split: prod.splits)
qed

lemma prefill_run:
  fixes s :: "32 word" and m :: inference_metadata
  assumes "prefilled_tokens m \<le> prompt_tokens m"
  defines "r \<equiv> \<lambda>n. (next_after_prefill s ^^ n) m"
  shows "prefilled_tokens (r n) \<le> prompt_tokens m"
    and "unat (prefilled_tokens (r n)) = min (unat (prompt_tokens m)) (unat (prefilled_tokens m) + n * chunk_limit s m)"
    and "unat (kv_tokens (r n)) = min (2 ^ 32 - 1)
      (unat (kv_tokens m) + (unat (prefilled_tokens (r n)) - unat (prefilled_tokens m)))"
    and "r n = m\<lparr>prefilled_tokens := prefilled_tokens (r n), kv_tokens := kv_tokens (r n), phase := phase (r n)\<rparr>"
    and "phase (r n) = (if n \<noteq> 0 \<and> prefilled_tokens (r n) = prompt_tokens m then Decode else phase m)"
proof (induction n)
  case 0
  {
    case 1 show ?case using assms(1) by (simp add: r_def)
  next
    case 2 show ?case using assms(1) by (simp add: r_def word_le_nat_alt)
  next
    case 3 show ?case using unat_lt32[of "kv_tokens m"] by (simp add: r_def)
  next
    case 4 show ?case by (simp add: r_def)
  next
    case 5 show ?case by (simp add: r_def)
  }
next
  case (Suc n)
  have step: "r (Suc n) = next_after_prefill s (r n)" by (simp add: r_def)
  have same: "prompt_tokens (r n) = prompt_tokens m" "chunk_limit s (r n) = chunk_limit s m"
    by (subst Suc.IH(4), simp add: chunk_limit_def)+
  have le: "prefilled_tokens (r n) \<le> prompt_tokens (r n)" using Suc.IH(1) same by simp
  note st = prefill_step[OF le, of s, folded step, unfolded same]
  have mono: "unat (prefilled_tokens m) \<le> unat (prefilled_tokens (r n))"
    using Suc.IH(2) assms(1) by (simp add: word_le_nat_alt)
  have grow: "unat (prefilled_tokens (r n)) \<le> unat (prefilled_tokens (r (Suc n)))"
    using st(1) Suc.IH(1) by (simp add: word_le_nat_alt)
  {
    case 1 show ?case using st(5) .
  next
    case 2 show ?case unfolding st(1) Suc.IH(2) by (simp add: min_def algebra_simps)
  next
    case 3 show ?case unfolding st(2) Suc.IH(3) by (rule min_add_diff[OF mono grow])
  next
    case 4 show ?case by (subst st(4), subst Suc.IH(4)) simp
  next
    case 5
    show ?case
    proof (cases "n \<noteq> 0 \<and> prefilled_tokens (r n) = prompt_tokens m")
      case True
      then have "unat (prefilled_tokens (r (Suc n))) = unat (prompt_tokens m)" using st(1) by simp
      then have "prefilled_tokens (r (Suc n)) = prompt_tokens m" by (metis word_unat_eq_iff)
      then show ?thesis using st(3) by simp
    next
      case False
      then have "phase (r n) = phase m" by (subst Suc.IH(5)) auto
      then show ?thesis using st(3) by simp
    qed
  }
qed

lemma decode_step:
  "unat (generated_tokens (next_after_decode m)) = min (unat (generated_tokens m) + 1) (2 ^ 32 - 1)"
  "unat (kv_tokens (next_after_decode m)) = min (unat (kv_tokens m) + 1) (2 ^ 32 - 1)"
  by (simp_all add: next_after_decode_def sat_arith)

lemma decode_run:
  "(next_after_decode ^^ k) m = m\<lparr>
     generated_tokens := generated_tokens ((next_after_decode ^^ k) m),
     kv_tokens := kv_tokens ((next_after_decode ^^ k) m), phase := (if k = 0 then phase m else Decode)\<rparr>"
  "unat (generated_tokens ((next_after_decode ^^ k) m)) = min (unat (generated_tokens m) + k) (2 ^ 32 - 1)"
  "unat (kv_tokens ((next_after_decode ^^ k) m)) = min (unat (kv_tokens m) + k) (2 ^ 32 - 1)"
proof (induction k)
  case 0
  {
    case 1 show ?case by simp
  next
    case 2 show ?case using unat_lt32[of "generated_tokens m"] by simp
  next
    case 3 show ?case using unat_lt32[of "kv_tokens m"] by simp
  }
next
  case (Suc k)
  {
    case 1
    let ?x = "(next_after_decode ^^ k) m"
    have "next_after_decode ?x = m\<lparr>generated_tokens := sat_add32 (generated_tokens ?x) 1,
        kv_tokens := sat_add32 (kv_tokens ?x) 1, phase := Decode\<rparr>"
      by (subst (1) Suc.IH(1)) (simp add: next_after_decode_def)
    then show ?case by simp
  next
    case 2 show ?case unfolding funpow.simps(2) comp_def decode_step Suc.IH(2) by simp
  next
    case 3 show ?case unfolding funpow.simps(2) comp_def decode_step Suc.IH(3) by simp
  }
qed

lemma claim_metadata:
  fixes c :: "inference_hint option"
  defines "m \<equiv> from_typed_resource_claim c"
  shows "prefilled_tokens m = 0" "generated_tokens m = 0" "phase m = Prefill"
    and "1 \<le> unat (max_new_tokens m)" "1 \<le> chunk_limit s m" "0 < unat (kv_capacity_tokens m)"
proof -
  show "prefilled_tokens m = 0" "generated_tokens m = 0" "phase m = Prefill"
    by (simp_all add: m_def from_typed_resource_claim_def Let_def inference_default_def)
  show "1 \<le> unat (max_new_tokens m)" "1 \<le> chunk_limit s m" "0 < unat (kv_capacity_tokens m)"
    by (auto simp: m_def from_typed_resource_claim_def Let_def chunk_limit_def unat_max unat_gt_0)
qed

lemma claim_prefill:
  fixes c :: "inference_hint option" and s :: "32 word" and n :: nat
  defines "m \<equiv> from_typed_resource_claim c" and "r \<equiv> (next_after_prefill s ^^ n) (from_typed_resource_claim c)"
  shows "1 \<le> chunk_limit s m \<and>
    unat (prefilled_tokens r) = min (unat (prompt_tokens m)) (n * chunk_limit s m) \<and>
    unat (kv_tokens r) = min (2 ^ 32 - 1) (unat (kv_tokens m) + unat (prefilled_tokens r)) \<and>
    (phase r = Decode) = (n \<noteq> 0 \<and> unat (prompt_tokens m) \<le> n * chunk_limit s m) \<and>
    r = m\<lparr>prefilled_tokens := prefilled_tokens r, kv_tokens := kv_tokens r, phase := phase r\<rparr>"
proof -
  have z: "prefilled_tokens m = 0" "phase m = Prefill" unfolding m_def by (simp_all add: claim_metadata)
  then have le: "prefilled_tokens m \<le> prompt_tokens m" by simp
  note run = prefill_run[OF le, where s = s and n = n, folded r_def[folded m_def]]
  have "prefilled_tokens r = prompt_tokens m \<longleftrightarrow> unat (prefilled_tokens r) = unat (prompt_tokens m)"
    by (simp add: word_unat_eq_iff)
  then have "(phase r = Decode) = (n \<noteq> 0 \<and> unat (prompt_tokens m) \<le> n * chunk_limit s m)"
    using run(5) run(2) z by (auto simp: min_def)
  moreover have "1 \<le> chunk_limit s m" unfolding m_def by (rule claim_metadata(5))
  ultimately show ?thesis using run(2,3,4) z by simp
qed

lemma claim_reservation:
  fixes c :: "inference_hint option" and s :: "32 word" and n :: nat
  defines "m \<equiv> from_typed_resource_claim c" and "r \<equiv> (next_after_prefill s ^^ n) (from_typed_resource_claim c)"
  assumes "unat (prompt_tokens m) \<le> n * chunk_limit s m"
  shows "kv_tokens ((next_after_decode ^^ unat (max_new_tokens m)) r) = required_kv_tokens m \<and>
    generated_tokens ((next_after_decode ^^ unat (max_new_tokens m)) r) = max_new_tokens m \<and>
    is_complete_after_decode ((next_after_decode ^^ k) r) = (unat (max_new_tokens m) \<le> k + 1)"
proof -
  let ?d = "\<lambda>k. (next_after_decode ^^ k) r"
  have pre: "unat (prefilled_tokens r) = unat (prompt_tokens m)"
      "unat (kv_tokens r) = min (2 ^ 32 - 1) (unat (kv_tokens m) + unat (prompt_tokens m))"
    using prefill_run[where m = m and s = s and n = n, folded r_def[folded m_def]] claim_metadata(1)[of c, folded m_def] assms(3)
    by simp_all
  obtain a b p where "r = m\<lparr>prefilled_tokens := a, kv_tokens := b, phase := p\<rparr>"
    using prefill_run(4)[where m = m and s = s and n = n, folded r_def[folded m_def]] claim_metadata(1)[of c, folded m_def]
    by auto
  then have gen: "generated_tokens r = 0" "max_new_tokens r = max_new_tokens m"
    using claim_metadata(2)[of c, folded m_def]
    by simp_all
  have lt: "unat (max_new_tokens m) \<le> 2 ^ 32 - 1" using unat_lt32[of "max_new_tokens m"] by simp
  have "unat (kv_tokens (?d (unat (max_new_tokens m)))) = unat (required_kv_tokens m)"
    unfolding decode_run(3) pre(2) required_kv_tokens_def reserved_tokens_def sat_arith using lt by simp
  moreover have "unat (generated_tokens (?d (unat (max_new_tokens m)))) = unat (max_new_tokens m)"
    unfolding decode_run(2) using gen lt by simp
  moreover have "max_new_tokens (?d k) = max_new_tokens m" using gen(2) by (subst decode_run(1)) simp
  then have "is_complete_after_decode (?d k) = (unat (max_new_tokens m) \<le> k + 1)"
    unfolding is_complete_after_decode_def word_le_nat_alt sat_arith decode_run(2) using gen lt by (simp add: min_def)
  ultimately show ?thesis by (simp add: word_unat_eq_iff)
qed

subsection \<open>Properties\<close>

text \<open>C35: the prefill of a request described by any claim covers its prompt in bounded chunks: \<open>n\<close> steps have
  prefilled \<open>n\<close> times the chunk limit, which is at least one token, up to the prompt; each prefilled token is
  counted in the KV tokens, and the request is in the decode phase exactly from the step on that covers the
  prompt.\<close>

theorem prefill_covers_prompt:
  "let m = from_typed_resource_claim c; r = (next_after_prefill s ^^ n) m in
    1 \<le> chunk_limit s m \<and>
    unat (prefilled_tokens r) = min (unat (prompt_tokens m)) (n * chunk_limit s m) \<and>
    unat (kv_tokens r) = min (2 ^ 32 - 1) (unat (kv_tokens m) + unat (prefilled_tokens r)) \<and>
    (phase r = Decode) = (n \<noteq> 0 \<and> unat (prompt_tokens m) \<le> n * chunk_limit s m) \<and>
    r = m\<lparr>prefilled_tokens := prefilled_tokens r, kv_tokens := kv_tokens r, phase := phase r\<rparr>"
  unfolding Let_def by (rule claim_prefill)

text \<open>What admission reserves for a request is what the request uses: when its prompt has been prefilled and
  \<open>max_new_tokens\<close> tokens decoded, its KV tokens are \<open>required_kv_tokens\<close> of its claim, and the last decode
  step is the first one that reports completion.\<close>

theorem reservation_is_exact:
  assumes "unat (prompt_tokens (from_typed_resource_claim c)) \<le> n * chunk_limit s (from_typed_resource_claim c)"
  shows "let m = from_typed_resource_claim c; r = (next_after_prefill s ^^ n) m in
    kv_tokens ((next_after_decode ^^ unat (max_new_tokens m)) r) = required_kv_tokens m \<and>
    generated_tokens ((next_after_decode ^^ unat (max_new_tokens m)) r) = max_new_tokens m \<and>
    is_complete_after_decode ((next_after_decode ^^ k) r) = (unat (max_new_tokens m) \<le> k + 1)"
  unfolding Let_def using assms by (rule claim_reservation)

definition sample_hint :: inference_hint where
  "sample_hint = \<lparr>ih_prompt_tokens = 5, ih_max_new_tokens = 2, ih_prefill_chunk_tokens = 2, ih_kv_epoch = 11,
     ih_kv_tokens = 1, ih_kv_capacity_tokens = 32, ih_deadline_ms = 0, ih_priority = 3\<rparr>"

theorem reservation_is_exact_witness:
  "kv_tokens ((next_after_decode ^^ 2) ((next_after_prefill 4 ^^ 3) (from_typed_resource_claim (Some sample_hint)))) = 8"
proof -
  let ?m = "from_typed_resource_claim (Some sample_hint)"
  have m: "prompt_tokens ?m = 5" "max_new_tokens ?m = 2" "prefill_chunk_tokens ?m = 2" "kv_tokens ?m = 1"
    by (simp_all add: from_typed_resource_claim_def sample_hint_def max_def Let_def word_le_nat_alt)
  then have "unat (prompt_tokens ?m) \<le> 3 * chunk_limit 4 ?m" by (simp add: chunk_limit_def)
  from reservation_is_exact[OF this, of 0] have
    "kv_tokens ((next_after_decode ^^ 2) ((next_after_prefill 4 ^^ 3) ?m)) = required_kv_tokens ?m"
    by (simp add: Let_def m)
  moreover have "required_kv_tokens ?m = 8"
    by (simp add: required_kv_tokens_def reserved_tokens_def sat_add32_def m)
  ultimately show ?thesis by simp
qed

end
