(* ===== verification/Kernel_Types.thy ===== *)
theory Kernel_Types
  imports Work_Items Inference
begin

text \<open>
  What the runtime kernel (\<open>crates/prism-ecs-runtime\<close>) works with: the string operations its handlers call,
  the components of the runtime crate (\<open>inference.rs\<close>, \<open>modality.rs\<close>, \<open>kernel/markers.rs\<close>, \<open>ports/mod.rs\<close>),
  its commands and results (\<open>lifecycle_command.rs\<close>,
  \<open>command_dispatch/envelope.rs\<close>), and stateful computations that may fail. A \<open>string\<close> is the UTF-8
  bytes of the Rust \<open>String\<close>.
\<close>

subsection \<open>Computations on a mutable state\<close>

text \<open>
  A function that takes \<open>&mut S\<close> and returns \<open>Result\<close>: an error or a panic leaves the state as it was when
  it was raised, with the writes already done.
\<close>

type_synonym ('s, 'e, 'a) action = "'s \<Rightarrow> ('e, 'a) outcome \<times> 's"

definition act_return :: "'a \<Rightarrow> ('s, 'e, 'a) action" where
  "act_return a s = (Ok a, s)"

definition act_fail :: "'e \<Rightarrow> ('s, 'e, 'a) action" where
  "act_fail e s = (Err e, s)"

definition act_panic :: "('s, 'e, 'a) action" where
  "act_panic s = (Panic, s)"

definition act_bind :: "('s, 'e, 'a) action \<Rightarrow> ('a \<Rightarrow> ('s, 'e, 'b) action) \<Rightarrow> ('s, 'e, 'b) action" where
  "act_bind m f s = (case m s of (Ok a, s') \<Rightarrow> f a s' | (Err e, s') \<Rightarrow> (Err e, s') | (Panic, s') \<Rightarrow> (Panic, s'))"

text \<open>\<open>map_err\<close>, and a result that is inspected without \<open>?\<close>.\<close>

definition act_map_err :: "('e \<Rightarrow> 'f) \<Rightarrow> ('s, 'e, 'a) action \<Rightarrow> ('s, 'f, 'a) action" where
  "act_map_err g m s = (case m s of (r, s') \<Rightarrow> (map_err g r, s'))"

definition act_try :: "('s, 'e, 'a) action \<Rightarrow> ('s, 'e, 'e + 'a) action" where
  "act_try m s = (case m s of (Ok a, s') \<Rightarrow> (Ok (Inr a), s') | (Err e, s') \<Rightarrow> (Ok (Inl e), s')
     | (Panic, s') \<Rightarrow> (Panic, s'))"

fun act_each :: "('a \<Rightarrow> ('s, 'e, unit) action) \<Rightarrow> 'a list \<Rightarrow> ('s, 'e, unit) action" where
  "act_each f [] = act_return ()"
| "act_each f (x # xs) = act_bind (f x) (\<lambda>_. act_each f xs)"

named_theorems act_simps \<open>evaluation of computations\<close>

lemma act_basic [act_simps]:
  "act_return a s = (Ok a, s)" "act_fail e s = (Err e, s)" "act_panic s = (Panic, s)"
  by (simp_all add: act_return_def act_fail_def act_panic_def)

lemma act_bind_run [act_simps]:
  "m s = (Ok a, s') \<Longrightarrow> act_bind m f s = f a s'"
  "m s = (Err e, s') \<Longrightarrow> act_bind m f s = (Err e, s')"
  "m s = (Panic, s') \<Longrightarrow> act_bind m f s = (Panic, s')"
  by (simp_all add: act_bind_def)

lemma act_bind_return [simp]: "act_bind (act_return a) f = f a"
  by (rule ext) (simp add: act_bind_def act_return_def)

lemma act_bind_fail [simp]: "act_bind (act_fail e) f = act_fail e"
  by (rule ext) (simp add: act_bind_def act_fail_def)

lemma act_each_append: "act_each f (xs @ ys) = act_bind (act_each f xs) (\<lambda>_. act_each f ys)"
proof (induction xs)
  case (Cons x xs)
  show ?case by (rule ext) (simp add: Cons.IH act_bind_def split: prod.split outcome.split)
qed simp

text \<open>A computation that neither fails nor panics from a state of \<open>P\<close>, and ends in one of \<open>Q\<close>.\<close>

definition runs :: "('s \<Rightarrow> bool) \<Rightarrow> ('s, 'e, 'a) action \<Rightarrow> ('a \<Rightarrow> 's \<Rightarrow> bool) \<Rightarrow> bool" where
  "runs P m Q \<longleftrightarrow> (\<forall>s. P s \<longrightarrow> (\<exists>a s'. m s = (Ok a, s') \<and> Q a s'))"

lemma runsI: "(\<And>s. P s \<Longrightarrow> \<exists>a s'. m s = (Ok a, s') \<and> Q a s') \<Longrightarrow> runs P m Q"
  by (simp add: runs_def)

lemma runs_bind: "runs P m Q \<Longrightarrow> (\<And>a. runs (Q a) (f a) R) \<Longrightarrow> runs P (act_bind m f) R"
  unfolding runs_def act_bind_def by fastforce

lemma runs_return: "(\<And>s. P s \<Longrightarrow> Q a s) \<Longrightarrow> runs P (act_return a) Q"
  by (simp add: runs_def act_return_def)

lemma runs_weaken: "runs P m Q \<Longrightarrow> (\<And>s. P' s \<Longrightarrow> P s) \<Longrightarrow> (\<And>a s. Q a s \<Longrightarrow> Q' a s) \<Longrightarrow> runs P' m Q'"
  unfolding runs_def by fast

subsection \<open>Strings\<close>

text \<open>The UTF-8 encodings of the characters with the Unicode property \<open>White_Space\<close>, which \<open>trim\<close> removes.\<close>

definition whitespace :: "string list" where
  "whitespace =
     [[CHR 0x09], [CHR 0x0A], [CHR 0x0B], [CHR 0x0C], [CHR 0x0D], [CHR 0x20], [CHR 0xC2, CHR 0x85],
      [CHR 0xC2, CHR 0xA0], [CHR 0xE1, CHR 0x9A, CHR 0x80], [CHR 0xE2, CHR 0x80, CHR 0x80],
      [CHR 0xE2, CHR 0x80, CHR 0x81], [CHR 0xE2, CHR 0x80, CHR 0x82], [CHR 0xE2, CHR 0x80, CHR 0x83],
      [CHR 0xE2, CHR 0x80, CHR 0x84], [CHR 0xE2, CHR 0x80, CHR 0x85], [CHR 0xE2, CHR 0x80, CHR 0x86],
      [CHR 0xE2, CHR 0x80, CHR 0x87], [CHR 0xE2, CHR 0x80, CHR 0x88], [CHR 0xE2, CHR 0x80, CHR 0x89],
      [CHR 0xE2, CHR 0x80, CHR 0x8A], [CHR 0xE2, CHR 0x80, CHR 0xA8], [CHR 0xE2, CHR 0x80, CHR 0xA9],
      [CHR 0xE2, CHR 0x80, CHR 0xAF], [CHR 0xE2, CHR 0x81, CHR 0x9F], [CHR 0xE3, CHR 0x80, CHR 0x80]]"

definition has_prefix :: "string \<Rightarrow> string \<Rightarrow> bool" where
  "has_prefix w s \<longleftrightarrow> take (length w) s = w"

fun trim_start_of :: "string list \<Rightarrow> string \<Rightarrow> string" where
  "trim_start_of ws s =
     (case find (\<lambda>w. w \<noteq> [] \<and> has_prefix w s) ws of
        Some w \<Rightarrow> if w \<noteq> [] \<and> s \<noteq> [] then trim_start_of ws (drop (length w) s) else s
      | None \<Rightarrow> s)"

declare trim_start_of.simps [simp del]

definition trim_str :: "string \<Rightarrow> string" where
  "trim_str s = rev (trim_start_of (map rev whitespace) (rev (trim_start_of whitespace s)))"

definition is_blank :: "string \<Rightarrow> bool" where
  "is_blank s \<longleftrightarrow> trim_str s = []"

definition to_lower :: "char \<Rightarrow> char" where
  "to_lower c = (let n = (of_char c :: nat) in if 65 \<le> n \<and> n \<le> 90 then char_of (n + 32) else c)"

definition to_ascii_lowercase :: "string \<Rightarrow> string" where
  "to_ascii_lowercase s = map to_lower s"

definition str_bytes :: "string \<Rightarrow> 8 word list" where
  "str_bytes s = map of_char s"

text \<open>\<open>u64::from_le_bytes\<close>, and the identity of 16 bytes (\<open>Uuid::from_bytes\<close>) as a number.\<close>

fun le_number :: "8 word list \<Rightarrow> nat" where
  "le_number [] = 0"
| "le_number (b # bs) = unat b + 256 * le_number bs"

definition uuid_number :: "8 word list \<Rightarrow> nat" where
  "uuid_number bs = le_number (rev bs)"

text \<open>
  \<open>String::from_utf8_lossy\<close>: well-formed sequences are kept, a maximal prefix of an ill-formed one becomes
  U+FFFD. \<open>scan_char\<close> tells how many bytes after the first belong to it and whether it is well-formed.
\<close>

definition is_cont :: "8 word list \<Rightarrow> nat \<Rightarrow> bool" where
  "is_cont bs i \<longleftrightarrow> i < length bs \<and> 0x80 \<le> bs ! i \<and> bs ! i \<le> 0xBF"

definition in_range :: "8 word list \<Rightarrow> nat \<Rightarrow> 8 word \<Rightarrow> 8 word \<Rightarrow> bool" where
  "in_range bs i lo hi \<longleftrightarrow> i < length bs \<and> lo \<le> bs ! i \<and> bs ! i \<le> hi"

definition scan_char :: "8 word \<Rightarrow> 8 word list \<Rightarrow> nat \<times> bool" where
  "scan_char b bs =
     (if b < 0x80 then (0, True)
      else if 0xC2 \<le> b \<and> b \<le> 0xDF then (if is_cont bs 0 then (1, True) else (0, False))
      else if 0xE0 \<le> b \<and> b \<le> 0xEF then
        (if \<not> (if b = 0xE0 then in_range bs 0 0xA0 0xBF else if b = 0xED then in_range bs 0 0x80 0x9F
               else is_cont bs 0) then (0, False)
         else if is_cont bs 1 then (2, True) else (1, False))
      else if 0xF0 \<le> b \<and> b \<le> 0xF4 then
        (if \<not> (if b = 0xF0 then in_range bs 0 0x90 0xBF else if b = 0xF4 then in_range bs 0 0x80 0x8F
               else is_cont bs 0) then (0, False)
         else if \<not> is_cont bs 1 then (1, False)
         else if is_cont bs 2 then (3, True) else (2, False))
      else (0, False))"

fun utf8_lossy :: "8 word list \<Rightarrow> 8 word list" where
  "utf8_lossy [] = []"
| "utf8_lossy (b # bs) =
     (let (n, ok) = scan_char b bs in
      (if ok then b # take n bs else [0xEF, 0xBF, 0xBD]) @ utf8_lossy (drop n bs))"

definition from_utf8_lossy :: "8 word list \<Rightarrow> string" where
  "from_utf8_lossy bs = map (\<lambda>b. char_of (unat b)) (utf8_lossy bs)"

subsection \<open>Components of the runtime\<close>

record kv_cache_binding =
  kb_epoch :: nat
  kb_page_ids :: "nat list"
  kb_logical_context_tokens :: "32 word"
  kb_capacity_tokens :: "32 word"

datatype modality_kind = ModImage | ModAudio | ModVideo | ModMetal

record modality_work =
  mw_kind :: modality_kind
  mw_model_path :: string
  mw_prompt :: string
  mw_output_path :: string

record modality_execution =
  mx_output_digest :: string
  mx_output_bytes :: nat

record result_payload =
  rp_result_type :: string
  rp_result :: string

record compilation_job =
  cj_job_id :: nat
  cj_target_artifact :: nat
  cj_target_device_profile :: string
  cj_created_at :: nat

record job_input =
  ji_model_artifact :: nat
  ji_source_format :: string
  ji_quantization_profile :: "string option"

record job_config =
  jc_target_format :: string
  jc_optimization_level :: "32 word"
  jc_enable_validation :: bool

datatype job_lifecycle = JobPending | JobCompiling | JobPlanned | JobValidating | JobFailed | JobSealed
  | JobPromoted

datatype agent_phase = Planning | Reasoning | ToolCall | Observing | Responding | PhaseCompleted | PhaseFailed

datatype agent_lifecycle = AgentActive | AgentWaiting | AgentCompleted | AgentFailed

datatype artifact_lifecycle = Discovered | Validated | Loaded | Invalid

record artifact_metadata =
  am_length :: nat
  am_path :: string

datatype runtime_comp = KWorkOutputPath string | KWorkInputPath string | KInference inference_metadata
  | KKvBinding kv_cache_binding | KCompilationJob compilation_job | KJobInput job_input | KJobConfig job_config
  | KJobLifecycle job_lifecycle | KAdmittedMarker | KPlannedMarker | KPublishedMarker
  | KResultPayload result_payload | KAgentPhase agent_phase | KAgentLifecycle agent_lifecycle
  | KParentAgentId entity | KArtifactPath string | KArtifactMetadata artifact_metadata
  | KArtifactLifecycle artifact_lifecycle | KModelName string | KModelFormat string
  | KModalityWork modality_work | KModalityExecution modality_execution | KModalityFailure string

type_synonym kernel_value = "runtime_comp comp_value"
type_synonym kernel_world = "kernel_value world"

text \<open>\<open>TypeId::of\<close> of a component. The numbers of the types of \<open>runtime_comp\<close> start at 101.\<close>

abbreviation (input) "T_inference \<equiv> 103 :: type_id"
abbreviation (input) "T_agent_phase \<equiv> 113 :: type_id"
abbreviation (input) "T_agent_lifecycle \<equiv> 114 :: type_id"
abbreviation (input) "T_parent_agent \<equiv> 115 :: type_id"

fun runtime_type :: "runtime_comp \<Rightarrow> type_id" where
  "runtime_type (KWorkOutputPath _) = 101"
| "runtime_type (KWorkInputPath _) = 102"
| "runtime_type (KInference _) = T_inference"
| "runtime_type (KKvBinding _) = 104"
| "runtime_type (KCompilationJob _) = 105"
| "runtime_type (KJobInput _) = 106"
| "runtime_type (KJobConfig _) = 107"
| "runtime_type (KJobLifecycle _) = 108"
| "runtime_type KAdmittedMarker = 109"
| "runtime_type KPlannedMarker = 110"
| "runtime_type KPublishedMarker = 111"
| "runtime_type (KResultPayload _) = 112"
| "runtime_type (KAgentPhase _) = T_agent_phase"
| "runtime_type (KAgentLifecycle _) = T_agent_lifecycle"
| "runtime_type (KParentAgentId _) = T_parent_agent"
| "runtime_type (KArtifactPath _) = 116"
| "runtime_type (KArtifactMetadata _) = 117"
| "runtime_type (KArtifactLifecycle _) = 118"
| "runtime_type (KModelName _) = T_model_name"
| "runtime_type (KModelFormat _) = T_model_format"
| "runtime_type (KModalityWork _) = 119"
| "runtime_type (KModalityExecution _) = 120"
| "runtime_type (KModalityFailure _) = 121"

text \<open>The kernel attaches components without a schema key.\<close>

definition rt :: "runtime_comp \<Rightarrow> kernel_value" where
  "rt c = VOther (no_namespace 0 0) (runtime_type c) c"

fun kernel_type :: "kernel_value \<Rightarrow> type_id" where
  "kernel_type (VOther _ _ c) = runtime_type c"
| "kernel_type v = value_type v"

definition get_inference :: "(kernel_value, 'm) world_scheme \<Rightarrow> entity \<Rightarrow> inference_metadata option" where
  "get_inference w e = (case get_component w T_inference e of Some (VOther _ _ (KInference m)) \<Rightarrow> Some m | _ \<Rightarrow> None)"

definition get_agent_phase :: "(kernel_value, 'm) world_scheme \<Rightarrow> entity \<Rightarrow> agent_phase option" where
  "get_agent_phase w e =
     (case get_component w T_agent_phase e of Some (VOther _ _ (KAgentPhase p)) \<Rightarrow> Some p | _ \<Rightarrow> None)"

definition get_agent_lifecycle :: "(kernel_value, 'm) world_scheme \<Rightarrow> entity \<Rightarrow> agent_lifecycle option" where
  "get_agent_lifecycle w e =
     (case get_component w T_agent_lifecycle e of Some (VOther _ _ (KAgentLifecycle l)) \<Rightarrow> Some l | _ \<Rightarrow> None)"

definition get_parent_agent :: "(kernel_value, 'm) world_scheme \<Rightarrow> entity \<Rightarrow> entity option" where
  "get_parent_agent w e =
     (case get_component w T_parent_agent e of Some (VOther _ _ (KParentAgentId p)) \<Rightarrow> Some p | _ \<Rightarrow> None)"

subsection \<open>Lifecycle commands\<close>

datatype backend_kind = Metal | CPU | ANE | CUDA | Vulkan | AmdNpu

record create_work_cmd =
  cwc_entity :: entity
  cwc_target_entity :: entity
  cwc_kind :: string
  cwc_input_path :: string
  cwc_output_path :: string
  cwc_claim :: resource_claim
  cwc_inference_hint :: "inference_hint option"

record create_job_cmd =
  cjc_entity :: entity
  cjc_model_artifact :: "8 word list"
  cjc_target_profile :: string
  cjc_job_id :: nat
  cjc_target_format :: string
  cjc_optimization_level :: "8 word"
  cjc_enable_validation :: bool

datatype lifecycle_command =
    LcCreateWork create_work_cmd
  | LcCreateCompilationJob create_job_cmd
  | LcRequestCancellation entity string
  | LcMarkObserved entity nat
  | LcRecordExternalObservation entity
  | LcRecordWorkPlan entity backend_kind string nat nat
  | LcMarkPrerequisiteBlocked entity
  | LcAdmitWork entity
  | LcRejectWork entity string
  | LcDeferWork entity string
  | LcAcquireWorkLease entity "32 word" nat
  | LcReleaseWorkLease entity
  | LcRenewWorkLease entity nat
  | LcRecordDispatchIntent entity backend_kind string nat
  | LcRecordDispatchStarted entity string
  | LcRecordProgress entity
  | LcCompleteWork entity "32 word" "8 word list" string
  | LcFailWork entity string "32 word" bool
  | LcMarkDispatchLost entity
  | LcAttachArtifact entity "8 word list"
  | LcAttachDiagnostics entity
  | LcAttachEvidence entity "8 word list"
  | LcPublishResult entity string string
  | LcExpireTransientState entity
  | LcMarkRetentionComplete entity

datatype lifecycle_result =
    LrWorkCreated entity nat nat
  | LrCompilationJobCreated entity nat nat
  | LrRequestCancelled entity
  | LrMarkedObserved entity
  | LrPrerequisiteBlocked entity
  | LrAdmitted entity
  | LrRejected entity string
  | LrDeferred entity string
  | LrLeaseAcquired entity "32 word" string
  | LrLeaseReleased entity
  | LrLeaseRenewed entity nat
  | LrDispatchIntentRecorded entity string
  | LrDispatchStarted entity string
  | LrProgressRecorded entity
  | LrCompleted entity string nat nat
  | LrFailed entity string
  | LrDispatchMarkedLost entity
  | LrArtifactAttached entity "8 word list"
  | LrDiagnosticsAttached entity
  | LrEvidenceAttached entity string
  | LrPublished entity string nat nat
  | LrWorkPlanRecorded entity
  | LrTransientExpired entity
  | LrRetentionComplete entity

subsection \<open>Kernel commands\<close>

datatype command =
    SpawnAgent nat string "32 word"
  | CancelAgent nat
  | RegisterModel string string string
  | AdvanceInference nat inference_phase "32 word" "32 word" nat "32 word"
  | BindInferenceKv nat nat "nat list" "32 word" "32 word"
  | CreateModalityWork modality_kind string string string
  | CompleteModalityWork nat string nat
  | FailModalityWork nat string
  | Lifecycle lifecycle_command

datatype command_result =
    Spawned nat
  | Cancelled nat
  | Registered nat
  | InferenceAdvanced nat inference_phase "32 word" "32 word" nat "32 word"
  | KvBound nat nat
  | ModalitySubmitted nat
  | ModalityCompleted nat string
  | ModalityFailed nat string
  | LifecycleDone lifecycle_result

record commit_outcome =
  co_sequence :: nat
  co_result :: command_result
  co_world_epoch :: nat

record command_envelope =
  schema_version :: nat
  command_type_id :: nat
  idempotency_key :: nat
  expected_epoch :: "nat option"
  authority :: string
  correlation_id :: string
  command :: command

text \<open>
  A message that the code builds with \<open>format!\<close> is its fixed text. \<open>UnknownCommand\<close> and \<open>Io\<close> are not
  raised by the functions modelled here.
\<close>

datatype runtime_error = EntityError string | JournalError string | ReceiptError string
  | UnknownCommand string | IoError string | EpochMismatch nat nat | IdempotencyConflict string
  | LeaseError string | DispatchError string

text \<open>
  \<open>CommandEnvelope::new\<close>. \<open>type_id\<close> is the address of the command in memory cut to 16 bits, and the key a
  random UUID: both are arguments.
\<close>

definition envelope_new :: "16 word \<Rightarrow> nat \<Rightarrow> command \<Rightarrow> command_envelope" where
  "envelope_new address uuid cmd = \<lparr>schema_version = 1,
     command_type_id = (case cmd of Lifecycle _ \<Rightarrow> unat address | _ \<Rightarrow> 0),
     idempotency_key = uuid, expected_epoch = None, authority = ''kernel'', correlation_id = [], command = cmd\<rparr>"

definition command_type :: "command_envelope \<Rightarrow> nat option" where
  "command_type env = Some (case command env of
     SpawnAgent _ _ _ \<Rightarrow> 1 | CancelAgent _ \<Rightarrow> 2 | RegisterModel _ _ _ \<Rightarrow> 3 | AdvanceInference _ _ _ _ _ _ \<Rightarrow> 4
   | BindInferenceKv _ _ _ _ _ \<Rightarrow> 5 | CreateModalityWork _ _ _ _ \<Rightarrow> 6 | CompleteModalityWork _ _ _ \<Rightarrow> 7
   | FailModalityWork _ _ \<Rightarrow> 8 | Lifecycle _ \<Rightarrow> command_type_id env)"

text \<open>\<open>mem::discriminant\<close> of a result.\<close>

fun result_tag :: "command_result \<Rightarrow> nat" where
  "result_tag (Spawned _) = 0"
| "result_tag (Cancelled _) = 1"
| "result_tag (Registered _) = 2"
| "result_tag (InferenceAdvanced _ _ _ _ _ _) = 3"
| "result_tag (KvBound _ _) = 4"
| "result_tag (ModalitySubmitted _) = 5"
| "result_tag (ModalityCompleted _ _) = 6"
| "result_tag (ModalityFailed _ _) = 7"
| "result_tag (LifecycleDone _) = 8"

end
