(* ===== verification/Kernel_Exec.thy ===== *)
theory Kernel_Exec
  imports Kernel_Types
begin

text \<open>
  The command handlers of the runtime kernel on the locked world: the lifecycle handlers
  (\<open>command_dispatch/envelope.rs\<close>), the infrastructure handlers (\<open>command_dispatch/submit.rs\<close>), the
  dispatch over the commands, and the read side (\<open>agent_snapshot.rs\<close>, \<open>kernel_health.rs\<close>). What a handler
  takes from outside the repository is in the record \<open>host\<close>: the file system, BLAKE3, the clock and fresh
  UUIDs.
\<close>

record host =
  read_file :: "string \<Rightarrow> 8 word list option"
  blake3 :: "8 word list \<Rightarrow> 8 word list"
  clock :: nat
  new_uuid :: string

type_synonym 'a world_action = "(kernel_world, runtime_error, 'a) action"

subsection \<open>World operations as actions\<close>

definition attach :: "bool \<Rightarrow> runtime_error \<Rightarrow> entity \<Rightarrow> kernel_value \<Rightarrow> unit world_action" where
  "attach dbg err e v w = (case add_component dbg (kernel_type v) e v w of
     Ok w' \<Rightarrow> (Ok (), w') | Err _ \<Rightarrow> (Err err, w) | Panic \<Rightarrow> (Panic, w))"

definition insert_attach :: "bool \<Rightarrow> runtime_error \<Rightarrow> entity \<Rightarrow> kernel_value \<Rightarrow> unit world_action" where
  "insert_attach dbg err e v w = (case insert_component dbg (kernel_type v) e v w of
     Ok w' \<Rightarrow> (Ok (), w') | Err _ \<Rightarrow> (Err err, w) | Panic \<Rightarrow> (Panic, w))"

definition spawn_k :: "entity_kind \<Rightarrow> runtime_error \<Rightarrow> entity world_action" where
  "spawn_k kind err w = (case spawn kind None w of
     Ok ((e, _), w') \<Rightarrow> (Ok e, w') | Err _ \<Rightarrow> (Err err, w) | Panic \<Rightarrow> (Panic, w))"

definition read_world :: "(kernel_world \<Rightarrow> 'a world_action) \<Rightarrow> 'a world_action" where
  "read_world f w = f w w"

definition attach_when :: "bool \<Rightarrow> bool \<Rightarrow> runtime_error \<Rightarrow> entity \<Rightarrow> kernel_value \<Rightarrow> unit world_action" where
  "attach_when c dbg err e v = (if c then attach dbg err e v else act_return ())"

text \<open>A chain of inserts on one entity whose errors are mapped alike.\<close>

definition attach_all :: "bool \<Rightarrow> runtime_error \<Rightarrow> entity \<Rightarrow> kernel_value list \<Rightarrow> unit world_action" where
  "attach_all dbg err e vs = act_each (attach dbg err e) vs"

subsection \<open>Lifecycle handlers\<close>

definition work_kind_of :: "string \<Rightarrow> work_kind" where
  "work_kind_of s = (let k = to_ascii_lowercase (trim_str s) in
     if k = ''inference'' \<or> k = ''run_inference'' then RunInference
     else if k = ''load_model'' then LoadModel
     else if k = ''validate'' then Validate
     else if k = ''package'' then Package
     else if k = ''teardown'' then Teardown
     else CompileGraph)"

definition execute_create_work :: "bool \<Rightarrow> create_work_cmd \<Rightarrow> command_result world_action" where
  "execute_create_work dbg cmd =
     act_bind (spawn_k WorkUnit (EntityError ''spawn work failed'')) (\<lambda>e.
     act_bind (attach dbg (EntityError ''failed to set state'') e (VWorkState WPending)) (\<lambda>_.
     let kind = work_kind_of (cwc_kind cmd) in
     act_bind (attach dbg (EntityError ''failed to set work item'') e (VWorkItem
       \<lparr>wi_kind = kind, wi_target = cwc_target_entity cmd, retry_count = 0, max_retries = 3\<rparr>)) (\<lambda>_.
     act_bind (attach_when (kind = RunInference) dbg (EntityError ''failed to set inference metadata'') e
       (rt (KInference (from_typed_resource_claim (cwc_inference_hint cmd))))) (\<lambda>_.
     act_bind (attach_when (cwc_output_path cmd \<noteq> []) dbg (EntityError ''failed to set output path'') e
       (rt (KWorkOutputPath (cwc_output_path cmd)))) (\<lambda>_.
     act_bind (attach_when (cwc_input_path cmd \<noteq> []) dbg (EntityError ''failed to set input path'') e
       (rt (KWorkInputPath (cwc_input_path cmd)))) (\<lambda>_.
     read_world (\<lambda>w. act_return (LifecycleDone (LrWorkCreated e 0 (current_epoch w))))))))))"

definition execute_create_compilation_job :: "bool \<Rightarrow> host \<Rightarrow> create_job_cmd \<Rightarrow> command_result world_action" where
  "execute_create_compilation_job dbg h cmd =
     act_bind (spawn_k Executable (EntityError ''spawn job failed'')) (\<lambda>e.
     let artifact = le_number (take 8 (cjc_model_artifact cmd)) in
     act_bind (insert_attach dbg (EntityError ''insert CompilationJob'') e (rt (KCompilationJob
       \<lparr>cj_job_id = cjc_job_id cmd, cj_target_artifact = artifact,
        cj_target_device_profile = cjc_target_profile cmd, cj_created_at = clock h\<rparr>))) (\<lambda>_.
     act_bind (insert_attach dbg (EntityError ''insert JobInput'') e (rt (KJobInput
       \<lparr>ji_model_artifact = artifact, ji_source_format = [], ji_quantization_profile = None\<rparr>))) (\<lambda>_.
     act_bind (insert_attach dbg (EntityError ''insert JobConfig'') e (rt (KJobConfig
       \<lparr>jc_target_format = cjc_target_format cmd, jc_optimization_level = ucast (cjc_optimization_level cmd),
        jc_enable_validation = cjc_enable_validation cmd\<rparr>))) (\<lambda>_.
     act_bind (insert_attach dbg (EntityError ''insert JobLifecycle'') e (rt (KJobLifecycle JobPending))) (\<lambda>_.
     read_world (\<lambda>w. act_return (LifecycleDone (LrCompilationJobCreated e 0 (current_epoch w)))))))))"

text \<open>The handlers that move a state only from a given one.\<close>

definition attach_in_state :: "(work_state \<Rightarrow> bool) \<Rightarrow> bool \<Rightarrow> runtime_error \<Rightarrow> entity \<Rightarrow> work_state \<Rightarrow>
    unit world_action" where
  "attach_in_state p dbg err e s = read_world (\<lambda>w. case get_work_state w e of
     Some state \<Rightarrow> if p state then attach dbg err e (VWorkState s) else act_return ()
   | None \<Rightarrow> act_return ())"

definition execute_admit_work :: "bool \<Rightarrow> entity \<Rightarrow> command_result world_action" where
  "execute_admit_work dbg e =
     act_bind (attach_in_state (\<lambda>s. s = WPending) dbg (EntityError ''admit transition failed'') e WReady) (\<lambda>_.
     act_bind (attach dbg (EntityError []) e (rt KAdmittedMarker)) (\<lambda>_.
     act_return (LifecycleDone (LrAdmitted e))))"

definition execute_record_dispatch_intent :: "bool \<Rightarrow> host \<Rightarrow> entity \<Rightarrow> command_result world_action" where
  "execute_record_dispatch_intent dbg h e =
     act_bind (attach dbg (EntityError ''dispatch state transition'') e (VWorkState (WLeased 1))) (\<lambda>_.
     act_return (LifecycleDone (LrDispatchIntentRecorded e (new_uuid h))))"

definition execute_complete_work :: "bool \<Rightarrow> entity \<Rightarrow> 8 word list \<Rightarrow> command_result world_action" where
  "execute_complete_work dbg e out =
     act_bind (attach dbg (EntityError ''complete state transition'') e (VWorkState WCompleted)) (\<lambda>_.
     act_bind (attach dbg (EntityError ''complete work failed'') e (rt (KResultPayload
       \<lparr>rp_result_type = ''completed'', rp_result = from_utf8_lossy out\<rparr>))) (\<lambda>_.
     read_world (\<lambda>w. act_return (LifecycleDone (LrCompleted e (from_utf8_lossy out) 0 (current_epoch w))))))"

definition execute_fail_work :: "bool \<Rightarrow> entity \<Rightarrow> string \<Rightarrow> command_result world_action" where
  "execute_fail_work dbg e err =
     act_bind (read_world (\<lambda>w. attach_when (has_entity w e) dbg (EntityError ''fail work transition'') e
       (VWorkState WFailed))) (\<lambda>_.
     act_return (LifecycleDone (LrFailed e err)))"

definition execute_request_cancellation :: "bool \<Rightarrow> entity \<Rightarrow> command_result world_action" where
  "execute_request_cancellation dbg e =
     act_bind (attach_in_state (\<lambda>s. \<not> work_is_terminal s) dbg (EntityError ''cancel transition failed'') e
       WCancelled) (\<lambda>_.
     act_return (LifecycleDone (LrRequestCancelled e)))"

definition execute_attach_evidence_cmd :: "host \<Rightarrow> entity \<Rightarrow> command_result world_action" where
  "execute_attach_evidence_cmd h e = act_return (LifecycleDone (LrEvidenceAttached e (new_uuid h)))"

definition execute_publish_result_cmd :: "bool \<Rightarrow> host \<Rightarrow> entity \<Rightarrow> string \<Rightarrow> string \<Rightarrow>
    command_result world_action" where
  "execute_publish_result_cmd dbg h e typ res =
     act_bind (attach dbg (EntityError ''publish state transition'') e (VWorkState WCompleted)) (\<lambda>_.
     act_bind (attach dbg (EntityError ''publish result failed'') e (rt (KResultPayload
       \<lparr>rp_result_type = typ, rp_result = res\<rparr>))) (\<lambda>_.
     act_bind (attach dbg (EntityError []) e (rt KPublishedMarker)) (\<lambda>_.
     read_world (\<lambda>w. act_return (LifecycleDone (LrPublished e (new_uuid h) 0 (current_epoch w)))))))"

definition execute_mark_observed :: "bool \<Rightarrow> entity \<Rightarrow> command_result world_action" where
  "execute_mark_observed dbg e =
     act_bind (attach_in_state (\<lambda>s. s = WPending) dbg (EntityError ''observe transition failed'') e WReady) (\<lambda>_.
     act_bind (attach dbg (EntityError []) e (rt KPlannedMarker)) (\<lambda>_.
     act_return (LifecycleDone (LrMarkedObserved e))))"

definition execute_record_work_plan :: "bool \<Rightarrow> entity \<Rightarrow> command_result world_action" where
  "execute_record_work_plan dbg e =
     act_bind (attach_in_state (\<lambda>s. s = WReady) dbg (EntityError ''plan transition failed'') e WReady) (\<lambda>_.
     act_return (LifecycleDone (LrWorkPlanRecorded e)))"

text \<open>\<open>execute_lifecycle\<close>: the lease commands are \<open>unreachable!\<close> here.\<close>

definition execute_lifecycle :: "bool \<Rightarrow> host \<Rightarrow> lifecycle_command \<Rightarrow> command_result world_action" where
  "execute_lifecycle dbg h lc = (case lc of
     LcCreateWork cmd \<Rightarrow> execute_create_work dbg cmd
   | LcCreateCompilationJob cmd \<Rightarrow> execute_create_compilation_job dbg h cmd
   | LcRequestCancellation e _ \<Rightarrow> execute_request_cancellation dbg e
   | LcMarkObserved e _ \<Rightarrow> execute_mark_observed dbg e
   | LcRecordExternalObservation e \<Rightarrow> act_return (LifecycleDone (LrMarkedObserved e))
   | LcRecordWorkPlan e _ _ _ _ \<Rightarrow> execute_record_work_plan dbg e
   | LcMarkPrerequisiteBlocked e \<Rightarrow> act_return (LifecycleDone (LrPrerequisiteBlocked e))
   | LcAdmitWork e \<Rightarrow> execute_admit_work dbg e
   | LcRejectWork e reason \<Rightarrow> act_return (LifecycleDone (LrRejected e reason))
   | LcDeferWork e reason \<Rightarrow> act_return (LifecycleDone (LrDeferred e reason))
   | LcAcquireWorkLease _ _ _ \<Rightarrow> act_panic
   | LcReleaseWorkLease _ \<Rightarrow> act_panic
   | LcRenewWorkLease e ttl \<Rightarrow> act_return (LifecycleDone (LrLeaseRenewed e ttl))
   | LcRecordDispatchIntent e _ _ _ \<Rightarrow> execute_record_dispatch_intent dbg h e
   | LcRecordDispatchStarted e a \<Rightarrow> act_return (LifecycleDone (LrDispatchStarted e a))
   | LcRecordProgress e \<Rightarrow> act_return (LifecycleDone (LrProgressRecorded e))
   | LcCompleteWork e _ out _ \<Rightarrow> execute_complete_work dbg e out
   | LcFailWork e err _ _ \<Rightarrow> execute_fail_work dbg e err
   | LcMarkDispatchLost e \<Rightarrow> act_return (LifecycleDone (LrDispatchMarkedLost e))
   | LcAttachArtifact e d \<Rightarrow> act_return (LifecycleDone (LrArtifactAttached e d))
   | LcAttachDiagnostics e \<Rightarrow> act_return (LifecycleDone (LrDiagnosticsAttached e))
   | LcAttachEvidence e _ \<Rightarrow> execute_attach_evidence_cmd h e
   | LcPublishResult e typ res \<Rightarrow> execute_publish_result_cmd dbg h e typ res
   | LcExpireTransientState e \<Rightarrow> act_return (LifecycleDone (LrTransientExpired e))
   | LcMarkRetentionComplete e \<Rightarrow> act_return (LifecycleDone (LrRetentionComplete e)))"

subsection \<open>Infrastructure handlers\<close>

definition execute_cancel_txn :: "bool \<Rightarrow> nat \<Rightarrow> unit world_action" where
  "execute_cancel_txn dbg agent =
     attach dbg (EntityError ''cancel failed'') (Entity agent 0) (rt (KAgentLifecycle AgentCompleted))"

definition execute_spawn :: "bool \<Rightarrow> nat \<Rightarrow> nat world_action" where
  "execute_spawn dbg parent =
     act_bind (spawn_k Agent (EntityError ''spawn failed'')) (\<lambda>e.
     let parent_entity = (if parent = 0 then Entity 0 0 else Entity parent 0) in
     act_bind (attach dbg (EntityError ''failed to add phase'') e (rt (KAgentPhase Planning))) (\<lambda>_.
     act_bind (attach dbg (EntityError ''failed to add parent'') e (rt (KParentAgentId parent_entity))) (\<lambda>_.
     act_return (eid e))))"

definition model_descriptor :: "string \<Rightarrow> string \<Rightarrow> string \<Rightarrow> 8 word list" where
  "model_descriptor name path format = str_bytes (name @ [CHR 0x00] @ path @ [CHR 0x00] @ format)"

definition execute_register_model :: "bool \<Rightarrow> host \<Rightarrow> string \<Rightarrow> string \<Rightarrow> string \<Rightarrow> nat world_action" where
  "execute_register_model dbg h name path format =
     (if is_blank name \<or> is_blank path \<or> is_blank format
      then act_fail (EntityError ''model registration requires name, source_path, and format'')
      else let provenance = (case read_file h path of Some bs \<Rightarrow> bs
               | None \<Rightarrow> model_descriptor name path format);
             digest = blake3 h provenance in
        act_bind (spawn_k Artifact (EntityError ''spawn artifact failed'')) (\<lambda>a.
        act_bind (attach_all dbg (EntityError ''register artifact components failed'') a
          [rt (KArtifactPath path), VArtifactDigest digest,
           rt (KArtifactMetadata \<lparr>am_length = length provenance, am_path = path\<rparr>),
           rt (KArtifactLifecycle Discovered)]) (\<lambda>_.
        act_bind (spawn_k Model (EntityError ''spawn model failed'')) (\<lambda>m.
        act_bind (attach_all dbg (EntityError ''register model components failed'') m
          [VModelId (uuid_number (take 16 (blake3 h (model_descriptor name path format)))),
           rt (KModelName name), rt (KModelFormat format),
           VModelArtifactRef \<lparr>mar_artifact_id = eid a, mar_digest = digest\<rparr>,
           VModelLifecycle ModelCreated]) (\<lambda>_.
        act_return (eid m))))))"

definition execute_bind_inference_kv :: "bool \<Rightarrow> nat \<Rightarrow> nat \<Rightarrow> nat list \<Rightarrow> 32 word \<Rightarrow> 32 word \<Rightarrow>
    unit world_action" where
  "execute_bind_inference_kv dbg i epoch pages ctx_tokens capacity =
     read_world (\<lambda>w. let target = Entity i 0 in
       if \<not> has_entity w target then act_fail (EntityError ''inference entity not found'')
       else attach dbg (EntityError ''bind inference KV failed'') target (rt (KKvBinding
         \<lparr>kb_epoch = epoch, kb_page_ids = pages, kb_logical_context_tokens = ctx_tokens,
          kb_capacity_tokens = capacity\<rparr>)))"

definition execute_create_modality_work :: "bool \<Rightarrow> modality_kind \<Rightarrow> string \<Rightarrow> string \<Rightarrow> string \<Rightarrow>
    nat world_action" where
  "execute_create_modality_work dbg kind path prompt out =
     (if is_blank path \<or> is_blank prompt
      then act_fail (EntityError ''modality work requires model_path and prompt'')
      else act_bind (spawn_k WorkUnit (EntityError ''spawn modality work failed'')) (\<lambda>e.
        act_bind (attach dbg (EntityError ''attach modality work failed'') e (rt (KModalityWork
          \<lparr>mw_kind = kind, mw_model_path = path, mw_prompt = prompt, mw_output_path = out\<rparr>))) (\<lambda>_.
        act_return (eid e))))"

definition execute_advance_inference :: "bool \<Rightarrow> nat \<Rightarrow> inference_phase \<Rightarrow> 32 word \<Rightarrow> 32 word \<Rightarrow> nat \<Rightarrow> 32 word \<Rightarrow>
    command_result world_action" where
  "execute_advance_inference dbg i ph prefilled generated epoch kv =
     read_world (\<lambda>w. let e = Entity i 0 in
       case get_inference w e of
         None \<Rightarrow> act_fail (EntityError ''inference metadata missing'')
       | Some current \<Rightarrow>
           if kv_epoch current \<noteq> epoch then act_fail (EntityError ''stale KV epoch for inference'')
           else if prefilled < prefilled_tokens current \<or> generated < generated_tokens current
               \<or> kv < kv_tokens current
           then act_fail (EntityError ''inference progress regressed'')
           else act_bind (attach dbg (EntityError ''advance inference failed'') e (rt (KInference
               (current\<lparr>phase := ph, prefilled_tokens := prefilled, generated_tokens := generated,
                  kv_tokens := kv\<rparr>)))) (\<lambda>_.
             act_return (InferenceAdvanced i ph prefilled generated epoch kv)))"

subsection \<open>Dispatch\<close>

definition complete_modality :: "bool \<Rightarrow> (string \<Rightarrow> runtime_error) \<Rightarrow> nat \<Rightarrow> string \<Rightarrow> nat \<Rightarrow> unit world_action" where
  "complete_modality dbg err i digest bytes = attach dbg (err []) (Entity i 0)
     (rt (KModalityExecution \<lparr>mx_output_digest = digest, mx_output_bytes = bytes\<rparr>))"

definition fail_modality :: "bool \<Rightarrow> (string \<Rightarrow> runtime_error) \<Rightarrow> nat \<Rightarrow> string \<Rightarrow> unit world_action" where
  "fail_modality dbg err i msg = attach dbg (err []) (Entity i 0) (rt (KModalityFailure msg))"

text \<open>The \<open>match\<close> of \<open>submit\<close> on the command, under the world lock.\<close>

definition execute_command :: "bool \<Rightarrow> host \<Rightarrow> command \<Rightarrow> command_result world_action" where
  "execute_command dbg h cmd = (case cmd of
     SpawnAgent parent _ _ \<Rightarrow> act_bind (execute_spawn dbg parent) (\<lambda>i. act_return (Spawned i))
   | CancelAgent agent \<Rightarrow> act_bind (execute_cancel_txn dbg agent) (\<lambda>_. act_return (Cancelled agent))
   | RegisterModel name path format \<Rightarrow>
       act_bind (execute_register_model dbg h name path format) (\<lambda>i. act_return (Registered i))
   | AdvanceInference i ph prefilled generated epoch kv \<Rightarrow>
       execute_advance_inference dbg i ph prefilled generated epoch kv
   | BindInferenceKv i epoch pages ctx_tokens capacity \<Rightarrow>
       act_bind (execute_bind_inference_kv dbg i epoch pages ctx_tokens capacity) (\<lambda>_. act_return (KvBound i epoch))
   | CreateModalityWork kind path prompt out \<Rightarrow>
       act_bind (execute_create_modality_work dbg kind path prompt out) (\<lambda>i. act_return (ModalitySubmitted i))
   | CompleteModalityWork i digest bytes \<Rightarrow>
       if is_blank digest then act_fail (DispatchError ''modality output digest must not be empty'')
       else act_bind (complete_modality dbg DispatchError i digest bytes)
         (\<lambda>_. act_return (ModalityCompleted i digest))
   | FailModalityWork i msg \<Rightarrow>
       if is_blank msg then act_fail (DispatchError ''modality failure must include an error'')
       else act_bind (fail_modality dbg DispatchError i msg) (\<lambda>_. act_return (ModalityFailed i msg))
   | Lifecycle lc \<Rightarrow> execute_lifecycle dbg h lc)"

subsection \<open>Reading the world\<close>

record agent_snapshot =
  as_entity_id :: nat
  as_phase :: agent_phase
  as_lifecycle :: agent_lifecycle
  as_parent_id :: "nat option"

definition query_agents :: "kernel_world \<Rightarrow> agent_snapshot list" where
  "query_agents w = List.map_filter (\<lambda>e. case get_agent_phase w e of None \<Rightarrow> None
     | Some ph \<Rightarrow> Some \<lparr>as_entity_id = eid e, as_phase = ph,
         as_lifecycle = (case get_agent_lifecycle w e of None \<Rightarrow> AgentActive | Some l \<Rightarrow> l),
         as_parent_id = map_option eid (get_parent_agent w e)\<rparr>) (all_entities w)"

record kernel_health =
  kh_entity_count :: nat
  kh_world_epoch :: nat
  kh_journal_sequence :: nat
  kh_receipt_sequence :: nat
  kh_last_snapshot_epoch :: nat
  kh_last_snapshot_sequence :: nat
  kh_status :: string

definition compute_health :: "kernel_world \<Rightarrow> nat \<Rightarrow> kernel_health" where
  "compute_health w sequence = \<lparr>kh_entity_count = length (all_entities w), kh_world_epoch = current_epoch w,
     kh_journal_sequence = sequence, kh_receipt_sequence = sequence, kh_last_snapshot_epoch = 0,
     kh_last_snapshot_sequence = 0, kh_status = ''running''\<rparr>"

subsection \<open>The worlds the kernel builds\<close>

text \<open>
  The kernel never despawns: every slot is occupied under generation 0, so the live handles are the ids
  from 1 on, and every component belongs to a live entity.
\<close>

definition kernel_inv :: "kernel_world \<Rightarrow> bool" where
  "kernel_inv w \<longleftrightarrow> world_inv w \<and> free_list w = [] \<and> direct_mutations_allowed (mutation_policy w) \<and>
     (\<forall>i < length (entity_meta w). \<exists>occ. entity_meta w ! i = Some \<lparr>generation = 0, occupant = Some occ\<rparr>) \<and>
     (\<forall>t c. component_store w t = Some c \<longrightarrow> (\<forall>e \<in> set (entities c). is_alive w e))"

lemma kernel_inv_new: "kernel_inv world_new"
  by (simp add: kernel_inv_def) (simp add: world_new_def)

lemma kernel_alive:
  assumes "kernel_inv w"
  shows "is_alive w e \<longleftrightarrow> egen e = 0 \<and> 0 < eid e \<and> eid e < next_id w"
proof -
  have n: "next_id w = length (entity_meta w) + 1" using assms by (simp add: kernel_inv_def world_inv_def)
  show ?thesis
  proof (cases "0 < eid e \<and> eid e < next_id w")
    case True
    then have "eid e - 1 < length (entity_meta w)" using n by linarith
    then obtain occ where "entity_meta w ! (eid e - 1) = Some \<lparr>generation = 0, occupant = Some occ\<rparr>"
      using assms by (auto simp: kernel_inv_def)
    then show ?thesis using True n by (auto simp: is_alive_iff slot_at_Some)
  next
    case False
    then show ?thesis using n by (auto simp: is_alive_iff slot_at_Some)
  qed
qed

lemma kernel_column:
  assumes "kernel_inv w" "e \<in> set (entities (column_or_new t (component_store w)))"
  shows "is_alive w e"
  using assms by (auto simp: kernel_inv_def column_or_new_def column_new_def split: option.splits)

lemma kernel_room:
  assumes "kernel_inv w"
  shows "store_len (component_store w) t < next_id w"
proof -
  let ?c = "column_or_new t (component_store w)"
  have c: "col_inv ?c" using assms by (simp add: kernel_inv_def world_inv_def column_or_new_inv)
  have "inj_on eid (set (entities ?c))"
    using is_alive_inj kernel_column[OF assms] by (meson inj_onI)
  moreover have "eid ` set (entities ?c) \<subseteq> {1 ..< next_id w}"
    using kernel_column[OF assms, of _ t] by (auto simp: kernel_alive[OF assms] Suc_le_eq)
  ultimately have "card (set (entities ?c)) \<le> next_id w - 1"
    using card_inj_on_le[of eid "set (entities ?c)" "{1 ..< next_id w}"] by simp
  moreover have "distinct (entities ?c)"
    using column_iter_distinct[OF c] indexed_len[of "{}" ?c] c by (simp add: column_iter_def col_inv_def)
  moreover have "0 < next_id w" using assms by (simp add: kernel_inv_def world_inv_def)
  ultimately show ?thesis by (simp add: store_len_def distinct_card)
qed

lemma kernel_no_stale:
  assumes "kernel_inv w" "is_alive w e"
  shows "no_stale e (column_or_new t (component_store w))"
  using is_alive_inj[of w] assms kernel_column[OF assms(1), of _ t] by (auto simp: no_stale_def)

lemma kernel_add:
  assumes inv: "kernel_inv w" and al: "is_alive w e" and room: "next_id w \<le> 2 ^ 32"
  shows "\<exists>w'. add_component dbg t e v w = Ok w' \<and> kernel_inv w' \<and> next_id w' = next_id w \<and>
    current_epoch w' = current_epoch w \<and>
    (\<forall>t' x. get_component w' t' x = (if t' = t \<and> x = e then Some v else get_component w t' x))"
proof -
  let ?s = "component_store w" and ?c = "column_or_new t (component_store w)"
  have sinv: "store_inv ?s" and pol: "direct_mutations_allowed (mutation_policy w)"
    using inv by (simp_all add: kernel_inv_def world_inv_def)
  have len: "length (entities ?c) < 2 ^ 32"
    using kernel_room[OF inv, of t] room unfolding store_len_def by (rule less_le_trans)
  obtain c' where c': "column_insert dbg e v ?c = Some c'" "col_inv c'"
      "set (column_iter c') = insert (e, v) {(e', x) \<in> set (column_iter ?c). eid e' \<noteq> eid e}"
    using column_insert_iter[OF column_or_new_inv[OF sinv] len impI[OF kernel_no_stale[OF inv al]], of dbg v]
    by blast
  let ?w = "w\<lparr>component_store := ?s(t \<mapsto> c')\<rparr>"
  have run: "add_component dbg t e v w = Ok ?w"
    using c'(1) pol al[unfolded is_alive_def] by (simp add: add_component_def store_insert_def)
  have "set (entities c') \<subseteq> insert e (set (entities ?c))"
    unfolding column_iter_keys[OF c'(2), symmetric] column_iter_keys[OF column_or_new_inv[OF sinv], symmetric] c'(3)
    by force
  then have "is_alive ?w x" if "x \<in> set (entities c')" for x
    using that al kernel_column[OF inv, of x t] by auto
  then have "kernel_inv ?w"
    using inv world_inv_store[of w "?s(t \<mapsto> c')"] store_inv_upd[OF sinv c'(2)] by (auto simp: kernel_inv_def)
  moreover have "store_len ?s t < 2 ^ 32" using len by (simp add: store_len_def)
  then have "\<forall>t' x. get_component ?w t' x = (if t' = t \<and> x = e then Some v else get_component w t' x)"
    using add_component_correct[of w t dbg e v] run inv al kernel_no_stale[OF inv al, of t]
    by (auto simp: kernel_inv_def)
  ultimately show ?thesis using run by (simp add: current_epoch_def)
qed

lemma kernel_spawn:
  assumes inv: "kernel_inv w"
  shows "\<exists>a w'. spawn k nm w = Ok ((Entity (next_id w) 0, a), w') \<and> kernel_inv w' \<and>
    next_id w' = next_id w + 1 \<and> current_epoch w' = current_epoch w \<and>
    (\<forall>t x. get_component w' t x = get_component w t x) \<and> (\<forall>t. get_component w t (Entity (next_id w) 0) = None)"
proof -
  let ?occ = "\<lparr>okind = k, oname = nm\<rparr>" and ?e = "Entity (next_id w) 0"
  let ?w = "w\<lparr>next_id := next_id w + 1,
      entity_meta := entity_meta w @ [Some \<lparr>generation = 0, occupant = Some ?occ\<rparr>]\<rparr>"
  have take: "take_slot ?occ w = ((?e, NewSlot), ?w)" using inv by (simp add: take_slot_def kernel_inv_def)
  have winv: "world_inv w" using inv by (simp add: kernel_inv_def)
  note sp = take_slot_spec[OF winv take]
  have new: "spawned ?occ ?e w ?w" "world_inv ?w" using sp by simp_all
  have al: "is_alive ?w x = (is_alive w x \<or> x = ?e)" "\<not> is_alive w ?e" for x
  proof -
    show "\<not> is_alive w ?e" by (rule spawned_alive(2)[OF new(1)])
    show "is_alive ?w x = (is_alive w x \<or> x = ?e)"
    proof (cases "x = ?e")
      case True
      then show ?thesis using spawned_alive(1)[OF new(1)] by simp
    next
      case False
      then show ?thesis using spawned_alive(5)[OF new(1) False] by simp
    qed
  qed
  have none: "store_get (component_store w) t ?e = None" for t
  proof (rule ccontr)
    assume "store_get (component_store w) t ?e \<noteq> None"
    then obtain v where "column_get (column_or_new t (component_store w)) ?e = Some v"
      by (auto simp: store_get_column)
    moreover have c: "col_inv (column_or_new t (component_store w))"
      using winv by (simp add: world_inv_def column_or_new_inv)
    ultimately have "?e \<in> set (entities (column_or_new t (component_store w)))"
      using column_get_iff[OF c] column_iter_keys[OF c] by (metis fst_conv image_eqI)
    then show False using kernel_column[OF inv] al(2) by blast
  qed
  have "kernel_inv ?w"
    using inv new(2) al(1) by (auto simp: kernel_inv_def nth_append less_Suc_eq)
  moreover have "get_component ?w t x = get_component w t x" for t x
    using al(1)[of x] al(2) none by (auto simp: get_component_alive)
  moreover have "get_component w t ?e = None" for t using al(2) by (simp add: get_component_alive)
  ultimately show ?thesis using take inv by (simp add: spawn_def kernel_inv_def current_epoch_def)
qed

subsection \<open>Effects on one entity\<close>

text \<open>
  \<open>written w e m w'\<close>: from \<open>w\<close> the components \<open>m\<close> were written on the live entity \<open>e\<close>. \<open>created w e m w'\<close>:
  \<open>e\<close> is the next entity of \<open>w\<close>, with exactly the components \<open>m\<close>. Nothing else changes.
\<close>

definition written :: "kernel_world \<Rightarrow> entity \<Rightarrow> (type_id \<rightharpoonup> kernel_value) \<Rightarrow> kernel_world \<Rightarrow> bool" where
  "written w e m w' \<longleftrightarrow> kernel_inv w' \<and> next_id w' = next_id w \<and> current_epoch w' = current_epoch w \<and>
     (\<forall>t x. get_component w' t x = (if x = e \<and> m t \<noteq> None then m t else get_component w t x))"

definition created :: "kernel_world \<Rightarrow> entity \<Rightarrow> (type_id \<rightharpoonup> kernel_value) \<Rightarrow> kernel_world \<Rightarrow> bool" where
  "created w e m w' \<longleftrightarrow> kernel_inv w' \<and> e = Entity (next_id w) 0 \<and> 0 < next_id w \<and> next_id w' = next_id w + 1 \<and>
     current_epoch w' = current_epoch w \<and> (\<forall>t x. get_component w' t x = (if x = e then m t else get_component w t x))"

lemma written_self: "kernel_inv w \<Longrightarrow> written w e Map.empty w"
  by (simp add: written_def)

lemma attach_alive:
  assumes "kernel_inv w" "is_alive w e" "next_id w \<le> 2 ^ 32"
  obtains w' where "attach dbg err e v w = (Ok (), w')" "insert_attach dbg err e v w = (Ok (), w')"
    "kernel_inv w'" "next_id w' = next_id w" "current_epoch w' = current_epoch w"
    "\<And>t x. get_component w' t x = (if t = kernel_type v \<and> x = e then Some v else get_component w t x)"
proof -
  obtain w' where w': "add_component dbg (kernel_type v) e v w = Ok w'" "kernel_inv w'" "next_id w' = next_id w"
      "current_epoch w' = current_epoch w"
      "\<And>t x. get_component w' t x = (if t = kernel_type v \<and> x = e then Some v else get_component w t x)"
    using kernel_add[OF assms, of dbg "kernel_type v" v] by blast
  moreover have "insert_component dbg (kernel_type v) e v w = add_component dbg (kernel_type v) e v w"
    using assms(1,2) by (simp add: insert_component_def add_component_def kernel_inv_def flip: is_alive_def)
  ultimately show ?thesis using that by (simp add: attach_def insert_attach_def)
qed

lemma attach_dead: "\<not> is_alive w e \<Longrightarrow> attach dbg err e v w = (Err err, w)"
  by (simp add: attach_def add_component_def is_alive_def)

lemma written_alive: "kernel_inv w \<Longrightarrow> written w e m w' \<Longrightarrow> is_alive w' x = is_alive w x"
  by (simp add: written_def kernel_alive)

lemma runs_written:
  assumes "kernel_inv w" "is_alive w e" "next_id w \<le> 2 ^ 32"
  shows "runs (written w e m) (attach dbg err e v) (\<lambda>_. written w e (m(kernel_type v \<mapsto> v)))"
proof (rule runsI)
  fix s assume s: "written w e m s"
  then have "kernel_inv s" "is_alive s e" "next_id s \<le> 2 ^ 32"
    using assms written_alive[OF assms(1) s] by (auto simp: written_def)
  then obtain s' where "attach dbg err e v s = (Ok (), s')" "kernel_inv s'" "next_id s' = next_id s"
      "current_epoch s' = current_epoch s"
      "\<And>t x. get_component s' t x = (if t = kernel_type v \<and> x = e then Some v else get_component s t x)"
    using attach_alive by metis
  then show "\<exists>a s'. attach dbg err e v s = (Ok a, s') \<and> written w e (m(kernel_type v \<mapsto> v)) s'"
    using s by (auto simp: written_def)
qed

lemma runs_created:
  assumes "next_id w < 2 ^ 32" and "m' = m(kernel_type v \<mapsto> v)"
  shows "runs (created w e m) (attach dbg err e v) (\<lambda>_. created w e m')"
    and "runs (created w e m) (insert_attach dbg err e v) (\<lambda>_. created w e m')"
proof -
  have "\<exists>s'. attach dbg err e v s = (Ok (), s') \<and> insert_attach dbg err e v s = (Ok (), s') \<and> created w e m' s'"
    if s: "created w e m s" for s
  proof -
    have s1: "kernel_inv s" "next_id s = next_id w + 1" "e = Entity (next_id w) 0"
      using s by (auto simp: created_def)
    then have al: "is_alive s e" using s by (simp add: kernel_alive created_def)
    then obtain s' where "attach dbg err e v s = (Ok (), s')" "insert_attach dbg err e v s = (Ok (), s')"
        "kernel_inv s'" "next_id s' = next_id s" "current_epoch s' = current_epoch s"
        "\<And>t x. get_component s' t x = (if t = kernel_type v \<and> x = e then Some v else get_component s t x)"
      using attach_alive[OF s1(1) al] s1(2) assms(1) by (metis Suc_eq_plus1 Suc_leI)
    then show ?thesis using s assms(2) by (auto simp: created_def)
  qed
  then show "runs (created w e m) (attach dbg err e v) (\<lambda>_. created w e m')"
    "runs (created w e m) (insert_attach dbg err e v) (\<lambda>_. created w e m')"
    by (fastforce simp: runs_def)+
qed

lemma runs_spawn:
  "runs (\<lambda>s. s = w \<and> kernel_inv w) (spawn_k k err) (\<lambda>e. created w e Map.empty)"
proof (rule runsI)
  fix s assume s: "s = w \<and> kernel_inv w"
  obtain a w' where "spawn k None w = Ok ((Entity (next_id w) 0, a), w')" "kernel_inv w'"
      "next_id w' = next_id w + 1" "current_epoch w' = current_epoch w"
      "\<And>t x. get_component w' t x = get_component w t x" "\<And>t. get_component w t (Entity (next_id w) 0) = None"
    using kernel_spawn[of w k None] s by blast
  moreover have "0 < next_id w" using s by (simp add: kernel_inv_def world_inv_def)
  ultimately show "\<exists>a s'. spawn_k k err s = (Ok a, s') \<and> created w a Map.empty s'"
    using s by (auto simp: spawn_k_def created_def)
qed

lemma runs_created_when:
  assumes "next_id w < 2 ^ 32"
  shows "runs (created w e m) (attach_when c dbg err e v)
    (\<lambda>_. created w e (if c then m(kernel_type v \<mapsto> v) else m))"
  using runs_created(1)[OF assms refl] runs_return by (auto simp: attach_when_def)

lemma runs_created_all:
  assumes "next_id w < 2 ^ 32"
  shows "runs (created w e m) (attach_all dbg err e vs)
    (\<lambda>_. created w e (foldl (\<lambda>m v. m(kernel_type v \<mapsto> v)) m vs))"
  unfolding attach_all_def
proof (induction vs arbitrary: m)
  case Nil
  show ?case by (simp add: runs_return)
next
  case (Cons v vs)
  show ?case using runs_bind[OF runs_created(1)[OF assms refl] Cons.IH] by simp
qed

lemma kernel_type_rt [simp]: "kernel_type (rt c) = runtime_type c"
  by (simp add: rt_def)

subsection \<open>The components of new entities\<close>

definition work_components :: "create_work_cmd \<Rightarrow> type_id \<rightharpoonup> kernel_value" where
  "work_components cmd =
     (let kind = work_kind_of (cwc_kind cmd);
          m0 = [T_work_state \<mapsto> VWorkState WPending, T_work_item \<mapsto> VWorkItem
            \<lparr>wi_kind = kind, wi_target = cwc_target_entity cmd, retry_count = 0, max_retries = 3\<rparr>];
          m1 = (if kind = RunInference
            then m0(T_inference \<mapsto> rt (KInference (from_typed_resource_claim (cwc_inference_hint cmd)))) else m0);
          m2 = (if cwc_output_path cmd \<noteq> [] then m1(101 \<mapsto> rt (KWorkOutputPath (cwc_output_path cmd))) else m1)
      in if cwc_input_path cmd \<noteq> [] then m2(102 \<mapsto> rt (KWorkInputPath (cwc_input_path cmd))) else m2)"

lemma runs_create_work:
  assumes "next_id w < 2 ^ 32"
  shows "runs (\<lambda>s. s = w \<and> kernel_inv w) (execute_create_work dbg cmd) (\<lambda>r s.
    created w (Entity (next_id w) 0) (work_components cmd) s \<and>
    r = LifecycleDone (LrWorkCreated (Entity (next_id w) 0) 0 (current_epoch w)))"
  unfolding execute_create_work_def Let_def
  apply (rule runs_bind[OF runs_spawn])
  apply (rule runs_bind[OF runs_created(1)[OF assms refl]])
  apply (rule runs_bind[OF runs_created(1)[OF assms refl]])
  apply (rule runs_bind[OF runs_created_when[OF assms]])
  apply (rule runs_bind[OF runs_created_when[OF assms]])
  apply (rule runs_bind[OF runs_created_when[OF assms]])
  apply (rule runsI)
  apply (simp add: read_world_def act_return_def work_components_def Let_def cong: if_cong)
  apply (auto simp: created_def)
  done

definition job_components :: "nat \<Rightarrow> create_job_cmd \<Rightarrow> type_id \<rightharpoonup> kernel_value" where
  "job_components created_at cmd =
     (let artifact = le_number (take 8 (cjc_model_artifact cmd)) in
      [105 \<mapsto> rt (KCompilationJob \<lparr>cj_job_id = cjc_job_id cmd, cj_target_artifact = artifact,
          cj_target_device_profile = cjc_target_profile cmd, cj_created_at = created_at\<rparr>),
       106 \<mapsto> rt (KJobInput \<lparr>ji_model_artifact = artifact, ji_source_format = [],
          ji_quantization_profile = None\<rparr>),
       107 \<mapsto> rt (KJobConfig \<lparr>jc_target_format = cjc_target_format cmd,
          jc_optimization_level = ucast (cjc_optimization_level cmd),
          jc_enable_validation = cjc_enable_validation cmd\<rparr>),
       108 \<mapsto> rt (KJobLifecycle JobPending)])"

lemma runs_create_job:
  assumes "next_id w < 2 ^ 32"
  shows "runs (\<lambda>s. s = w \<and> kernel_inv w) (execute_create_compilation_job dbg h cmd) (\<lambda>r s.
    created w (Entity (next_id w) 0) (job_components (clock h) cmd) s \<and>
    r = LifecycleDone (LrCompilationJobCreated (Entity (next_id w) 0) 0 (current_epoch w)))"
  unfolding execute_create_compilation_job_def Let_def
  apply (rule runs_bind[OF runs_spawn])
  apply (rule runs_bind[OF runs_created(2)[OF assms refl]])
  apply (rule runs_bind[OF runs_created(2)[OF assms refl]])
  apply (rule runs_bind[OF runs_created(2)[OF assms refl]])
  apply (rule runs_bind[OF runs_created(2)[OF assms refl]])
  apply (rule runsI)
  apply (auto simp: read_world_def act_return_def job_components_def Let_def created_def)
  done

definition agent_components :: "nat \<Rightarrow> type_id \<rightharpoonup> kernel_value" where
  "agent_components parent =
     [T_agent_phase \<mapsto> rt (KAgentPhase Planning), T_parent_agent \<mapsto> rt (KParentAgentId (Entity parent 0))]"

lemma runs_spawn_agent:
  assumes "next_id w < 2 ^ 32"
  shows "runs (\<lambda>s. s = w \<and> kernel_inv w) (execute_spawn dbg parent) (\<lambda>r s.
    created w (Entity (next_id w) 0) (agent_components parent) s \<and> r = next_id w)"
  unfolding execute_spawn_def Let_def
  apply (rule runs_bind[OF runs_spawn])
  apply (rule runs_bind[OF runs_created(1)[OF assms refl]])
  apply (rule runs_bind[OF runs_created(1)[OF assms refl]])
  apply (rule runs_return)
  apply (auto simp: agent_components_def created_def)
  done

definition put_all :: "kernel_value list \<Rightarrow> type_id \<rightharpoonup> kernel_value" where
  "put_all vs = foldl (\<lambda>m v. m(kernel_type v \<mapsto> v)) Map.empty vs"

definition provenance_of :: "host \<Rightarrow> string \<Rightarrow> string \<Rightarrow> string \<Rightarrow> 8 word list" where
  "provenance_of h name path format =
     (case read_file h path of Some bs \<Rightarrow> bs | None \<Rightarrow> model_descriptor name path format)"

definition artifact_components :: "host \<Rightarrow> string \<Rightarrow> string \<Rightarrow> string \<Rightarrow> type_id \<rightharpoonup> kernel_value" where
  "artifact_components h name path format = (let p = provenance_of h name path format in
     put_all [rt (KArtifactPath path), VArtifactDigest (blake3 h p),
       rt (KArtifactMetadata \<lparr>am_length = length p, am_path = path\<rparr>), rt (KArtifactLifecycle Discovered)])"

definition model_components :: "host \<Rightarrow> string \<Rightarrow> string \<Rightarrow> string \<Rightarrow> nat \<Rightarrow> type_id \<rightharpoonup> kernel_value" where
  "model_components h name path format a =
     put_all [VModelId (uuid_number (take 16 (blake3 h (model_descriptor name path format)))),
       rt (KModelName name), rt (KModelFormat format),
       VModelArtifactRef \<lparr>mar_artifact_id = a, mar_digest = blake3 h (provenance_of h name path format)\<rparr>,
       VModelLifecycle ModelCreated]"

lemma runs_ex:
  assumes "\<And>s. P s \<Longrightarrow> runs (R s) m (Q s)"
  shows "runs (\<lambda>s'. \<exists>s. P s \<and> R s s') m (\<lambda>a s'. \<exists>s. P s \<and> Q s a s')"
  using assms unfolding runs_def by fast

lemma runs_spawn_after:
  assumes "\<And>s. P s \<Longrightarrow> kernel_inv s"
  shows "runs P (spawn_k k err) (\<lambda>e s'. \<exists>s. P s \<and> created s e Map.empty s')"
proof (rule runsI)
  fix s assume "P s"
  then show "\<exists>a s'. spawn_k k err s = (Ok a, s') \<and> (\<exists>s. P s \<and> created s a Map.empty s')"
    using runs_spawn[of s k err] assms unfolding runs_def by blast
qed

lemma runs_register:
  assumes "next_id w + 2 \<le> 2 ^ 32" "\<not> (is_blank name \<or> is_blank path \<or> is_blank format)"
  shows "runs (\<lambda>s. s = w \<and> kernel_inv w) (execute_register_model dbg h name path format) (\<lambda>r s.
    r = next_id w + 1 \<and> (\<exists>w1. created w (Entity (next_id w) 0) (artifact_components h name path format) w1 \<and>
      created w1 (Entity (next_id w + 1) 0) (model_components h name path format (next_id w)) s))"
proof -
  let ?a = "artifact_components h name path format"
  have room: "next_id w < 2 ^ 32" using assms(1) by simp
  have mid: "kernel_inv s \<and> next_id s < 2 ^ 32" if "created w a m s" for s a m
    using that assms(1) by (auto simp: created_def)
  have reg: "execute_register_model dbg h name path format =
      act_bind (spawn_k Artifact (EntityError ''spawn artifact failed'')) (\<lambda>a.
      act_bind (attach_all dbg (EntityError ''register artifact components failed'') a
        [rt (KArtifactPath path), VArtifactDigest (blake3 h (provenance_of h name path format)),
         rt (KArtifactMetadata \<lparr>am_length = length (provenance_of h name path format), am_path = path\<rparr>),
         rt (KArtifactLifecycle Discovered)]) (\<lambda>_.
      act_bind (spawn_k Model (EntityError ''spawn model failed'')) (\<lambda>m.
      act_bind (attach_all dbg (EntityError ''register model components failed'') m
        [VModelId (uuid_number (take 16 (blake3 h (model_descriptor name path format)))),
         rt (KModelName name), rt (KModelFormat format), VModelArtifactRef
           \<lparr>mar_artifact_id = eid a, mar_digest = blake3 h (provenance_of h name path format)\<rparr>,
         VModelLifecycle ModelCreated]) (\<lambda>_. act_return (eid m)))))"
    using assms(2) by (simp add: execute_register_model_def provenance_of_def Let_def)
  show ?thesis
    unfolding reg
    apply (rule runs_bind[OF runs_spawn])
    apply (rule runs_bind[OF runs_created_all[OF room]])
    apply (rule runs_bind[OF runs_spawn_after])
     apply (use mid in blast)
    apply (rule runs_bind[OF runs_ex[OF runs_created_all]])
     apply (use mid in blast)
    apply (rule runs_return)
    apply (auto simp: artifact_components_def model_components_def put_all_def Let_def created_def)
    done
qed

lemma runs_create_modality:
  assumes "next_id w < 2 ^ 32" "\<not> (is_blank path \<or> is_blank prompt)"
  shows "runs (\<lambda>s. s = w \<and> kernel_inv w) (execute_create_modality_work dbg kind path prompt out) (\<lambda>r s.
    r = next_id w \<and> created w (Entity (next_id w) 0) [119 \<mapsto> rt (KModalityWork
      \<lparr>mw_kind = kind, mw_model_path = path, mw_prompt = prompt, mw_output_path = out\<rparr>)] s)"
  using assms(2) unfolding execute_create_modality_work_def
  apply simp
  apply (rule runs_bind[OF runs_spawn])
  apply (rule runs_bind[OF runs_created(1)[OF assms(1) refl]])
  apply (rule runs_return)
  apply (auto simp: created_def)
  done

subsection \<open>What every command does\<close>

text \<open>The progress of an inference request: its counters only grow, the rest of its metadata is fixed.\<close>

definition inference_le :: "inference_metadata \<Rightarrow> inference_metadata \<Rightarrow> bool" where
  "inference_le m m' \<longleftrightarrow> prefilled_tokens m \<le> prefilled_tokens m' \<and> generated_tokens m \<le> generated_tokens m' \<and>
     kv_tokens m \<le> kv_tokens m' \<and>
     m' = m\<lparr>phase := phase m', prefilled_tokens := prefilled_tokens m', generated_tokens := generated_tokens m',
       kv_tokens := kv_tokens m'\<rparr>"

lemma inference_le_refl: "inference_le m m"
  by (simp add: inference_le_def)

lemma inference_le_trans:
  assumes "inference_le a b" "inference_le b c"
  shows "inference_le a c"
proof -
  obtain p q r s where b: "b = a\<lparr>phase := p, prefilled_tokens := q, generated_tokens := r, kv_tokens := s\<rparr>"
    using assms(1) unfolding inference_le_def by blast
  have "c = b\<lparr>phase := phase c, prefilled_tokens := prefilled_tokens c, generated_tokens := generated_tokens c,
      kv_tokens := kv_tokens c\<rparr>"
    using assms(2) unfolding inference_le_def by blast
  then have "c = a\<lparr>phase := phase c, prefilled_tokens := prefilled_tokens c, generated_tokens := generated_tokens c,
      kv_tokens := kv_tokens c\<rparr>"
    by (simp add: b)
  then show ?thesis using assms unfolding inference_le_def by (meson order_trans)
qed

definition kernel_step :: "nat \<Rightarrow> kernel_world \<Rightarrow> kernel_world \<Rightarrow> bool" where
  "kernel_step n w w' \<longleftrightarrow> kernel_inv w' \<and> next_id w \<le> next_id w' \<and> next_id w' \<le> next_id w + n \<and>
     current_epoch w' = current_epoch w \<and>
     (\<forall>x m. get_inference w x = Some m \<longrightarrow> (\<exists>m'. get_inference w' x = Some m' \<and> inference_le m m'))"

lemma kernel_step_refl: "kernel_inv w \<Longrightarrow> kernel_step n w w"
  by (auto simp: kernel_step_def inference_le_refl)

lemma kernel_step_trans: "kernel_step n w w' \<Longrightarrow> kernel_step k w' w'' \<Longrightarrow> kernel_step (n + k) w w''"
  unfolding kernel_step_def using inference_le_trans by (fastforce simp: add.assoc)

lemma kernel_step_mono: "kernel_step n w w' \<Longrightarrow> n \<le> k \<Longrightarrow> kernel_step k w w'"
  by (auto simp: kernel_step_def)

lemma written_step:
  assumes "written w e m w'" "m T_inference = None"
  shows "kernel_step 0 w w'"
  using assms by (auto simp: written_def kernel_step_def get_inference_def inference_le_refl)

lemma created_step:
  assumes "kernel_inv w" "created w e m w'"
  shows "kernel_step 1 w w'"
proof -
  have "\<not> is_alive w e" using assms by (auto simp: created_def kernel_alive)
  then have "get_component w t e = None" for t by (simp add: get_component_alive)
  then show ?thesis
    using assms(2) by (auto simp: created_def kernel_step_def get_inference_def inference_le_refl)
qed

text \<open>A handler either succeeds with such a step, or reports an error and leaves the world as it was.\<close>

definition settles :: "'a world_action \<Rightarrow> kernel_world \<Rightarrow> bool" where
  "settles m w \<longleftrightarrow> (\<exists>r w'. m w = (Ok r, w') \<and> kernel_step 2 w w') \<or> (\<exists>e. m w = (Err e, w))"

lemma settles_runs:
  assumes "runs (\<lambda>s. s = w \<and> kernel_inv w) m Q" "kernel_inv w" "\<And>r s. Q r s \<Longrightarrow> kernel_step 2 w s"
  shows "settles m w"
  using assms unfolding runs_def settles_def by blast

lemma settles_written:
  assumes "kernel_inv w" "runs (written w e Map.empty) m (\<lambda>_. written w e c)" "c T_inference = None"
  shows "settles m w"
proof -
  obtain r s where "m w = (Ok r, s)" "written w e c s"
    using assms(2) written_self[OF assms(1)] unfolding runs_def by blast
  then show ?thesis using written_step[of w e c s] assms(3) kernel_step_mono by (fastforce simp: settles_def)
qed

lemma settles_return: "kernel_inv w \<Longrightarrow> settles (act_return r) w"
  by (simp add: settles_def act_return_def kernel_step_refl)

lemma settles_fail: "settles (act_fail e) w"
  by (simp add: settles_def act_fail_def)

lemma settles_then: "settles m w \<Longrightarrow> settles (act_bind m (\<lambda>r. act_return (f r))) w"
  by (auto simp: settles_def act_bind_def act_return_def)

lemma settles_read: "settles (f w) w \<Longrightarrow> settles (read_world f) w"
  by (simp add: settles_def read_world_def)

lemma settles_attach:
  assumes "kernel_inv w" "next_id w \<le> 2 ^ 32" "kernel_type v \<noteq> T_inference"
  shows "settles (attach dbg err e v) w"
proof (cases "is_alive w e")
  case True
  show ?thesis
    by (rule settles_written[OF assms(1) runs_written[OF assms(1) True assms(2)]]) (use assms(3) in simp)
qed (simp add: settles_def attach_dead)

text \<open>A chain of writes on one entity fails only at its first write.\<close>

lemma settles_attach_bind:
  assumes "kernel_inv w" "next_id w \<le> 2 ^ 32" "kernel_type v \<noteq> T_inference"
    and "is_alive w e \<Longrightarrow> runs (written w e [kernel_type v \<mapsto> v]) (f ()) (\<lambda>_. written w e c)" "c T_inference = None"
  shows "settles (act_bind (attach dbg err e v) f) w"
proof (cases "is_alive w e")
  case True
  have "runs (written w e Map.empty) (act_bind (attach dbg err e v) f) (\<lambda>_. written w e c)"
    using runs_bind[OF runs_written[OF assms(1) True assms(2)]] assms(4)[OF True]
    by (metis old.unit.exhaust)
  from settles_written[OF assms(1) this assms(5)] show ?thesis .
qed (simp add: settles_def attach_dead act_bind_def)

lemma work_state_alive: "get_work_state w e = Some s \<Longrightarrow> is_alive w e"
  by (auto simp: get_work_state_def get_component_alive split: if_splits)

lemma inference_alive: "get_inference w e = Some m \<Longrightarrow> is_alive w e"
  by (auto simp: get_inference_def get_component_alive split: if_splits)

lemma attach_in_state_run:
  "attach_in_state p dbg err e s w =
     (if \<exists>st. get_work_state w e = Some st \<and> p st then attach dbg err e (VWorkState s) w else (Ok (), w))"
  by (auto simp: attach_in_state_def read_world_def act_return_def split: option.split)

lemma settles_in_state:
  assumes "kernel_inv w" "next_id w \<le> 2 ^ 32"
  shows "settles (attach_in_state p dbg err e s) w"
  using settles_attach[OF assms, of "VWorkState s"] settles_return[OF assms(1), of "()"]
  by (auto simp: settles_def attach_in_state_run act_return_def)

lemma settles_in_state_mark:
  assumes inv: "kernel_inv w" and room: "next_id w \<le> 2 ^ 32" and mark: "kernel_type v \<noteq> T_inference"
  shows "settles (act_bind (attach_in_state p dbg err e s) (\<lambda>_. act_bind (attach dbg err' e v)
    (\<lambda>_. act_return r))) w"
proof (cases "\<exists>st. get_work_state w e = Some st \<and> p st")
  case True
  then have al: "is_alive w e" using work_state_alive by blast
  have "settles (act_bind (attach dbg err e (VWorkState s)) (\<lambda>_. act_bind (attach dbg err' e v)
      (\<lambda>_. act_return r))) w"
    by (rule settles_attach_bind[OF inv room _ runs_bind[OF runs_written[OF inv al room] runs_return]])
      (assumption | use mark in simp)+
  moreover have "attach_in_state p dbg err e s w = attach dbg err e (VWorkState s) w"
    using True by (auto simp: attach_in_state_run)
  ultimately show ?thesis by (simp only: settles_def act_bind_def)
next
  case False
  have "settles (act_bind (attach dbg err' e v) (\<lambda>_. act_return r)) w"
    by (rule settles_then[OF settles_attach[OF inv room mark]])
  moreover have "attach_in_state p dbg err e s w = (Ok (), w)" using False by (auto simp: attach_in_state_run)
  ultimately show ?thesis by (simp only: settles_def act_bind_run(1))
qed

lemma lifecycle_settles:
  assumes inv: "kernel_inv w" and room: "next_id w + 2 \<le> 2 ^ 32"
    and lc: "\<And>e g t. lc \<noteq> LcAcquireWorkLease e g t" "\<And>e. lc \<noteq> LcReleaseWorkLease e"
  shows "settles (execute_lifecycle dbg h lc) w"
proof -
  have room': "next_id w \<le> 2 ^ 32" "next_id w < 2 ^ 32" using room by simp_all
  have one: "kernel_step 2 w s" if "created w e m s" for e m s
    using created_step[OF inv that] kernel_step_mono by fastforce
  have 1: "settles (execute_create_work dbg cmd) w" for cmd
    by (rule settles_runs[OF runs_create_work[OF room'(2)] inv]) (use one in blast)
  have 2: "settles (execute_create_compilation_job dbg h cmd) w" for cmd
    by (rule settles_runs[OF runs_create_job[OF room'(2)] inv]) (use one in blast)
  have 3: "settles (execute_admit_work dbg e) w" "settles (execute_mark_observed dbg e) w" for e
    unfolding execute_admit_work_def execute_mark_observed_def
    by (rule settles_in_state_mark[OF inv room'(1)]; simp)+
  have 4: "settles (execute_request_cancellation dbg e) w" "settles (execute_record_work_plan dbg e) w" for e
    unfolding execute_request_cancellation_def execute_record_work_plan_def
    by (rule settles_then[OF settles_in_state[OF inv room'(1)]])+
  have 5: "settles (execute_record_dispatch_intent dbg h e) w" for e
    unfolding execute_record_dispatch_intent_def by (rule settles_then[OF settles_attach[OF inv room'(1)]]) simp
  have 6: "settles (execute_fail_work dbg e err) w" for e err
    unfolding execute_fail_work_def attach_when_def
    by (rule settles_then, rule settles_read) (simp add: settles_attach[OF inv room'(1)] settles_return[OF inv])
  have 7: "settles (execute_complete_work dbg e out) w" for e out
    unfolding execute_complete_work_def
    apply (rule settles_attach_bind[where c = "[T_work_state \<mapsto> VWorkState WCompleted, 112 \<mapsto> rt (KResultPayload
        \<lparr>rp_result_type = ''completed'', rp_result = from_utf8_lossy out\<rparr>)]", OF inv room'(1)])
      apply simp
     apply (rule runs_bind[OF runs_written[OF inv _ room'(1)]], assumption)
     apply (auto simp: runs_def read_world_def act_return_def)
    done
  have 8: "settles (execute_publish_result_cmd dbg h e ty rs) w" for e ty rs
    unfolding execute_publish_result_cmd_def
    apply (rule settles_attach_bind[where c = "[T_work_state \<mapsto> VWorkState WCompleted, 112 \<mapsto> rt (KResultPayload
        \<lparr>rp_result_type = ty, rp_result = rs\<rparr>), 111 \<mapsto> rt KPublishedMarker]", OF inv room'(1)])
      apply simp
     apply (rule runs_bind[OF runs_written[OF inv _ room'(1)]], assumption)
     apply (rule runs_bind[OF runs_written[OF inv _ room'(1)]], assumption)
     apply (auto simp: runs_def read_world_def act_return_def)
    done
  show ?thesis
    using lc 1 2 3 4 5 6 7 8 settles_return[OF inv]
    by (cases lc) (auto simp: execute_lifecycle_def execute_attach_evidence_cmd_def)
qed

fun lease_command :: "command \<Rightarrow> bool" where
  "lease_command (Lifecycle (LcAcquireWorkLease _ _ _)) = True"
| "lease_command (Lifecycle (LcReleaseWorkLease _)) = True"
| "lease_command _ = False"

lemma advance_run:
  "execute_advance_inference dbg i ph p g ep kv w = (case get_inference w (Entity i 0) of
      None \<Rightarrow> (Err (EntityError ''inference metadata missing''), w)
    | Some m \<Rightarrow> if kv_epoch m \<noteq> ep then (Err (EntityError ''stale KV epoch for inference''), w)
        else if p < prefilled_tokens m \<or> g < generated_tokens m \<or> kv < kv_tokens m
        then (Err (EntityError ''inference progress regressed''), w)
        else act_bind (attach dbg (EntityError ''advance inference failed'') (Entity i 0) (rt (KInference
          (m\<lparr>phase := ph, prefilled_tokens := p, generated_tokens := g, kv_tokens := kv\<rparr>))))
          (\<lambda>_. act_return (InferenceAdvanced i ph p g ep kv)) w)"
  by (simp add: execute_advance_inference_def read_world_def act_fail_def Let_def split: option.split)

lemma advance_succeeds:
  assumes inv: "kernel_inv w" and room: "next_id w \<le> 2 ^ 32"
    and m: "get_inference w (Entity i 0) = Some m" "kv_epoch m = ep"
    and ge: "prefilled_tokens m \<le> p" "generated_tokens m \<le> g" "kv_tokens m \<le> kv"
  obtains w' where
    "execute_advance_inference dbg i ph p g ep kv w = (Ok (InferenceAdvanced i ph p g ep kv), w')"
    "written w (Entity i 0) [T_inference \<mapsto> rt (KInference
       (m\<lparr>phase := ph, prefilled_tokens := p, generated_tokens := g, kv_tokens := kv\<rparr>))] w'"
proof -
  let ?v = "rt (KInference (m\<lparr>phase := ph, prefilled_tokens := p, generated_tokens := g, kv_tokens := kv\<rparr>))"
  have al: "is_alive w (Entity i 0)" using m(1) by (rule inference_alive)
  have "runs (written w (Entity i 0) Map.empty) (attach dbg err (Entity i 0) ?v)
      (\<lambda>_. written w (Entity i 0) [T_inference \<mapsto> ?v])" for err
    using runs_written[OF inv al room, of Map.empty dbg err ?v] by simp
  then obtain w' where "attach dbg (EntityError ''advance inference failed'') (Entity i 0) ?v w = (Ok (), w')"
      "written w (Entity i 0) [T_inference \<mapsto> ?v] w'"
    unfolding runs_def using written_self[OF inv, of "Entity i 0"] by (metis old.unit.exhaust)
  then show ?thesis
    using that m ge by (simp add: advance_run act_bind_run(1) act_return_def flip: not_le)
qed

lemma advance_settles:
  assumes inv: "kernel_inv w" and room: "next_id w \<le> 2 ^ 32"
  shows "settles (execute_advance_inference dbg i ph p g ep kv) w"
proof (cases "\<exists>m. get_inference w (Entity i 0) = Some m \<and> kv_epoch m = ep \<and> prefilled_tokens m \<le> p
    \<and> generated_tokens m \<le> g \<and> kv_tokens m \<le> kv")
  case True
  then obtain m where m: "get_inference w (Entity i 0) = Some m" "kv_epoch m = ep" "prefilled_tokens m \<le> p"
      "generated_tokens m \<le> g" "kv_tokens m \<le> kv" by blast
  obtain w' where w': "execute_advance_inference dbg i ph p g ep kv w = (Ok (InferenceAdvanced i ph p g ep kv), w')"
      "written w (Entity i 0) [T_inference \<mapsto> rt (KInference
       (m\<lparr>phase := ph, prefilled_tokens := p, generated_tokens := g, kv_tokens := kv\<rparr>))] w'"
    using advance_succeeds[OF inv room m] by blast
  have "kernel_step 2 w w'"
    using w'(2) m by (auto simp: written_def kernel_step_def get_inference_def inference_le_refl rt_def
        inference_le_def split: option.splits)
  then show ?thesis using w'(1) by (auto simp: settles_def)
next
  case False
  then show ?thesis by (auto simp: settles_def advance_run not_le split: option.split)
qed

lemma command_settles:
  assumes inv: "kernel_inv w" and room: "next_id w + 2 \<le> 2 ^ 32" and nl: "\<not> lease_command cmd"
  shows "settles (execute_command dbg h cmd) w"
proof -
  have room': "next_id w \<le> 2 ^ 32" "next_id w < 2 ^ 32" using room by simp_all
  have one: "kernel_step 2 w s" if "created w e m s" for e m s
    using created_step[OF inv that] kernel_step_mono by fastforce
  have two: "kernel_step 2 w s" if "created w e m w1" "created w1 e' m' s" for e m w1 e' m' s
    using kernel_step_trans[OF created_step[OF inv that(1)] created_step[OF _ that(2)]] that(1)
    by (simp add: created_def numeral_2_eq_2)
  have 1: "settles (execute_spawn dbg parent) w" for parent
    by (rule settles_runs[OF runs_spawn_agent[OF room'(2)] inv]) (use one in blast)
  have 2: "settles (execute_register_model dbg h name path format) w" for name path format
  proof (cases "is_blank name \<or> is_blank path \<or> is_blank format")
    case True
    then show ?thesis by (simp add: execute_register_model_def settles_fail)
  next
    case False
    show ?thesis by (rule settles_runs[OF runs_register[OF room False] inv]) (use two in blast)
  qed
  have 3: "settles (execute_bind_inference_kv dbg i epoch pages c1 c2) w" for i epoch pages c1 c2
    unfolding execute_bind_inference_kv_def
    by (rule settles_read) (simp add: Let_def settles_fail settles_attach[OF inv room'(1)])
  have 4: "settles (execute_create_modality_work dbg kind path prompt out) w" for kind path prompt out
  proof (cases "is_blank path \<or> is_blank prompt")
    case True
    then show ?thesis by (simp add: execute_create_modality_work_def settles_fail)
  next
    case False
    show ?thesis by (rule settles_runs[OF runs_create_modality[OF room'(2) False] inv]) (use one in blast)
  qed
  have 5: "settles (execute_cancel_txn dbg a) w" "settles (complete_modality dbg err i d b) w"
      "settles (fail_modality dbg err i msg) w" for a err i d b msg
    unfolding execute_cancel_txn_def complete_modality_def fail_modality_def
    by (rule settles_attach[OF inv room'(1)], simp)+
  have 6: "settles (execute_lifecycle dbg h lc) w" if "cmd = Lifecycle lc" for lc
    by (rule lifecycle_settles[OF inv room]) (use nl that in auto)
  show ?thesis
    using 6 1 2 3 4 5 advance_settles[OF inv room'(1)]
    by (cases cmd) (simp_all add: execute_command_def settles_then settles_fail)
qed

subsection \<open>Properties\<close>

text \<open>C7: every kernel command other than the two lease commands, in a debug or a release build, either
  succeeds with at most two new entities, the same epoch, all inference counters grown and the kernel's world
  invariant kept, or reports an error and leaves the world as it was. It never panics.\<close>

theorem commands_all_or_nothing:
  assumes "kernel_inv w" "next_id w + 2 \<le> 2 ^ 32" "\<not> lease_command cmd"
  shows "(\<exists>r w'. execute_command dbg h cmd w = (Ok r, w') \<and> kernel_step 2 w w') \<or>
    (\<exists>err. execute_command dbg h cmd w = (Err err, w))"
  using command_settles[OF assms, of dbg h] by (simp add: settles_def)

definition sample_host :: host where
  "sample_host = \<lparr>read_file = Map.empty, blake3 = (\<lambda>bs. replicate 32 (of_nat (length bs))), clock = 7, new_uuid = ''u''\<rparr>"

theorem commands_all_or_nothing_witness:
  "let cmd = RegisterModel ''m'' ''path'' ''gguf'' in
   (\<exists>r w'. execute_command True sample_host cmd world_new = (Ok r, w') \<and> kernel_step 2 world_new w') \<or>
   (\<exists>err. execute_command True sample_host cmd world_new = (Err err, world_new))"
  unfolding Let_def by (rule commands_all_or_nothing[OF kernel_inv_new]) (simp_all add: world_new_def)

text \<open>Creating work through the kernel spawns one new work unit whose components are exactly its state
  \<open>Pending\<close>, its work item with three retries, and the inference metadata and paths the command asks for;
  every other entity keeps its components.\<close>

theorem create_work_command_correct:
  assumes "kernel_inv w" "next_id w < 2 ^ 32"
  shows "\<exists>w'. execute_command dbg h (Lifecycle (LcCreateWork cmd)) w =
      (Ok (LifecycleDone (LrWorkCreated (Entity (next_id w) 0) 0 (current_epoch w))), w') \<and>
    created w (Entity (next_id w) 0) (work_components cmd) w' \<and>
    get_work_state w' (Entity (next_id w) 0) = Some WPending"
proof -
  have "get_work_state s e = Some WPending" if "created w e (work_components cmd) s" for s e
    using that by (auto simp: created_def get_work_state_def work_components_def Let_def)
  then show ?thesis
    using runs_create_work[OF assms(2), of dbg cmd] assms(1)
    unfolding runs_def execute_command_def execute_lifecycle_def by auto
qed

definition sample_work :: create_work_cmd where
  "sample_work = \<lparr>cwc_entity = Entity 0 0, cwc_target_entity = Entity 0 0, cwc_kind = ''inference'',
     cwc_input_path = [], cwc_output_path = ''out'',
     cwc_claim = \<lparr>memory_bytes = 0, compute_units = 0, claim_priority = 1\<rparr>,
     cwc_inference_hint = Some sample_hint\<rparr>"

theorem create_work_command_correct_witness:
  "\<exists>w'. execute_command True sample_host (Lifecycle (LcCreateWork sample_work)) world_new =
     (Ok (LifecycleDone (LrWorkCreated (Entity 1 0) 0 0)), w') \<and> get_work_state w' (Entity 1 0) = Some WPending"
  using create_work_command_correct[OF kernel_inv_new, of True sample_host sample_work]
  by (auto simp: world_new_def current_epoch_def)

text \<open>A work unit that the kernel created and completed.\<close>

lemma completed_work_exists:
  "\<exists>w. kernel_inv w \<and> next_id w = 2 \<and> get_work_state w (Entity 1 0) = Some WCompleted"
proof -
  have "next_id (world_new :: kernel_world) < 2 ^ 32" by (simp add: world_new_def)
  from runs_create_work[OF this, of True sample_work]
  obtain w1 where w1: "created world_new (Entity 1 0) (work_components sample_work) w1"
    unfolding runs_def using kernel_inv_new by (auto simp: world_new_def)
  then have inv: "kernel_inv w1" and al: "is_alive w1 (Entity 1 0)" and n: "next_id w1 = 2"
    by (auto simp: created_def kernel_alive world_new_def)
  have "next_id w1 \<le> 2 ^ 32" using n by simp
  from runs_written[OF inv al this, of Map.empty False undefined "VWorkState WCompleted"]
  obtain w2 where "written w1 (Entity 1 0) [T_work_state \<mapsto> VWorkState WCompleted] w2"
    unfolding runs_def using written_self[OF inv, of "Entity 1 0"] by auto
  then show ?thesis using n by (auto simp: written_def get_work_state_def)
qed

text \<open>The kernel's handlers do not follow the state machine of work items: a work unit in a terminal state,
  on which every command of \<open>work.rs\<close> is refused, is made \<open>Leased\<close> again by recording a dispatch intent, is
  overwritten with \<open>Completed\<close> by completing it, and is failed by failing it.\<close>

theorem kernel_leaves_terminal_states:
  assumes inv: "kernel_inv w" and room: "next_id w \<le> 2 ^ 32"
    and st: "get_work_state w e = Some s" "work_is_terminal s"
  shows "(\<forall>cmd. work_target cmd = Some e \<longrightarrow> (\<exists>err. item_step cmd e (work_view_of w e) = Err err)) \<and>
    (\<exists>r w'. execute_command dbg h (Lifecycle (LcRecordDispatchIntent e b c d)) w = (Ok r, w') \<and>
      get_work_state w' e = Some (WLeased 1)) \<and>
    (\<exists>r w'. execute_command dbg h (Lifecycle (LcCompleteWork e g out path)) w = (Ok r, w') \<and>
      get_work_state w' e = Some WCompleted) \<and>
    (\<exists>r w'. execute_command dbg h (Lifecycle (LcFailWork e msg g retry)) w = (Ok r, w') \<and>
      get_work_state w' e = Some WFailed)"
proof -
  have al: "is_alive w e" using st(1) by (rule work_state_alive)
  note wr = runs_written[OF inv al room]
  have state: "get_work_state w' e = Some x" if "written w e m w'" "m T_work_state = Some (VWorkState x)" for m w' x
    using that by (simp add: written_def get_work_state_def)
  have reject: "\<exists>err. item_step cmd e (work_view_of w e) = Err err" if "work_target cmd = Some e" for cmd
    using that st by (cases cmd; cases s) (auto simp: item_step_def work_view_of_def work_is_terminal_def)
  have goal: "\<exists>r w'. m w = (Ok r, w') \<and> get_work_state w' e = Some x"
    if "runs (written w e Map.empty) m (\<lambda>_. written w e c)" "c T_work_state = Some (VWorkState x)"
    for m :: "command_result world_action" and c x
    using that state written_self[OF inv, of e] unfolding runs_def by blast
  have dispatch: "runs (written w e Map.empty) (execute_record_dispatch_intent dbg h e)
      (\<lambda>_. written w e [T_work_state \<mapsto> VWorkState (WLeased 1)])"
    unfolding execute_record_dispatch_intent_def
    by (rule runs_bind[OF wr]) (simp add: runs_return)
  have complete: "runs (written w e Map.empty) (execute_complete_work dbg e out)
      (\<lambda>_. written w e [T_work_state \<mapsto> VWorkState WCompleted, 112 \<mapsto> rt (KResultPayload
        \<lparr>rp_result_type = ''completed'', rp_result = from_utf8_lossy out\<rparr>)])"
    unfolding execute_complete_work_def
    by (rule runs_bind[OF wr], rule runs_bind[OF wr]) (auto simp: runs_def read_world_def act_return_def)
  have fail: "execute_fail_work dbg e msg w = act_bind (attach dbg (EntityError ''fail work transition'') e
      (VWorkState WFailed)) (\<lambda>_. act_return (LifecycleDone (LrFailed e msg))) w"
    using al by (simp add: execute_fail_work_def act_bind_def read_world_def attach_when_def has_entity_def)
  have failed: "runs (written w e Map.empty) (act_bind (attach dbg (EntityError ''fail work transition'') e
      (VWorkState WFailed)) (\<lambda>_. act_return (LifecycleDone (LrFailed e msg))))
      (\<lambda>_. written w e [T_work_state \<mapsto> VWorkState WFailed])"
    by (rule runs_bind[OF wr]) (simp add: runs_return)
  show ?thesis
    using reject goal[OF dispatch] goal[OF complete] goal[OF failed]
    by (simp add: execute_command_def execute_lifecycle_def fail)
qed

theorem kernel_leaves_terminal_states_witness:
  "\<exists>w w' r. get_work_state w (Entity 1 0) = Some WCompleted \<and>
     execute_command False sample_host (Lifecycle (LcRecordDispatchIntent (Entity 1 0) Metal [] 9)) w = (Ok r, w') \<and>
     get_work_state w' (Entity 1 0) = Some (WLeased 1)"
proof -
  obtain w where w: "kernel_inv w" "next_id w = 2" "get_work_state w (Entity 1 0) = Some WCompleted"
    using completed_work_exists by blast
  have room: "next_id w \<le> 2 ^ 32" using w(2) by simp
  have "work_is_terminal WCompleted" by (simp add: work_is_terminal_def)
  from kernel_leaves_terminal_states[OF w(1) room w(3) this, of False sample_host Metal "[]" 9 0 "[]" "[]" "[]" False]
  show ?thesis using w(3) by blast
qed

end
