(* ===== verification/Command_Store.thy ===== *)
theory Command_Store
  imports Kernel_Types "HOL-Library.AList"
begin

text \<open>
  The ports the kernel submits through (\<open>ports/mod.rs\<close>): the command store that admits and completes
  commands, and the lease coordinator; and the in-memory implementations that \<open>RuntimeKernel::new\<close> uses
  (\<open>test_adapters.rs\<close>). A \<open>dyn\<close> port is a record of operations on its state. A stored envelope or
  result is a value of a type \<open>'j\<close> of JSON texts. The locale \<open>journal\<close> is the contract of a command store.
\<close>

subsection \<open>The ports\<close>

datatype 'j admission = Admitted nat | AlreadyCompleted 'j nat nat | AlreadyInFlight

record 'j completed_command =
  cc_sequence :: nat
  cc_idempotency_key :: nat
  cc_envelope_json :: 'j
  cc_result_json :: 'j
  cc_world_epoch :: nat

record 'j admitted_command =
  ac_sequence :: nat
  ac_idempotency_key :: nat
  ac_envelope_json :: 'j

record command_watermarks =
  last_committed_sequence :: nat
  last_admitted_sequence :: nat
  unresolved_count :: nat

record ('s, 'j) command_store =
  cs_admit :: "nat \<Rightarrow> 'j \<Rightarrow> ('s, runtime_error, 'j admission) action"
  cs_complete :: "nat \<Rightarrow> 'j \<Rightarrow> nat \<Rightarrow> ('s, runtime_error, unit) action"
  cs_lookup :: "nat \<Rightarrow> ('s, runtime_error, 'j option) action"
  cs_completed_after :: "nat \<Rightarrow> ('s, runtime_error, 'j completed_command list) action"
  cs_unresolved :: "('s, runtime_error, 'j admitted_command list) action"
  cs_high_water_marks :: "('s, runtime_error, command_watermarks) action"
  cs_transition_state :: "nat \<Rightarrow> string \<Rightarrow> ('s, runtime_error, unit) action"

record 'l lease_coordinator =
  lc_acquire :: "string \<Rightarrow> nat \<Rightarrow> ('l, runtime_error, bool) action"
  lc_renew :: "string \<Rightarrow> nat \<Rightarrow> ('l, runtime_error, bool) action"
  lc_release :: "string \<Rightarrow> ('l, runtime_error, unit) action"

subsection \<open>The in-memory command store\<close>

datatype 'j command_state = InFlight nat 'j | RecoveryRequired nat 'j | Completed nat 'j 'j nat

fun seq_of :: "'j command_state \<Rightarrow> nat" where
  "seq_of (InFlight q _) = q"
| "seq_of (RecoveryRequired q _) = q"
| "seq_of (Completed q _ _ _) = q"

text \<open>
  The hash map is the list of its entries. Its iteration order is not observable: \<open>complete\<close> and
  \<open>transition_state\<close> look for a sequence number, of which there is one entry, and the scans sort.
\<close>

record 'j mem_store =
  commands :: "(nat \<times> 'j command_state) list"
  next_sequence :: nat

definition mem_store_new :: "'j mem_store" where
  "mem_store_new = \<lparr>commands = [], next_sequence = 1\<rparr>"

definition admit_fresh :: "nat \<Rightarrow> 'j \<Rightarrow> ('j mem_store, runtime_error, 'j admission) action" where
  "admit_fresh key json s =
     (Ok (Admitted (next_sequence s)),
      s\<lparr>next_sequence := next_sequence s + 1,
        commands := AList.update key (InFlight (next_sequence s) json) (commands s)\<rparr>)"

definition mem_admit :: "nat \<Rightarrow> 'j \<Rightarrow> ('j mem_store, runtime_error, 'j admission) action" where
  "mem_admit key json s = (case map_of (commands s) key of
     Some (RecoveryRequired _ _) \<Rightarrow> admit_fresh key json s
   | Some (Completed q _ r ep) \<Rightarrow> (Ok (AlreadyCompleted r q ep), s)
   | Some (InFlight _ _) \<Rightarrow> (Ok AlreadyInFlight, s)
   | None \<Rightarrow> admit_fresh key json s)"

text \<open>The loop over the map for the entry in flight under a sequence number, and what is stored for it.\<close>

fun settle_in_flight :: "nat \<Rightarrow> ('j \<Rightarrow> 'j command_state) \<Rightarrow> (nat \<times> 'j command_state) list \<Rightarrow>
    (nat \<times> 'j command_state) list option" where
  "settle_in_flight q f [] = None"
| "settle_in_flight q f ((k, st) # es) =
     (case st of
        InFlight q' env \<Rightarrow> if q' = q then Some ((k, f env) # es)
          else map_option ((#) (k, st)) (settle_in_flight q f es)
      | _ \<Rightarrow> map_option ((#) (k, st)) (settle_in_flight q f es))"

definition mem_complete :: "nat \<Rightarrow> 'j \<Rightarrow> nat \<Rightarrow> ('j mem_store, runtime_error, unit) action" where
  "mem_complete q result epoch s =
     (case settle_in_flight q (\<lambda>env. Completed q env result epoch) (commands s) of
        Some es \<Rightarrow> (Ok (), s\<lparr>commands := es\<rparr>)
      | None \<Rightarrow> (Err (ReceiptError ''sequence not found or already completed''), s))"

definition mem_lookup :: "nat \<Rightarrow> ('j mem_store, runtime_error, 'j option) action" where
  "mem_lookup key s = (Ok (case map_of (commands s) key of Some (Completed _ _ r _) \<Rightarrow> Some r | _ \<Rightarrow> None), s)"

definition completed_entries :: "nat \<Rightarrow> (nat \<times> 'j command_state) list \<Rightarrow> 'j completed_command list" where
  "completed_entries from es = List.map_filter (\<lambda>(key, st). case st of
     Completed q env r ep \<Rightarrow> if q \<ge> from then Some \<lparr>cc_sequence = q, cc_idempotency_key = key,
       cc_envelope_json = env, cc_result_json = r, cc_world_epoch = ep\<rparr> else None
   | _ \<Rightarrow> None) es"

definition mem_completed_after :: "nat \<Rightarrow> ('j mem_store, runtime_error, 'j completed_command list) action" where
  "mem_completed_after q s = (Ok (sort_key cc_sequence (completed_entries q (commands s))), s)"

definition unresolved_entries :: "(nat \<times> 'j command_state) list \<Rightarrow> 'j admitted_command list" where
  "unresolved_entries es = List.map_filter (\<lambda>(key, st). case st of
     InFlight q env \<Rightarrow> Some \<lparr>ac_sequence = q, ac_idempotency_key = key, ac_envelope_json = env\<rparr>
   | _ \<Rightarrow> None) es"

definition mem_unresolved :: "('j mem_store, runtime_error, 'j admitted_command list) action" where
  "mem_unresolved s = (Ok (sort_key ac_sequence (unresolved_entries (commands s))), s)"

definition mark :: "'j command_state \<Rightarrow> command_watermarks \<Rightarrow> command_watermarks" where
  "mark st m = (case st of
     Completed q _ _ _ \<Rightarrow> if q > last_committed_sequence m then m\<lparr>last_committed_sequence := q\<rparr> else m
   | InFlight q _ \<Rightarrow> (if q > last_admitted_sequence m then m\<lparr>last_admitted_sequence := q\<rparr> else m)
       \<lparr>unresolved_count := unresolved_count m + 1\<rparr>
   | RecoveryRequired _ _ \<Rightarrow> m)"

definition mem_high_water_marks :: "('j mem_store, runtime_error, command_watermarks) action" where
  "mem_high_water_marks s = (Ok (fold (\<lambda>e. mark (snd e)) (commands s)
     \<lparr>last_committed_sequence = 0, last_admitted_sequence = 0, unresolved_count = 0\<rparr>), s)"

text \<open>The target state is only looked at once an entry in flight is found.\<close>

definition mem_transition_state :: "nat \<Rightarrow> string \<Rightarrow> ('j mem_store, runtime_error, unit) action" where
  "mem_transition_state q target s =
     (case settle_in_flight q (RecoveryRequired q) (commands s) of
        Some es \<Rightarrow> if target = ''recovery_required'' then (Ok (), s\<lparr>commands := es\<rparr>)
          else (Err (JournalError ''unknown target state''), s)
      | None \<Rightarrow> (Err (JournalError ''sequence not found or not in flight''), s))"

definition mem_ops :: "('j mem_store, 'j) command_store" where
  "mem_ops = \<lparr>cs_admit = mem_admit, cs_complete = mem_complete, cs_lookup = mem_lookup,
     cs_completed_after = mem_completed_after, cs_unresolved = mem_unresolved,
     cs_high_water_marks = mem_high_water_marks, cs_transition_state = mem_transition_state\<rparr>"

subsection \<open>The in-memory lease coordinator\<close>

type_synonym mem_leases = "string list"

definition mem_acquire :: "string \<Rightarrow> nat \<Rightarrow> (mem_leases, runtime_error, bool) action" where
  "mem_acquire key ttl ls = (if key \<in> set ls then (Ok False, ls) else (Ok True, key # ls))"

definition mem_renew :: "string \<Rightarrow> nat \<Rightarrow> (mem_leases, runtime_error, bool) action" where
  "mem_renew key ttl ls = (Ok (key \<in> set ls), ls)"

definition mem_release :: "string \<Rightarrow> (mem_leases, runtime_error, unit) action" where
  "mem_release key ls = (Ok (), removeAll key ls)"

definition mem_lease_ops :: "mem_leases lease_coordinator" where
  "mem_lease_ops = \<lparr>lc_acquire = mem_acquire, lc_renew = mem_renew, lc_release = mem_release\<rparr>"

subsection \<open>The contract of a command store\<close>

text \<open>
  What a client of a command store sees of it: the state of each key. A key that was never admitted, or whose
  command was marked for recovery, is admitted under a sequence number above all earlier ones; a command in
  flight can be completed or marked for recovery; the completed commands are listed in sequence order.
\<close>

definition is_completed :: "(nat \<rightharpoonup> 'j command_state) \<Rightarrow> 'j completed_command \<Rightarrow> bool" where
  "is_completed m c \<longleftrightarrow> m (cc_idempotency_key c) =
     Some (Completed (cc_sequence c) (cc_envelope_json c) (cc_result_json c) (cc_world_epoch c))"

definition is_unresolved :: "(nat \<rightharpoonup> 'j command_state) \<Rightarrow> 'j admitted_command \<Rightarrow> bool" where
  "is_unresolved m a \<longleftrightarrow> m (ac_idempotency_key a) = Some (InFlight (ac_sequence a) (ac_envelope_json a))"

locale journal =
  fixes ops :: "('s, 'j) command_store" and inv :: "'s \<Rightarrow> bool" and view :: "'s \<Rightarrow> nat \<rightharpoonup> 'j command_state"
  assumes seq_inj: "inv s \<Longrightarrow> view s k = Some a \<Longrightarrow> view s k' = Some b \<Longrightarrow> seq_of a = seq_of b \<Longrightarrow> k = k'"
    and admit_open: "inv s \<Longrightarrow> view s k = None \<or> (\<exists>q e. view s k = Some (RecoveryRequired q e)) \<Longrightarrow>
      \<exists>q s'. cs_admit ops k j s = (Ok (Admitted q), s') \<and> inv s' \<and> view s' = (view s)(k \<mapsto> InFlight q j) \<and>
        (\<forall>k' a. view s k' = Some a \<longrightarrow> seq_of a < q)"
    and admit_completed: "inv s \<Longrightarrow> view s k = Some (Completed q e r ep) \<Longrightarrow>
      cs_admit ops k j s = (Ok (AlreadyCompleted r q ep), s)"
    and admit_in_flight: "inv s \<Longrightarrow> view s k = Some (InFlight q e) \<Longrightarrow>
      cs_admit ops k j s = (Ok AlreadyInFlight, s)"
    and complete: "inv s \<Longrightarrow> view s k = Some (InFlight q e) \<Longrightarrow>
      \<exists>s'. cs_complete ops q r ep s = (Ok (), s') \<and> inv s' \<and> view s' = (view s)(k \<mapsto> Completed q e r ep)"
    and mark_failed: "inv s \<Longrightarrow> \<exists>err. cs_transition_state ops q ''failed'' s = (Err err, s)"
    and mark_recovery: "inv s \<Longrightarrow> view s k = Some (InFlight q e) \<Longrightarrow>
      \<exists>s'. cs_transition_state ops q ''recovery_required'' s = (Ok (), s') \<and> inv s' \<and>
        view s' = (view s)(k \<mapsto> RecoveryRequired q e)"
    and list_completed: "inv s \<Longrightarrow> \<exists>cs. cs_completed_after ops 0 s = (Ok cs, s) \<and>
      sorted_wrt (<) (map cc_sequence cs) \<and> (\<forall>c. c \<in> set cs \<longleftrightarrow> is_completed (view s) c)"
    and list_unresolved: "inv s \<Longrightarrow> \<exists>as. cs_unresolved ops s = (Ok as, s) \<and>
      distinct (map ac_sequence as) \<and> (\<forall>a. a \<in> set as \<longleftrightarrow> is_unresolved (view s) a)"
    and marks: "inv s \<Longrightarrow> \<exists>m. cs_high_water_marks ops s = (Ok m, s) \<and>
      (\<forall>k q e r ep. view s k = Some (Completed q e r ep) \<longrightarrow> q \<le> last_committed_sequence m)"

subsection \<open>The in-memory store keeps the contract\<close>

definition mem_inv :: "'j mem_store \<Rightarrow> bool" where
  "mem_inv s \<longleftrightarrow> distinct (map fst (commands s)) \<and>
     (\<forall>k a. map_of (commands s) k = Some a \<longrightarrow> seq_of a < next_sequence s) \<and>
     (\<forall>k k' a b. map_of (commands s) k = Some a \<longrightarrow> map_of (commands s) k' = Some b \<longrightarrow>
        seq_of a = seq_of b \<longrightarrow> k = k')"

definition mem_view :: "'j mem_store \<Rightarrow> nat \<rightharpoonup> 'j command_state" where
  "mem_view s = map_of (commands s)"

lemma mem_inv_new [simp]: "mem_inv mem_store_new" "mem_view mem_store_new = Map.empty"
  by (simp_all add: mem_inv_def mem_store_new_def mem_view_def)

lemma mem_inv_inj:
  assumes "mem_inv s" "map_of (commands s) k = Some a" "map_of (commands s) k' = Some b" "seq_of a = seq_of b"
  shows "k = k'"
  using assms unfolding mem_inv_def by blast

lemma mem_map_filter: "x \<in> set (List.map_filter f xs) \<longleftrightarrow> (\<exists>y \<in> set xs. f y = Some x)"
  by (induction xs) (auto simp: map_filter_simps split: option.split)

lemma settle_in_flight_Some:
  assumes "distinct (map fst es)" "map_of es k = Some (InFlight q env)"
    and "\<And>k' a. map_of es k' = Some a \<Longrightarrow> seq_of a = q \<Longrightarrow> k' = k"
  shows "\<exists>es'. settle_in_flight q f es = Some es' \<and> map fst es' = map fst es \<and> map_of es' = (map_of es)(k \<mapsto> f env)"
  using assms
proof (induction es)
  case (Cons e es)
  obtain k0 st where e: "e = (k0, st)" by (cases e)
  show ?case
  proof (cases "k0 = k")
    case True
    then show ?thesis using Cons.prems(2) by (auto simp: e fun_eq_iff)
  next
    case False
    have notin: "k0 \<notin> fst ` set es" using Cons.prems(1) by (simp add: e)
    have uniq: "k' = k" if "map_of es k' = Some a" "seq_of a = q" for k' a
    proof -
      have "k' \<noteq> k0" using that(1) notin by (metis map_of_eq_None_iff option.distinct(1))
      then show ?thesis using Cons.prems(3)[of k' a] that by (simp add: e)
    qed
    have d: "distinct (map fst es)" "map_of es k = Some (InFlight q env)" using Cons.prems(1,2) False by (auto simp: e)
    have "\<exists>es'. settle_in_flight q f es = Some es' \<and> map fst es' = map fst es \<and> map_of es' = (map_of es)(k \<mapsto> f env)"
      by (rule Cons.IH[OF d]) (rule uniq)
    then obtain es' where es': "settle_in_flight q f es = Some es'" "map fst es' = map fst es"
        "map_of es' = (map_of es)(k \<mapsto> f env)" by blast
    have "seq_of st \<noteq> q" using Cons.prems(3)[of k0 st] False by (auto simp: e)
    then show ?thesis using es' False by (cases st) (auto simp: e)
  qed
qed simp

lemma mem_settle:
  assumes "mem_inv s" "mem_view s k = Some (InFlight q env)"
  obtains es where "settle_in_flight q f (commands s) = Some es" "map fst es = map fst (commands s)"
    "map_of es = (map_of (commands s))(k \<mapsto> f env)"
proof -
  have "k' = k" if "map_of (commands s) k' = Some a" "seq_of a = q" for k' a
    using mem_inv_inj[OF assms(1) that(1), of k "InFlight q env"] assms(2) that(2) by (simp add: mem_view_def)
  then show ?thesis
    using settle_in_flight_Some[of "commands s" k q env f] assms that unfolding mem_view_def mem_inv_def by blast
qed

text \<open>An entry is replaced by one with the same sequence number.\<close>

lemma mem_inv_replace:
  assumes "mem_inv s" "mem_view s k = Some a" "seq_of b = seq_of a"
    and "map fst es = map fst (commands s)" "map_of es = (map_of (commands s))(k \<mapsto> b)"
  shows "mem_inv (s\<lparr>commands := es\<rparr>)" "mem_view (s\<lparr>commands := es\<rparr>) = (mem_view s)(k \<mapsto> b)"
proof -
  have seq: "\<exists>a'. map_of (commands s) k' = Some a' \<and> seq_of a' = seq_of b'" if "map_of es k' = Some b'" for k' b'
    using that assms(2,3,5) by (auto simp: mem_view_def split: if_splits)
  show "mem_inv (s\<lparr>commands := es\<rparr>)"
    unfolding mem_inv_def
  proof (intro conjI allI impI)
    show "distinct (map fst (commands (s\<lparr>commands := es\<rparr>)))" using assms(1,4) by (simp add: mem_inv_def)
    show "seq_of b' < next_sequence (s\<lparr>commands := es\<rparr>)" if b: "map_of (commands (s\<lparr>commands := es\<rparr>)) k' = Some b'"
      for k' b'
    proof -
      have b': "map_of es k' = Some b'" using b by simp
      obtain a' where "map_of (commands s) k' = Some a'" "seq_of a' = seq_of b'" using seq[OF b'] by blast
      then show ?thesis using assms(1) unfolding mem_inv_def by force
    qed
    show "k1 = k2" if "map_of (commands (s\<lparr>commands := es\<rparr>)) k1 = Some b1"
        "map_of (commands (s\<lparr>commands := es\<rparr>)) k2 = Some b2" "seq_of b1 = seq_of b2" for k1 k2 b1 b2
      using seq[of k1 b1] seq[of k2 b2] that mem_inv_inj[OF assms(1)] by fastforce
  qed
  show "mem_view (s\<lparr>commands := es\<rparr>) = (mem_view s)(k \<mapsto> b)" using assms(5) by (simp add: mem_view_def)
qed

lemma completed_entries_mem:
  assumes "distinct (map fst es)"
  shows "c \<in> set (completed_entries 0 es) \<longleftrightarrow> is_completed (map_of es) c"
proof -
  have "c \<in> set (completed_entries 0 es) \<longleftrightarrow> (cc_idempotency_key c,
      Completed (cc_sequence c) (cc_envelope_json c) (cc_result_json c) (cc_world_epoch c)) \<in> set es"
    by (cases c) (force simp: completed_entries_def mem_map_filter split: command_state.splits)
  then show ?thesis using map_of_eq_Some_iff[OF assms] by (simp add: is_completed_def)
qed

lemma unresolved_entries_mem:
  assumes "distinct (map fst es)"
  shows "a \<in> set (unresolved_entries es) \<longleftrightarrow> is_unresolved (map_of es) a"
proof -
  have "a \<in> set (unresolved_entries es) \<longleftrightarrow>
      (ac_idempotency_key a, InFlight (ac_sequence a) (ac_envelope_json a)) \<in> set es"
    by (cases a) (force simp: unresolved_entries_def mem_map_filter split: command_state.splits)
  then show ?thesis using map_of_eq_Some_iff[OF assms] by (simp add: is_unresolved_def)
qed

lemma entries_keys:
  "map cc_idempotency_key (completed_entries q es) = map fst (filter (\<lambda>(k, st). case st of
     Completed q' _ _ _ \<Rightarrow> q' \<ge> q | _ \<Rightarrow> False) es)"
  "map ac_idempotency_key (unresolved_entries es) = map fst (filter (\<lambda>(k, st). case st of
     InFlight _ _ \<Rightarrow> True | _ \<Rightarrow> False) es)"
  by (induction es)
    (auto simp: completed_entries_def unresolved_entries_def map_filter_simps split: command_state.splits)

lemma distinct_keys_filter: "distinct (map fst es) \<Longrightarrow> distinct (map fst (filter P es))"
  by (induction es) auto

lemma distinct_by_key:
  assumes "distinct (map k xs)" "\<And>x y. x \<in> set xs \<Longrightarrow> y \<in> set xs \<Longrightarrow> f x = f y \<Longrightarrow> k x = k y"
  shows "distinct (map f xs)"
proof -
  have "distinct xs" "inj_on k (set xs)" using assms(1) by (simp_all add: distinct_map)
  moreover have "inj_on f (set xs)" using assms(2) \<open>inj_on k (set xs)\<close> by (meson inj_onD inj_onI)
  ultimately show ?thesis by (simp add: distinct_map)
qed

lemma mem_entries_distinct:
  assumes "mem_inv s"
  shows "distinct (map cc_sequence (completed_entries 0 (commands s)))"
    and "distinct (map ac_sequence (unresolved_entries (commands s)))"
proof -
  have d: "distinct (map fst (commands s))" using assms by (simp add: mem_inv_def)
  have inj: "k = k'" if "map_of (commands s) k = Some a" "map_of (commands s) k' = Some b" "seq_of a = seq_of b"
    for k k' a b using assms that unfolding mem_inv_def by blast
  show "distinct (map cc_sequence (completed_entries 0 (commands s)))"
    by (rule distinct_by_key[of cc_idempotency_key])
      (use inj d in \<open>auto simp: entries_keys distinct_keys_filter completed_entries_mem is_completed_def\<close>)
  show "distinct (map ac_sequence (unresolved_entries (commands s)))"
    by (rule distinct_by_key[of ac_idempotency_key])
      (use inj d in \<open>auto simp: entries_keys distinct_keys_filter unresolved_entries_mem is_unresolved_def\<close>)
qed

lemma mark_mono: "last_committed_sequence m \<le> last_committed_sequence (fold (\<lambda>e. mark (snd e)) es m)"
proof (induction es arbitrary: m)
  case (Cons e es)
  have "last_committed_sequence m \<le> last_committed_sequence (mark (snd e) m)"
    by (auto simp: mark_def split: command_state.split)
  then show ?case using Cons.IH[of "mark (snd e) m"] by simp
qed simp

lemma mark_covers:
  "(k, Completed q env r ep) \<in> set es \<Longrightarrow> q \<le> last_committed_sequence (fold (\<lambda>e. mark (snd e)) es m)"
proof (induction es arbitrary: m)
  case (Cons e es)
  show ?case
  proof (cases "e = (k, Completed q env r ep)")
    case True
    then have "q \<le> last_committed_sequence (mark (snd e) m)" by (simp add: mark_def)
    then show ?thesis using mark_mono[of "mark (snd e) m" es] by simp
  next
    case False
    then show ?thesis using Cons by simp
  qed
qed simp

interpretation mem: journal mem_ops mem_inv mem_view
proof (unfold_locales, goal_cases)
  case (1 s k a k' b)
  then show ?case unfolding mem_inv_def mem_view_def by blast
next
  case (2 s k j)
  let ?q = "next_sequence s"
  have run: "mem_admit k j s = admit_fresh k j s"
    using 2 by (auto simp: mem_admit_def mem_view_def)
  have v: "map_of (AList.update k (InFlight ?q j) (commands s)) = (map_of (commands s))(k \<mapsto> InFlight ?q j)"
    by (rule update_conv')
  have old: "seq_of a < ?q" if "map_of (commands s) k' = Some a" for k' a
    using 2 that by (auto simp: mem_inv_def)
  have inj: "k1 = k2" if "map_of (commands s) k1 = Some a" "map_of (commands s) k2 = Some b" "seq_of a = seq_of b"
    for k1 k2 a b using 2 that unfolding mem_inv_def by blast
  have "mem_inv (snd (admit_fresh k j s))"
    using 2 old unfolding mem_inv_def admit_fresh_def
    by (auto simp: v distinct_update less_Suc_eq split: if_splits dest: inj) (metis less_irrefl)+
  then show ?case
    using old run by (auto simp: mem_ops_def admit_fresh_def mem_view_def v)
next
  case (3 s k q e r ep j)
  then show ?case by (simp add: mem_ops_def mem_admit_def mem_view_def)
next
  case (4 s k q e j)
  then show ?case by (simp add: mem_ops_def mem_admit_def mem_view_def)
next
  case (5 s k q e r ep)
  obtain es where "settle_in_flight q (\<lambda>env. Completed q env r ep) (commands s) = Some es"
      "map fst es = map fst (commands s)" "map_of es = (map_of (commands s))(k \<mapsto> Completed q e r ep)"
    using mem_settle[OF 5] by blast
  then show ?case
    using mem_inv_replace[OF 5, of "Completed q e r ep" es] by (simp add: mem_ops_def mem_complete_def)
next
  case (6 s q)
  then show ?case by (simp add: mem_ops_def mem_transition_state_def split: option.split)
next
  case (7 s k q e)
  obtain es where "settle_in_flight q (RecoveryRequired q) (commands s) = Some es"
      "map fst es = map fst (commands s)" "map_of es = (map_of (commands s))(k \<mapsto> RecoveryRequired q e)"
    using mem_settle[OF 7] by blast
  then show ?case
    using mem_inv_replace[OF 7, of "RecoveryRequired q e" es] by (simp add: mem_ops_def mem_transition_state_def)
next
  case (8 s)
  let ?cs = "sort_key cc_sequence (completed_entries 0 (commands s))"
  have "sorted_wrt (<) (map cc_sequence ?cs)"
    using mem_entries_distinct(1)[OF 8] strict_sorted_iff by (metis distinct_map distinct_sort set_sort sorted_sort_key)
  moreover have "distinct (map fst (commands s))" using 8 by (simp add: mem_inv_def)
  ultimately show ?case
    by (auto simp: mem_ops_def mem_completed_after_def mem_view_def completed_entries_mem)
next
  case (9 s)
  have "distinct (map fst (commands s))" using 9 by (simp add: mem_inv_def)
  moreover have "distinct (map ac_sequence (sort_key ac_sequence (unresolved_entries (commands s))))"
    using mem_entries_distinct(2)[OF 9] by (simp add: distinct_map)
  ultimately show ?case by (auto simp: mem_ops_def mem_unresolved_def mem_view_def unresolved_entries_mem)
next
  case (10 s)
  then show ?case
    using mark_covers by (fastforce simp: mem_ops_def mem_high_water_marks_def mem_view_def dest!: map_of_SomeD)
qed

end
