(* ===== verification/Kernel_Submit.thy ===== *)
theory Kernel_Submit
  imports Kernel_Exec Command_Store
begin

text \<open>
  The submit path (\<open>command_dispatch/submit.rs\<close>), the replay of a completed command
  (\<open>command_dispatch/replay.rs\<close>) and snapshots and recovery (\<open>executor_loop.rs\<close>). The kernel's state is its
  world, the state of its ports and its sequence counter; a run of \<open>submit\<close> is cut where the code takes
  and releases the world lock. JSON, \<open>bincode\<close> and the checksum are parameters, in the record \<open>ports\<close>.
\<close>

subsection \<open>State\<close>

record 'j serde =
  enc_envelope :: "command_envelope \<Rightarrow> 'j option"
  dec_envelope :: "'j \<Rightarrow> command_envelope option"
  enc_result :: "command_result \<Rightarrow> 'j option"
  dec_result :: "'j \<Rightarrow> command_result option"
  empty_json :: 'j

record snapshot_payload =
  sp_schema_version :: nat
  sp_world_epoch :: nat
  sp_next_entity_id :: nat
  sp_last_command_sequence :: nat
  sp_allocator_data :: "8 word list"
  sp_schedule_hash :: "8 word list"
  sp_created_at_ms :: nat

record world_snapshot =
  ws_payload :: snapshot_payload
  ws_checksum :: "8 word list"

record ('s, 'l, 'j) ports =
  store_port :: "('s, 'j) command_store"
  lease_port :: "'l lease_coordinator"
  serde_json :: "'j serde"
  payload_checksum :: "snapshot_payload \<Rightarrow> 8 word list"

record ('s, 'l) kernel =
  k_world :: kernel_world
  k_store :: 's
  k_lease :: 'l
  k_sequence :: nat
  k_snapshot :: "world_snapshot option"

type_synonym ('s, 'l, 'a) kernel_action = "(('s, 'l) kernel, runtime_error, 'a) action"

definition on_world :: "'a world_action \<Rightarrow> ('s, 'l, 'a) kernel_action" where
  "on_world m k = (let (r, w) = m (k_world k) in (r, k\<lparr>k_world := w\<rparr>))"

definition on_store :: "('s, runtime_error, 'a) action \<Rightarrow> ('s, 'l, 'a) kernel_action" where
  "on_store m k = (let (r, s) = m (k_store k) in (r, k\<lparr>k_store := s\<rparr>))"

definition on_lease :: "('l, runtime_error, 'a) action \<Rightarrow> ('s, 'l, 'a) kernel_action" where
  "on_lease m k = (let (r, l) = m (k_lease k) in (r, k\<lparr>k_lease := l\<rparr>))"

definition get_kernel :: "(('s, 'l) kernel \<Rightarrow> ('s, 'l, 'a) kernel_action) \<Rightarrow> ('s, 'l, 'a) kernel_action" where
  "get_kernel f k = f k k"

lemmas kernel_act_defs = on_world_def on_store_def on_lease_def get_kernel_def

lemma k_store_upd_inj [simp]: "k\<lparr>k_store := a\<rparr> = k\<lparr>k_store := b\<rparr> \<longleftrightarrow> a = b"
  by (auto dest: arg_cong[where f = k_store])

text \<open>What a computation keeps of its state.\<close>

definition keeps :: "('s \<Rightarrow> bool) \<Rightarrow> ('s, 'e, 'a) action \<Rightarrow> bool" where
  "keeps P m \<longleftrightarrow> (\<forall>s. P s \<longrightarrow> P (snd (m s)))"

named_theorems keeps \<open>what computations keep of their state\<close>

lemma keeps_bind [keeps]: "keeps P m \<Longrightarrow> (\<And>a. keeps P (f a)) \<Longrightarrow> keeps P (act_bind m f)"
  unfolding keeps_def act_bind_def by (simp split: prod.split outcome.split) (metis snd_conv)

lemma keeps_basic [keeps]: "keeps P (act_return a)" "keeps P (act_fail e)"
  by (simp_all add: keeps_def act_return_def act_fail_def)

lemma keeps_try [keeps]: "keeps P m \<Longrightarrow> keeps P (act_try m)" "keeps P m \<Longrightarrow> keeps P (act_map_err g m)"
  unfolding keeps_def act_try_def act_map_err_def by (simp_all split: prod.split outcome.split) (metis snd_conv)+

lemma keeps_each [keeps]: "(\<And>x. keeps P (f x)) \<Longrightarrow> keeps P (act_each f xs)"
  by (induction xs) (simp_all add: keeps_basic keeps_bind)

lemma keeps_get [keeps]: "(\<And>k. keeps P (f k)) \<Longrightarrow> keeps P (get_kernel f)"
  by (simp add: keeps_def get_kernel_def)

subsection \<open>Submitting\<close>

text \<open>\<open>unwrap_or_default\<close> on the serialisation of a result.\<close>

definition result_json :: "('s, 'l, 'j) ports \<Rightarrow> command_result \<Rightarrow> 'j" where
  "result_json p r = (case enc_result (serde_json p) r of Some j \<Rightarrow> j | None \<Rightarrow> empty_json (serde_json p))"

text \<open>Admission: an earlier outcome (\<open>Inl\<close>) or the sequence number under which to execute.\<close>

definition admission_outcome :: "('s, 'l, 'j) ports \<Rightarrow> 'j admission \<Rightarrow> ('s, 'l, commit_outcome + nat) kernel_action" where
  "admission_outcome p adm = (case adm of
     AlreadyCompleted r q ep \<Rightarrow> (case dec_result (serde_json p) r of
         None \<Rightarrow> act_fail (IdempotencyConflict ''stored result is corrupt'')
       | Some res \<Rightarrow> act_return (Inl \<lparr>co_sequence = q, co_result = res, co_world_epoch = ep\<rparr>))
   | AlreadyInFlight \<Rightarrow> act_fail (IdempotencyConflict ''command is in flight by another caller'')
   | Admitted q \<Rightarrow> (\<lambda>k. (Ok (Inr q), k\<lparr>k_sequence := k_sequence k + 1\<rparr>)))"

definition submit_admit :: "('s, 'l, 'j) ports \<Rightarrow> command_envelope \<Rightarrow> ('s, 'l, commit_outcome + nat) kernel_action" where
  "submit_admit p env = (case enc_envelope (serde_json p) env of
     None \<Rightarrow> act_fail (JournalError ''envelope serialization failed'')
   | Some j \<Rightarrow> act_bind (on_store (cs_admit (store_port p) (idempotency_key env) j)) (admission_outcome p))"

definition resource_key :: "entity \<Rightarrow> string" where
  "resource_key e = ''work-lease:'' @ decimal (eid e)"

text \<open>The lease commands: the coordinator first, then the work state under the world lock.\<close>

definition commit_acquire :: "('s, 'l, 'j) ports \<Rightarrow> nat \<Rightarrow> entity \<Rightarrow> 32 word \<Rightarrow> ('s, 'l, commit_outcome) kernel_action" where
  "commit_acquire p q e gen = get_kernel (\<lambda>k.
     let r = LifecycleDone (LrLeaseAcquired e gen (resource_key e)); epoch = current_epoch (k_world k) in
     act_bind (on_store (cs_complete (store_port p) q (result_json p r) epoch)) (\<lambda>_.
     act_return \<lparr>co_sequence = q, co_result = r, co_world_epoch = epoch\<rparr>))"

definition submit_acquire :: "bool \<Rightarrow> ('s, 'l, 'j) ports \<Rightarrow> nat \<Rightarrow> entity \<Rightarrow> 32 word \<Rightarrow> nat \<Rightarrow>
    ('s, 'l, commit_outcome) kernel_action" where
  "submit_acquire dbg p q e gen ttl =
     act_bind (act_map_err (\<lambda>_. LeaseError ''lease error'') (on_lease (lc_acquire (lease_port p) (resource_key e) ttl)))
       (\<lambda>got. if \<not> got then act_fail (LeaseError ''failed to acquire lease for work-entity'')
         else act_bind (on_world (attach dbg (EntityError ''lease state transition'') e (VWorkState (WLeased 1))))
           (\<lambda>_. commit_acquire p q e gen))"

definition commit_release :: "('s, 'l, 'j) ports \<Rightarrow> nat \<Rightarrow> entity \<Rightarrow> ('s, 'l, commit_outcome) kernel_action" where
  "commit_release p q e = get_kernel (\<lambda>k.
     let r = LifecycleDone (LrLeaseReleased e); epoch = current_epoch (k_world k) in
     act_bind (act_try (on_store (cs_complete (store_port p) q (result_json p r) epoch))) (\<lambda>_.
     act_return \<lparr>co_sequence = q, co_result = r, co_world_epoch = epoch\<rparr>))"

definition submit_release :: "bool \<Rightarrow> ('s, 'l, 'j) ports \<Rightarrow> nat \<Rightarrow> entity \<Rightarrow> ('s, 'l, commit_outcome) kernel_action" where
  "submit_release dbg p q e =
     act_bind (act_map_err (\<lambda>_. LeaseError ''release error'') (on_lease (lc_release (lease_port p) (resource_key e))))
       (\<lambda>_. act_bind (on_world (attach dbg (EntityError ''release state transition'') e (VWorkState WReady)))
         (\<lambda>_. commit_release p q e))"

text \<open>
  The world-locked part: the epoch fence, whose mismatch returns at once, and the command. The result is
  kept for the part after the lock.
\<close>

definition submit_locked :: "bool \<Rightarrow> host \<Rightarrow> command_envelope \<Rightarrow>
    ('s, 'l, runtime_error + command_result \<times> nat) kernel_action" where
  "submit_locked dbg h env = get_kernel (\<lambda>k.
     let actual = current_epoch (k_world k) in
     if expected_epoch env \<noteq> None \<and> expected_epoch env \<noteq> Some actual
     then act_fail (EpochMismatch (the (expected_epoch env)) actual)
     else act_bind (act_try (on_world (execute_command dbg h (command env)))) (\<lambda>res. case res of
       Inl err \<Rightarrow> act_return (Inl err)
     | Inr r \<Rightarrow> get_kernel (\<lambda>k'. act_return (Inr (r, current_epoch (k_world k'))))))"

definition submit_finish :: "('s, 'l, 'j) ports \<Rightarrow> nat \<Rightarrow> runtime_error + command_result \<times> nat \<Rightarrow>
    ('s, 'l, commit_outcome) kernel_action" where
  "submit_finish p q res = (case res of
     Inr (r, epoch) \<Rightarrow>
       act_bind (act_try (on_store (cs_complete (store_port p) q (result_json p r) epoch))) (\<lambda>done.
       act_bind (case done of
           Inl _ \<Rightarrow> act_bind (act_try (on_store (cs_transition_state (store_port p) q ''recovery_required'')))
             (\<lambda>_. act_return ())
         | Inr _ \<Rightarrow> act_return ()) (\<lambda>_.
       act_return \<lparr>co_sequence = q, co_result = r, co_world_epoch = epoch\<rparr>))
   | Inl err \<Rightarrow>
       act_bind (act_try (on_store (cs_transition_state (store_port p) q ''failed''))) (\<lambda>_. act_fail err))"

definition submit_admitted :: "bool \<Rightarrow> ('s, 'l, 'j) ports \<Rightarrow> host \<Rightarrow> command_envelope \<Rightarrow> nat \<Rightarrow>
    ('s, 'l, commit_outcome) kernel_action" where
  "submit_admitted dbg p h env q = (case command env of
     Lifecycle (LcAcquireWorkLease e gen ttl) \<Rightarrow> submit_acquire dbg p q e gen ttl
   | Lifecycle (LcReleaseWorkLease e) \<Rightarrow> submit_release dbg p q e
   | _ \<Rightarrow> act_bind (submit_locked dbg h env) (submit_finish p q))"

definition submit :: "bool \<Rightarrow> ('s, 'l, 'j) ports \<Rightarrow> host \<Rightarrow> command_envelope \<Rightarrow>
    ('s, 'l, commit_outcome) kernel_action" where
  "submit dbg p h env = act_bind (submit_admit p env) (\<lambda>adm. case adm of
     Inl outcome \<Rightarrow> act_return outcome
   | Inr q \<Rightarrow> submit_admitted dbg p h env q)"

subsection \<open>Replaying\<close>

definition check_id :: "nat \<Rightarrow> nat option \<Rightarrow> string \<Rightarrow> unit world_action" where
  "check_id i expected msg = (case expected of
     Some x \<Rightarrow> if i \<noteq> x then act_fail (JournalError msg) else act_return ()
   | None \<Rightarrow> act_return ())"

definition check_lifecycle :: "command_result \<Rightarrow> command_result \<Rightarrow> unit world_action" where
  "check_lifecycle new stored = (case (new, stored) of
     (LifecycleDone (LrWorkCreated e _ _), LifecycleDone (LrWorkCreated x _ _)) \<Rightarrow>
       if e \<noteq> x then act_fail (JournalError ''replay work entity ID mismatch'')
       else if result_tag new \<noteq> result_tag stored
       then act_fail (JournalError ''replay lifecycle result variant mismatch'') else act_return ()
   | _ \<Rightarrow> if result_tag new \<noteq> result_tag stored
       then act_fail (JournalError ''replay lifecycle result variant mismatch'') else act_return ())"

definition replay_command :: "bool \<Rightarrow> host \<Rightarrow> command \<Rightarrow> command_result \<Rightarrow> unit world_action" where
  "replay_command dbg h cmd stored = (case cmd of
     SpawnAgent parent _ _ \<Rightarrow> act_bind (execute_spawn dbg parent) (\<lambda>i.
       check_id i (case stored of Spawned x \<Rightarrow> Some x | _ \<Rightarrow> None) ''replay entity ID mismatch'')
   | CancelAgent agent \<Rightarrow> execute_cancel_txn dbg agent
   | RegisterModel name path format \<Rightarrow> act_bind (execute_register_model dbg h name path format) (\<lambda>i.
       check_id i (case stored of Registered x \<Rightarrow> Some x | _ \<Rightarrow> None) ''replay register entity ID mismatch'')
   | AdvanceInference i ph prefilled generated epoch kv \<Rightarrow>
       act_bind (execute_advance_inference dbg i ph prefilled generated epoch kv) (\<lambda>_. act_return ())
   | BindInferenceKv i epoch pages ctx_tokens capacity \<Rightarrow>
       execute_bind_inference_kv dbg i epoch pages ctx_tokens capacity
   | CreateModalityWork kind path prompt out \<Rightarrow>
       act_bind (execute_create_modality_work dbg kind path prompt out) (\<lambda>i.
       check_id i (case stored of ModalitySubmitted x \<Rightarrow> Some x | _ \<Rightarrow> None) ''replay modality entity mismatch'')
   | CompleteModalityWork i digest bytes \<Rightarrow> act_bind (complete_modality dbg JournalError i digest bytes) (\<lambda>_.
       if stored = ModalityCompleted i digest then act_return ()
       else act_fail (JournalError ''replay modality completion mismatch''))
   | FailModalityWork i msg \<Rightarrow> act_bind (fail_modality dbg JournalError i msg) (\<lambda>_.
       if stored = ModalityFailed i msg then act_return ()
       else act_fail (JournalError ''replay modality failure mismatch''))
   | Lifecycle lc \<Rightarrow> act_bind (execute_lifecycle dbg h lc) (\<lambda>new. check_lifecycle new stored))"

definition apply_recovered_command :: "bool \<Rightarrow> ('s, 'l, 'j) ports \<Rightarrow> host \<Rightarrow> 'j completed_command \<Rightarrow>
    ('s, 'l, unit) kernel_action" where
  "apply_recovered_command dbg p h c = (case dec_envelope (serde_json p) (cc_envelope_json c) of
     None \<Rightarrow> act_fail (JournalError ''replay: bad envelope'')
   | Some env \<Rightarrow> (case dec_result (serde_json p) (cc_result_json c) of
       None \<Rightarrow> act_fail (JournalError ''replay: bad result'')
     | Some stored \<Rightarrow> on_world (replay_command dbg h (command env) stored)))"

subsection \<open>Snapshots and recovery\<close>

definition le_bytes8 :: "nat \<Rightarrow> 8 word list" where
  "le_bytes8 n = map (\<lambda>i. of_nat (n div 256 ^ i)) [0 ..< 8]"

definition export_allocator_snapshot :: "kernel_world \<Rightarrow> 8 word list" where
  "export_allocator_snapshot w = concat (map (\<lambda>e. le_bytes8 (eid e)) (all_entities w))"

definition capture_world_snapshot :: "('s, 'l, 'j) ports \<Rightarrow> host \<Rightarrow> 8 word list \<Rightarrow> ('s, 'l) kernel \<Rightarrow> world_snapshot" where
  "capture_world_snapshot p h schedule_hash k =
     (let payload = \<lparr>sp_schema_version = 1, sp_world_epoch = current_epoch (k_world k), sp_next_entity_id = 0,
        sp_last_command_sequence = k_sequence k, sp_allocator_data = export_allocator_snapshot (k_world k),
        sp_schedule_hash = schedule_hash, sp_created_at_ms = clock h\<rparr>
      in \<lparr>ws_payload = payload, ws_checksum = payload_checksum p payload\<rparr>)"

definition snapshot_verify :: "('s, 'l, 'j) ports \<Rightarrow> world_snapshot \<Rightarrow> bool" where
  "snapshot_verify p s \<longleftrightarrow> ws_checksum s = payload_checksum p (ws_payload s)"

definition save_snapshot :: "('s, 'l, 'j) ports \<Rightarrow> host \<Rightarrow> 8 word list \<Rightarrow> ('s, 'l, unit) kernel_action" where
  "save_snapshot p h schedule_hash k = (Ok (), k\<lparr>k_snapshot := Some (capture_world_snapshot p h schedule_hash k)\<rparr>)"

record recovery_report =
  rr_recovery_state :: string
  rr_snapshot_epoch :: nat
  rr_snapshot_sequence :: nat
  rr_replayed_commands :: nat
  rr_unresolved_commands :: nat
  rr_world_epoch_before :: nat

text \<open>
  \<open>recover\<close>, with the host the process has when it replays the command of a sequence number. The comparison
  of the allocator with the snapshot only prints a message.
\<close>

definition replay_all :: "bool \<Rightarrow> ('s, 'l, 'j) ports \<Rightarrow> (nat \<Rightarrow> host) \<Rightarrow> 'j completed_command list \<Rightarrow>
    ('s, 'l, unit) kernel_action" where
  "replay_all dbg p hs cs = act_each (\<lambda>c. apply_recovered_command dbg p (hs (cc_sequence c)) c) cs"

definition recover :: "bool \<Rightarrow> ('s, 'l, 'j) ports \<Rightarrow> (nat \<Rightarrow> host) \<Rightarrow> ('s, 'l, recovery_report) kernel_action" where
  "recover dbg p hs =
     act_bind (on_store (cs_high_water_marks (store_port p))) (\<lambda>marks.
     get_kernel (\<lambda>k0.
     if (case k_snapshot k0 of Some s \<Rightarrow> \<not> snapshot_verify p s | None \<Rightarrow> False)
     then act_fail (JournalError ''snapshot checksum mismatch'')
     else act_bind (\<lambda>k. (Ok (), k\<lparr>k_world := world_new\<rparr>)) (\<lambda>_.
       act_bind (on_store (cs_completed_after (store_port p) 0)) (\<lambda>all.
       act_bind (replay_all dbg p hs all) (\<lambda>_.
       act_bind (\<lambda>k. (Ok (), k\<lparr>k_sequence := last_committed_sequence marks + 1\<rparr>)) (\<lambda>_.
       act_bind (on_store (cs_unresolved (store_port p))) (\<lambda>unresolved.
       act_bind (act_each (\<lambda>a. on_store (cs_transition_state (store_port p) (ac_sequence a) ''recovery_required''))
         unresolved) (\<lambda>_.
       act_return \<lparr>rr_recovery_state = (if length all > 0 then ''recovered'' else ''fresh''),
         rr_snapshot_epoch = (case k_snapshot k0 of Some s \<Rightarrow> sp_world_epoch (ws_payload s) | None \<Rightarrow> 0),
         rr_snapshot_sequence = last_committed_sequence marks, rr_replayed_commands = length all,
         rr_unresolved_commands = length unresolved,
         rr_world_epoch_before = (case k_snapshot k0 of Some s \<Rightarrow> sp_world_epoch (ws_payload s) | None \<Rightarrow> 0)\<rparr>))))))))"

text \<open>\<open>RuntimeKernel::new\<close>: an empty world and the in-memory ports.\<close>

definition kernel_new :: "('j mem_store, mem_leases) kernel" where
  "kernel_new = \<lparr>k_world = world_new, k_store = mem_store_new, k_lease = [], k_sequence = 0, k_snapshot = None\<rparr>"

definition mem_ports :: "'j serde \<Rightarrow> (snapshot_payload \<Rightarrow> 8 word list) \<Rightarrow> ('j mem_store, mem_leases, 'j) ports" where
  "mem_ports sd chk = \<lparr>store_port = mem_ops, lease_port = mem_lease_ops, serde_json = sd, payload_checksum = chk\<rparr>"

subsection \<open>The effect of a command on the world\<close>

text \<open>What a committed command did to the world, the lease commands included.\<close>

definition command_effect :: "bool \<Rightarrow> host \<Rightarrow> command \<Rightarrow> command_result world_action" where
  "command_effect dbg h cmd = (case cmd of
     Lifecycle (LcAcquireWorkLease e gen ttl) \<Rightarrow>
       act_bind (attach dbg (EntityError ''lease state transition'') e (VWorkState (WLeased 1)))
         (\<lambda>_. act_return (LifecycleDone (LrLeaseAcquired e gen (resource_key e))))
   | Lifecycle (LcReleaseWorkLease e) \<Rightarrow>
       act_bind (attach dbg (EntityError ''release state transition'') e (VWorkState WReady))
         (\<lambda>_. act_return (LifecycleDone (LrLeaseReleased e)))
   | _ \<Rightarrow> execute_command dbg h cmd)"

lemma envelope_new_simps [simp]:
  "idempotency_key (envelope_new a u cmd) = u" "command (envelope_new a u cmd) = cmd"
  "expected_epoch (envelope_new a u cmd) = None"
  by (simp_all add: envelope_new_def)

lemma lease_command_cases:
  obtains e g t where "cmd = Lifecycle (LcAcquireWorkLease e g t)"
  | e where "cmd = Lifecycle (LcReleaseWorkLease e)"
  | "\<not> lease_command cmd"
  by (cases cmd rule: lease_command.cases) auto

lemma effect_plain: "\<not> lease_command cmd \<Longrightarrow> command_effect dbg h cmd = execute_command dbg h cmd"
  unfolding command_effect_def by (cases cmd rule: lease_command.cases) simp_all

lemma submit_admitted_plain: "\<not> lease_command (command env) \<Longrightarrow>
    submit_admitted dbg p h env q = act_bind (submit_locked dbg h env) (submit_finish p q)"
  unfolding submit_admitted_def by (cases "command env" rule: lease_command.cases) simp_all

lemma effect_settles:
  assumes "kernel_inv w" "next_id w + 2 \<le> 2 ^ 32"
  shows "settles (command_effect dbg h cmd) w"
proof (cases cmd rule: lease_command_cases)
  case 3
  then show ?thesis using command_settles[OF assms 3] by (simp add: effect_plain)
qed (use assms in \<open>simp_all add: command_effect_def settles_then settles_attach\<close>)

text \<open>JSON that reads back what it wrote, and a lease coordinator that does not panic.\<close>

definition serde_ok :: "'j serde \<Rightarrow> bool" where
  "serde_ok sd \<longleftrightarrow> (\<forall>env. \<exists>j. enc_envelope sd env = Some j \<and> dec_envelope sd j = Some env) \<and>
     (\<forall>r. \<exists>j. enc_result sd r = Some j \<and> dec_result sd j = Some r)"

definition lease_total :: "'l lease_coordinator \<Rightarrow> bool" where
  "lease_total lp \<longleftrightarrow> (\<forall>key ttl l. fst (lc_acquire lp key ttl l) \<noteq> Panic \<and> fst (lc_release lp key l) \<noteq> Panic)"

lemma serde_result: "serde_ok (serde_json p) \<Longrightarrow> dec_result (serde_json p) (result_json p r) = Some r"
  unfolding serde_ok_def result_json_def by (metis option.case(2))

lemma serde_envelope: "serde_ok (serde_json p) \<Longrightarrow> \<exists>j. enc_envelope (serde_json p) env = Some j \<and>
    dec_envelope (serde_json p) j = Some env"
  unfolding serde_ok_def by blast

lemma serde_reads: "serde_ok sd \<Longrightarrow> enc_envelope sd env = Some j \<Longrightarrow> dec_envelope sd j = Some env"
  "serde_ok sd \<Longrightarrow> enc_result sd r = Some rj \<Longrightarrow> dec_result sd rj = Some r"
  unfolding serde_ok_def by (metis option.inject)+

lemma serde_write: "serde_ok (serde_json p) \<Longrightarrow> enc_result (serde_json p) r = Some (result_json p r)"
  unfolding serde_ok_def result_json_def by (metis option.case(2))

subsection \<open>What a submission does\<close>

text \<open>
  The specification of \<open>submit\<close>: a step from a world and a journal, the map from idempotency keys to the
  state of their command, to an outcome, a world and a journal. A key is open when it was never
  admitted or its command was marked for recovery.
\<close>

definition open_key :: "(nat \<rightharpoonup> 'j command_state) \<Rightarrow> nat \<Rightarrow> bool" where
  "open_key m key \<longleftrightarrow> m key = None \<or> (\<exists>q j. m key = Some (RecoveryRequired q j))"

definition fresh_seq :: "(nat \<rightharpoonup> 'j command_state) \<Rightarrow> nat \<Rightarrow> bool" where
  "fresh_seq m q \<longleftrightarrow> (\<forall>key st. m key = Some st \<longrightarrow> seq_of st < q)"

definition fence :: "command_envelope \<Rightarrow> kernel_world \<Rightarrow> bool" where
  "fence env w \<longleftrightarrow> expected_epoch env = None \<or> expected_epoch env = Some (current_epoch w)"

inductive submit_step :: "bool \<Rightarrow> 'j serde \<Rightarrow> host \<Rightarrow> command_envelope \<Rightarrow> kernel_world \<Rightarrow> (nat \<rightharpoonup> 'j command_state) \<Rightarrow>
    (runtime_error, commit_outcome) outcome \<Rightarrow> kernel_world \<Rightarrow> (nat \<rightharpoonup> 'j command_state) \<Rightarrow> bool"
  for dbg sd h env w m where
  stored: "m (idempotency_key env) = Some (Completed q j rj ep) \<Longrightarrow> dec_result sd rj = Some r \<Longrightarrow>
    submit_step dbg sd h env w m (Ok \<lparr>co_sequence = q, co_result = r, co_world_epoch = ep\<rparr>) w m"
| corrupt: "m (idempotency_key env) = Some (Completed q j rj ep) \<Longrightarrow> dec_result sd rj = None \<Longrightarrow>
    submit_step dbg sd h env w m (Err (IdempotencyConflict ''stored result is corrupt'')) w m"
| in_flight: "m (idempotency_key env) = Some (InFlight q j) \<Longrightarrow>
    submit_step dbg sd h env w m (Err (IdempotencyConflict ''command is in flight by another caller'')) w m"
| stale_epoch: "open_key m (idempotency_key env) \<Longrightarrow> fresh_seq m q \<Longrightarrow> enc_envelope sd env = Some j \<Longrightarrow>
    \<not> lease_command (command env) \<Longrightarrow> expected_epoch env = Some ep \<Longrightarrow> ep \<noteq> current_epoch w \<Longrightarrow>
    submit_step dbg sd h env w m (Err (EpochMismatch ep (current_epoch w))) w (m(idempotency_key env \<mapsto> InFlight q j))"
| rejected: "open_key m (idempotency_key env) \<Longrightarrow> fresh_seq m q \<Longrightarrow> enc_envelope sd env = Some j \<Longrightarrow>
    \<not> lease_command (command env) \<Longrightarrow> fence env w \<Longrightarrow> command_effect dbg h (command env) w = (Err err, w) \<Longrightarrow>
    submit_step dbg sd h env w m (Err err) w (m(idempotency_key env \<mapsto> InFlight q j))"
| lease_failed: "open_key m (idempotency_key env) \<Longrightarrow> fresh_seq m q \<Longrightarrow> enc_envelope sd env = Some j \<Longrightarrow>
    lease_command (command env) \<Longrightarrow>
    submit_step dbg sd h env w m (Err err) w (m(idempotency_key env \<mapsto> InFlight q j))"
| committed: "open_key m (idempotency_key env) \<Longrightarrow> fresh_seq m q \<Longrightarrow> enc_envelope sd env = Some j \<Longrightarrow>
    lease_command (command env) \<or> fence env w \<Longrightarrow> command_effect dbg h (command env) w = (Ok r, w') \<Longrightarrow>
    enc_result sd r = Some rj \<Longrightarrow>
    submit_step dbg sd h env w m (Ok \<lparr>co_sequence = q, co_result = r, co_world_epoch = current_epoch w'\<rparr>) w'
      (m(idempotency_key env \<mapsto> Completed q j rj (current_epoch w')))"

context journal begin

lemma finish_ok:
  assumes "store_port p = ops" "inv (k_store k)" "view (k_store k) key = Some (InFlight q j)"
  shows "\<exists>s'. submit_finish p q (Inr (r, ep)) k =
      (Ok \<lparr>co_sequence = q, co_result = r, co_world_epoch = ep\<rparr>, k\<lparr>k_store := s'\<rparr>) \<and> inv s' \<and>
    view s' = (view (k_store k))(key \<mapsto> Completed q j (result_json p r) ep)"
proof -
  obtain s' where "cs_complete ops q (result_json p r) ep (k_store k) = (Ok (), s')" "inv s'"
      "view s' = (view (k_store k))(key \<mapsto> Completed q j (result_json p r) ep)"
    using complete[OF assms(2,3)] by blast
  then show ?thesis using assms(1)
    by (simp add: submit_finish_def act_bind_def act_try_def act_return_def on_store_def)
qed

lemma finish_err:
  assumes "store_port p = ops" "inv (k_store k)"
  shows "submit_finish p q (Inl err) k = (Err err, k)"
proof -
  obtain e where "cs_transition_state ops q ''failed'' (k_store k) = (Err e, k_store k)"
    using mark_failed[OF assms(2)] by blast
  then show ?thesis using assms(1)
    by (simp add: submit_finish_def act_bind_def act_try_def act_fail_def on_store_def)
qed

lemma commit_ok:
  assumes "store_port p = ops" "inv (k_store k)" "view (k_store k) key = Some (InFlight q j)"
  shows "\<exists>s'. commit_acquire p q e gen k = (Ok \<lparr>co_sequence = q, co_result = LifecycleDone (LrLeaseAcquired e gen
        (resource_key e)), co_world_epoch = current_epoch (k_world k)\<rparr>, k\<lparr>k_store := s'\<rparr>) \<and> inv s' \<and>
      view s' = (view (k_store k))(key \<mapsto> Completed q j
        (result_json p (LifecycleDone (LrLeaseAcquired e gen (resource_key e)))) (current_epoch (k_world k)))"
    and "\<exists>s'. commit_release p q e k = (Ok \<lparr>co_sequence = q, co_result = LifecycleDone (LrLeaseReleased e),
        co_world_epoch = current_epoch (k_world k)\<rparr>, k\<lparr>k_store := s'\<rparr>) \<and> inv s' \<and>
      view s' = (view (k_store k))(key \<mapsto> Completed q j
        (result_json p (LifecycleDone (LrLeaseReleased e))) (current_epoch (k_world k)))"
proof -
  have fin: "\<exists>s'. on_store (cs_complete (store_port p) q (result_json p r) (current_epoch (k_world k))) k =
      (Ok (), k\<lparr>k_store := s'\<rparr>) \<and> inv s' \<and>
      view s' = (view (k_store k))(key \<mapsto> Completed q j (result_json p r) (current_epoch (k_world k)))" for r
    using complete[OF assms(2,3), of "result_json p r" "current_epoch (k_world k)"] assms(1)
    by (auto simp: on_store_def)
  show "\<exists>s'. commit_acquire p q e gen k = (Ok \<lparr>co_sequence = q, co_result = LifecycleDone (LrLeaseAcquired e gen
        (resource_key e)), co_world_epoch = current_epoch (k_world k)\<rparr>, k\<lparr>k_store := s'\<rparr>) \<and> inv s' \<and>
      view s' = (view (k_store k))(key \<mapsto> Completed q j
        (result_json p (LifecycleDone (LrLeaseAcquired e gen (resource_key e)))) (current_epoch (k_world k)))"
    using fin[of "LifecycleDone (LrLeaseAcquired e gen (resource_key e))"]
    by (auto simp: commit_acquire_def get_kernel_def Let_def act_bind_def act_return_def)
  show "\<exists>s'. commit_release p q e k = (Ok \<lparr>co_sequence = q, co_result = LifecycleDone (LrLeaseReleased e),
        co_world_epoch = current_epoch (k_world k)\<rparr>, k\<lparr>k_store := s'\<rparr>) \<and> inv s' \<and>
      view s' = (view (k_store k))(key \<mapsto> Completed q j
        (result_json p (LifecycleDone (LrLeaseReleased e))) (current_epoch (k_world k)))"
    using fin[of "LifecycleDone (LrLeaseReleased e)"]
    by (auto simp: commit_release_def get_kernel_def Let_def act_bind_def act_try_def act_return_def)
qed

lemma plain_locked:
  assumes "settles (command_effect dbg h (command env)) (k_world k)" "\<not> lease_command (command env)"
  shows "(\<exists>ep. expected_epoch env = Some ep \<and> ep \<noteq> current_epoch (k_world k) \<and>
      submit_locked dbg h env k = (Err (EpochMismatch ep (current_epoch (k_world k))), k)) \<or>
    (fence env (k_world k) \<and> (\<exists>r w'. command_effect dbg h (command env) (k_world k) = (Ok r, w') \<and>
      submit_locked dbg h env k = (Ok (Inr (r, current_epoch w')), k\<lparr>k_world := w'\<rparr>))) \<or>
    (fence env (k_world k) \<and> (\<exists>err. command_effect dbg h (command env) (k_world k) = (Err err, k_world k) \<and>
      submit_locked dbg h env k = (Ok (Inl err), k)))"
  using assms unfolding settles_def
  by (auto simp: submit_locked_def get_kernel_def Let_def act_bind_def act_try_def act_return_def act_fail_def
      on_world_def fence_def effect_plain)

lemma plain_commit:
  assumes sp: "store_port p = ops" and nl: "\<not> lease_command (command env)" and k: "inv (k_store k)"
    and key: "view (k_store k) (idempotency_key env) = Some (InFlight q j)"
    and fence: "fence env (k_world k)" and eff: "command_effect dbg h (command env) (k_world k) = (Ok r, w')"
  shows "\<exists>s'. submit_admitted dbg p h env q k =
      (Ok \<lparr>co_sequence = q, co_result = r, co_world_epoch = current_epoch w'\<rparr>, k\<lparr>k_world := w', k_store := s'\<rparr>) \<and>
    inv s' \<and> view s' = (view (k_store k))(idempotency_key env \<mapsto> Completed q j (result_json p r) (current_epoch w'))"
proof -
  have locked: "submit_locked dbg h env k = (Ok (Inr (r, current_epoch w')), k\<lparr>k_world := w'\<rparr>)"
    using eff nl fence by (auto simp: submit_locked_def get_kernel_def Let_def act_bind_def act_try_def act_return_def
        on_world_def fence_def effect_plain)
  then show ?thesis
    using finish_ok[OF sp, of "k\<lparr>k_world := w'\<rparr>" "idempotency_key env" q j r "current_epoch w'"] k key
    by (simp add: submit_admitted_plain[OF nl] act_bind_run(1))
qed

lemma plain_refines:
  assumes sp: "store_port p = ops" and sd: "serde_ok (serde_json p)"
    and m: "open_key m (idempotency_key env)" "fresh_seq m q" "enc_envelope (serde_json p) env = Some j"
    and k: "inv (k_store k)" "view (k_store k) = m(idempotency_key env \<mapsto> InFlight q j)"
    and st: "settles (command_effect dbg h (command env)) (k_world k)" and nl: "\<not> lease_command (command env)"
  shows "\<exists>out k'. submit_admitted dbg p h env q k = (out, k') \<and> inv (k_store k') \<and> k_snapshot k' = k_snapshot k \<and>
    submit_step dbg (serde_json p) h env (k_world k) m out (k_world k') (view (k_store k'))"
proof -
  let ?key = "idempotency_key env"
  consider (stale) ep where "expected_epoch env = Some ep" "ep \<noteq> current_epoch (k_world k)"
      "submit_locked dbg h env k = (Err (EpochMismatch ep (current_epoch (k_world k))), k)"
    | (ok) r w' where "fence env (k_world k)" "command_effect dbg h (command env) (k_world k) = (Ok r, w')"
      "submit_locked dbg h env k = (Ok (Inr (r, current_epoch w')), k\<lparr>k_world := w'\<rparr>)"
    | (error) err where "fence env (k_world k)" "command_effect dbg h (command env) (k_world k) = (Err err, k_world k)"
      "submit_locked dbg h env k = (Ok (Inl err), k)"
    using plain_locked[OF st nl] by blast
  then show ?thesis
  proof cases
    case stale
    then show ?thesis using k submit_step.stale_epoch[OF m nl stale(1,2)]
      by (simp add: submit_admitted_plain[OF nl] act_bind_def)
  next
    case ok
    have "view (k_store k) ?key = Some (InFlight q j)" using k(2) by simp
    then show ?thesis
      using plain_commit[OF sp nl k(1) _ ok(1,2)] k(2)
        submit_step.committed[OF m disjI2[OF ok(1)] ok(2) serde_write[OF sd]] by auto
  next
    case error
    then show ?thesis
      using k finish_err[OF sp k(1), of q err] submit_step.rejected[OF m nl error(1,2)]
      by (simp add: submit_admitted_plain[OF nl] act_bind_def)
  qed
qed

text \<open>For both lease commands: the coordinator agreed (\<open>k1\<close>), the work state is written, the command is stored.\<close>

lemma lease_commit:
  assumes m: "open_key m (idempotency_key env)" "fresh_seq m q" "enc_envelope (serde_json p) env = Some j"
    and sd: "serde_ok (serde_json p)" and lease: "lease_command (command env)"
    and k1: "inv (k_store k1)" "view (k_store k1) = m(idempotency_key env \<mapsto> InFlight q j)"
    and st: "settles wr (k_world k1)"
    and eff: "command_effect dbg h (command env) = act_bind wr (\<lambda>_. act_return r)"
    and commit: "\<And>k. k_store k = k_store k1 \<Longrightarrow>
      \<exists>s'. commit k = (Ok \<lparr>co_sequence = q, co_result = r, co_world_epoch = current_epoch (k_world k)\<rparr>, k\<lparr>k_store := s'\<rparr>) \<and>
        inv s' \<and> view s' = (view (k_store k1))(idempotency_key env \<mapsto>
          Completed q j (result_json p r) (current_epoch (k_world k)))"
  shows "\<exists>out k'. act_bind (on_world wr) (\<lambda>_. commit) k1 = (out, k') \<and> inv (k_store k') \<and>
    k_snapshot k' = k_snapshot k1 \<and>
    submit_step dbg (serde_json p) h env (k_world k1) m out (k_world k') (view (k_store k'))"
proof -
  consider (fails) err where "wr (k_world k1) = (Err err, k_world k1)"
    | (ok) x w' where "wr (k_world k1) = (Ok x, w')" using st unfolding settles_def by blast
  then show ?thesis
  proof cases
    case fails
    then show ?thesis using k1 submit_step.lease_failed[OF m lease]
      by (simp add: act_bind_def on_world_def)
  next
    case ok
    have "command_effect dbg h (command env) (k_world k1) = (Ok r, w')"
      using ok by (simp add: eff act_bind_def act_return_def)
    note committed = submit_step.committed[OF m disjI1[OF lease] this serde_write[OF sd]]
    show ?thesis using ok commit[of "k1\<lparr>k_world := w'\<rparr>"] committed k1(2)
      by (auto simp: act_bind_def on_world_def)
  qed
qed

lemma acquire_refines:
  assumes sp: "store_port p = ops" and sd: "serde_ok (serde_json p)" and lt: "lease_total (lease_port p)"
    and m: "open_key m (idempotency_key env)" "fresh_seq m q" "enc_envelope (serde_json p) env = Some j"
    and k: "inv (k_store k)" "view (k_store k) = m(idempotency_key env \<mapsto> InFlight q j)"
    and w: "kernel_inv (k_world k)" "next_id (k_world k) \<le> 2 ^ 32"
    and cmd: "command env = Lifecycle (LcAcquireWorkLease e gen ttl)"
  shows "\<exists>out k'. submit_admitted dbg p h env q k = (out, k') \<and> inv (k_store k') \<and> k_snapshot k' = k_snapshot k \<and>
    submit_step dbg (serde_json p) h env (k_world k) m out (k_world k') (view (k_store k'))"
proof -
  have lease: "lease_command (command env)" using cmd by simp
  note failed = submit_step.lease_failed[OF m lease]
  obtain x l where x: "lc_acquire (lease_port p) (resource_key e) ttl (k_lease k) = (x, l)" "x \<noteq> Panic"
    using lt unfolding lease_total_def by (metis prod.collapse)
  show ?thesis
  proof (cases "x = Ok True")
    case True
    let ?wr = "attach dbg (EntityError ''lease state transition'') e (VWorkState (WLeased 1))"
    have "\<exists>out k'. act_bind (on_world ?wr) (\<lambda>_. commit_acquire p q e gen) (k\<lparr>k_lease := l\<rparr>) = (out, k') \<and>
        inv (k_store k') \<and> k_snapshot k' = k_snapshot (k\<lparr>k_lease := l\<rparr>) \<and>
        submit_step dbg (serde_json p) h env (k_world (k\<lparr>k_lease := l\<rparr>)) m out (k_world k') (view (k_store k'))"
    proof (rule lease_commit[OF m sd lease, where r = "LifecycleDone (LrLeaseAcquired e gen (resource_key e))"])
      show "settles ?wr (k_world (k\<lparr>k_lease := l\<rparr>))" using settles_attach[OF w] by simp
      show "\<exists>s'. commit_acquire p q e gen k' = (Ok \<lparr>co_sequence = q, co_result = LifecycleDone
            (LrLeaseAcquired e gen (resource_key e)), co_world_epoch = current_epoch (k_world k')\<rparr>,
            k'\<lparr>k_store := s'\<rparr>) \<and> inv s' \<and> view s' = (view (k_store (k\<lparr>k_lease := l\<rparr>)))(idempotency_key env \<mapsto>
          Completed q j (result_json p (LifecycleDone (LrLeaseAcquired e gen (resource_key e))))
            (current_epoch (k_world k')))" if "k_store k' = k_store (k\<lparr>k_lease := l\<rparr>)" for k'
        using commit_ok(1)[OF sp, of k' "idempotency_key env" q j e gen] that k by simp
    qed (use k in \<open>simp_all add: command_effect_def cmd\<close>)
    then show ?thesis using x True
      by (simp add: submit_admitted_def cmd submit_acquire_def act_bind_def[of "act_map_err _ _"] act_map_err_def
          on_lease_def)
  next
    case False
    then show ?thesis using x failed k
      by (cases x) (auto simp: submit_admitted_def cmd submit_acquire_def act_bind_def act_map_err_def on_lease_def
          act_fail_def)
  qed
qed

lemma release_refines:
  assumes sp: "store_port p = ops" and sd: "serde_ok (serde_json p)" and lt: "lease_total (lease_port p)"
    and m: "open_key m (idempotency_key env)" "fresh_seq m q" "enc_envelope (serde_json p) env = Some j"
    and k: "inv (k_store k)" "view (k_store k) = m(idempotency_key env \<mapsto> InFlight q j)"
    and w: "kernel_inv (k_world k)" "next_id (k_world k) \<le> 2 ^ 32"
    and cmd: "command env = Lifecycle (LcReleaseWorkLease e)"
  shows "\<exists>out k'. submit_admitted dbg p h env q k = (out, k') \<and> inv (k_store k') \<and> k_snapshot k' = k_snapshot k \<and>
    submit_step dbg (serde_json p) h env (k_world k) m out (k_world k') (view (k_store k'))"
proof -
  have lease: "lease_command (command env)" using cmd by simp
  note failed = submit_step.lease_failed[OF m lease]
  obtain x l where x: "lc_release (lease_port p) (resource_key e) (k_lease k) = (x, l)" "x \<noteq> Panic"
    using lt unfolding lease_total_def by (metis prod.collapse)
  show ?thesis
  proof (cases "x = Ok ()")
    case True
    let ?wr = "attach dbg (EntityError ''release state transition'') e (VWorkState WReady)"
    have "\<exists>out k'. act_bind (on_world ?wr) (\<lambda>_. commit_release p q e) (k\<lparr>k_lease := l\<rparr>) = (out, k') \<and>
        inv (k_store k') \<and> k_snapshot k' = k_snapshot (k\<lparr>k_lease := l\<rparr>) \<and>
        submit_step dbg (serde_json p) h env (k_world (k\<lparr>k_lease := l\<rparr>)) m out (k_world k') (view (k_store k'))"
    proof (rule lease_commit[OF m sd lease, where r = "LifecycleDone (LrLeaseReleased e)"])
      show "settles ?wr (k_world (k\<lparr>k_lease := l\<rparr>))" using settles_attach[OF w] by simp
      show "\<exists>s'. commit_release p q e k' = (Ok \<lparr>co_sequence = q, co_result = LifecycleDone (LrLeaseReleased e),
            co_world_epoch = current_epoch (k_world k')\<rparr>, k'\<lparr>k_store := s'\<rparr>) \<and> inv s' \<and>
          view s' = (view (k_store (k\<lparr>k_lease := l\<rparr>)))(idempotency_key env \<mapsto>
            Completed q j (result_json p (LifecycleDone (LrLeaseReleased e))) (current_epoch (k_world k')))"
        if "k_store k' = k_store (k\<lparr>k_lease := l\<rparr>)" for k'
        using commit_ok(2)[OF sp, of k' "idempotency_key env" q j e] that k by simp
    qed (use k in \<open>simp_all add: command_effect_def cmd\<close>)
    then show ?thesis using x True
      by (simp add: submit_admitted_def cmd submit_release_def act_bind_def[of "act_map_err _ _"] act_map_err_def
          on_lease_def)
  next
    case False
    then show ?thesis using x failed k
      by (cases x) (auto simp: submit_admitted_def cmd submit_release_def act_bind_def act_map_err_def on_lease_def
          act_fail_def)
  qed
qed

lemma submit_stored:
  assumes "store_port p = ops" "serde_ok (serde_json p)" "inv (k_store k)"
    and "view (k_store k) (idempotency_key env) = Some (Completed q e rj ep)"
  shows "submit dbg p h env k = (case dec_result (serde_json p) rj of
      None \<Rightarrow> (Err (IdempotencyConflict ''stored result is corrupt''), k)
    | Some r \<Rightarrow> (Ok \<lparr>co_sequence = q, co_result = r, co_world_epoch = ep\<rparr>, k))"
proof -
  obtain j where j: "enc_envelope (serde_json p) env = Some j" using assms(2) unfolding serde_ok_def by blast
  have "on_store (cs_admit ops (idempotency_key env) j) k = (Ok (AlreadyCompleted rj q ep), k)"
    using admit_completed[OF assms(3,4), of j] by (simp add: on_store_def)
  then show ?thesis using assms(1) j
    by (simp add: submit_def submit_admit_def admission_outcome_def act_bind_def act_fail_def act_return_def
        split: option.split)
qed

lemma submit_conflict:
  assumes "store_port p = ops" "serde_ok (serde_json p)" "inv (k_store k)"
    and "view (k_store k) (idempotency_key env) = Some (InFlight q e)"
  shows "submit dbg p h env k = (Err (IdempotencyConflict ''command is in flight by another caller''), k)"
proof -
  obtain j where j: "enc_envelope (serde_json p) env = Some j" using assms(2) unfolding serde_ok_def by blast
  have "on_store (cs_admit ops (idempotency_key env) j) k = (Ok AlreadyInFlight, k)"
    using admit_in_flight[OF assms(3,4), of j] by (simp add: on_store_def)
  then show ?thesis using assms(1) j
    by (simp add: submit_def submit_admit_def admission_outcome_def act_bind_def act_fail_def)
qed

lemma submit_open:
  assumes "store_port p = ops" "serde_ok (serde_json p)" "inv (k_store k)"
    and "open_key (view (k_store k)) (idempotency_key env)"
  obtains q j s' where "enc_envelope (serde_json p) env = Some j" "inv s'"
    "view s' = (view (k_store k))(idempotency_key env \<mapsto> InFlight q j)" "fresh_seq (view (k_store k)) q"
    "submit_admit p env k = (Ok (Inr q), k\<lparr>k_store := s', k_sequence := k_sequence k + 1\<rparr>)"
    "submit dbg p h env k = submit_admitted dbg p h env q (k\<lparr>k_store := s', k_sequence := k_sequence k + 1\<rparr>)"
proof -
  obtain j where j: "enc_envelope (serde_json p) env = Some j" using assms(2) unfolding serde_ok_def by blast
  obtain q s' where s': "cs_admit ops (idempotency_key env) j (k_store k) = (Ok (Admitted q), s')" "inv s'"
      "view s' = (view (k_store k))(idempotency_key env \<mapsto> InFlight q j)" "fresh_seq (view (k_store k)) q"
    using admit_open[OF assms(3), of "idempotency_key env" j] assms(4) unfolding open_key_def fresh_seq_def by blast
  then show ?thesis using that[OF j s'(2-4)] assms(1) j
    by (simp add: submit_def submit_admit_def admission_outcome_def act_bind_def on_store_def)
qed

lemma submit_commits:
  assumes sp: "store_port p = ops" and sd: "serde_ok (serde_json p)" and k: "inv (k_store k)"
    and open_: "open_key (view (k_store k)) (idempotency_key env)" and nl: "\<not> lease_command (command env)"
    and fence: "fence env (k_world k)" and eff: "command_effect dbg h (command env) (k_world k) = (Ok r, w')"
  shows "\<exists>q j k'. submit dbg p h env k = (Ok \<lparr>co_sequence = q, co_result = r, co_world_epoch = current_epoch w'\<rparr>, k') \<and>
    inv (k_store k') \<and> k_world k' = w' \<and> k_lease k' = k_lease k \<and> k_snapshot k' = k_snapshot k \<and>
    fresh_seq (view (k_store k)) q \<and> enc_envelope (serde_json p) env = Some j \<and>
    view (k_store k') = (view (k_store k))(idempotency_key env \<mapsto> Completed q j (result_json p r) (current_epoch w'))"
proof -
  let ?m = "view (k_store k)" and ?key = "idempotency_key env"
  obtain q j s' where s': "enc_envelope (serde_json p) env = Some j" "inv s'" "view s' = ?m(?key \<mapsto> InFlight q j)"
      "fresh_seq ?m q" "submit dbg p h env k =
        submit_admitted dbg p h env q (k\<lparr>k_store := s', k_sequence := k_sequence k + 1\<rparr>)"
    using submit_open[OF sp sd k open_] by metis
  have "view s' ?key = Some (InFlight q j)" using s'(3) by simp
  then show ?thesis
    using plain_commit[OF sp nl, of "k\<lparr>k_store := s', k_sequence := k_sequence k + 1\<rparr>" q j dbg h r w'] s' fence eff
    by auto
qed

lemma submit_refines:
  assumes sp: "store_port p = ops" and sd: "serde_ok (serde_json p)" and lt: "lease_total (lease_port p)"
    and k: "inv (k_store k)" and w: "kernel_inv (k_world k)" "next_id (k_world k) + 2 \<le> 2 ^ 32"
  shows "\<exists>out k'. submit dbg p h env k = (out, k') \<and> inv (k_store k') \<and> k_snapshot k' = k_snapshot k \<and>
    submit_step dbg (serde_json p) h env (k_world k) (view (k_store k)) out (k_world k') (view (k_store k'))"
proof -
  let ?key = "idempotency_key env" and ?m = "view (k_store k)"
  consider (completed) q e r ep where "?m ?key = Some (Completed q e r ep)"
    | (in_flight) q e where "?m ?key = Some (InFlight q e)" | (open_) "open_key ?m ?key"
    unfolding open_key_def by (metis command_state.exhaust option.exhaust)
  then show ?thesis
  proof cases
    case completed
    then show ?thesis
      using submit_stored[OF sp sd k completed, of dbg h] k submit_step.corrupt[of ?m env, OF completed]
        submit_step.stored[of ?m env, OF completed]
      by (cases "dec_result (serde_json p) r") simp_all
  next
    case in_flight
    then show ?thesis
      using submit_conflict[OF sp sd k in_flight, of dbg h] k submit_step.in_flight[of ?m env, OF in_flight] by simp
  next
    case open_
    obtain q j s' where s': "enc_envelope (serde_json p) env = Some j" "inv s'"
        "view s' = ?m(?key \<mapsto> InFlight q j)" "fresh_seq ?m q" "submit dbg p h env k =
          submit_admitted dbg p h env q (k\<lparr>k_store := s', k_sequence := k_sequence k + 1\<rparr>)"
      using submit_open[OF sp sd k open_] by metis
    let ?k = "k\<lparr>k_store := s', k_sequence := k_sequence k + 1\<rparr>"
    have w': "next_id (k_world ?k) \<le> 2 ^ 32" "kernel_inv (k_world ?k)" using w by simp_all
    have "\<exists>out k'. submit_admitted dbg p h env q ?k = (out, k') \<and> inv (k_store k') \<and> k_snapshot k' = k_snapshot ?k \<and>
        submit_step dbg (serde_json p) h env (k_world ?k) ?m out (k_world k') (view (k_store k'))"
    proof (cases "command env" rule: lease_command_cases)
      case (1 e g t)
      show ?thesis by (rule acquire_refines[OF sp sd lt open_ s'(4,1) _ _ w'(2,1) 1]) (use s' in simp_all)
    next
      case (2 e)
      show ?thesis by (rule release_refines[OF sp sd lt open_ s'(4,1) _ _ w'(2,1) 2]) (use s' in simp_all)
    next
      case 3
      show ?thesis
        by (rule plain_refines[OF sp sd open_ s'(4,1) _ _ _ 3]) (use s' w in \<open>simp_all add: effect_settles\<close>)
    qed
    then show ?thesis using s'(5) by simp
  qed
qed

end

subsection \<open>Properties\<close>

lemma mem_ports_simps [simp]:
  "store_port (mem_ports sd chk) = mem_ops" "lease_port (mem_ports sd chk) = mem_lease_ops"
  "serde_json (mem_ports sd chk) = sd" "payload_checksum (mem_ports sd chk) = chk"
  by (simp_all add: mem_ports_def)

lemma mem_lease_total [simp]: "lease_total mem_lease_ops"
  by (simp add: lease_total_def mem_lease_ops_def mem_acquire_def mem_release_def)

lemma kernel_new_simps [simp]:
  "k_world kernel_new = world_new" "k_store kernel_new = mem_store_new" "k_snapshot kernel_new = None"
  "k_lease kernel_new = []"
  by (simp_all add: kernel_new_def)

text \<open>A JSON whose texts are the values they stand for.\<close>

definition sample_serde :: "(command_envelope + command_result) serde" where
  "sample_serde = \<lparr>enc_envelope = (\<lambda>e. Some (Inl e)), dec_envelope = (\<lambda>j. case j of Inl e \<Rightarrow> Some e | Inr _ \<Rightarrow> None),
     enc_result = (\<lambda>r. Some (Inr r)), dec_result = (\<lambda>j. case j of Inl _ \<Rightarrow> None | Inr r \<Rightarrow> Some r),
     empty_json = Inr (Spawned 0)\<rparr>"

lemma serde_ok_sample: "serde_ok sample_serde"
  by (simp add: serde_ok_def sample_serde_def)

text \<open>C6: \<open>submit\<close> with the in-memory ports does what \<open>submit_step\<close> specifies. A key whose command is complete
  answers with the stored outcome and one whose command is in flight with a conflict, both without touching
  world or store. An open key is admitted under a new sequence number: a mismatched epoch, a command that
  fails or a refused lease ends in an error with the world unchanged and the key in flight; otherwise the
  command's effect on the world, its result and the epoch are committed under the key.\<close>

theorem submit_implements_spec:
  assumes "serde_ok sd" "mem_inv (k_store k)" "kernel_inv (k_world k)" "next_id (k_world k) + 2 \<le> 2 ^ 32"
  shows "\<exists>out k'. submit dbg (mem_ports sd chk) h env k = (out, k') \<and> mem_inv (k_store k') \<and>
    submit_step dbg sd h env (k_world k) (mem_view (k_store k)) out (k_world k') (mem_view (k_store k'))"
  using mem.submit_refines[of "mem_ports sd chk" k dbg h env] assms by auto

theorem submit_implements_spec_witness:
  "\<exists>out k'. submit True (mem_ports sample_serde (\<lambda>_. [])) sample_host (envelope_new 0 5 (SpawnAgent 0 [] 1)) kernel_new =
     (out, k') \<and> mem_inv (k_store k') \<and> submit_step True sample_serde sample_host (envelope_new 0 5 (SpawnAgent 0 [] 1))
       world_new Map.empty out (k_world k') (mem_view (k_store k'))"
  using submit_implements_spec[OF serde_ok_sample, of kernel_new True "\<lambda>_. []" sample_host
      "envelope_new 0 5 (SpawnAgent 0 [] 1)"] kernel_inv_new
  by (simp add: world_new_def)

end
