(* ===== verification/Kernel_History.thy ===== *)
theory Kernel_History
  imports Kernel_Submit
begin

text \<open>
  Histories of the runtime kernel: sequences of submissions, snapshots and recoveries from a new kernel.
  The journal of a history explains its world: the effects of the completed commands, in the order of
  their sequence numbers. So replaying the journal rebuilds the world, and a key is executed at most once.
\<close>

inductive_cases submit_stepE: "submit_step dbg sd h env w m out w' m'"

subsection \<open>Steps\<close>

lemma step_world:
  assumes "submit_step dbg sd h env w m out w' m'" "kernel_inv w" "next_id w + 2 \<le> 2 ^ 32"
  shows "kernel_step 2 w w' \<and> out \<noteq> Panic"
  using assms(1)
proof cases
  case (committed q j r rj)
  then show ?thesis using effect_settles[OF assms(2,3), of dbg h "command env"] by (auto simp: settles_def)
qed (use kernel_step_refl[OF assms(2)] in simp_all)

lemma step_keeps:
  assumes "submit_step dbg sd h env w m out w' m'" "m key = Some st" "\<forall>q j. st \<noteq> RecoveryRequired q j"
  shows "m' key = Some st"
  using assms by cases (auto simp: open_key_def)

lemma step_ok:
  assumes "submit_step dbg sd h env w m (Ok r) w' m'" "serde_ok sd"
  shows "\<exists>j rj. m' (idempotency_key env) = Some (Completed (co_sequence r) j rj (co_world_epoch r)) \<and>
    dec_result sd rj = Some (co_result r)"
  using assms(1)
proof cases
  case (committed q j r rj)
  then show ?thesis using serde_reads(2)[OF assms(2)] by auto
qed auto

lemma step_err:
  assumes "submit_step dbg sd h env w m (Err e) w' m'"
  shows "w' = w \<and> (open_key m (idempotency_key env) \<longrightarrow> (\<exists>q j. m' (idempotency_key env) = Some (InFlight q j)))"
  using assms by cases (auto simp: open_key_def)

lemma step_deterministic_stored:
  assumes "submit_step dbg sd h env w m out w' m'" "m (idempotency_key env) = Some (Completed q j rj ep)"
    and "dec_result sd rj = Some r"
  shows "out = Ok \<lparr>co_sequence = q, co_result = r, co_world_epoch = ep\<rparr> \<and> w' = w \<and> m' = m"
  using assms by cases (auto simp: open_key_def)

lemma step_deterministic_in_flight:
  assumes "submit_step dbg sd h env w m out w' m'" "m (idempotency_key env) = Some (InFlight q j)"
  shows "out = Err (IdempotencyConflict ''command is in flight by another caller'') \<and> w' = w \<and> m' = m"
  using assms by cases (auto simp: open_key_def)

subsection \<open>Histories\<close>

type_synonym request = "host \<times> command_envelope"

fun submit_all :: "bool \<Rightarrow> ('s, 'l, 'j) ports \<Rightarrow> request list \<Rightarrow> ('s, 'l) kernel \<Rightarrow>
    (runtime_error, commit_outcome) outcome list \<times> ('s, 'l) kernel" where
  "submit_all dbg p [] k = ([], k)"
| "submit_all dbg p ((h, env) # rs) k =
     (let (out, k1) = submit dbg p h env k; (outs, k2) = submit_all dbg p rs k1 in (out # outs, k2))"

inductive history :: "bool \<Rightarrow> 'j serde \<Rightarrow> kernel_world \<Rightarrow> (nat \<rightharpoonup> 'j command_state) \<Rightarrow> request list \<Rightarrow>
    (runtime_error, commit_outcome) outcome list \<Rightarrow> kernel_world \<Rightarrow> (nat \<rightharpoonup> 'j command_state) \<Rightarrow> bool"
  for dbg sd where
  none: "history dbg sd w m [] [] w m"
| more: "submit_step dbg sd h env w m out w1 m1 \<Longrightarrow> history dbg sd w1 m1 rs outs w2 m2 \<Longrightarrow>
    history dbg sd w m ((h, env) # rs) (out # outs) w2 m2"

lemma history_keeps:
  assumes "history dbg sd w m rs outs w' m'" "m key = Some st" "\<forall>q j. st \<noteq> RecoveryRequired q j"
  shows "m' key = Some st"
  using assms by (induction rule: history.induct) (auto dest: step_keeps)

lemma history_world:
  assumes "history dbg sd w m rs outs w' m'" "kernel_inv w" "next_id w + 2 * length rs \<le> 2 ^ 32"
  shows "kernel_step (2 * length rs) w w' \<and> Panic \<notin> set outs"
  using assms
proof (induction rule: history.induct)
  case (none w m)
  then show ?case by (simp add: kernel_step_refl)
next
  case (more h env w m out w1 m1 rs outs w2 m2)
  have 1: "kernel_step 2 w w1 \<and> out \<noteq> Panic" by (rule step_world[OF more.hyps(1)]) (use more.prems in simp_all)
  then have "kernel_inv w1" "next_id w1 + 2 * length rs \<le> 2 ^ 32"
    using more.prems(2) by (auto simp: kernel_step_def)
  then have "kernel_step (2 * length rs) w1 w2" "Panic \<notin> set outs" using more.IH by blast+
  then show ?case using 1 kernel_step_trans[of 2 w w1 "2 * length rs" w2] by auto
qed

context journal begin

lemma submit_all_refines:
  assumes sp: "store_port p = ops" "serde_ok (serde_json p)" "lease_total (lease_port p)"
    and "inv (k_store k)" "kernel_inv (k_world k)" "next_id (k_world k) + 2 * length rs \<le> 2 ^ 32"
  shows "\<exists>outs k'. submit_all dbg p rs k = (outs, k') \<and> inv (k_store k') \<and> k_snapshot k' = k_snapshot k \<and>
    history dbg (serde_json p) (k_world k) (view (k_store k)) rs outs (k_world k') (view (k_store k'))"
  using assms(4-6)
proof (induction rs arbitrary: k)
  case Nil
  then show ?case by (simp add: history.none)
next
  case (Cons r rs)
  obtain h env where r: "r = (h, env)" by (cases r)
  have w: "next_id (k_world k) + 2 \<le> 2 ^ 32" using Cons.prems(3) by simp
  obtain out k1 where k1: "submit dbg p h env k = (out, k1)" "inv (k_store k1)" "k_snapshot k1 = k_snapshot k"
      "submit_step dbg (serde_json p) h env (k_world k) (view (k_store k)) out (k_world k1) (view (k_store k1))"
    using submit_refines[OF sp Cons.prems(1,2) w] by blast
  have st: "kernel_step 2 (k_world k) (k_world k1)" using step_world[OF k1(4) Cons.prems(2) w] by simp
  then have "kernel_inv (k_world k1)" "next_id (k_world k1) + 2 * length rs \<le> 2 ^ 32"
    using Cons.prems(3) by (auto simp: kernel_step_def)
  then obtain outs k2 where "submit_all dbg p rs k1 = (outs, k2)" "inv (k_store k2)" "k_snapshot k2 = k_snapshot k1"
      "history dbg (serde_json p) (k_world k1) (view (k_store k1)) rs outs (k_world k2) (view (k_store k2))"
    using Cons.IH[OF k1(2)] by blast
  then show ?case using k1 by (auto simp: r intro: history.more)
qed

end

subsection \<open>The journal explains the world\<close>

record 'j entry =
  en_seq :: nat
  en_host :: host
  en_env :: command_envelope
  en_json :: 'j
  en_result :: command_result
  en_result_json :: 'j
  en_epoch :: nat

definition entry_command :: "'j entry \<Rightarrow> 'j completed_command" where
  "entry_command en = \<lparr>cc_sequence = en_seq en, cc_idempotency_key = idempotency_key (en_env en),
     cc_envelope_json = en_json en, cc_result_json = en_result_json en, cc_world_epoch = en_epoch en\<rparr>"

lemma entry_command_simps [simp]:
  "cc_sequence (entry_command en) = en_seq en" "cc_idempotency_key (entry_command en) = idempotency_key (en_env en)"
  "cc_envelope_json (entry_command en) = en_json en" "cc_result_json (entry_command en) = en_result_json en"
  "cc_world_epoch (entry_command en) = en_epoch en"
  by (simp_all add: entry_command_def)

text \<open>The world after the effects of the entries, when each has the recorded result.\<close>

fun effects :: "bool \<Rightarrow> 'j entry list \<Rightarrow> kernel_world \<Rightarrow> kernel_world option" where
  "effects dbg [] w = Some w"
| "effects dbg (en # es) w = (case command_effect dbg (en_host en) (command (en_env en)) w of
     (Ok r, w') \<Rightarrow> if r = en_result en then effects dbg es w' else None | _ \<Rightarrow> None)"

lemma effects_append: "effects dbg (es @ fs) w = Option.bind (effects dbg es w) (effects dbg fs)"
  by (induction es arbitrary: w) (auto split: prod.split outcome.split)

text \<open>\<open>R\<close> is the set of requests made so far.\<close>

definition explains :: "bool \<Rightarrow> 'j serde \<Rightarrow> request set \<Rightarrow> 'j entry list \<Rightarrow> kernel_world \<Rightarrow>
    (nat \<rightharpoonup> 'j command_state) \<Rightarrow> bool" where
  "explains dbg sd R es w m \<longleftrightarrow> effects dbg es world_new = Some w \<and> sorted_wrt (<) (map en_seq es) \<and>
     (\<forall>c. is_completed m c \<longleftrightarrow> c \<in> entry_command ` set es) \<and>
     (\<forall>en \<in> set es. (en_host en, en_env en) \<in> R \<and> dec_envelope sd (en_json en) = Some (en_env en) \<and>
        dec_result sd (en_result_json en) = Some (en_result en))"

lemma explains_new: "explains dbg sd R [] world_new Map.empty"
  by (simp add: explains_def is_completed_def)

lemma explains_same:
  assumes "explains dbg sd R es w m" "\<And>c. is_completed m' c \<longleftrightarrow> is_completed m c"
  shows "explains dbg sd (insert r R) es w m'"
  using assms by (auto simp: explains_def)

lemma explains_seq:
  assumes "explains dbg sd R es w m" "fresh_seq m q" "en \<in> set es"
  shows "en_seq en < q"
proof -
  have "is_completed m (entry_command en)" using assms(1,3) unfolding explains_def by blast
  then show ?thesis using assms(2) by (auto simp: is_completed_def fresh_seq_def dest!: spec)
qed

lemma completed_in_flight:
  "open_key m key \<Longrightarrow> is_completed (m(key \<mapsto> InFlight q j)) c \<longleftrightarrow> is_completed m c"
  by (auto simp: is_completed_def open_key_def)

lemma step_explains:
  assumes step: "submit_step dbg sd h env w m out w' m'" and ex: "explains dbg sd R es w m" and sd: "serde_ok sd"
  obtains es' where "explains dbg sd (insert (h, env) R) es' w' m'"
  using step
proof cases
  case (committed q j r rj)
  let ?en = "\<lparr>en_seq = q, en_host = h, en_env = env, en_json = j, en_result = r, en_result_json = rj,
      en_epoch = current_epoch w'\<rparr>"
  have "is_completed m' c \<longleftrightarrow> is_completed m c \<or> c = entry_command ?en" for c
    using committed(2,3) by (cases c) (auto simp: is_completed_def open_key_def entry_command_def)
  then have "explains dbg sd (insert (h, env) R) (es @ [?en]) w' m'"
    using ex committed explains_seq[OF ex committed(4)] serde_reads[OF sd]
    by (auto simp: explains_def effects_append sorted_wrt_append)
  then show ?thesis using that by blast
qed (use that[of es] explains_same[OF ex] completed_in_flight[of m "idempotency_key env"] in simp_all)

lemma history_explains:
  assumes "history dbg sd w m rs outs w' m'" "explains dbg sd R es w m" "serde_ok sd"
  obtains es' where "explains dbg sd (set rs \<union> R) es' w' m'"
proof -
  have "\<exists>es'. explains dbg sd (set rs \<union> R) es' w' m'"
    using assms
  proof (induction arbitrary: R es rule: history.induct)
    case (more h env w m out w1 m1 rs outs w2 m2)
    obtain es1 where "explains dbg sd (insert (h, env) R) es1 w1 m1"
      using step_explains[OF more.hyps(1) more.prems] by blast
    then show ?case using more.IH more.prems(2) by fastforce
  qed auto
  then show ?thesis using that by blast
qed

subsection \<open>Replaying a command\<close>

text \<open>The two hosts answer alike what the command asks them that reaches the world.\<close>

fun agrees :: "host \<Rightarrow> host \<Rightarrow> command \<Rightarrow> bool" where
  "agrees h h' (RegisterModel name path format) \<longleftrightarrow> read_file h path = read_file h' path \<and> blake3 h = blake3 h'"
| "agrees h h' (Lifecycle (LcCreateCompilationJob cmd)) \<longleftrightarrow> clock h = clock h'"
| "agrees h h' _ \<longleftrightarrow> True"

lemma agrees_refl: "agrees h h cmd"
  by (cases "(h, h, cmd)" rule: agrees.cases) simp_all

lemma bind_ok:
  assumes "act_bind m f w = (Ok r, w')"
  obtains a w1 where "m w = (Ok a, w1)" "f a w1 = (Ok r, w')"
  using assms by (auto simp: act_bind_def split: prod.splits outcome.splits)

lemma lifecycle_result:
  assumes "execute_lifecycle dbg h lc w = (Ok r, w')"
  shows "\<exists>lr. r = LifecycleDone lr"
  using assms
  by (cases lc) (auto simp: execute_lifecycle_def execute_create_work_def execute_create_compilation_job_def
      execute_request_cancellation_def execute_mark_observed_def execute_record_work_plan_def
      execute_admit_work_def execute_record_dispatch_intent_def execute_complete_work_def execute_fail_work_def
      execute_attach_evidence_cmd_def execute_publish_result_cmd_def read_world_def act_return_def act_panic_def
      Let_def elim!: bind_ok)

lemma check_lifecycle_same: "check_lifecycle r r = act_return ()"
  by (simp add: check_lifecycle_def split: command_result.split lifecycle_result.split)

lemma check_lifecycle_tag:
  assumes "\<And>e n v. stored \<noteq> LifecycleDone (LrWorkCreated e n v)" "result_tag new = result_tag stored"
  shows "check_lifecycle new stored = act_return ()"
  using assms by (simp add: check_lifecycle_def split: command_result.split lifecycle_result.split)

text \<open>A lifecycle command on another host: the same world, and a result that the replay accepts.\<close>

lemma lifecycle_replays:
  assumes run: "execute_lifecycle dbg h lc w = (Ok r, w')" and ag: "agrees h h' (Lifecycle lc)"
  shows "act_bind (execute_lifecycle dbg h' lc) (\<lambda>new. check_lifecycle new r) w = (Ok (), w')"
proof -
  have same: ?thesis if "execute_lifecycle dbg h' lc = execute_lifecycle dbg h lc"
    using run by (simp add: that act_bind_def check_lifecycle_same act_return_def)
  have other: "act_bind (act_bind m (\<lambda>_. f h')) (\<lambda>new. check_lifecycle new r) w = (Ok (), w')"
    if "act_bind m (\<lambda>_. f h) w = (Ok r, w')"
      "\<And>w. \<exists>lr lr'. f h w = (Ok (LifecycleDone lr), w) \<and> f h' w = (Ok (LifecycleDone lr'), w) \<and>
        (\<forall>e n v. lr \<noteq> LrWorkCreated e n v)"
    for m :: "unit world_action" and f
  proof -
    note hyps = that
    obtain a w1 where w1: "m w = (Ok a, w1)" "f h w1 = (Ok r, w')" using bind_ok[OF hyps(1)] by metis
    obtain lr lr' where "f h w1 = (Ok (LifecycleDone lr), w1)" "f h' w1 = (Ok (LifecycleDone lr'), w1)"
        "\<forall>e n v. lr \<noteq> LrWorkCreated e n v" using hyps(2) by blast
    then show ?thesis using w1 by (simp add: act_bind_def check_lifecycle_tag act_return_def)
  qed
  show ?thesis
  proof (cases lc)
    case (LcCreateCompilationJob cmd)
    then show ?thesis using ag
      by (intro same) (simp add: execute_lifecycle_def execute_create_compilation_job_def)
  next
    case (LcRecordDispatchIntent e b c d)
    then show ?thesis using other[of _ "\<lambda>h. act_return (LifecycleDone (LrDispatchIntentRecorded e (new_uuid h)))"] run
      by (simp add: execute_lifecycle_def execute_record_dispatch_intent_def act_return_def[of "LifecycleDone _"])
  next
    case (LcAttachEvidence e d)
    then show ?thesis using run
      by (auto simp: execute_lifecycle_def execute_attach_evidence_cmd_def act_return_def act_bind_def
          check_lifecycle_tag)
  next
    case (LcPublishResult e ty rs)
    then show ?thesis using run
      by (auto simp: execute_lifecycle_def execute_publish_result_cmd_def read_world_def act_return_def act_bind_def
          check_lifecycle_tag split: prod.splits outcome.splits)
  qed (use same in \<open>simp_all add: execute_lifecycle_def\<close>)
qed

lemma replay_effect:
  assumes run: "command_effect dbg h cmd w = (Ok r, w')" and nl: "\<not> lease_command cmd" and ag: "agrees h h' cmd"
  shows "replay_command dbg h' cmd r w = (Ok (), w')"
proof -
  have ex: "execute_command dbg h cmd w = (Ok r, w')" using run by (simp add: effect_plain[OF nl])
  note defs = execute_command_def replay_command_def
  show ?thesis
  proof (cases cmd)
    case (Lifecycle lc)
    then show ?thesis using lifecycle_replays[OF _ ag[unfolded Lifecycle]] ex by (simp add: defs)
  next
    case (RegisterModel name path format)
    then have "execute_register_model dbg h' name path format = execute_register_model dbg h name path format"
      using ag by (simp add: execute_register_model_def)
    then show ?thesis using ex RegisterModel
      by (auto simp: defs check_id_def act_return_def act_bind_def split: prod.splits outcome.splits)
  qed (use ex in \<open>auto simp: defs check_id_def act_return_def act_fail_def act_bind_def complete_modality_def
      fail_modality_def attach_def split: prod.splits outcome.splits if_splits\<close>)
qed

lemma bind_panic: "fst (m w) = Panic \<Longrightarrow> fst (act_bind m f w) = Panic"
  by (cases "m w") (simp add: act_bind_def)

lemma replay_lease: "lease_command cmd \<Longrightarrow> replay_command dbg h cmd r w = (Panic, w)"
  by (cases cmd rule: lease_command.cases)
    (simp_all add: replay_command_def execute_lifecycle_def act_bind_def act_panic_def)

subsection \<open>Recovery\<close>

text \<open>The entries whose commands replay from a world; the hosts of the replay are given by sequence number.\<close>

definition replayable :: "(nat \<Rightarrow> host) \<Rightarrow> 'j entry \<Rightarrow> bool" where
  "replayable hs en \<longleftrightarrow> \<not> lease_command (command (en_env en)) \<and>
     agrees (en_host en) (hs (en_seq en)) (command (en_env en))"

lemma replay_entry:
  assumes "effects dbg (en # es) (k_world k) = Some w"
    and "dec_envelope (serde_json p) (en_json en) = Some (en_env en)"
    and "dec_result (serde_json p) (en_result_json en) = Some (en_result en)"
  shows "replayable hs en \<Longrightarrow> \<exists>w1. apply_recovered_command dbg p (hs (en_seq en)) (entry_command en) k =
      (Ok (), k\<lparr>k_world := w1\<rparr>) \<and> effects dbg es w1 = Some w"
    and "lease_command (command (en_env en)) \<Longrightarrow>
      apply_recovered_command dbg p (hs (en_seq en)) (entry_command en) k = (Panic, k)"
proof -
  obtain w1 where w1: "command_effect dbg (en_host en) (command (en_env en)) (k_world k) = (Ok (en_result en), w1)"
      "effects dbg es w1 = Some w" using assms(1) by (auto split: prod.splits outcome.splits if_splits)
  have run: "apply_recovered_command dbg p h (entry_command en) k =
      on_world (replay_command dbg h (command (en_env en)) (en_result en)) k" for h
    using assms(2,3) by (simp add: apply_recovered_command_def)
  show "\<exists>w1. apply_recovered_command dbg p (hs (en_seq en)) (entry_command en) k =
      (Ok (), k\<lparr>k_world := w1\<rparr>) \<and> effects dbg es w1 = Some w" if "replayable hs en"
    using replay_effect[OF w1(1)] that w1(2) by (auto simp: run on_world_def replayable_def)
  show "apply_recovered_command dbg p (hs (en_seq en)) (entry_command en) k = (Panic, k)"
    if "lease_command (command (en_env en))"
    using replay_lease[OF that] by (simp add: run on_world_def)
qed

lemma replay_entries:
  assumes "effects dbg es (k_world k) = Some w"
    and "\<forall>en \<in> set es. dec_envelope (serde_json p) (en_json en) = Some (en_env en) \<and>
      dec_result (serde_json p) (en_result_json en) = Some (en_result en)"
    and "\<forall>en \<in> set es. lease_command (command (en_env en)) \<or> replayable hs en"
  shows "if \<exists>en \<in> set es. lease_command (command (en_env en))
    then fst (replay_all dbg p hs (map entry_command es) k) = Panic
    else replay_all dbg p hs (map entry_command es) k = (Ok (), k\<lparr>k_world := w\<rparr>)"
  using assms
proof (induction es arbitrary: k)
  case Nil
  then show ?case by (simp add: replay_all_def act_return_def)
next
  case (Cons en es)
  have dec: "dec_envelope (serde_json p) (en_json en) = Some (en_env en)"
      "dec_result (serde_json p) (en_result_json en) = Some (en_result en)" using Cons.prems(2) by simp_all
  have run: "replay_all dbg p hs (entry_command en # map entry_command es) k =
      act_bind (apply_recovered_command dbg p (hs (en_seq en)) (entry_command en))
        (\<lambda>_. replay_all dbg p hs (map entry_command es)) k" by (simp add: replay_all_def)
  show ?case
  proof (cases "lease_command (command (en_env en))")
    case True
    then show ?thesis using replay_entry(2)[OF Cons.prems(1) dec True, of hs] by (simp add: run act_bind_def)
  next
    case False
    then have "replayable hs en" using Cons.prems(3) by simp
    then obtain w1 where w1: "apply_recovered_command dbg p (hs (en_seq en)) (entry_command en) k =
        (Ok (), k\<lparr>k_world := w1\<rparr>)" "effects dbg es w1 = Some w"
      using replay_entry(1)[OF Cons.prems(1) dec] by blast
    then show ?thesis using Cons.IH[of "k\<lparr>k_world := w1\<rparr>"] Cons.prems(2,3) False
      by (simp add: run act_bind_def)
  qed
qed

text \<open>After a recovery the commands that were in flight are marked for recovery.\<close>

definition recovered_journal :: "(nat \<rightharpoonup> 'j command_state) \<Rightarrow> nat \<rightharpoonup> 'j command_state" where
  "recovered_journal m key = (case m key of Some (InFlight q j) \<Rightarrow> Some (RecoveryRequired q j) | st \<Rightarrow> st)"

lemma recovered_completed: "is_completed (recovered_journal m) c \<longleftrightarrow> is_completed m c"
  by (simp add: is_completed_def recovered_journal_def split: option.split command_state.split)

lemma strict_sorted_unique:
  fixes f :: "'a \<Rightarrow> 'b::linorder"
  assumes "sorted_wrt (<) (map f xs)" "sorted_wrt (<) (map f ys)" "set xs = set ys"
  shows "xs = ys"
  by (rule map_sorted_distinct_set_unique[of f]) (use assms in \<open>auto simp: strict_sorted_iff distinct_map\<close>)

text \<open>What \<open>recover\<close> does after the replay of the commands \<open>cs\<close>.\<close>

definition after_replay :: "('s, 'l, 'j) ports \<Rightarrow> ('s, 'l) kernel \<Rightarrow> command_watermarks \<Rightarrow>
    'j completed_command list \<Rightarrow> ('s, 'l, recovery_report) kernel_action" where
  "after_replay p k0 marks cs =
     act_bind (\<lambda>k. (Ok (), k\<lparr>k_sequence := last_committed_sequence marks + 1\<rparr>)) (\<lambda>_.
     act_bind (on_store (cs_unresolved (store_port p))) (\<lambda>unresolved.
     act_bind (act_each (\<lambda>a. on_store (cs_transition_state (store_port p) (ac_sequence a) ''recovery_required''))
       unresolved) (\<lambda>_.
     act_return \<lparr>rr_recovery_state = (if length cs > 0 then ''recovered'' else ''fresh''),
       rr_snapshot_epoch = (case k_snapshot k0 of Some s \<Rightarrow> sp_world_epoch (ws_payload s) | None \<Rightarrow> 0),
       rr_snapshot_sequence = last_committed_sequence marks, rr_replayed_commands = length cs,
       rr_unresolved_commands = length unresolved,
       rr_world_epoch_before = (case k_snapshot k0 of Some s \<Rightarrow> sp_world_epoch (ws_payload s) | None \<Rightarrow> 0)\<rparr>)))"

context journal begin

lemma mark_all:
  assumes "inv (k_store k)" "store_port p = ops" "distinct (map ac_sequence as)"
    "\<forall>a \<in> set as. is_unresolved (view (k_store k)) a"
  shows "\<exists>s'. act_each (\<lambda>a. on_store (cs_transition_state (store_port p) (ac_sequence a) ''recovery_required'')) as k =
      (Ok (), k\<lparr>k_store := s'\<rparr>) \<and> inv s' \<and> (\<forall>key. view s' key =
        (if \<exists>a \<in> set as. ac_idempotency_key a = key then recovered_journal (view (k_store k)) key
         else view (k_store k) key))"
  using assms
proof (induction as arbitrary: k)
  case Nil
  then show ?case by (simp add: act_return_def) (metis kernel.surjective kernel.update_convs(2))
next
  case (Cons a as)
  let ?m = "view (k_store k)" and ?key = "ac_idempotency_key a"
  have a: "?m ?key = Some (InFlight (ac_sequence a) (ac_envelope_json a))"
    using Cons.prems(4) by (simp add: is_unresolved_def)
  obtain s1 where s1: "cs_transition_state ops (ac_sequence a) ''recovery_required'' (k_store k) = (Ok (), s1)" "inv s1"
      "view s1 = ?m(?key \<mapsto> RecoveryRequired (ac_sequence a) (ac_envelope_json a))"
    using mark_recovery[OF Cons.prems(1) a] by blast
  have other: "ac_idempotency_key b \<noteq> ?key" if "b \<in> set as" for b
  proof
    assume "ac_idempotency_key b = ?key"
    then have "ac_sequence b = ac_sequence a"
      using a Cons.prems(4) that by (auto simp: is_unresolved_def dest!: bspec)
    then show False using Cons.prems(3) that by (metis image_eqI distinct.simps(2) list.simps(9) set_map)
  qed
  then have rest: "\<forall>b \<in> set as. is_unresolved (view (k_store (k\<lparr>k_store := s1\<rparr>))) b"
    using Cons.prems(4) s1(3) by (auto simp: is_unresolved_def)
  obtain s2 where s2: "act_each (\<lambda>a. on_store (cs_transition_state (store_port p) (ac_sequence a) ''recovery_required''))
      as (k\<lparr>k_store := s1\<rparr>) = (Ok (), k\<lparr>k_store := s2\<rparr>)" "inv s2"
      "\<forall>key. view s2 key = (if \<exists>a \<in> set as. ac_idempotency_key a = key then recovered_journal (view s1) key
         else view s1 key)"
    using Cons.IH[of "k\<lparr>k_store := s1\<rparr>", OF _ _ _ rest] s1(2) Cons.prems(2,3) by auto
  have "view s2 key = (if \<exists>b \<in> set (a # as). ac_idempotency_key b = key then recovered_journal ?m key else ?m key)"
    for key using other s2(3) s1(3) a by (auto simp: recovered_journal_def)
  moreover have head: "on_store (cs_transition_state (store_port p) (ac_sequence a) ''recovery_required'') k =
      (Ok (), k\<lparr>k_store := s1\<rparr>)" using s1(1) Cons.prems(2) by (simp add: on_store_def)
  have "act_each (\<lambda>a. on_store (cs_transition_state (store_port p) (ac_sequence a) ''recovery_required'')) (a # as) k =
      (Ok (), k\<lparr>k_store := s2\<rparr>)" using s2(1) by (simp add: act_bind_run(1) head)
  ultimately show ?case using s2(2) by blast
qed

lemma recover_run:
  assumes "store_port p = ops" "inv (k_store k)"
    and snap: "case k_snapshot k of None \<Rightarrow> True | Some s \<Rightarrow> snapshot_verify p s"
    and es: "sorted_wrt (<) (map en_seq es)" "\<forall>c. is_completed (view (k_store k)) c \<longleftrightarrow> c \<in> entry_command ` set es"
  obtains marks where "recover dbg p hs k = act_bind (replay_all dbg p hs (map entry_command es))
    (\<lambda>_. after_replay p k marks (map entry_command es)) (k\<lparr>k_world := world_new\<rparr>)"
proof -
  obtain marks where marks: "cs_high_water_marks ops (k_store k) = (Ok marks, k_store k)"
    using marks[OF assms(2)] by blast
  obtain cs where cs: "cs_completed_after ops 0 (k_store k) = (Ok cs, k_store k)" "sorted_wrt (<) (map cc_sequence cs)"
      "\<forall>c. c \<in> set cs \<longleftrightarrow> is_completed (view (k_store k)) c" using list_completed[OF assms(2)] by blast
  have "map cc_sequence (map entry_command es) = map en_seq es" by (simp add: comp_def)
  then have cs_eq: "cs = map entry_command es"
    by (intro strict_sorted_unique[of cc_sequence]) (use cs es in \<open>auto simp del: map_map\<close>)
  let ?k0 = "k\<lparr>k_world := world_new\<rparr>"
  have ports: "on_store (cs_high_water_marks (store_port p)) k = (Ok marks, k)"
      "on_store (cs_completed_after (store_port p) 0) ?k0 = (Ok cs, ?k0)"
    using marks cs(1) assms(1) by (simp_all add: on_store_def)
  have "\<not> (case k_snapshot k of Some s \<Rightarrow> \<not> snapshot_verify p s | None \<Rightarrow> False)"
    using snap by (simp split: option.splits)
  then have "recover dbg p hs k = act_bind (replay_all dbg p hs cs) (\<lambda>_. after_replay p k marks cs) ?k0"
    by (simp add: recover_def after_replay_def act_bind_run(1) ports get_kernel_def)
  then show ?thesis using that cs_eq by blast
qed

lemma after_replay_run:
  assumes sp: "store_port p = ops" and k: "inv (k_store k)"
  shows "\<exists>rep k'. after_replay p k marks cs k = (Ok rep, k') \<and> inv (k_store k') \<and> k_world k' = k_world k \<and>
    view (k_store k') = recovered_journal (view (k_store k)) \<and> k_snapshot k' = k_snapshot k \<and>
    rr_replayed_commands rep = length cs"
proof -
  let ?k = "k\<lparr>k_sequence := last_committed_sequence marks + 1\<rparr>"
  obtain as where as: "cs_unresolved ops (k_store k) = (Ok as, k_store k)" "distinct (map ac_sequence as)"
      "\<forall>a. a \<in> set as \<longleftrightarrow> is_unresolved (view (k_store k)) a" using list_unresolved[OF k] by blast
  obtain s' where s': "act_each (\<lambda>a. on_store (cs_transition_state (store_port p) (ac_sequence a) ''recovery_required''))
      as ?k = (Ok (), ?k\<lparr>k_store := s'\<rparr>)" "inv s'" "\<forall>key. view s' key =
        (if \<exists>a \<in> set as. ac_idempotency_key a = key then recovered_journal (view (k_store k)) key
         else view (k_store k) key)"
    using mark_all[of ?k p as] k sp as by auto
  have "view s' key = recovered_journal (view (k_store k)) key" for key
  proof (cases "\<exists>q j. view (k_store k) key = Some (InFlight q j)")
    case True
    then obtain q j where "view (k_store k) key = Some (InFlight q j)" by blast
    then have "\<lparr>ac_sequence = q, ac_idempotency_key = key, ac_envelope_json = j\<rparr> \<in> set as"
      using as(3) by (simp add: is_unresolved_def)
    then show ?thesis using s'(3) by force
  next
    case False
    then show ?thesis using s'(3)
      by (auto simp: recovered_journal_def split: option.split command_state.split)
  qed
  then have "view s' = recovered_journal (view (k_store k))" by blast
  moreover have "on_store (cs_unresolved (store_port p)) ?k = (Ok as, ?k)" using as(1) sp by (simp add: on_store_def)
  ultimately show ?thesis using s'(1,2) by (simp add: after_replay_def act_bind_run(1) act_return_def)
qed

lemma recover_spec:
  assumes sp: "store_port p = ops" and k: "inv (k_store k)"
    and ex: "explains dbg (serde_json p) R es (k_world k) (view (k_store k))"
    and snap: "case k_snapshot k of None \<Rightarrow> True | Some s \<Rightarrow> snapshot_verify p s"
    and rep: "\<forall>en \<in> set es. lease_command (command (en_env en)) \<or> replayable hs en"
  shows "if \<exists>en \<in> set es. lease_command (command (en_env en)) then fst (recover dbg p hs k) = Panic
    else \<exists>rep k'. recover dbg p hs k = (Ok rep, k') \<and> inv (k_store k') \<and> k_world k' = k_world k \<and>
      view (k_store k') = recovered_journal (view (k_store k)) \<and> k_snapshot k' = k_snapshot k \<and>
      rr_replayed_commands rep = length es"
proof -
  let ?k0 = "k\<lparr>k_world := world_new\<rparr>" and ?cs = "map entry_command es"
  obtain marks where run: "recover dbg p hs k =
      act_bind (replay_all dbg p hs ?cs) (\<lambda>_. after_replay p k marks ?cs) ?k0"
    using recover_run[OF sp k snap, of es dbg hs] ex unfolding explains_def by blast
  have "if \<exists>en \<in> set es. lease_command (command (en_env en)) then fst (replay_all dbg p hs ?cs ?k0) = Panic
      else replay_all dbg p hs ?cs ?k0 = (Ok (), ?k0\<lparr>k_world := k_world k\<rparr>)"
    by (rule replay_entries) (use ex rep in \<open>simp_all add: explains_def\<close>)
  then show ?thesis
    unfolding run using after_replay_run[OF sp k, of marks ?cs]
    by (simp add: act_bind_run(1) bind_panic split: if_splits)
qed

end

subsection \<open>Runs of a kernel\<close>

datatype kernel_event = Submit host command_envelope | Save host "8 word list" | Recover "nat \<Rightarrow> host"

definition event_action :: "bool \<Rightarrow> ('s, 'l, 'j) ports \<Rightarrow> kernel_event \<Rightarrow> ('s, 'l, unit) kernel_action" where
  "event_action dbg p ev = (case ev of
     Submit h env \<Rightarrow> act_bind (submit dbg p h env) (\<lambda>_. act_return ())
   | Save h schedule_hash \<Rightarrow> save_snapshot p h schedule_hash
   | Recover hs \<Rightarrow> act_bind (recover dbg p hs) (\<lambda>_. act_return ()))"

fun kernel_run :: "bool \<Rightarrow> ('s, 'l, 'j) ports \<Rightarrow> kernel_event list \<Rightarrow> ('s, 'l) kernel \<Rightarrow>
    (runtime_error, unit) outcome list \<times> ('s, 'l) kernel" where
  "kernel_run dbg p [] k = ([], k)"
| "kernel_run dbg p (ev # evs) k =
     (let (out, k1) = event_action dbg p ev k; (outs, k2) = kernel_run dbg p evs k1 in (out # outs, k2))"

text \<open>The commands of the events can be replayed on the hosts of the recoveries.\<close>

definition replays :: "kernel_event list \<Rightarrow> bool" where
  "replays evs \<longleftrightarrow> (\<forall>h env. Submit h env \<in> set evs \<longrightarrow> \<not> lease_command (command env) \<and>
     (\<forall>hs q. Recover hs \<in> set evs \<longrightarrow> agrees h (hs q) (command env)))"

definition requests :: "kernel_event list \<Rightarrow> request set" where
  "requests evs = {(h, env). Submit h env \<in> set evs}"

lemma requests_append: "requests (evs @ evs') = requests evs \<union> requests evs'"
  by (auto simp: requests_def)

lemma replays_prefix: "replays (evs @ evs') \<Longrightarrow> replays evs"
  by (auto simp: replays_def)

lemma replays_entry:
  assumes "replays (evs @ [Recover hs])" "explains dbg sd (requests evs) es w m" "en \<in> set es"
  shows "replayable hs en"
  using assms unfolding explains_def replays_def requests_def replayable_def by fastforce

context journal begin

text \<open>What holds of a kernel after the events \<open>evs\<close>, which created at most \<open>n\<close> entities.\<close>

definition good :: "bool \<Rightarrow> ('s, 'l, 'j) ports \<Rightarrow> kernel_event list \<Rightarrow> nat \<Rightarrow> ('s, 'l) kernel \<Rightarrow> bool" where
  "good dbg p evs n k \<longleftrightarrow> inv (k_store k) \<and> kernel_inv (k_world k) \<and> next_id (k_world k) \<le> n + 1 \<and>
     (case k_snapshot k of None \<Rightarrow> True | Some s \<Rightarrow> snapshot_verify p s) \<and>
     (\<exists>es. explains dbg (serde_json p) (requests evs) es (k_world k) (view (k_store k)))"

text \<open>What an event keeps: the objects of the world, and the commands that are complete.\<close>

definition grows :: "nat \<Rightarrow> ('s, 'l) kernel \<Rightarrow> ('s, 'l) kernel \<Rightarrow> bool" where
  "grows n k k' \<longleftrightarrow> kernel_step n (k_world k) (k_world k') \<and>
     (\<forall>key q j rj ep. view (k_store k) key = Some (Completed q j rj ep) \<longrightarrow>
        view (k_store k') key = Some (Completed q j rj ep))"

lemma event_good:
  assumes sp: "store_port p = ops" "serde_ok (serde_json p)" "lease_total (lease_port p)"
    and good: "good dbg p evs n k" and room: "n + 3 \<le> 2 ^ 32" and rep: "replays (evs @ [ev])"
  shows "\<exists>out k'. event_action dbg p ev k = (out, k') \<and> out \<noteq> Panic \<and> good dbg p (evs @ [ev]) (n + 2) k' \<and>
    grows 2 k k'"
proof -
  have k: "inv (k_store k)" "kernel_inv (k_world k)" "next_id (k_world k) \<le> n + 1"
      "case k_snapshot k of None \<Rightarrow> True | Some s \<Rightarrow> snapshot_verify p s"
    using good by (simp_all add: good_def)
  obtain es where es: "explains dbg (serde_json p) (requests evs) es (k_world k) (view (k_store k))"
    using good unfolding good_def by blast
  show ?thesis
  proof (cases ev)
    case (Submit h env)
    have w: "next_id (k_world k) + 2 \<le> 2 ^ 32" using k(3) room by simp
    obtain out k' where k': "submit dbg p h env k = (out, k')" "inv (k_store k')" "k_snapshot k' = k_snapshot k"
        "submit_step dbg (serde_json p) h env (k_world k) (view (k_store k)) out (k_world k') (view (k_store k'))"
      using submit_refines[OF sp k(1,2) w] by blast
    have st: "kernel_step 2 (k_world k) (k_world k') \<and> out \<noteq> Panic" by (rule step_world[OF k'(4) k(2) w])
    have rq: "requests (evs @ [ev]) = insert (h, env) (requests evs)" by (auto simp: requests_def Submit)
    obtain es' where "explains dbg (serde_json p) (requests (evs @ [ev])) es' (k_world k') (view (k_store k'))"
      unfolding rq using step_explains[OF k'(4) es sp(2)] by blast
    then have "good dbg p (evs @ [ev]) (n + 2) k'" "grows 2 k k'"
      using k' k(3,4) st step_keeps[OF k'(4)] by (auto simp: good_def grows_def kernel_step_def)
    then show ?thesis using k'(1) st
      by (cases out) (auto simp: event_action_def Submit act_bind_def act_return_def)
  next
    case (Save h hash)
    have "requests (evs @ [ev]) = requests evs" by (auto simp: requests_def Save)
    then show ?thesis using k es
      by (auto simp: event_action_def Save save_snapshot_def good_def grows_def capture_world_snapshot_def Let_def
          snapshot_verify_def kernel_step_refl)
  next
    case (Recover hs)
    have rq: "requests (evs @ [ev]) = requests evs" by (auto simp: requests_def Recover)
    have "replayable hs en" if "en \<in> set es" for en
      using replays_entry[OF _ es that] rep by (simp add: Recover)
    then have ok: "\<forall>en \<in> set es. lease_command (command (en_env en)) \<or> replayable hs en"
      and nl: "\<not> (\<exists>en \<in> set es. lease_command (command (en_env en)))" by (auto simp: replayable_def)
    obtain r k' where k': "recover dbg p hs k = (Ok r, k')" "inv (k_store k')" "k_world k' = k_world k"
        "view (k_store k') = recovered_journal (view (k_store k))" "k_snapshot k' = k_snapshot k"
      using recover_spec[OF sp(1) k(1) es k(4) ok] nl by auto
    have "explains dbg (serde_json p) (requests evs) es (k_world k) (recovered_journal (view (k_store k)))"
      using es by (simp add: explains_def recovered_completed)
    then have "good dbg p (evs @ [ev]) (n + 2) k'" using k' k by (auto simp: good_def rq)
    moreover have "grows 2 k k'" using k' k(2) by (simp add: grows_def kernel_step_refl recovered_journal_def)
    ultimately show ?thesis using k'(1) by (simp add: event_action_def Recover act_bind_def act_return_def)
  qed
qed

lemma run_good:
  assumes sp: "store_port p = ops" "serde_ok (serde_json p)" "lease_total (lease_port p)"
    and "good dbg p evs0 n k" "n + 2 * length evs + 1 \<le> 2 ^ 32" "replays (evs0 @ evs)"
  shows "\<exists>outs k'. kernel_run dbg p evs k = (outs, k') \<and> Panic \<notin> set outs \<and>
    good dbg p (evs0 @ evs) (n + 2 * length evs) k' \<and> grows (2 * length evs) k k'"
  using assms(4-6)
proof (induction evs arbitrary: evs0 n k)
  case Nil
  then show ?case by (simp add: grows_def good_def kernel_step_refl)
next
  case (Cons ev evs)
  have rep: "replays (evs0 @ [ev])" using replays_prefix[of "evs0 @ [ev]" evs] Cons.prems(3) by simp
  have room: "n + 3 \<le> 2 ^ 32" using Cons.prems(2) by simp
  obtain out k1 where k1: "event_action dbg p ev k = (out, k1)" "out \<noteq> Panic" "good dbg p (evs0 @ [ev]) (n + 2) k1"
      "grows 2 k k1" using event_good[OF sp Cons.prems(1) room rep] by blast
  have "n + 2 + 2 * length evs + 1 \<le> 2 ^ 32" "replays ((evs0 @ [ev]) @ evs)" using Cons.prems by simp_all
  then obtain outs k2 where k2: "kernel_run dbg p evs k1 = (outs, k2)" "Panic \<notin> set outs"
      "good dbg p ((evs0 @ [ev]) @ evs) (n + 2 + 2 * length evs) k2" "grows (2 * length evs) k1 k2"
    using Cons.IH[OF k1(3)] by blast
  have "grows (2 + 2 * length evs) k k2"
    using k1(4) k2(4) kernel_step_trans[of 2 "k_world k" "k_world k1" "2 * length evs" "k_world k2"]
    by (auto simp: grows_def)
  then show ?case using k1(1,2) k2(1-3) by auto
qed

end

subsection \<open>Properties\<close>

lemma good_new: "mem.good dbg (mem_ports sd chk) [] 0 kernel_new"
proof -
  have "\<exists>es. explains dbg sd (requests []) es world_new Map.empty" using explains_new by blast
  moreover have "next_id (world_new :: kernel_world) = 1" by (simp add: world_new_def)
  ultimately show ?thesis using kernel_inv_new by (simp add: mem.good_def)
qed

lemma run_new:
  assumes "serde_ok sd" "2 * length evs < 2 ^ 32" "replays evs"
  obtains outs k where "kernel_run dbg (mem_ports sd chk) evs kernel_new = (outs, k)" "Panic \<notin> set outs"
    "mem.good dbg (mem_ports sd chk) evs (2 * length evs) k" "mem.grows (2 * length evs) kernel_new k"
proof -
  have "0 + 2 * length evs + 1 \<le> 2 ^ 32" "replays ([] @ evs)" using assms(2,3) by simp_all
  from mem.run_good[OF _ _ _ good_new[of dbg sd chk] this] show ?thesis using assms(1) that by auto
qed

definition sample_request :: "nat \<Rightarrow> command \<Rightarrow> kernel_event" where
  "sample_request key cmd = Submit sample_host (envelope_new 0 key cmd)"

text \<open>C4: recovery rebuilds the world. After any sequence of submitted commands other than the lease
  commands, of snapshots and of recoveries, in which no event panicked, a recovery succeeds and gives
  exactly the world there was. It needs that the files that were registered and the clock of compilation
  jobs read the same. Completed commands stay completed, and those in flight are open again.\<close>

theorem recovery_rebuilds_world:
  assumes "serde_ok sd" "2 * length evs < 2 ^ 32" "replays (evs @ [Recover hs])"
  shows "let (outs, k) = kernel_run dbg (mem_ports sd chk) evs kernel_new in Panic \<notin> set outs \<and>
    (\<exists>rep k'. recover dbg (mem_ports sd chk) hs k = (Ok rep, k') \<and> k_world k' = k_world k \<and>
      mem_view (k_store k') = recovered_journal (mem_view (k_store k)))"
proof -
  obtain outs k where k: "kernel_run dbg (mem_ports sd chk) evs kernel_new = (outs, k)" "Panic \<notin> set outs"
      "mem.good dbg (mem_ports sd chk) evs (2 * length evs) k"
    using run_new[OF assms(1,2) replays_prefix[OF assms(3)], of dbg chk] by metis
  obtain es where es: "explains dbg sd (requests evs) es (k_world k) (mem_view (k_store k))"
    using k(3) unfolding mem.good_def by auto
  have "replayable hs en" if "en \<in> set es" for en using replays_entry[OF assms(3) es that] .
  then have rep: "\<forall>en \<in> set es. lease_command (command (en_env en)) \<or> replayable hs en"
    and nl: "\<not> (\<exists>en \<in> set es. lease_command (command (en_env en)))" by (auto simp: replayable_def)
  have good: "mem_inv (k_store k)" "case k_snapshot k of None \<Rightarrow> True | Some s \<Rightarrow> snapshot_verify (mem_ports sd chk) s"
    using k(3) by (simp_all add: mem.good_def)
  obtain rep k' where "recover dbg (mem_ports sd chk) hs k = (Ok rep, k')" "k_world k' = k_world k"
      "mem_view (k_store k') = recovered_journal (mem_view (k_store k))"
    using mem.recover_spec[of "mem_ports sd chk" k dbg "requests evs" es hs] good rep es nl by auto
  then show ?thesis using k(1,2) by simp
qed

theorem recovery_rebuilds_world_witness:
  "let (outs, k) = kernel_run True (mem_ports sample_serde (\<lambda>_. []))
     [sample_request 1 (SpawnAgent 0 [] 1), sample_request 2 (CancelAgent 9), Save sample_host [],
      sample_request 1 (SpawnAgent 0 [] 1), Recover (\<lambda>_. sample_host),
      sample_request 2 (CreateModalityWork ModImage ''m'' ''p'' [])] kernel_new in Panic \<notin> set outs \<and>
    (\<exists>rep k'. recover True (mem_ports sample_serde (\<lambda>_. [])) (\<lambda>_. sample_host) k = (Ok rep, k') \<and>
      k_world k' = k_world k \<and> mem_view (k_store k') = recovered_journal (mem_view (k_store k)))"
  by (rule recovery_rebuilds_world[OF serde_ok_sample])
    (auto simp: replays_def sample_request_def envelope_new_def agrees_refl)



end
