(* ===== verification/Kernel_Hazards.thy ===== *)
theory Kernel_Hazards
  imports Kernel_History
begin

text \<open>
  What the kernel does where commands fail, leases are shared, epochs are expected and submissions
  interleave: the keys of failed commands, the leases of the in-memory coordinator, the replay of lease
  commands, and the replay of commands that were executed in another order than they were admitted.
\<close>

subsection \<open>Inference progress and epochs\<close>


lemma get_inference_work:
  assumes "created w e (work_components cmd) w'" "work_kind_of (cwc_kind cmd) = RunInference"
  shows "get_inference w' e = Some (from_typed_resource_claim (cwc_inference_hint cmd))"
  using assms by (simp add: created_def get_inference_def work_components_def Let_def rt_def)

text \<open>A kernel with one inference work unit.\<close>

lemma sample_kernel:
  assumes "serde_ok sd"
  obtains out outs k where
    "submit dbg (mem_ports sd chk) sample_host (envelope_new 0 1 (Lifecycle (LcCreateWork sample_work))) kernel_new = (out, k)"
    "kernel_run dbg (mem_ports sd chk) [sample_request 1 (Lifecycle (LcCreateWork sample_work))] kernel_new = (outs, k)"
    "mem_inv (k_store k)" "kernel_inv (k_world k)" "next_id (k_world k) = 2" "k_lease k = []" "mem_view (k_store k) 2 = None"
    "get_inference (k_world k) (Entity 1 0) = Some (from_typed_resource_claim (Some sample_hint))"
    "k_snapshot k = None"
proof -
  let ?cmd = "Lifecycle (LcCreateWork sample_work)"
  let ?env = "envelope_new 0 1 ?cmd"
  have n: "next_id (world_new :: kernel_world) = 1" by (simp add: world_new_def)
  then have room: "next_id (world_new :: kernel_world) < 2 ^ 32" by simp
  obtain r w where w: "execute_create_work dbg sample_work world_new = (Ok r, w)"
      "created world_new (Entity 1 0) (work_components sample_work) w"
    using runs_create_work[OF room, of dbg sample_work] kernel_inv_new n unfolding runs_def by auto
  have eff: "command_effect dbg sample_host (command ?env) (k_world kernel_new) = (Ok r, w)"
    using w(1) by (simp add: effect_plain execute_command_def execute_lifecycle_def)
  have facts: "store_port (mem_ports sd chk) = mem_ops" "serde_ok (serde_json (mem_ports sd chk))"
      "mem_inv (k_store kernel_new)" "open_key (mem_view (k_store kernel_new)) (idempotency_key ?env)"
      "\<not> lease_command (command ?env)" "fence ?env (k_world kernel_new)"
    using assms by (simp_all add: fence_def open_key_def)
  obtain out k where k: "submit dbg (mem_ports sd chk) sample_host ?env kernel_new = (Ok out, k)"
      "mem_inv (k_store k)" "k_world k = w" "k_lease k = []" "k_snapshot k = None" "mem_view (k_store k) 2 = None"
    using mem.submit_commits[OF facts eff] by auto
  have "work_kind_of (cwc_kind sample_work) = RunInference" by (simp add: sample_work_def work_kind_of_def) code_simp
  then show ?thesis
    using that[of "Ok out" k "[Ok ()]"] k w(2) get_inference_work[OF w(2)] n
    by (auto simp: created_def sample_request_def event_action_def act_bind_def act_return_def sample_work_def)
qed


text \<open>The epoch fence of the kernel cannot be passed with any epoch but 0. No command, snapshot or recovery
  advances the epoch of the kernel's world, so a command that expects another epoch is refused whenever
  it comes, and its key is left in flight: the corrected command is refused under that key as well.\<close>

theorem epoch_fence_inert:
  assumes "serde_ok sd" "2 * length evs + 2 < 2 ^ 32" "replays evs"
    and "expected_epoch env = Some ep" "ep \<noteq> 0" "\<not> lease_command (command env)"
    and "idempotency_key env' = idempotency_key env"
  shows "let P = mem_ports sd chk; (_, k) = kernel_run dbg P evs kernel_new; (out, k') = submit dbg P h env k in
    current_epoch (k_world k) = 0 \<and> (open_key (mem_view (k_store k)) (idempotency_key env) \<longrightarrow>
      out = Err (EpochMismatch ep 0) \<and> k_world k' = k_world k \<and>
      submit dbg P h' env' k' = (Err (IdempotencyConflict ''command is in flight by another caller''), k'))"
proof -
  let ?P = "mem_ports sd chk"
  have len: "2 * length evs < 2 ^ 32" using assms(2) by linarith
  obtain outs k where k: "kernel_run dbg ?P evs kernel_new = (outs, k)" "mem.good dbg ?P evs (2 * length evs) k"
      "mem.grows (2 * length evs) kernel_new k"
    using run_new[OF assms(1) len assms(3), of dbg chk] by metis
  have "current_epoch (world_new :: kernel_world) = 0" by (simp add: world_new_def current_epoch_def)
  then have ep: "current_epoch (k_world k) = 0" using k(3) by (simp add: mem.grows_def kernel_step_def)
  have w: "mem_inv (k_store k)" "kernel_inv (k_world k)" "next_id (k_world k) + 2 \<le> 2 ^ 32"
    using k(2) assms(2) by (auto simp: mem.good_def)
  obtain out k' where k': "submit dbg ?P h env k = (out, k')" "mem_inv (k_store k')"
      "submit_step dbg sd h env (k_world k) (mem_view (k_store k)) out (k_world k') (mem_view (k_store k'))"
    using mem.submit_refines[of ?P k dbg h env] assms(1) w by auto
  have refused: "out = Err (EpochMismatch ep 0) \<and> k_world k' = k_world k \<and>
      submit dbg ?P h' env' k' = (Err (IdempotencyConflict ''command is in flight by another caller''), k')"
    if open_: "open_key (mem_view (k_store k)) (idempotency_key env)"
  proof -
    have "out = Err (EpochMismatch ep 0) \<and> k_world k' = k_world k \<and>
        (\<exists>q j. mem_view (k_store k') (idempotency_key env) = Some (InFlight q j))"
      using k'(3) by cases (use open_ assms(4-6) ep in \<open>auto simp: open_key_def fence_def\<close>)
    then show ?thesis using mem.submit_conflict[of ?P k' env'] assms(1,7) k'(2) by auto
  qed
  show ?thesis using k(1) k'(1) ep refused by simp
qed

theorem epoch_fence_inert_witness:
  "let P = mem_ports sample_serde (\<lambda>_. []); env = (envelope_new 0 3 (SpawnAgent 0 [] 1))\<lparr>expected_epoch := Some 1\<rparr>;
     (out, k') = submit True P sample_host env kernel_new in
   out = Err (EpochMismatch 1 0) \<and> submit True P sample_host (envelope_new 0 3 (SpawnAgent 0 [] 1)) k' =
     (Err (IdempotencyConflict ''command is in flight by another caller''), k')"
  using epoch_fence_inert[OF serde_ok_sample, where evs = "[]"
      and env = "(envelope_new 0 3 (SpawnAgent 0 [] 1))\<lparr>expected_epoch := Some 1\<rparr>" and ep = 1
      and env' = "envelope_new 0 3 (SpawnAgent 0 [] 1)" and dbg = True and chk = "\<lambda>_. []" and h = sample_host and h' = sample_host]
  by (simp add: Let_def replays_def envelope_new_def open_key_def split: prod.splits)

subsection \<open>Failed commands\<close>

text \<open>The key of a command that failed is lost until a recovery. A submission under an open key that returns
  an error leaves the world as it was and the key in flight, and whatever is submitted afterwards, every
  further submission under the key is refused as a conflict and changes nothing.\<close>

theorem failed_key_stuck:
  assumes "serde_ok sd" "mem_inv (k_store k)" "kernel_inv (k_world k)" "next_id (k_world k) + 2 + 2 * length rs \<le> 2 ^ 32"
    and "open_key (mem_view (k_store k)) (idempotency_key env)" "idempotency_key env' = idempotency_key env"
    and "submit dbg (mem_ports sd chk) h env k = (Err e, k1)"
  shows "k_world k1 = k_world k \<and> (let (_, k2) = submit_all dbg (mem_ports sd chk) rs k1 in
    submit dbg (mem_ports sd chk) h' env' k2 =
      (Err (IdempotencyConflict ''command is in flight by another caller''), k2))"
proof -
  let ?P = "mem_ports sd chk"
  have w: "next_id (k_world k) + 2 \<le> 2 ^ 32" using assms(4) by simp
  have k1: "mem_inv (k_store k1)"
      "submit_step dbg sd h env (k_world k) (mem_view (k_store k)) (Err e) (k_world k1) (mem_view (k_store k1))"
    using mem.submit_refines[of ?P k dbg h env] assms(1-3,7) w by auto
  obtain q j where stuck: "k_world k1 = k_world k" "mem_view (k_store k1) (idempotency_key env) = Some (InFlight q j)"
    using step_err[OF k1(2)] assms(5) by blast
  have "kernel_inv (k_world k1)" "next_id (k_world k1) + 2 * length rs \<le> 2 ^ 32" using assms(3,4) stuck(1) by simp_all
  then obtain outs k2 where k2: "submit_all dbg ?P rs k1 = (outs, k2)" "mem_inv (k_store k2)"
      "history dbg sd (k_world k1) (mem_view (k_store k1)) rs outs (k_world k2) (mem_view (k_store k2))"
    using mem.submit_all_refines[of ?P k1 rs dbg] assms(1) k1(1) by auto
  have "mem_view (k_store k2) (idempotency_key env') = Some (InFlight q j)"
    using history_keeps[OF k2(3) stuck(2)] assms(6) by simp
  then show ?thesis using mem.submit_conflict[of ?P k2 env'] assms(1) k2(1,2) stuck(1) by simp
qed

lemma sample_failure:
  "\<exists>e k1. submit True (mem_ports sample_serde chk) sample_host (envelope_new 0 1 (CancelAgent 9)) kernel_new = (Err e, k1)"
proof -
  let ?P = "mem_ports sample_serde chk" and ?env = "envelope_new 0 1 (CancelAgent 9)"
  have eff: "command_effect True sample_host (CancelAgent 9) world_new = (Err (EntityError ''cancel failed''), world_new)"
    using attach_dead[of world_new "Entity 9 0"]
    by (simp add: effect_plain execute_command_def execute_cancel_txn_def act_bind_def kernel_alive[OF kernel_inv_new])
      (simp add: world_new_def)
  have "next_id (k_world kernel_new) + 2 \<le> 2 ^ 32" by (simp add: world_new_def)
  then obtain out k1 where k1: "submit True ?P sample_host ?env kernel_new = (out, k1)"
      "submit_step True sample_serde sample_host ?env world_new Map.empty out (k_world k1) (mem_view (k_store k1))"
    using mem.submit_refines[of ?P kernel_new True sample_host ?env] serde_ok_sample kernel_inv_new by auto
  have "\<exists>e. out = Err e" using k1(2) by cases (use eff in auto)
  then show ?thesis using k1(1) by blast
qed

theorem failed_key_stuck_witness:
  "\<exists>e k1. let P = mem_ports sample_serde (\<lambda>_. []) in
    submit True P sample_host (envelope_new 0 1 (CancelAgent 9)) kernel_new = (Err e, k1) \<and>
    (let (_, k2) = submit_all True P [(sample_host, envelope_new 0 2 (SpawnAgent 0 [] 1))] k1 in
     submit True P sample_host (envelope_new 0 1 (CancelAgent 1)) k2 =
       (Err (IdempotencyConflict ''command is in flight by another caller''), k2))"
proof -
  let ?P = "mem_ports sample_serde (\<lambda>_. [])" and ?rs = "[(sample_host, envelope_new 0 2 (SpawnAgent 0 [] 1))]"
  obtain e k1 where k1: "submit True ?P sample_host (envelope_new 0 1 (CancelAgent 9)) kernel_new = (Err e, k1)"
    using sample_failure by blast
  have "next_id (k_world kernel_new) + 2 + 2 * length ?rs \<le> 2 ^ 32" by (simp add: world_new_def)
  from failed_key_stuck[OF serde_ok_sample _ _ this _ _ k1, of "envelope_new 0 1 (CancelAgent 1)" sample_host]
  show ?thesis using k1 kernel_inv_new by (auto simp: Let_def open_key_def simp del: submit_all.simps)
qed

subsection \<open>Leases\<close>

definition leased :: "string \<Rightarrow> ('s, mem_leases) kernel \<Rightarrow> bool" where
  "leased key k \<longleftrightarrow> key \<in> set (k_lease k)"

lemma keeps_leased [keeps]: "keeps (leased key) (on_world m)" "keeps (leased key) (on_store s)"
  by (simp_all add: keeps_def leased_def on_world_def on_store_def split: prod.split)

lemma keeps_acquire [keeps]: "keeps (leased key) (on_lease (mem_acquire key' ttl))"
  by (simp add: keeps_def leased_def on_lease_def mem_acquire_def)

lemma keeps_release: "key' \<noteq> key \<Longrightarrow> keeps (leased key) (on_lease (mem_release key'))"
  by (simp add: keeps_def leased_def on_lease_def mem_release_def)

lemma mem_lease_ops_simps [simp]: "lc_acquire mem_lease_ops = mem_acquire" "lc_release mem_lease_ops = mem_release"
  by (simp_all add: mem_lease_ops_def)

lemma keeps_finish [keeps]: "keeps (leased key) (submit_finish p q res)"
  unfolding submit_finish_def by (cases res) (auto intro!: keeps split: sum.split)

lemma keeps_locked [keeps]: "keeps (leased key) (submit_locked dbg h env)"
  unfolding submit_locked_def by (auto simp: Let_def intro!: keeps split: sum.split)

lemma keeps_admit [keeps]: "keeps (leased key) (submit_admit p env)"
  unfolding submit_admit_def admission_outcome_def
  by (auto intro!: keeps split: option.split admission.split) (simp add: keeps_def leased_def)

lemma keeps_submit:
  assumes "\<And>e. command env = Lifecycle (LcReleaseWorkLease e) \<Longrightarrow> resource_key e \<noteq> key"
  shows "keeps (leased key) (submit dbg (mem_ports sd chk) h env)"
proof -
  have "keeps (leased key) (submit_admitted dbg (mem_ports sd chk) h env q)" for q
  proof (cases "command env" rule: lease_command_cases)
    case (1 e g t)
    then show ?thesis by (auto simp: submit_admitted_def submit_acquire_def commit_acquire_def Let_def intro!: keeps)
  next
    case (2 e)
    then show ?thesis
      by (auto simp: submit_admitted_def submit_release_def commit_release_def Let_def intro!: keeps keeps_release assms)
  next
    case 3
    then show ?thesis by (auto simp: submit_admitted_plain intro!: keeps)
  qed
  then show ?thesis unfolding submit_def by (auto intro!: keeps split: sum.split)
qed

lemma bind_establishes: "P (snd (m s)) \<Longrightarrow> (\<And>a. keeps P (f a)) \<Longrightarrow> P (snd (act_bind m f s))"
  unfolding keeps_def act_bind_def by (simp split: prod.split outcome.split) (metis snd_conv)

lemma keeps_submit_all:
  assumes "leased key k" "\<forall>(h, env) \<in> set rs. \<forall>e. command env = Lifecycle (LcReleaseWorkLease e) \<longrightarrow> resource_key e \<noteq> key"
  shows "leased key (snd (submit_all dbg (mem_ports sd chk) rs k))"
  using assms
proof (induction rs arbitrary: k)
  case (Cons r rs)
  obtain h env where r: "r = (h, env)" by (cases r)
  have "leased key (snd (submit dbg (mem_ports sd chk) h env k))"
    using keeps_submit[of env key dbg sd chk h] Cons.prems unfolding keeps_def by (simp add: r)
  then show ?case using Cons.IH Cons.prems(2) by (simp add: r Let_def split: prod.split) (metis snd_conv)
qed simp

lemma mem_submit_admit:
  assumes "serde_ok sd" "mem_inv (k_store k)" "open_key (mem_view (k_store k)) (idempotency_key env)"
  shows "\<exists>q j s'. enc_envelope sd env = Some j \<and> mem_inv s' \<and> fresh_seq (mem_view (k_store k)) q \<and>
    mem_view s' = (mem_view (k_store k))(idempotency_key env \<mapsto> InFlight q j) \<and>
    submit_admit (mem_ports sd chk) env k = (Ok (Inr q), k\<lparr>k_store := s', k_sequence := k_sequence k + 1\<rparr>)"
  by (rule mem.submit_open[of "mem_ports sd chk" k env]) (use assms in auto)

lemma mem_submit_open:
  assumes "serde_ok sd" "mem_inv (k_store k)" "open_key (mem_view (k_store k)) (idempotency_key env)"
  shows "\<exists>q s'. submit dbg (mem_ports sd chk) h env k =
    submit_admitted dbg (mem_ports sd chk) h env q (k\<lparr>k_store := s', k_sequence := k_sequence k + 1\<rparr>)"
  using mem_submit_admit[OF assms, of chk] by (fastforce simp: submit_def act_bind_run(1))

lemma acquire_leased:
  assumes "serde_ok sd" "mem_inv (k_store k)" "open_key (mem_view (k_store k)) (idempotency_key env)"
    and "command env = Lifecycle (LcAcquireWorkLease e gen ttl)"
  shows "leased (resource_key e) (snd (submit dbg (mem_ports sd chk) h env k))"
proof -
  obtain q s' where run: "submit dbg (mem_ports sd chk) h env k =
      submit_admitted dbg (mem_ports sd chk) h env q (k\<lparr>k_store := s', k_sequence := k_sequence k + 1\<rparr>)"
    using mem_submit_open[OF assms(1-3), of dbg chk h] by blast
  have first: "leased (resource_key e) (snd (act_map_err g (on_lease (mem_acquire (resource_key e) ttl)) k'))" for k' g
    by (simp add: leased_def act_map_err_def on_lease_def mem_acquire_def)
  have rest: "keeps (leased (resource_key e)) (commit_acquire p q e gen)" for p :: "('x mem_store, mem_leases, 'x) ports"
    unfolding commit_acquire_def Let_def by (intro keeps)
  show ?thesis unfolding run submit_admitted_def submit_acquire_def
    by (simp add: assms(4), rule bind_establishes[where P = "leased (resource_key e)", OF first])
      (simp add: keeps rest)
qed

lemma acquire_refused:
  assumes "serde_ok sd" "mem_inv (k_store k)" "open_key (mem_view (k_store k)) (idempotency_key env)"
    and "command env = Lifecycle (LcAcquireWorkLease e gen ttl)" "leased (resource_key e) k"
  shows "\<exists>k'. submit dbg (mem_ports sd chk) h env k = (Err (LeaseError ''failed to acquire lease for work-entity''), k') \<and>
    k_world k' = k_world k"
proof -
  obtain q s' where "submit dbg (mem_ports sd chk) h env k =
      submit_admitted dbg (mem_ports sd chk) h env q (k\<lparr>k_store := s', k_sequence := k_sequence k + 1\<rparr>)"
    using mem_submit_open[OF assms(1-3), of dbg chk h] by blast
  then show ?thesis using assms(4,5)
    by (simp add: submit_admitted_def submit_acquire_def act_bind_def act_map_err_def on_lease_def mem_acquire_def
        leased_def act_fail_def)
qed

text \<open>C34: A lease is exclusive until it is released. After a submission that acquires the lease of a work entity,
  whatever other commands follow, every new acquisition for that entity is refused with a lease error and
  leaves the world as it is, unless a release for the entity came between. This is so also when the first
  acquisition failed because the entity does not exist: its lease is taken and stays taken.\<close>

theorem lease_exclusive:
  assumes "serde_ok sd" "mem_inv (k_store k)" "kernel_inv (k_world k)" "next_id (k_world k) + 2 + 2 * length rs \<le> 2 ^ 32"
    and "open_key (mem_view (k_store k)) (idempotency_key env)"
    and "command env = Lifecycle (LcAcquireWorkLease e gen ttl)" "command env' = Lifecycle (LcAcquireWorkLease e gen' ttl')"
    and "\<forall>(h, env) \<in> set rs. \<forall>e'. command env = Lifecycle (LcReleaseWorkLease e') \<longrightarrow> resource_key e' \<noteq> resource_key e"
  shows "let P = mem_ports sd chk; (_, k1) = submit dbg P h env k; (_, k2) = submit_all dbg P rs k1 in
    open_key (mem_view (k_store k2)) (idempotency_key env') \<longrightarrow>
      (\<exists>k'. submit dbg P h' env' k2 = (Err (LeaseError ''failed to acquire lease for work-entity''), k') \<and>
        k_world k' = k_world k2)"
proof -
  let ?P = "mem_ports sd chk"
  have w: "next_id (k_world k) + 2 \<le> 2 ^ 32" using assms(4) by simp
  obtain out k1 where k1: "submit dbg ?P h env k = (out, k1)" "mem_inv (k_store k1)"
      "submit_step dbg sd h env (k_world k) (mem_view (k_store k)) out (k_world k1) (mem_view (k_store k1))"
    using mem.submit_refines[of ?P k dbg h env] assms(1-3) w by auto
  have "kernel_step 2 (k_world k) (k_world k1)" using step_world[OF k1(3) assms(3) w] by simp
  then have "kernel_inv (k_world k1)" "next_id (k_world k1) + 2 * length rs \<le> 2 ^ 32"
    using assms(4) by (auto simp: kernel_step_def)
  then obtain outs k2 where k2: "submit_all dbg ?P rs k1 = (outs, k2)" "mem_inv (k_store k2)"
    using mem.submit_all_refines[of ?P k1 rs dbg] assms(1) k1(2) by auto
  have "leased (resource_key e) k1" using acquire_leased[OF assms(1,2,5,6), of dbg chk h] k1(1) by simp
  then have "leased (resource_key e) k2" using keeps_submit_all[OF _ assms(8), of k1 dbg sd chk] k2(1) by simp
  then show ?thesis using acquire_refused[OF assms(1) k2(2) _ assms(7), of dbg chk h'] k1(1) k2(1) by simp
qed

theorem lease_exclusive_witness:
  "let P = mem_ports sample_serde (\<lambda>_. []);
     (_, k1) = submit True P sample_host (envelope_new 0 1 (Lifecycle (LcAcquireWorkLease (Entity 7 0) 1 5))) kernel_new;
     (_, k2) = submit_all True P [] k1 in
   open_key (mem_view (k_store k2)) 2 \<longrightarrow> (\<exists>k'. submit True P sample_host
       (envelope_new 0 2 (Lifecycle (LcAcquireWorkLease (Entity 7 0) 2 5))) k2 =
       (Err (LeaseError ''failed to acquire lease for work-entity''), k') \<and> k_world k' = k_world k2)"
proof -
  have "next_id (k_world kernel_new) + 2 + 2 * length ([] :: request list) \<le> 2 ^ 32" by (simp add: world_new_def)
  from lease_exclusive[OF serde_ok_sample _ _ this, where e = "Entity 7 0" and gen = 1 and gen' = 2 and ttl = 5 and ttl' = 5
      and env = "envelope_new 0 1 (Lifecycle (LcAcquireWorkLease (Entity 7 0) 1 5))"
      and env' = "envelope_new 0 2 (Lifecycle (LcAcquireWorkLease (Entity 7 0) 2 5))" and dbg = True
      and chk = "\<lambda>_. []" and h = sample_host and h' = sample_host]
  show ?thesis by (simp add: kernel_inv_new open_key_def)
qed

lemma acquire_commits:
  assumes "serde_ok sd" "mem_inv (k_store k)" "open_key (mem_view (k_store k)) (idempotency_key env)"
    and cmd: "command env = Lifecycle (LcAcquireWorkLease e gen ttl)" and free: "\<not> leased (resource_key e) k"
    and w: "kernel_inv (k_world k)" "is_alive (k_world k) e" "next_id (k_world k) \<le> 2 ^ 32"
  shows "\<exists>q j rj k'. submit dbg (mem_ports sd chk) h env k = (Ok \<lparr>co_sequence = q,
      co_result = LifecycleDone (LrLeaseAcquired e gen (resource_key e)), co_world_epoch = current_epoch (k_world k)\<rparr>, k') \<and>
    leased (resource_key e) k' \<and> get_work_state (k_world k') e = Some (WLeased 1) \<and> dec_envelope sd j = Some env \<and>
    mem_view (k_store k') = (mem_view (k_store k))(idempotency_key env \<mapsto>
      Completed q j rj (current_epoch (k_world k)))"
proof -
  let ?P = "mem_ports sd chk"
  obtain q j s' where s': "enc_envelope sd env = Some j" "mem_inv s'" "mem_view s' =
        (mem_view (k_store k))(idempotency_key env \<mapsto> InFlight q j)" "submit dbg ?P h env k =
        submit_admitted dbg ?P h env q (k\<lparr>k_store := s', k_sequence := k_sequence k + 1\<rparr>)"
    by (rule mem.submit_open[of ?P k env dbg h]) (use assms(1-3) in auto)
  obtain w' where w': "attach dbg (EntityError ''lease state transition'') e (VWorkState (WLeased 1)) (k_world k) = (Ok (), w')"
      "current_epoch w' = current_epoch (k_world k)"
      "\<And>t x. get_component w' t x = (if t = kernel_type (VWorkState (WLeased 1)) \<and> x = e
        then Some (VWorkState (WLeased 1)) else get_component (k_world k) t x)"
    by (rule attach_alive[OF w, of dbg _ "VWorkState (WLeased 1)"]) blast
  let ?k = "k\<lparr>k_store := s', k_sequence := k_sequence k + 1, k_lease := resource_key e # k_lease k, k_world := w'\<rparr>"
  have key: "mem_view (k_store ?k) (idempotency_key env) = Some (InFlight q j)" using s'(3) by simp
  obtain s2 where s2: "commit_acquire ?P q e gen ?k = (Ok \<lparr>co_sequence = q, co_result = LifecycleDone (LrLeaseAcquired e gen
        (resource_key e)), co_world_epoch = current_epoch w'\<rparr>, ?k\<lparr>k_store := s2\<rparr>)"
      "mem_view s2 = (mem_view s')(idempotency_key env \<mapsto> Completed q j
        (result_json ?P (LifecycleDone (LrLeaseAcquired e gen (resource_key e)))) (current_epoch w'))"
    using mem.commit_ok(1)[OF _ _ key, of ?P e gen] s'(2) by auto
  have run: "submit dbg ?P h env k = (Ok \<lparr>co_sequence = q, co_result = LifecycleDone (LrLeaseAcquired e gen
      (resource_key e)), co_world_epoch = current_epoch (k_world k)\<rparr>, ?k\<lparr>k_store := s2\<rparr>)"
    using s'(4) s2(1) w'(1,2) free cmd
    by (simp add: submit_admitted_def submit_acquire_def act_bind_def[of "act_map_err _ _"] act_map_err_def on_lease_def
        mem_acquire_def leased_def act_bind_def[of "on_world _"] on_world_def)
  have "leased (resource_key e) (?k\<lparr>k_store := s2\<rparr>)" "get_work_state (k_world (?k\<lparr>k_store := s2\<rparr>)) e = Some (WLeased 1)"
      "mem_view (k_store (?k\<lparr>k_store := s2\<rparr>)) = (mem_view (k_store k))(idempotency_key env \<mapsto> Completed q j
        (result_json ?P (LifecycleDone (LrLeaseAcquired e gen (resource_key e)))) (current_epoch (k_world k)))"
    using w'(2,3) s2(2) s'(3) by (simp_all add: leased_def get_work_state_def)
  then show ?thesis using run serde_reads(1)[OF assms(1) s'(1)] by blast
qed

text \<open>A committed lease command cannot be recovered from. When the store of a kernel holds a completed
  \<open>AcquireWorkLease\<close> or \<open>ReleaseWorkLease\<close>, recovery panics: the replay passes it to \<open>execute_lifecycle\<close>,
  where these commands are \<open>unreachable!\<close>.\<close>

theorem lease_breaks_recovery:
  assumes "serde_ok sd" "2 * length rs < 2 ^ 32"
    and "\<forall>(h, env) \<in> set rs. lease_command (command env) \<or> (\<forall>q. agrees h (hs q) (command env))"
    and "submit_all dbg (mem_ports sd chk) rs kernel_new = (outs, k)"
    and "mem_view (k_store k) key = Some (Completed q j rj ep)" "dec_envelope sd j = Some env" "lease_command (command env)"
  shows "fst (recover dbg (mem_ports sd chk) hs k) = Panic"
proof -
  let ?P = "mem_ports sd chk"
  have room: "next_id (k_world kernel_new) + 2 * length rs \<le> 2 ^ 32" using assms(2) by (simp add: world_new_def)
  then have k: "mem_inv (k_store k)" "k_snapshot k = None"
      "history dbg sd world_new Map.empty rs outs (k_world k) (mem_view (k_store k))"
    using mem.submit_all_refines[of ?P kernel_new rs dbg] assms(1,4) kernel_inv_new by auto
  obtain es where es: "explains dbg sd (set rs) es (k_world k) (mem_view (k_store k))"
    using history_explains[OF k(3) explains_new assms(1), of "{}"] by auto
  have "is_completed (mem_view (k_store k)) \<lparr>cc_sequence = q, cc_idempotency_key = key, cc_envelope_json = j,
      cc_result_json = rj, cc_world_epoch = ep\<rparr>" using assms(5) by (simp add: is_completed_def)
  then obtain en where en: "en \<in> set es" "entry_command en = \<lparr>cc_sequence = q, cc_idempotency_key = key,
      cc_envelope_json = j, cc_result_json = rj, cc_world_epoch = ep\<rparr>" using es unfolding explains_def by (metis imageE)
  then have "en_json en = j" by (simp add: entry_command_def)
  then have lease: "\<exists>en \<in> set es. lease_command (command (en_env en))"
    using es en(1) assms(6,7) unfolding explains_def by auto
  have "\<forall>en \<in> set es. lease_command (command (en_env en)) \<or> replayable hs en"
    using es assms(3) unfolding explains_def replayable_def by blast
  then show ?thesis using mem.recover_spec[of ?P k dbg "set rs" es hs] k(1,2) es lease by auto
qed

theorem lease_breaks_recovery_witness:
  "\<exists>outs k. let P = mem_ports sample_serde (\<lambda>_. []) in
    submit_all True P [(sample_host, envelope_new 0 1 (Lifecycle (LcCreateWork sample_work))),
      (sample_host, envelope_new 0 2 (Lifecycle (LcAcquireWorkLease (Entity 1 0) 1 5)))] kernel_new = (outs, k) \<and>
    get_work_state (k_world k) (Entity 1 0) = Some (WLeased 1) \<and> fst (recover True P (\<lambda>_. sample_host) k) = Panic"
proof -
  let ?P = "mem_ports sample_serde (\<lambda>_. [])" and ?A = "envelope_new 0 2 (Lifecycle (LcAcquireWorkLease (Entity 1 0) 1 5))"
  let ?rs = "[(sample_host, envelope_new 0 1 (Lifecycle (LcCreateWork sample_work))), (sample_host, ?A)]"
  obtain o1 k1 where k1: "submit True ?P sample_host (envelope_new 0 1 (Lifecycle (LcCreateWork sample_work))) kernel_new = (o1, k1)"
      "mem_inv (k_store k1)" "kernel_inv (k_world k1)" "next_id (k_world k1) = 2" "k_lease k1 = []"
      "mem_view (k_store k1) 2 = None"
    using sample_kernel[OF serde_ok_sample, of True "\<lambda>_. []"] by metis
  have facts: "open_key (mem_view (k_store k1)) (idempotency_key ?A)"
      "command ?A = Lifecycle (LcAcquireWorkLease (Entity 1 0) 1 5)" "\<not> leased (resource_key (Entity 1 0)) k1"
      "is_alive (k_world k1) (Entity 1 0)" "next_id (k_world k1) \<le> 2 ^ 32"
    using k1 by (simp_all add: open_key_def leased_def kernel_alive)
  obtain out q j rj k2 where k2: "submit True ?P sample_host ?A k1 = (out, k2)" "dec_envelope sample_serde j = Some ?A"
      "get_work_state (k_world k2) (Entity 1 0) = Some (WLeased 1)" "mem_view (k_store k2) =
        (mem_view (k_store k1))(2 \<mapsto> Completed q j rj (current_epoch (k_world k1)))"
    using acquire_commits[OF serde_ok_sample k1(2) facts(1-3) k1(3) facts(4,5), of True "\<lambda>_. []" sample_host] by auto
  have run: "submit_all True ?P ?rs kernel_new = ([o1, out], k2)" using k1(1) k2(1) by simp
  have "fst (recover True ?P (\<lambda>_. sample_host) k2) = Panic"
    by (rule lease_breaks_recovery[OF serde_ok_sample _ _ run, of "\<lambda>_. sample_host" 2 q j rj "current_epoch (k_world k1)" ?A])
      (use k2(2,4) in \<open>simp_all add: agrees_refl\<close>)
  then show ?thesis using run k2(3) by (simp add: Let_def)
qed

subsection \<open>Interleaved submissions\<close>

lemma spawn_effect:
  assumes "kernel_inv w" "next_id w < 2 ^ 32"
  shows "\<exists>w'. execute_spawn dbg parent w = (Ok (next_id w), w') \<and> kernel_inv w' \<and> next_id w' = next_id w + 1 \<and>
    command_effect dbg h (SpawnAgent parent task limit) w = (Ok (Spawned (next_id w)), w')"
proof -
  obtain w' where "execute_spawn dbg parent w = (Ok (next_id w), w')" "created w (Entity (next_id w) 0) (agent_components parent) w'"
    using runs_spawn_agent[OF assms(2), of dbg parent] assms(1) unfolding runs_def by auto
  then show ?thesis
    by (simp add: created_def effect_plain execute_command_def act_bind_def act_return_def)
qed

lemma admit_two:
  fixes sd :: "'j serde" and chk
  assumes sd: "serde_ok sd" and keys: "idempotency_key A \<noteq> idempotency_key B"
  shows "\<exists>qa qb ja jb k1 k2. submit_admit (mem_ports sd chk) A kernel_new = (Ok (Inr qa), k1) \<and>
    submit_admit (mem_ports sd chk) B k1 = (Ok (Inr qb), k2) \<and> mem_inv (k_store k2) \<and> k_world k2 = world_new \<and>
    k_snapshot k2 = None \<and> qa < qb \<and> dec_envelope sd ja = Some A \<and> dec_envelope sd jb = Some B \<and>
    mem_view (k_store k2) = [idempotency_key A \<mapsto> InFlight qa ja, idempotency_key B \<mapsto> InFlight qb jb]"
proof -
  let ?P = "mem_ports sd chk" and ?k0 = "kernel_new :: ('j mem_store, mem_leases) kernel"
  have new: "mem_inv (k_store ?k0)" "open_key (mem_view (k_store ?k0)) (idempotency_key A)"
    by (simp_all add: open_key_def)
  obtain qa ja s1 where a: "enc_envelope sd A = Some ja" "mem_inv s1"
      "mem_view s1 = (mem_view (k_store ?k0))(idempotency_key A \<mapsto> InFlight qa ja)"
      "submit_admit ?P A ?k0 = (Ok (Inr qa), ?k0\<lparr>k_store := s1, k_sequence := k_sequence ?k0 + 1\<rparr>)"
    using mem_submit_admit[OF sd new, of chk] by blast
  let ?k1 = "?k0\<lparr>k_store := s1, k_sequence := k_sequence ?k0 + 1\<rparr>"
  have next_: "mem_inv (k_store ?k1)" "open_key (mem_view (k_store ?k1)) (idempotency_key B)"
    using a(2,3) keys by (simp_all add: open_key_def)
  obtain qb jb s2 where b: "enc_envelope sd B = Some jb" "mem_inv s2"
      "mem_view s2 = (mem_view (k_store ?k1))(idempotency_key B \<mapsto> InFlight qb jb)" "fresh_seq (mem_view (k_store ?k1)) qb"
      "submit_admit ?P B ?k1 = (Ok (Inr qb), ?k1\<lparr>k_store := s2, k_sequence := k_sequence ?k1 + 1\<rparr>)"
    using mem_submit_admit[OF sd next_, of chk] by blast
  have "qa < qb" using b(4)[unfolded fresh_seq_def, rule_format, of "idempotency_key A" "InFlight qa ja"] a(3) by simp
  moreover have "mem_view s2 = [idempotency_key A \<mapsto> InFlight qa ja, idempotency_key B \<mapsto> InFlight qb jb]"
    using a(3) b(3) by simp
  ultimately show ?thesis using a(4) b(2,5) serde_reads(1)[OF sd a(1)] serde_reads(1)[OF sd b(1)]
    by (intro exI[of _ qa] exI[of _ qb] exI[of _ ja] exI[of _ jb] exI[of _ ?k1]
      exI[of _ "?k1\<lparr>k_store := s2, k_sequence := k_sequence ?k1 + 1\<rparr>"]) simp
qed

lemma mem_commit:
  assumes "\<not> lease_command (command env)" "mem_inv (k_store k)" "expected_epoch env = None"
    and "mem_view (k_store k) (idempotency_key env) = Some (InFlight q j)"
    and "command_effect dbg h (command env) (k_world k) = (Ok r, w')"
  shows "\<exists>k'. submit_admitted dbg (mem_ports sd chk) h env q k =
      (Ok \<lparr>co_sequence = q, co_result = r, co_world_epoch = current_epoch w'\<rparr>, k') \<and>
    mem_inv (k_store k') \<and> k_world k' = w' \<and> k_snapshot k' = k_snapshot k \<and> mem_view (k_store k') =
      (mem_view (k_store k))(idempotency_key env \<mapsto> Completed q j (result_json (mem_ports sd chk) r) (current_epoch w'))"
  using mem.plain_commit[OF _ assms(1,2,4) _ assms(5), of "mem_ports sd chk"] assms(3) by (auto simp: fence_def)

lemma replay_stops:
  assumes "mem_inv (k_store k)" "k_snapshot k = None" "sorted_wrt (<) (map en_seq (en # es))"
    and "\<And>c. is_completed (mem_view (k_store k)) c \<longleftrightarrow> c \<in> entry_command ` set (en # es)"
    and "fst (apply_recovered_command dbg (mem_ports sd chk) (hs (en_seq en)) (entry_command en) (k\<lparr>k_world := world_new\<rparr>)) = Err err"
  shows "fst (recover dbg (mem_ports sd chk) hs k) = Err err"
proof -
  have snap: "case k_snapshot k of None \<Rightarrow> True | Some s \<Rightarrow> snapshot_verify (mem_ports sd chk) s" using assms(2) by simp
  obtain marks where run: "recover dbg (mem_ports sd chk) hs k =
      act_bind (replay_all dbg (mem_ports sd chk) hs (map entry_command (en # es)))
        (\<lambda>_. after_replay (mem_ports sd chk) k marks (map entry_command (en # es))) (k\<lparr>k_world := world_new\<rparr>)"
    by (rule mem.recover_run[OF mem_ports_simps(1) assms(1) snap assms(3) allI[OF assms(4)], of dbg hs])
  then show ?thesis using assms(5) by (simp add: replay_all_def act_bind_def split: prod.splits outcome.splits)
qed

text \<open>C40: the journal of interleaved submissions need not replay. Two agents are spawned: \<open>A\<close> is admitted
  before \<open>B\<close>, \<open>B\<close> takes the world lock before \<open>A\<close>, and both commit. Recovery executes \<open>A\<close> first, which
  now gets the entity that \<open>B\<close> has, and fails with an entity mismatch.\<close>

theorem interleaving_breaks_recovery:
  assumes "serde_ok sd" "idempotency_key A \<noteq> idempotency_key B" "expected_epoch A = None" "expected_epoch B = None"
    and cmds: "command A = SpawnAgent pa ta sa" "command B = SpawnAgent pb tb sb"
  shows "let P = mem_ports sd chk in \<exists>qa qb k1 k2 k3 k4 ra rb.
    submit_admit P A kernel_new = (Ok (Inr qa), k1) \<and> submit_admit P B k1 = (Ok (Inr qb), k2) \<and>
    submit_admitted dbg P h B qb k2 = (Ok rb, k3) \<and> submit_admitted dbg P h A qa k3 = (Ok ra, k4) \<and>
    fst (recover dbg P hs k4) = Err (JournalError ''replay entity ID mismatch'')"
proof -
  let ?P = "mem_ports sd chk"
  have nl: "\<not> lease_command (command A)" "\<not> lease_command (command B)" using cmds by simp_all
  have n: "next_id (world_new :: kernel_world) = 1" by (simp add: world_new_def)
  then have room: "next_id (world_new :: kernel_world) < 2 ^ 32" by simp
  obtain w1 where w1: "kernel_inv w1" "next_id w1 = 2" "command_effect dbg h (command B) world_new = (Ok (Spawned 1), w1)"
    using spawn_effect[OF kernel_inv_new room, of dbg pb h tb sb] unfolding n cmds one_add_one by blast
  then have room1: "next_id w1 < 2 ^ 32" by simp
  obtain w2 where w2: "command_effect dbg h (command A) w1 = (Ok (Spawned 2), w2)"
    using spawn_effect[OF w1(1) room1, of dbg pa h ta sa] unfolding w1(2) cmds by blast
  obtain w0 where w0: "execute_spawn dbg pa world_new = (Ok 1, w0)"
    using spawn_effect[OF kernel_inv_new room, of dbg pa h ta sa] unfolding n by blast
  obtain qa qb ja jb k1 k2 where adm: "submit_admit ?P A kernel_new = (Ok (Inr qa), k1)"
      "submit_admit ?P B k1 = (Ok (Inr qb), k2)" "mem_inv (k_store k2)" "k_world k2 = world_new" "k_snapshot k2 = None"
      "qa < qb" "dec_envelope sd ja = Some A"
      "mem_view (k_store k2) = [idempotency_key A \<mapsto> InFlight qa ja, idempotency_key B \<mapsto> InFlight qb jb]"
    using admit_two[OF assms(1,2), of chk] by blast
  obtain rb k3 where k3: "submit_admitted dbg ?P h B qb k2 = (Ok rb, k3)" "mem_inv (k_store k3)" "k_world k3 = w1"
      "k_snapshot k3 = None" "mem_view (k_store k3) = (mem_view (k_store k2))(idempotency_key B \<mapsto>
        Completed qb jb (result_json ?P (Spawned 1)) (current_epoch w1))"
    using mem_commit[of B k2 qb jb dbg h "Spawned 1" w1 sd chk] nl(2) assms(4) adm(3-5,8) w1(3) by auto
  obtain ra k4 where k4: "submit_admitted dbg ?P h A qa k3 = (Ok ra, k4)" "mem_inv (k_store k4)" "k_snapshot k4 = None"
      "mem_view (k_store k4) = (mem_view (k_store k3))(idempotency_key A \<mapsto>
        Completed qa ja (result_json ?P (Spawned 2)) (current_epoch w2))"
    using mem_commit[of A k3 qa ja dbg h "Spawned 2" w2 sd chk] nl(1) assms(2,3) adm(8) k3(2-5) w2 by auto
  let ?ea = "\<lparr>en_seq = qa, en_host = h, en_env = A, en_json = ja, en_result = Spawned 2,
      en_result_json = result_json ?P (Spawned 2), en_epoch = current_epoch w2\<rparr>"
  let ?eb = "\<lparr>en_seq = qb, en_host = h, en_env = B, en_json = jb, en_result = Spawned 1,
      en_result_json = result_json ?P (Spawned 1), en_epoch = current_epoch w1\<rparr>"
  have "fst (recover dbg ?P hs k4) = Err (JournalError ''replay entity ID mismatch'')"
  proof (rule replay_stops[OF k4(2,3), of ?ea "[?eb]"])
    show "sorted_wrt (<) (map en_seq [?ea, ?eb])" using adm(6) by simp
    show "is_completed (mem_view (k_store k4)) c \<longleftrightarrow> c \<in> entry_command ` set [?ea, ?eb]" for c
      using k4(4) k3(5) adm(8) assms(2) by (cases c) (auto simp: is_completed_def entry_command_def)
    show "fst (apply_recovered_command dbg ?P (hs (en_seq ?ea)) (entry_command ?ea) (k4\<lparr>k_world := world_new\<rparr>)) =
        Err (JournalError ''replay entity ID mismatch'')"
      using adm(7) serde_result[of ?P "Spawned 2"] assms(1) w0 cmds(1)
      by (simp add: apply_recovered_command_def on_world_def replay_command_def act_bind_def check_id_def act_fail_def)
  qed
  then show ?thesis using adm(1,2) k3(1) k4(1) unfolding Let_def by blast
qed

theorem interleaving_breaks_recovery_witness:
  "let P = mem_ports sample_serde (\<lambda>_. []); A = envelope_new 0 1 (SpawnAgent 0 [] 1); B = envelope_new 0 2 (SpawnAgent 0 [] 1) in
   \<exists>qa qb k1 k2 k3 k4 ra rb.
    submit_admit P A kernel_new = (Ok (Inr qa), k1) \<and> submit_admit P B k1 = (Ok (Inr qb), k2) \<and>
    submit_admitted True P sample_host B qb k2 = (Ok rb, k3) \<and> submit_admitted True P sample_host A qa k3 = (Ok ra, k4) \<and>
    fst (recover True P (\<lambda>_. sample_host) k4) = Err (JournalError ''replay entity ID mismatch'')"
  using interleaving_breaks_recovery[OF serde_ok_sample, where A = "envelope_new 0 1 (SpawnAgent 0 [] 1)"
      and B = "envelope_new 0 2 (SpawnAgent 0 [] 1)" and dbg = True and chk = "\<lambda>_. []" and h = sample_host
      and hs = "\<lambda>_. sample_host"] by (simp add: Let_def)

end
