(* ===== verification/Kernel_Typing.thy ===== *)
theory Kernel_Typing
  imports Kernel_History
begin

text \<open>
  Component columns are typed: the column of a component type holds only values of that type. The Rust
  code gets this from \<open>TypeId\<close> and the downcast of a column; here it is an invariant that every handler,
  submission, replay and recovery keeps, whatever ports the kernel has.
\<close>

definition well_typed :: "kernel_world \<Rightarrow> bool" where
  "well_typed w \<longleftrightarrow> (\<forall>t c. component_store w t = Some c \<longrightarrow> (\<forall>v \<in> set (dense c). kernel_type v = t))"

lemma well_typed_get: "well_typed w \<Longrightarrow> get_component w t e = Some v \<Longrightarrow> kernel_type v = t"
  by (auto simp: well_typed_def get_component_def store_get_def column_get_def nth_opt_def
      split: if_splits option.splits)

lemma well_typed_new: "well_typed world_new"
  by (simp add: well_typed_def world_new_def)

lemma well_typed_store:
  assumes "well_typed w" "component_store w' = component_store w"
  shows "well_typed w'"
  using assms by (simp add: well_typed_def)

subsection \<open>Columns\<close>

lemma swap_with_last_dense:
  assumes "swap_with_last d c = Some c'" "dense c \<noteq> []"
  shows "set (dense c') = set (dense c)"
proof -
  let ?l = "length (dense c) - 1"
  consider "c' = c" | "d < ?l" "dense c' = (dense c)[d := dense c ! ?l, ?l := dense c ! d]"
    using assms(1) by (auto simp: swap_with_last_def Let_def split: if_splits)
  then show ?thesis
  proof cases
    case 2
    then show ?thesis using set_swap[of d "dense c" ?l] by simp
  qed simp
qed

lemma column_insert_dense:
  assumes "column_insert dbg e v c = Some c'"
  shows "set (dense c') \<subseteq> insert v (set (dense c))"
proof -
  have grow: "dense (grow_sparse i c) = dense c" for i by (simp add: grow_sparse_def)
  have push: "set (dense b) \<subseteq> insert v (set (dense a))" if "push_entry dbg e v a = Some b" for a b
    using that by (auto simp: push_entry_def Let_def split: if_splits)
  have drop: "set (dense b) \<subseteq> set (dense a)" if "remove_dense_entry dbg d a = Some (x, b)" for d a b x
    using that swap_with_last_dense[of d a] in_set_butlastD
    by (fastforce simp: remove_dense_entry_def Let_def split: if_splits option.splits)
  show ?thesis
    using assms push drop grow set_update_subset_insert
    by (fastforce simp: column_insert_def Let_def split: option.splits if_splits)
qed

lemma well_typed_insert:
  assumes "well_typed w" "store_insert dbg (kernel_type v) e v (component_store w) = Some s"
  shows "well_typed (w\<lparr>component_store := s\<rparr>)"
proof -
  obtain c where c: "column_insert dbg e v (column_or_new (kernel_type v) (component_store w)) = Some c"
      "s = (component_store w)(kernel_type v \<mapsto> c)" using assms(2) by (auto simp: store_insert_def)
  have "kernel_type x = kernel_type v" if "x \<in> set (dense c)" for x
    using that column_insert_dense[OF c(1)] assms(1)
    by (auto simp: well_typed_def column_or_new_def column_new_def split: option.splits)
  then show ?thesis using assms(1) c(2) by (simp add: well_typed_def)
qed

lemma take_slot_store: "component_store (snd (take_slot occ w)) = component_store w"
  by (auto simp: take_slot_def Let_def split: option.split)

subsection \<open>Handlers\<close>

lemma keeps_attach [keeps]:
  "keeps well_typed (attach dbg err e v)" "keeps well_typed (insert_attach dbg err e v)"
  "keeps well_typed (spawn_k k err)"
proof -
  have "well_typed (snd (attach dbg err e v w))" "well_typed (snd (insert_attach dbg err e v w))" if "well_typed w" for w
    by (cases "store_insert dbg (kernel_type v) e v (component_store w)",
      use that well_typed_insert[OF that] in \<open>auto simp: attach_def insert_attach_def add_component_def
        insert_component_def\<close>)+
  then show "keeps well_typed (attach dbg err e v)" "keeps well_typed (insert_attach dbg err e v)"
    by (simp_all add: keeps_def)
  have "well_typed w'" if "well_typed w" "spawn k None w = Ok (x, w')" for w w' x
    using that take_slot_store[of "\<lparr>okind = k, oname = None\<rparr>" w]
    by (auto simp: spawn_def split: if_splits intro: well_typed_store[of w])
  then show "keeps well_typed (spawn_k k err)"
    by (auto simp: keeps_def spawn_k_def split: outcome.split)
qed

lemma keeps_read [keeps]: "(\<And>w. keeps well_typed (f w)) \<Longrightarrow> keeps well_typed (read_world f)"
  by (simp add: keeps_def read_world_def)

lemma keeps_attach_more [keeps]:
  "keeps well_typed (attach_when c dbg err e v)" "keeps well_typed (attach_all dbg err e vs)"
  "keeps well_typed (attach_in_state p dbg err e st)"
  unfolding attach_when_def attach_all_def attach_in_state_def by (auto intro!: keeps split: option.split)

lemma keeps_panic [keeps]: "keeps P act_panic"
  by (simp add: keeps_def act_panic_def)

lemma keeps_lifecycle [keeps]: "keeps well_typed (execute_lifecycle dbg h lc)"
  unfolding execute_lifecycle_def execute_create_work_def execute_create_compilation_job_def execute_admit_work_def
    execute_record_dispatch_intent_def execute_complete_work_def execute_fail_work_def
    execute_request_cancellation_def execute_attach_evidence_cmd_def execute_publish_result_cmd_def
    execute_mark_observed_def execute_record_work_plan_def Let_def
  by (cases lc) (auto intro!: keeps)

lemma keeps_infrastructure [keeps]:
  "keeps well_typed (execute_cancel_txn dbg a)" "keeps well_typed (execute_spawn dbg parent)"
  "keeps well_typed (execute_register_model dbg h name path format)"
  "keeps well_typed (execute_bind_inference_kv dbg i epoch pages c1 c2)"
  "keeps well_typed (execute_create_modality_work dbg kind path prompt out)"
  "keeps well_typed (execute_advance_inference dbg i ph p g epoch kv)"
  "keeps well_typed (complete_modality dbg err i digest bytes)" "keeps well_typed (fail_modality dbg err i msg)"
  unfolding execute_cancel_txn_def execute_spawn_def execute_register_model_def execute_bind_inference_kv_def
    execute_create_modality_work_def execute_advance_inference_def complete_modality_def fail_modality_def Let_def
  by (auto intro!: keeps split: option.split)

lemma keeps_command [keeps]: "keeps well_typed (execute_command dbg h cmd)"
  unfolding execute_command_def by (cases cmd) (auto intro!: keeps)

lemma keeps_replay [keeps]: "keeps well_typed (replay_command dbg h cmd stored)"
  unfolding replay_command_def check_id_def check_lifecycle_def
  by (cases cmd) (auto intro!: keeps split: option.split command_result.split lifecycle_result.split)

subsection \<open>The kernel\<close>

definition typed_kernel :: "('s, 'l) kernel \<Rightarrow> bool" where
  "typed_kernel k \<longleftrightarrow> well_typed (k_world k)"

lemma keeps_ports [keeps]:
  "keeps well_typed m \<Longrightarrow> keeps typed_kernel (on_world m)" "keeps typed_kernel (on_store s)"
  "keeps typed_kernel (on_lease l)" "keeps typed_kernel (save_snapshot p h hash)"
  by (simp_all add: keeps_def typed_kernel_def on_world_def on_store_def on_lease_def save_snapshot_def
      case_prod_beta)

lemma keeps_submit_parts [keeps]:
  "keeps typed_kernel (submit_admit p env)" "keeps typed_kernel (submit_locked dbg h env)"
  "keeps typed_kernel (submit_finish p q res)" "keeps typed_kernel (submit_acquire dbg p q e gen ttl)"
  "keeps typed_kernel (submit_release dbg p q e)"
proof -
  have "keeps typed_kernel (admission_outcome p adm)" for adm
    unfolding admission_outcome_def
    by (cases adm) (auto intro!: keeps split: option.split simp: keeps_def[of _ "\<lambda>k. (Ok _, _ k)"] typed_kernel_def)
  then show "keeps typed_kernel (submit_admit p env)"
    unfolding submit_admit_def by (auto intro!: keeps split: option.split)
  show "keeps typed_kernel (submit_finish p q res)"
    unfolding submit_finish_def by (cases res) (auto intro!: keeps split: sum.split)
qed (auto simp: submit_locked_def submit_acquire_def commit_acquire_def submit_release_def commit_release_def Let_def
  intro!: keeps split: sum.split)

lemma keeps_submit_typed [keeps]: "keeps typed_kernel (submit dbg p h env)"
proof -
  have "keeps typed_kernel (submit_admitted dbg p h env q)" for q
    unfolding submit_admitted_def by (auto intro!: keeps split: command.split lifecycle_command.split)
  then show ?thesis unfolding submit_def by (auto intro!: keeps split: sum.split)
qed

lemma keeps_recover [keeps]: "keeps typed_kernel (recover dbg p hs)"
proof -
  have "keeps typed_kernel (apply_recovered_command dbg p h c)" for h and c :: "'j completed_command"
    and p :: "('s, 'l, 'j) ports"
    unfolding apply_recovered_command_def by (auto intro!: keeps split: option.split)
  then have "keeps typed_kernel (replay_all dbg p hs cs)" for cs unfolding replay_all_def by (intro keeps)
  moreover have "keeps typed_kernel (\<lambda>k. (Ok (), k\<lparr>k_world := world_new\<rparr>))"
      "keeps typed_kernel (\<lambda>k. (Ok (), k\<lparr>k_sequence := n\<rparr>))" for n
    by (simp_all add: keeps_def typed_kernel_def well_typed_new)
  ultimately show ?thesis unfolding recover_def by (auto intro!: keeps)
qed

subsection \<open>Properties\<close>



end
