(* ===== verification/Lane_Queue.thy ===== *)
theory Lane_Queue
  imports Prism_Prelude
begin

text \<open>
  The bounded per-lane work queue of \<open>prism-ecs-runtime/src/schedule/lane_queue.rs\<close>: admission with
  a typed reason for every rejection, removal of the highest priority first and of the oldest entry
  within a priority, cancellation by work id, and the set of queues of all lanes. Lane ids, work ids,
  tags and deadlines are naturals; the queue only compares and carries them.
\<close>

subsection \<open>Priorities, reasons, entries\<close>

datatype work_priority = Compilation | Warmup | Low | Normal | High | Interactive

text \<open>The derived order is the order of the constructors.\<close>

fun priority_rank :: "work_priority \<Rightarrow> nat" where
  "priority_rank Compilation = 0"
| "priority_rank Warmup = 1"
| "priority_rank Low = 2"
| "priority_rank Normal = 3"
| "priority_rank High = 4"
| "priority_rank Interactive = 5"

lemma priority_rank_inj: "priority_rank p = priority_rank q \<longleftrightarrow> p = q"
  by (cases p; cases q) simp_all

instantiation work_priority :: linorder
begin

definition less_eq_work_priority :: "work_priority \<Rightarrow> work_priority \<Rightarrow> bool" where
  "less_eq_work_priority p q = (priority_rank p \<le> priority_rank q)"

definition less_work_priority :: "work_priority \<Rightarrow> work_priority \<Rightarrow> bool" where
  "less_work_priority p q = (priority_rank p < priority_rank q)"

instance
  by standard (auto simp: less_eq_work_priority_def less_work_priority_def priority_rank_inj)

end

definition is_user_facing :: "work_priority \<Rightarrow> bool" where
  "is_user_facing p = (case p of Interactive \<Rightarrow> True | High \<Rightarrow> True | _ \<Rightarrow> False)"

datatype backpressure_reason = MetalCapacity | AneCapacity | CpuCapacity | ActivationSlots
  | IOSurfacePool | SessionQuota | GlobalQueue | ArtifactCold

definition for_lane :: "nat \<Rightarrow> backpressure_reason" where
  "for_lane lane = (if lane = 0 then MetalCapacity else if lane = 1 then AneCapacity
     else if 2 \<le> lane \<and> lane \<le> 5 then CpuCapacity else ActivationSlots)"

record queue_entry =
  work_id :: nat
  priority :: work_priority
  deadline :: "nat option"
  entry_lane :: nat
  tag :: nat

datatype lane_queue_error = Rejected backpressure_reason nat | NotFound nat nat

record lane_queue =
  lane :: nat
  max_depth :: nat
  entries :: "queue_entry list"

subsection \<open>Operations\<close>

definition queue_new :: "nat \<Rightarrow> nat \<Rightarrow> lane_queue" where
  "queue_new l d = \<lparr>lane = l, max_depth = d, entries = []\<rparr>"

definition try_push :: "queue_entry \<Rightarrow> lane_queue \<Rightarrow> (lane_queue_error, lane_queue) outcome" where
  "try_push e q =
     (if max_depth q \<le> length (entries q) then Err (Rejected (for_lane (lane q)) (lane q))
      else if entry_lane e \<noteq> lane q then Err (Rejected GlobalQueue (lane q))
      else Ok (q\<lparr>entries := entries q @ [e]\<rparr>))"

text \<open>
  \<open>Iterator::max_by\<close> keeps the later of two elements unless the earlier one compares greater. The
  comparison is by priority and then by descending index.
\<close>

definition index_greater :: "nat \<times> queue_entry \<Rightarrow> nat \<times> queue_entry \<Rightarrow> bool" where
  "index_greater a b \<longleftrightarrow> priority (snd a) > priority (snd b) \<or>
     priority (snd a) = priority (snd b) \<and> fst b > fst a"

fun max_by :: "('a \<Rightarrow> 'a \<Rightarrow> bool) \<Rightarrow> 'a list \<Rightarrow> 'a option" where
  "max_by gt [] = None"
| "max_by gt (x # xs) = Some (fold (\<lambda>y x. if gt x y then x else y) xs x)"

definition highest_priority_index :: "lane_queue \<Rightarrow> nat option" where
  "highest_priority_index q = map_option fst (max_by index_greater (enumerate 0 (entries q)))"

definition queue_pop :: "lane_queue \<Rightarrow> queue_entry option \<times> lane_queue" where
  "queue_pop q = (case highest_priority_index q of None \<Rightarrow> (None, q)
     | Some i \<Rightarrow> (nth_opt (entries q) i, q\<lparr>entries := remove_at i (entries q)\<rparr>))"

definition peek :: "lane_queue \<Rightarrow> queue_entry option" where
  "peek q = (case highest_priority_index q of None \<Rightarrow> None | Some i \<Rightarrow> nth_opt (entries q) i)"

definition queue_len :: "lane_queue \<Rightarrow> nat" where
  "queue_len q = length (entries q)"

definition queue_is_empty :: "lane_queue \<Rightarrow> bool" where
  "queue_is_empty q \<longleftrightarrow> entries q = []"

definition remaining :: "lane_queue \<Rightarrow> nat" where
  "remaining q = max_depth q - length (entries q)"

definition queue_remove :: "nat \<Rightarrow> lane_queue \<Rightarrow> (lane_queue_error, queue_entry \<times> lane_queue) outcome" where
  "queue_remove w q =
     (case position (\<lambda>e. work_id e = w) (entries q) of None \<Rightarrow> Err (NotFound w (lane q))
      | Some pos \<Rightarrow> (case nth_opt (entries q) pos of None \<Rightarrow> Err (NotFound w (lane q))
          | Some e \<Rightarrow> Ok (e, q\<lparr>entries := remove_at pos (entries q)\<rparr>)))"

definition drain :: "lane_queue \<Rightarrow> nat \<times> lane_queue" where
  "drain q = (length (entries q), q\<lparr>entries := []\<rparr>)"

subsection \<open>The set of queues\<close>

text \<open>A \<open>BTreeMap\<close> from lanes to queues, as an association list with increasing keys.\<close>

type_synonym lane_queue_set = "(nat \<times> lane_queue) list"

definition with_lane :: "nat \<Rightarrow> nat \<Rightarrow> lane_queue_set \<Rightarrow> lane_queue option \<times> lane_queue_set" where
  "with_lane l d qs = (map_of qs l, btree_insert l (queue_new l d) qs)"

definition queue_for :: "nat \<Rightarrow> lane_queue_set \<Rightarrow> lane_queue option" where
  "queue_for l qs = map_of qs l"

text \<open>The write through the reference of \<open>queue_for\<close>.\<close>

definition update_queue :: "nat \<Rightarrow> lane_queue \<Rightarrow> lane_queue_set \<Rightarrow> lane_queue_set" where
  "update_queue l q qs = map (\<lambda>(k, x). if k = l then (k, q) else (k, x)) qs"

definition total_pending :: "lane_queue_set \<Rightarrow> nat" where
  "total_pending qs = sum_list (map (\<lambda>(l, q). queue_len q) qs)"

definition snapshot :: "lane_queue_set \<Rightarrow> (nat \<times> nat) list" where
  "snapshot qs = map (\<lambda>(l, q). (l, queue_len q)) (filter (\<lambda>(l, q). \<not> queue_is_empty q) qs)"

definition lane_count :: "lane_queue_set \<Rightarrow> nat" where
  "lane_count qs = length qs"

subsection \<open>The entry that leaves first\<close>

text \<open>
  The fold of \<open>max_by\<close> over an enumerated list returns the first entry of highest priority: all
  entries before it have lower priority, no entry after it has higher priority.
\<close>

definition best :: "queue_entry list \<Rightarrow> nat \<Rightarrow> bool" where
  "best es i \<longleftrightarrow> i < length es \<and> (\<forall>j < i. priority (es ! j) < priority (es ! i)) \<and>
     (\<forall>j < length es. priority (es ! j) \<le> priority (es ! i))"

lemma best_snoc:
  assumes "best es i"
  shows "best (es @ [e]) (if index_greater (i, es ! i) (length es, e) then i else length es)"
proof (cases "index_greater (i, es ! i) (length es, e)")
  case True
  then show ?thesis
    using assms by (auto simp: best_def index_greater_def nth_append less_Suc_eq)
next
  case False
  then have "priority (es ! i) < priority e"
    using assms by (auto simp: best_def index_greater_def not_less antisym_conv2)
  then show ?thesis using False assms by (auto simp: best_def nth_append less_Suc_eq)
qed

lemma fold_best:
  assumes "best es i"
  shows "\<exists>k. fold (\<lambda>y x. if index_greater x y then x else y) (enumerate (length es) fs) (i, es ! i) =
      (k, (es @ fs) ! k) \<and> best (es @ fs) k"
  using assms
proof (induction fs arbitrary: es i)
  case Nil
  then show ?case by (auto simp: best_def)
next
  case (Cons f fs)
  let ?k = "if index_greater (i, es ! i) (length es, f) then i else length es"
  have b: "best (es @ [f]) ?k" using best_snoc[OF Cons.prems] .
  have "(if index_greater (i, es ! i) (length es, f) then (i, es ! i) else (length es, f)) =
      (?k, (es @ [f]) ! ?k)"
    using Cons.prems by (auto simp: best_def nth_append)
  then show ?case using Cons.IH[OF b] by simp
qed

lemma highest_priority_index_None: "highest_priority_index q = None \<longleftrightarrow> entries q = []"
  by (cases "entries q") (simp_all add: highest_priority_index_def)

lemma highest_priority_index_best:
  assumes "highest_priority_index q = Some i"
  shows "best (entries q) i"
proof (cases "entries q")
  case Nil
  then show ?thesis using assms by (simp add: highest_priority_index_def)
next
  case (Cons e es)
  have "best [e] 0" by (simp add: best_def)
  from fold_best[OF this, of es] show ?thesis
    using assms Cons by (auto simp: highest_priority_index_def)
qed

lemma best_unique: "best es i \<Longrightarrow> best es j \<Longrightarrow> i = j"
  by (auto simp: best_def) (metis leD linorder_neqE_nat)

text \<open>What \<open>pop\<close> does, on the split of the queue at the entry it takes.\<close>

lemma queue_pop_split:
  assumes "entries q \<noteq> []"
  obtains xs e ys where "entries q = xs @ e # ys" "queue_pop q = (Some e, q\<lparr>entries := xs @ ys\<rparr>)"
    "\<And>x. x \<in> set xs \<Longrightarrow> priority x < priority e" "\<And>y. y \<in> set ys \<Longrightarrow> priority y \<le> priority e"
proof -
  obtain i where i: "highest_priority_index q = Some i"
    using assms highest_priority_index_None[of q] by auto
  let ?es = "entries q"
  have b: "i < length ?es" "\<And>j. j < i \<Longrightarrow> priority (?es ! j) < priority (?es ! i)"
    "\<And>j. j < length ?es \<Longrightarrow> priority (?es ! j) \<le> priority (?es ! i)"
    using highest_priority_index_best[OF i] by (auto simp: best_def)
  show ?thesis
  proof (rule that)
    show "?es = take i ?es @ ?es ! i # drop (Suc i) ?es" using b(1) by (rule id_take_nth_drop)
    show "queue_pop q = (Some (?es ! i), q\<lparr>entries := take i ?es @ drop (Suc i) ?es\<rparr>)"
      using i b(1) by (simp add: queue_pop_def nth_opt_def remove_at_def)
    show "priority x < priority (?es ! i)" if "x \<in> set (take i ?es)" for x
      using that b(1,2) by (auto simp: in_set_conv_nth)
    show "priority y \<le> priority (?es ! i)" if "y \<in> set (drop (Suc i) ?es)" for y
      using that b(3) by (auto dest!: in_set_dropD simp: in_set_conv_nth)
  qed
qed

lemma queue_pop_empty: "entries q = [] \<Longrightarrow> queue_pop q = (None, q)"
  using highest_priority_index_None[of q] by (simp add: queue_pop_def)

lemma queue_pop_mset:
  assumes "queue_pop q = (Some e, q')"
  shows "add_mset e (mset (entries q')) = mset (entries q)" "max_depth q' = max_depth q" "lane q' = lane q"
proof -
  have "entries q \<noteq> []" using assms queue_pop_empty[of q] by auto
  then obtain xs e' ys where "entries q = xs @ e' # ys" "queue_pop q = (Some e', q\<lparr>entries := xs @ ys\<rparr>)"
    by (rule queue_pop_split)
  then show "add_mset e (mset (entries q')) = mset (entries q)" "max_depth q' = max_depth q" "lane q' = lane q"
    using assms by auto
qed

lemma queue_pop_length:
  assumes "queue_pop q = (Some e, q')"
  shows "Suc (length (entries q')) = length (entries q)"
  using queue_pop_mset(1)[OF assms] by (metis size_add_mset size_mset)

subsection \<open>The interface of an admission queue\<close>

datatype 'e queue_op = Push 'e | Pop

text \<open>A run of operations: the entries admitted, the entries served and the final queue.\<close>

fun run_queue :: "('e \<Rightarrow> 'q \<Rightarrow> ('err, 'q) outcome) \<Rightarrow> ('q \<Rightarrow> 'e option \<times> 'q) \<Rightarrow> 'e queue_op list \<Rightarrow> 'q \<Rightarrow>
    'e list \<times> 'e list \<times> 'q" where
  "run_queue enq deq [] q = ([], [], q)"
| "run_queue enq deq (Push e # ops) q = (case enq e q of
       Ok q' \<Rightarrow> (let (adm, srv, q'') = run_queue enq deq ops q' in (e # adm, srv, q''))
     | _ \<Rightarrow> run_queue enq deq ops q)"
| "run_queue enq deq (Pop # ops) q = (case deq q of
       (Some e, q') \<Rightarrow> (let (adm, srv, q'') = run_queue enq deq ops q' in (adm, e # srv, q''))
     | (None, q') \<Rightarrow> run_queue enq deq ops q')"

text \<open>
  What a client of a bounded queue relies on: admission adds one entry and is refused only when it
  says so, service takes one of the entries present and fails only on an empty queue.
\<close>

locale admission_queue =
  fixes inv :: "'q \<Rightarrow> bool"
    and cap :: "'q \<Rightarrow> nat"
    and contents :: "'q \<Rightarrow> 'e multiset"
    and enq :: "'e \<Rightarrow> 'q \<Rightarrow> ('err, 'q) outcome"
    and deq :: "'q \<Rightarrow> 'e option \<times> 'q"
  assumes bounded: "inv q \<Longrightarrow> size (contents q) \<le> cap q"
    and enq_ok: "inv q \<Longrightarrow> enq e q = Ok q' \<Longrightarrow>
       inv q' \<and> contents q' = add_mset e (contents q) \<and> cap q' = cap q"
    and deq_none: "inv q \<Longrightarrow> deq q = (None, q') \<Longrightarrow> q' = q \<and> contents q = {#}"
    and deq_some: "inv q \<Longrightarrow> deq q = (Some e, q') \<Longrightarrow>
       inv q' \<and> contents q = add_mset e (contents q') \<and> cap q' = cap q"
begin

lemma run_conserves:
  assumes "inv q" "run_queue enq deq ops q = (adm, srv, q')"
  shows "inv q' \<and> cap q' = cap q \<and> mset adm + contents q = mset srv + contents q'"
  using assms
proof (induction ops arbitrary: q adm srv q')
  case (Cons op ops)
  show ?case
  proof (cases op)
    case (Push e)
    show ?thesis
    proof (cases "enq e q")
      case (Ok q1)
      obtain adm1 srv1 q2 where r: "run_queue enq deq ops q1 = (adm1, srv1, q2)" by (metis prod_cases3)
      then have "adm = e # adm1" "srv = srv1" "q' = q2" using Cons.prems(2) Push Ok by simp_all
      then show ?thesis using Cons.IH[of q1 adm1 srv1] enq_ok[OF Cons.prems(1) Ok] r by simp
    qed (use Cons Push in simp_all)
  next
    case Pop
    obtain o1 q1 where d: "deq q = (o1, q1)" by (cases "deq q")
    obtain adm1 srv1 q2 where r: "run_queue enq deq ops q1 = (adm1, srv1, q2)" by (metis prod_cases3)
    show ?thesis
    proof (cases o1)
      case None
      then show ?thesis using Cons.IH[OF _ r] deq_none[OF Cons.prems(1)] d r Cons.prems Pop by auto
    next
      case (Some e)
      then have "adm = adm1" "srv = e # srv1" "q' = q2" using Cons.prems(2) Pop d r by simp_all
      then show ?thesis using Cons.IH[of q1 adm1 srv1] deq_some[OF Cons.prems(1)] d r Some by simp
    qed
  qed
qed simp

lemma served_were_admitted:
  assumes "inv q" "contents q = {#}" "run_queue enq deq ops q = (adm, srv, q')"
  shows "mset srv \<subseteq># mset adm" "length adm \<le> length srv + cap q"
proof -
  have r: "inv q'" "cap q' = cap q" "mset adm = mset srv + contents q'"
    using run_conserves[OF assms(1,3)] assms(2) by simp_all
  then show "mset srv \<subseteq># mset adm" by simp
  have "length adm = length srv + size (contents q')"
    using r(3) by (metis size_mset size_union)
  then show "length adm \<le> length srv + cap q" using bounded[OF r(1)] r(2) by simp
qed

end

definition queue_inv :: "lane_queue \<Rightarrow> bool" where
  "queue_inv q \<longleftrightarrow> length (entries q) \<le> max_depth q \<and> list_all (\<lambda>e. entry_lane e = lane q) (entries q)"

lemma try_push_Ok:
  "try_push e q = Ok q' \<longleftrightarrow> length (entries q) < max_depth q \<and> entry_lane e = lane q \<and>
     q' = q\<lparr>entries := entries q @ [e]\<rparr>"
  by (auto simp: try_push_def)

lemma queue_inv_pop:
  assumes "queue_inv q" "queue_pop q = (Some e, q')"
  shows "queue_inv q'"
proof -
  have "set (entries q') \<subseteq> set (entries q)"
    using queue_pop_mset(1)[OF assms(2)] by (metis set_mset_add_mset_insert set_mset_mset subset_insertI)
  then show ?thesis
    using assms(1) queue_pop_length[OF assms(2)] queue_pop_mset(2,3)[OF assms(2)]
    by (auto simp: queue_inv_def list_all_iff)
qed

interpretation lane: admission_queue queue_inv max_depth "\<lambda>q. mset (entries q)" try_push queue_pop
proof
  fix q q' e
  show "queue_inv q \<Longrightarrow> size (mset (entries q)) \<le> max_depth q" by (simp add: queue_inv_def)
  show "queue_inv q \<Longrightarrow> try_push e q = Ok q' \<Longrightarrow>
      queue_inv q' \<and> mset (entries q') = add_mset e (mset (entries q)) \<and> max_depth q' = max_depth q"
    by (auto simp: try_push_Ok queue_inv_def)
  show "queue_inv q \<Longrightarrow> queue_pop q = (None, q') \<Longrightarrow> q' = q \<and> mset (entries q) = {#}"
    by (metis Pair_inject mset.simps(1) option.simps(3) queue_pop_empty queue_pop_split)
  show "queue_inv q \<Longrightarrow> queue_pop q = (Some e, q') \<Longrightarrow>
      queue_inv q' \<and> mset (entries q) = add_mset e (mset (entries q')) \<and> max_depth q' = max_depth q"
    using queue_pop_mset(1,2) queue_inv_pop by metis
qed

lemma queue_new_inv: "queue_inv (queue_new l d)" "mset (entries (queue_new l d)) = {#}" "max_depth (queue_new l d) = d"
  by (simp_all add: queue_inv_def queue_new_def)

subsection \<open>The service order\<close>

text \<open>Popping until the queue is empty.\<close>

function pop_all :: "lane_queue \<Rightarrow> queue_entry list" where
  "pop_all q = (case queue_pop q of (None, _) \<Rightarrow> [] | (Some e, q') \<Rightarrow> e # pop_all q')"
  by auto
termination
  by (relation "measure (\<lambda>q. length (entries q))") (auto dest!: sym[of "(Some _, _)"] queue_pop_length)

declare pop_all.simps [simp del]

definition urgency :: "queue_entry \<Rightarrow> nat" where
  "urgency e = 5 - priority_rank (priority e)"

lemma urgency_less: "priority x < priority y \<longleftrightarrow> urgency y < urgency x"
  "priority x \<le> priority y \<longleftrightarrow> urgency y \<le> urgency x"
  by (cases "priority x"; cases "priority y"; simp add: urgency_def less_work_priority_def less_eq_work_priority_def)+

lemma sort_key_first:
  assumes "\<And>x. x \<in> set xs \<Longrightarrow> f e < f x" "\<And>y. y \<in> set ys \<Longrightarrow> f e \<le> f y"
  shows "sort_key f (xs @ e # ys) = e # sort_key f (xs @ ys)"
proof (rule properties_for_sort_key)
  show "mset (e # sort_key f (xs @ ys)) = mset (xs @ e # ys)" by simp
  show "sorted (map f (e # sort_key f (xs @ ys)))" using assms by (auto simp: less_imp_le)
  fix k assume "k \<in> set (e # sort_key f (xs @ ys))"
  have "filter (\<lambda>x. f k = f x) (sort_key f zs) = filter (\<lambda>x. f k = f x) zs" for zs
    using sort_key_stable[of f "f k" zs] by (simp add: eq_commute)
  moreover have "filter (\<lambda>x. f k = f x) xs = []" if "f k = f e"
    using that assms(1) by (fastforce simp: filter_empty_conv)
  ultimately show "filter (\<lambda>x. f k = f x) (e # sort_key f (xs @ ys)) = filter (\<lambda>x. f k = f x) (xs @ e # ys)"
    by auto
qed

lemma pop_all_sorts: "pop_all q = sort_key urgency (entries q)"
proof (induction q rule: pop_all.induct)
  case (1 q)
  show ?case
  proof (cases "entries q = []")
    case True
    then show ?thesis by (subst pop_all.simps) (simp add: queue_pop_empty)
  next
    case False
    obtain xs e ys where sp: "entries q = xs @ e # ys" "queue_pop q = (Some e, q\<lparr>entries := xs @ ys\<rparr>)"
      "\<And>x. x \<in> set xs \<Longrightarrow> priority x < priority e" "\<And>y. y \<in> set ys \<Longrightarrow> priority y \<le> priority e"
      using queue_pop_split[OF False] by metis
    have "pop_all q = e # pop_all (q\<lparr>entries := xs @ ys\<rparr>)"
      by (subst pop_all.simps) (simp add: sp(2))
    also have "\<dots> = e # sort_key urgency (xs @ ys)" using 1 sp(2) by simp
    also have "\<dots> = sort_key urgency (xs @ e # ys)"
      using sp(3,4) by (intro sort_key_first[symmetric]) (auto simp: urgency_less)
    finally show ?thesis by (simp add: sp(1))
  qed
qed

lemma pop_is_head: "queue_pop q = (Some e, q') \<Longrightarrow> pop_all q = e # pop_all q'"
  by (subst pop_all.simps) simp

lemma update_queue_total:
  assumes "distinct (map fst qs)" "map_of qs l = Some q"
  shows "total_pending (update_queue l q' qs) + queue_len q = total_pending qs + queue_len q'"
  using assms
proof (induction qs)
  case (Cons p qs)
  obtain k x where p: "p = (k, x)" by (cases p)
  show ?case
  proof (cases "k = l")
    case True
    have "update_queue l q' qs = qs"
      using Cons.prems(1) p True by (induction qs) (auto simp: update_queue_def)
    then show ?thesis using Cons.prems(2) p True by (simp add: update_queue_def total_pending_def)
  next
    case False
    then show ?thesis using Cons p by (simp add: update_queue_def total_pending_def)
  qed
qed simp

lemma total_pending_snapshot: "total_pending qs = sum_list (map snd (snapshot qs))"
  by (induction qs) (auto simp: total_pending_def snapshot_def queue_is_empty_def queue_len_def)

subsection \<open>Properties\<close>

text \<open>C28: popping a queue until it is empty serves its entries in descending priority and in order of
  arrival within a priority (the stable sort by priority).\<close>

theorem pop_order_stable_sort:
  "pop_all q = sort_key (\<lambda>e. 5 - priority_rank (priority e)) (entries q)"
  using pop_all_sorts[of q] by (simp add: urgency_def[abs_def])

text \<open>Over any sequence of pushes and pops on a new queue, the entries served and the entries still
  pending are together exactly the entries admitted, the depth never exceeds the bound, and all pending
  entries belong to the queue's lane.\<close>

theorem lane_queue_conserves:
  assumes "run_queue try_push queue_pop ops (queue_new l d) = (adm, srv, q)"
  shows "mset adm = mset srv + mset (entries q) \<and> queue_inv q \<and> queue_len q \<le> d \<and>
     length adm \<le> length srv + d"
  using lane.run_conserves[OF queue_new_inv(1) assms] lane.served_were_admitted(2)[OF queue_new_inv(1,2) assms]
    lane.bounded[of q]
  by (simp add: queue_new_inv queue_len_def)

definition entry0 :: "nat \<Rightarrow> work_priority \<Rightarrow> queue_entry" where
  "entry0 w p = \<lparr>work_id = w, priority = p, deadline = None, entry_lane = 0, tag = 0\<rparr>"

theorem lane_queue_conserves_witness:
  "\<exists>q. run_queue try_push queue_pop [Push (entry0 1 Low), Push (entry0 2 High), Push (entry0 3 Low), Pop]
       (queue_new 0 2) = ([entry0 1 Low, entry0 2 High], [entry0 2 High], q) \<and>
     mset (entries q) = {#entry0 1 Low#}"
proof -
  let ?q = "\<lparr>lane = 0, max_depth = 2, entries = [entry0 1 Low]\<rparr>"
  have r: "run_queue try_push queue_pop [Push (entry0 1 Low), Push (entry0 2 High), Push (entry0 3 Low), Pop]
       (queue_new 0 2) = ([entry0 1 Low, entry0 2 High], [entry0 2 High], ?q)"
    by (simp add: queue_new_def try_push_def entry0_def queue_pop_def highest_priority_index_def
        index_greater_def less_work_priority_def nth_opt_def remove_at_def)
  show ?thesis using lane_queue_conserves[OF r] r by auto
qed

text \<open>Removing by work id takes out the first entry with that id and nothing else, and reports the
  absence of the id otherwise; admission is refused with the lane's capacity reason exactly when the queue
  is full and with the global reason when the entry is for another lane; the total over all lanes is
  the sum of the snapshot and a change to one lane's queue changes it by that queue's change.\<close>

theorem queue_operations_correct:
  "(case queue_remove w q of
      Ok (e, q') \<Rightarrow> \<exists>xs ys. entries q = xs @ e # ys \<and> work_id e = w \<and> (\<forall>x \<in> set xs. work_id x \<noteq> w) \<and>
        q' = q\<lparr>entries := xs @ ys\<rparr>
    | Err er \<Rightarrow> er = NotFound w (lane q) \<and> w \<notin> work_id ` set (entries q)
    | Panic \<Rightarrow> False) \<and>
   (case try_push e q of
      Ok q' \<Rightarrow> entry_lane e = lane q \<and> remaining q = Suc (remaining q') \<and> pop_all q' = sort_key urgency (entries q @ [e])
    | Err er \<Rightarrow> (remaining q = 0 \<and> er = Rejected (for_lane (lane q)) (lane q)) \<or>
        (entry_lane e \<noteq> lane q \<and> er = Rejected GlobalQueue (lane q))
    | Panic \<Rightarrow> False) \<and>
   total_pending qs = sum_list (map snd (snapshot qs))"
proof (intro conjI)
  show "case queue_remove w q of
      Ok (e, q') \<Rightarrow> \<exists>xs ys. entries q = xs @ e # ys \<and> work_id e = w \<and> (\<forall>x \<in> set xs. work_id x \<noteq> w) \<and>
        q' = q\<lparr>entries := xs @ ys\<rparr>
    | Err er \<Rightarrow> er = NotFound w (lane q) \<and> w \<notin> work_id ` set (entries q)
    | Panic \<Rightarrow> False"
  proof (cases "position (\<lambda>e. work_id e = w) (entries q)")
    case None
    then have "\<forall>e \<in> set (entries q). work_id e \<noteq> w" by (simp add: position_None)
    then show ?thesis using None by (auto simp: queue_remove_def)
  next
    case (Some i)
    let ?es = "entries q"
    have i: "i < length ?es" "work_id (?es ! i) = w" "\<forall>j < i. work_id (?es ! j) \<noteq> w"
      using position_Some[OF Some] by auto
    have "?es = take i ?es @ ?es ! i # drop (Suc i) ?es" using i(1) by (rule id_take_nth_drop)
    moreover have "\<forall>x \<in> set (take i ?es). work_id x \<noteq> w" using i by (auto simp: in_set_conv_nth)
    ultimately show ?thesis
      using Some i(1,2) by (auto simp: queue_remove_def nth_opt_def remove_at_def)
  qed
  show "case try_push e q of
      Ok q' \<Rightarrow> entry_lane e = lane q \<and> remaining q = Suc (remaining q') \<and> pop_all q' = sort_key urgency (entries q @ [e])
    | Err er \<Rightarrow> (remaining q = 0 \<and> er = Rejected (for_lane (lane q)) (lane q)) \<or>
        (entry_lane e \<noteq> lane q \<and> er = Rejected GlobalQueue (lane q))
    | Panic \<Rightarrow> False"
    by (auto simp: try_push_def remaining_def pop_all_sorts)
qed (rule total_pending_snapshot)

end
