(* ===== verification/Slot_Lease.thy ===== *)
theory Slot_Lease
  imports Prism_Prelude
begin

text \<open>
  The slot leases of \<open>prism-ecs-runtime/src/schedule/lane_slot_lease.rs\<close>: readers and writers of an
  output slot, the writer's hand-over to its readers, release, cancellation of a session and
  poisoning. \<open>leases\<close> is a \<open>BTreeMap\<close> whose order matters when a session is released, so it is an
  association list with increasing keys; the other maps are only looked up. \<open>now\<close> is the reading of
  the clock. Ids come from a counter, which is modelled without its 64-bit bound.
\<close>

subsection \<open>Leases\<close>

datatype slot_access = Read | Write | ReadWrite

datatype lease_state = Free | WriteReserved | WriteActive | OutputReady | ReadActive | Consumed | Poisoned

datatype lease_error = WriteConflict nat nat | NotYetReady nat nat | LeaseNotFound nat
  | BadState nat lease_state lease_state | PoisonedSlot nat

record slot_lease =
  lease_id :: nat
  slot_id :: nat
  owner_work_id :: nat
  owner_session :: string
  access :: slot_access
  state :: lease_state
  acquired_at :: nat
  last_transition :: nat
  consumer_count :: nat

definition is_writer :: "slot_lease \<Rightarrow> bool" where
  "is_writer l = (case access l of Write \<Rightarrow> True | ReadWrite \<Rightarrow> True | Read \<Rightarrow> False)"

record lease_manager =
  leases :: "(nat \<times> slot_lease) list"
  slot_write_lease :: "nat \<rightharpoonup> nat"
  slot_readers :: "nat \<rightharpoonup> nat"
  poisoned_slots :: "nat \<rightharpoonup> nat"
  next_lease_id :: nat

definition manager_new :: lease_manager where
  "manager_new = \<lparr>leases = [], slot_write_lease = Map.empty, slot_readers = Map.empty,
     poisoned_slots = Map.empty, next_lease_id = 1\<rparr>"

definition is_poisoned :: "lease_manager \<Rightarrow> nat \<Rightarrow> bool" where
  "is_poisoned m s \<longleftrightarrow> poisoned_slots m s \<noteq> None"

definition get_lease :: "lease_manager \<Rightarrow> nat \<Rightarrow> slot_lease option" where
  "get_lease m i = map_of (leases m) i"

definition reader_count :: "lease_manager \<Rightarrow> nat \<Rightarrow> nat" where
  "reader_count m s = (case slot_readers m s of None \<Rightarrow> 0 | Some n \<Rightarrow> n)"

definition current_writer :: "lease_manager \<Rightarrow> nat \<Rightarrow> nat option" where
  "current_writer m s = slot_write_lease m s"

definition active_lease_count :: "lease_manager \<Rightarrow> nat" where
  "active_lease_count m = length (leases m)"

text \<open>\<open>saturating_add(1)\<close> on a \<open>u32\<close>; \<open>saturating_sub(1)\<close> is the subtraction of naturals.\<close>

definition sat_inc :: "nat \<Rightarrow> nat" where
  "sat_inc n = (if n < 2 ^ 32 - 1 then n + 1 else n)"

text \<open>Changing the write lease of a slot in place, when there is one.\<close>

definition update_writer :: "nat \<Rightarrow> (slot_lease \<Rightarrow> slot_lease) \<Rightarrow> lease_manager \<Rightarrow> lease_manager" where
  "update_writer s f m = (case slot_write_lease m s of None \<Rightarrow> m
     | Some wid \<Rightarrow> (case map_of (leases m) wid of None \<Rightarrow> m
         | Some wl \<Rightarrow> m\<lparr>leases := btree_insert wid (f wl) (leases m)\<rparr>))"

subsection \<open>Acquisition\<close>

definition acquire_write :: "nat \<Rightarrow> nat \<Rightarrow> nat \<Rightarrow> string \<Rightarrow> lease_manager \<Rightarrow>
    (lease_error, nat \<times> lease_manager) outcome" where
  "acquire_write now s w session m =
     (if poisoned_slots m s \<noteq> None then Err (PoisonedSlot s)
      else case slot_write_lease m s of
        Some existing \<Rightarrow> Err (WriteConflict s existing)
      | None \<Rightarrow>
          let i = next_lease_id m;
              l = \<lparr>lease_id = i, slot_id = s, owner_work_id = w, owner_session = session,
                   access = Write, state = WriteActive, acquired_at = now, last_transition = now,
                   consumer_count = 0\<rparr>
          in Ok (i, m\<lparr>next_lease_id := i + 1, leases := btree_insert i l (leases m),
                      slot_write_lease := (slot_write_lease m)(s \<mapsto> i)\<rparr>))"

definition still_writing :: "lease_manager \<Rightarrow> nat \<Rightarrow> nat option" where
  "still_writing m s = (case slot_write_lease m s of None \<Rightarrow> None
     | Some wid \<Rightarrow> (case map_of (leases m) wid of None \<Rightarrow> None
         | Some wl \<Rightarrow> if state wl = WriteActive then Some wid else None))"

definition acquire_read :: "nat \<Rightarrow> nat \<Rightarrow> nat \<Rightarrow> string \<Rightarrow> lease_manager \<Rightarrow>
    (lease_error, nat \<times> lease_manager) outcome" where
  "acquire_read now s w session m =
     (if poisoned_slots m s \<noteq> None then Err (PoisonedSlot s)
      else case still_writing m s of
        Some wid \<Rightarrow> Err (NotYetReady s wid)
      | None \<Rightarrow>
          let i = next_lease_id m;
              l = \<lparr>lease_id = i, slot_id = s, owner_work_id = w, owner_session = session,
                   access = Read, state = ReadActive, acquired_at = now, last_transition = now,
                   consumer_count = 0\<rparr>;
              m1 = m\<lparr>next_lease_id := i + 1, leases := btree_insert i l (leases m),
                     slot_readers := (slot_readers m)(s \<mapsto> sat_inc (reader_count m s))\<rparr>
          in Ok (i, update_writer s (\<lambda>wl. wl\<lparr>consumer_count := sat_inc (consumer_count wl)\<rparr>) m1))"

subsection \<open>Transitions and release\<close>

definition mark_output_ready :: "nat \<Rightarrow> nat \<Rightarrow> lease_manager \<Rightarrow> (lease_error, lease_manager) outcome" where
  "mark_output_ready now i m = (case map_of (leases m) i of None \<Rightarrow> Err (LeaseNotFound i)
     | Some l \<Rightarrow> if state l \<noteq> WriteActive then Err (BadState i (state l) WriteActive)
         else Ok (m\<lparr>leases := btree_insert i (l\<lparr>state := OutputReady, last_transition := now\<rparr>) (leases m)\<rparr>))"

definition release_writer :: "nat \<Rightarrow> nat \<Rightarrow> nat \<Rightarrow> lease_manager \<Rightarrow> lease_manager" where
  "release_writer now i s m =
     (if reader_count m s = 0
      then m\<lparr>leases := btree_remove i (leases m), slot_write_lease := (slot_write_lease m)(s := None),
             slot_readers := (slot_readers m)(s := None)\<rparr>
      else case map_of (leases m) i of None \<Rightarrow> m
        | Some l \<Rightarrow> m\<lparr>leases := btree_insert i (l\<lparr>state := Consumed, last_transition := now\<rparr>) (leases m)\<rparr>)"

definition release_reader :: "nat \<Rightarrow> nat \<Rightarrow> lease_manager \<Rightarrow> lease_manager" where
  "release_reader i s m =
     (let m1 = m\<lparr>leases := btree_remove i (leases m),
                 slot_readers := (case slot_readers m s of None \<Rightarrow> slot_readers m
                    | Some n \<Rightarrow> (slot_readers m)(s \<mapsto> n - 1))\<rparr>;
          remaining = reader_count m1 s;
          m2 = update_writer s (\<lambda>wl. wl\<lparr>consumer_count := consumer_count wl - 1\<rparr>) m1
      in if remaining \<noteq> 0 then m2
         else let should_cleanup = (case slot_write_lease m2 s of None \<Rightarrow> False
                    | Some wid \<Rightarrow> (case map_of (leases m2) wid of None \<Rightarrow> False
                        | Some wl \<Rightarrow> state wl = Consumed));
                  m3 = (if should_cleanup then
                      (case slot_write_lease m2 s of None \<Rightarrow> m2
                       | Some wid \<Rightarrow> m2\<lparr>slot_write_lease := (slot_write_lease m2)(s := None),
                           leases := btree_remove wid (leases m2)\<rparr>)
                    else m2)
              in m3\<lparr>slot_readers := (slot_readers m3)(s := None)\<rparr>)"

definition release :: "nat \<Rightarrow> nat \<Rightarrow> lease_manager \<Rightarrow> (lease_error, lease_manager) outcome" where
  "release now i m = (case map_of (leases m) i of None \<Rightarrow> Err (LeaseNotFound i)
     | Some l \<Rightarrow> if is_writer l then Ok (release_writer now i (slot_id l) m)
         else Ok (release_reader i (slot_id l) m))"

definition release_ignoring :: "nat \<Rightarrow> nat \<Rightarrow> lease_manager \<Rightarrow> lease_manager" where
  "release_ignoring now i m = (case release now i m of Ok m' \<Rightarrow> m' | _ \<Rightarrow> m)"

definition release_session :: "nat \<Rightarrow> string \<Rightarrow> lease_manager \<Rightarrow> nat list \<times> lease_manager" where
  "release_session now session m =
     (let to_remove = map fst (filter (\<lambda>(i, l). owner_session l = session) (leases m))
      in (to_remove, fold (release_ignoring now) to_remove m))"

definition poison_slot :: "nat \<Rightarrow> nat \<Rightarrow> lease_manager \<Rightarrow> lease_manager" where
  "poison_slot now s m = m\<lparr>poisoned_slots := (poisoned_slots m)(s \<mapsto> now)\<rparr>"

definition unpoison_slot :: "nat \<Rightarrow> lease_manager \<Rightarrow> lease_manager" where
  "unpoison_slot s m = m\<lparr>poisoned_slots := (poisoned_slots m)(s := None)\<rparr>"

subsection \<open>The lease invariant\<close>

text \<open>The read leases on a slot.\<close>

definition reads_slot :: "nat \<Rightarrow> nat \<times> slot_lease \<Rightarrow> bool" where
  "reads_slot s p \<longleftrightarrow> slot_id (snd p) = s \<and> \<not> is_writer (snd p)"

definition readers_on :: "lease_manager \<Rightarrow> nat \<Rightarrow> nat" where
  "readers_on m s = length (filter (reads_slot s) (leases m))"

definition lease_ok :: "lease_manager \<Rightarrow> nat \<Rightarrow> slot_lease \<Rightarrow> bool" where
  "lease_ok m i l \<longleftrightarrow> lease_id l = i \<and> i < next_lease_id m \<and>
     (if is_writer l
      then slot_write_lease m (slot_id l) = Some i \<and> state l \<in> {WriteActive, OutputReady, Consumed} \<and>
           (state l = Consumed \<longrightarrow> 0 < reader_count m (slot_id l))
      else state l = ReadActive)"

text \<open>
  Every slot has at most one write lease, the one its index names; the reader count of a slot is the
  number of its read leases; a consumed writer still has readers.
\<close>

definition lease_inv :: "lease_manager \<Rightarrow> bool" where
  "lease_inv m \<longleftrightarrow> sorted_wrt (<) (map fst (leases m)) \<and>
     (\<forall>i l. get_lease m i = Some l \<longrightarrow> lease_ok m i l) \<and>
     (\<forall>s i. slot_write_lease m s = Some i \<longrightarrow> (\<exists>l. get_lease m i = Some l \<and> is_writer l \<and> slot_id l = s)) \<and>
     (\<forall>s. reader_count m s = readers_on m s)"

lemma lease_invI:
  assumes "sorted_wrt (<) (map fst (leases m))"
    and "\<And>i l. get_lease m i = Some l \<Longrightarrow> lease_ok m i l"
    and "\<And>s i. slot_write_lease m s = Some i \<Longrightarrow> \<exists>l. get_lease m i = Some l \<and> is_writer l \<and> slot_id l = s"
    and "\<And>s. reader_count m s = readers_on m s"
  shows "lease_inv m"
  using assms by (simp add: lease_inv_def)

lemma lease_invD:
  assumes "lease_inv m"
  shows "sorted_wrt (<) (map fst (leases m))"
    and "get_lease m i = Some l \<Longrightarrow> lease_ok m i l"
    and "slot_write_lease m s = Some i \<Longrightarrow> \<exists>l. get_lease m i = Some l \<and> is_writer l \<and> slot_id l = s"
    and "reader_count m s = readers_on m s"
  using assms by (simp_all add: lease_inv_def)

lemma lease_inv_new: "lease_inv manager_new" "active_lease_count manager_new = 0"
  by (simp_all add: lease_inv_def manager_new_def get_lease_def reader_count_def readers_on_def
      active_lease_count_def)

lemma readers_on_le: "readers_on m s \<le> active_lease_count m"
  by (simp add: readers_on_def active_lease_count_def)

lemma fresh_id: "lease_inv m \<Longrightarrow> next_lease_id m \<notin> fst ` set (leases m)"
proof
  assume inv: "lease_inv m" and "next_lease_id m \<in> fst ` set (leases m)"
  then obtain l where "(next_lease_id m, l) \<in> set (leases m)" by auto
  then have "get_lease m (next_lease_id m) = Some l"
    using map_of_sorted_mem[OF lease_invD(1)[OF inv]] by (simp add: get_lease_def)
  then show False using lease_invD(2)[OF inv] by (auto simp: lease_ok_def)
qed

text \<open>Changes of one lease.\<close>

lemma count_insert_new:
  fixes m :: "(nat \<times> slot_lease) list"
  assumes "sorted_wrt (<) (map fst m)" "i \<notin> fst ` set m"
  shows "length (filter P (btree_insert i l m)) = of_bool (P (i, l)) + length (filter P m)"
  using count_btree_insert[OF assms(1)] by (simp add: btree_remove_absent[OF assms(2)])

lemma count_insert_same:
  fixes m :: "(nat \<times> slot_lease) list"
  assumes "sorted_wrt (<) (map fst m)" "map_of m i = Some l" "P (i, l') = P (i, l)"
  shows "length (filter P (btree_insert i l' m)) = length (filter P m)"
  using count_btree_insert[OF assms(1), of P i l'] count_btree_remove[OF assms(1,2), of P] assms(3)
  by simp

lemma update_writer_fields [simp]:
  "slot_write_lease (update_writer s f m) = slot_write_lease m"
  "slot_readers (update_writer s f m) = slot_readers m"
  "poisoned_slots (update_writer s f m) = poisoned_slots m"
  "next_lease_id (update_writer s f m) = next_lease_id m"
  "reader_count (update_writer s f m) t = reader_count m t"
  by (simp_all add: update_writer_def reader_count_def split: option.split)

lemma get_update_writer: "get_lease (update_writer s f m) i =
    (if slot_write_lease m s = Some i then map_option f (get_lease m i) else get_lease m i)"
  by (auto simp: update_writer_def get_lease_def map_of_btree_insert split: option.split)

lemma sorted_update_writer:
  "sorted_wrt (<) (map fst (leases m)) \<Longrightarrow> sorted_wrt (<) (map fst (leases (update_writer s f m)))"
  using sorted_btree_insert by (auto simp: update_writer_def split: option.split)

definition keeps_kind :: "(slot_lease \<Rightarrow> slot_lease) \<Rightarrow> bool" where
  "keeps_kind f \<longleftrightarrow> (\<forall>l. slot_id (f l) = slot_id l \<and> access (f l) = access l \<and> state (f l) = state l \<and>
     lease_id (f l) = lease_id l)"

lemma keeps_kind_writer: "keeps_kind f \<Longrightarrow> is_writer (f l) = is_writer l"
  by (simp add: keeps_kind_def is_writer_def)

lemma keeps_kind_count [simp]: "keeps_kind (\<lambda>l. l\<lparr>consumer_count := g l\<rparr>)"
  by (simp add: keeps_kind_def)

lemma count_update_writer:
  assumes "sorted_wrt (<) (map fst (leases m))" "\<And>i l. P (i, f l) = P (i, l)"
  shows "length (filter P (leases (update_writer s f m))) = length (filter P (leases m))"
  using count_insert_same[OF assms(1)] assms(2)
  by (auto simp: update_writer_def split: option.split)

lemma readers_update_writer:
  assumes "sorted_wrt (<) (map fst (leases m))" "keeps_kind f"
  shows "readers_on (update_writer s f m) t = readers_on m t"
    "active_lease_count (update_writer s f m) = active_lease_count m"
proof -
  show "readers_on (update_writer s f m) t = readers_on m t"
    using count_update_writer[OF assms(1), of "reads_slot t" f s] assms(2) keeps_kind_writer[OF assms(2)]
    by (simp add: readers_on_def reads_slot_def keeps_kind_def)
  show "active_lease_count (update_writer s f m) = active_lease_count m"
    using count_update_writer[OF assms(1), of "\<lambda>_. True" f s] by (simp add: active_lease_count_def)
qed

text \<open>An invariant-preserving change of the write lease of a slot.\<close>

lemma inv_update_writer:
  assumes "lease_inv m" "keeps_kind f"
  shows "lease_inv (update_writer s f m)"
proof (rule lease_invI)
  show "sorted_wrt (<) (map fst (leases (update_writer s f m)))"
    using sorted_update_writer lease_invD(1)[OF assms(1)] by blast
  fix i l assume "get_lease (update_writer s f m) i = Some l"
  then obtain l0 where "get_lease m i = Some l0" "l = l0 \<or> l = f l0"
    by (auto simp: get_update_writer split: if_splits)
  moreover have "lease_ok m i (f l0) = lease_ok m i l0"
    using assms(2) keeps_kind_writer[OF assms(2)] by (simp add: lease_ok_def keeps_kind_def)
  moreover have "lease_ok (update_writer s f m) i l = lease_ok m i l" by (simp add: lease_ok_def)
  ultimately show "lease_ok (update_writer s f m) i l" using lease_invD(2)[OF assms(1)] by auto
next
  fix t i assume "slot_write_lease (update_writer s f m) t = Some i"
  then show "\<exists>l. get_lease (update_writer s f m) i = Some l \<and> is_writer l \<and> slot_id l = t"
    using lease_invD(3)[OF assms(1), of t i] assms(2) keeps_kind_writer[OF assms(2)]
    by (auto simp: get_update_writer keeps_kind_def)
next
  fix t show "reader_count (update_writer s f m) t = readers_on (update_writer s f m) t"
    using lease_invD(1,4)[OF assms(1)] readers_update_writer[OF _ assms(2)] by simp
qed

subsection \<open>Every operation keeps the invariant\<close>

lemma acquire_write_inv:
  assumes "lease_inv m" "acquire_write now s w session m = Ok (i, m')"
  shows "lease_inv m'" "active_lease_count m' = active_lease_count m + 1"
proof -
  let ?l = "\<lparr>lease_id = next_lease_id m, slot_id = s, owner_work_id = w, owner_session = session,
     access = Write, state = WriteActive, acquired_at = now, last_transition = now, consumer_count = 0\<rparr>"
  let ?i = "next_lease_id m"
  have none: "slot_write_lease m s = None"
    and m': "m' = m\<lparr>next_lease_id := ?i + 1, leases := btree_insert ?i ?l (leases m),
       slot_write_lease := (slot_write_lease m)(s \<mapsto> ?i)\<rparr>"
    using assms(2) by (auto simp: acquire_write_def Let_def split: if_splits option.splits)
  note d = lease_invD[OF assms(1)]
  have wr: "is_writer ?l" by (simp add: is_writer_def)
  have ro: "readers_on m' t = readers_on m t" for t
    using count_insert_new[OF d(1) fresh_id[OF assms(1)], of "reads_slot t" ?l] wr
    by (simp add: readers_on_def m' reads_slot_def)
  show "active_lease_count m' = active_lease_count m + 1"
    using count_insert_new[OF d(1) fresh_id[OF assms(1)], of "\<lambda>_. True" ?l]
    by (simp add: active_lease_count_def m')
  have get: "get_lease m' j = (if j = ?i then Some ?l else get_lease m j)" for j
    by (simp add: get_lease_def m' map_of_btree_insert)
  have rc: "reader_count m' t = reader_count m t" for t by (simp add: m' reader_count_def)
  have wl: "slot_write_lease m' = (slot_write_lease m)(s \<mapsto> ?i)" "next_lease_id m' = ?i + 1"
    by (simp_all add: m')
  show "lease_inv m'"
  proof (rule lease_invI)
    show "sorted_wrt (<) (map fst (leases m'))" using sorted_btree_insert[OF d(1)] by (simp add: m')
    fix j l assume "get_lease m' j = Some l"
    then show "lease_ok m' j l"
      using d(2)[of j l] none wr by (auto simp: get lease_ok_def rc wl split: if_splits)
  next
    fix t j assume "slot_write_lease m' t = Some j"
    moreover have "j \<noteq> ?i" if "slot_write_lease m t = Some j"
      using d(2,3) that by (fastforce simp: lease_ok_def)
    ultimately show "\<exists>l. get_lease m' j = Some l \<and> is_writer l \<and> slot_id l = t"
      using d(3)[of t j] wr by (auto simp: get wl split: if_splits)
  qed (simp add: rc ro d(4))
qed

lemma acquire_read_inv:
  assumes "lease_inv m" "acquire_read now s w session m = Ok (i, m')"
  shows "active_lease_count m' = active_lease_count m + 1"
    and "active_lease_count m < 2 ^ 32 - 1 \<Longrightarrow> lease_inv m'"
proof -
  let ?i = "next_lease_id m"
  let ?l = "\<lparr>lease_id = ?i, slot_id = s, owner_work_id = w, owner_session = session,
     access = Read, state = ReadActive, acquired_at = now, last_transition = now, consumer_count = 0\<rparr>"
  let ?m1 = "m\<lparr>next_lease_id := ?i + 1, leases := btree_insert ?i ?l (leases m),
     slot_readers := (slot_readers m)(s \<mapsto> sat_inc (reader_count m s))\<rparr>"
  let ?f = "\<lambda>wl :: slot_lease. wl\<lparr>consumer_count := sat_inc (consumer_count wl)\<rparr>"
  have m': "m' = update_writer s ?f ?m1"
    using assms(2) by (auto simp: acquire_read_def Let_def split: if_splits option.splits)
  note d = lease_invD[OF assms(1)]
  have rd: "\<not> is_writer ?l" by (simp add: is_writer_def)
  have sm: "sorted_wrt (<) (map fst (leases ?m1))" using sorted_btree_insert[OF d(1)] by simp
  have ro: "readers_on ?m1 t = readers_on m t + of_bool (t = s)" for t
    using count_insert_new[OF d(1) fresh_id[OF assms(1)], of "reads_slot t" ?l] rd
    by (auto simp: readers_on_def reads_slot_def)
  have ac: "active_lease_count ?m1 = active_lease_count m + 1"
    using count_insert_new[OF d(1) fresh_id[OF assms(1)], of "\<lambda>_. True" ?l]
    by (simp add: active_lease_count_def)
  then show "active_lease_count m' = active_lease_count m + 1"
    using readers_update_writer(2)[OF sm] by (simp add: m')
  have get: "get_lease ?m1 j = (if j = ?i then Some ?l else get_lease m j)" for j
    by (simp add: get_lease_def map_of_btree_insert)
  assume room: "active_lease_count m < 2 ^ 32 - 1"
  have rc: "reader_count ?m1 t = reader_count m t + of_bool (t = s)" for t
    using d(4)[of s] readers_on_le[of m s] room by (simp add: reader_count_def[of "_\<lparr>slot_readers := _\<rparr>"] sat_inc_def)
      (simp add: reader_count_def)
  have "lease_inv ?m1"
  proof (rule lease_invI[OF sm])
    fix j l assume "get_lease ?m1 j = Some l"
    then show "lease_ok ?m1 j l"
      using d(2)[of j l] rd unfolding get lease_ok_def rc by (auto split: if_splits)
  next
    fix t j assume "slot_write_lease ?m1 t = Some j"
    then obtain l where "get_lease m j = Some l" "is_writer l" "slot_id l = t" using d(3)[of t j] by auto
    moreover from this have "j \<noteq> ?i" using d(2)[of j l] by (auto simp: lease_ok_def)
    ultimately show "\<exists>l. get_lease ?m1 j = Some l \<and> is_writer l \<and> slot_id l = t" unfolding get by simp
  next
    fix t show "reader_count ?m1 t = readers_on ?m1 t" unfolding rc ro using d(4) by simp
  qed
  then show "lease_inv m'" unfolding m' by (rule inv_update_writer) simp
qed

text \<open>Replacing a lease by one of the same kind in another admissible state.\<close>

lemma inv_set_state:
  assumes "lease_inv m" "get_lease m i = Some l" "lease_ok m i l'" "slot_id l' = slot_id l" "is_writer l' = is_writer l"
  shows "lease_inv (m\<lparr>leases := btree_insert i l' (leases m)\<rparr>)"
    "active_lease_count (m\<lparr>leases := btree_insert i l' (leases m)\<rparr>) = active_lease_count m"
proof -
  let ?m = "m\<lparr>leases := btree_insert i l' (leases m)\<rparr>"
  note d = lease_invD[OF assms(1)]
  have mi: "map_of (leases m) i = Some l" using assms(2) by (simp add: get_lease_def)
  show "active_lease_count ?m = active_lease_count m"
    using count_insert_same[OF d(1) mi, of "\<lambda>_. True"] by (simp add: active_lease_count_def)
  have ro: "readers_on ?m t = readers_on m t" for t
    using count_insert_same[OF d(1) mi, of "reads_slot t" l'] assms(4,5)
    by (simp add: readers_on_def reads_slot_def)
  have get: "get_lease ?m j = (if j = i then Some l' else get_lease m j)" for j
    by (simp add: get_lease_def map_of_btree_insert)
  have rc: "reader_count ?m t = reader_count m t" for t by (simp add: reader_count_def)
  show "lease_inv ?m"
  proof (rule lease_invI)
    show "sorted_wrt (<) (map fst (leases ?m))" using sorted_btree_insert[OF d(1)] by simp
    fix j x assume "get_lease ?m j = Some x"
    then have "lease_ok m j x" using d(2)[of j x] assms(3) unfolding get by (auto split: if_splits)
    then show "lease_ok ?m j x" by (auto simp: lease_ok_def rc)
  next
    fix t j assume "slot_write_lease ?m t = Some j"
    then show "\<exists>x. get_lease ?m j = Some x \<and> is_writer x \<and> slot_id x = t"
      using d(3)[of t j] assms(2,4,5) unfolding get by auto
  next
    fix t show "reader_count ?m t = readers_on ?m t" unfolding rc ro by (rule d(4))
  qed
qed

lemma mark_output_ready_inv:
  assumes "lease_inv m" "mark_output_ready now i m = Ok m'"
  shows "lease_inv m'" "active_lease_count m' = active_lease_count m"
proof -
  obtain l where l: "get_lease m i = Some l" "state l = WriteActive"
    and m': "m' = m\<lparr>leases := btree_insert i (l\<lparr>state := OutputReady, last_transition := now\<rparr>) (leases m)\<rparr>"
    using assms(2) by (auto simp: mark_output_ready_def get_lease_def split: option.splits if_splits)
  have "lease_ok m i (l\<lparr>state := OutputReady, last_transition := now\<rparr>)"
    using lease_invD(2)[OF assms(1) l(1)] l(2) by (auto simp: lease_ok_def is_writer_def split: if_splits)
  then show "lease_inv m'" "active_lease_count m' = active_lease_count m"
    unfolding m' using inv_set_state[OF assms(1) l(1)] by (simp_all add: is_writer_def)
qed

text \<open>Removing a lease from the table.\<close>

lemma get_btree_remove: "get_lease (m\<lparr>leases := btree_remove i (leases m)\<rparr>) j = (if j = i then None else get_lease m j)"
  by (simp add: get_lease_def map_of_btree_remove)

lemma readers_remove:
  assumes "lease_inv m" "get_lease m i = Some l"
  shows "length (filter (reads_slot t) (btree_remove i (leases m))) + of_bool (reads_slot t (i, l)) = readers_on m t"
    "length (btree_remove i (leases m)) + 1 = active_lease_count m"
  using count_btree_remove[OF lease_invD(1)[OF assms(1)], of i l "reads_slot t"]
    count_btree_remove[OF lease_invD(1)[OF assms(1)], of i l "\<lambda>_. True"] assms(2)
  by (simp_all add: readers_on_def active_lease_count_def get_lease_def)

text \<open>A slot without readers loses its writer.\<close>

lemma inv_drop_writer:
  assumes "lease_inv m" "get_lease m i = Some l" "is_writer l" "slot_id l = s" "reader_count m s = 0"
  shows "lease_inv (m\<lparr>leases := btree_remove i (leases m), slot_write_lease := (slot_write_lease m)(s := None),
      slot_readers := (slot_readers m)(s := None)\<rparr>)" (is "lease_inv ?m")
proof -
  note d = lease_invD[OF assms(1)]
  have w: "slot_write_lease m s = Some i" using d(2)[OF assms(2)] assms(3,4) by (simp add: lease_ok_def)
  have get: "get_lease ?m j = (if j = i then None else get_lease m j)" for j
    by (simp add: get_lease_def map_of_btree_remove)
  have rc: "reader_count ?m t = reader_count m t" for t using assms(5) by (simp add: reader_count_def)
  have ro: "readers_on ?m t = readers_on m t" for t
    using readers_remove(1)[OF assms(1,2), of t] assms(3) by (simp add: readers_on_def reads_slot_def)
  have wl: "slot_write_lease ?m = (slot_write_lease m)(s := None)" "next_lease_id ?m = next_lease_id m" by simp_all
  show ?thesis
  proof (rule lease_invI)
    show "sorted_wrt (<) (map fst (leases ?m))" using sorted_btree_remove[OF d(1)] by simp
    fix j x assume "get_lease ?m j = Some x"
    then show "lease_ok ?m j x"
      using d(2)[of j x] w unfolding get lease_ok_def rc wl by (auto split: if_splits)
  next
    fix t j assume "slot_write_lease ?m t = Some j"
    then show "\<exists>x. get_lease ?m j = Some x \<and> is_writer x \<and> slot_id x = t"
      using d(3)[of t j] assms(2,4) unfolding get wl by (auto split: if_splits)
  next
    fix t show "reader_count ?m t = readers_on ?m t" unfolding rc ro by (rule d(4))
  qed
qed

lemma release_writer_inv:
  assumes "lease_inv m" "get_lease m i = Some l" "is_writer l"
  shows "lease_inv (release_writer now i (slot_id l) m)"
    "active_lease_count (release_writer now i (slot_id l) m) \<le> active_lease_count m"
proof -
  have "lease_inv (release_writer now i (slot_id l) m) \<and>
    active_lease_count (release_writer now i (slot_id l) m) \<le> active_lease_count m"
  proof (cases "reader_count m (slot_id l) = 0")
    case True
    then show ?thesis
      using inv_drop_writer[OF assms refl True] readers_remove(2)[OF assms(1,2)]
      by (simp add: release_writer_def active_lease_count_def)
  next
    case False
    let ?l' = "l\<lparr>state := Consumed, last_transition := now\<rparr>"
    have "lease_ok m i ?l'"
      using lease_invD(2)[OF assms(1,2)] assms(3) False by (simp add: lease_ok_def is_writer_def)
    then show ?thesis
      using inv_set_state[OF assms(1,2), of ?l'] assms(2) False
      by (simp add: release_writer_def is_writer_def get_lease_def)
  qed
  then show "lease_inv (release_writer now i (slot_id l) m)"
    "active_lease_count (release_writer now i (slot_id l) m) \<le> active_lease_count m" by auto
qed

text \<open>The first half of a reader's release: its lease leaves the table and the slot's count.\<close>

definition drop_reader :: "nat \<Rightarrow> nat \<Rightarrow> lease_manager \<Rightarrow> lease_manager" where
  "drop_reader i s m = m\<lparr>leases := btree_remove i (leases m),
     slot_readers := (case slot_readers m s of None \<Rightarrow> slot_readers m | Some n \<Rightarrow> (slot_readers m)(s \<mapsto> n - 1))\<rparr>"

definition consumed_writer :: "lease_manager \<Rightarrow> nat \<Rightarrow> nat option" where
  "consumed_writer m s = (case slot_write_lease m s of None \<Rightarrow> None
     | Some wid \<Rightarrow> (case get_lease m wid of None \<Rightarrow> None | Some wl \<Rightarrow> if state wl = Consumed then Some wid else None))"

lemma consumed_writer_Some: "consumed_writer m s = Some wid \<longleftrightarrow> slot_write_lease m s = Some wid \<and>
    (\<exists>wl. get_lease m wid = Some wl \<and> state wl = Consumed)"
  by (auto simp: consumed_writer_def split: option.splits)

lemma drop_reader_fields [simp]:
  "slot_write_lease (drop_reader i s m) = slot_write_lease m"
  "next_lease_id (drop_reader i s m) = next_lease_id m"
  "poisoned_slots (drop_reader i s m) = poisoned_slots m"
  by (simp_all add: drop_reader_def)

lemma get_drop_reader: "get_lease (drop_reader i s m) j = (if j = i then None else get_lease m j)"
  by (simp add: drop_reader_def get_lease_def map_of_btree_remove)

lemma count_drop_reader: "reader_count (drop_reader i s m) t = (if t = s then reader_count m s - 1 else reader_count m t)"
  by (simp add: drop_reader_def reader_count_def split: option.split)

lemma sorted_drop_reader:
  "sorted_wrt (<) (map fst (leases m)) \<Longrightarrow> sorted_wrt (<) (map fst (leases (drop_reader i s m)))"
  using sorted_btree_remove[of "leases m" i] by (simp add: drop_reader_def)

definition uncount :: "slot_lease \<Rightarrow> slot_lease" where
  "uncount wl = wl\<lparr>consumer_count := consumer_count wl - 1\<rparr>"

lemma uncount_kind [simp]: "keeps_kind uncount" "is_writer (uncount l) = is_writer l" "slot_id (uncount l) = slot_id l"
  "state (uncount l) = state l" "owner_session (uncount l) = owner_session l"
  by (simp_all add: keeps_kind_def uncount_def is_writer_def)

text \<open>\<open>release_reader\<close> in these terms.\<close>

lemma release_reader_eq:
  "release_reader i s m =
     (let m2 = update_writer s uncount (drop_reader i s m) in
      if reader_count (drop_reader i s m) s \<noteq> 0 then m2
      else (case consumed_writer m2 s of
          Some wid \<Rightarrow> m2\<lparr>slot_write_lease := (slot_write_lease m2)(s := None),
             leases := btree_remove wid (leases m2), slot_readers := (slot_readers m2)(s := None)\<rparr>
        | None \<Rightarrow> m2\<lparr>slot_readers := (slot_readers m2)(s := None)\<rparr>))"
proof -
  have "update_writer s (\<lambda>wl. wl\<lparr>consumer_count := consumer_count wl - 1\<rparr>) = update_writer s uncount"
    by (simp add: uncount_def[abs_def])
  then show ?thesis
    unfolding release_reader_def drop_reader_def[symmetric] Let_def
    by (simp add: consumed_writer_def get_lease_def drop_reader_def split: option.split)
qed

lemma drop_readers_on:
  assumes inv: "lease_inv m" and l: "get_lease m i = Some l" "\<not> is_writer l" "slot_id l = s"
  shows "readers_on (drop_reader i s m) t = reader_count (drop_reader i s m) t"
  "0 < reader_count m s"
proof -
  have "reads_slot t (i, l) \<longleftrightarrow> t = s" for t using l by (auto simp: reads_slot_def)
  then have r: "readers_on (drop_reader i s m) t + of_bool (t = s) = reader_count m t" for t
    using readers_remove(1)[OF inv l(1), of t] lease_invD(4)[OF inv, of t]
    by (simp add: readers_on_def drop_reader_def)
  show "readers_on (drop_reader i s m) t = reader_count (drop_reader i s m) t"
    using r[of t] r[of s] by (auto simp: count_drop_reader)
  show "0 < reader_count m s" using r[of s] by simp
qed

lemma drop_reader_count:
  assumes inv: "lease_inv m" and l: "get_lease m i = Some l" "\<not> is_writer l" "slot_id l = s"
  shows "active_lease_count (drop_reader i s m) + 1 = active_lease_count m"
  using readers_remove(2)[OF inv l(1)] by (simp add: active_lease_count_def drop_reader_def)

text \<open>The invariant survives unless the last reader of a consumed writer leaves.\<close>

lemma drop_reader_inv:
  assumes inv: "lease_inv m" and l: "get_lease m i = Some l" "\<not> is_writer l" "slot_id l = s"
    and "reader_count (drop_reader i s m) s \<noteq> 0 \<or> consumed_writer m s = None"
  shows "lease_inv (drop_reader i s m)"
proof -
  note d = lease_invD[OF inv]
  show ?thesis
  proof (rule lease_invI)
    show "sorted_wrt (<) (map fst (leases (drop_reader i s m)))" using sorted_drop_reader d(1) by blast
    fix j x assume "get_lease (drop_reader i s m) j = Some x"
    then have x: "get_lease m j = Some x" by (simp add: get_drop_reader split: if_splits)
    have "consumed_writer m s = Some j" if "is_writer x" "slot_id x = s" "state x = Consumed"
      using that x d(2)[OF x] by (auto simp: consumed_writer_Some lease_ok_def)
    then show "lease_ok (drop_reader i s m) j x"
      using d(2)[OF x] assms(5) unfolding lease_ok_def by (auto simp: count_drop_reader)
  next
    fix t j assume "slot_write_lease (drop_reader i s m) t = Some j"
    then obtain x where "get_lease m j = Some x" "is_writer x" "slot_id x = t" using d(3)[of t j] by auto
    then show "\<exists>x. get_lease (drop_reader i s m) j = Some x \<and> is_writer x \<and> slot_id x = t"
      using l by (auto simp: get_drop_reader)
  next
    fix t show "reader_count (drop_reader i s m) t = readers_on (drop_reader i s m) t"
      using drop_readers_on(1)[OF inv l] by simp
  qed
qed

text \<open>The last reader of a consumed writer takes the writer along.\<close>

lemma drop_consumed_inv:
  assumes inv: "lease_inv m" and l: "get_lease m i = Some l" "\<not> is_writer l" "slot_id l = s"
    and zero: "reader_count (drop_reader i s m) s = 0" and cw: "slot_write_lease m s = Some wid"
  defines "m2 \<equiv> update_writer s uncount (drop_reader i s m)"
  defines "m3 \<equiv> m2\<lparr>slot_write_lease := (slot_write_lease m2)(s := None),
     leases := btree_remove wid (leases m2), slot_readers := (slot_readers m2)(s := None)\<rparr>"
  shows "lease_inv m3" "active_lease_count m3 + 2 = active_lease_count m"
proof -
  note d = lease_invD[OF inv]
  obtain wl where wl: "get_lease m wid = Some wl" "is_writer wl" "slot_id wl = s" using d(3)[OF cw] by blast
  have ne: "wid \<noteq> i" using wl l by auto
  have s1: "sorted_wrt (<) (map fst (leases (drop_reader i s m)))" using sorted_drop_reader d(1) by blast
  have s2: "sorted_wrt (<) (map fst (leases m2))" unfolding m2_def using sorted_update_writer[OF s1] .
  have g2: "get_lease m2 wid = Some (uncount wl)" using wl(1) cw ne by (simp add: m2_def get_update_writer get_drop_reader)
  have get: "get_lease m3 j = (if j = i \<or> j = wid then None else get_lease m j)" for j
  proof -
    have "get_lease m3 j = (if j = wid then None else get_lease m2 j)"
      by (simp add: m3_def get_lease_def map_of_btree_remove)
    then show ?thesis using cw by (auto simp: m2_def get_update_writer get_drop_reader)
  qed
  have rc: "reader_count m3 t = reader_count (drop_reader i s m) t" for t
  proof -
    have "reader_count m2 t = reader_count (drop_reader i s m) t" by (simp add: m2_def)
    then show ?thesis using zero by (auto simp: m3_def reader_count_def m2_def)
  qed
  have ro: "readers_on m3 t = reader_count m3 t" for t
  proof -
    have "readers_on m2 t = readers_on (drop_reader i s m) t"
      unfolding m2_def by (rule readers_update_writer(1)[OF s1]) simp
    moreover have "readers_on m2 t = readers_on m3 t"
      using count_btree_remove[OF s2, of wid "uncount wl" "reads_slot t"] g2 wl(2)
      by (simp add: readers_on_def m3_def get_lease_def reads_slot_def)
    ultimately show ?thesis using drop_readers_on(1)[OF inv l, of t] rc by simp
  qed
  have wm: "slot_write_lease m3 = (slot_write_lease m)(s := None)" "next_lease_id m3 = next_lease_id m"
    by (simp_all add: m3_def m2_def)
  show "lease_inv m3"
  proof (rule lease_invI)
    show "sorted_wrt (<) (map fst (leases m3))" using sorted_btree_remove[OF s2] by (simp add: m3_def)
    fix j x assume x: "get_lease m3 j = Some x"
    then have j: "j \<noteq> wid" "get_lease m j = Some x" unfolding get by (auto split: if_splits)
    have ne: "is_writer x \<Longrightarrow> slot_id x \<noteq> s" using d(2)[OF j(2)] j(1) cw by (auto simp: lease_ok_def)
    then show "lease_ok m3 j x"
      using d(2)[OF j(2)] unfolding lease_ok_def wm rc by (auto simp: count_drop_reader)
  next
    fix t j assume "slot_write_lease m3 t = Some j"
    then have t: "slot_write_lease m t = Some j" "t \<noteq> s" by (auto simp: wm split: if_splits)
    then obtain x where x: "get_lease m j = Some x" "is_writer x" "slot_id x = t" using d(3)[of t j] by blast
    then have "j \<noteq> wid" "j \<noteq> i" using wl l t(2) by auto
    then show "\<exists>x. get_lease m3 j = Some x \<and> is_writer x \<and> slot_id x = t" using x get by auto
  qed (simp add: ro)
  have "active_lease_count m3 + 1 = active_lease_count m2"
    using count_btree_remove[OF s2, of wid "uncount wl" "\<lambda>_. True"] g2
    by (simp add: active_lease_count_def m3_def get_lease_def)
  moreover have "active_lease_count m2 = active_lease_count (drop_reader i s m)"
    unfolding m2_def by (rule readers_update_writer(2)[OF s1]) simp
  ultimately show "active_lease_count m3 + 2 = active_lease_count m"
    using drop_reader_count[OF inv l] by simp
qed

lemma lease_inv_cong:
  assumes "leases m' = leases m" "slot_write_lease m' = slot_write_lease m" "reader_count m' = reader_count m"
    "next_lease_id m' = next_lease_id m"
  shows "lease_inv m' = lease_inv m"
  unfolding lease_inv_def lease_ok_def get_lease_def readers_on_def assms by (rule refl)

lemma inv_clear_readers:
  assumes "lease_inv m" "reader_count m s = 0"
  shows "lease_inv (m\<lparr>slot_readers := (slot_readers m)(s := None)\<rparr>)"
proof -
  have "reader_count (m\<lparr>slot_readers := (slot_readers m)(s := None)\<rparr>) = reader_count m"
    using assms(2) by (auto simp: reader_count_def fun_eq_iff)
  from lease_inv_cong[OF _ _ this] show ?thesis using assms(1) by simp
qed

lemma release_reader_inv:
  assumes inv: "lease_inv m" and l: "get_lease m i = Some l" "\<not> is_writer l" "slot_id l = s"
  shows "lease_inv (release_reader i s m)" "active_lease_count (release_reader i s m) < active_lease_count m"
proof -
  let ?m1 = "drop_reader i s m"
  let ?m2 = "update_writer s uncount ?m1"
  have s1: "sorted_wrt (<) (map fst (leases ?m1))" using sorted_drop_reader lease_invD(1)[OF inv] by blast
  have ac: "active_lease_count ?m2 < active_lease_count m"
    using readers_update_writer(2)[OF s1, of uncount] drop_reader_count[OF inv l] by simp
  have cw: "consumed_writer ?m2 s = consumed_writer m s"
  proof -
    have "wid \<noteq> i" if "slot_write_lease m s = Some wid" for wid
      using lease_invD(3)[OF inv that] l by auto
    then show ?thesis
      by (auto simp: consumed_writer_def get_update_writer get_drop_reader split: option.split)
  qed
  have "lease_inv (release_reader i s m) \<and> active_lease_count (release_reader i s m) < active_lease_count m"
  proof (cases "reader_count ?m1 s \<noteq> 0")
    case True
    then show ?thesis
      using inv_update_writer[OF drop_reader_inv[OF inv l], of uncount] ac
      by (simp add: release_reader_eq Let_def)
  next
    case False
    show ?thesis
    proof (cases "consumed_writer m s")
      case None
      then have "lease_inv ?m2" using inv_update_writer[OF drop_reader_inv[OF inv l]] by simp
      then show ?thesis
        using False None inv_clear_readers[of ?m2 s] ac
        by (simp add: release_reader_eq Let_def cw active_lease_count_def)
    next
      case (Some wid)
      then have "slot_write_lease m s = Some wid" by (simp add: consumed_writer_Some)
      then show ?thesis
        using drop_consumed_inv[OF inv l] False Some cw by (simp add: release_reader_eq Let_def)
    qed
  qed
  then show "lease_inv (release_reader i s m)" "active_lease_count (release_reader i s m) < active_lease_count m"
    by auto
qed

lemma release_inv:
  assumes "lease_inv m" "release now i m = Ok m'"
  shows "lease_inv m'" "active_lease_count m' \<le> active_lease_count m"
proof -
  obtain l where l: "get_lease m i = Some l"
    "m' = (if is_writer l then release_writer now i (slot_id l) m else release_reader i (slot_id l) m)"
    using assms(2) by (auto simp: release_def get_lease_def split: option.splits if_splits)
  show "lease_inv m'" "active_lease_count m' \<le> active_lease_count m"
    using release_writer_inv[OF assms(1) l(1)] release_reader_inv[OF assms(1) l(1) _ refl] l(2)
    by (auto simp: less_imp_le)
qed

lemma release_no_panic: "release now i m \<noteq> Panic"
  by (simp add: release_def split: option.split)

lemma release_ignoring_inv:
  assumes "lease_inv m"
  shows "lease_inv (release_ignoring now i m)" "active_lease_count (release_ignoring now i m) \<le> active_lease_count m"
  using release_inv[OF assms, of now i] assms by (auto simp: release_ignoring_def split: outcome.split)

lemma release_fold_inv:
  "lease_inv m \<Longrightarrow> lease_inv (fold (release_ignoring now) is m) \<and>
     active_lease_count (fold (release_ignoring now) is m) \<le> active_lease_count m"
proof (induction "is" arbitrary: m)
  case (Cons i ids)
  then show ?case using release_ignoring_inv[OF Cons.prems, of now i] by fastforce
qed simp

lemma poison_inv:
  "lease_inv m \<Longrightarrow> lease_inv (poison_slot now s m)" "lease_inv m \<Longrightarrow> lease_inv (unpoison_slot s m)"
  "active_lease_count (poison_slot now s m) = active_lease_count m"
  "active_lease_count (unpoison_slot s m) = active_lease_count m"
  using lease_inv_cong[of "poison_slot now s m" m] lease_inv_cong[of "unpoison_slot s m" m]
  by (auto simp: reader_count_def fun_eq_iff poison_slot_def unpoison_slot_def active_lease_count_def)

text \<open>The operations of the manager as steps.\<close>

inductive lease_step :: "lease_manager \<Rightarrow> lease_manager \<Rightarrow> bool" where
  step_acquire_write: "acquire_write now s w session m = Ok (i, m') \<Longrightarrow> lease_step m m'"
| step_acquire_read: "acquire_read now s w session m = Ok (i, m') \<Longrightarrow> lease_step m m'"
| step_mark_ready: "mark_output_ready now i m = Ok m' \<Longrightarrow> lease_step m m'"
| step_release: "release now i m = Ok m' \<Longrightarrow> lease_step m m'"
| step_release_session: "release_session now session m = (ids, m') \<Longrightarrow> lease_step m m'"
| step_poison: "lease_step m (poison_slot now s m)"
| step_unpoison: "lease_step m (unpoison_slot s m)"

inductive_cases lease_stepE: "lease_step m m'"

lemma lease_step_inv:
  assumes "lease_step m m'" "lease_inv m"
  shows "(active_lease_count m < 2 ^ 32 - 1 \<longrightarrow> lease_inv m') \<and>
    active_lease_count m' \<le> active_lease_count m + 1"
  using assms(1)
proof cases
  case (step_acquire_write now s w session i)
  then show ?thesis using acquire_write_inv[OF assms(2) step_acquire_write] by simp
next
  case (step_acquire_read now s w session i)
  then show ?thesis using acquire_read_inv[OF assms(2) step_acquire_read] by simp
next
  case (step_mark_ready now i)
  then show ?thesis using mark_output_ready_inv[OF assms(2) step_mark_ready] by simp
next
  case (step_release now i)
  then show ?thesis using release_inv[OF assms(2) step_release] by simp
next
  case (step_release_session now session ids)
  then have "m' = fold (release_ignoring now) ids m" by (auto simp: release_session_def Let_def)
  then show ?thesis using release_fold_inv[OF assms(2), of now ids] by simp
next
  case (step_poison now s)
  then show ?thesis using poison_inv assms(2) by simp
next
  case (step_unpoison s)
  then show ?thesis using poison_inv assms(2) by simp
qed

interpretation lease: growing_system lease_step lease_inv active_lease_count "2 ^ 32 - 1"
proof
  fix m m'
  show "lease_inv m \<Longrightarrow> active_lease_count m < 2 ^ 32 - 1 \<Longrightarrow> lease_step m m' \<Longrightarrow> lease_inv m'"
    using lease_step_inv by blast
  show "lease_inv m \<Longrightarrow> lease_step m m' \<Longrightarrow> active_lease_count m' \<le> active_lease_count m + 1"
    using lease_step_inv by blast
qed

subsection \<open>What release does\<close>

lemma release_writer_get:
  assumes "lease_inv m" "get_lease m i = Some l" "is_writer l"
  shows "get_lease (release_writer now i (slot_id l) m) j =
    (if j \<noteq> i then get_lease m j
     else if reader_count m (slot_id l) = 0 then None else Some (l\<lparr>state := Consumed, last_transition := now\<rparr>))"
  using assms(2)
  by (simp add: release_writer_def get_lease_def map_of_btree_remove map_of_btree_insert)

lemma release_reader_get:
  assumes inv: "lease_inv m" and l: "get_lease m i = Some l" "\<not> is_writer l" "slot_id l = s"
  shows "get_lease (release_reader i s m) j =
    (if j = i \<or> (reader_count m s = 1 \<and> consumed_writer m s = Some j) then None
     else if slot_write_lease m s = Some j then map_option uncount (get_lease m j) else get_lease m j)"
    and "slot_write_lease (release_reader i s m) = (if reader_count m s = 1 \<and> consumed_writer m s \<noteq> None
      then (slot_write_lease m)(s := None) else slot_write_lease m)"
    and "reader_count (release_reader i s m) s = reader_count m s - 1"
proof -
  let ?m2 = "update_writer s uncount (drop_reader i s m)"
  have r0: "0 < reader_count m s" using drop_readers_on(2)[OF inv l] .
  have one: "reader_count (drop_reader i s m) s \<noteq> 0 \<longleftrightarrow> reader_count m s \<noteq> 1"
    using r0 by (auto simp: count_drop_reader)
  have wn: "wid \<noteq> i" if "slot_write_lease m s = Some wid" for wid
    using lease_invD(3)[OF inv that] l by auto
  have cw: "consumed_writer ?m2 s = consumed_writer m s"
    using wn by (auto simp: consumed_writer_def get_update_writer get_drop_reader split: option.split)
  have g2: "get_lease ?m2 j = (if j = i then None else if slot_write_lease m s = Some j
      then map_option uncount (get_lease m j) else get_lease m j)" for j
    using wn by (auto simp: get_update_writer get_drop_reader)
  note eq = release_reader_eq[of i s m, unfolded Let_def one cw]
  have gl: "get_lease (x\<lparr>slot_write_lease := a, leases := btree_remove k (leases x)\<rparr>) j =
      (if j = k then None else get_lease x j)" "get_lease (x\<lparr>slot_readers := b\<rparr>) j = get_lease x j"
    for x :: lease_manager and a b j k
    by (simp_all add: get_lease_def map_of_btree_remove)
  show "get_lease (release_reader i s m) j =
    (if j = i \<or> (reader_count m s = 1 \<and> consumed_writer m s = Some j) then None
     else if slot_write_lease m s = Some j then map_option uncount (get_lease m j) else get_lease m j)"
    unfolding eq by (auto simp: gl g2 split: option.split)
  show "slot_write_lease (release_reader i s m) = (if reader_count m s = 1 \<and> consumed_writer m s \<noteq> None
      then (slot_write_lease m)(s := None) else slot_write_lease m)"
    unfolding eq by (auto split: option.split)
  show "reader_count (release_reader i s m) s = reader_count m s - 1"
    unfolding eq by (auto simp: reader_count_def[of "_\<lparr>slot_readers := _\<rparr>"] count_drop_reader split: option.split)
qed

lemma release_ignoring_get:
  assumes "lease_inv m" "get_lease (release_ignoring now i m) j = Some x"
  shows "\<exists>y. get_lease m j = Some y \<and> owner_session x = owner_session y \<and> is_writer x = is_writer y \<and>
      (state y = Consumed \<longrightarrow> state x = Consumed)"
    and "j = i \<Longrightarrow> is_writer x \<and> state x = Consumed"
proof -
  have "(\<exists>y. get_lease m j = Some y \<and> owner_session x = owner_session y \<and> is_writer x = is_writer y \<and>
      (state y = Consumed \<longrightarrow> state x = Consumed)) \<and> (j = i \<longrightarrow> is_writer x \<and> state x = Consumed)"
  proof (cases "get_lease m i")
    case None
    then show ?thesis using assms(2) by (auto simp: release_ignoring_def release_def get_lease_def)
  next
    case (Some l)
    show ?thesis
    proof (cases "is_writer l")
      case True
      then have "release_ignoring now i m = release_writer now i (slot_id l) m"
        using Some by (simp add: release_ignoring_def release_def get_lease_def)
      then show ?thesis using assms(2) Some True
        by (auto simp: release_writer_get[OF assms(1) Some True] is_writer_def split: if_splits)
    next
      case False
      then have "release_ignoring now i m = release_reader i (slot_id l) m"
        using Some by (simp add: release_ignoring_def release_def get_lease_def)
      then show ?thesis using assms(2)
        by (auto simp: release_reader_get(1)[OF assms(1) Some False refl] split: if_splits)
    qed
  qed
  then show "\<exists>y. get_lease m j = Some y \<and> owner_session x = owner_session y \<and> is_writer x = is_writer y \<and>
      (state y = Consumed \<longrightarrow> state x = Consumed)" "j = i \<Longrightarrow> is_writer x \<and> state x = Consumed" by auto
qed

lemma release_fold_get:
  assumes "lease_inv m" "get_lease (fold (release_ignoring now) is m) j = Some x"
  shows "(\<exists>y. get_lease m j = Some y \<and> owner_session x = owner_session y \<and>
      (is_writer y \<and> state y = Consumed \<longrightarrow> is_writer x \<and> state x = Consumed)) \<and>
    (j \<in> set is \<longrightarrow> is_writer x \<and> state x = Consumed)"
  using assms
proof (induction "is" arbitrary: m)
  case (Cons i ids)
  let ?m = "release_ignoring now i m"
  have inv: "lease_inv ?m" using release_ignoring_inv(1)[OF Cons.prems(1)] .
  have "get_lease (fold (release_ignoring now) ids ?m) j = Some x" using Cons.prems(2) by simp
  from Cons.IH[OF inv this] obtain y where y: "get_lease ?m j = Some y" "owner_session x = owner_session y"
    "is_writer y \<and> state y = Consumed \<longrightarrow> is_writer x \<and> state x = Consumed"
    "j \<in> set ids \<longrightarrow> is_writer x \<and> state x = Consumed" by blast
  show ?case
    using release_ignoring_get[OF Cons.prems(1) y(1)] y(2-4) by auto
qed auto

subsection \<open>Properties\<close>

text \<open>C14: after any sequence of fewer than \<open>2 ^ 32 - 1\<close> operations on a new manager, no slot has two
  write leases and the writer index names exactly the slot's write lease, the reader count of a slot is
  the number of its read leases, and a writer that waits in the consumed state still has a reader.\<close>

theorem lease_runs_safe:
  assumes "steps lease_step n manager_new m" and "n \<le> 2 ^ 32 - 1"
  shows "(\<forall>s i. current_writer m s = Some i \<longleftrightarrow>
       (\<exists>l. get_lease m i = Some l \<and> is_writer l \<and> slot_id l = s)) \<and>
     (\<forall>s. reader_count m s = length (filter (\<lambda>(i, l). slot_id l = s \<and> \<not> is_writer l) (leases m))) \<and>
     (\<forall>i l. get_lease m i = Some l \<and> state l = Consumed \<longrightarrow> 0 < reader_count m (slot_id l))"
proof -
  have "lease_inv m"
    using lease.run_inv[OF assms(1) lease_inv_new(1)] assms(2) by (simp add: lease_inv_new(2))
  note d = lease_invD[OF this]
  have "current_writer m s = Some i \<longleftrightarrow> (\<exists>l. get_lease m i = Some l \<and> is_writer l \<and> slot_id l = s)" for s i
    using d(2,3) by (fastforce simp: current_writer_def lease_ok_def)
  moreover have "reads_slot s = (\<lambda>(i, l). slot_id l = s \<and> \<not> is_writer l)" for s
    by (auto simp: reads_slot_def fun_eq_iff)
  then have "reader_count m s = length (filter (\<lambda>(i, l). slot_id l = s \<and> \<not> is_writer l) (leases m))" for s
    using d(4)[of s] by (simp add: readers_on_def)
  moreover have "0 < reader_count m (slot_id l)" if "get_lease m i = Some l" "state l = Consumed" for i l
    using d(2)[OF that(1)] that(2) by (auto simp: lease_ok_def split: if_splits)
  ultimately show ?thesis by blast
qed

definition lease1 :: lease_manager where
  "lease1 = snd (case acquire_read 0 5 1 ''a'' manager_new of Ok r \<Rightarrow> r | _ \<Rightarrow> (0, manager_new))"

lemma lease1_acquire: "acquire_read 0 5 1 ''a'' manager_new = Ok (1, lease1)"
  by (simp add: lease1_def acquire_read_def manager_new_def still_writing_def)

theorem lease_runs_safe_witness:
  "steps lease_step (Suc 0) manager_new lease1 \<and> reader_count lease1 5 = 1 \<and>
   current_writer lease1 5 \<noteq> Some 1"
proof -
  have run: "steps lease_step (Suc 0) manager_new lease1"
    by (intro steps_Suc[OF steps_0] step_acquire_read[OF lease1_acquire])
  have l: "leases lease1 = [(1, \<lparr>lease_id = 1, slot_id = 5, owner_work_id = 1, owner_session = ''a'',
       access = Read, state = ReadActive, acquired_at = 0, last_transition = 0, consumer_count = 0\<rparr>)]"
    by (simp add: lease1_def acquire_read_def manager_new_def still_writing_def update_writer_def)
  show ?thesis
    using lease_runs_safe[OF run] run by (auto simp: l get_lease_def is_writer_def)
qed

text \<open>Acquisition, on every branch: a write lease is granted exactly on a slot that is not poisoned
  and has no writer, a read lease exactly on a slot that is not poisoned and whose writer, if any, has
  finished writing; every refusal names its reason, and a grant leaves the other write leases alone.\<close>

theorem acquire_correct:
  "(case acquire_write now s w session m of
      Ok (i, m') \<Rightarrow> \<not> is_poisoned m s \<and> current_writer m s = None \<and> current_writer m' s = Some i \<and>
        (\<exists>l. get_lease m' i = Some l \<and> state l = WriteActive \<and> owner_session l = session) \<and>
        (\<forall>j. j \<noteq> i \<longrightarrow> get_lease m' j = get_lease m j) \<and> (\<forall>t. t \<noteq> s \<longrightarrow> current_writer m' t = current_writer m t)
    | Err (PoisonedSlot t) \<Rightarrow> t = s \<and> is_poisoned m s
    | Err (WriteConflict t x) \<Rightarrow> t = s \<and> \<not> is_poisoned m s \<and> current_writer m s = Some x
    | _ \<Rightarrow> False) \<and>
   (case acquire_read now s w session m of
      Ok (i, m') \<Rightarrow> \<not> is_poisoned m s \<and> still_writing m s = None \<and>
        current_writer m' = current_writer m \<and> reader_count m' s = sat_inc (reader_count m s) \<and>
        (\<forall>t. t \<noteq> s \<longrightarrow> reader_count m' t = reader_count m t)
    | Err (PoisonedSlot t) \<Rightarrow> t = s \<and> is_poisoned m s
    | Err (NotYetReady t x) \<Rightarrow> t = s \<and> \<not> is_poisoned m s \<and> current_writer m s = Some x \<and>
        (\<exists>l. get_lease m x = Some l \<and> state l = WriteActive)
    | _ \<Rightarrow> False)"
proof (intro conjI)
  show "case acquire_write now s w session m of
      Ok (i, m') \<Rightarrow> \<not> is_poisoned m s \<and> current_writer m s = None \<and> current_writer m' s = Some i \<and>
        (\<exists>l. get_lease m' i = Some l \<and> state l = WriteActive \<and> owner_session l = session) \<and>
        (\<forall>j. j \<noteq> i \<longrightarrow> get_lease m' j = get_lease m j) \<and> (\<forall>t. t \<noteq> s \<longrightarrow> current_writer m' t = current_writer m t)
    | Err (PoisonedSlot t) \<Rightarrow> t = s \<and> is_poisoned m s
    | Err (WriteConflict t x) \<Rightarrow> t = s \<and> \<not> is_poisoned m s \<and> current_writer m s = Some x
    | _ \<Rightarrow> False"
    by (cases "slot_write_lease m s")
      (auto simp: acquire_write_def Let_def is_poisoned_def current_writer_def get_lease_def map_of_btree_insert)
  show "case acquire_read now s w session m of
      Ok (i, m') \<Rightarrow> \<not> is_poisoned m s \<and> still_writing m s = None \<and>
        current_writer m' = current_writer m \<and> reader_count m' s = sat_inc (reader_count m s) \<and>
        (\<forall>t. t \<noteq> s \<longrightarrow> reader_count m' t = reader_count m t)
    | Err (PoisonedSlot t) \<Rightarrow> t = s \<and> is_poisoned m s
    | Err (NotYetReady t x) \<Rightarrow> t = s \<and> \<not> is_poisoned m s \<and> current_writer m s = Some x \<and>
        (\<exists>l. get_lease m x = Some l \<and> state l = WriteActive)
    | _ \<Rightarrow> False"
  proof (cases "poisoned_slots m s = None \<and> still_writing m s = None")
    case True
    have "reader_count (x\<lparr>slot_readers := (slot_readers x)(s \<mapsto> n)\<rparr>) t = (if t = s then n else reader_count x t)"
      for x :: lease_manager and n t by (simp add: reader_count_def)
    then show ?thesis using True
      by (auto simp: acquire_read_def Let_def is_poisoned_def current_writer_def fun_eq_iff reader_count_def)
  next
    case False
    then show ?thesis
      by (cases "poisoned_slots m s") (auto simp: acquire_read_def is_poisoned_def current_writer_def
          still_writing_def get_lease_def split: option.splits if_splits)
  qed
qed

theorem acquire_correct_witness:
  "reader_count lease1 5 = 1 \<and> reader_count lease1 6 = reader_count manager_new 6 \<and>
   current_writer lease1 = current_writer manager_new"
proof -
  have "current_writer lease1 = current_writer manager_new \<and> reader_count lease1 5 = sat_inc (reader_count manager_new 5) \<and>
      (\<forall>t. t \<noteq> 5 \<longrightarrow> reader_count lease1 t = reader_count manager_new t)"
    using conjunct2[OF acquire_correct[where now = 0 and s = 5 and w = 1 and session = "''a''" and m = manager_new],
        unfolded lease1_acquire] by simp
  moreover have "reader_count manager_new 5 = 0" by (simp add: reader_count_def manager_new_def)
  ultimately show ?thesis by (simp add: sat_inc_def)
qed

text \<open>Releasing a lease of a consistent manager succeeds: a writer without readers frees its slot, a
  writer with readers is consumed and keeps the slot, a reader leaves the count, and the last reader of
  a consumed writer frees the slot.\<close>

theorem release_correct:
  assumes "lease_inv m" and "get_lease m i = Some l"
  shows "\<exists>m'. release now i m = Ok m' \<and> lease_inv m' \<and>
     (if is_writer l then
        if reader_count m (slot_id l) = 0 then get_lease m' i = None \<and> current_writer m' (slot_id l) = None
        else get_lease m' i = Some (l\<lparr>state := Consumed, last_transition := now\<rparr>) \<and>
          current_writer m' (slot_id l) = Some i \<and> reader_count m' (slot_id l) = reader_count m (slot_id l)
      else get_lease m' i = None \<and> reader_count m' (slot_id l) = reader_count m (slot_id l) - 1 \<and>
        (\<forall>wid wl. reader_count m (slot_id l) = 1 \<and> current_writer m (slot_id l) = Some wid \<and>
           get_lease m wid = Some wl \<and> state wl = Consumed \<longrightarrow>
             get_lease m' wid = None \<and> current_writer m' (slot_id l) = None))"
proof (cases "is_writer l")
  case True
  let ?m' = "release_writer now i (slot_id l) m"
  have "release now i m = Ok ?m'" using assms(2) True by (simp add: release_def get_lease_def)
  moreover have "lease_inv ?m'" using release_writer_inv(1)[OF assms True] .
  moreover have "current_writer ?m' (slot_id l) = (if reader_count m (slot_id l) = 0 then None else Some i)"
    "reader_count ?m' (slot_id l) = reader_count m (slot_id l)"
    using lease_invD(2)[OF assms] True assms(2)
    by (auto simp: current_writer_def release_writer_def lease_ok_def reader_count_def get_lease_def)
  ultimately show ?thesis using True release_writer_get[OF assms True, of now i] by simp
next
  case False
  let ?m' = "release_reader i (slot_id l) m"
  have "release now i m = Ok ?m'" using assms(2) False by (simp add: release_def get_lease_def)
  moreover have "lease_inv ?m'" using release_reader_inv(1)[OF assms False refl] .
  moreover have "get_lease ?m' wid = None \<and> current_writer ?m' (slot_id l) = None"
    if "reader_count m (slot_id l) = 1" "current_writer m (slot_id l) = Some wid" "get_lease m wid = Some wl"
      "state wl = Consumed" for wid wl
  proof -
    have "consumed_writer m (slot_id l) = Some wid" using that by (simp add: consumed_writer_Some current_writer_def)
    then show ?thesis
      using release_reader_get(1,2)[OF assms False refl] that(1) by (simp add: current_writer_def)
  qed
  ultimately show ?thesis
    using False release_reader_get(1)[OF assms False refl, of i] release_reader_get(3)[OF assms False refl]
    by auto
qed

lemma lease1_facts: "lease_inv lease1" "reader_count lease1 5 = 1" "slot_write_lease lease1 5 = None"
  "get_lease lease1 1 = Some \<lparr>lease_id = 1, slot_id = 5, owner_work_id = 1, owner_session = ''a'',
     access = Read, state = ReadActive, acquired_at = 0, last_transition = 0, consumer_count = 0\<rparr>"
proof -
  show "lease_inv lease1"
    by (rule acquire_read_inv(2)[OF lease_inv_new(1) lease1_acquire]) (simp add: lease_inv_new(2))
  show "reader_count lease1 5 = 1" "slot_write_lease lease1 5 = None"
    "get_lease lease1 1 = Some \<lparr>lease_id = 1, slot_id = 5, owner_work_id = 1, owner_session = ''a'',
     access = Read, state = ReadActive, acquired_at = 0, last_transition = 0, consumer_count = 0\<rparr>"
    by (simp_all add: lease1_def acquire_read_def manager_new_def still_writing_def update_writer_def
        reader_count_def sat_inc_def get_lease_def)
qed

theorem release_correct_witness:
  "\<exists>m'. release 9 1 lease1 = Ok m' \<and> get_lease m' 1 = None \<and> reader_count m' 5 = 0"
  using release_correct[OF lease1_facts(1,4), of 9] lease1_facts(2) by (auto simp: is_writer_def)

text \<open>Cancelling a session returns its lease ids in ascending order and releases each; every lease of
  the session that remains is a consumed writer whose slot still has readers.\<close>

theorem release_session_correct:
  assumes "lease_inv m" and "release_session now session m = (ids, m')"
  shows "lease_inv m' \<and> sorted_wrt (<) ids \<and>
     set ids = {i. \<exists>l. get_lease m i = Some l \<and> owner_session l = session} \<and>
     (\<forall>i l. get_lease m' i = Some l \<and> owner_session l = session \<longrightarrow>
        is_writer l \<and> state l = Consumed \<and> 0 < reader_count m' (slot_id l))"
proof -
  have ids: "ids = map fst (filter (\<lambda>(i, l). owner_session l = session) (leases m))"
    and m': "m' = fold (release_ignoring now) ids m"
    using assms(2) by (auto simp: release_session_def Let_def)
  have srt: "sorted_wrt (<) (map fst (leases m))" using lease_invD(1)[OF assms(1)] .
  have inv: "lease_inv m'" using release_fold_inv[OF assms(1)] by (simp add: m')
  have mem: "set ids = {i. \<exists>l. get_lease m i = Some l \<and> owner_session l = session}"
    using map_of_sorted_mem[OF srt] by (force simp: ids get_lease_def)
  have "is_writer l \<and> state l = Consumed \<and> 0 < reader_count m' (slot_id l)"
    if "get_lease m' i = Some l" "owner_session l = session" for i l
  proof -
    have "is_writer l \<and> state l = Consumed"
      using release_fold_get[OF assms(1), of now ids i l] that mem by (auto simp: m')
    then show ?thesis using lease_invD(2)[OF inv that(1)] by (simp add: lease_ok_def)
  qed
  moreover have "sorted_wrt (<) ids" using srt by (simp add: ids sorted_wrt_map sorted_wrt_filter)
  ultimately show ?thesis using inv mem by blast
qed

theorem release_session_correct_witness:
  "\<exists>m'. release_session 9 ''a'' lease1 = ([1], m') \<and> lease_inv m'"
proof -
  obtain ids m' where r: "release_session 9 ''a'' lease1 = (ids, m')" by (cases "release_session 9 ''a'' lease1")
  then have "ids = [1]"
    by (auto simp: release_session_def Let_def lease1_def acquire_read_def manager_new_def
        still_writing_def update_writer_def)
  then show ?thesis using release_session_correct[OF lease1_facts(1) r] r by auto
qed

text \<open>A write lease is granted on a slot that is being read: the readers keep their leases while the
  new writer is active.\<close>

theorem write_granted_over_readers:
  assumes "lease_inv m" and "0 < reader_count m s" and "current_writer m s = None" and "\<not> is_poisoned m s"
  shows "\<exists>i m' j r wl. acquire_write now s w session m = Ok (i, m') \<and>
     get_lease m' j = Some r \<and> slot_id r = s \<and> state r = ReadActive \<and>
     get_lease m' i = Some wl \<and> slot_id wl = s \<and> state wl = WriteActive"
proof -
  have "filter (reads_slot s) (leases m) \<noteq> []"
    using assms(2) lease_invD(4)[OF assms(1), of s] by (auto simp: readers_on_def)
  then obtain j r where "(j, r) \<in> set (leases m)" "reads_slot s (j, r)"
    by (metis filter_False list.set_intros(1) surj_pair)
  then have r: "get_lease m j = Some r" "\<not> is_writer r" "slot_id r = s"
    using map_of_sorted_mem[OF lease_invD(1)[OF assms(1)]] by (auto simp: get_lease_def reads_slot_def)
  then have ok: "state r = ReadActive" "j \<noteq> next_lease_id m"
    using lease_invD(2)[OF assms(1) r(1)] by (auto simp: lease_ok_def)
  then show ?thesis
    using assms(3,4) r
    by (auto simp: acquire_write_def Let_def is_poisoned_def current_writer_def get_lease_def map_of_btree_insert)
qed

theorem write_granted_over_readers_witness:
  "\<exists>i m' wl. acquire_write 0 5 2 ''b'' lease1 = Ok (i, m') \<and> get_lease m' i = Some wl \<and> state wl = WriteActive"
proof -
  have "\<not> is_poisoned lease1 5" by (simp add: is_poisoned_def lease1_def acquire_read_def manager_new_def
        still_writing_def)
  then show ?thesis
    using write_granted_over_readers[OF lease1_facts(1), of 5 0 2 "''b''"] lease1_facts(2,3)
    by (auto simp: current_writer_def)
qed

end
