(* ===== verification/Block_Table.thy ===== *)
theory Block_Table
  imports Prism_Prelude
begin

text \<open>
  The contiguous block allocator of \<open>prism-kv-cache/src/block_table.rs\<close>: a fixed pool of blocks,
  handed out in contiguous runs to slots, recycled through a free list, and the translation of a token
  position of a slot to a byte offset. Block ids are naturals; the offset arithmetic is exact as long as
  the pool's byte size fits 64 bits. The slot counter is modelled without its 32-bit bound.
\<close>

subsection \<open>State and operations\<close>

definition kv_nf4_per_position :: nat where
  "kv_nf4_per_position = 5760"

definition tokens_per_block :: nat where
  "tokens_per_block = 16"

record block_table =
  blocks :: "nat option list"
  free_list :: "nat list"
  block_size :: nat
  num_blocks :: nat
  next_slot_id :: nat
  slots :: "nat \<rightharpoonup> nat list"

definition table_new :: "nat \<Rightarrow> nat \<Rightarrow> block_table" where
  "table_new kv_budget bsize =
     (let n = (if 0 < bsize then kv_budget div bsize else 0)
      in \<lparr>blocks = replicate n None, free_list = [], block_size = bsize, num_blocks = n,
          next_slot_id = 0, slots = Map.empty\<rparr>)"

text \<open>
  The loop of \<open>find_contiguous_run\<close> from index \<open>i\<close> with the current run length, on the remaining
  suffix of the slice: \<open>Some start\<close> is the early return.
\<close>

fun run_loop :: "nat \<Rightarrow> nat \<Rightarrow> nat \<Rightarrow> nat \<Rightarrow> nat list \<Rightarrow> nat option \<times> nat" where
  "run_loop cnt i run_len prev [] = (None, run_len)"
| "run_loop cnt i run_len prev (x # xs) =
     (if x = prev + 1 then
        (if cnt \<le> run_len + 1 then (Some (i + 1 - cnt), run_len + 1)
         else run_loop cnt (i + 1) (run_len + 1) x xs)
      else run_loop cnt (i + 1) 1 x xs)"

definition find_contiguous_run :: "nat list \<Rightarrow> nat \<Rightarrow> nat list option" where
  "find_contiguous_run xs cnt =
     (if cnt = 0 \<or> length xs < cnt then None
      else case run_loop cnt 1 1 (hd xs) (tl xs) of
        (Some start, _) \<Rightarrow> Some (take cnt (drop start xs))
      | (None, run_len) \<Rightarrow>
          if cnt \<le> run_len then Some (take cnt (drop (length xs - run_len) xs)) else None)"

text \<open>Removing one block id from the free list: \<open>position\<close> and \<open>swap_remove\<close>.\<close>

definition unfree :: "nat \<Rightarrow> nat list \<Rightarrow> nat list" where
  "unfree b fl = (case position (\<lambda>x. x = b) fl of None \<Rightarrow> fl | Some pos \<Rightarrow> swap_remove pos fl)"

definition mark_blocks :: "nat \<Rightarrow> nat list \<Rightarrow> nat option list \<Rightarrow> nat option list" where
  "mark_blocks s bs pool = fold (\<lambda>b p. p[b := Some s]) bs pool"

definition block_free :: "nat option list \<Rightarrow> nat \<Rightarrow> bool" where
  "block_free pool b \<longleftrightarrow> pool ! b = None"

text \<open>The scan of the full block array: the first start of \<open>cnt\<close> free blocks.\<close>

definition scan_free_run :: "nat option list \<Rightarrow> nat \<Rightarrow> nat \<Rightarrow> nat option" where
  "scan_free_run pool n cnt =
     find (\<lambda>i. block_free pool i \<and> list_all (\<lambda>j. block_free pool (i + j)) [0..<cnt]) [0..<n - cnt + 1]"

definition allocate_blocks :: "nat \<Rightarrow> block_table \<Rightarrow> nat list \<times> block_table" where
  "allocate_blocks cnt t =
     (if cnt = 0 \<or> num_blocks t < cnt then ([], t)
      else let t1 = t\<lparr>free_list := sort (free_list t)\<rparr> in
        case find_contiguous_run (free_list t1) cnt of
          Some run \<Rightarrow>
            let s = next_slot_id t1 in
            (run, t1\<lparr>free_list := fold unfree run (free_list t1), next_slot_id := s + 1,
                     blocks := mark_blocks s run (blocks t1), slots := (slots t1)(s \<mapsto> run)\<rparr>)
        | None \<Rightarrow>
            (case scan_free_run (blocks t1) (num_blocks t1) cnt of
               None \<Rightarrow> ([], t1)
             | Some start \<Rightarrow>
                 let s = next_slot_id t1; run = map (\<lambda>i. start + i) [0..<cnt] in
                 (run, t1\<lparr>free_list := fold unfree run (free_list t1), next_slot_id := s + 1,
                          blocks := mark_blocks s run (blocks t1), slots := (slots t1)(s \<mapsto> run)\<rparr>)))"

definition free_blocks :: "nat \<Rightarrow> block_table \<Rightarrow> block_table" where
  "free_blocks s t = (case slots t s of None \<Rightarrow> t
     | Some bs \<Rightarrow> t\<lparr>slots := (slots t)(s := None),
          blocks := fold (\<lambda>b p. p[b := None]) bs (blocks t), free_list := free_list t @ bs\<rparr>)"

text \<open>An unknown slot and a position past the slot's blocks panic.\<close>

definition physical_offset :: "nat \<Rightarrow> nat \<Rightarrow> block_table \<Rightarrow> nat option" where
  "physical_offset s token_position t = (case slots t s of None \<Rightarrow> None
     | Some bs \<Rightarrow> (case nth_opt bs (token_position div tokens_per_block) of None \<Rightarrow> None
         | Some b \<Rightarrow> Some (b * block_size t + (token_position mod tokens_per_block) * kv_nf4_per_position)))"

subsection \<open>Contiguous runs\<close>

definition is_run :: "nat list \<Rightarrow> bool" where
  "is_run bs \<longleftrightarrow> (\<exists>b. bs = [b..<b + length bs])"

lemma is_run_interval: "is_run [a..<b]"
  unfolding is_run_def by (rule exI[of _ a]) (cases "a \<le> b"; simp)

lemma is_run_upt: "is_run (map (\<lambda>i. a + i) [0..<n])"
proof -
  have "map (\<lambda>i. a + i) [0..<n] = [a..<a + n]" by (simp add: map_add_upt add.commute[of a])
  then show ?thesis by (auto simp: is_run_def)
qed

text \<open>
  The loop invariant: the last \<open>run_len\<close> elements before index \<open>i\<close> are consecutive and end in
  \<open>prev\<close>.
\<close>

lemma run_loop_sound:
  assumes "length pre = i" "1 \<le> r" "r \<le> i" "drop (i - r) pre = [Suc prev - r..<Suc prev]" "r \<le> Suc prev"
    and "1 \<le> cnt" "run_loop cnt i r prev xs = (res, r')"
  shows "case res of
     Some start \<Rightarrow> start + cnt \<le> length (pre @ xs) \<and> is_run (take cnt (drop start (pre @ xs)))
   | None \<Rightarrow> r' \<le> length (pre @ xs) \<and> is_run (drop (length (pre @ xs) - r') (pre @ xs))"
  using assms
proof (induction xs arbitrary: pre i r prev)
  case Nil
  have "is_run (drop (i - r) pre)" unfolding Nil.prems(4) is_run_def
    using Nil.prems(5) by (auto intro!: exI[of _ "Suc prev - r"])
  then show ?case using Nil.prems by auto
next
  case (Cons x xs)
  show ?case
  proof (cases "x = prev + 1")
    case True
    have run: "drop (i - r) (pre @ [x]) = [Suc prev - r..<Suc x]"
      using Cons.prems(1,3,4,5) True by (simp add: upt_Suc_append)
    show ?thesis
    proof (cases "cnt \<le> r + 1")
      case c: True
      have res: "res = Some (i + 1 - cnt)" using Cons.prems(7) True c by simp
      have "take cnt (drop (i + 1 - cnt) (pre @ x # xs)) = drop (i + 1 - cnt) (pre @ [x])"
        using Cons.prems(1,3,6) c by simp
      also have "\<dots> = drop (r + 1 - cnt) (drop (i - r) (pre @ [x]))"
      proof -
        have "(r + 1 - cnt) + (i - r) = i + 1 - cnt" using c Cons.prems(3) by simp
        then show ?thesis by (simp only: drop_drop)
      qed
      also have "\<dots> = [Suc prev - r + (r + 1 - cnt)..<Suc x]" by (simp only: run drop_upt)
      finally have "is_run (take cnt (drop (i + 1 - cnt) (pre @ x # xs)))"
        by (simp only: is_run_interval)
      then show ?thesis using res c Cons.prems(1,3,6) by simp
    next
      case c: False
      have "run_loop cnt (i + 1) (r + 1) x xs = (res, r')" using Cons.prems(7) True c by simp
      from Cons.IH[OF _ _ _ _ _ Cons.prems(6) this, of "pre @ [x]"] show ?thesis
        using run Cons.prems(1,3,5) True by (cases res) simp_all
    qed
  next
    case False
    then have "run_loop cnt (i + 1) 1 x xs = (res, r')" using Cons.prems(7) by simp
    from Cons.IH[OF _ _ _ _ _ Cons.prems(6) this, of "pre @ [x]"] show ?thesis
      using Cons.prems(1) by (cases res) simp_all
  qed
qed

lemma find_contiguous_run_sound:
  assumes "find_contiguous_run xs cnt = Some run"
  shows "length run = cnt \<and> is_run run \<and> set run \<subseteq> set xs"
proof -
  have c: "1 \<le> cnt" "cnt \<le> length xs"
    using assms by (auto simp: find_contiguous_run_def split: if_splits)
  then obtain x ys where xs: "xs = x # ys" by (cases xs) auto
  obtain res r' where rl: "run_loop cnt 1 1 x ys = (res, r')" by (metis prod.exhaust)
  have inv: "case res of
     Some start \<Rightarrow> start + cnt \<le> length xs \<and> is_run (take cnt (drop start xs))
   | None \<Rightarrow> r' \<le> length xs \<and> is_run (drop (length xs - r') xs)"
    using run_loop_sound[OF _ _ _ _ _ c(1) rl, of "[x]"] by (cases res) (simp_all add: xs)
  show ?thesis
  proof (cases res)
    case (Some start)
    then have "run = take cnt (drop start xs)" using assms rl c by (simp add: find_contiguous_run_def xs)
    then show ?thesis using inv Some by (auto dest: in_set_takeD in_set_dropD)
  next
    case None
    then have run: "run = take cnt (drop (length xs - r') xs)" "cnt \<le> r'"
      using assms rl c by (auto simp: find_contiguous_run_def xs split: if_splits)
    have sub: "set run \<subseteq> set xs" using run(1) by (auto dest: in_set_takeD in_set_dropD)
    obtain b where "drop (length xs - r') xs = [b..<b + r']"
      using inv None by (auto simp: is_run_def)
    then have "run = [b..<b + cnt]" using run by (simp add: take_upt)
    then show ?thesis using sub by (auto simp: is_run_def)
  qed
qed

lemma is_run_distinct: "is_run bs \<Longrightarrow> distinct bs"
  unfolding is_run_def by (metis distinct_upt)

text \<open>Marking blocks and taking them off the free list.\<close>

lemma length_mark_blocks [simp]: "length (fold (\<lambda>b p. p[b := v]) bs pool) = length pool"
  by (induction bs arbitrary: pool) simp_all

lemma nth_mark_blocks:
  "b < length pool \<Longrightarrow> fold (\<lambda>b p. p[b := v]) bs pool ! b = (if b \<in> set bs then v else pool ! b)"
  by (induction bs arbitrary: pool) (auto simp: nth_list_update)

lemma unfree_set:
  assumes "distinct fl"
  shows "set (unfree b fl) = set fl - {b}" "distinct (unfree b fl)"
proof -
  have "set (unfree b fl) = set fl - {b} \<and> distinct (unfree b fl)"
  proof (cases "position (\<lambda>x. x = b) fl")
    case None
    then have "b \<notin> set fl" by (auto simp: position_None)
    then show ?thesis using assms None by (simp add: unfree_def)
  next
    case (Some i)
    then show ?thesis
      using set_swap_remove[of i fl] assms position_Some[OF Some] by (auto simp: unfree_def)
  qed
  then show "set (unfree b fl) = set fl - {b}" "distinct (unfree b fl)" by auto
qed

lemma fold_unfree:
  "distinct fl \<Longrightarrow> set (fold unfree bs fl) = set fl - set bs \<and> distinct (fold unfree bs fl)"
proof (induction bs arbitrary: fl)
  case (Cons b bs)
  then show ?case using Cons.IH[of "unfree b fl"] unfree_set[OF Cons.prems, of b] by auto
qed simp

subsection \<open>The pool invariant\<close>

text \<open>
  A block is owned exactly by the slot whose list names it; the free list names free blocks only, each at
  most once. It need not name them all: a fresh pool has an empty free list.
\<close>

definition table_inv :: "block_table \<Rightarrow> bool" where
  "table_inv t \<longleftrightarrow> length (blocks t) = num_blocks t \<and> distinct (free_list t) \<and>
     (\<forall>b \<in> set (free_list t). b < num_blocks t \<and> blocks t ! b = None) \<and>
     (\<forall>s bs. slots t s = Some bs \<longrightarrow> s < next_slot_id t \<and> is_run bs \<and>
        (\<forall>b \<in> set bs. b < num_blocks t \<and> blocks t ! b = Some s)) \<and>
     (\<forall>b s. b < num_blocks t \<and> blocks t ! b = Some s \<longrightarrow> (\<exists>bs. slots t s = Some bs \<and> b \<in> set bs))"

lemma table_invD:
  assumes "table_inv t"
  shows "length (blocks t) = num_blocks t" "distinct (free_list t)"
    and "b \<in> set (free_list t) \<Longrightarrow> b < num_blocks t \<and> blocks t ! b = None"
    and "slots t s = Some bs \<Longrightarrow> s < next_slot_id t \<and> is_run bs \<and>
        (\<forall>b \<in> set bs. b < num_blocks t \<and> blocks t ! b = Some s)"
    and "b < num_blocks t \<Longrightarrow> blocks t ! b = Some s \<Longrightarrow> \<exists>bs. slots t s = Some bs \<and> b \<in> set bs"
  using assms by (simp_all add: table_inv_def)

lemma table_inv_new: "table_inv (table_new kv bsize)"
  by (auto simp: table_inv_def table_new_def Let_def)

lemma table_inv_sorted: "table_inv t \<Longrightarrow> table_inv (t\<lparr>free_list := sort (free_list t)\<rparr>)"
  by (simp add: table_inv_def)

text \<open>Both branches of \<open>allocate_blocks\<close> make this change.\<close>

definition take_run :: "nat list \<Rightarrow> block_table \<Rightarrow> block_table" where
  "take_run run t = t\<lparr>free_list := fold unfree run (free_list t), next_slot_id := next_slot_id t + 1,
     blocks := mark_blocks (next_slot_id t) run (blocks t), slots := (slots t)(next_slot_id t \<mapsto> run)\<rparr>"

lemma take_run_inv:
  assumes inv: "table_inv t" and run: "is_run run" "\<And>b. b \<in> set run \<Longrightarrow> b < num_blocks t \<and> blocks t ! b = None"
  shows "table_inv (take_run run t)"
proof -
  note d = table_invD[OF inv]
  have nth: "b < num_blocks t \<Longrightarrow> blocks (take_run run t) ! b =
      (if b \<in> set run then Some (next_slot_id t) else blocks t ! b)" for b
    using d(1) by (simp add: take_run_def mark_blocks_def nth_mark_blocks)
  have fresh: "slots t (next_slot_id t) = None"
    using d(4)[of "next_slot_id t"] by (cases "slots t (next_slot_id t)") auto
  have keep: "b \<notin> set run" if "slots t s = Some bs" "b \<in> set bs" for s bs b
    using d(4)[OF that(1)] run(2)[of b] that(2) by auto
  show ?thesis
    unfolding table_inv_def
  proof (intro conjI allI impI ballI)
    show "length (blocks (take_run run t)) = num_blocks (take_run run t)"
      using d(1) by (simp add: take_run_def mark_blocks_def)
    show "distinct (free_list (take_run run t))" using fold_unfree[OF d(2)] by (simp add: take_run_def)
    fix b assume "b \<in> set (free_list (take_run run t))"
    then have "b \<in> set (free_list t)" "b \<notin> set run" using fold_unfree[OF d(2)] by (auto simp: take_run_def)
    then show "b < num_blocks (take_run run t)" "blocks (take_run run t) ! b = None"
      using d(3)[of b] nth[of b] by (auto simp: take_run_def[of run t])
  next
    fix s bs assume "slots (take_run run t) s = Some bs"
    then have s: "(s = next_slot_id t \<and> bs = run) \<or> (s \<noteq> next_slot_id t \<and> slots t s = Some bs)"
      by (auto simp: take_run_def split: if_splits)
    then show "s < next_slot_id (take_run run t)" "is_run bs"
      using d(4)[of s bs] run(1) by (auto simp: take_run_def)
    fix b assume b: "b \<in> set bs"
    show "b < num_blocks (take_run run t)" using s b d(4)[of s bs] run(2)[of b] by (auto simp: take_run_def)
    show "blocks (take_run run t) ! b = Some s"
      using s b d(4)[of s bs] run(2)[of b] nth[of b] keep[of s bs b] by auto
  next
    fix b s assume "b < num_blocks (take_run run t) \<and> blocks (take_run run t) ! b = Some s"
    then have b: "b < num_blocks t" "blocks (take_run run t) ! b = Some s" by (simp_all add: take_run_def)
    show "\<exists>bs. slots (take_run run t) s = Some bs \<and> b \<in> set bs"
    proof (cases "b \<in> set run")
      case True
      then show ?thesis using b nth[of b] by (auto simp: take_run_def)
    next
      case False
      then have "blocks t ! b = Some s" using b nth[of b] by simp
      then obtain bs where "slots t s = Some bs" "b \<in> set bs" using d(5)[OF b(1)] by blast
      then show ?thesis using fresh by (auto simp: take_run_def)
    qed
  qed
qed

lemma allocate_cases:
  assumes inv: "table_inv t" and a: "allocate_blocks cnt t = (run, t')"
  obtains (fail) "run = []" "t' = t \<or> t' = t\<lparr>free_list := sort (free_list t)\<rparr>"
      "cnt = 0 \<or> (\<forall>start. start + cnt \<le> num_blocks t \<longrightarrow> (\<exists>j < cnt. blocks t ! (start + j) \<noteq> None))"
    | (ok) "0 < cnt" "length run = cnt" "is_run run" "t' = take_run run (t\<lparr>free_list := sort (free_list t)\<rparr>)"
      "\<And>b. b \<in> set run \<Longrightarrow> b < num_blocks t \<and> blocks t ! b = None"
proof (cases "cnt = 0 \<or> num_blocks t < cnt")
  case True
  then have "run = []" "t' = t" using a by (simp_all add: allocate_blocks_def)
  moreover have "cnt = 0 \<or> (\<forall>start. start + cnt \<le> num_blocks t \<longrightarrow> (\<exists>j < cnt. blocks t ! (start + j) \<noteq> None))"
    using True by auto
  ultimately show ?thesis by (intro fail) auto
next
  case False
  let ?t1 = "t\<lparr>free_list := sort (free_list t)\<rparr>"
  note d = table_invD[OF inv]
  show ?thesis
  proof (cases "find_contiguous_run (sort (free_list t)) cnt")
    case (Some r)
    then have r: "length r = cnt" "is_run r" "set r \<subseteq> set (free_list t)"
      using find_contiguous_run_sound[OF Some] by auto
    have "run = r" "t' = take_run r ?t1"
      using a False Some by (auto simp: allocate_blocks_def Let_def take_run_def)
    then show ?thesis using r False d(3) by (intro ok) auto
  next
    case None
    note full = a[unfolded allocate_blocks_def Let_def]
    show ?thesis
    proof (cases "scan_free_run (blocks t) (num_blocks t) cnt")
      case scan: None
      have "\<exists>j < cnt. blocks t ! (start + j) \<noteq> None" if "start + cnt \<le> num_blocks t" for start
      proof -
        have "start \<in> set [0..<num_blocks t - cnt + 1]" using that by auto
        then have "\<not> (block_free (blocks t) start \<and> list_all (\<lambda>j. block_free (blocks t) (start + j)) [0..<cnt])"
          using scan by (simp only: scan_free_run_def find_None_iff) blast
        then show ?thesis using False by (auto simp: block_free_def list_all_iff)
      qed
      then show ?thesis using full False None scan by (intro fail) auto
    next
      case (Some start)
      then have st: "start \<in> set [0..<num_blocks t - cnt + 1]" "list_all (\<lambda>j. block_free (blocks t) (start + j)) [0..<cnt]"
        unfolding scan_free_run_def find_Some_iff by (metis nth_mem)+
      have run: "run = map (\<lambda>i. start + i) [0..<cnt]" "t' = take_run run ?t1"
        using full False None Some by (auto simp: take_run_def)
      have le: "start + cnt \<le> num_blocks t" using st(1) False by auto
      have "b < num_blocks t \<and> blocks t ! b = None" if mem: "b \<in> set run" for b
      proof -
        obtain j where "j < cnt" "b = start + j" using mem unfolding run(1) set_map set_upt by force
        then show ?thesis using st(2) le by (simp add: block_free_def list_all_iff)
      qed
      then show ?thesis using run False is_run_upt[of start cnt] by (intro ok) simp_all
    qed
  qed
qed

lemma allocate_nonempty:
  assumes "table_inv t" "allocate_blocks cnt t = (run, t')" "run \<noteq> []"
  shows "0 < cnt \<and> length run = cnt \<and> is_run run \<and> t' = take_run run (t\<lparr>free_list := sort (free_list t)\<rparr>) \<and>
    (\<forall>b \<in> set run. b < num_blocks t \<and> blocks t ! b = None)"
  using assms(1,2)
proof (cases rule: allocate_cases)
  case fail
  then show ?thesis using assms(3) by simp
next
  case ok
  then show ?thesis by blast
qed

lemma run_start:
  assumes "is_run run" "0 < length run" "\<And>b. b \<in> set run \<Longrightarrow> b < n \<and> pool ! b = None"
  shows "\<exists>start. start + length run \<le> n \<and> (\<forall>j < length run. pool ! (start + j) = None)"
proof -
  obtain b where run: "run = [b..<b + length run]" using assms(1) by (auto simp: is_run_def)
  have mem: "b + j \<in> set run" if "j < length run" for j using that by (subst run) simp
  have "b + (length run - 1) \<in> set run" using assms(2) by (intro mem) simp
  from assms(3)[OF this] have "b + (length run - 1) < n" by blast
  then show ?thesis using assms(2,3) mem by (intro exI[of _ b]) auto
qed

lemma take_run_fields:
  assumes "length (blocks t) = num_blocks t" "b < num_blocks t"
  shows "blocks (take_run run t) ! b = (if b \<in> set run then Some (next_slot_id t) else blocks t ! b)"
  using assms by (simp add: take_run_def mark_blocks_def nth_mark_blocks)

lemma take_run_rest:
  "slots (take_run run t) = (slots t)(next_slot_id t \<mapsto> run)" "num_blocks (take_run run t) = num_blocks t"
  "next_slot_id (take_run run t) = next_slot_id t + 1"
  by (simp_all add: take_run_def)

lemma free_blocks_inv:
  assumes inv: "table_inv t"
  shows "table_inv (free_blocks s t)"
    and "b < num_blocks t \<Longrightarrow> blocks (free_blocks s t) ! b = (if blocks t ! b = Some s then None else blocks t ! b)"
proof -
  note d = table_invD[OF inv]
  have "table_inv (free_blocks s t) \<and> (\<forall>b < num_blocks t. blocks (free_blocks s t) ! b =
      (if blocks t ! b = Some s then None else blocks t ! b))"
  proof (cases "slots t s")
    case None
    then have "blocks t ! b \<noteq> Some s" if "b < num_blocks t" for b using d(5)[OF that] by auto
    then show ?thesis using inv None by (simp add: free_blocks_def)
  next
    case (Some bs)
    let ?t = "free_blocks s t"
    have t: "?t = t\<lparr>slots := (slots t)(s := None), blocks := fold (\<lambda>b p. p[b := None]) bs (blocks t),
        free_list := free_list t @ bs\<rparr>" using Some by (simp add: free_blocks_def)
    have own: "b \<in> set bs \<longleftrightarrow> blocks t ! b = Some s" if "b < num_blocks t" for b
      using d(4)[OF Some] d(5)[OF that, of s] Some by auto
    have nth: "blocks ?t ! b = (if blocks t ! b = Some s then None else blocks t ! b)" if "b < num_blocks t" for b
      using that own[OF that] d(1) by (simp add: t nth_mark_blocks)
    have "table_inv ?t"
      unfolding table_inv_def
    proof (intro conjI allI impI ballI)
      show "length (blocks ?t) = num_blocks ?t" using d(1) by (simp add: t)
      show "distinct (free_list ?t)"
        using d(2,3) d(4)[OF Some] is_run_distinct[of bs] by (fastforce simp: t)
      fix b assume "b \<in> set (free_list ?t)"
      then have b: "b \<in> set (free_list t) \<or> b \<in> set bs" by (simp add: t)
      then show "b < num_blocks ?t" using d(3)[of b] d(4)[OF Some] by (auto simp: t)
      then show "blocks ?t ! b = None" using b d(3)[of b] d(4)[OF Some] nth[of b] by (auto simp: t)
    next
      fix r cs assume "slots ?t r = Some cs"
      then have r: "r \<noteq> s" "slots t r = Some cs" by (auto simp: t split: if_splits)
      then show "r < next_slot_id ?t" "is_run cs" using d(4)[OF r(2)] by (auto simp: t)
      fix b assume "b \<in> set cs"
      then show "b < num_blocks ?t" "blocks ?t ! b = Some r" using d(4)[OF r(2)] r(1) nth[of b] by (auto simp: t)
    next
      fix b r assume "b < num_blocks ?t \<and> blocks ?t ! b = Some r"
      then have b: "b < num_blocks t" "blocks t ! b = Some r" "r \<noteq> s"
        using nth[of b] by (auto simp: t split: if_splits)
      then show "\<exists>cs. slots ?t r = Some cs \<and> b \<in> set cs" using d(5)[OF b(1,2)] by (auto simp: t)
    qed
    then show ?thesis using nth by blast
  qed
  then show "table_inv (free_blocks s t)"
    "b < num_blocks t \<Longrightarrow> blocks (free_blocks s t) ! b = (if blocks t ! b = Some s then None else blocks t ! b)"
    by auto
qed

subsection \<open>Properties\<close>


definition pool4 :: block_table where
  "pool4 = table_new 40 10"

lemma pool4_alloc: "allocate_blocks 2 pool4 = ([0, 1], take_run [0, 1] pool4)"
  by (simp add: allocate_blocks_def pool4_def table_new_def find_contiguous_run_def scan_free_run_def
      block_free_def take_run_def upt_rec Let_def)


text \<open>Freeing the slot of a successful allocation gives the pool back: the same blocks are free and the
  same slots are known as before, and the same allocation succeeds again.\<close>

theorem allocate_free_roundtrip:
  assumes "table_inv t" and "allocate_blocks cnt t = (run, t')" and "run \<noteq> []"
  shows "table_inv (free_blocks (next_slot_id t) t') \<and>
     blocks (free_blocks (next_slot_id t) t') = blocks t \<and> slots (free_blocks (next_slot_id t) t') = slots t \<and>
     fst (allocate_blocks cnt (free_blocks (next_slot_id t) t')) \<noteq> []"
proof -
  let ?s = "next_slot_id t" and ?t1 = "t\<lparr>free_list := sort (free_list t)\<rparr>"
  let ?t2 = "free_blocks (next_slot_id t) t'"
  note d = table_invD[OF assms(1)]
  have ok: "0 < cnt" "length run = cnt" "is_run run" "t' = take_run run ?t1"
    "\<And>b. b \<in> set run \<Longrightarrow> b < num_blocks t \<and> blocks t ! b = None"
    using allocate_nonempty[OF assms] by blast+
  have inv: "table_inv t'" using take_run_inv[OF table_inv_sorted[OF assms(1)] ok(3)] ok(4,5) by simp
  have n: "num_blocks t' = num_blocks t" by (simp add: ok(4) take_run_def)
  have n2: "num_blocks ?t2 = num_blocks t" using n by (simp add: free_blocks_def split: option.split)
  have fresh: "slots t ?s = None" using d(4)[of ?s] by (cases "slots t ?s") auto
  have nosl: "blocks t ! b \<noteq> Some ?s" if "b < num_blocks t" for b using d(5)[OF that, of ?s] fresh by auto
  have bl: "blocks t' ! b = (if b \<in> set run then Some ?s else blocks t ! b)" if "b < num_blocks t" for b
    using take_run_fields[of ?t1 b run] that d(1) by (simp add: ok(4))
  have eq: "blocks ?t2 = blocks t"
  proof (rule nth_equalityI)
    show "length (blocks ?t2) = length (blocks t)"
      using table_invD(1)[OF free_blocks_inv(1)[OF inv]] n2 d(1) by simp
    fix b assume "b < length (blocks ?t2)"
    then have b: "b < num_blocks t" using table_invD(1)[OF free_blocks_inv(1)[OF inv]] n2 by simp
    then show "blocks ?t2 ! b = blocks t ! b"
      using free_blocks_inv(2)[OF inv, of b ?s] bl[OF b] nosl[OF b] ok(5)[of b] n by auto
  qed
  have sl: "slots ?t2 = slots t" using fresh by (auto simp: free_blocks_def ok(4) take_run_def fun_eq_iff)
  obtain run2 t3 where a2: "allocate_blocks cnt ?t2 = (run2, t3)" by (metis prod.exhaust)
  have ex: "\<exists>start. start + cnt \<le> num_blocks t \<and> (\<forall>j < cnt. blocks t ! (start + j) = None)"
    using run_start[OF ok(3) _ ok(5)] ok(1,2) by auto
  from free_blocks_inv(1)[OF inv] a2 have "run2 \<noteq> []"
  proof (cases rule: allocate_cases)
    case fail
    then show ?thesis using ok(1) ex unfolding eq n2 by auto
  qed auto
  then show ?thesis using free_blocks_inv(1)[OF inv] eq sl a2 by simp
qed

theorem allocate_free_roundtrip_witness:
  "blocks (free_blocks 0 (take_run [0, 1] pool4)) = [None, None, None, None]"
proof -
  have p: "table_inv pool4" "next_slot_id pool4 = 0" "blocks pool4 = [None, None, None, None]"
    by (simp add: pool4_def table_inv_new) code_simp+
  show ?thesis using allocate_free_roundtrip[OF p(1) pool4_alloc] unfolding p(2,3) by blast
qed

text \<open>The byte ranges of two different token positions, of the same slot or of two slots, do not
  overlap and lie inside the pool, provided a block has room for its sixteen positions.\<close>

theorem physical_offsets_disjoint:
  assumes "table_inv t" and "tokens_per_block * kv_nf4_per_position \<le> block_size t"
    and "physical_offset s p t = Some x" and "physical_offset s' p' t = Some y" and "(s, p) \<noteq> (s', p')"
  shows "(x + kv_nf4_per_position \<le> y \<or> y + kv_nf4_per_position \<le> x) \<and>
     x + kv_nf4_per_position \<le> num_blocks t * block_size t"
proof -
  let ?K = kv_nf4_per_position and ?S = "block_size t"
  note d = table_invD[OF assms(1)]
  have loc: "\<exists>bs b. slots t r = Some bs \<and> q div 16 < length bs \<and> b = bs ! (q div 16) \<and>
      z = b * ?S + (q mod 16) * ?K" if "physical_offset r q t = Some z" for r q z
    using that by (auto simp: physical_offset_def nth_opt_def tokens_per_block_def split: option.splits if_splits)
  obtain bs b where b: "slots t s = Some bs" "p div 16 < length bs" "b = bs ! (p div 16)"
    "x = b * ?S + (p mod 16) * ?K" using loc[OF assms(3)] by blast
  obtain cs c where c: "slots t s' = Some cs" "p' div 16 < length cs" "c = cs ! (p' div 16)"
    "y = c * ?S + (p' mod 16) * ?K" using loc[OF assms(4)] by blast
  have own: "b < num_blocks t" "blocks t ! b = Some s" "blocks t ! c = Some s'"
    using d(4)[OF b(1)] d(4)[OF c(1)] b(2,3) c(2,3) by auto
  have in_block: "(q mod 16) * ?K + ?K \<le> ?S" for q
  proof -
    have "q mod 16 + 1 \<le> 16" by (simp add: Suc_leI)
    then have "(q mod 16 + 1) * ?K \<le> 16 * ?K" by (rule mult_le_mono1)
    then have "(q mod 16) * ?K + ?K \<le> 16 * ?K" unfolding distrib_right by simp
    then show ?thesis using assms(2) unfolding tokens_per_block_def by linarith
  qed
  have apart: "z + ?K \<le> z'" if "u < v" "z = u * ?S + (q mod 16) * ?K" "v * ?S \<le> z'" for u v z z' q
  proof -
    have "(u + 1) * ?S \<le> v * ?S" using that(1) by (intro mult_le_mono1) simp
    then show ?thesis using in_block[of q] that(2,3) by simp
  qed
  have "x + ?K \<le> y \<or> y + ?K \<le> x"
  proof (cases "b = c")
    case True
    then have s: "s = s'" using own by simp
    then have "bs = cs" using b(1) c(1) by simp
    then have "p div 16 = p' div 16"
      using True b(2,3) c(2,3) d(4)[OF b(1)] is_run_distinct[of bs] by (simp add: nth_eq_iff_index_eq)
    moreover have "p \<noteq> p'" using assms(5) s by simp
    ultimately have "p mod 16 \<noteq> p' mod 16" by (metis div_mult_mod_eq)
    then have "(p mod 16 + 1) * ?K \<le> (p' mod 16) * ?K \<or> (p' mod 16 + 1) * ?K \<le> (p mod 16) * ?K"
      by (metis Suc_eq_plus1 Suc_leI linorder_neqE_nat mult_le_mono1)
    then show ?thesis using b(4) c(4) True by auto
  next
    case False
    then consider "b < c" | "c < b" by linarith
    then show ?thesis using apart[of b c x p y] apart[of c b y p' x] b(4) c(4) by cases auto
  qed
  moreover have "x + ?K \<le> num_blocks t * ?S" using apart[OF own(1) b(4), of "num_blocks t * ?S"] by simp
  ultimately show ?thesis by blast
qed

theorem physical_offsets_disjoint_witness:
  "\<exists>t. physical_offset 0 0 t = Some 0 \<and> physical_offset 0 17 t = Some 97920 \<and>
     (0::nat) + kv_nf4_per_position \<le> 97920"
proof -
  let ?t0 = "table_new 368640 92160"
  let ?t = "take_run [0, 1] ?t0"
  have inv: "table_inv ?t"
    by (rule take_run_inv[OF table_inv_new]) (auto simp: is_run_def table_new_def upt_rec)
  have o: "physical_offset 0 0 ?t = Some 0" "physical_offset 0 17 ?t = Some 97920"
    by (simp_all add: physical_offset_def take_run_def table_new_def nth_opt_def tokens_per_block_def
        kv_nf4_per_position_def)
  have "tokens_per_block * kv_nf4_per_position \<le> block_size ?t"
    by (simp add: tokens_per_block_def kv_nf4_per_position_def take_run_def table_new_def)
  then show ?thesis using physical_offsets_disjoint[OF inv _ o] o by auto
qed

end
