(* ===== verification/Kv_Arena.thy ===== *)
theory Kv_Arena
  imports Prism_Prelude
begin

text \<open>
  The reference-counted block arena of \<open>prism-kv-cache/src/arena\<close>: physical blocks
  (\<open>block.rs\<close>), the prefix index (\<open>prefix.rs\<close>), copy-on-write and LRU tracking
  (\<open>refcount.rs\<close>) and the arena itself (\<open>mod.rs\<close>: allocation, release, prefix sharing, admission and
  eviction). Block ids, hashes, counters and time stamps are naturals; the reference counter wraps at 64 bits as
  \<open>fetch_sub\<close> does. A content hash is an argument (the standard hasher computes it), and so is the
  sequence id taken from the global counter. The residency table is not touched by these operations and is
  left out.
\<close>

subsection \<open>Blocks\<close>

datatype backend_affinity = MlxMetal | CandleCpu | Tensix | IntelLevelZero | HostPinned | Ane

record physical_block =
  pb_id :: nat
  pb_block_size :: nat
  token_count :: nat
  refcount :: nat
  last_access_ns :: nat
  pb_backend :: backend_affinity

definition block_new :: "nat \<Rightarrow> nat \<Rightarrow> backend_affinity \<Rightarrow> physical_block" where
  "block_new i bs be = \<lparr>pb_id = i, pb_block_size = bs, token_count = 0, refcount = 1,
     last_access_ns = 0, pb_backend = be\<rparr>"

definition touch :: "nat \<Rightarrow> physical_block \<Rightarrow> physical_block" where
  "touch now b = b\<lparr>last_access_ns := now\<rparr>"

definition is_full :: "physical_block \<Rightarrow> bool" where
  "is_full b \<longleftrightarrow> pb_block_size b \<le> token_count b"

definition add_tokens :: "nat \<Rightarrow> physical_block \<Rightarrow> physical_block" where
  "add_tokens n b = b\<lparr>token_count := (token_count b + n) mod 2 ^ 64\<rparr>"

text \<open>\<open>dec_ref\<close> returns the saturated difference but stores the wrapped one.\<close>

definition dec_ref :: "physical_block \<Rightarrow> nat \<times> physical_block" where
  "dec_ref b = (refcount b - 1, b\<lparr>refcount := (refcount b + 2 ^ 64 - 1) mod 2 ^ 64\<rparr>)"

definition inc_ref :: "physical_block \<Rightarrow> physical_block" where
  "inc_ref b = b\<lparr>refcount := (refcount b + 1) mod 2 ^ 64\<rparr>"

definition is_completely_free :: "physical_block \<Rightarrow> bool" where
  "is_completely_free b \<longleftrightarrow> refcount b = 0"

definition tokens_to_blocks :: "nat \<Rightarrow> nat \<Rightarrow> nat" where
  "tokens_to_blocks num_tokens bs = (num_tokens + bs - 1) div bs"

text \<open>The block table of one request.\<close>

record block_table_entry =
  logical :: nat
  physical :: nat
  entry_token_count :: nat
  prefix_hash :: nat
  is_dirty :: bool

type_synonym request_table = "block_table_entry list"

definition table_push :: "block_table_entry \<Rightarrow> request_table \<Rightarrow> request_table" where
  "table_push e t = t @ [e]"

definition table_get :: "nat \<Rightarrow> request_table \<Rightarrow> block_table_entry option" where
  "table_get l t = find (\<lambda>e. logical e = l) t"

definition total_tokens :: "request_table \<Rightarrow> nat" where
  "total_tokens t = sum_list (map entry_token_count t)"

subsection \<open>Copy on write, LRU order\<close>

definition is_shareable :: "nat \<Rightarrow> bool" where
  "is_shareable rc \<longleftrightarrow> 1 < rc"

definition prepare_write :: "physical_block \<Rightarrow> bool \<times> physical_block" where
  "prepare_write b = (if 1 < refcount b then (True, snd (dec_ref b)) else (False, b))"

record lru_tracker =
  queue :: "nat list"
  lru_capacity :: nat

definition lru_remove :: "nat \<Rightarrow> lru_tracker \<Rightarrow> lru_tracker" where
  "lru_remove i t = (case position (\<lambda>x. x = i) (queue t) of None \<Rightarrow> t
     | Some pos \<Rightarrow> t\<lparr>queue := remove_at pos (queue t)\<rparr>)"

definition lru_touch :: "nat \<Rightarrow> lru_tracker \<Rightarrow> lru_tracker" where
  "lru_touch i t = (let q = queue (lru_remove i t) @ [i]
     in t\<lparr>queue := drop (length q - lru_capacity t) q\<rparr>)"

definition evict_candidate :: "lru_tracker \<Rightarrow> nat option" where
  "evict_candidate t = (case queue t of [] \<Rightarrow> None | i # _ \<Rightarrow> Some i)"

subsection \<open>The prefix index\<close>

record prefix_index =
  index :: "nat \<rightharpoonup> nat"
  hits :: "nat \<rightharpoonup> nat"

definition prefix_new :: prefix_index where
  "prefix_new = \<lparr>index = Map.empty, hits = Map.empty\<rparr>"

definition prefix_lookup :: "nat \<Rightarrow> prefix_index \<Rightarrow> nat option \<times> prefix_index" where
  "prefix_lookup h p = (case index p h of None \<Rightarrow> (None, p)
     | Some b \<Rightarrow> (Some b, p\<lparr>hits := (hits p)(h \<mapsto> (case hits p h of None \<Rightarrow> 0 | Some n \<Rightarrow> n) + 1)\<rparr>))"

definition prefix_insert :: "nat \<Rightarrow> nat \<Rightarrow> prefix_index \<Rightarrow> prefix_index" where
  "prefix_insert h b p = p\<lparr>index := (index p)(h \<mapsto> b),
     hits := (hits p)(h \<mapsto> (case hits p h of None \<Rightarrow> 0 | Some n \<Rightarrow> n))\<rparr>"

definition prefix_remove :: "nat \<Rightarrow> prefix_index \<Rightarrow> prefix_index" where
  "prefix_remove h p = p\<lparr>index := (index p)(h := None), hits := (hits p)(h := None)\<rparr>"

subsection \<open>The arena\<close>

datatype arena_error = CapacityExceeded nat nat nat | BackendMismatch backend_affinity backend_affinity
  | OutOfMemory nat nat | EvictionInvariantBroken

record logical_table =
  sequence_id :: nat
  logical_to_physical :: "nat list"
  lt_token_count :: nat
  lt_max_blocks :: nat

definition translate :: "logical_table \<Rightarrow> nat \<Rightarrow> nat option" where
  "translate t l = nth_opt (logical_to_physical t) l"

definition last_physical :: "logical_table \<Rightarrow> nat option" where
  "last_physical t = (if logical_to_physical t = [] then None else Some (last (logical_to_physical t)))"

record kv_arena =
  blocks :: "physical_block list"
  free_list :: "nat list"
  block_size :: nat
  capacity :: nat
  backend :: backend_affinity
  prefix_cache :: prefix_index
  logical_tables :: "logical_table list"
  eviction_policy :: string
  cow_policy :: string

text \<open>\<open>new\<close> goes through a plan whose sizes are \<open>u32\<close> and whose policies are empty strings.\<close>

definition arena_new :: "nat \<Rightarrow> nat \<Rightarrow> backend_affinity \<Rightarrow> kv_arena" where
  "arena_new bs cap be = \<lparr>blocks = [], free_list = [], block_size = as_u32 bs, capacity = as_u32 cap,
     backend = be, prefix_cache = prefix_new, logical_tables = [], eviction_policy = [], cow_policy = []\<rparr>"

text \<open>\<open>min_by_key\<close> returns the first of the smallest elements.\<close>

fun min_by :: "('a \<Rightarrow> 'a \<Rightarrow> bool) \<Rightarrow> 'a list \<Rightarrow> 'a option" where
  "min_by lt [] = None"
| "min_by lt (x # xs) = Some (fold (\<lambda>y x. if lt y x then y else x) xs x)"

definition eviction_less :: "string \<Rightarrow> nat \<times> physical_block \<Rightarrow> nat \<times> physical_block \<Rightarrow> bool" where
  "eviction_less policy x y =
     (if policy = ''fifo'' then fst x < fst y
      else if policy = ''lru_refcount'' then
        refcount (snd x) < refcount (snd y) \<or>
        (refcount (snd x) = refcount (snd y) \<and> last_access_ns (snd x) < last_access_ns (snd y))
      else last_access_ns (snd x) < last_access_ns (snd y))"

definition eligible :: "kv_arena \<Rightarrow> (nat \<times> physical_block) list" where
  "eligible a = filter (\<lambda>(i, b). is_completely_free b \<and> i \<notin> set (free_list a)) (enumerate 0 (blocks a))"

definition evict_one :: "kv_arena \<Rightarrow> nat option \<times> kv_arena" where
  "evict_one a = (case min_by (eviction_less (eviction_policy a)) (eligible a) of None \<Rightarrow> (None, a)
     | Some (i, b) \<Rightarrow> (Some (pb_id b),
         a\<lparr>prefix_cache := prefix_remove (pb_id b) (prefix_cache a), free_list := free_list a @ [i]\<rparr>))"

text \<open>
  Popping a free slot and reinitialising its block; an index outside the block vector panics.
\<close>

definition reuse_slot :: "kv_arena \<Rightarrow> (arena_error, nat) outcome \<times> kv_arena" where
  "reuse_slot a = (let i = last (free_list a); a1 = a\<lparr>free_list := butlast (free_list a)\<rparr> in
     if i < length (blocks a)
     then (Ok (as_u32 i), a1\<lparr>blocks := (blocks a)[i := block_new (as_u32 i) (block_size a) (backend a)]\<rparr>)
     else (Panic, a1))"

definition try_allocate :: "kv_arena \<Rightarrow> (arena_error, nat) outcome \<times> kv_arena" where
  "try_allocate a =
     (if free_list a \<noteq> [] then reuse_slot a
      else if capacity a \<le> length (blocks a) then
        (case evict_one a of
           (Some _, a1) \<Rightarrow> if free_list a1 = [] then (Err EvictionInvariantBroken, a1) else reuse_slot a1
         | (None, a1) \<Rightarrow> (Err (CapacityExceeded 1 0 (capacity a1)), a1))
      else let i = as_u32 (length (blocks a)) in
        (Ok i, a\<lparr>blocks := blocks a @ [block_new i (block_size a) (backend a)]\<rparr>))"

definition release :: "nat \<Rightarrow> kv_arena \<Rightarrow> kv_arena" where
  "release i a =
     (if length (blocks a) \<le> i then a
      else let b = snd (dec_ref (blocks a ! i)); a1 = a\<lparr>blocks := (blocks a)[i := b]\<rparr> in
        if is_completely_free b then a1\<lparr>free_list := free_list a1 @ [i]\<rparr> else a1)"

text \<open>The first block with the given id gains a reference.\<close>

fun inc_first :: "nat \<Rightarrow> physical_block list \<Rightarrow> physical_block list" where
  "inc_first i [] = []"
| "inc_first i (b # bs) = (if pb_id b = i then inc_ref b # bs else b # inc_first i bs)"

definition register :: "nat \<Rightarrow> nat \<Rightarrow> kv_arena \<Rightarrow> kv_arena" where
  "register h i a = a\<lparr>prefix_cache := prefix_insert h i (prefix_cache a)\<rparr>"

definition allocate_prefixed :: "nat \<Rightarrow> kv_arena \<Rightarrow> (arena_error, nat) outcome \<times> kv_arena" where
  "allocate_prefixed h a =
     (case prefix_lookup h (prefix_cache a) of
        (Some cached, p) \<Rightarrow> (Ok cached, a\<lparr>prefix_cache := p, blocks := inc_first cached (blocks a)\<rparr>)
      | (None, _) \<Rightarrow>
          (case try_allocate a of
             (Ok i, a1) \<Rightarrow> (Ok i, register h i a1)
           | (Err (CapacityExceeded _ _ _), a1) \<Rightarrow>
               (case try_allocate (snd (evict_one a1)) of
                  (Ok i, a2) \<Rightarrow> (Ok i, register h i a2) | other \<Rightarrow> other)
           | other \<Rightarrow> other))"

text \<open>The allocation loop of an admission stops at the first failure.\<close>

fun alloc_n :: "('s \<Rightarrow> ('err, nat) outcome \<times> 's) \<Rightarrow> nat \<Rightarrow> 's \<Rightarrow> ('err, nat list) outcome \<times> 's" where
  "alloc_n alloc 0 s = (Ok [], s)"
| "alloc_n alloc (Suc n) s = (case alloc s of
       (Ok i, s1) \<Rightarrow> (case alloc_n alloc n s1 of (Ok ids, s2) \<Rightarrow> (Ok (i # ids), s2) | other \<Rightarrow> other)
     | (Err e, s1) \<Rightarrow> (Err e, s1)
     | (Panic, s1) \<Rightarrow> (Panic, s1))"

record admission_receipt =
  r_sequence_id :: nat
  allocated_blocks :: "nat list"
  r_total_tokens :: nat
  total_blocks :: nat
  bytes_allocated :: nat
  prefix_hits :: nat
  new_blocks :: nat

text \<open>
  \<open>admit_sequence\<close>: a block size of 0 divides by zero and panics. A block estimate is eight bytes per
  token.
\<close>

definition admit_sequence :: "nat \<Rightarrow> nat \<Rightarrow> kv_arena \<Rightarrow> (arena_error, admission_receipt) outcome \<times> kv_arena" where
  "admit_sequence seq tokens a =
     (if block_size a = 0 then (Panic, a)
      else let needed = tokens_to_blocks tokens (block_size a) in
        case alloc_n try_allocate needed a of
          (Ok ids, a1) \<Rightarrow>
            (Ok \<lparr>r_sequence_id = seq, allocated_blocks = ids, r_total_tokens = tokens, total_blocks = needed,
                 bytes_allocated = length ids * (block_size a1 * 4 * 2), prefix_hits = 0, new_blocks = needed\<rparr>,
             a1\<lparr>logical_tables := logical_tables a1 @ [\<lparr>sequence_id = seq, logical_to_physical = ids,
                 lt_token_count = tokens, lt_max_blocks = capacity a1\<rparr>]\<rparr>)
        | (Err e, a1) \<Rightarrow> (Err e, a1)
        | (Panic, a1) \<Rightarrow> (Panic, a1))"

definition available_blocks :: "kv_arena \<Rightarrow> nat" where
  "available_blocks a = (capacity a - length (blocks a)) + length (free_list a)"

definition get_logical_table :: "nat \<Rightarrow> kv_arena \<Rightarrow> logical_table option" where
  "get_logical_table seq a = find (\<lambda>t. sequence_id t = seq) (logical_tables a)"

subsection \<open>The contract of a reference-counted pool\<close>

text \<open>
  What the admission of a sequence relies on: an allocation that succeeds gives a block nobody holds and one
  reference to it; it fails only when every block of the pool is held, and then changes nothing.
\<close>

locale ref_pool =
  fixes inv :: "'s \<Rightarrow> bool"
    and refs :: "'s \<Rightarrow> nat \<Rightarrow> nat"
    and cap :: "'s \<Rightarrow> nat"
    and alloc :: "'s \<Rightarrow> ('err, nat) outcome \<times> 's"
    and free :: "nat \<Rightarrow> 's \<Rightarrow> 's"
  assumes alloc_ok: "inv s \<Longrightarrow> alloc s = (Ok i, s') \<Longrightarrow>
       inv s' \<and> refs s i = 0 \<and> refs s' = (refs s)(i := 1) \<and> cap s' = cap s"
    and alloc_err: "inv s \<Longrightarrow> alloc s = (Err e, s') \<Longrightarrow> s' = s \<and> card {i. 0 < refs s i} = cap s"
    and alloc_no_panic: "inv s \<Longrightarrow> alloc s \<noteq> (Panic, s')"
    and live_bound: "inv s \<Longrightarrow> finite {i. 0 < refs s i} \<and> card {i. 0 < refs s i} \<le> cap s"
    and free: "inv s \<Longrightarrow> 0 < refs s i \<Longrightarrow>
       inv (free i s) \<and> refs (free i s) = (refs s)(i := refs s i - 1) \<and> cap (free i s) = cap s"
begin

definition live :: "'s \<Rightarrow> nat set" where
  "live s = {i. 0 < refs s i}"

lemma live_alloc:
  assumes "inv s" "alloc s = (Ok i, s')"
  shows "live s' = insert i (live s)" "card (live s') = Suc (card (live s))"
proof -
  have a: "refs s i = 0" "refs s' = (refs s)(i := 1)" using alloc_ok[OF assms] by auto
  then show l: "live s' = insert i (live s)" by (auto simp: live_def)
  show "card (live s') = Suc (card (live s))"
    using live_bound[OF assms(1)] a(1) unfolding l by (simp add: live_def)
qed

text \<open>A run of allocations that succeeds gives distinct blocks that nobody held.\<close>

lemma alloc_n_ok:
  assumes "inv s" "alloc_n alloc n s = (Ok ids, s')"
  shows "inv s' \<and> cap s' = cap s \<and> length ids = n \<and> distinct ids \<and> (\<forall>i \<in> set ids. refs s i = 0) \<and>
    refs s' = (\<lambda>i. if i \<in> set ids then 1 else refs s i)"
  using assms
proof (induction n arbitrary: s ids)
  case (Suc n)
  obtain i s1 where a: "alloc s = (Ok i, s1)" "alloc_n alloc n s1 = (Ok (tl ids), s')" "ids = i # tl ids"
    using Suc.prems(2) by (auto split: prod.splits outcome.splits)
  note one = alloc_ok[OF Suc.prems(1) a(1)]
  then have ih: "inv s' \<and> cap s' = cap s1 \<and> length (tl ids) = n \<and> distinct (tl ids) \<and>
    (\<forall>i \<in> set (tl ids). refs s1 i = 0) \<and> refs s' = (\<lambda>i. if i \<in> set (tl ids) then 1 else refs s1 i)"
    using Suc.IH[OF _ a(2)] by blast
  then have "i \<notin> set (tl ids)" using one by auto
  moreover have "\<forall>j \<in> set (tl ids). refs s j = 0" using ih one calculation by (metis fun_upd_other)
  moreover have "set ids = insert i (set (tl ids))" "length ids = Suc n" "distinct ids"
    using ih calculation(1) by (subst a(3), simp)+
  ultimately show ?case using ih one by (auto simp: fun_eq_iff)
qed auto

text \<open>It succeeds exactly when the pool has room; a run that fails has taken all the room there was.\<close>

lemma alloc_n_total:
  assumes "inv s"
  shows "if n + card (live s) \<le> cap s then \<exists>ids s'. alloc_n alloc n s = (Ok ids, s')
    else \<exists>e s'. alloc_n alloc n s = (Err e, s') \<and> inv s' \<and> cap s' = cap s \<and> card (live s') = cap s \<and>
      live s \<subseteq> live s'"
  using assms
proof (induction n arbitrary: s)
  case 0
  then show ?case using live_bound[OF 0] by (simp add: live_def)
next
  case (Suc n)
  obtain r s1 where a: "alloc s = (r, s1)" by (cases "alloc s")
  show ?case
  proof (cases r)
    case Panic
    then show ?thesis using alloc_no_panic[OF Suc.prems, of s1] a by simp
  next
    case (Err e)
    then have "s1 = s" "card (live s) = cap s" using alloc_err[OF Suc.prems] a by (auto simp: live_def)
    then show ?thesis using a Err Suc.prems by auto
  next
    case (Ok i)
    then have a': "alloc s = (Ok i, s1)" using a by simp
    note one = alloc_ok[OF Suc.prems a']
    note l = live_alloc[OF Suc.prems a']
    have "if n + card (live s1) \<le> cap s1 then \<exists>ids s'. alloc_n alloc n s1 = (Ok ids, s')
      else \<exists>e s'. alloc_n alloc n s1 = (Err e, s') \<and> inv s' \<and> cap s' = cap s1 \<and> card (live s') = cap s1 \<and>
        live s1 \<subseteq> live s'" using Suc.IH one by blast
    then show ?thesis using a' one l by (cases "n + card (live s1) \<le> cap s1") auto
  qed
qed

lemma no_room:
  assumes "inv s" "card (live s) = cap s"
  shows "\<exists>e. alloc s = (Err e, s)"
proof -
  have "\<not> 1 + card (live s) \<le> cap s" using assms(2) by simp
  then obtain e s' where e: "alloc_n alloc 1 s = (Err e, s')" using alloc_n_total[OF assms(1), of 1] by auto
  obtain r s1 where a: "alloc s = (r, s1)" by (cases "alloc s")
  then have "\<exists>e. r = Err e" using e by (auto split: outcome.splits)
  then show ?thesis using a alloc_err[OF assms(1)] by auto
qed

end

subsection \<open>The arena invariant\<close>

definition refs_of :: "kv_arena \<Rightarrow> nat \<Rightarrow> nat" where
  "refs_of a i = (if i < length (blocks a) then refcount (blocks a ! i) else 0)"

text \<open>
  Blocks carry their own index, counters fit 64 bits, the free list names exactly the blocks without
  references, each once, and the arena respects its capacity.
\<close>

definition arena_inv :: "kv_arena \<Rightarrow> bool" where
  "arena_inv a \<longleftrightarrow> length (blocks a) \<le> capacity a \<and> capacity a < 2 ^ 32 \<and> distinct (free_list a) \<and>
     (\<forall>i < length (blocks a). pb_id (blocks a ! i) = i \<and> refcount (blocks a ! i) < 2 ^ 64) \<and>
     (\<forall>i. i \<in> set (free_list a) \<longleftrightarrow> i < length (blocks a) \<and> refs_of a i = 0)"

lemma arena_cong:
  assumes "blocks b = blocks a" "free_list b = free_list a" "capacity b = capacity a"
  shows "refs_of b = refs_of a" "arena_inv b = arena_inv a"
proof -
  show "refs_of b = refs_of a" by (rule ext) (auto simp: refs_of_def assms(1))
  then show "arena_inv b = arena_inv a" unfolding arena_inv_def assms by simp
qed

lemma arena_invI:
  assumes "length (blocks a) \<le> capacity a" "capacity a < 2 ^ 32" "distinct (free_list a)"
    and "\<And>i. i < length (blocks a) \<Longrightarrow> pb_id (blocks a ! i) = i \<and> refcount (blocks a ! i) < 2 ^ 64"
    and "\<And>i. i \<in> set (free_list a) \<longleftrightarrow> i < length (blocks a) \<and> refs_of a i = 0"
  shows "arena_inv a"
  using assms by (simp add: arena_inv_def)

lemma arena_invD:
  assumes "arena_inv a"
  shows "length (blocks a) \<le> capacity a" "capacity a < 2 ^ 32" "distinct (free_list a)"
    and "i < length (blocks a) \<Longrightarrow> pb_id (blocks a ! i) = i \<and> refcount (blocks a ! i) < 2 ^ 64"
    and "i \<in> set (free_list a) \<longleftrightarrow> i < length (blocks a) \<and> refs_of a i = 0"
  using assms by (simp_all add: arena_inv_def)

lemma arena_inv_new: "arena_inv (arena_new bs cap be)"
  by (simp add: arena_inv_def arena_new_def refs_of_def as_u32_def)

text \<open>No block is eligible for eviction: a block without references is already on the free list.\<close>

lemma eligible_empty: "arena_inv a \<Longrightarrow> eligible a = []"
  by (auto simp: eligible_def filter_empty_conv set_enumerate0 arena_inv_def is_completely_free_def refs_of_def)

lemma evict_none: "arena_inv a \<Longrightarrow> evict_one a = (None, a)"
  by (simp add: evict_one_def eligible_empty)

lemma live_card:
  assumes "arena_inv a"
  shows "finite {i. 0 < refs_of a i}" "card {i. 0 < refs_of a i} + length (free_list a) = length (blocks a)"
proof -
  note d = arena_invD[OF assms]
  have split: "{..<length (blocks a)} = {i. 0 < refs_of a i} \<union> set (free_list a)"
  proof (rule set_eqI)
    fix j
    have "0 < refs_of a j \<Longrightarrow> j < length (blocks a)" by (simp add: refs_of_def split: if_splits)
    then show "j \<in> {..<length (blocks a)} \<longleftrightarrow> j \<in> {i. 0 < refs_of a i} \<union> set (free_list a)"
      using d(5)[of j] by auto
  qed
  have disj: "{i. 0 < refs_of a i} \<inter> set (free_list a) = {}"
  proof (rule equals0I)
    fix j assume "j \<in> {i. 0 < refs_of a i} \<inter> set (free_list a)"
    then show False using d(5)[of j] by auto
  qed
  show fin: "finite {i. 0 < refs_of a i}"
    by (rule finite_subset[of _ "{..<length (blocks a)}"]) (auto simp: refs_of_def split: if_splits)
  show "card {i. 0 < refs_of a i} + length (free_list a) = length (blocks a)"
  proof -
    have "length (blocks a) = card ({i. 0 < refs_of a i} \<union> set (free_list a))"
      unfolding split[symmetric] by simp
    also have "\<dots> = card {i. 0 < refs_of a i} + card (set (free_list a))"
      by (rule card_Un_disjoint[OF fin _ disj]) simp
    finally show ?thesis using distinct_card[OF d(3)] by simp
  qed
qed

text \<open>Reinitialising a block, or appending one.\<close>

lemma block_new_simps [simp]: "pb_id (block_new i bs be) = i" "refcount (block_new i bs be) = 1"
  by (simp_all add: block_new_def)

lemma try_allocate_spec:
  assumes inv: "arena_inv a"
  shows "(\<exists>i a'. try_allocate a = (Ok i, a') \<and> arena_inv a' \<and> refs_of a i = 0 \<and>
        refs_of a' = (refs_of a)(i := 1) \<and> capacity a' = capacity a \<and>
        prefix_cache a' = prefix_cache a \<and> logical_tables a' = logical_tables a) \<and>
        card {i. 0 < refs_of a i} < capacity a
     \<or> try_allocate a = (Err (CapacityExceeded 1 0 (capacity a)), a) \<and>
        card {i. 0 < refs_of a i} = capacity a"
proof (cases "free_list a = []")
  case False
  note d = arena_invD[OF inv]
  let ?i = "last (free_list a)"
  have i: "?i < length (blocks a)" "refs_of a ?i = 0" using d(5)[of ?i] False by auto
  then have small: "as_u32 ?i = ?i" using d(1,2) by (intro as_u32_small) simp
  let ?a = "a\<lparr>free_list := butlast (free_list a), blocks := (blocks a)[?i := block_new ?i (block_size a) (backend a)]\<rparr>"
  have run: "try_allocate a = (Ok ?i, ?a)"
    using False i(1) by (simp add: try_allocate_def reuse_slot_def Let_def small)
  have refs: "refs_of ?a = (refs_of a)(?i := 1)"
    using i(1) by (auto simp: refs_of_def fun_eq_iff nth_list_update)
  have fl: "set (butlast (free_list a)) = set (free_list a) - {?i}"
  proof -
    have "distinct (butlast (free_list a) @ [?i])" "set (free_list a) = set (butlast (free_list a) @ [?i])"
      using d(3) False by simp_all
    then show ?thesis by auto
  qed
  have "arena_inv ?a"
  proof (rule arena_invI)
    fix j show "j \<in> set (free_list ?a) \<longleftrightarrow> j < length (blocks ?a) \<and> refs_of ?a j = 0"
      unfolding refs using fl d(5)[of j] by auto
    show "j < length (blocks ?a) \<Longrightarrow> pb_id (blocks ?a ! j) = j \<and> refcount (blocks ?a ! j) < 2 ^ 64"
      using d(4)[of j] i(1) by (auto simp: nth_list_update)
  qed (use d in \<open>auto simp: distinct_butlast\<close>)
  moreover have "card {i. 0 < refs_of a i} < capacity a"
    using live_card(2)[OF inv] False d(1) by (metis add_less_cancel_left le_add1 length_greater_0_conv
        less_le_trans add.right_neutral)
  ultimately show ?thesis using run refs i(2) by auto
next
  case True
  note d = arena_invD[OF inv]
  show ?thesis
  proof (cases "capacity a \<le> length (blocks a)")
    case full: True
    then have "card {i. 0 < refs_of a i} = capacity a" using live_card(2)[OF inv] True d(1) by simp
    moreover have "try_allocate a = (Err (CapacityExceeded 1 0 (capacity a)), a)"
      using True full evict_none[OF inv] by (simp add: try_allocate_def)
    ultimately show ?thesis by simp
  next
    case room: False
    let ?i = "length (blocks a)"
    have small: "as_u32 ?i = ?i" using d(1,2) by (intro as_u32_small) simp
    let ?a = "a\<lparr>blocks := blocks a @ [block_new ?i (block_size a) (backend a)]\<rparr>"
    have run: "try_allocate a = (Ok ?i, ?a)" using True room small by (simp add: try_allocate_def Let_def)
    have refs: "refs_of ?a = (refs_of a)(?i := 1)" by (auto simp: refs_of_def fun_eq_iff nth_append)
    have "arena_inv ?a"
    proof (rule arena_invI)
      fix j show "j \<in> set (free_list ?a) \<longleftrightarrow> j < length (blocks ?a) \<and> refs_of ?a j = 0"
        unfolding refs using d(5)[of j] True by auto
      show "j < length (blocks ?a) \<Longrightarrow> pb_id (blocks ?a ! j) = j \<and> refcount (blocks ?a ! j) < 2 ^ 64"
        using d(4)[of j] by (auto simp: nth_append)
    qed (use d room in auto)
    moreover have "refs_of a ?i = 0" by (simp add: refs_of_def)
    moreover have "card {i. 0 < refs_of a i} < capacity a" using live_card(2)[OF inv] room d(1) by simp
    ultimately show ?thesis using run refs by auto
  qed
qed

lemma release_spec:
  assumes inv: "arena_inv a" and live: "0 < refs_of a i"
  shows "arena_inv (release i a) \<and> refs_of (release i a) = (refs_of a)(i := refs_of a i - 1) \<and>
     capacity (release i a) = capacity a \<and> prefix_cache (release i a) = prefix_cache a"
proof -
  note d = arena_invD[OF inv]
  have i: "i < length (blocks a)" "0 < refcount (blocks a ! i)"
    using live by (auto simp: refs_of_def split: if_splits)
  then have wrap: "(refcount (blocks a ! i) + 2 ^ 64 - 1) mod 2 ^ 64 = refcount (blocks a ! i) - 1"
  proof -
    have "refcount (blocks a ! i) + 2 ^ 64 - 1 = (refcount (blocks a ! i) - 1) + 2 ^ 64" using i(2) by simp
    moreover have "refcount (blocks a ! i) - 1 < 2 ^ 64" using d(4)[OF i(1)] by linarith
    ultimately show ?thesis by (simp only: mod_add_self2 mod_less)
  qed
  let ?b = "(blocks a ! i)\<lparr>refcount := refcount (blocks a ! i) - 1\<rparr>"
  let ?a = "a\<lparr>blocks := (blocks a)[i := ?b], free_list := (if refcount (blocks a ! i) = 1
      then free_list a @ [i] else free_list a)\<rparr>"
  have rel: "release i a = ?a"
    using i wrap by (auto simp: release_def dec_ref_def is_completely_free_def Let_def)
  have refs: "refs_of ?a = (refs_of a)(i := refs_of a i - 1)"
    using i(1) by (auto simp: refs_of_def fun_eq_iff nth_list_update)
  have notin: "i \<notin> set (free_list a)" using d(5)[of i] live by auto
  have "arena_inv ?a"
  proof (rule arena_invI)
    fix j show "j \<in> set (free_list ?a) \<longleftrightarrow> j < length (blocks ?a) \<and> refs_of ?a j = 0"
      unfolding refs using d(5)[of j] i live by (auto simp: refs_of_def)
    show "j < length (blocks ?a) \<Longrightarrow> pb_id (blocks ?a ! j) = j \<and> refcount (blocks ?a ! j) < 2 ^ 64"
      using d(4)[of j] d(4)[OF i(1)] i(1) by (auto simp: nth_list_update)
  qed (use d notin in auto)
  then show ?thesis unfolding rel using refs by simp
qed

interpretation pool: ref_pool arena_inv refs_of capacity try_allocate release
proof
  fix a a' i e
  assume inv: "arena_inv a"
  show "try_allocate a = (Ok i, a') \<Longrightarrow>
      arena_inv a' \<and> refs_of a i = 0 \<and> refs_of a' = (refs_of a)(i := 1) \<and> capacity a' = capacity a"
    using try_allocate_spec[OF inv] by auto
  show "try_allocate a = (Err e, a') \<Longrightarrow> a' = a \<and> card {i. 0 < refs_of a i} = capacity a"
    using try_allocate_spec[OF inv] by auto
  show "try_allocate a \<noteq> (Panic, a')" using try_allocate_spec[OF inv] by auto
  show "finite {i. 0 < refs_of a i} \<and> card {i. 0 < refs_of a i} \<le> capacity a"
    using live_card[OF inv] arena_invD(1)[OF inv] by simp
  show "0 < refs_of a i \<Longrightarrow> arena_inv (release i a) \<and>
      refs_of (release i a) = (refs_of a)(i := refs_of a i - 1) \<and> capacity (release i a) = capacity a"
    using release_spec[OF inv] by blast
qed

lemma inc_first_id:
  assumes "\<And>k. k < length bs \<Longrightarrow> pb_id (bs ! k) = n + k" "i < length bs"
  shows "inc_first (n + i) bs = bs[i := inc_ref (bs ! i)]"
  using assms
proof (induction bs arbitrary: n i)
  case (Cons b bs)
  have b: "pb_id b = n" using Cons.prems(1)[of 0] by simp
  show ?case
  proof (cases i)
    case 0
    then show ?thesis using b by simp
  next
    case (Suc j)
    have "pb_id (bs ! k) = Suc n + k" if "k < length bs" for k
      using Cons.prems(1)[of "Suc k"] that by simp
    then have "inc_first (Suc n + j) bs = bs[j := inc_ref (bs ! j)]"
      using Cons.IH[of "Suc n" j] Cons.prems(2) Suc by simp
    then show ?thesis using b Suc by simp
  qed
qed simp

text \<open>A prefix hit gives the registered block one more reference, whether or not anyone holds it.\<close>

lemma prefix_hit:
  assumes inv: "arena_inv a" and hit: "index (prefix_cache a) h = Some i" and i: "i < length (blocks a)"
    and room: "refs_of a i + 1 < 2 ^ 64"
  obtains a' where "allocate_prefixed h a = (Ok i, a')" "refs_of a' = (refs_of a)(i := refs_of a i + 1)"
    "free_list a' = free_list a" "length (blocks a') = length (blocks a)" "capacity a' = capacity a"
    "\<And>k. k < length (blocks a) \<Longrightarrow> pb_id (blocks a' ! k) = k"
proof -
  note d = arena_invD[OF inv]
  have up: "inc_first i (blocks a) = (blocks a)[i := inc_ref (blocks a ! i)]"
    using inc_first_id[of "blocks a" 0 i] d(4) i by simp
  let ?p = "snd (prefix_lookup h (prefix_cache a))"
  let ?a = "a\<lparr>prefix_cache := ?p, blocks := (blocks a)[i := inc_ref (blocks a ! i)]\<rparr>"
  have "allocate_prefixed h a = (Ok i, ?a)"
    using hit up by (simp add: allocate_prefixed_def prefix_lookup_def)
  moreover have "refs_of ?a = (refs_of a)(i := refs_of a i + 1)"
    using i room by (auto simp: refs_of_def fun_eq_iff nth_list_update inc_ref_def)
  moreover have "pb_id (blocks ?a ! k) = k" if "k < length (blocks a)" for k
    using d(4)[OF that] i by (auto simp: nth_list_update inc_ref_def)
  ultimately show ?thesis by (intro that[of ?a]) simp_all
qed

lemma alloc_n_tables:
  assumes "arena_inv a" "alloc_n try_allocate n a = (r, a')"
  shows "logical_tables a' = logical_tables a"
  using assms
proof (induction n arbitrary: a r)
  case (Suc n)
  from try_allocate_spec[OF Suc.prems(1)] consider
    (ok) i a1 where "try_allocate a = (Ok i, a1)" "arena_inv a1" "logical_tables a1 = logical_tables a"
    | (err) "try_allocate a = (Err (CapacityExceeded 1 0 (capacity a)), a)" by blast
  then show ?case
  proof cases
    case ok
    obtain r1 where "alloc_n try_allocate n a1 = (r1, a')"
      using Suc.prems(2) ok(1) by (auto split: prod.splits outcome.splits)
    then show ?thesis using Suc.IH[OF ok(2)] ok(3) by simp
  qed (use Suc.prems(2) in simp)
qed simp

lemma tokens_to_blocks_ceiling:
  assumes "bs \<noteq> 0"
  shows "n \<le> tokens_to_blocks n bs * bs" "tokens_to_blocks n bs * bs < n + bs"
proof -
  let ?m = "n + bs - 1"
  have "?m div bs * bs + ?m mod bs = ?m" by simp
  moreover have "?m mod bs < bs" using assms by simp
  ultimately show "n \<le> tokens_to_blocks n bs * bs" "tokens_to_blocks n bs * bs < n + bs"
    unfolding tokens_to_blocks_def by linarith+
qed

text \<open>The LRU tracker keeps its ids distinct, within its capacity, most recent last.\<close>

lemma set_remove_at_distinct:
  assumes "distinct xs" "i < length xs"
  shows "set (remove_at i xs) = set xs - {xs ! i}" "distinct (remove_at i xs)"
proof -
  have m: "mset (remove_at i xs) = mset (remove1 (xs ! i) xs)"
    using mset_remove_at[OF assms(2)] assms(2) by (metis add_mset_remove_trivial mset_remove1)
  show "set (remove_at i xs) = set xs - {xs ! i}" using assms mset_eq_setD[OF m] by simp
  show "distinct (remove_at i xs)" using assms mset_eq_imp_distinct_iff[OF m] by simp
qed

lemma lru_touch_inv:
  assumes "distinct (queue t)" "0 < lru_capacity t"
  shows "distinct (queue (lru_touch i t))" "length (queue (lru_touch i t)) \<le> lru_capacity t"
    "last (queue (lru_touch i t)) = i" "queue (lru_touch i t) \<noteq> []"
proof -
  have r: "set (queue (lru_remove i t)) = set (queue t) - {i} \<and> distinct (queue (lru_remove i t))"
  proof (cases "position (\<lambda>x. x = i) (queue t)")
    case None
    then have "i \<notin> set (queue t)" by (auto simp: position_None)
    then show ?thesis using None assms(1) by (simp add: lru_remove_def)
  next
    case (Some k)
    then show ?thesis
      using set_remove_at_distinct[OF assms(1), of k] position_Some[OF Some] by (simp add: lru_remove_def)
  qed
  then have "distinct (queue (lru_remove i t) @ [i])" by simp
  from distinct_drop[OF this, of "Suc (length (queue (lru_remove i t))) - lru_capacity t"]
  show "distinct (queue (lru_touch i t))" by (simp add: lru_touch_def Let_def)
  show "length (queue (lru_touch i t)) \<le> lru_capacity t" by (simp add: lru_touch_def Let_def)
  show "last (queue (lru_touch i t)) = i" "queue (lru_touch i t) \<noteq> []"
    using assms(2) by (simp_all add: lru_touch_def Let_def last_drop)
qed

subsection \<open>Properties\<close>


definition arena2 :: kv_arena where
  "arena2 = arena_new 4 2 MlxMetal"

lemma arena2_facts: "arena_inv arena2" "capacity arena2 = 2" "block_size arena2 = 4" "refs_of arena2 = (\<lambda>_. 0)"
proof -
  show "arena_inv arena2" by (simp add: arena2_def arena_inv_new)
qed (auto simp: arena2_def arena_new_def refs_of_def as_u32_def fun_eq_iff)


text \<open>A sequence is admitted exactly when the blocks for its tokens are available; it then holds the
  least sufficient number of distinct blocks that nobody held, with one reference each, its logical table
  lists them in order, and every other reference count is unchanged.\<close>

theorem admit_correct:
  assumes "arena_inv a" and "block_size a \<noteq> 0"
    and "tokens_to_blocks tokens (block_size a) + card {i. 0 < refs_of a i} \<le> capacity a"
  shows "\<exists>r a' t. admit_sequence seq tokens a = (Ok r, a') \<and> arena_inv a' \<and>
     logical_tables a' = logical_tables a @ [t] \<and> sequence_id t = seq \<and>
     logical_to_physical t = allocated_blocks r \<and> distinct (allocated_blocks r) \<and>
     tokens \<le> length (allocated_blocks r) * block_size a \<and> length (allocated_blocks r) * block_size a < tokens + block_size a \<and>
     (\<forall>i \<in> set (allocated_blocks r). refs_of a i = 0) \<and>
     refs_of a' = (\<lambda>i. if i \<in> set (allocated_blocks r) then 1 else refs_of a i)"
proof -
  let ?n = "tokens_to_blocks tokens (block_size a)"
  obtain ids a1 where run: "alloc_n try_allocate ?n a = (Ok ids, a1)"
    using pool.alloc_n_total[OF assms(1), of ?n] assms(3) by (auto simp: pool.live_def)
  note one = pool.alloc_n_ok[OF assms(1) run]
  let ?t = "\<lparr>sequence_id = seq, logical_to_physical = ids, lt_token_count = tokens, lt_max_blocks = capacity a1\<rparr>"
  let ?a = "a1\<lparr>logical_tables := logical_tables a1 @ [?t]\<rparr>"
  have same: "arena_inv ?a = arena_inv a1" "refs_of ?a = refs_of a1"
    using arena_cong[of ?a a1] by simp_all
  have "tokens \<le> length ids * block_size a" "length ids * block_size a < tokens + block_size a"
    using tokens_to_blocks_ceiling[OF assms(2), of tokens] one by simp_all
  then show ?thesis
    using run one assms(2) alloc_n_tables[OF assms(1) run] same
    by (auto simp: admit_sequence_def Let_def)
qed

theorem admit_correct_witness:
  "\<exists>r a'. admit_sequence 1 7 arena2 = (Ok r, a') \<and> length (allocated_blocks r) = 2"
proof -
  have "tokens_to_blocks 7 (block_size arena2) + card {i. 0 < refs_of arena2 i} \<le> capacity arena2"
    by (simp add: arena2_facts tokens_to_blocks_def)
  from admit_correct[OF arena2_facts(1) _ this, of 1] obtain r a' where
    r: "admit_sequence 1 7 arena2 = (Ok r, a')" "7 \<le> length (allocated_blocks r) * 4"
      "length (allocated_blocks r) * 4 < 7 + 4" by (auto simp: arena2_facts(3))
  then have "length (allocated_blocks r) = 2" by linarith
  then show ?thesis using r(1) by blast
qed

text \<open>A failed admission keeps what it took: it is recorded in no logical table, but every block that was
  available is held afterwards, so that the arena refuses any further allocation.\<close>

theorem admit_failure_leaks:
  assumes "arena_inv a" and "block_size a \<noteq> 0"
    and "capacity a < tokens_to_blocks tokens (block_size a) + card {i. 0 < refs_of a i}"
  shows "\<exists>e a'. admit_sequence seq tokens a = (Err e, a') \<and> logical_tables a' = logical_tables a \<and>
     available_blocks a' = 0 \<and> try_allocate a' = (Err (CapacityExceeded 1 0 (capacity a)), a')"
proof -
  let ?n = "tokens_to_blocks tokens (block_size a)"
  obtain e a1 where run: "alloc_n try_allocate ?n a = (Err e, a1)" and a1: "arena_inv a1" "capacity a1 = capacity a"
    "card {i. 0 < refs_of a1 i} = capacity a1"
    using pool.alloc_n_total[OF assms(1), of ?n] assms(3) by (auto simp: pool.live_def)
  have "length (free_list a1) = 0" using live_card(2)[OF a1(1)] arena_invD(1)[OF a1(1)] a1(3) by linarith
  moreover from this have "length (blocks a1) = capacity a1" using live_card(2)[OF a1(1)] a1(3) by linarith
  ultimately have "available_blocks a1 = 0" by (simp add: available_blocks_def)
  moreover have "try_allocate a1 = (Err (CapacityExceeded 1 0 (capacity a)), a1)"
    using try_allocate_spec[OF a1(1)] a1(2,3) by auto
  moreover have "admit_sequence seq tokens a = (Err e, a1)"
    using run assms(2) by (simp add: admit_sequence_def Let_def)
  ultimately show ?thesis using alloc_n_tables[OF assms(1) run] by blast
qed

theorem admit_failure_leaks_witness:
  "\<exists>e a'. admit_sequence 1 9 arena2 = (Err e, a') \<and> available_blocks arena2 = 2 \<and> available_blocks a' = 0"
proof -
  have "capacity arena2 < tokens_to_blocks 9 (block_size arena2) + card {i. 0 < refs_of arena2 i}"
    by (simp add: arena2_facts tokens_to_blocks_def)
  moreover have "available_blocks arena2 = 2"
    by (simp add: available_blocks_def arena2_def arena_new_def as_u32_def)
  ultimately show ?thesis using admit_failure_leaks[OF arena2_facts(1), of 9 1] arena2_facts(3) by auto
qed

text \<open>A prefix hit on a block someone holds shares it: the caller gets the registered block, its count
  grows by one and nothing else changes.\<close>

theorem prefix_hit_shares:
  assumes "arena_inv a" and "index (prefix_cache a) h = Some i" and "0 < refs_of a i" and "refs_of a i + 1 < 2 ^ 64"
  shows "\<exists>a'. allocate_prefixed h a = (Ok i, a') \<and> arena_inv a' \<and> refs_of a' = (refs_of a)(i := refs_of a i + 1) \<and>
     available_blocks a' = available_blocks a"
proof -
  note d = arena_invD[OF assms(1)]
  have i: "i < length (blocks a)" using assms(3) by (simp add: refs_of_def split: if_splits)
  obtain a' where a': "allocate_prefixed h a = (Ok i, a')" "refs_of a' = (refs_of a)(i := refs_of a i + 1)"
    "free_list a' = free_list a" "length (blocks a') = length (blocks a)" "capacity a' = capacity a"
    "\<And>k. k < length (blocks a) \<Longrightarrow> pb_id (blocks a' ! k) = k"
    using prefix_hit[OF assms(1,2) i assms(4)] by blast
  have "refcount (blocks a' ! k) < 2 ^ 64" if "k < length (blocks a)" for k
  proof -
    have "refcount (blocks a' ! k) = refs_of a' k" using that a'(4) by (simp add: refs_of_def)
    also have "\<dots> < 2 ^ 64" using a'(2) assms(4) d(4)[OF that] that by (auto simp: refs_of_def)
    finally show ?thesis .
  qed
  then have "arena_inv a'"
    using d a'(3-6) assms(3) by (intro arena_invI) (auto simp: a'(2))
  then show ?thesis using a' by (auto simp: available_blocks_def)
qed

text \<open>A prefix entry outlives its block: after the only holder releases a block that was allocated for a
  prefix, the same prefix still hits it, and the next ordinary allocation hands out the very same block
  with its count reset to one, so two callers hold it under one reference.\<close>

theorem prefix_hit_on_freed_block:
  assumes "arena_inv a" and "index (prefix_cache a) h = None" and "card {i. 0 < refs_of a i} < capacity a"
  shows "\<exists>i a1 a3 a4. allocate_prefixed h a = (Ok i, a1) \<and> refs_of (release i a1) i = 0 \<and>
     allocate_prefixed h (release i a1) = (Ok i, a3) \<and> try_allocate a3 = (Ok i, a4) \<and> refs_of a4 i = 1"
proof -
  obtain i a0 where al: "try_allocate a = (Ok i, a0)" "arena_inv a0" "refs_of a0 = (refs_of a)(i := 1)"
    using try_allocate_spec[OF assms(1)] assms(3) by auto
  let ?a1 = "register h i a0"
  have one: "allocate_prefixed h a = (Ok i, ?a1)"
    using al(1) assms(2) by (simp add: allocate_prefixed_def prefix_lookup_def)
  have same: "arena_inv ?a1" "refs_of ?a1 = refs_of a0"
    using al(2) arena_cong[of ?a1 a0] by (simp_all add: register_def)
  have live: "0 < refs_of ?a1 i" using same(2) al(3) by simp
  let ?a2 = "release i ?a1"
  have a2: "arena_inv ?a2" "refs_of ?a2 i = 0" "prefix_cache ?a2 = prefix_cache ?a1"
    using release_spec[OF same(1) live] same(2) al(3) by simp_all
  have "refs_of ?a1 i = 1" using same(2) al(3) by simp
  then have lt: "i < length (blocks ?a1)" "refcount (blocks ?a1 ! i) = 1"
    by (simp_all add: refs_of_def split: if_splits)
  have fl: "free_list ?a2 = free_list ?a1 @ [i]" "i < length (blocks ?a2)"
    using lt by (simp_all add: release_def dec_ref_def is_completely_free_def Let_def)
  have "index (prefix_cache ?a2) h = Some i"
    unfolding a2(3) by (simp add: register_def prefix_insert_def)
  from prefix_hit[OF a2(1) this fl(2)] a2(2) obtain a3 where
    a3: "allocate_prefixed h ?a2 = (Ok i, a3)" "free_list a3 = free_list ?a2" "length (blocks a3) = length (blocks ?a2)"
    by auto
  have small: "as_u32 i = i"
    using fl(2) arena_invD(1,2)[OF a2(1)] by (intro as_u32_small) simp
  let ?a4 = "a3\<lparr>free_list := butlast (free_list a3), blocks := (blocks a3)[i := block_new i (block_size a3) (backend a3)]\<rparr>"
  have "try_allocate a3 = (Ok i, ?a4)"
    using a3(2,3) fl small by (simp add: try_allocate_def reuse_slot_def Let_def)
  moreover have "refs_of ?a4 i = 1" using a3(3) fl(2) by (simp add: refs_of_def)
  ultimately show ?thesis using one a2(2) a3(1) by blast
qed

theorem prefix_hit_on_freed_block_witness:
  "\<exists>i a1 a3. allocate_prefixed 77 arena2 = (Ok i, a1) \<and> allocate_prefixed 77 (release i a1) = (Ok i, a3) \<and>
     fst (try_allocate a3) = Ok i"
proof -
  have "index (prefix_cache arena2) 77 = None" by (simp add: arena2_def arena_new_def prefix_new_def)
  from prefix_hit_on_freed_block[OF arena2_facts(1) this] show ?thesis
    using arena2_facts(2,4) by (auto simp: fst_def)
qed

theorem prefix_hit_shares_witness:
  "\<exists>i a1 a2. allocate_prefixed 77 arena2 = (Ok i, a1) \<and> allocate_prefixed 77 a1 = (Ok i, a2) \<and> refs_of a2 i = 2"
proof -
  obtain i a0 where al: "try_allocate arena2 = (Ok i, a0)" "arena_inv a0" "refs_of a0 = (refs_of arena2)(i := 1)"
    using try_allocate_spec[OF arena2_facts(1)] arena2_facts(2,4) by auto
  let ?a1 = "register 77 i a0"
  have "allocate_prefixed 77 arena2 = (Ok i, ?a1)"
    using al(1) by (simp add: allocate_prefixed_def prefix_lookup_def arena2_def arena_new_def prefix_new_def)
  moreover have "arena_inv ?a1" "refs_of ?a1 = refs_of a0"
    using al(2) arena_cong[of ?a1 a0] by (simp_all add: register_def)
  moreover have "index (prefix_cache ?a1) 77 = Some i" by (simp add: register_def prefix_insert_def)
  ultimately show ?thesis using prefix_hit_shares[of ?a1 77 i] al(3) by auto
qed

end
