(* ===== verification/Phase_Engine.thy ===== *)
theory Phase_Engine
  imports Prism_Prelude "HOL-Library.Char_ord" "HOL-Library.List_Lexorder"
begin

text \<open>
  The phase-graph executor of \<open>prism-ecs-runtime/src/schedule/phase_engine.rs\<close>: the graph and its
  validation (Kahn's algorithm), the lifecycle of a phase, the ready set and the execution loop. Phase
  and lane ids are strings. A \<open>BTreeMap\<close> whose order is observed is an association list in the
  order of its keys, a \<open>BTreeSet\<close> of semantic kinds the list of its elements. The runner registry is
  not part of the repository's module: \<open>dispatch p c\<close> is the outcome of running phase \<open>p\<close> in
  context \<open>c\<close>, that is the text of its error if it fails, the microseconds it took, and the context
  it leaves. \<open>cancel n\<close> is what the cancellation token answers when it is read for the \<open>n\<close>th time.
\<close>

subsection \<open>Phases and graphs\<close>

datatype phase_kind = Decode | FusedKernel | AnEGraph | AccelMatMul | AccelElementWise | ArenaAlloc
  | SyncBarrier | Transfer | ResidualRmsNorm | WeightResidency | LegacyPrologue | LegacyEpilogue | Sampling

datatype semantic_kind = Data | ArenaOwnership | StateEpoch | TransferCompletion | RequestOrdering
  | FallbackDecomposition

datatype phase_completion = Pending | Complete | Failed string | FallbackUsed string

record arena_slot_ref =
  ar_slot_id :: string
  byte_size :: nat
  alignment :: nat
  ar_lane :: string

record phase =
  phase_id :: string
  kind :: phase_kind
  lane :: string
  ops :: "string list"
  arena_slots :: "arena_slot_ref list"
  tensor_reads :: "string list"
  tensor_writes :: "string list"
  estimated_ops :: nat
  metadata :: "string \<rightharpoonup> string"

record arena_plan_t =
  total_bytes :: nat
  plan_slots :: "arena_slot_ref list"

record phase_graph =
  phases :: "phase list"
  edges :: "((string \<times> string) \<times> semantic_kind list) list"
  arena_plan :: arena_plan_t
  independent_sets :: "string list list"
  compiler_version :: string

definition phase_named :: "phase_graph \<Rightarrow> string \<Rightarrow> phase option" where
  "phase_named g i = find (\<lambda>p. phase_id p = i) (phases g)"

definition predecessors :: "phase_graph \<Rightarrow> string \<Rightarrow> phase list" where
  "predecessors g i =
     List.map_filter (\<lambda>(from, to). if to = i then phase_named g from else None) (map fst (edges g))"

definition successors :: "phase_graph \<Rightarrow> string \<Rightarrow> phase list" where
  "successors g i =
     List.map_filter (\<lambda>(from, to). if from = i then phase_named g to else None) (map fst (edges g))"

definition edge_iter :: "phase_graph \<Rightarrow> (string \<times> string \<times> semantic_kind) list" where
  "edge_iter g = concat (map (\<lambda>((from, to), kinds). map (\<lambda>k. (from, to, k)) kinds) (edges g))"

subsection \<open>The lifecycle of a phase\<close>

datatype phase_state = Dormant | Ready | Admitted | Dispatched | Complete | FallbackComplete
  | FailedBeforePublication | Cancelled

definition is_terminal :: "phase_state \<Rightarrow> bool" where
  "is_terminal s \<longleftrightarrow> s = Complete \<or> s = FallbackComplete \<or> s = FailedBeforePublication \<or> s = Cancelled"

definition is_success :: "phase_state \<Rightarrow> bool" where
  "is_success s \<longleftrightarrow> s = Complete \<or> s = FallbackComplete"

definition can_proceed :: "phase_state \<Rightarrow> bool" where
  "can_proceed s = is_success s"

datatype graph_fault = EdgeFromUnknown string | EdgeToUnknown string | CycleDetected

datatype phase_engine_error = InvalidGraph graph_fault | InvalidTransition phase_state phase_state
  | RunnerFailed string | EngineCancelled

type_synonym lifecycle_tracker = "string \<rightharpoonup> phase_state"

definition register :: "string \<Rightarrow> lifecycle_tracker \<Rightarrow> lifecycle_tracker" where
  "register i m = (case m i of None \<Rightarrow> m(i \<mapsto> Dormant) | Some _ \<Rightarrow> m)"

definition phase_state_of :: "lifecycle_tracker \<Rightarrow> string \<Rightarrow> phase_state" where
  "phase_state_of m i = (case m i of None \<Rightarrow> Dormant | Some s \<Rightarrow> s)"

definition transition :: "string \<Rightarrow> phase_state \<Rightarrow> lifecycle_tracker \<Rightarrow>
    (phase_engine_error, lifecycle_tracker) outcome" where
  "transition i to m =
     (let current = phase_state_of m i in
      if current = to then Ok m
      else if is_terminal to then Ok (m(i \<mapsto> to))
      else if (current, to) \<in> {(Dormant, Ready), (Ready, Admitted), (Admitted, Dispatched)}
      then Ok (m(i \<mapsto> to))
      else Err (InvalidTransition current to))"

definition all_terminal :: "lifecycle_tracker \<Rightarrow> bool" where
  "all_terminal m \<longleftrightarrow> dom m \<noteq> {} \<and> (\<forall>i \<in> dom m. is_terminal (phase_state_of m i))"

text \<open>\<open>let _ = lifecycle.transition(..)\<close>\<close>

definition transition_ignored :: "string \<Rightarrow> phase_state \<Rightarrow> lifecycle_tracker \<Rightarrow> lifecycle_tracker" where
  "transition_ignored i to m = (case transition i to m of Ok m' \<Rightarrow> m' | _ \<Rightarrow> m)"

subsection \<open>Validation\<close>

definition phase_ids :: "phase_graph \<Rightarrow> string set" where
  "phase_ids g = set (map phase_id (phases g))"

definition check_edge :: "phase_graph \<Rightarrow> string \<times> string \<times> semantic_kind \<Rightarrow> (phase_engine_error, unit) outcome" where
  "check_edge g = (\<lambda>(from, to, _).
     if from \<notin> phase_ids g then Err (InvalidGraph (EdgeFromUnknown from))
     else if to \<notin> phase_ids g then Err (InvalidGraph (EdgeToUnknown to)) else Ok ())"

definition count_in :: "string \<Rightarrow> (string \<rightharpoonup> nat) \<Rightarrow> (string \<rightharpoonup> nat)" where
  "count_in to d = d(to \<mapsto> (case d to of None \<Rightarrow> 0 | Some n \<Rightarrow> n) + 1)"

definition in_degrees :: "phase_graph \<Rightarrow> (string \<rightharpoonup> nat)" where
  "in_degrees g = fold (\<lambda>(_, to, _). count_in to) (edge_iter g) (map_of (map (\<lambda>p. (phase_id p, 0)) (phases g)))"

text \<open>
  The keys of the in-degree map in ascending order: once the endpoints are checked they are the ids of the
  phases.
\<close>

definition initial_ready :: "phase_graph \<Rightarrow> string list" where
  "initial_ready g = filter (\<lambda>i. in_degrees g i = Some 0) (sort (remdups (map phase_id (phases g))))"

definition succ_ids :: "phase_graph \<Rightarrow> string \<Rightarrow> string list" where
  "succ_ids g i = map snd (filter (\<lambda>(from, _). from = i) (map fst (edges g)))"

definition relax :: "string \<Rightarrow> string list \<times> (string \<rightharpoonup> nat) \<Rightarrow> string list \<times> (string \<rightharpoonup> nat)" where
  "relax to = (\<lambda>(ready, d). case d to of None \<Rightarrow> (ready, d)
     | Some n \<Rightarrow> (if n - 1 = 0 then ready @ [to] else ready, d(to \<mapsto> n - 1)))"

text \<open>The loop of Kahn's algorithm; its result is \<open>None\<close> when it does not end.\<close>

partial_function (option) kahn :: "(string \<Rightarrow> string list) \<Rightarrow> string list \<Rightarrow> (string \<rightharpoonup> nat) \<Rightarrow> nat \<Rightarrow> nat option" where
  "kahn succs ready d visited =
     (if ready = [] then Some visited
      else case fold relax (succs (last ready)) (butlast ready, d) of
        (ready', d') \<Rightarrow> kahn succs ready' d' (visited + 1))"

definition validate :: "phase_graph \<Rightarrow> (phase_engine_error, unit) outcome option" where
  "validate g =
     (case try_each (check_edge g) (edge_iter g) of
        Ok _ \<Rightarrow> map_option (\<lambda>visited.
            if visited \<noteq> length (phases g) then Err (InvalidGraph CycleDetected) else Ok ())
          (kahn (succ_ids g) (initial_ready g) (in_degrees g) 0)
      | Err e \<Rightarrow> Some (Err e) | Panic \<Rightarrow> Some Panic)"

subsection \<open>Execution\<close>

definition ready_phases :: "phase_graph \<Rightarrow> string set \<Rightarrow> phase list" where
  "ready_phases g completed = filter (\<lambda>p. phase_id p \<notin> completed \<and>
     list_all (\<lambda>q. phase_id q \<in> completed) (predecessors g (phase_id p))) (phases g)"

record phase_receipt =
  pr_phase_id :: string
  status :: phase_completion
  duration_us :: nat
  compiler_session_id :: "string option"
  compiler_event_digest :: "string option"

record phase_graph_result =
  receipts :: "phase_receipt list"
  all_completed :: bool
  cancelled :: bool

record 'c exec_state =
  lifecycle :: lifecycle_tracker
  completed :: "string set"
  exec_receipts :: "phase_receipt list"
  exec_ctx :: 'c

type_synonym 'c dispatcher = "phase \<Rightarrow> 'c \<Rightarrow> (string option \<times> nat) \<times> 'c"

definition has_fallback :: "phase_graph \<Rightarrow> string \<Rightarrow> bool" where
  "has_fallback g i = list_ex (\<lambda>(from, _). from = i \<and>
     (case map_of (edges g) (from, i) of None \<Rightarrow> False
      | Some kinds \<Rightarrow> FallbackDecomposition \<in> set kinds)) (map fst (edges g))"

definition completion_of :: "phase_graph \<Rightarrow> string \<Rightarrow> string option \<Rightarrow> phase_completion" where
  "completion_of g i res = (case res of None \<Rightarrow> phase_completion.Complete
     | Some e \<Rightarrow> if has_fallback g i then FallbackUsed e else Failed e)"

fun terminal_state :: "phase_completion \<Rightarrow> phase_state" where
  "terminal_state phase_completion.Complete = phase_state.Complete"
| "terminal_state (FallbackUsed _) = FallbackComplete"
| "terminal_state (Failed _) = FailedBeforePublication"
| "terminal_state Pending = FailedBeforePublication"

definition run_phase :: "'c dispatcher \<Rightarrow> phase_graph \<Rightarrow> phase \<Rightarrow> 'c exec_state \<Rightarrow> 'c exec_state" where
  "run_phase dispatch g p s =
     (let i = phase_id p;
          m = transition_ignored i Dispatched (transition_ignored i Admitted
                (transition_ignored i Ready (lifecycle s)));
          ((res, us), c) = dispatch p (exec_ctx s);
          st = completion_of g i res
      in \<lparr>lifecycle = transition_ignored i (terminal_state st) m,
          completed = insert i (completed s),
          exec_receipts = exec_receipts s @ [\<lparr>pr_phase_id = i, status = st, duration_us = us,
             compiler_session_id = None, compiler_event_digest = None\<rparr>],
          exec_ctx = c\<rparr>)"

definition cancel_phase :: "phase \<Rightarrow> lifecycle_tracker \<Rightarrow> lifecycle_tracker" where
  "cancel_phase p m = (if \<not> is_terminal (phase_state_of m (phase_id p))
     then transition_ignored (phase_id p) Cancelled m else m)"

lemma run_phase_completed [simp]: "completed (run_phase dispatch g p s) = insert (phase_id p) (completed s)"
  by (simp add: run_phase_def Let_def split: prod.splits)

lemma run_round_completed:
  "completed (fold (run_phase dispatch g) ps s) = completed s \<union> phase_id ` set ps"
  by (induction ps arbitrary: s) auto

lemma ready_phases_fresh: "p \<in> set (ready_phases g done) \<Longrightarrow> p \<in> set (phases g) \<and> phase_id p \<notin> done"
  by (simp add: ready_phases_def)

text \<open>The loop ends: every round completes a phase that was not completed.\<close>

function exec_loop :: "'c dispatcher \<Rightarrow> (nat \<Rightarrow> bool) \<Rightarrow> phase_graph \<Rightarrow> nat \<Rightarrow> 'c exec_state \<Rightarrow> bool \<times> 'c exec_state" where
  "exec_loop dispatch cancel g n s =
     (if cancel n then (True, s\<lparr>lifecycle := fold cancel_phase (phases g) (lifecycle s)\<rparr>)
      else if ready_phases g (completed s) = [] then (False, s)
      else exec_loop dispatch cancel g (n + 1)
             (fold (run_phase dispatch g) (ready_phases g (completed s)) s))"
  by pat_completeness auto
termination
proof (relation "measure (\<lambda>(dispatch, cancel, g, n, s). card (phase_ids g - completed s))")
  fix dispatch :: "'c dispatcher" and cancel :: "nat \<Rightarrow> bool" and g n and s :: "'c exec_state"
  assume "ready_phases g (completed s) \<noteq> []"
  then obtain p where p: "p \<in> set (ready_phases g (completed s))" by (cases "ready_phases g (completed s)") auto
  then have "phase_id p \<in> phase_ids g - completed s"
    using ready_phases_fresh[OF p] by (simp add: phase_ids_def)
  then have "phase_ids g - (completed s \<union> phase_id ` set (ready_phases g (completed s))) \<subset> phase_ids g - completed s"
    using p by blast
  then show "((dispatch, cancel, g, n + 1, fold (run_phase dispatch g) (ready_phases g (completed s)) s),
      dispatch, cancel, g, n, s) \<in> measure (\<lambda>(dispatch, cancel, g, n, s). card (phase_ids g - completed s))"
    by (simp add: run_round_completed phase_ids_def psubset_card_mono)
qed simp

declare exec_loop.simps [simp del]

definition register_all :: "phase_graph \<Rightarrow> lifecycle_tracker" where
  "register_all g = fold (\<lambda>p. register (phase_id p)) (phases g) Map.empty"

definition execute_graph :: "'c dispatcher \<Rightarrow> (nat \<Rightarrow> bool) \<Rightarrow> phase_graph \<Rightarrow> 'c \<Rightarrow>
    (phase_engine_error, phase_graph_result \<times> 'c) outcome option" where
  "execute_graph dispatch cancel g c = map_option (\<lambda>v. and_then v (\<lambda>_.
     let (stopped, s) = exec_loop dispatch cancel g 0
           \<lparr>lifecycle = register_all g, completed = {}, exec_receipts = [], exec_ctx = c\<rparr>
     in Ok (\<lparr>receipts = exec_receipts s,
             all_completed = list_all (\<lambda>p. is_success (phase_state_of (lifecycle s) (phase_id p))) (phases g),
             cancelled = stopped\<rparr>, exec_ctx s))) (validate g)"

subsection \<open>Well-formed graphs and topological order\<close>

definition edge_pairs :: "phase_graph \<Rightarrow> (string \<times> string) set" where
  "edge_pairs g = set (map fst (edges g))"

definition preds :: "phase_graph \<Rightarrow> string \<Rightarrow> string set" where
  "preds g i = {u. (u, i) \<in> edge_pairs g}"

text \<open>
  What the graph's types promise (the keys of a \<open>BTreeMap\<close> are distinct), distinct phase ids, and no edge
  without a semantic kind.
\<close>

definition graph_wf :: "phase_graph \<Rightarrow> bool" where
  "graph_wf g \<longleftrightarrow> distinct (map phase_id (phases g)) \<and> distinct (map fst (edges g)) \<and>
     list_all (\<lambda>e. snd e \<noteq> []) (edges g)"

definition endpoints_known :: "phase_graph \<Rightarrow> bool" where
  "endpoints_known g \<longleftrightarrow> (\<forall>(u, v) \<in> edge_pairs g. u \<in> phase_ids g \<and> v \<in> phase_ids g)"

definition single_kinds :: "phase_graph \<Rightarrow> bool" where
  "single_kinds g \<longleftrightarrow> (\<forall>(e, ks) \<in> set (edges g). length ks = 1)"

definition topo :: "(string \<times> string) set \<Rightarrow> string list \<Rightarrow> bool" where
  "topo E vs \<longleftrightarrow> (\<forall>i < length vs. \<forall>u. (u, vs ! i) \<in> E \<longrightarrow> u \<in> set (take i vs))"

lemma topo_Nil [simp]: "topo E []"
  by (simp add: topo_def)

lemma topo_append:
  assumes "topo E vs" and new: "\<And>v u. v \<in> set ws \<Longrightarrow> (u, v) \<in> E \<Longrightarrow> u \<in> set vs"
  shows "topo E (vs @ ws)"
  unfolding topo_def
proof (intro allI impI)
  fix i u assume i: "i < length (vs @ ws)" and e: "(u, (vs @ ws) ! i) \<in> E"
  show "u \<in> set (take i (vs @ ws))"
  proof (cases "i < length vs")
    case True
    then show ?thesis using assms(1) e by (simp add: topo_def nth_append)
  next
    case False
    then have "u \<in> set vs" using new[of "ws ! (i - length vs)" u] i e by (simp add: nth_append)
    then show ?thesis using False by simp
  qed
qed

lemma topo_preds: "topo E vs \<Longrightarrow> v \<in> set vs \<Longrightarrow> (u, v) \<in> E \<Longrightarrow> u \<in> set vs"
  by (metis in_set_conv_nth topo_def in_set_takeD)

lemma topo_acyclic:
  assumes "topo E vs" and "distinct vs" and "E \<subseteq> UNIV \<times> set vs"
  shows "acyclic E"
proof -
  define idx where "idx x = the (position (\<lambda>y. y = x) vs)" for x
  have idx: "idx (vs ! i) = i" if "i < length vs" for i
  proof (cases "position (\<lambda>y. y = vs ! i) vs")
    case None
    then show ?thesis using that by (auto simp: position_None)
  next
    case (Some k)
    then show ?thesis
      using position_Some[OF Some] that nth_eq_iff_index_eq[OF assms(2), of k i] by (simp add: idx_def)
  qed
  have "E \<subseteq> measure idx"
  proof clarify
    fix u v assume e: "(u, v) \<in> E"
    then have "v \<in> set vs" using assms(3) by blast
    then obtain j where j: "j < length vs" "v = vs ! j" by (metis in_set_conv_nth)
    then have "u \<in> set (take j vs)" using assms(1) e by (auto simp: topo_def)
    then obtain i where "i < j" "u = vs ! i" using j by (auto simp: in_set_conv_nth)
    then show "(u, v) \<in> measure idx" using j idx by simp
  qed
  then show ?thesis by (meson acyclic_subset wf_acyclic wf_measure)
qed

subsection \<open>In-degrees\<close>

definition in_deg :: "phase_graph \<Rightarrow> string \<Rightarrow> nat" where
  "in_deg g i = length (filter (\<lambda>(_, to, _). to = i) (edge_iter g))"

lemma fold_count_in:
  "d i = Some n \<Longrightarrow> fold (\<lambda>(_, to, _). count_in to) es d i = Some (n + length (filter (\<lambda>(_, to, _). to = i) es))"
  by (induction es arbitrary: d n) (auto simp: count_in_def)

lemma map_of_const: "i \<in> f ` set ps \<Longrightarrow> map_of (map (\<lambda>p. (f p, c)) ps) i = Some c"
  by (induction ps) auto

lemma in_degrees_eq: "i \<in> phase_ids g \<Longrightarrow> in_degrees g i = Some (in_deg g i)"
  unfolding in_degrees_def in_deg_def by (subst fold_count_in[of _ _ 0]) (simp_all add: phase_ids_def map_of_const)

lemma in_deg_sum: "in_deg g i = sum_list (map (length \<circ> snd) (filter (\<lambda>e. snd (fst e) = i) (edges g)))"
proof -
  have "length (filter (\<lambda>(_, to, _). to = i) (concat (map (\<lambda>((from, to), kinds). map (\<lambda>k. (from, to, k)) kinds) es))) =
      sum_list (map (length \<circ> snd) (filter (\<lambda>e. snd (fst e) = i) es))" for es :: "((string \<times> string) \<times> semantic_kind list) list"
    by (induction es) (auto simp: filter_empty_conv)
  then show ?thesis by (simp add: in_deg_def edge_iter_def)
qed

lemma sum_length_ge:
  "list_all (\<lambda>e. snd e \<noteq> []) es \<Longrightarrow> length es \<le> sum_list (map (length \<circ> snd) es)"
  by (induction es) (auto simp: Suc_le_eq neq_Nil_conv)

lemma sum_length_eq:
  "list_all (\<lambda>e. snd e \<noteq> []) es \<Longrightarrow>
    sum_list (map (length \<circ> snd) es) = length es \<longleftrightarrow> (\<forall>e \<in> set es. length (snd e) = 1)"
proof (induction es)
  case (Cons e es)
  let ?S = "sum_list (map (length \<circ> snd) es)"
  have "length es \<le> ?S" "1 \<le> length (snd e)" using Cons.prems sum_length_ge by (auto simp: Suc_le_eq)
  then have "length (snd e) + ?S = Suc (length es) \<longleftrightarrow> length (snd e) = 1 \<and> ?S = length es" by arith
  then show ?case using Cons by (simp add: comp_def)
qed simp

lemma preds_filter: "preds g i = (\<lambda>e. fst (fst e)) ` set (filter (\<lambda>e. snd (fst e) = i) (edges g))"
  by (force simp: preds_def edge_pairs_def)

lemma finite_preds [simp]: "finite (preds g i)"
  by (simp add: preds_filter)

lemma card_preds:
  assumes "graph_wf g"
  shows "card (preds g i) = length (filter (\<lambda>e. snd (fst e) = i) (edges g))"
proof -
  let ?es = "filter (\<lambda>e. snd (fst e) = i) (edges g)"
  have "distinct (map fst ?es)" using assms by (simp add: graph_wf_def distinct_map_filter)
  then have "distinct (map (\<lambda>e. fst (fst e)) ?es)"
    by (auto simp: distinct_map inj_on_def prod_eq_iff)
  then show ?thesis using distinct_card[of "map (\<lambda>e. fst (fst e)) ?es"] by (simp add: preds_filter)
qed

lemma in_deg_preds:
  assumes "graph_wf g"
  shows "card (preds g i) \<le> in_deg g i"
    and "in_deg g i = card (preds g i) \<longleftrightarrow> (\<forall>((u, v), ks) \<in> set (edges g). v = i \<longrightarrow> length ks = 1)"
proof -
  let ?es = "filter (\<lambda>e. snd (fst e) = i) (edges g)"
  have ne: "list_all (\<lambda>e. snd e \<noteq> []) ?es" using assms by (auto simp: graph_wf_def list_all_iff)
  show "card (preds g i) \<le> in_deg g i"
    using sum_length_ge[OF ne] by (simp add: card_preds[OF assms] in_deg_sum)
  show "in_deg g i = card (preds g i) \<longleftrightarrow> (\<forall>((u, v), ks) \<in> set (edges g). v = i \<longrightarrow> length ks = 1)"
    using sum_length_eq[OF ne] by (auto simp: card_preds[OF assms] in_deg_sum)
qed

subsection \<open>Kahn's algorithm\<close>

lemma fold_relax:
  assumes "distinct ts" and "\<forall>t \<in> set ts. d t \<noteq> None"
  shows "fold relax ts (ready, d) =
    (ready @ filter (\<lambda>t. the (d t) - 1 = 0) ts, \<lambda>t. if t \<in> set ts then Some (the (d t) - 1) else d t)"
  using assms
proof (induction ts arbitrary: ready d)
  case (Cons t ts)
  obtain n where n: "d t = Some n" using Cons.prems by auto
  let ?r = "if n - 1 = 0 then ready @ [t] else ready" and ?d = "d(t \<mapsto> n - 1)"
  have t: "t \<notin> set ts" using Cons.prems by simp
  have "fold relax ts (?r, ?d) =
      (?r @ filter (\<lambda>s. the (?d s) - 1 = 0) ts, \<lambda>s. if s \<in> set ts then Some (the (?d s) - 1) else ?d s)"
    using Cons.prems by (intro Cons.IH) auto
  moreover have "filter (\<lambda>s. the (?d s) - 1 = 0) ts = filter (\<lambda>s. the (d s) - 1 = 0) ts"
    using t by (intro filter_cong) auto
  moreover have "relax t (ready, d) = (?r, ?d)" using n by (simp add: relax_def)
  ultimately show ?case using n t by (auto simp: fun_eq_iff)
qed (auto simp: fun_eq_iff)

text \<open>
  The invariant of the loop: \<open>vs\<close> are the nodes popped so far, in order. The counter of a node is its
  in-degree less its popped predecessors, and it is zero exactly when the node was popped or is ready.
\<close>

definition kahn_inv :: "phase_graph \<Rightarrow> string list \<Rightarrow> string list \<Rightarrow> (string \<rightharpoonup> nat) \<Rightarrow> bool" where
  "kahn_inv g vs ready d \<longleftrightarrow> distinct (vs @ ready) \<and> set (vs @ ready) \<subseteq> phase_ids g \<and> topo (edge_pairs g) vs \<and>
     (\<forall>t \<in> phase_ids g. d t = Some (in_deg g t - card (preds g t \<inter> set vs))) \<and>
     (\<forall>t \<in> phase_ids g. d t = Some 0 \<longleftrightarrow> t \<in> set (vs @ ready))"

lemma succ_ids_set: "t \<in> set (succ_ids g u) \<longleftrightarrow> u \<in> preds g t"
  by (force simp: succ_ids_def preds_def edge_pairs_def)

lemma distinct_succ_ids:
  assumes "graph_wf g" shows "distinct (succ_ids g u)"
  using assms by (auto simp: succ_ids_def graph_wf_def distinct_map intro!: inj_onI)

lemma zero_preds_popped:
  assumes wf: "graph_wf g" and "in_deg g t - card (preds g t \<inter> set vs) = 0"
  shows "preds g t \<subseteq> set vs"
proof -
  have "card (preds g t) \<le> card (preds g t \<inter> set vs)" using in_deg_preds(1)[OF wf, of t] assms(2) by linarith
  then have "preds g t \<inter> set vs = preds g t" by (intro card_seteq) auto
  then show ?thesis by blast
qed

lemma card_Int_insert: "finite A \<Longrightarrow> u \<notin> S \<Longrightarrow> card (A \<inter> insert u S) = card (A \<inter> S) + of_bool (u \<in> A)"
  by (cases "u \<in> A") (simp_all add: Int_insert_right)

lemma kahn_inv_start:
  shows "kahn_inv g [] (initial_ready g) (in_degrees g)"
  by (auto simp: kahn_inv_def initial_ready_def in_degrees_eq phase_ids_def)

lemma kahn_inv_step:
  assumes wf: "graph_wf g" and ends: "endpoints_known g" and inv: "kahn_inv g vs ready d" and ne: "ready \<noteq> []"
    and r: "fold relax (succ_ids g (last ready)) (butlast ready, d) = (ready', d')"
  shows "kahn_inv g (vs @ [last ready]) ready' d'"
proof -
  define u where "u = last ready"
  have ready: "ready = butlast ready @ [u]" using ne by (simp add: u_def)
  have dist: "distinct (vs @ butlast ready @ [u])" and sub: "set (vs @ butlast ready @ [u]) \<subseteq> phase_ids g"
    and d: "\<And>t. t \<in> phase_ids g \<Longrightarrow> d t = Some (in_deg g t - card (preds g t \<inter> set vs))"
    and z: "\<And>t. t \<in> phase_ids g \<Longrightarrow> d t = Some 0 \<longleftrightarrow> t \<in> set (vs @ butlast ready @ [u])"
    and topo: "topo (edge_pairs g) vs"
    using inv ready unfolding kahn_inv_def by metis+
  have u: "u \<in> phase_ids g" "u \<notin> set vs" using dist sub by auto
  have closed: "preds g t \<subseteq> set vs" if "t \<in> set (vs @ butlast ready @ [u])" for t
    using zero_preds_popped[OF wf] d[of t] z[of t] that sub by auto
  let ?ts = "succ_ids g u"
  have ts: "t \<in> phase_ids g \<and> d t \<noteq> None \<and> t \<notin> set (vs @ butlast ready @ [u])" if "t \<in> set ?ts" for t
  proof -
    have up: "u \<in> preds g t" using that by (simp add: succ_ids_set)
    then have t: "t \<in> phase_ids g" using ends by (auto simp: preds_def endpoints_known_def)
    moreover have "t \<notin> set (vs @ butlast ready @ [u])" using closed up u(2) by blast
    ultimately show ?thesis using d by simp
  qed
  have eq: "ready' = butlast ready @ filter (\<lambda>t. the (d t) - 1 = 0) ?ts"
    "d' = (\<lambda>t. if t \<in> set ?ts then Some (the (d t) - 1) else d t)"
    using r fold_relax[OF distinct_succ_ids[OF wf], of u d "butlast ready"] ts by (auto simp: u_def)
  have d': "d' t = Some (in_deg g t - card (preds g t \<inter> set (vs @ [u])))" if "t \<in> phase_ids g" for t
    using d[OF that] u(2) by (simp add: eq(2) succ_ids_set card_Int_insert del: One_nat_def)
  have "d' t = Some 0 \<longleftrightarrow> t \<in> set ((vs @ [u]) @ ready')" if t: "t \<in> phase_ids g" for t
  proof (cases "t \<in> set ?ts")
    case True
    then show ?thesis using ts[OF True] by (auto simp: eq)
  next
    case False
    then show ?thesis using z[OF t] by (auto simp: eq)
  qed
  moreover have "topo (edge_pairs g) (vs @ [u])"
    by (rule topo_append[OF topo]) (use closed in \<open>auto simp: preds_def\<close>)
  moreover have "distinct ((vs @ [u]) @ ready')" "set ((vs @ [u]) @ ready') \<subseteq> phase_ids g"
    using dist sub ts distinct_succ_ids[OF wf, of u] by (auto simp: eq(1))
  ultimately show ?thesis using d' unfolding kahn_inv_def u_def by blast
qed

text \<open>The loop ends with a topological order of the nodes whose counters reached zero.\<close>

lemma kahn_returns:
  assumes wf: "graph_wf g" and ends: "endpoints_known g"
  shows "kahn_inv g vs ready d \<Longrightarrow>
    \<exists>vs' d'. kahn (succ_ids g) ready d (length vs) = Some (length vs') \<and> kahn_inv g vs' [] d'"
proof (induction "card (phase_ids g - set vs)" arbitrary: vs ready d rule: less_induct)
  case less
  show ?case
  proof (cases "ready = []")
    case True
    then show ?thesis using less.prems by (subst kahn.simps) auto
  next
    case False
    obtain ready' d' where r: "fold relax (succ_ids g (last ready)) (butlast ready, d) = (ready', d')"
      by (cases "fold relax (succ_ids g (last ready)) (butlast ready, d)")
    have inv: "kahn_inv g (vs @ [last ready]) ready' d'" by (rule kahn_inv_step[OF wf ends less.prems False r])
    have "last ready \<in> phase_ids g - set vs"
      using less.prems False last_in_set[OF False] by (auto simp: kahn_inv_def)
    then have "phase_ids g - set (vs @ [last ready]) \<subset> phase_ids g - set vs" by auto
    then have "card (phase_ids g - set (vs @ [last ready])) < card (phase_ids g - set vs)"
      by (simp add: phase_ids_def psubset_card_mono)
    from less.hyps[OF this inv] show ?thesis
      using False r by (subst kahn.simps) (auto simp: length_append)
  qed
qed

lemma edge_pairsI: "(e, ks) \<in> set (edges g) \<Longrightarrow> e \<in> edge_pairs g"
  by (force simp: edge_pairs_def)

lemma kahn_visits_all:
  assumes wf: "graph_wf g" and ends: "endpoints_known g" and inv: "kahn_inv g vs [] d"
  shows "length vs = length (phases g) \<longleftrightarrow> acyclic (edge_pairs g) \<and> single_kinds g"
proof -
  have dist: "distinct vs" and sub: "set vs \<subseteq> phase_ids g" and topo: "topo (edge_pairs g) vs"
    and z: "\<And>t. t \<in> phase_ids g \<Longrightarrow> in_deg g t - card (preds g t \<inter> set vs) = 0 \<longleftrightarrow> t \<in> set vs"
    using inv unfolding kahn_inv_def by auto
  have n: "length (phases g) = card (phase_ids g)" "finite (phase_ids g)"
    using wf distinct_card[of "map phase_id (phases g)"] by (simp_all add: phase_ids_def graph_wf_def)
  have all: "length vs = length (phases g) \<longleftrightarrow> set vs = phase_ids g"
    using sub n card_subset_eq[of "phase_ids g" "set vs"] distinct_card[OF dist] by auto
  show ?thesis
  proof
    assume "length vs = length (phases g)"
    then have vs: "set vs = phase_ids g" by (simp add: all)
    have "in_deg g t = card (preds g t)" if "t \<in> phase_ids g" for t
    proof -
      have "preds g t \<inter> set vs = preds g t" using ends vs by (auto simp: preds_def endpoints_known_def)
      then show ?thesis using z[OF that] vs that in_deg_preds(1)[OF wf, of t] by simp
    qed
    then have deg: "in_deg g t = card (preds g t)" if "t \<in> phase_ids g" for t using that by blast
    have "single_kinds g"
      unfolding single_kinds_def
    proof clarify
      fix u v ks assume e: "((u, v), ks) \<in> set (edges g)"
      then have "v \<in> phase_ids g" using edge_pairsI[OF e] ends by (auto simp: endpoints_known_def)
      then show "length ks = 1" using in_deg_preds(2)[OF wf, of v] deg e by blast
    qed
    moreover have "acyclic (edge_pairs g)"
      by (rule topo_acyclic[OF topo dist]) (use vs ends in \<open>auto simp: endpoints_known_def\<close>)
    ultimately show "acyclic (edge_pairs g) \<and> single_kinds g" by blast
  next
    assume r: "acyclic (edge_pairs g) \<and> single_kinds g"
    then have wfE: "wf (edge_pairs g)" by (simp add: edge_pairs_def finite_acyclic_wf)
    have "t \<in> set vs" if "t \<in> phase_ids g" for t
      using wfE that
    proof (induction t rule: wf_induct_rule)
      case (less t)
      then have "preds g t \<subseteq> set vs" using ends by (fastforce simp: preds_def endpoints_known_def)
      then have "preds g t \<inter> set vs = preds g t" by blast
      moreover have "in_deg g t = card (preds g t)"
        using r in_deg_preds(2)[OF wf, of t] by (auto simp: single_kinds_def)
      ultimately show ?case using z[OF less.prems] by simp
    qed
    then show "length vs = length (phases g)" using all sub by auto
  qed
qed

lemma check_edges_ok:
  assumes "graph_wf g"
  shows "try_each (check_edge g) (edge_iter g) = Ok () \<longleftrightarrow> endpoints_known g"
proof -
  have "(\<exists>k. (u, v, k) \<in> set (edge_iter g)) \<longleftrightarrow> (u, v) \<in> edge_pairs g" for u v
  proof -
    have "ks \<noteq> []" if "((u, v), ks) \<in> set (edges g)" for ks
      using assms that by (auto simp: graph_wf_def list_all_iff)
    moreover have "(u, v, k) \<in> set (edge_iter g) \<longleftrightarrow> (\<exists>ks. ((u, v), ks) \<in> set (edges g) \<and> k \<in> set ks)" for k
      unfolding edge_iter_def by (fastforce split: prod.splits)
    moreover have "(u, v) \<in> edge_pairs g \<longleftrightarrow> (\<exists>ks. ((u, v), ks) \<in> set (edges g))"
      unfolding edge_pairs_def by force
    ultimately show ?thesis by (metis list.set_intros(1) neq_Nil_conv)
  qed
  then have "endpoints_known g \<longleftrightarrow> (\<forall>(u, v, k) \<in> set (edge_iter g). u \<in> phase_ids g \<and> v \<in> phase_ids g)"
    unfolding endpoints_known_def by blast
  also have "\<dots> \<longleftrightarrow> try_each (check_edge g) (edge_iter g) = Ok ()"
    unfolding try_each_Ok by (intro ball_cong) (auto simp: check_edge_def split: if_splits)
  finally show ?thesis by simp
qed

lemma check_edges_cases:
  "try_each (check_edge g) (edge_iter g) \<noteq> Panic"
  "try_each (check_edge g) (edge_iter g) = Err e \<Longrightarrow> \<exists>i. e = InvalidGraph (EdgeFromUnknown i) \<or> e = InvalidGraph (EdgeToUnknown i)"
  by (rule try_each_no_panic, simp add: check_edge_def split: prod.splits)
    (drule try_each_Err, auto simp: check_edge_def split: if_splits)

lemma validate_result:
  assumes wf: "graph_wf g"
  shows "if endpoints_known g
     then validate g = Some (if acyclic (edge_pairs g) \<and> single_kinds g then Ok () else Err (InvalidGraph CycleDetected))
     else \<exists>i. validate g = Some (Err (InvalidGraph (EdgeFromUnknown i))) \<or> validate g = Some (Err (InvalidGraph (EdgeToUnknown i)))"
proof (cases "endpoints_known g")
  case True
  obtain vs d where vs: "kahn (succ_ids g) (initial_ready g) (in_degrees g) 0 = Some (length vs)" "kahn_inv g vs [] d"
    using kahn_returns[OF wf True kahn_inv_start] by auto
  show ?thesis
    using True vs(1) kahn_visits_all[OF wf True vs(2)] check_edges_ok[OF wf] by (auto simp: validate_def)
next
  case False
  then obtain e where "try_each (check_edge g) (edge_iter g) = Err e"
    using check_edges_ok[OF wf] check_edges_cases(1)[of g] by (cases "try_each (check_edge g) (edge_iter g)") auto
  then show ?thesis using False check_edges_cases(2)[of g e] by (auto simp: validate_def)
qed

lemma validation_verdict:
  assumes "graph_wf g"
  shows "validate g \<noteq> None \<and> validate g \<noteq> Some Panic \<and>
     (validate g = Some (Ok ()) \<longleftrightarrow> endpoints_known g \<and> acyclic (edge_pairs g) \<and> single_kinds g) \<and>
     (validate g = Some (Err (InvalidGraph CycleDetected)) \<longleftrightarrow>
        endpoints_known g \<and> \<not> (acyclic (edge_pairs g) \<and> single_kinds g))"
  using validate_result[OF assms] by (cases "endpoints_known g") auto

text \<open>C13: validation always ends on a well-formed graph, and it accepts exactly the graphs whose edges join
  known phases, without a cycle, and with no more than one semantic kind on an edge: a pair of phases with
  two kinds is reported as a cycle.\<close>

theorem validate_ok_iff:
  assumes "graph_wf g"
  shows "validate g \<noteq> None \<and> validate g \<noteq> Some Panic \<and>
     (validate g = Some (Ok ()) \<longleftrightarrow> endpoints_known g \<and> acyclic (edge_pairs g) \<and> single_kinds g) \<and>
     (validate g = Some (Err (InvalidGraph CycleDetected)) \<longleftrightarrow>
        endpoints_known g \<and> \<not> (acyclic (edge_pairs g) \<and> single_kinds g))"
  by (rule validation_verdict[OF assms])

definition phase0 :: "string \<Rightarrow> phase" where
  "phase0 i = \<lparr>phase_id = i, kind = Decode, lane = ''metal'', ops = [], arena_slots = [], tensor_reads = [],
     tensor_writes = [], estimated_ops = 100, metadata = Map.empty\<rparr>"

definition graph0 :: "((string \<times> string) \<times> semantic_kind list) list \<Rightarrow> phase_graph" where
  "graph0 es = \<lparr>phases = [phase0 ''a'', phase0 ''b''], edges = es,
     arena_plan = \<lparr>total_bytes = 0, plan_slots = []\<rparr>, independent_sets = [], compiler_version = ''test''\<rparr>"

lemmas graph0_simps = graph0_def phase0_def graph_wf_def edge_pairs_def endpoints_known_def phase_ids_def single_kinds_def

lemma graph0_wf: "graph_wf (graph0 [((''a'', ''b''), ks)]) \<longleftrightarrow> ks \<noteq> []"
  by (simp add: graph0_simps)

lemma graph0_acyclic: "acyclic (edge_pairs (graph0 [((''a'', ''b''), ks)]))"
  by (simp add: graph0_simps acyclic_insert) (simp add: acyclic_def)

theorem validate_ok_iff_witness:
  "graph_wf (graph0 [((''a'', ''b''), [Data])]) \<and> validate (graph0 [((''a'', ''b''), [Data])]) = Some (Ok ()) \<and>
   graph_wf (graph0 [((''a'', ''b''), [Data, StateEpoch])]) \<and>
   validate (graph0 [((''a'', ''b''), [Data, StateEpoch])]) = Some (Err (InvalidGraph CycleDetected))"
  using validate_ok_iff[of "graph0 [((''a'', ''b''), [Data])]"]
    validate_ok_iff[of "graph0 [((''a'', ''b''), [Data, StateEpoch])]"] graph0_acyclic graph0_wf
  by (simp add: endpoints_known_def single_kinds_def edge_pairs_def phase_ids_def graph0_def phase0_def)

subsection \<open>Lifecycle runs\<close>

fun lifecycle_rank :: "phase_state \<Rightarrow> nat" where
  "lifecycle_rank Dormant = 0"
| "lifecycle_rank Ready = 1"
| "lifecycle_rank Admitted = 2"
| "lifecycle_rank Dispatched = 3"
| "lifecycle_rank _ = 4"

lemma rank_terminal: "is_terminal s \<longleftrightarrow> lifecycle_rank s = 4"
  by (cases s) (auto simp: is_terminal_def)

inductive lifecycle_step :: "lifecycle_tracker \<Rightarrow> lifecycle_tracker \<Rightarrow> bool" where
  step_register: "lifecycle_step m (register i m)"
| step_transition: "transition i to m = Ok m' \<Longrightarrow> lifecycle_step m m'"

lemma state_register [simp]: "phase_state_of (register i m) j = phase_state_of m j"
  by (simp add: register_def phase_state_of_def split: option.splits)

lemma transition_cases:
  "transition i to m = Ok m' \<Longrightarrow> (m' = m \<or> m' = m(i \<mapsto> to)) \<and>
     (m' \<noteq> m \<longrightarrow> is_terminal to \<or> lifecycle_rank to = Suc (lifecycle_rank (phase_state_of m i)))"
  by (auto simp: transition_def Let_def split: if_splits)

lemma lifecycle_step_rank:
  assumes "lifecycle_step m m'"
  shows "lifecycle_rank (phase_state_of m i) \<le> lifecycle_rank (phase_state_of m' i) \<and>
    (is_terminal (phase_state_of m' i) \<or>
     lifecycle_rank (phase_state_of m' i) \<le> Suc (lifecycle_rank (phase_state_of m i)))"
  using assms
proof cases
  case (step_transition j to)
  have "lifecycle_rank s \<le> 4" for s by (cases s) auto
  then show ?thesis using transition_cases[OF step_transition] by (auto simp: phase_state_of_def rank_terminal)
qed simp

text \<open>Over any sequence of registrations and transitions, a phase only moves forward through dormant,
  ready, admitted, dispatched and the terminal states; it enters no more than one of the first four by each
  step, and once it is terminal it stays terminal.\<close>

theorem lifecycle_monotone:
  assumes "steps lifecycle_step n m m'"
  shows "lifecycle_rank (phase_state_of m i) \<le> lifecycle_rank (phase_state_of m' i) \<and>
    (is_terminal (phase_state_of m i) \<longrightarrow> is_terminal (phase_state_of m' i)) \<and>
    (\<not> is_terminal (phase_state_of m' i) \<longrightarrow>
       lifecycle_rank (phase_state_of m' i) \<le> lifecycle_rank (phase_state_of m i) + n)"
  using assms
proof induction
  case (steps_Suc n s s' s'')
  have "lifecycle_rank (phase_state_of s'' i) \<le> 4" by (cases "phase_state_of s'' i") auto
  then show ?case using steps_Suc.IH lifecycle_step_rank[OF steps_Suc.hyps(2), of i] by (auto simp: rank_terminal)
qed simp

theorem lifecycle_monotone_witness:
  "\<exists>m'. steps lifecycle_step 2 Map.empty m' \<and> phase_state_of m' ''a'' = Ready \<and>
     lifecycle_rank (phase_state_of m' ''a'') \<le> 0 + 2"
proof -
  let ?m = "register ''a'' Map.empty"
  have s: "steps lifecycle_step 1 Map.empty ?m"
    using steps_Suc[of lifecycle_step 0 Map.empty Map.empty, OF steps_0 step_register] by simp
  have t: "transition ''a'' Ready ?m = Ok (?m(''a'' \<mapsto> Ready))"
    by (simp add: transition_def phase_state_of_def register_def is_terminal_def)
  have run: "steps lifecycle_step 2 Map.empty (?m(''a'' \<mapsto> Ready))"
    using steps_Suc[of lifecycle_step 1, OF s step_transition[OF t]] by (simp add: numeral_2_eq_2)
  then show ?thesis
    using lifecycle_monotone[OF run, of "''a''"] by (auto simp: phase_state_of_def is_terminal_def)
qed

subsection \<open>Execution\<close>

lemma predecessor_ids:
  assumes "endpoints_known g"
  shows "phase_id ` set (predecessors g i) = preds g i"
proof -
  have named: "\<exists>p. phase_named g u = Some p \<and> phase_id p = u" if "u \<in> preds g i" for u
  proof -
    have "u \<in> phase_ids g" using that assms by (auto simp: preds_def endpoints_known_def)
    then have "phase_named g u \<noteq> None" by (auto simp: phase_named_def find_None_iff phase_ids_def)
    then show ?thesis by (auto simp: phase_named_def find_Some_iff)
  qed
  have "p \<in> set (predecessors g i) \<longleftrightarrow> (\<exists>u \<in> preds g i. phase_named g u = Some p)" for p
    unfolding predecessors_def set_filter_map preds_def edge_pairs_def
    by (auto split: if_splits simp del: set_map intro!: bexI[rotated])
  then have "set (predecessors g i) = {p. \<exists>u \<in> preds g i. phase_named g u = Some p}" by blast
  moreover have "phase_id p = u" if "phase_named g u = Some p" for u p
    using that by (auto simp: phase_named_def find_Some_iff)
  ultimately show ?thesis using named by (auto simp: image_iff) (metis named)
qed

lemma ready_phases_iff:
  assumes "endpoints_known g"
  shows "p \<in> set (ready_phases g done) \<longleftrightarrow>
    p \<in> set (phases g) \<and> phase_id p \<notin> done \<and> preds g (phase_id p) \<subseteq> done"
  by (auto simp: ready_phases_def list_all_iff predecessor_ids[OF assms, symmetric])

lemma ready_phases_progress:
  assumes ends: "endpoints_known g" and acy: "acyclic (edge_pairs g)" and none: "ready_phases g done = []"
  shows "phase_ids g \<subseteq> done"
proof
  fix i assume "i \<in> phase_ids g"
  have "wf (edge_pairs g)" using acy by (simp add: edge_pairs_def finite_acyclic_wf)
  then show "i \<in> done" using \<open>i \<in> phase_ids g\<close>
  proof (induction i rule: wf_induct_rule)
    case (less i)
    then obtain p where p: "p \<in> set (phases g)" "phase_id p = i" by (auto simp: phase_ids_def)
    have "preds g i \<subseteq> done" using less.IH ends by (auto simp: preds_def endpoints_known_def)
    then show ?case using ready_phases_iff[OF ends, of p "done"] p none by auto
  qed
qed

lemma no_fallback:
  assumes "acyclic (edge_pairs g)" shows "\<not> has_fallback g i"
proof -
  have "(i, i) \<notin> edge_pairs g" using assms by (auto simp: acyclic_def)
  then have "map_of (edges g) (i, i) = None" by (simp add: edge_pairs_def map_of_eq_None_iff)
  then show ?thesis by (auto simp: has_fallback_def list_ex_iff)
qed

text \<open>Every receipt is the outcome of running its phase, and the lifecycle agrees with the receipts.\<close>

abbreviation receipt_ids :: "phase_receipt list \<Rightarrow> string list" where
  "receipt_ids rs \<equiv> map pr_phase_id rs"

definition receipt_ok :: "'c dispatcher \<Rightarrow> phase_graph \<Rightarrow> phase_receipt \<Rightarrow> bool" where
  "receipt_ok dispatch g r \<longleftrightarrow> (\<exists>p c. p \<in> set (phases g) \<and> phase_id p = pr_phase_id r \<and>
     status r = completion_of g (pr_phase_id r) (fst (fst (dispatch p c))))"

definition exec_inv :: "'c dispatcher \<Rightarrow> phase_graph \<Rightarrow> 'c exec_state \<Rightarrow> bool" where
  "exec_inv dispatch g s \<longleftrightarrow> distinct (receipt_ids (exec_receipts s)) \<and>
     completed s = set (receipt_ids (exec_receipts s)) \<and> completed s \<subseteq> phase_ids g \<and>
     topo (edge_pairs g) (receipt_ids (exec_receipts s)) \<and>
     (\<forall>r \<in> set (exec_receipts s). receipt_ok dispatch g r \<and>
        phase_state_of (lifecycle s) (pr_phase_id r) = terminal_state (status r)) \<and>
     (\<forall>i. i \<notin> completed s \<longrightarrow> phase_state_of (lifecycle s) i = Dormant)"

lemma terminal_state_terminal: "is_terminal (terminal_state st)"
  by (cases st) (auto simp: is_terminal_def)

lemma state_transition_ignored:
  "j \<noteq> i \<Longrightarrow> phase_state_of (transition_ignored i to m) j = phase_state_of m j"
  "is_terminal to \<Longrightarrow> phase_state_of (transition_ignored i to m) i = to"
  by (auto simp: transition_ignored_def transition_def Let_def phase_state_of_def)

lemma run_phase_inv:
  assumes inv: "exec_inv dispatch g s" and p: "p \<in> set (phases g)" "phase_id p \<notin> completed s"
    and pre: "preds g (phase_id p) \<subseteq> completed s"
  shows "exec_inv dispatch g (run_phase dispatch g p s)"
proof -
  obtain res us c where d: "dispatch p (exec_ctx s) = ((res, us), c)" by (metis surj_pair)
  let ?i = "phase_id p" and ?st = "completion_of g (phase_id p) res" and ?s = "run_phase dispatch g p s"
  let ?r = "\<lparr>pr_phase_id = ?i, status = ?st, duration_us = us, compiler_session_id = None, compiler_event_digest = None\<rparr>"
  have rec: "exec_receipts ?s = exec_receipts s @ [?r]" by (simp add: run_phase_def Let_def d)
  have same: "phase_state_of (lifecycle ?s) j = phase_state_of (lifecycle s) j" if "j \<noteq> ?i" for j
    using that by (simp add: run_phase_def Let_def d state_transition_ignored(1))
  have own: "phase_state_of (lifecycle ?s) ?i = terminal_state ?st"
    by (simp add: run_phase_def Let_def d state_transition_ignored(2) terminal_state_terminal)
  have ok: "receipt_ok dispatch g ?r"
    unfolding receipt_ok_def using p(1) d by (intro exI[of _ p] exI[of _ "exec_ctx s"]) simp
  have "topo (edge_pairs g) (receipt_ids (exec_receipts s) @ [?i])"
    by (rule topo_append) (use inv pre in \<open>auto simp: exec_inv_def preds_def\<close>)
  moreover have "phase_state_of (lifecycle ?s) (pr_phase_id r) = terminal_state (status r)"
    if "r \<in> set (exec_receipts s)" for r
  proof -
    have "pr_phase_id r \<in> completed s" using that inv by (simp add: exec_inv_def)
    then have "pr_phase_id r \<noteq> ?i" using p(2) by auto
    then show ?thesis using same that inv by (simp add: exec_inv_def)
  qed
  ultimately show ?thesis
    using inv p same own ok unfolding exec_inv_def rec run_phase_completed
    by (auto simp: phase_ids_def)
qed

lemma run_round_inv:
  "exec_inv dispatch g s \<Longrightarrow> distinct (map phase_id ps) \<Longrightarrow>
   (\<And>p. p \<in> set ps \<Longrightarrow> p \<in> set (phases g) \<and> phase_id p \<notin> completed s \<and> preds g (phase_id p) \<subseteq> completed s) \<Longrightarrow>
   exec_inv dispatch g (fold (run_phase dispatch g) ps s)"
proof (induction ps arbitrary: s)
  case (Cons p ps)
  have "exec_inv dispatch g (run_phase dispatch g p s)"
    using Cons.prems by (intro run_phase_inv) auto
  moreover have "phase_id q \<noteq> phase_id p" if "q \<in> set ps" for q
    using Cons.prems(2) that by (metis image_eqI distinct.simps(2) list.simps(9) set_map)
  ultimately have "exec_inv dispatch g (fold (run_phase dispatch g) ps (run_phase dispatch g p s))"
    using Cons.prems(2,3) by (intro Cons.IH) auto
  then show ?case by simp
qed simp

lemma exec_loop_inv:
  "exec_inv dispatch g s \<Longrightarrow> exec_loop dispatch cancel g n s = (stopped, s') \<Longrightarrow>
   graph_wf g \<Longrightarrow> endpoints_known g \<Longrightarrow>
    (\<exists>s0. exec_inv dispatch g s0 \<and>
      (if stopped then s' = s0\<lparr>lifecycle := fold cancel_phase (phases g) (lifecycle s0)\<rparr> \<and> (\<exists>k. cancel k)
       else s' = s0 \<and> ready_phases g (completed s') = []))"
proof (induction dispatch cancel g n s rule: exec_loop.induct)
  case (1 dispatch cancel g n s)
  let ?next = "fold (run_phase dispatch g) (ready_phases g (completed s)) s"
  note run = "1.prems"(2)[unfolded exec_loop.simps[of dispatch cancel g n s]]
  show ?case
  proof (cases "cancel n \<or> ready_phases g (completed s) = []")
    case True
    then show ?thesis using "1.prems"(1) run by (auto intro!: exI[of _ s] split: if_splits)
  next
    case False
    have "distinct (map phase_id (ready_phases g (completed s)))"
      using "1.prems"(3) unfolding ready_phases_def graph_wf_def by (intro distinct_map_filter) blast
    then have "exec_inv dispatch g ?next"
      using "1.prems"(1) ready_phases_iff[OF "1.prems"(4)] by (intro run_round_inv) auto
    moreover have "exec_loop dispatch cancel g (n + 1) ?next = (stopped, s')" using run False by simp
    ultimately show ?thesis using "1.IH" "1.prems"(3,4) False by blast
  qed
qed

lemma state_cancel_phases:
  "phase_state_of (fold cancel_phase ps m) i =
    (if i \<in> phase_id ` set ps \<and> \<not> is_terminal (phase_state_of m i) then Cancelled else phase_state_of m i)"
proof (induction ps arbitrary: m)
  case (Cons p ps)
  have t: "is_terminal Cancelled" by (simp add: is_terminal_def)
  have "phase_state_of (cancel_phase p m) i =
      (if i = phase_id p \<and> \<not> is_terminal (phase_state_of m i) then Cancelled else phase_state_of m i)"
    by (auto simp: cancel_phase_def state_transition_ignored(1) state_transition_ignored(2)[OF t])
  then show ?case by (auto simp: Cons.IH t)
qed simp

lemma register_all_dormant: "phase_state_of (register_all g) i = Dormant"
proof -
  have "phase_state_of (fold (\<lambda>p. register (phase_id p)) ps m) i = phase_state_of m i" for ps m
    by (induction ps arbitrary: m) auto
  from this[of "phases g" Map.empty] show ?thesis by (simp add: register_all_def phase_state_of_def[of Map.empty])
qed

text \<open>What an execution of a validated graph returns.\<close>

lemma execute_result:
  assumes wf: "graph_wf g" and valid: "validate g = Some (Ok ())"
  obtains res c' where "execute_graph dispatch cancel g c = Some (Ok (res, c'))"
    and "distinct (receipt_ids (receipts res))" and "set (receipt_ids (receipts res)) \<subseteq> phase_ids g"
    and "topo (edge_pairs g) (receipt_ids (receipts res))"
    and "\<forall>r \<in> set (receipts res). receipt_ok dispatch g r"
    and "if cancelled res then \<exists>k. cancel k else set (receipt_ids (receipts res)) = phase_ids g"
    and "all_completed res \<longleftrightarrow>
       (\<forall>i \<in> phase_ids g. \<exists>r \<in> set (receipts res). pr_phase_id r = i \<and> is_success (terminal_state (status r)))"
proof -
  have g: "endpoints_known g" "acyclic (edge_pairs g)" using validation_verdict[OF wf] valid by blast+
  let ?s = "\<lparr>lifecycle = register_all g, completed = {}, exec_receipts = [], exec_ctx = c\<rparr>"
  obtain stopped s' where run: "exec_loop dispatch cancel g 0 ?s = (stopped, s')" by fastforce
  have "exec_inv dispatch g ?s" by (simp add: exec_inv_def register_all_dormant)
  then obtain s0 where inv: "exec_inv dispatch g s0"
    and s': "if stopped then s' = s0\<lparr>lifecycle := fold cancel_phase (phases g) (lifecycle s0)\<rparr> \<and> (\<exists>k. cancel k)
       else s' = s0 \<and> ready_phases g (completed s') = []"
    using exec_loop_inv[OF _ run wf g(1)] by blast
  have rs: "exec_receipts s' = exec_receipts s0" using s' by (auto split: if_splits)
  have success: "is_success (phase_state_of (lifecycle s') i) \<longleftrightarrow> is_success (phase_state_of (lifecycle s0) i)" for i
    using s' by (auto simp: state_cancel_phases is_success_def is_terminal_def split: if_splits)
  have recv: "is_success (phase_state_of (lifecycle s0) i) \<longleftrightarrow>
      (\<exists>r \<in> set (exec_receipts s0). pr_phase_id r = i \<and> is_success (terminal_state (status r)))" for i
    using inv by (cases "i \<in> completed s0") (auto simp: exec_inv_def is_success_def)
  let ?res = "\<lparr>receipts = exec_receipts s',
      all_completed = list_all (\<lambda>p. is_success (phase_state_of (lifecycle s') (phase_id p))) (phases g),
      cancelled = stopped\<rparr>"
  have res: "execute_graph dispatch cancel g c = Some (Ok (?res, exec_ctx s'))"
    by (simp add: execute_graph_def valid run)
  have stop: "if stopped then \<exists>k. cancel k else set (receipt_ids (exec_receipts s')) = phase_ids g"
    using s' ready_phases_progress[OF g, of "completed s0"] inv by (auto simp: exec_inv_def rs split: if_splits)
  have all: "list_all (\<lambda>p. is_success (phase_state_of (lifecycle s') (phase_id p))) (phases g) \<longleftrightarrow>
      (\<forall>i \<in> phase_ids g. \<exists>r \<in> set (exec_receipts s'). pr_phase_id r = i \<and> is_success (terminal_state (status r)))"
    by (auto simp: success recv rs list_all_iff phase_ids_def)
  have ids: "set (receipt_ids (exec_receipts s0)) \<subseteq> phase_ids g" using inv unfolding exec_inv_def by auto
  show thesis
    by (rule that[OF res]) (use inv ids stop all in \<open>simp_all add: rs exec_inv_def split: if_splits\<close>)
qed

text \<open>C12: executing a validated graph ends. No phase runs twice, a phase runs only after all its
  predecessors, and unless the run is cancelled every phase runs; the run is reported as completed exactly
  when every phase has a receipt of success, whatever the runners and the cancellation token do.\<close>

theorem execute_correct:
  assumes "graph_wf g" and "validate g = Some (Ok ())"
  shows "\<exists>res c'. execute_graph dispatch cancel g c = Some (Ok (res, c')) \<and>
     distinct (receipt_ids (receipts res)) \<and> set (receipt_ids (receipts res)) \<subseteq> phase_ids g \<and>
     (\<forall>j < length (receipts res). \<forall>u. (u, pr_phase_id (receipts res ! j)) \<in> edge_pairs g \<longrightarrow>
        (\<exists>i < j. pr_phase_id (receipts res ! i) = u)) \<and>
     (if cancelled res then \<exists>k. cancel k else set (receipt_ids (receipts res)) = phase_ids g) \<and>
     (all_completed res \<longleftrightarrow> (\<forall>i \<in> phase_ids g.
        \<exists>r \<in> set (receipts res). pr_phase_id r = i \<and> status r = phase_completion.Complete))"
proof -
  obtain res c' where res: "execute_graph dispatch cancel g c = Some (Ok (res, c'))"
    "distinct (receipt_ids (receipts res))" "set (receipt_ids (receipts res)) \<subseteq> phase_ids g"
    "topo (edge_pairs g) (receipt_ids (receipts res))" "\<forall>r \<in> set (receipts res). receipt_ok dispatch g r"
    "if cancelled res then \<exists>k. cancel k else set (receipt_ids (receipts res)) = phase_ids g"
    "all_completed res \<longleftrightarrow>
       (\<forall>i \<in> phase_ids g. \<exists>r \<in> set (receipts res). pr_phase_id r = i \<and> is_success (terminal_state (status r)))"
    by (rule execute_result[OF assms, of dispatch cancel c])
  have "acyclic (edge_pairs g)" using validation_verdict assms by blast
  then have "is_success (terminal_state (status r)) \<longleftrightarrow> status r = phase_completion.Complete"
    if "r \<in> set (receipts res)" for r
    using res(5) that no_fallback[of g "pr_phase_id r"]
    by (auto simp: receipt_ok_def completion_of_def is_success_def split: option.splits if_splits)
  then have "all_completed res \<longleftrightarrow>
      (\<forall>i \<in> phase_ids g. \<exists>r \<in> set (receipts res). pr_phase_id r = i \<and> status r = phase_completion.Complete)"
    using res(7) by blast
  moreover have "\<exists>i < j. pr_phase_id (receipts res ! i) = u"
    if j: "j < length (receipts res)" and e: "(u, pr_phase_id (receipts res ! j)) \<in> edge_pairs g" for j u
  proof -
    have "u \<in> set (take j (receipt_ids (receipts res)))" using res(4) j e by (simp add: topo_def)
    then show ?thesis using j by (auto simp: in_set_conv_nth)
  qed
  ultimately show ?thesis using res by blast
qed

lemma graph0_valid: "validate (graph0 [((''a'', ''b''), [k])]) = Some (Ok ())"
  using validation_verdict[of "graph0 [((''a'', ''b''), [k])]"] graph0_acyclic[of "[k]"]
  by (simp add: graph0_wf) (simp add: graph0_simps)

theorem execute_correct_witness:
  "\<exists>res c'. execute_graph (\<lambda>p n. ((None, 7), n + 1)) (\<lambda>_. False) (graph0 [((''a'', ''b''), [Data])]) (0::nat) =
     Some (Ok (res, c')) \<and> \<not> cancelled res \<and> set (receipt_ids (receipts res)) = {''a'', ''b''}"
proof -
  have wf: "graph_wf (graph0 [((''a'', ''b''), [Data])])" by (simp add: graph0_wf)
  have "phase_ids (graph0 [((''a'', ''b''), [Data])]) = {''a'', ''b''}" by (auto simp: graph0_simps)
  moreover obtain res c' where
    "execute_graph (\<lambda>p n. ((None, 7), n + 1)) (\<lambda>_. False) (graph0 [((''a'', ''b''), [Data])]) (0::nat) = Some (Ok (res, c'))"
    "if cancelled res then \<exists>k. (\<lambda>_::nat. False) k
     else set (receipt_ids (receipts res)) = phase_ids (graph0 [((''a'', ''b''), [Data])])"
    using execute_correct[OF wf graph0_valid, of "\<lambda>p n. ((None, 7), n + 1)" "\<lambda>_. False" "0::nat"] by blast
  ultimately show ?thesis by (intro exI[of _ res] exI[of _ c']) (simp split: if_splits)
qed

text \<open>The receipt of a phase whose runner fails.\<close>

lemma failed_receipt:
  assumes wf: "graph_wf g" and valid: "validate g = Some (Ok ())" and u: "u \<in> phase_ids g"
    and fails: "\<And>p c. phase_id p = u \<Longrightarrow> fst (fst (dispatch p c)) = Some msg" and "\<And>k. \<not> cancel k"
  obtains res c' where "execute_graph dispatch cancel g c = Some (Ok (res, c'))"
    and "\<forall>r \<in> set (receipts res). pr_phase_id r = u \<longrightarrow> status r = Failed msg" and "\<not> all_completed res"
    and "topo (edge_pairs g) (receipt_ids (receipts res))" and "set (receipt_ids (receipts res)) = phase_ids g"
proof -
  obtain res c' where res: "execute_graph dispatch cancel g c = Some (Ok (res, c'))"
    "distinct (receipt_ids (receipts res))" "set (receipt_ids (receipts res)) \<subseteq> phase_ids g"
    "topo (edge_pairs g) (receipt_ids (receipts res))" "\<forall>r \<in> set (receipts res). receipt_ok dispatch g r"
    "if cancelled res then \<exists>k. cancel k else set (receipt_ids (receipts res)) = phase_ids g"
    "all_completed res \<longleftrightarrow>
       (\<forall>i \<in> phase_ids g. \<exists>r \<in> set (receipts res). pr_phase_id r = i \<and> is_success (terminal_state (status r)))"
    by (rule execute_result[OF wf valid, of dispatch cancel c])
  have acy: "acyclic (edge_pairs g)" using validation_verdict[OF wf] valid by blast
  have ids: "set (receipt_ids (receipts res)) = phase_ids g" using res(6) assms(5) by (simp split: if_splits)
  have failed: "status r = Failed msg" if "r \<in> set (receipts res)" "pr_phase_id r = u" for r
    using res(5) that fails no_fallback[OF acy, of u] by (auto simp: receipt_ok_def completion_of_def)
  then have "\<not> all_completed res" using res(7) u by (auto simp: is_success_def)
  then show thesis using that[OF res(1)] failed res(4) ids by simp
qed

text \<open>A failed phase counts as completed: although a phase is to run only when its predecessors have
  succeeded, the successors of a phase whose runner fails are dispatched all the same.\<close>

theorem failed_predecessor_ignored:
  assumes "graph_wf g" and "validate g = Some (Ok ())" and "(u, v) \<in> edge_pairs g"
    and "\<forall>p c. phase_id p = u \<longrightarrow> fst (fst (dispatch p c)) = Some msg" and "\<forall>k. \<not> cancel k"
  shows "\<exists>res c' i j. execute_graph dispatch cancel g c = Some (Ok (res, c')) \<and> \<not> all_completed res \<and>
     i < j \<and> j < length (receipts res) \<and>
     pr_phase_id (receipts res ! i) = u \<and> status (receipts res ! i) = Failed msg \<and>
     pr_phase_id (receipts res ! j) = v"
proof -
  have ends: "endpoints_known g" using validation_verdict assms(1,2) by blast
  then have uv: "u \<in> phase_ids g" "v \<in> phase_ids g" using assms(3) by (auto simp: endpoints_known_def)
  have f: "\<And>p c. phase_id p = u \<Longrightarrow> fst (fst (dispatch p c)) = Some msg" "\<And>k. \<not> cancel k"
    using assms(4,5) by blast+
  obtain res c' where res: "execute_graph dispatch cancel g c = Some (Ok (res, c'))"
    "\<forall>r \<in> set (receipts res). pr_phase_id r = u \<longrightarrow> status r = Failed msg"
    "\<not> all_completed res" "topo (edge_pairs g) (receipt_ids (receipts res))"
    "set (receipt_ids (receipts res)) = phase_ids g"
    by (rule failed_receipt[OF assms(1,2) uv(1) f, where c = c])
  have "v \<in> set (receipt_ids (receipts res))" using uv(2) res(5) by simp
  then obtain j where j: "j < length (receipts res)" "pr_phase_id (receipts res ! j) = v"
    by (auto simp: in_set_conv_nth)
  then have "u \<in> set (take j (receipt_ids (receipts res)))" using res(4) assms(3) by (simp add: topo_def)
  then obtain i where "i < j" "pr_phase_id (receipts res ! i) = u" using j by (auto simp: in_set_conv_nth)
  moreover from this have "receipts res ! i \<in> set (receipts res)" using j by simp
  ultimately have "status (receipts res ! i) = Failed msg" using res(2) by blast
  then show ?thesis
    using res(1,3) j \<open>i < j\<close> \<open>pr_phase_id (receipts res ! i) = u\<close>
    by (intro exI[of _ res] exI[of _ c'] exI[of _ i] exI[of _ j]) simp
qed

theorem failed_predecessor_ignored_witness:
  "\<exists>res c' i j. execute_graph (\<lambda>p c. ((Some ''down'', 7), c)) (\<lambda>_. False) (graph0 [((''a'', ''b''), [Data])]) () =
     Some (Ok (res, c')) \<and> \<not> all_completed res \<and> i < j \<and> j < length (receipts res) \<and>
     pr_phase_id (receipts res ! i) = ''a'' \<and> status (receipts res ! i) = Failed ''down'' \<and>
     pr_phase_id (receipts res ! j) = ''b''"
  by (rule failed_predecessor_ignored) (simp_all add: graph0_wf graph0_valid, simp add: graph0_simps)

text \<open>The fallback path is unreachable: the executor looks the failed phase up as both ends of an edge,
  which a validated graph excludes, so a phase with an outgoing fallback edge is reported as failed, not as
  having used its fallback.\<close>

theorem fallback_unreachable:
  assumes "graph_wf g" and "validate g = Some (Ok ())" and "((u, v), [FallbackDecomposition]) \<in> set (edges g)"
    and "\<forall>p c. phase_id p = u \<longrightarrow> fst (fst (dispatch p c)) = Some msg" and "\<forall>k. \<not> cancel k"
  shows "\<exists>res c'. execute_graph dispatch cancel g c = Some (Ok (res, c')) \<and> \<not> all_completed res \<and>
     (\<exists>r \<in> set (receipts res). pr_phase_id r = u \<and> status r = Failed msg) \<and>
     (\<forall>r \<in> set (receipts res). \<forall>e. status r \<noteq> FallbackUsed e)"
proof -
  have g: "endpoints_known g" "acyclic (edge_pairs g)" using validation_verdict assms(1,2) by blast+
  have u: "u \<in> phase_ids g" using edge_pairsI[OF assms(3)] g(1) by (auto simp: endpoints_known_def)
  have f: "\<And>p c. phase_id p = u \<Longrightarrow> fst (fst (dispatch p c)) = Some msg" "\<And>k. \<not> cancel k"
    using assms(4,5) by blast+
  obtain res c' where res: "execute_graph dispatch cancel g c = Some (Ok (res, c'))"
    "\<forall>r \<in> set (receipts res). pr_phase_id r = u \<longrightarrow> status r = Failed msg" "\<not> all_completed res"
    "set (receipt_ids (receipts res)) = phase_ids g"
    by (rule failed_receipt[OF assms(1,2) u f, where c = c])
  have "\<forall>r \<in> set (receipts res). receipt_ok dispatch g r"
    using res(1) execute_result[OF assms(1,2), of dispatch cancel c] by (metis option.inject outcome.inject(2) prod.inject)
  then have "\<forall>r \<in> set (receipts res). \<forall>e. status r \<noteq> FallbackUsed e"
    using no_fallback[OF g(2)] by (auto simp: receipt_ok_def completion_of_def split: option.splits)
  moreover have "\<exists>r \<in> set (receipts res). pr_phase_id r = u" using u res(4) by (metis imageE list.set_map)
  ultimately show ?thesis using res(1,2,3) by blast
qed

theorem fallback_unreachable_witness:
  "\<exists>res c'. execute_graph (\<lambda>p c. ((Some ''down'', 7), c)) (\<lambda>_. False)
       (graph0 [((''a'', ''b''), [FallbackDecomposition])]) () = Some (Ok (res, c')) \<and> \<not> all_completed res \<and>
     (\<exists>r \<in> set (receipts res). pr_phase_id r = ''a'' \<and> status r = Failed ''down'') \<and>
     (\<forall>r \<in> set (receipts res). \<forall>e. status r \<noteq> FallbackUsed e)"
  by (rule fallback_unreachable[where v = "''b''"]) (simp_all add: graph0_wf graph0_valid, simp add: graph0_simps)

text \<open>
  The types allow an edge with an empty set of kinds, which is followed but not counted. A phase with such
  an edge to itself is pushed again every time it is popped, and validation does not end.
\<close>

lemma kahn_returns_no_self_loop:
  assumes "kahn succs r d n = Some y"
  shows "r = [i] \<longrightarrow> succs i = [i] \<longrightarrow> d i \<noteq> Some 0"
proof (rule kahn.raw_induct[OF _ assms], intro impI notI)
  fix rec and succs :: "string \<Rightarrow> string list" and ready and d :: "string \<rightharpoonup> nat" and visited y :: nat
  assume IH: "\<And>succs ready d visited y. rec succs ready d visited = Some y \<Longrightarrow>
      ready = [i] \<longrightarrow> succs i = [i] \<longrightarrow> d i \<noteq> Some 0"
    and body: "(if ready = [] then Some visited
      else case fold relax (succs (last ready)) (butlast ready, d) of
        (ready', d') \<Rightarrow> rec succs ready' d' (visited + 1)) = Some y"
    and a: "ready = [i]" "succs i = [i]" "d i = Some 0"
  have "fold relax (succs (last ready)) (butlast ready, d) = ([i], d)"
    using a by (simp add: relax_def map_upd_triv)
  then have "rec succs [i] d (visited + 1) = Some y" using body a by simp
  from IH[OF this] show False using a by blast
qed

lemma kahn_self_loop: "succs i = [i] \<Longrightarrow> d i = Some 0 \<Longrightarrow> kahn succs [i] d n = None"
  using kahn_returns_no_self_loop[of succs "[i]" d n] by (cases "kahn succs [i] d n") auto

lemma validate_empty_kinds_diverges:
  assumes "phases g = [p]" and "edges g = [((phase_id p, phase_id p), [])]"
  shows "validate g = None"
proof -
  have "succ_ids g (phase_id p) = [phase_id p]" "edge_iter g = []"
    using assms by (simp_all add: succ_ids_def edge_iter_def)
  moreover from this have "in_degrees g (phase_id p) = Some 0" using assms by (simp add: in_degrees_def)
  ultimately have "kahn (succ_ids g) (initial_ready g) (in_degrees g) 0 = None"
    using assms kahn_self_loop by (simp add: initial_ready_def)
  then show ?thesis by (simp add: validate_def \<open>edge_iter g = []\<close>)
qed

end
