(* ===== verification/Backpressure.thy ===== *)
theory Backpressure
  imports Prism_Prelude "HOL-Library.Product_Lexorder" "HOL-Library.Option_ord"
begin

text \<open>
  The admission signals of \<open>prism-ecs-runtime/src/schedule/backpressure.rs\<close>: the controller of resource
  events and the severity level it derives, the latency window over completed batches, and the token budget
  that follows it. Severity ordinals (\<open>u8\<close>), token counts and nanoseconds are natural numbers, instants are
  nanoseconds too; the floating-point fields are only stored and have an opaque type. The map of active
  events is an association list in the order of its keys.
\<close>

subsection \<open>Reasons and levels\<close>

datatype backpressure_reason = MetalCapacity | AneCapacity | CpuCapacity | ActivationSlots
  | IOSurfacePool | SessionQuota | GlobalQueue | ArtifactCold

datatype backpressure_category = Transient | Pool | Capacity | Quota

text \<open>The derived order of the reasons is the order of the constructors.\<close>

fun reason_rank :: "backpressure_reason \<Rightarrow> nat" where
  "reason_rank MetalCapacity = 0"
| "reason_rank AneCapacity = 1"
| "reason_rank CpuCapacity = 2"
| "reason_rank ActivationSlots = 3"
| "reason_rank IOSurfacePool = 4"
| "reason_rank SessionQuota = 5"
| "reason_rank GlobalQueue = 6"
| "reason_rank ArtifactCold = 7"

lemma reason_rank_inj: "reason_rank r = reason_rank s \<longleftrightarrow> r = s"
  by (cases r; cases s) simp_all

instantiation backpressure_reason :: linorder
begin

definition less_eq_backpressure_reason :: "backpressure_reason \<Rightarrow> backpressure_reason \<Rightarrow> bool" where
  "less_eq_backpressure_reason r s = (reason_rank r \<le> reason_rank s)"

definition less_backpressure_reason :: "backpressure_reason \<Rightarrow> backpressure_reason \<Rightarrow> bool" where
  "less_backpressure_reason r s = (reason_rank r < reason_rank s)"

instance
  by standard (auto simp: less_eq_backpressure_reason_def less_backpressure_reason_def reason_rank_inj)

end

fun severity :: "backpressure_reason \<Rightarrow> backpressure_category" where
  "severity ArtifactCold = Transient"
| "severity ActivationSlots = Pool"
| "severity IOSurfacePool = Pool"
| "severity MetalCapacity = Capacity"
| "severity AneCapacity = Capacity"
| "severity CpuCapacity = Capacity"
| "severity SessionQuota = Quota"
| "severity GlobalQueue = Quota"

definition severity_ordinal :: "backpressure_reason \<Rightarrow> nat" where
  "severity_ordinal r = (case severity r of Transient \<Rightarrow> 1 | Pool \<Rightarrow> 2 | Capacity \<Rightarrow> 3 | Quota \<Rightarrow> 4)"

type_synonym backpressure_level = nat

abbreviation (input) "NONE \<equiv> 0 :: backpressure_level"
abbreviation (input) "MILD \<equiv> 1 :: backpressure_level"
abbreviation (input) "MODERATE \<equiv> 2 :: backpressure_level"
abbreviation (input) "SEVERE \<equiv> 3 :: backpressure_level"
abbreviation (input) "CRITICAL \<equiv> 4 :: backpressure_level"

definition from_raw :: "nat \<Rightarrow> backpressure_level" where
  "from_raw raw = (if CRITICAL \<le> raw then CRITICAL else raw)"

definition is_admission_throttling :: "backpressure_level \<Rightarrow> bool" where
  "is_admission_throttling l \<longleftrightarrow> MODERATE \<le> l"

definition is_admission_refused :: "backpressure_level \<Rightarrow> bool" where
  "is_admission_refused l \<longleftrightarrow> SEVERE \<le> l"

definition is_cancellation_required :: "backpressure_level \<Rightarrow> bool" where
  "is_cancellation_required l \<longleftrightarrow> CRITICAL \<le> l"

subsection \<open>Events\<close>

record backpressure_event =
  reason :: backpressure_reason
  lane_ordinal :: "nat option"
  affected_session :: "string option"
  event_level :: backpressure_level
  timestamp :: nat
  details :: string

definition event_new :: "nat \<Rightarrow> backpressure_reason \<Rightarrow> backpressure_level \<Rightarrow> backpressure_event" where
  "event_new now r l = \<lparr>reason = r, lane_ordinal = None, affected_session = None, event_level = l,
     timestamp = now, details = []\<rparr>"

definition with_lane :: "nat \<Rightarrow> backpressure_event \<Rightarrow> backpressure_event" where
  "with_lane l e = e\<lparr>lane_ordinal := Some l\<rparr>"

definition with_session :: "string \<Rightarrow> backpressure_event \<Rightarrow> backpressure_event" where
  "with_session s e = e\<lparr>affected_session := Some s\<rparr>"

definition with_details :: "string \<Rightarrow> backpressure_event \<Rightarrow> backpressure_event" where
  "with_details d e = e\<lparr>details := d\<rparr>"

type_synonym event_key = "backpressure_reason \<times> nat option"

record event_controller =
  active_events :: "(event_key \<times> backpressure_event) list"
  level :: backpressure_level
  max_events :: nat

definition with_max_events :: "nat \<Rightarrow> event_controller" where
  "with_max_events n = \<lparr>active_events = [], level = NONE, max_events = min n 4096\<rparr>"

definition controller_new :: event_controller where
  "controller_new = with_max_events 256"

definition derive_level :: "(event_key \<times> backpressure_event) list \<Rightarrow> backpressure_level" where
  "derive_level es = from_raw (fold (\<lambda>(_, e) m. if m < severity_ordinal (reason e) then severity_ordinal (reason e) else m)
     es NONE)"

definition recalculate_level :: "event_controller \<Rightarrow> event_controller" where
  "recalculate_level c = c\<lparr>level := derive_level (active_events c)\<rparr>"

definition event_key_of :: "backpressure_event \<Rightarrow> event_key" where
  "event_key_of e = (reason e, lane_ordinal e)"

definition report :: "backpressure_event \<Rightarrow> event_controller \<Rightarrow> event_controller" where
  "report e c =
     (let key = event_key_of e;
          es = (if max_events c \<le> length (active_events c) \<and> key \<notin> fst ` set (active_events c)
                then case active_events c of [] \<Rightarrow> [] | (oldest, _) # _ \<Rightarrow> btree_remove oldest (active_events c)
                else active_events c)
      in recalculate_level (c\<lparr>active_events := btree_insert key e es\<rparr>))"

definition clear_before :: "nat \<Rightarrow> event_controller \<Rightarrow> event_controller" where
  "clear_before cutoff c =
     recalculate_level (c\<lparr>active_events := filter (\<lambda>(_, e). cutoff \<le> timestamp e) (active_events c)\<rparr>)"

definition set_level :: "backpressure_level \<Rightarrow> event_controller \<Rightarrow> event_controller" where
  "set_level l c = c\<lparr>level := l\<rparr>"

definition events :: "event_controller \<Rightarrow> backpressure_event list" where
  "events c = map snd (active_events c)"

definition event_count :: "event_controller \<Rightarrow> nat" where
  "event_count c = length (active_events c)"

definition clear_events :: "event_controller \<Rightarrow> event_controller" where
  "clear_events c = c\<lparr>active_events := [], level := NONE\<rparr>"

record backpressure_summary =
  s_level :: backpressure_level
  active_event_count :: nat
  reasons :: "backpressure_reason list"
  affected_lanes :: "nat list"

definition push_unique :: "'a \<Rightarrow> 'a list \<Rightarrow> 'a list" where
  "push_unique x xs = (if x \<in> set xs then xs else xs @ [x])"

definition summary :: "event_controller \<Rightarrow> backpressure_summary" where
  "summary c = \<lparr>s_level = level c, active_event_count = length (active_events c),
     reasons = fold (\<lambda>e. push_unique (reason e)) (events c) [],
     affected_lanes = fold (\<lambda>e ls. case lane_ordinal e of None \<Rightarrow> ls | Some l \<Rightarrow> push_unique l ls) (events c) []\<rparr>"

subsection \<open>The latency window\<close>

record completion_record =
  request_id :: string
  tokens_completed :: nat
  latency_ns :: nat
  completed_at_ns :: nat

record 'f window_controller =
  max_pending_microseconds :: nat
  pending_batches :: "completion_record list"
  target_occupancy :: 'f
  max_records :: nat

definition window_new :: "nat \<Rightarrow> 'f \<Rightarrow> 'f window_controller" where
  "window_new us f = \<lparr>max_pending_microseconds = us, pending_batches = [], target_occupancy = f, max_records = 1000\<rparr>"

definition window_with_capacity :: "nat \<Rightarrow> 'f \<Rightarrow> nat \<Rightarrow> 'f window_controller" where
  "window_with_capacity us f n =
     \<lparr>max_pending_microseconds = us, pending_batches = [], target_occupancy = f, max_records = n\<rparr>"

fun pop_excess :: "nat \<Rightarrow> 'a list \<Rightarrow> 'a list" where
  "pop_excess n [] = []"
| "pop_excess n (x # xs) = (if n < length (x # xs) then pop_excess n xs else x # xs)"

definition record_completion :: "completion_record \<Rightarrow> 'f window_controller \<Rightarrow> 'f window_controller" where
  "record_completion r c = c\<lparr>pending_batches := pop_excess (max_records c) (pending_batches c @ [r])\<rparr>"

definition saturating_mul :: "nat \<Rightarrow> nat \<Rightarrow> nat" where
  "saturating_mul a b = min (a * b) (2 ^ 64 - 1)"

definition is_backpressure :: "nat \<Rightarrow> 'f window_controller \<Rightarrow> bool" where
  "is_backpressure now c = (case pending_batches c of [] \<Rightarrow> False
     | oldest # _ \<Rightarrow> now - completed_at_ns oldest < saturating_mul (max_pending_microseconds c) 1000)"

subsection \<open>Scheduling metrics\<close>

definition DEFAULT_TOKEN_BUDGET :: nat where "DEFAULT_TOKEN_BUDGET = 4096"
definition MIN_TOKEN_BUDGET :: nat where "MIN_TOKEN_BUDGET = 64"
definition TOKEN_BUDGET_RESTORE_STEP :: nat where "TOKEN_BUDGET_RESTORE_STEP = 256"

record 'f scheduling_metrics =
  max_num_scheduled_tokens :: nat
  num_running_requests :: nat
  avg_prefill_latency_ns :: 'f
  avg_decode_latency_ns :: 'f
  kv_cache_usage_pct :: 'f
  backpressure :: "'f window_controller"

definition metrics_new :: "'f \<Rightarrow> nat \<Rightarrow> 'f \<Rightarrow> 'f scheduling_metrics" where
  "metrics_new zero us f = \<lparr>max_num_scheduled_tokens = DEFAULT_TOKEN_BUDGET, num_running_requests = 0,
     avg_prefill_latency_ns = zero, avg_decode_latency_ns = zero, kv_cache_usage_pct = zero,
     backpressure = window_new us f\<rparr>"

definition update_token_budget :: "nat \<Rightarrow> 'f scheduling_metrics \<Rightarrow> 'f scheduling_metrics" where
  "update_token_budget now m =
     (if is_backpressure now (backpressure m)
      then m\<lparr>max_num_scheduled_tokens := max (max_num_scheduled_tokens m div 4 * 3) MIN_TOKEN_BUDGET\<rparr>
      else m\<lparr>max_num_scheduled_tokens :=
        min (max_num_scheduled_tokens m + TOKEN_BUDGET_RESTORE_STEP) DEFAULT_TOKEN_BUDGET\<rparr>)"

definition current_admission_level :: "nat \<Rightarrow> 'f scheduling_metrics \<Rightarrow> backpressure_level" where
  "current_admission_level now m = (if is_backpressure now (backpressure m) then MILD else NONE)"

definition metrics_record :: "completion_record \<Rightarrow> 'f scheduling_metrics \<Rightarrow> 'f scheduling_metrics" where
  "metrics_record r m = m\<lparr>backpressure := record_completion r (backpressure m)\<rparr>"

subsection \<open>The event controller\<close>

definition events_ok :: "(event_key \<times> backpressure_event) list \<Rightarrow> bool" where
  "events_ok es \<longleftrightarrow> sorted_wrt (<) (map fst es) \<and> (\<forall>(k, e) \<in> set es. k = event_key_of e)"

definition severities :: "event_controller \<Rightarrow> nat set" where
  "severities c = (\<lambda>e. severity_ordinal (reason e)) ` set (events c)"

lemma severity_ordinal_range: "1 \<le> severity_ordinal r \<and> severity_ordinal r \<le> 4"
  by (cases r) (simp_all add: severity_ordinal_def)

lemma fold_max:
  fixes f :: "'a \<Rightarrow> nat"
  shows "fold (\<lambda>x m. if m < f x then f x else m) xs m = Max (insert m (f ` set xs))"
proof (induction xs arbitrary: m)
  case (Cons x xs)
  have "Max (insert (max m (f x)) (f ` set xs)) = Max (insert m (insert (f x) (f ` set xs)))"
    by (cases "set xs = {}") (simp_all add: max.assoc)
  moreover have "(if m < f x then f x else m) = max m (f x)" by simp
  ultimately show ?case using Cons[of "max m (f x)"] by simp
qed simp

lemma derive_level_Max: "derive_level es = Max (insert 0 ((\<lambda>e. severity_ordinal (reason e)) ` set (map snd es)))"
proof -
  let ?f = "\<lambda>p :: event_key \<times> backpressure_event. severity_ordinal (reason (snd p))"
  have "fold (\<lambda>(_, e) m. if m < severity_ordinal (reason e) then severity_ordinal (reason e) else m) es NONE =
      fold (\<lambda>p m. if m < ?f p then ?f p else m) es NONE"
    by (rule fold_cong) (auto split: prod.splits)
  also have "\<dots> = Max (insert 0 (?f ` set es))" by (rule fold_max)
  finally have "derive_level es = from_raw (Max (insert 0 (?f ` set es)))" by (simp add: derive_level_def)
  moreover have "Max (insert 0 (?f ` set es)) \<le> 4" using severity_ordinal_range by simp
  ultimately show ?thesis by (simp add: from_raw_def image_image)
qed

text \<open>The entries kept when a new event is reported.\<close>

definition kept_events :: "backpressure_event \<Rightarrow> event_controller \<Rightarrow> (event_key \<times> backpressure_event) list" where
  "kept_events e c =
     (if max_events c \<le> length (active_events c) \<and> event_key_of e \<notin> fst ` set (active_events c)
      then tl (active_events c) else active_events c)"

lemma btree_remove_hd:
  fixes k :: "'k::linorder"
  shows "sorted_wrt (<) (map fst ((k, x) # m)) \<Longrightarrow> btree_remove k ((k, x) # m) = m"
  by (auto simp: btree_remove_def filter_id_conv)

lemma report_unfold:
  assumes "events_ok (active_events c)"
  shows "report e c = recalculate_level (c\<lparr>active_events := btree_insert (event_key_of e) e (kept_events e c)\<rparr>)"
proof (cases "active_events c")
  case (Cons p es)
  then have "btree_remove (fst p) (active_events c) = es"
    using assms btree_remove_hd[of "fst p" "snd p" es] by (simp add: events_ok_def)
  then show ?thesis using Cons by (auto simp: report_def kept_events_def Let_def split: prod.splits)
qed (auto simp: report_def kept_events_def)

lemma kept_events_ok: "events_ok (active_events c) \<Longrightarrow> events_ok (kept_events e c)"
  by (cases "active_events c") (auto simp: kept_events_def events_ok_def)

lemma events_ok_insert: "events_ok es \<Longrightarrow> events_ok (btree_insert (event_key_of e) e es)"
proof -
  assume a: "events_ok es"
  have "set (btree_insert k x m) \<subseteq> insert (k, x) (set m)" for k :: event_key and x :: backpressure_event and m
    by (induction k x m rule: btree_insert.induct) auto
  from this[of "event_key_of e" e es] have "set (btree_insert (event_key_of e) e es) \<subseteq> insert (event_key_of e, e) (set es)" .
  then have "\<forall>(k, x) \<in> set (btree_insert (event_key_of e) e es). k = event_key_of x"
    using a unfolding events_ok_def by blast
  moreover have "sorted_wrt (<) (map fst (btree_insert (event_key_of e) e es))"
    using a by (intro sorted_btree_insert) (simp add: events_ok_def)
  ultimately show ?thesis by (simp add: events_ok_def)
qed

datatype event_op = Report backpressure_event | ClearBefore nat | Clear

fun event_step :: "event_op \<Rightarrow> event_controller \<Rightarrow> event_controller" where
  "event_step (Report e) c = report e c"
| "event_step (ClearBefore t) c = clear_before t c"
| "event_step Clear c = clear_events c"

definition controller_inv :: "event_controller \<Rightarrow> bool" where
  "controller_inv c \<longleftrightarrow> events_ok (active_events c) \<and> event_count c \<le> max 1 (max_events c) \<and>
     level c = Max (insert 0 (severities c))"

lemma length_btree_insert:
  fixes m :: "('k::linorder \<times> 'a) list"
  assumes "sorted_wrt (<) (map fst m)"
  shows "length (btree_insert k x m) = (if k \<in> fst ` set m then length m else Suc (length m))"
proof -
  have s: "distinct (map fst (btree_insert k x m))" "distinct (map fst m)"
    using sorted_btree_insert[OF assms] assms strict_sorted_iff by blast+
  then have "length (btree_insert k x m) = card (fst ` set (btree_insert k x m))" "length m = card (fst ` set m)"
    by (metis distinct_card length_map list.set_map)+
  then show ?thesis by (simp add: keys_btree_insert card_insert_if)
qed

lemma level_recalculate:
  "level (recalculate_level c) = Max (insert 0 (severities (recalculate_level c)))"
  by (simp add: recalculate_level_def severities_def derive_level_Max events_def)

lemma event_step_inv:
  assumes "controller_inv c"
  shows "controller_inv (event_step op c)" and "max_events (event_step op c) = max_events c"
proof -
  show "max_events (event_step op c) = max_events c"
    by (cases op) (auto simp: report_def clear_before_def clear_events_def recalculate_level_def Let_def)
  show "controller_inv (event_step op c)"
  proof (cases op)
    case (Report e)
    have ok: "events_ok (active_events c)" using assms by (simp add: controller_inv_def)
    have len: "length (btree_insert (event_key_of e) e (kept_events e c)) \<le> max 1 (max_events c)"
      using assms length_btree_insert[of "kept_events e c" "event_key_of e" e] kept_events_ok[OF ok, of e]
      by (auto simp: controller_inv_def event_count_def events_ok_def kept_events_def split: if_splits)
    have "level (report e c) = Max (insert 0 (severities (report e c)))"
      unfolding report_unfold[OF ok] by (rule level_recalculate)
    moreover have "events_ok (active_events (report e c))" "event_count (report e c) \<le> max 1 (max_events (report e c))"
      using events_ok_insert[OF kept_events_ok[OF ok]] len
      by (simp_all add: report_unfold[OF ok] recalculate_level_def event_count_def)
    ultimately show ?thesis using Report by (simp add: controller_inv_def)
  next
    case (ClearBefore t)
    have "events_ok (filter P (active_events c))" for P
      using assms sorted_wrt_filter[of "\<lambda>p q. fst p < fst q" "active_events c" P]
      by (auto simp: controller_inv_def events_ok_def sorted_wrt_map)
    moreover have "length (filter P (active_events c)) \<le> max 1 (max_events c)" for P
      by (rule order_trans[OF length_filter_le]) (use assms in \<open>simp add: controller_inv_def event_count_def\<close>)
    moreover have "level (clear_before t c) = Max (insert 0 (severities (clear_before t c)))"
      unfolding clear_before_def by (rule level_recalculate)
    ultimately show ?thesis
      using ClearBefore by (simp add: controller_inv_def clear_before_def recalculate_level_def event_count_def)
  next
    case Clear
    then show ?thesis
      by (simp add: controller_inv_def clear_events_def events_ok_def event_count_def severities_def events_def)
  qed
qed

text \<open>After any sequence of reported events and clearings of a new controller, the level is the greatest
  severity of the active events (none without events), the events are distinct by reason and lane, and there
  are at most as many as the controller may keep (but one, for a controller that may keep none).\<close>

theorem level_is_worst_event:
  assumes "c = fold event_step ops (with_max_events n)"
  shows "level c = Max (insert 0 (severities c)) \<and> (level c = 0 \<longleftrightarrow> events c = []) \<and>
     distinct (map event_key_of (events c)) \<and> event_count c \<le> max 1 (min n 4096)"
proof -
  have "controller_inv (fold event_step ops d) \<and> max_events (fold event_step ops d) = max_events d"
    if "controller_inv d" for d
    using that by (induction ops arbitrary: d) (auto simp: event_step_inv)
  moreover have "controller_inv (with_max_events n)"
    by (simp add: controller_inv_def with_max_events_def events_ok_def event_count_def severities_def events_def)
  ultimately have inv: "controller_inv c" and m: "max_events c = min n 4096"
    by (simp_all add: assms with_max_events_def)
  have "map event_key_of (events c) = map fst (active_events c)"
    using inv by (auto simp: controller_inv_def events_ok_def events_def)
  then have "distinct (map event_key_of (events c))"
    using inv strict_sorted_iff[of "map fst (active_events c)"] by (simp add: controller_inv_def events_ok_def)
  moreover have "level c = 0 \<longleftrightarrow> events c = []"
  proof (cases "events c")
    case (Cons e es)
    have "1 \<le> severity_ordinal (reason e)" by (rule conjunct1[OF severity_ordinal_range])
    moreover have "severity_ordinal (reason e) \<le> level c"
      using inv Cons by (simp add: controller_inv_def severities_def)
    ultimately show ?thesis using Cons by simp
  qed (use inv in \<open>simp add: controller_inv_def severities_def\<close>)
  ultimately show ?thesis using inv m by (simp add: controller_inv_def)
qed

theorem level_is_worst_event_witness:
  "level (fold event_step [Report (event_new 5 ArtifactCold 1), Report (with_lane 1 (event_new 7 AneCapacity 3)),
     ClearBefore 6] (with_max_events 2)) = 3"
  using level_is_worst_event[OF refl, of "[Report (event_new 5 ArtifactCold 1),
     Report (with_lane 1 (event_new 7 AneCapacity 3)), ClearBefore 6]" 2]
  by (simp add: report_def clear_before_def event_new_def with_lane_def with_max_events_def event_key_of_def
      recalculate_level_def severities_def events_def severity_ordinal_def less_backpressure_reason_def Let_def)

text \<open>Reporting an event keeps it, and drops at most the entry with the smallest key of a full controller.\<close>

lemma report_keeps:
  assumes "controller_inv c"
  shows "map_of (active_events (report e c)) k =
    (if k = event_key_of e then Some e
     else if max_events c \<le> event_count c \<and> event_key_of e \<notin> fst ` set (active_events c) \<and>
       active_events c \<noteq> [] \<and> k = fst (hd (active_events c)) then None
     else map_of (active_events c) k)"
proof -
  have ok: "events_ok (active_events c)" using assms by (simp add: controller_inv_def)
  have "map_of (tl (active_events c)) (fst (hd (active_events c))) = None" if "active_events c \<noteq> []"
    using ok that by (cases "active_events c") (auto simp: events_ok_def map_of_eq_None_iff)
  moreover have "map_of (tl (active_events c)) k = map_of (active_events c) k"
    if "active_events c = [] \<or> k \<noteq> fst (hd (active_events c))"
    using that by (cases "active_events c") auto
  ultimately show ?thesis
    by (auto simp: report_unfold[OF ok] recalculate_level_def map_of_btree_insert kept_events_def event_count_def)
qed

subsection \<open>The token budget\<close>

lemma pop_excess_drop: "pop_excess n xs = drop (length xs - n) xs"
  by (induction n xs rule: pop_excess.induct) (auto simp: Suc_diff_le)

lemma record_completion_window:
  "pending_batches (record_completion r c) =
    (let xs = pending_batches c @ [r] in drop (length xs - max_records c) xs)"
  by (simp add: record_completion_def pop_excess_drop)

lemma pressure_ignores_latency:
  "map completed_at_ns (pending_batches c) = map completed_at_ns (pending_batches d) \<Longrightarrow>
   max_pending_microseconds c = max_pending_microseconds d \<Longrightarrow> is_backpressure now c = is_backpressure now d"
  by (cases "pending_batches c"; cases "pending_batches d") (auto simp: is_backpressure_def)

definition shrink :: "nat \<Rightarrow> nat" where
  "shrink b = max (b div 4 * 3) 64"

definition grow :: "nat \<Rightarrow> nat" where
  "grow b = min (b + 256) 4096"

lemmas budget_simps = update_token_budget_def DEFAULT_TOKEN_BUDGET_def MIN_TOKEN_BUDGET_def
  TOKEN_BUDGET_RESTORE_STEP_def shrink_def grow_def

lemma update_budget:
  "max_num_scheduled_tokens (update_token_budget now m) =
    (if is_backpressure now (backpressure m) then shrink else grow) (max_num_scheduled_tokens m)"
  "backpressure (update_token_budget now m) = backpressure m"
  by (simp_all add: budget_simps)

lemma update_budgets:
  "backpressure (fold update_token_budget ts m) = backpressure m"
  "\<forall>t \<in> set ts. is_backpressure t (backpressure m) = b \<Longrightarrow>
     max_num_scheduled_tokens (fold update_token_budget ts m) =
     ((if b then shrink else grow) ^^ length ts) (max_num_scheduled_tokens m)"
  by (induction ts arbitrary: m) (auto simp: update_budget funpow_swap1)

lemma mono_shrink: "mono shrink"
  unfolding shrink_def by (intro monoI max.mono mult_right_mono div_le_mono) auto

lemma shrink_floor:
  assumes "b \<le> 4096" shows "(shrink ^^ (15 + k)) b = 64"
proof -
  have "(f ^^ 15) x = f (f (f (f (f (f (f (f (f (f (f (f (f (f (f x))))))))))))))" for f :: "nat \<Rightarrow> nat" and x
    by (simp add: eval_nat_numeral)
  then have top: "(shrink ^^ 15) 4096 = 64" by (simp add: shrink_def)
  have "(shrink ^^ 15) b \<le> 64" using funpow_mono[OF mono_shrink assms, of 15] top by simp
  moreover have "64 \<le> (shrink ^^ Suc n) b" for n by (simp add: shrink_def)
  from this[of 14] have "64 \<le> (shrink ^^ 15) b" by simp
  ultimately have "(shrink ^^ 15) b = 64" by simp
  moreover have "(shrink ^^ k) 64 = 64" by (induction k) (simp_all add: shrink_def)
  ultimately show ?thesis by (simp add: add.commute[of 15] funpow_add)
qed

lemma grow_eq: "b \<le> 4096 \<Longrightarrow> (grow ^^ k) b = min (b + 256 * k) 4096"
  by (induction k) (auto simp: grow_def)



datatype metrics_op = Record completion_record | UpdateBudget nat

fun metrics_step :: "metrics_op \<Rightarrow> 'f scheduling_metrics \<Rightarrow> 'f scheduling_metrics" where
  "metrics_step (Record r) m = metrics_record r m"
| "metrics_step (UpdateBudget t) m = update_token_budget t m"

lemma metrics_step_bounds:
  "64 \<le> max_num_scheduled_tokens m \<and> max_num_scheduled_tokens m \<le> 4096 \<Longrightarrow>
   64 \<le> max_num_scheduled_tokens (metrics_step op m) \<and> max_num_scheduled_tokens (metrics_step op m) \<le> 4096"
  by (cases op) (auto simp: metrics_record_def budget_simps)

lemma metrics_run_bounds:
  "64 \<le> max_num_scheduled_tokens m \<and> max_num_scheduled_tokens m \<le> 4096 \<Longrightarrow>
   64 \<le> max_num_scheduled_tokens (fold metrics_step ops m) \<and> max_num_scheduled_tokens (fold metrics_step ops m) \<le> 4096"
  by (induction ops arbitrary: m) (simp_all add: metrics_step_bounds)

text \<open>C38: whatever completions are recorded and whenever it is updated, the token budget of new metrics stays
  between 64 and 4096; 15 or more updates under pressure bring it to the minimum, and 16 or more updates after
  the oldest recorded batch has left the latency window restore it to the maximum.\<close>

theorem token_budget_correct:
  assumes "m = fold metrics_step ops (metrics_new zero us f)"
  shows "64 \<le> max_num_scheduled_tokens m \<and> max_num_scheduled_tokens m \<le> 4096 \<and>
     (15 \<le> length ts \<longrightarrow> (\<forall>t \<in> set ts. is_backpressure t (backpressure m)) \<longrightarrow>
        max_num_scheduled_tokens (fold update_token_budget ts m) = 64) \<and>
     (16 \<le> length ts \<longrightarrow> (\<forall>t \<in> set ts. \<forall>r rs. pending_batches (backpressure m) = r # rs \<longrightarrow>
          completed_at_ns r + max_pending_microseconds (backpressure m) * 1000 \<le> t) \<longrightarrow>
        max_num_scheduled_tokens (fold update_token_budget ts m) = 4096)"
proof -
  have b: "64 \<le> max_num_scheduled_tokens m" "max_num_scheduled_tokens m \<le> 4096"
    using metrics_run_bounds[of "metrics_new zero us f" ops] assms
    by (simp_all add: metrics_new_def DEFAULT_TOKEN_BUDGET_def)
  have "max_num_scheduled_tokens (fold update_token_budget ts m) = 64"
    if "15 \<le> length ts" "\<forall>t \<in> set ts. is_backpressure t (backpressure m)"
    using update_budgets(2)[of ts m True] that shrink_floor[OF b(2), of "length ts - 15"] by simp
  moreover have "max_num_scheduled_tokens (fold update_token_budget ts m) = 4096"
    if n: "16 \<le> length ts" and late: "\<forall>t \<in> set ts. \<forall>r rs. pending_batches (backpressure m) = r # rs \<longrightarrow>
       completed_at_ns r + max_pending_microseconds (backpressure m) * 1000 \<le> t"
  proof -
    have "\<not> is_backpressure t (backpressure m)" if "t \<in> set ts" for t
      using late that by (fastforce simp: is_backpressure_def saturating_mul_def split: list.splits)
    then show ?thesis using update_budgets(2)[of ts m False] grow_eq[OF b(2), of "length ts"] n b by simp
  qed
  ultimately show ?thesis using b by blast
qed

theorem token_budget_correct_witness:
  "max_num_scheduled_tokens (fold update_token_budget (replicate 15 3000)
      (fold metrics_step [Record \<lparr>request_id = ''r'', tokens_completed = 8, latency_ns = 10, completed_at_ns = 2500\<rparr>]
        (metrics_new () 1 ()))) = 64"
  using token_budget_correct[OF refl, where ts = "replicate 15 3000" and zero = "()" and us = 1 and f = "()" and
      ops = "[Record \<lparr>request_id = ''r'', tokens_completed = 8, latency_ns = 10, completed_at_ns = 2500\<rparr>]"]
  by (simp add: metrics_record_def record_completion_def metrics_new_def window_new_def is_backpressure_def
      saturating_mul_def)

end
