(* ===== verification/Kahn.thy ===== *)
theory Kahn
  imports Prism_Prelude
begin

text \<open>
  Kahn's algorithm, shared by the sorts of \<open>buffer_lifetime_plan.rs\<close> and \<open>schedule.rs\<close>: the edges a node
  still waits on, sequences that respect the edges, and the interface \<open>degrees\<close> of the table of
  in-degrees, with what one turn of the main loop keeps. The table is a vector in one sort and a hash
  map in the other.
\<close>

subsection \<open>Edges\<close>

definition succs_of :: "('n \<times> 'n) list \<Rightarrow> 'n \<Rightarrow> 'n list" where
  "succs_of es u = map snd (filter (\<lambda>p. fst p = u) es)"

text \<open>The edges into \<open>v\<close> whose producer is not in \<open>S\<close>.\<close>

definition waiting_on :: "('n \<times> 'n) list \<Rightarrow> 'n set \<Rightarrow> 'n \<Rightarrow> nat" where
  "waiting_on es S v = length (filter (\<lambda>p. snd p = v \<and> fst p \<notin> S) es)"

lemma waiting_on_insert:
  assumes "u \<notin> S"
  shows "waiting_on es (insert u S) v + count_list (succs_of es u) v = waiting_on es S v"
  using assms by (induction es) (auto simp: waiting_on_def succs_of_def)

lemma waiting_on_0: "waiting_on es S v = 0 \<longleftrightarrow> (\<forall>u. (u, v) \<in> set es \<longrightarrow> u \<in> S)"
  by (auto simp: waiting_on_def filter_empty_conv)

lemma waiting_on_le: "waiting_on ps S v \<le> length ps"
  by (simp add: waiting_on_def)

lemma edge_snoc:
  "waiting_on (ps @ [(a, b)]) {} v = (if v = b then Suc (waiting_on ps {} v) else waiting_on ps {} v)"
  "succs_of (ps @ [(a, b)]) u = (if u = a then succs_of ps u @ [b] else succs_of ps u)"
  by (auto simp: waiting_on_def succs_of_def)

text \<open>A sequence in which every node comes after its producers.\<close>

definition topo_prefix :: "('n \<times> 'n) list \<Rightarrow> 'n list \<Rightarrow> bool" where
  "topo_prefix ps ord \<longleftrightarrow> (\<forall>i < length ord. \<forall>u. (u, ord ! i) \<in> set ps \<longrightarrow> u \<in> set (take i ord))"

lemma topo_prefix_Nil [simp]: "topo_prefix ps []"
  by (simp add: topo_prefix_def)

lemma topo_prefix_snoc:
  "topo_prefix ps (ord @ [x]) \<longleftrightarrow> topo_prefix ps ord \<and> (\<forall>u. (u, x) \<in> set ps \<longrightarrow> u \<in> set ord)"
  by (auto simp: topo_prefix_def nth_append less_Suc_eq)

lemma topo_prefix_before:
  assumes "topo_prefix ps ord" "(u, v) \<in> set ps" "v \<in> set ord"
  shows "\<exists>i j. i < j \<and> j < length ord \<and> ord ! i = u \<and> ord ! j = v"
proof -
  obtain j where j: "j < length ord" "ord ! j = v" using assms(3) by (auto simp: in_set_conv_nth)
  then have "u \<in> set (take j ord)" using assms(1,2) by (auto simp: topo_prefix_def)
  then obtain i where "i < j" "ord ! i = u" by (auto simp: in_set_conv_nth)
  then show ?thesis using j by blast
qed

lemma topo_prefix_acyclic:
  assumes t: "topo_prefix ps ord" "distinct ord" and sub: "set ps \<subseteq> UNIV \<times> set ord"
  shows "acyclic (set ps)"
proof -
  define pos where "pos x = (THE i. i < length ord \<and> ord ! i = x)" for x
  have pos: "pos (ord ! i) = i" if "i < length ord" for i
    unfolding pos_def using that t(2) by (intro the_equality) (auto simp: nth_eq_iff_index_eq)
  have "set ps \<subseteq> measure pos"
  proof
    fix p assume p: "p \<in> set ps"
    obtain u v where uv: "p = (u, v)" by (cases p)
    then obtain i j where "i < j" "j < length ord" "ord ! i = u" "ord ! j = v"
      using topo_prefix_before[OF t(1), of u v] p sub by blast
    then show "p \<in> measure pos" using uv pos[of i] pos[of j] by auto
  qed
  then show ?thesis by (rule acyclic_subset[OF wf_acyclic[OF wf_measure]])
qed

text \<open>A set that holds every node whose producers it holds has all nodes that no cycle leads to.\<close>

lemma closed_reaches:
  assumes closed: "\<And>v. v \<in> V \<Longrightarrow> (\<And>u. (u, v) \<in> R \<Longrightarrow> u \<in> S) \<Longrightarrow> v \<in> S"
    and bound: "\<And>u v. (u, v) \<in> R \<Longrightarrow> u \<in> V" and fin: "finite R"
    and acyc: "\<And>w. (w, v) \<in> R\<^sup>* \<Longrightarrow> (w, w) \<notin> R\<^sup>+" and v: "v \<in> V"
  shows "v \<in> S"
proof -
  let ?R = "{(a, b) \<in> R. (b, v) \<in> R\<^sup>*}"
  have sub: "?R \<subseteq> R" by auto
  have "acyclic ?R"
    unfolding acyclic_def
  proof (intro allI notI)
    fix w assume w: "(w, w) \<in> ?R\<^sup>+"
    then have "(w, w) \<in> R\<^sup>+" using sub by (meson trancl_mono)
    moreover from w obtain b where "(b, w) \<in> ?R" by (meson tranclE)
    then have "(w, v) \<in> R\<^sup>*" by simp
    ultimately show False using acyc by blast
  qed
  then have "wf ?R" using fin finite_subset[OF sub] by (intro finite_acyclic_wf) auto
  then have "w \<in> V \<longrightarrow> (w, v) \<in> R\<^sup>* \<longrightarrow> w \<in> S" for w
  proof (induction w rule: wf_induct_rule)
    case (less w)
    show ?case
    proof (intro impI)
      assume w: "w \<in> V" "(w, v) \<in> R\<^sup>*"
      have "u \<in> S" if "(u, w) \<in> R" for u
        using less[of u] that w(2) bound[OF that] by (auto intro: converse_rtrancl_into_rtrancl)
      then show "w \<in> S" using closed w(1) by blast
    qed
  qed
  then show ?thesis using v by blast
qed

subsection \<open>The table of in-degrees\<close>

definition relax_with :: "('t \<Rightarrow> 'n \<Rightarrow> nat option) \<Rightarrow> ('t \<Rightarrow> 'n \<Rightarrow> nat \<Rightarrow> 't) \<Rightarrow> 'n \<Rightarrow> 't \<times> 'n list \<Rightarrow> 't \<times> 'n list" where
  "relax_with get put s = (\<lambda>(t, queue).
     case get t s of
       None \<Rightarrow> (t, queue)
     | Some d \<Rightarrow> (put t s (d - 1), if d - 1 = 0 then queue @ [s] else queue))"

text \<open>
  What holds at every turn of the main loop over the nodes \<open>V\<close> and the edges \<open>ps\<close>: \<open>ord\<close> are the nodes
  that left the queue \<open>q\<close>, and the table counts what the nodes wait on.
\<close>

definition kahn_inv :: "('t \<Rightarrow> 'n \<Rightarrow> nat option) \<Rightarrow> 'n set \<Rightarrow> ('n \<times> 'n) list \<Rightarrow> 't \<Rightarrow> 'n list \<Rightarrow> 'n list \<Rightarrow> bool" where
  "kahn_inv get V ps t q ord \<longleftrightarrow> distinct (ord @ q) \<and> set (ord @ q) \<subseteq> V \<and>
     (\<forall>v. get t v = (if v \<in> V then Some (waiting_on ps (set ord) v) else None)) \<and>
     (\<forall>v \<in> V. waiting_on ps (set ord) v = 0 \<longleftrightarrow> v \<in> set (ord @ q)) \<and> topo_prefix ps ord"

lemma kahn_inv_queue:
  "kahn_inv get V ps t q ord \<Longrightarrow> distinct q' \<Longrightarrow> set q' = set q \<Longrightarrow> kahn_inv get V ps t q' ord"
  by (auto simp: kahn_inv_def)

lemma kahn_queue_start:
  assumes "\<And>v. get t v = (if v \<in> V then Some (waiting_on ps {} v) else None)"
    "distinct q" "set q = {v \<in> V. waiting_on ps {} v = 0}"
  shows "kahn_inv get V ps t q []"
  using assms by (auto simp: kahn_inv_def)

lemma kahn_inv_length:
  assumes "kahn_inv get V ps t q ord" "finite V"
  shows "length (ord @ q) \<le> card V"
  using assms by (metis card_mono distinct_card kahn_inv_def)

text \<open>When the queue is empty, every node that no cycle leads to has left it.\<close>

lemma kahn_inv_end:
  assumes inv: "kahn_inv get V ps t [] ord" and ps: "set ps \<subseteq> V \<times> V" and v: "v \<in> V"
    and acyc: "\<And>w. (w, v) \<in> (set ps)\<^sup>* \<Longrightarrow> (w, w) \<notin> (set ps)\<^sup>+"
  shows "v \<in> set ord"
proof (rule closed_reaches[OF _ _ _ acyc v])
  show "v \<in> set ord" if "v \<in> V" "\<And>u. (u, v) \<in> set ps \<Longrightarrow> u \<in> set ord" for v
    using inv that by (auto simp: kahn_inv_def waiting_on_0)
qed (use ps in auto)

locale degrees =
  fixes get :: "'t \<Rightarrow> 'n \<Rightarrow> nat option" and put :: "'t \<Rightarrow> 'n \<Rightarrow> nat \<Rightarrow> 't"
  assumes get_put: "get t v \<noteq> None \<Longrightarrow> get (put t v d) w = (if w = v then Some d else get t w)"
begin

text \<open>Relaxing the successors of a node lowers each by its edges and queues those that reach 0.\<close>

lemma relax_all:
  assumes "\<And>v. v \<in> set ss \<Longrightarrow> \<exists>d. get t v = Some d \<and> count_list ss v \<le> d"
  shows "\<exists>t' fresh. fold (relax_with get put) ss (t, q) = (t', q @ fresh) \<and>
    (\<forall>v. get t' v = map_option (\<lambda>d. d - count_list ss v) (get t v)) \<and>
    distinct fresh \<and> set fresh = {v \<in> set ss. get t v = Some (count_list ss v)}"
  using assms
proof (induction ss arbitrary: t q)
  case (Cons s ss)
  obtain d where d: "get t s = Some d" "Suc (count_list ss s) \<le> d" using Cons.prems[of s] by auto
  let ?t = "put t s (d - 1)" and ?q = "if d - 1 = 0 then q @ [s] else q"
  have gt: "get ?t v = (if v = s then Some (d - 1) else get t v)" for v
    using d(1) by (simp add: get_put)
  have "\<exists>d'. get ?t v = Some d' \<and> count_list ss v \<le> d'" if "v \<in> set ss" for v
    using Cons.prems[of v] that d unfolding gt by (auto split: if_splits)
  from Cons.IH[OF this, of ?q] obtain t' fresh where
    f: "fold (relax_with get put) ss (?t, ?q) = (t', ?q @ fresh)"
      "\<forall>v. get t' v = map_option (\<lambda>d. d - count_list ss v) (get ?t v)" "distinct fresh"
      "set fresh = {v \<in> set ss. get ?t v = Some (count_list ss v)}"
    by blast
  let ?fresh = "if d - 1 = 0 then s # fresh else fresh"
  have "fold (relax_with get put) (s # ss) (t, q) = (t', q @ ?fresh)"
    using f(1) d(1) by (simp add: relax_with_def)
  moreover have none: "s \<notin> set ss" if "d - 1 = 0"
    using d(2) that by (simp add: count_list_0_iff[symmetric])
  have "set ?fresh = {v \<in> set (s # ss). get t v = Some (count_list (s # ss) v)}"
  proof (rule set_eqI)
    fix v
    have "v \<in> set fresh \<longleftrightarrow> v \<in> set ss \<and> get ?t v = Some (count_list ss v)" using f(4) by simp
    moreover have "s \<in> set ss \<or> count_list ss s = 0" by (simp add: count_list_0_iff)
    ultimately show "v \<in> set ?fresh \<longleftrightarrow> v \<in> {v \<in> set (s # ss). get t v = Some (count_list (s # ss) v)}"
      using d none unfolding gt by (cases "v = s") auto
  qed
  moreover have "distinct ?fresh" using f(3,4) none by auto
  moreover have "\<forall>v. get t' v = map_option (\<lambda>d. d - count_list (s # ss) v) (get t v)"
    using f(2) d unfolding gt by auto
  ultimately show ?case by blast
qed (simp add: map_option.identity[unfolded id_def])

lemma kahn_step:
  assumes inv: "kahn_inv get V ps t (x # rest) ord" and ps: "set ps \<subseteq> V \<times> V"
  shows "\<exists>t' q'. fold (relax_with get put) (succs_of ps x) (t, rest) = (t', q') \<and>
    kahn_inv get V ps t' q' (ord @ [x])"
proof -
  note i = inv[unfolded kahn_inv_def]
  let ?ss = "succs_of ps x"
  have x: "x \<notin> set ord" "x \<in> V" "waiting_on ps (set ord) x = 0" using i by auto
  have g: "get t v = (if v \<in> V then Some (waiting_on ps (set ord) v) else None)" for v using i by blast
  have w: "waiting_on ps (set (ord @ [x])) v + count_list ?ss v = waiting_on ps (set ord) v" for v
    using waiting_on_insert[OF x(1)] by simp
  have ss: "v \<in> V" if "v \<in> set ?ss" for v using that ps by (auto simp: succs_of_def)
  have "\<exists>d. get t v = Some d \<and> count_list ?ss v \<le> d" if "v \<in> set ?ss" for v
    using ss[OF that] g w[of v] by (auto intro: le_add2 simp flip: w)
  from relax_all[OF this, of rest] obtain t' fresh where
    f: "fold (relax_with get put) ?ss (t, rest) = (t', rest @ fresh)"
      "\<And>v. get t' v = map_option (\<lambda>d. d - count_list ?ss v) (get t v)" "distinct fresh"
      "set fresh = {v \<in> set ?ss. get t v = Some (count_list ?ss v)}"
    by blast
  have fresh: "v \<in> set fresh \<longleftrightarrow> v \<in> V \<and> waiting_on ps (set ord) v \<noteq> 0 \<and> waiting_on ps (set (ord @ [x])) v = 0" for v
    using f(4) ss g w[of v] count_list_0_iff[of ?ss v] by (auto split: if_splits)
  have old: "v \<in> set ((ord @ [x]) @ rest) \<longleftrightarrow> v \<in> V \<and> waiting_on ps (set ord) v = 0" for v
    using i by auto
  have "get t' v = (if v \<in> V then Some (waiting_on ps (set (ord @ [x])) v) else None)" for v
    using f(2)[of v] g[of v] w[of v] by (simp split: if_splits)
  moreover have "v \<in> set ((ord @ [x]) @ rest @ fresh) \<longleftrightarrow> v \<in> V \<and> waiting_on ps (set (ord @ [x])) v = 0" for v
    using old[of v] fresh[of v] w[of v] by auto
  moreover have "distinct ((ord @ [x]) @ rest @ fresh)"
  proof -
    have "set ((ord @ [x]) @ rest) \<inter> set fresh = {}" using fresh old by fastforce
    then show ?thesis using i f(3) by auto
  qed
  moreover have "topo_prefix ps (ord @ [x])"
    using i x(3) by (auto simp: topo_prefix_snoc waiting_on_0)
  ultimately have "kahn_inv get V ps t' (rest @ fresh) (ord @ [x])"
    unfolding kahn_inv_def by auto
  then show ?thesis using f(1) by blast
qed

end

text \<open>The two tables: a vector indexed by node, and a map.\<close>

interpretation vec: degrees nth_opt list_update
  by unfold_locales (auto simp: nth_opt_def nth_list_update split: if_splits)

definition put_degree :: "('n \<rightharpoonup> nat) \<Rightarrow> 'n \<Rightarrow> nat \<Rightarrow> ('n \<rightharpoonup> nat)" where
  "put_degree t v d = t(v \<mapsto> d)"

interpretation tab: degrees "\<lambda>t :: 'n \<rightharpoonup> nat. t" put_degree
  by unfold_locales (simp add: put_degree_def)

end
