(* ===== verification/Buffer_Lifetimes.thy ===== *)
theory Buffer_Lifetimes
  imports Kahn
begin

text \<open>
  Buffer lifetime planning (\<open>prism-ecs-runtime/src/buffer_lifetime_plan.rs\<close>): Kahn's algorithm
  over the dataflow graph of a layer, the alloc and free epoch of every value, the plan of a
  buffer that several graphs name, and the size of a dispatch's scratch buffer. The graph is what
  the methods of \<open>DataflowGraphView\<close> return; the main loop of the sort is a
  \<open>partial_function\<close> whose value \<^const>\<open>None\<close> is a panic or a loop that does not end, so that a
  value \<open>Some r\<close> says that the sort returns.
\<close>

subsection \<open>The graph a layer shows\<close>

record dataflow_node =
  df_id :: nat
  df_outputs :: "string list"

record dataflow_edge =
  df_producer :: nat
  df_consumer :: nat
  df_value :: string

record dataflow_graph =
  df_nodes :: "dataflow_node list"
  df_edges :: "dataflow_edge list"

subsection \<open>Kahn's algorithm\<close>

definition sat_add64 :: "nat \<Rightarrow> nat \<Rightarrow> nat" where
  "sat_add64 a b = min (a + b) (2 ^ 64 - 1)"

definition count_edge :: "nat \<Rightarrow> dataflow_edge \<Rightarrow> nat list \<times> nat list list \<Rightarrow> nat list \<times> nat list list" where
  "count_edge n e = (\<lambda>(deg, adj).
     if df_producer e < n \<and> df_consumer e < n then
       (deg[df_consumer e := sat_add64 (deg ! df_consumer e) 1],
        adj[df_producer e := adj ! df_producer e @ [df_consumer e]])
     else (deg, adj))"

definition relax_succ :: "nat \<Rightarrow> nat list \<times> nat list \<Rightarrow> nat list \<times> nat list" where
  "relax_succ succ = (\<lambda>(deg, queue).
     case nth_opt deg succ of
       None \<Rightarrow> (deg, queue)
     | Some d \<Rightarrow> (deg[succ := d - 1], if d - 1 = 0 then queue @ [succ] else queue))"

partial_function (option) kahn_loop ::
  "nat list list \<Rightarrow> nat list \<Rightarrow> nat list \<Rightarrow> (nat \<rightharpoonup> nat) \<Rightarrow> nat \<Rightarrow> ((nat \<rightharpoonup> nat) \<times> nat) option" where
  "kahn_loop adj deg queue rank epoch =
     (case queue of
        [] \<Rightarrow> Some (rank, epoch)
      | node # rest \<Rightarrow>
          (case nth_opt adj node of
             None \<Rightarrow> None
           | Some succs \<Rightarrow>
               kahn_loop adj (fst (fold relax_succ succs (deg, rest)))
                 (snd (fold relax_succ succs (deg, rest))) (rank(node \<mapsto> epoch)) (sat_add64 epoch 1)))"

definition rank_missing :: "nat \<Rightarrow> (nat \<rightharpoonup> nat) \<times> nat \<Rightarrow> (nat \<rightharpoonup> nat) \<times> nat" where
  "rank_missing i = (\<lambda>(rank, epoch).
     if rank i = None then (rank(i \<mapsto> epoch), sat_add64 epoch 1) else (rank, epoch))"

definition topological_sort :: "dataflow_graph \<Rightarrow> (nat \<rightharpoonup> nat) option" where
  "topological_sort g =
     (let n = length (df_nodes g) in
      if n = 0 then Some Map.empty
      else let (deg, adj) = fold (count_edge n) (df_edges g) (replicate n 0, replicate n []);
               queue = map fst (filter (\<lambda>(i, d). d = 0) (enumerate 0 deg))
           in map_option (\<lambda>s. fst (fold rank_missing [0..<n] s))
                (kahn_loop adj deg queue Map.empty 0))"

subsection \<open>Lifetimes of the values\<close>

definition consumer_max :: "(nat \<rightharpoonup> nat) \<Rightarrow> dataflow_edge list \<Rightarrow> string \<Rightarrow> nat option" where
  "consumer_max topo es v =
     (case List.map_filter (\<lambda>e. topo (df_consumer e)) (filter (\<lambda>e. df_value e = v) es) of
        [] \<Rightarrow> None
      | c # cs \<Rightarrow> Some (fold max cs c))"

definition value_lifetime :: "bool \<Rightarrow> (nat \<rightharpoonup> nat) \<Rightarrow> dataflow_edge list \<Rightarrow> nat \<Rightarrow> string \<Rightarrow>
    (nat \<times> nat) option" where
  "value_lifetime dbg topo es i v =
     (let producer_epoch = (case topo i of Some r \<Rightarrow> r | None \<Rightarrow> 0);
          latest = (case consumer_max topo es v of None \<Rightarrow> producer_epoch | Some c \<Rightarrow> c)
      in map_option (Pair producer_epoch) (u64_add dbg latest 1))"

fun put_lifetimes :: "bool \<Rightarrow> (nat \<rightharpoonup> nat) \<Rightarrow> dataflow_edge list \<Rightarrow> (nat \<times> string) list \<Rightarrow>
    (string \<rightharpoonup> nat \<times> nat) \<Rightarrow> (string \<rightharpoonup> nat \<times> nat) option" where
  "put_lifetimes dbg topo es [] m = Some m"
| "put_lifetimes dbg topo es ((i, v) # ps) m =
     (case value_lifetime dbg topo es i v of
        None \<Rightarrow> None
      | Some l \<Rightarrow> put_lifetimes dbg topo es ps (m(v \<mapsto> l)))"

definition graph_outputs :: "dataflow_graph \<Rightarrow> (nat \<times> string) list" where
  "graph_outputs g = concat (map (\<lambda>nd. map (Pair (df_id nd)) (df_outputs nd)) (df_nodes g))"

definition compute_value_lifetimes :: "bool \<Rightarrow> dataflow_graph \<Rightarrow> (string \<rightharpoonup> nat \<times> nat) option" where
  "compute_value_lifetimes dbg g =
     (case topological_sort g of
        None \<Rightarrow> None
      | Some topo \<Rightarrow> put_lifetimes dbg topo (df_edges g) (graph_outputs g) Map.empty)"

subsection \<open>Plans of buffers and scratch sizes\<close>

record lifetime_plan =
  alloc_epoch :: nat
  free_epoch :: nat
  causal_death_frontier :: "(nat \<times> nat) option"

definition conservative_lifetime :: "nat \<Rightarrow> lifetime_plan" where
  "conservative_lifetime max_epoch =
     \<lparr>alloc_epoch = 0, free_epoch = sat_add64 max_epoch 1,
      causal_death_frontier = Some (0, sat_add64 max_epoch 2)\<rparr>"

text \<open>\<open>Iterator::min_by_key\<close> keeps the first of several minima.\<close>

fun min_by_free :: "(nat \<times> nat) list \<Rightarrow> (nat \<times> nat) option" where
  "min_by_free [] = None"
| "min_by_free (l # ls) =
     (case min_by_free ls of
        None \<Rightarrow> Some l
      | Some k \<Rightarrow> if snd l \<le> snd k then Some l else Some k)"

definition lifetime_for_named_buffer :: "string \<Rightarrow> (string \<rightharpoonup> nat \<times> nat) list \<Rightarrow> nat \<Rightarrow> lifetime_plan" where
  "lifetime_for_named_buffer name lifetimes max_epoch =
     (case min_by_free (List.map_filter (\<lambda>m. m name) lifetimes) of
        Some (a, f) \<Rightarrow>
          \<lparr>alloc_epoch = a, free_epoch = f,
           causal_death_frontier = (if f < 2 ^ 64 - 1 then Some (0, f + 1) else None)\<rparr>
      | None \<Rightarrow> conservative_lifetime max_epoch)"

record scratch_policy =
  scratch_factor :: nat
  scratch_factor_denominator :: nat
  min_scratch_bytes :: nat
  fixed_scratch_bytes :: "nat option"

definition default_scratch_policy :: scratch_policy where
  "default_scratch_policy = \<lparr>scratch_factor = 1, scratch_factor_denominator = 4,
     min_scratch_bytes = 2 ^ 20, fixed_scratch_bytes = None\<rparr>"

text \<open>A product of \<open>u128\<close> values: overflow panics in a build with overflow checks.\<close>

definition u128_mul :: "bool \<Rightarrow> nat \<Rightarrow> nat \<Rightarrow> nat option" where
  "u128_mul dbg a b =
     (if a * b < 2 ^ 128 then Some (a * b) else if dbg then None else Some (a * b mod 2 ^ 128))"

definition scratch_compute :: "bool \<Rightarrow> scratch_policy \<Rightarrow> nat \<Rightarrow> nat option" where
  "scratch_compute dbg p unique_graph_values =
     (case fixed_scratch_bytes p of
        Some fixed \<Rightarrow> Some fixed
      | None \<Rightarrow>
          Option.bind (u128_mul dbg (max unique_graph_values 1) (scratch_factor p)) (\<lambda>a.
          map_option (\<lambda>b.
              let raw = b div max (scratch_factor_denominator p) 1;
                  ceil = max raw (min_scratch_bytes p)
              in if ceil < 2 ^ 64 then ceil else 2 ^ 64 - 1)
            (u128_mul dbg a (min_scratch_bytes p))))"

subsection \<open>The counting pass\<close>

text \<open>The edges the pass counts: both ends are indices of nodes.\<close>

definition live_edges :: "nat \<Rightarrow> dataflow_edge list \<Rightarrow> (nat \<times> nat) list" where
  "live_edges n es = map (\<lambda>e. (df_producer e, df_consumer e))
     (filter (\<lambda>e. df_producer e < n \<and> df_consumer e < n) es)"

lemma sat_add64_Suc [simp]: "e < 2 ^ 64 - 1 \<Longrightarrow> sat_add64 e (Suc 0) = Suc e"
  by (simp add: sat_add64_def)

definition graph_fits :: "dataflow_graph \<Rightarrow> bool" where
  "graph_fits g \<longleftrightarrow> length (df_nodes g) < 2 ^ 63 \<and> length (df_edges g) < 2 ^ 63"

lemma length_live_edges: "length (live_edges n es) \<le> length es"
  by (simp add: live_edges_def)

lemma live_edges_snoc:
  "live_edges n (es @ [e]) = live_edges n es @
     (if df_producer e < n \<and> df_consumer e < n then [(df_producer e, df_consumer e)] else [])"
  by (simp add: live_edges_def)

lemma count_edges:
  assumes "length es < 2 ^ 63"
  shows "fold (count_edge n) es (replicate n 0, replicate n []) =
    (map (waiting_on (live_edges n es) {}) [0..<n], map (succs_of (live_edges n es)) [0..<n])"
  using assms
proof (induction es rule: rev_induct)
  case Nil
  then show ?case
    by (simp add: waiting_on_def succs_of_def live_edges_def map_replicate_const)
next
  case (snoc e es)
  have "waiting_on (live_edges n es) {} v < 2 ^ 64 - 1" for v
    using waiting_on_le[of "live_edges n es" "{}" v] length_live_edges[of n es] snoc.prems by simp
  then show ?case
    using snoc by (auto simp: count_edge_def edge_snoc live_edges_snoc nth_list_update intro!: nth_equalityI)
qed

subsection \<open>The main loop\<close>

lemma relax_succ_eq: "relax_succ = relax_with nth_opt list_update"
  by (auto simp: fun_eq_iff relax_succ_def relax_with_def)

text \<open>The rank map of a sequence of nodes.\<close>

definition ranks_of :: "(nat \<rightharpoonup> nat) \<Rightarrow> nat list \<Rightarrow> bool" where
  "ranks_of r ord \<longleftrightarrow> dom r = set ord \<and> (\<forall>k < length ord. r (ord ! k) = Some k)"

lemma ranks_of_snoc:
  assumes "ranks_of r ord" "x \<notin> set ord"
  shows "ranks_of (r(x \<mapsto> length ord)) (ord @ [x])"
  using assms by (auto simp: ranks_of_def nth_append less_Suc_eq)

lemma ranks_of_less: "ranks_of r ord \<Longrightarrow> r x = Some a \<Longrightarrow> a < length ord"
  unfolding ranks_of_def by (metis domI in_set_conv_nth option.inject)

lemma ranks_of_Some: "ranks_of r ord \<Longrightarrow> x \<in> set ord \<Longrightarrow> \<exists>a < length ord. r x = Some a"
  by (metis in_set_conv_nth ranks_of_def)

lemma kahn_loop_returns:
  assumes "kahn_inv nth_opt {..<n} ps deg q ord" "ranks_of r ord" "set ps \<subseteq> {..<n} \<times> {..<n}" "n < 2 ^ 63"
  shows "\<exists>r' ord' deg'. kahn_loop (map (succs_of ps) [0..<n]) deg q r (length ord) = Some (r', length ord') \<and>
    ranks_of r' ord' \<and> kahn_inv nth_opt {..<n} ps deg' [] ord'"
  using assms
proof (induction "n - length ord" arbitrary: deg q r ord rule: less_induct)
  case less
  show ?case
  proof (cases q)
    case Nil
    then show ?thesis using less.prems(1,2) by (subst kahn_loop.simps) auto
  next
    case (Cons x rest)
    obtain deg' q' where f: "fold (relax_with nth_opt list_update) (succs_of ps x) (deg, rest) = (deg', q')"
        and inv: "kahn_inv nth_opt {..<n} ps deg' q' (ord @ [x])"
      using vec.kahn_step less.prems(1,3) Cons by blast
    have l: "length ord < n" and x: "x < n" "x \<notin> set ord"
      using kahn_inv_length[OF less.prems(1)] less.prems(1) Cons by (auto simp: kahn_inv_def)
    have "kahn_loop (map (succs_of ps) [0..<n]) deg q r (length ord) =
        kahn_loop (map (succs_of ps) [0..<n]) deg' q' (r(x \<mapsto> length ord)) (length (ord @ [x]))"
      using Cons f x l less.prems(4) by (subst kahn_loop.simps) (simp add: nth_opt_def relax_succ_eq)
    then show ?thesis
      using less.hyps[OF _ inv ranks_of_snoc[OF less.prems(2) x(2)] less.prems(3,4)] l by simp
  qed
qed

lemma fold_rank_missing:
  assumes "ranks_of r ord" "length ord + length is < 2 ^ 64 - 1" "distinct is"
  shows "\<exists>r'. fold rank_missing is (r, length ord) = (r', length (ord @ filter (\<lambda>i. i \<notin> set ord) is)) \<and>
    ranks_of r' (ord @ filter (\<lambda>i. i \<notin> set ord) is) \<and> r \<subseteq>\<^sub>m r'"
  using assms
proof (induction "is" arbitrary: r ord)
  case (Cons i js)
  show ?case
  proof (cases "i \<in> set ord")
    case True
    then have "r i \<noteq> None" using Cons.prems(1) by (auto simp: ranks_of_def)
    then show ?thesis using Cons.IH[OF Cons.prems(1)] Cons.prems(2,3) True
      by (auto simp: rank_missing_def)
  next
    case False
    then have new: "r i = None" using Cons.prems(1) by (auto simp: ranks_of_def)
    have other: "filter (\<lambda>k. k \<notin> set (ord @ [i])) js = filter (\<lambda>k. k \<notin> set ord) js"
      using Cons.prems(3) by (intro filter_cong) auto
    have "ranks_of (r(i \<mapsto> length ord)) (ord @ [i])" using Cons.prems(1) False by (rule ranks_of_snoc)
    from Cons.IH[OF this] obtain r' where
      "fold rank_missing js (r(i \<mapsto> length ord), length (ord @ [i])) =
         (r', length ((ord @ [i]) @ filter (\<lambda>k. k \<notin> set ord) js))"
      "ranks_of r' ((ord @ [i]) @ filter (\<lambda>k. k \<notin> set ord) js)" "r(i \<mapsto> length ord) \<subseteq>\<^sub>m r'"
      using Cons.prems(2,3) unfolding other by (simp del: fun_upd_apply) blast
    moreover have "r \<subseteq>\<^sub>m r'" using calculation(3) new
      by (auto simp: map_le_def split: if_splits) (metis domI option.distinct(1))
    moreover have "rank_missing i (r, length ord) = (r(i \<mapsto> length ord), length (ord @ [i]))"
      using new Cons.prems(2) by (simp add: rank_missing_def)
    ultimately show ?thesis using False by simp
  qed
qed auto

definition graph_links :: "dataflow_graph \<Rightarrow> (nat \<times> nat) set" where
  "graph_links g = set (live_edges (length (df_nodes g)) (df_edges g))"

lemma topological_sort_order:
  assumes "graph_fits g"
  shows "\<exists>r ord S. topological_sort g = Some r \<and> ranks_of r ord \<and> distinct ord \<and>
    set ord = {..<length (df_nodes g)} \<and>
    (\<forall>u v. (u, v) \<in> graph_links g \<and> v \<in> S \<longrightarrow> (\<exists>a b. r u = Some a \<and> r v = Some b \<and> a < b)) \<and>
    (\<forall>v < length (df_nodes g). (\<forall>w. (w, v) \<in> (graph_links g)\<^sup>* \<longrightarrow> (w, w) \<notin> (graph_links g)\<^sup>+) \<longrightarrow> v \<in> S)"
proof (cases "df_nodes g = []")
  case True
  have "ranks_of Map.empty []" by (simp add: ranks_of_def)
  then show ?thesis using True
    by (intro exI[of _ Map.empty] exI[of _ "[]"] exI[of _ "{}"])
      (simp add: topological_sort_def)
next
  case False
  let ?n = "length (df_nodes g)" and ?ps = "live_edges (length (df_nodes g)) (df_edges g)"
  let ?deg = "map (waiting_on ?ps {}) [0..<?n]" and ?adj = "map (succs_of ?ps) [0..<?n]"
  let ?q = "map fst (filter (\<lambda>(i, d). d = 0) (enumerate 0 ?deg))"
  have n: "?n < 2 ^ 63" using assms by (simp add: graph_fits_def)
  have init: "fold (count_edge ?n) (df_edges g) (replicate ?n 0, replicate ?n []) = (?deg, ?adj)"
    using assms count_edges by (simp add: graph_fits_def)
  have ps: "set ?ps \<subseteq> {..<?n} \<times> {..<?n}" by (auto simp: live_edges_def)
  have "kahn_inv nth_opt {..<?n} ?ps ?deg ?q []"
  proof (rule kahn_queue_start)
    show "distinct ?q" by (rule distinct_map_filter) simp
    show "set ?q = {v \<in> {..<?n}. waiting_on ?ps {} v = 0}"
      by (auto simp: set_enumerate0 image_iff)
  qed (simp add: nth_opt_def)
  moreover have "ranks_of Map.empty []" by (simp add: ranks_of_def)
  ultimately obtain r ord deg' where loop: "kahn_loop ?adj ?deg ?q Map.empty 0 = Some (r, length ord)"
      and r: "ranks_of r ord" and inv: "kahn_inv nth_opt {..<?n} ?ps deg' [] ord"
    using kahn_loop_returns[OF _ _ ps n, of ?deg ?q "[]" Map.empty] by auto
  have o: "distinct ord" "set ord \<subseteq> {..<?n}" "topo_prefix ?ps ord" using inv by (auto simp: kahn_inv_def)
  have "length ord \<le> ?n" using kahn_inv_length[OF inv] by simp
  then obtain r' where fill: "fold rank_missing [0..<?n] (r, length ord) =
        (r', length (ord @ filter (\<lambda>i. i \<notin> set ord) [0..<?n]))"
      and r': "ranks_of r' (ord @ filter (\<lambda>i. i \<notin> set ord) [0..<?n])" "r \<subseteq>\<^sub>m r'"
    using fold_rank_missing[OF r, of "[0..<?n]"] n by auto
  have "topological_sort g = Some r'"
    using False init loop fill by (simp add: topological_sort_def)
  moreover have "\<exists>a b. r' u = Some a \<and> r' v = Some b \<and> a < b"
    if uv: "(u, v) \<in> graph_links g" "v \<in> set ord" for u v
  proof -
    obtain i j where ij: "i < j" "j < length ord" "ord ! i = u" "ord ! j = v"
      using topo_prefix_before[OF o(3), of u v] uv unfolding graph_links_def by blast
    then have "r u = Some i" "r v = Some j" using r by (auto simp: ranks_of_def)
    then show ?thesis using ij(1) r'(2) unfolding map_le_def by (metis domI)
  qed
  moreover have "v \<in> set ord"
    if "v < ?n" "\<forall>w. (w, v) \<in> (graph_links g)\<^sup>* \<longrightarrow> (w, w) \<notin> (graph_links g)\<^sup>+" for v
    using kahn_inv_end[OF inv ps, of v] that by (simp add: graph_links_def)
  moreover have "distinct (ord @ filter (\<lambda>i. i \<notin> set ord) [0..<?n])"
    "set (ord @ filter (\<lambda>i. i \<notin> set ord) [0..<?n]) = {..<?n}"
    using o(1,2) by auto
  ultimately show ?thesis using r'(1)
    by (intro exI[of _ r'] exI[of _ "ord @ filter (\<lambda>i. i \<notin> set ord) [0..<?n]"] exI[of _ "set ord"] conjI)
      simp_all
qed

lemma graph_links_bound:
  "(u, v) \<in> graph_links g \<Longrightarrow> u < length (df_nodes g) \<and> v < length (df_nodes g)"
  by (auto simp: graph_links_def live_edges_def)

text \<open>The topological sort returns for every graph, cyclic ones included, and its ranks are a
  numbering of the nodes: every node has a rank, no two share one, and the ranks are
  \<open>0, ..., n - 1\<close>.
\<close>

theorem topological_sort_numbers:
  assumes "graph_fits g"
  shows "\<exists>r. topological_sort g = Some r \<and> dom r = {..<length (df_nodes g)} \<and> inj_on r (dom r) \<and>
    ran r = {..<length (df_nodes g)}"
proof -
  obtain r ord where r: "topological_sort g = Some r" "ranks_of r ord" "distinct ord"
      "set ord = {..<length (df_nodes g)}"
    using topological_sort_order[OF assms] by blast
  have l: "length ord = length (df_nodes g)" using r(3,4) by (metis card_lessThan distinct_card)
  have at: "\<And>k. k < length ord \<Longrightarrow> r (ord ! k) = Some k" and d: "dom r = set ord"
    using r(2) by (auto simp: ranks_of_def)
  have "inj_on r (set ord)"
    by (rule inj_onI) (metis at in_set_conv_nth option.inject)
  moreover have "ran r = {..<length ord}"
    using at d ranks_of_less[OF r(2)] by (auto simp: ran_def)
  ultimately show ?thesis using r d l by auto
qed

definition loop_graph :: dataflow_graph where
  "loop_graph = \<lparr>df_nodes = [\<lparr>df_id = 0, df_outputs = [''a'']\<rparr>, \<lparr>df_id = 1, df_outputs = [''b'']\<rparr>,
       \<lparr>df_id = 2, df_outputs = [''c'']\<rparr>],
     df_edges = [\<lparr>df_producer = 0, df_consumer = 1, df_value = ''a''\<rparr>,
       \<lparr>df_producer = 1, df_consumer = 2, df_value = ''b''\<rparr>,
       \<lparr>df_producer = 2, df_consumer = 0, df_value = ''c''\<rparr>]\<rparr>"

theorem topological_sort_numbers_witness:
  "\<exists>r. topological_sort loop_graph = Some r \<and> dom r = {..<3} \<and> inj_on r (dom r) \<and> ran r = {..<3}"
  using topological_sort_numbers[of loop_graph] by (simp add: graph_fits_def loop_graph_def numeral_3_eq_3)

text \<open>A consumer ranks after its producer along every edge into a node that no cycle leads to;
  in an acyclic graph that is every edge between nodes of the graph.
\<close>

theorem topological_sort_respects_edges:
  assumes "graph_fits g" "(u, v) \<in> graph_links g"
    and "\<And>w. (w, v) \<in> (graph_links g)\<^sup>* \<Longrightarrow> (w, w) \<notin> (graph_links g)\<^sup>+"
  shows "\<exists>r a b. topological_sort g = Some r \<and> r u = Some a \<and> r v = Some b \<and> a < b"
proof -
  obtain r S where r: "topological_sort g = Some r"
      and ranked: "\<forall>u v. (u, v) \<in> graph_links g \<and> v \<in> S \<longrightarrow> (\<exists>a b. r u = Some a \<and> r v = Some b \<and> a < b)"
      and closed: "\<forall>v < length (df_nodes g). (\<forall>w. (w, v) \<in> (graph_links g)\<^sup>* \<longrightarrow> (w, w) \<notin> (graph_links g)\<^sup>+) \<longrightarrow> v \<in> S"
    using topological_sort_order[OF assms(1)] by metis
  have "v \<in> S" using closed assms(3) graph_links_bound[OF assms(2)] by blast
  then show ?thesis using r ranked assms(2) by blast
qed

definition chain_graph :: dataflow_graph where
  "chain_graph = loop_graph\<lparr>df_edges := take 2 (df_edges loop_graph)\<rparr>"

lemma chain_links: "graph_links chain_graph = {(0, 1), (1, 2)}"
  by (simp add: graph_links_def live_edges_def chain_graph_def loop_graph_def)

lemma chain_acyclic: "acyclic (graph_links chain_graph)"
  unfolding chain_links by (rule acyclic_subset[OF wf_acyclic[OF wf_less_than]]) auto

theorem topological_sort_respects_edges_witness:
  "\<exists>r a b. topological_sort chain_graph = Some r \<and> r 1 = Some a \<and> r 2 = Some b \<and> a < b"
proof (rule topological_sort_respects_edges)
  show "graph_fits chain_graph" by (simp add: graph_fits_def chain_graph_def loop_graph_def)
  show "(1, 2) \<in> graph_links chain_graph" by (simp add: chain_links)
  show "(w, w) \<notin> (graph_links chain_graph)\<^sup>+" for w
    using chain_acyclic by (simp add: acyclic_def)
qed

subsection \<open>What the lifetimes cover\<close>

lemma fold_max_rank: "fold max cs c = Max (set (c # cs))" for c :: nat
  by (metis Max.set_eq_fold)

lemma consumer_max_None:
  "consumer_max topo es v = None \<longleftrightarrow> (\<forall>e \<in> set es. df_value e = v \<longrightarrow> topo (df_consumer e) = None)"
proof -
  let ?cs = "List.map_filter (\<lambda>e. topo (df_consumer e)) (filter (\<lambda>e. df_value e = v) es)"
  have "consumer_max topo es v = None \<longleftrightarrow> set ?cs = {}"
    by (simp add: consumer_max_def split: list.splits)
  also have "\<dots> \<longleftrightarrow> (\<forall>e \<in> set es. df_value e = v \<longrightarrow> topo (df_consumer e) = None)"
    unfolding set_filter_map set_filter by (auto, metis not_None_eq)
  finally show ?thesis .
qed

lemma consumer_max_Some:
  assumes "consumer_max topo es v = Some c"
  shows "\<exists>e \<in> set es. df_value e = v \<and> topo (df_consumer e) = Some c"
    "\<And>e k. e \<in> set es \<Longrightarrow> df_value e = v \<Longrightarrow> topo (df_consumer e) = Some k \<Longrightarrow> k \<le> c"
proof -
  let ?cs = "List.map_filter (\<lambda>e. topo (df_consumer e)) (filter (\<lambda>e. df_value e = v) es)"
  have ne: "set ?cs \<noteq> {}" and c: "c = Max (set ?cs)"
    using assms by (auto simp: consumer_max_def fold_max_rank split: list.splits)
  have "c \<in> set ?cs" unfolding c using ne by (intro Max_in) auto
  then show "\<exists>e \<in> set es. df_value e = v \<and> topo (df_consumer e) = Some c"
    by (auto simp: set_filter_map)
  fix e k assume "e \<in> set es" "df_value e = v" "topo (df_consumer e) = Some k"
  then have "k \<in> set ?cs" by (auto simp: set_filter_map)
  then show "k \<le> c" unfolding c by simp
qed

lemma put_lifetimes_distinct:
  assumes "distinct (map snd ps)" "\<And>i v. (i, v) \<in> set ps \<Longrightarrow> value_lifetime dbg topo es i v \<noteq> None"
  shows "\<exists>m'. put_lifetimes dbg topo es ps m = Some m' \<and> dom m' = dom m \<union> snd ` set ps \<and>
    (\<forall>v. v \<notin> snd ` set ps \<longrightarrow> m' v = m v) \<and>
    (\<forall>(i, v) \<in> set ps. m' v = value_lifetime dbg topo es i v)"
  using assms
proof (induction ps arbitrary: m)
  case (Cons p ps)
  obtain i v where p: "p = (i, v)" by (cases p)
  obtain l where l: "value_lifetime dbg topo es i v = Some l" using Cons.prems(2)[of i v] p by auto
  have "distinct (map snd ps)" "\<And>i v. (i, v) \<in> set ps \<Longrightarrow> value_lifetime dbg topo es i v \<noteq> None"
    using Cons.prems by auto
  from Cons.IH[OF this, of "m(v \<mapsto> l)"] obtain m' where m':
    "put_lifetimes dbg topo es ps (m(v \<mapsto> l)) = Some m'" "dom m' = dom (m(v \<mapsto> l)) \<union> snd ` set ps"
    "\<forall>w. w \<notin> snd ` set ps \<longrightarrow> m' w = (m(v \<mapsto> l)) w"
    "\<forall>(i, v) \<in> set ps. m' v = value_lifetime dbg topo es i v"
    by blast
  have "v \<notin> snd ` set ps" using Cons.prems(1) p by auto
  then show ?case using m' l p by auto
qed simp

text \<open>
  A well-formed view: nodes carry their indices as ids, every value has one producer, and an edge
  joins the producer of its value to a node of the graph.
\<close>

definition wf_view :: "dataflow_graph \<Rightarrow> bool" where
  "wf_view g \<longleftrightarrow> map df_id (df_nodes g) = [0..<length (df_nodes g)] \<and>
     distinct (map snd (graph_outputs g)) \<and>
     (\<forall>e \<in> set (df_edges g). (df_producer e, df_value e) \<in> set (graph_outputs g) \<and>
        df_consumer e < length (df_nodes g))"

lemma graph_outputs_bound:
  assumes "wf_view g" "(i, v) \<in> set (graph_outputs g)"
  shows "i < length (df_nodes g)"
proof -
  from assms(2) obtain nd where "nd \<in> set (df_nodes g)" "df_id nd = i" by (auto simp: graph_outputs_def)
  then have "i \<in> set (map df_id (df_nodes g))" by auto
  then have "i \<in> set [0..<length (df_nodes g)]" using assms(1) unfolding wf_view_def by metis
  then show ?thesis by simp
qed

lemma acyclic_sort:
  assumes "graph_fits g" "acyclic (graph_links g)"
  shows "\<exists>r. topological_sort g = Some r \<and>
    (\<forall>i < length (df_nodes g). \<exists>a < length (df_nodes g). r i = Some a) \<and>
    (\<forall>u v. (u, v) \<in> graph_links g \<longrightarrow> (\<exists>a b. r u = Some a \<and> r v = Some b \<and> a < b))"
proof -
  obtain r ord S where r: "topological_sort g = Some r" "ranks_of r ord" "distinct ord"
      "set ord = {..<length (df_nodes g)}"
      and ranked: "\<forall>u v. (u, v) \<in> graph_links g \<and> v \<in> S \<longrightarrow> (\<exists>a b. r u = Some a \<and> r v = Some b \<and> a < b)"
      and closed: "\<forall>v < length (df_nodes g). (\<forall>w. (w, v) \<in> (graph_links g)\<^sup>* \<longrightarrow> (w, w) \<notin> (graph_links g)\<^sup>+) \<longrightarrow> v \<in> S"
    using topological_sort_order[OF assms(1)] by metis
  have l: "length ord = length (df_nodes g)" using r(3,4) by (metis card_lessThan distinct_card)
  have "v \<in> S" if "v < length (df_nodes g)" for v
    using closed assms(2) that by (simp add: acyclic_def)
  moreover have "\<exists>a < length (df_nodes g). r i = Some a" if "i < length (df_nodes g)" for i
    using ranks_of_Some[OF r(2), of i] r(4) l that by auto
  ultimately show ?thesis using r(1) ranked graph_links_bound by blast
qed

text \<open>The interval of one value, given ranks that respect the edges.\<close>

definition covers_uses :: "(nat \<rightharpoonup> nat) \<Rightarrow> dataflow_edge list \<Rightarrow> nat \<Rightarrow> string \<Rightarrow> nat \<times> nat \<Rightarrow> bool" where
  "covers_uses r es i v = (\<lambda>(a, f). r i = Some a \<and> a < f \<and>
     (\<forall>e \<in> set es. df_value e = v \<longrightarrow> (\<exists>c. r (df_consumer e) = Some c \<and> a < c \<and> c < f)) \<and>
     (f = a + 1 \<or> (\<exists>e \<in> set es. df_value e = v \<and> r (df_consumer e) = Some (f - 1))))"

lemma value_lifetime_covers:
  assumes i: "r i = Some a" "a < 2 ^ 63"
    and use: "\<And>e. e \<in> set es \<Longrightarrow> df_value e = v \<Longrightarrow> \<exists>c. r (df_consumer e) = Some c \<and> a < c \<and> c < 2 ^ 63"
  shows "\<exists>l. value_lifetime dbg r es i v = Some l \<and> covers_uses r es i v l"
proof (cases "consumer_max r es v")
  case None
  then have "\<forall>e \<in> set es. df_value e \<noteq> v" using use by (fastforce simp: consumer_max_None)
  then show ?thesis using i None by (simp add: value_lifetime_def covers_uses_def)
next
  case (Some c)
  note c = consumer_max_Some[OF this]
  obtain e where e: "e \<in> set es" "df_value e = v" "r (df_consumer e) = Some c" using c(1) by blast
  have ac: "a < c" "c < 2 ^ 63" using use[OF e(1,2)] e(3) by auto
  then have "value_lifetime dbg r es i v = Some (a, c + 1)" using i Some by (simp add: value_lifetime_def)
  moreover have "\<exists>k. r (df_consumer e') = Some k \<and> a < k \<and> k < c + 1"
    if e': "e' \<in> set es" "df_value e' = v" for e'
    using use[OF e'] c(2)[OF e'] by fastforce
  ultimately show ?thesis using i ac e by (auto simp: covers_uses_def)
qed

lemma wf_view_use:
  assumes "wf_view g" "e \<in> set (df_edges g)" "(i, df_value e) \<in> set (graph_outputs g)"
  shows "(i, df_consumer e) \<in> graph_links g"
proof -
  have p: "(df_producer e, df_value e) \<in> set (graph_outputs g)" "df_consumer e < length (df_nodes g)"
    and inj: "inj_on snd (set (graph_outputs g))"
    using assms(1,2) by (auto simp: wf_view_def distinct_map)
  have "i = df_producer e" using inj_onD[OF inj _ assms(3) p(1)] by simp
  then show ?thesis
    using assms(2) p graph_outputs_bound[OF assms(1) p(1)] by (auto simp: graph_links_def live_edges_def)
qed

text \<open>C23: in a well-formed acyclic view every value is live from the rank of its producer until after
  the rank of its last consumer: the alloc epoch is the producer's rank and below the free epoch,
  every consumer ranks strictly between the two, and the free epoch is the least such, one past
  the producer when nobody consumes the value.
\<close>

theorem lifetimes_cover_uses:
  assumes "graph_fits g" "wf_view g" "acyclic (graph_links g)"
  shows "\<exists>r lt. topological_sort g = Some r \<and> compute_value_lifetimes dbg g = Some lt \<and>
    dom lt = snd ` set (graph_outputs g) \<and>
    (\<forall>(i, v) \<in> set (graph_outputs g). \<exists>a f. lt v = Some (a, f) \<and> r i = Some a \<and> a < f \<and>
       (\<forall>e \<in> set (df_edges g). df_value e = v \<longrightarrow> (\<exists>c. r (df_consumer e) = Some c \<and> a < c \<and> c < f)) \<and>
       (f = a + 1 \<or> (\<exists>e \<in> set (df_edges g). df_value e = v \<and> r (df_consumer e) = Some (f - 1))))"
proof -
  obtain r where r: "topological_sort g = Some r"
      and node: "\<forall>i < length (df_nodes g). \<exists>a < length (df_nodes g). r i = Some a"
      and ranked: "\<forall>u v. (u, v) \<in> graph_links g \<longrightarrow> (\<exists>a b. r u = Some a \<and> r v = Some b \<and> a < b)"
    using acyclic_sort[OF assms(1,3)] by metis
  have n: "length (df_nodes g) < 2 ^ 63" using assms(1) by (simp add: graph_fits_def)
  have lt: "\<exists>l. value_lifetime dbg r (df_edges g) i v = Some l \<and> covers_uses r (df_edges g) i v l"
    if i: "(i, v) \<in> set (graph_outputs g)" for i v
  proof -
    obtain a where a: "r i = Some a" "a < length (df_nodes g)"
      using node graph_outputs_bound[OF assms(2) i] by blast
    have "\<exists>c. r (df_consumer e) = Some c \<and> a < c \<and> c < 2 ^ 63"
      if "e \<in> set (df_edges g)" "df_value e = v" for e
    proof -
      have l: "(i, df_consumer e) \<in> graph_links g" using wf_view_use[OF assms(2)] that i by simp
      then obtain c where "r (df_consumer e) = Some c" "a < c" using ranked a(1) by fastforce
      moreover from this have "c < length (df_nodes g)" using node graph_links_bound[OF l] by fastforce
      ultimately show ?thesis using n by simp
    qed
    then show ?thesis using value_lifetime_covers[of r i a] a n by simp
  qed
  have "distinct (map snd (graph_outputs g))" using assms(2) by (simp add: wf_view_def)
  from put_lifetimes_distinct[OF this, of dbg r "df_edges g" Map.empty] obtain m where
    m: "put_lifetimes dbg r (df_edges g) (graph_outputs g) Map.empty = Some m"
      "dom m = snd ` set (graph_outputs g)"
      "\<forall>(i, v) \<in> set (graph_outputs g). m v = value_lifetime dbg r (df_edges g) i v"
    using lt by fastforce
  have "\<forall>(i, v) \<in> set (graph_outputs g). \<exists>l. m v = Some l \<and> covers_uses r (df_edges g) i v l"
    using m(3) lt by fastforce
  moreover have "compute_value_lifetimes dbg g = Some m"
    using r m(1) by (simp add: compute_value_lifetimes_def)
  ultimately show ?thesis using r m(2) by (fastforce simp: covers_uses_def)
qed

theorem lifetimes_cover_uses_witness:
  "\<exists>r lt. topological_sort chain_graph = Some r \<and> compute_value_lifetimes True chain_graph = Some lt \<and>
     dom lt = {''a'', ''b'', ''c''} \<and> (\<exists>a f. lt ''a'' = Some (a, f) \<and> r 0 = Some a \<and> a < f)"
proof -
  have "graph_fits chain_graph" "wf_view chain_graph"
    by (auto simp: graph_fits_def wf_view_def graph_outputs_def chain_graph_def loop_graph_def)
  moreover have "set (graph_outputs chain_graph) = {(0, ''a''), (1, ''b''), (2, ''c'')}"
    by (auto simp: graph_outputs_def chain_graph_def loop_graph_def)
  ultimately show ?thesis
    using lifetimes_cover_uses[of chain_graph True] chain_acyclic by fastforce
qed

definition twice_graph :: dataflow_graph where
  "twice_graph = \<lparr>df_nodes = [\<lparr>df_id = 0, df_outputs = [''a'']\<rparr>, \<lparr>df_id = 1, df_outputs = []\<rparr>,
       \<lparr>df_id = 2, df_outputs = [''a'']\<rparr>],
     df_edges = [\<lparr>df_producer = 0, df_consumer = 2, df_value = ''x''\<rparr>,
       \<lparr>df_producer = 0, df_consumer = 1, df_value = ''a''\<rparr>,
       \<lparr>df_producer = 1, df_consumer = 2, df_value = ''y''\<rparr>]\<rparr>"

lemma kahn_loop_simps [simp]:
  "kahn_loop adj deg [] r e = Some (r, e)"
  "kahn_loop adj deg (x # q) r e = (case nth_opt adj x of None \<Rightarrow> None | Some succs \<Rightarrow>
     kahn_loop adj (fst (fold relax_succ succs (deg, q))) (snd (fold relax_succ succs (deg, q)))
       (r(x \<mapsto> e)) (sat_add64 e 1))"
  by (subst kahn_loop.simps, simp)+

lemma sat_add64_small:
  "sat_add64 0 (Suc 0) = Suc 0" "sat_add64 (Suc 0) (Suc 0) = Suc (Suc 0)"
  "sat_add64 (Suc (Suc 0)) (Suc 0) = Suc (Suc (Suc 0))"
  by simp_all

lemmas sort_eval = topological_sort_def count_edge_def rank_missing_def relax_succ_def nth_opt_def
  sat_add64_small numeral_2_eq_2 numeral_3_eq_3

lemma loop_sort: "topological_sort loop_graph = Some [0 \<mapsto> 0, 1 \<mapsto> 1, 2 \<mapsto> 2]"
  by (simp add: loop_graph_def sort_eval fun_eq_iff del: sat_add64_Suc)

lemma twice_sort: "topological_sort twice_graph = Some [0 \<mapsto> 0, 1 \<mapsto> 1, 2 \<mapsto> 2]"
  by (simp add: twice_graph_def sort_eval fun_eq_iff del: sat_add64_Suc)

text \<open>The sort ranks the nodes of a cycle in index order, so a value that closes the cycle is
  freed before it is allocated: of the cycle \<open>0, 1, 2\<close> the value of node 2, consumed by node 0,
  gets the interval from 2 to 1. Two nodes that name the same output leave one interval, the
  last producer's, which excludes the first one's consumer.
\<close>

theorem lifetimes_empty_intervals:
  "map_option (\<lambda>lt. lt ''c'') (compute_value_lifetimes dbg loop_graph) = Some (Some (2, 1)) \<and>
   map_option (\<lambda>lt. lt ''a'') (compute_value_lifetimes dbg twice_graph) = Some (Some (2, 2))"
  unfolding compute_value_lifetimes_def loop_sort twice_sort
  by (simp add: graph_outputs_def value_lifetime_def
      consumer_max_def List.map_filter_simps loop_graph_def twice_graph_def)

lemma min_by_free_None: "min_by_free ls = None \<longleftrightarrow> ls = []"
  by (cases ls) (auto split: option.splits)

lemma min_by_free_Some:
  "min_by_free ls = Some l \<Longrightarrow> l \<in> set ls \<and> (\<forall>k \<in> set ls. snd l \<le> snd k)"
proof (induction ls arbitrary: l)
  case (Cons x xs)
  then show ?case
    by (cases "min_by_free xs") (auto simp: min_by_free_None split: if_splits)
qed simp

text \<open>The plan of a buffer that several graphs name is the interval of one of them, the first
  with the least free epoch, even when another graph still uses the buffer after it; a buffer no
  graph names is live for the whole epoch span.
\<close>

theorem named_buffer_plan:
  assumes "m \<in> set lts" "m name = Some (a, f)"
  shows "let p = lifetime_for_named_buffer name lts mx in
    (\<exists>m' \<in> set lts. m' name = Some (alloc_epoch p, free_epoch p)) \<and> free_epoch p \<le> f \<and>
    (causal_death_frontier p = None \<longleftrightarrow> free_epoch p \<ge> 2 ^ 64 - 1)"
proof -
  let ?ls = "List.map_filter (\<lambda>m. m name) lts"
  have ls: "(a, f) \<in> set ?ls" using assms by (auto simp: set_filter_map)
  then obtain b g where bg: "min_by_free ?ls = Some (b, g)"
    by (metis empty_iff empty_set min_by_free_None not_None_eq prod.exhaust)
  have "(b, g) \<in> set ?ls" "g \<le> f" using min_by_free_Some[OF bg] ls by auto
  then show ?thesis
    using bg by (auto simp: lifetime_for_named_buffer_def set_filter_map Let_def)
qed

theorem named_buffer_plan_witness:
  "free_epoch (lifetime_for_named_buffer ''q'' [[''q'' \<mapsto> (2, 10)], [''q'' \<mapsto> (3, 7)]] 100) \<le> 10"
  using named_buffer_plan[of "[''q'' \<mapsto> (2, 10)]" "[[''q'' \<mapsto> (2, 10)], [''q'' \<mapsto> (3, 7)]]" "''q''" 2 10 100]
  by (auto simp: Let_def)

text \<open>A scratch buffer has the scaled size, at least the minimum and at most \<open>u64::MAX\<close>, as long
  as the product fits \<open>u128\<close>. Beyond that a build with overflow checks panics, and a release
  build scales the wrapped product, which only the minimum bounds from below.
\<close>

theorem scratch_compute_size:
  assumes "fixed_scratch_bytes p = None" "u < 2 ^ 64" "scratch_factor p < 2 ^ 32" "min_scratch_bytes p < 2 ^ 64"
  defines "raw \<equiv> max u 1 * scratch_factor p * min_scratch_bytes p"
  shows "(if raw < 2 ^ 128
      then scratch_compute dbg p u =
        Some (min (max (raw div max (scratch_factor_denominator p) 1) (min_scratch_bytes p)) (2 ^ 64 - 1))
      else scratch_compute True p u = None \<and>
        (\<exists>b. scratch_compute False p u = Some b \<and> min_scratch_bytes p \<le> b \<and> b < 2 ^ 64))"
proof -
  have "max u 1 * scratch_factor p < 2 ^ 64 * 2 ^ 32"
    using assms(2,3) by (intro mult_strict_mono') auto
  then have "max u 1 * scratch_factor p < 2 ^ 128" by simp
  then have a: "u128_mul d (max u 1) (scratch_factor p) = Some (max u 1 * scratch_factor p)" for d
    by (simp add: u128_mul_def)
  show ?thesis
    using assms(1,4) unfolding scratch_compute_def a raw_def
    by (auto simp: u128_mul_def Let_def)
qed

theorem scratch_compute_size_witness:
  "scratch_compute True default_scratch_policy 100 = Some (25 * 2 ^ 20)"
  using scratch_compute_size[of default_scratch_policy 100 True]
  by (simp add: default_scratch_policy_def)

text \<open>A graph that is too large for \<open>u128\<close> gets the minimum, less than a graph half its size.\<close>

definition wide_policy :: scratch_policy where
  "wide_policy = \<lparr>scratch_factor = 2 ^ 31, scratch_factor_denominator = 1,
     min_scratch_bytes = 2 ^ 34, fixed_scratch_bytes = None\<rparr>"

lemma scratch_wraps:
  "scratch_compute False wide_policy (2 ^ 63) = Some (2 ^ 34) \<and>
   scratch_compute False wide_policy (2 ^ 62) = Some (2 ^ 64 - 1) \<and>
   scratch_compute True wide_policy (2 ^ 63) = None"
  by (simp add: scratch_compute_def wide_policy_def u128_mul_def)

end
