(* ===== verification/Tick_Schedule.thy ===== *)
theory Tick_Schedule
  imports Kernel_Submit Kahn
begin

text \<open>
  The schedule of a tick (\<open>schedule.rs\<close>, \<open>RuntimeSchedule\<close>): registration of systems, validation
  (missing dependencies, cycles, dependencies on later stages, write conflicts), the schedule hash
  and the order in which a stage runs its systems. The depth-first search and Kahn's loop are partial
  functions: \<^const>\<open>None\<close> is a panic or a search that does not end.
\<close>

subsection \<open>Systems and stages\<close>

datatype system_stage = ObserveStage | PlanStage | AdmitStage | LeaseStage | DispatchStage
  | CollectStage | PublishStage | CleanupStage

text \<open>\<open>stage as u64\<close>, and the derived order.\<close>

fun stage_number :: "system_stage \<Rightarrow> nat" where
  "stage_number ObserveStage = 0"
| "stage_number PlanStage = 1"
| "stage_number AdmitStage = 2"
| "stage_number LeaseStage = 3"
| "stage_number DispatchStage = 4"
| "stage_number CollectStage = 5"
| "stage_number PublishStage = 6"
| "stage_number CleanupStage = 7"

lemma stage_number_inject: "stage_number a = stage_number b \<longleftrightarrow> a = b"
  by (cases a; cases b) simp_all

instantiation system_stage :: linorder
begin

definition less_eq_system_stage :: "system_stage \<Rightarrow> system_stage \<Rightarrow> bool" where
  "less_eq_system_stage a b \<longleftrightarrow> stage_number a \<le> stage_number b"

definition less_system_stage :: "system_stage \<Rightarrow> system_stage \<Rightarrow> bool" where
  "less_system_stage a b \<longleftrightarrow> stage_number a < stage_number b"

instance
  by standard (auto simp: less_eq_system_stage_def less_system_stage_def stage_number_inject)

end

record access =
  ac_namespace :: string
  ac_component :: nat
  ac_write :: bool

record system_spec =
  ss_id :: nat
  ss_name :: string
  ss_stage :: system_stage
  ss_reads :: "access list"
  ss_writes :: "access list"
  ss_dependencies :: "nat list"

record admission_policy =
  max_inflight_tokens :: "32 word"
  max_kv_tokens :: "32 word"
  ap_prefill_chunk_tokens :: "32 word"
  max_prefill_tokens_per_tick :: "32 word"

definition policy_default :: admission_policy where
  "policy_default = \<lparr>max_inflight_tokens = 32 * 1024, max_kv_tokens = 32 * 1024,
     ap_prefill_chunk_tokens = 256, max_prefill_tokens_per_tick = 1024\<rparr>"

definition policy_validate :: "admission_policy \<Rightarrow> bool" where
  "policy_validate p \<longleftrightarrow> max_inflight_tokens p > 0 \<and> max_kv_tokens p > 0 \<and>
     ap_prefill_chunk_tokens p > 0 \<and> max_prefill_tokens_per_tick p > 0"

datatype schedule_error = DuplicateSystemId nat | MissingDependency nat nat | CycleDetected "nat list"
  | ConflictingParallelWrite "(nat \<times> nat \<times> string) list" | InvalidStageDependency nat nat
  | InvalidAdmissionCapacity | InvalidInferencePolicy

text \<open>The two ordered maps are association lists with increasing keys.\<close>

record 'sys runtime_schedule =
  sch_stages :: "system_stage list"
  sch_systems :: "(nat \<times> system_spec) list"
  sch_stage_order :: "(system_stage \<times> nat list) list"
  sch_hash :: "8 word list"
  sch_system_map :: "nat \<rightharpoonup> 'sys"
  stage_timeout_ms :: nat
  admission_capacity :: nat
  inference_policy :: admission_policy

definition schedule_new :: "'sys runtime_schedule" where
  "schedule_new = \<lparr>sch_stages = [ObserveStage, PlanStage, AdmitStage, LeaseStage, DispatchStage,
       CollectStage, PublishStage, CleanupStage],
     sch_systems = [], sch_stage_order = [], sch_hash = replicate 32 0, sch_system_map = Map.empty,
     stage_timeout_ms = 5000, admission_capacity = 32, inference_policy = policy_default\<rparr>"

definition register_spec :: "system_spec \<Rightarrow> 'sys runtime_schedule \<Rightarrow>
    (schedule_error, 'sys runtime_schedule) outcome" where
  "register_spec spec s =
     (if map_of (sch_systems s) (ss_id spec) \<noteq> None then Err (DuplicateSystemId (ss_id spec))
      else Ok (s\<lparr>sch_systems := btree_insert (ss_id spec) spec (sch_systems s),
             sch_stage_order := btree_push (ss_stage spec) (ss_id spec) (sch_stage_order s)\<rparr>))"

definition register_system :: "system_spec \<Rightarrow> 'sys \<Rightarrow> 'sys runtime_schedule \<Rightarrow>
    (schedule_error, 'sys runtime_schedule) outcome" where
  "register_system spec system s =
     and_then (register_spec spec s) (\<lambda>s'. Ok (s'\<lparr>sch_system_map := (sch_system_map s')(ss_id spec \<mapsto> system)\<rparr>))"

definition set_admission_capacity :: "nat \<Rightarrow> 'sys runtime_schedule \<Rightarrow>
    (schedule_error, 'sys runtime_schedule) outcome" where
  "set_admission_capacity capacity s =
     (if capacity = 0 then Err InvalidAdmissionCapacity else Ok (s\<lparr>admission_capacity := capacity\<rparr>))"

definition set_inference_policy :: "admission_policy \<Rightarrow> 'sys runtime_schedule \<Rightarrow>
    (schedule_error, 'sys runtime_schedule) outcome" where
  "set_inference_policy policy s =
     (if \<not> policy_validate policy then Err InvalidInferencePolicy else Ok (s\<lparr>inference_policy := policy\<rparr>))"

subsection \<open>Validation\<close>

definition deps_of :: "(nat \<times> system_spec) list \<Rightarrow> nat \<Rightarrow> nat list" where
  "deps_of sys i = (case map_of sys i of Some spec \<Rightarrow> ss_dependencies spec | None \<Rightarrow> [])"

definition check_known :: "(nat \<times> system_spec) list \<Rightarrow> nat \<times> system_spec \<Rightarrow> (schedule_error, unit) outcome" where
  "check_known sys = (\<lambda>(i, spec). try_each (\<lambda>dep.
     if map_of sys dep = None then Err (MissingDependency i dep) else Ok ()) (ss_dependencies spec))"

text \<open>
  \<open>detect_cycle\<close>, over the systems still to visit from one place: the start, or the dependencies of
  a system. \<open>visited\<close> and \<open>stack\<close> are updated in place; the stack is left as it is when a cycle is
  found.
\<close>

partial_function (option) detect_deps ::
  "(nat \<times> system_spec) list \<Rightarrow> nat list \<Rightarrow> nat set \<Rightarrow> nat list \<Rightarrow> (bool \<times> nat set \<times> nat list) option" where
  "detect_deps sys starts visited stack =
     (case starts of
        [] \<Rightarrow> Some (False, visited, stack)
      | start # rest \<Rightarrow>
          if start \<in> set stack then Some (True, visited, stack @ [start])
          else if start \<in> visited then detect_deps sys rest visited stack
          else Option.bind (detect_deps sys (deps_of sys start) (insert start visited) (stack @ [start])) (\<lambda>r.
            if fst r then Some r else detect_deps sys rest (fst (snd r)) (butlast (snd (snd r)))))"

definition detect_cycle :: "(nat \<times> system_spec) list \<Rightarrow> nat \<Rightarrow> nat set \<Rightarrow> nat list \<Rightarrow>
    (bool \<times> nat set \<times> nat list) option" where
  "detect_cycle sys start visited stack = detect_deps sys [start] visited stack"

definition check_cycle :: "(nat \<times> system_spec) list \<Rightarrow> nat \<Rightarrow> (schedule_error, unit) outcome" where
  "check_cycle sys i = (case detect_cycle sys i {} [] of
     None \<Rightarrow> Panic | Some (found, _, stack) \<Rightarrow> if found then Err (CycleDetected stack) else Ok ())"

text \<open>The map from stages to positions is collected from \<open>stages\<close>: of equal stages the last one counts.\<close>

definition stage_index :: "system_stage list \<Rightarrow> system_stage \<Rightarrow> nat" where
  "stage_index sts s = (case map_of (rev (zip sts [0..<length sts])) s of Some i \<Rightarrow> i | None \<Rightarrow> 0)"

definition check_stages :: "'sys runtime_schedule \<Rightarrow> nat \<times> system_spec \<Rightarrow> (schedule_error, unit) outcome" where
  "check_stages s = (\<lambda>(i, spec). try_each (\<lambda>dep. case map_of (sch_systems s) dep of
       None \<Rightarrow> Ok ()
     | Some dep_spec \<Rightarrow>
         if stage_index (sch_stages s) (ss_stage dep_spec) > stage_index (sch_stages s) (ss_stage spec)
         then Err (InvalidStageDependency i dep) else Ok ()) (ss_dependencies spec))"

definition access_name :: "access \<Rightarrow> string" where
  "access_name a = ac_namespace a @ '':'' @ decimal (ac_component a)"

definition write_conflicts :: "system_spec \<Rightarrow> system_spec \<Rightarrow> (nat \<times> nat \<times> string) list" where
  "write_conflicts a b = concat (map (\<lambda>wa. map (\<lambda>_. (ss_id a, ss_id b, access_name wa))
     (filter (\<lambda>wb. ac_namespace wa = ac_namespace wb \<and> ac_component wa = ac_component wb) (ss_writes b)))
     (ss_writes a))"

definition pair_conflicts :: "(nat \<times> system_spec) list \<Rightarrow> nat \<Rightarrow> nat \<Rightarrow> (nat \<times> nat \<times> string) list option" where
  "pair_conflicts sys i j = (case (map_of sys i, map_of sys j) of
     (Some a, Some b) \<Rightarrow> Some (write_conflicts a b) | _ \<Rightarrow> None)"

fun stage_conflicts :: "(nat \<times> system_spec) list \<Rightarrow> nat list \<Rightarrow> (nat \<times> nat \<times> string) list option" where
  "stage_conflicts sys [] = Some []"
| "stage_conflicts sys (i # ids) =
     (case those (map (pair_conflicts sys i) ids) of
        None \<Rightarrow> None
      | Some cs \<Rightarrow> map_option (\<lambda>c. concat cs @ c) (stage_conflicts sys ids))"

definition check_conflicting :: "'sys runtime_schedule \<Rightarrow> (schedule_error, unit) outcome" where
  "check_conflicting s =
     (case those (map (\<lambda>p. stage_conflicts (sch_systems s) (snd p)) (sch_stage_order s)) of
        None \<Rightarrow> Panic
      | Some cs \<Rightarrow> if concat cs \<noteq> [] then Err (ConflictingParallelWrite (concat cs)) else Ok ())"

text \<open>The bytes that BLAKE3 hashes.\<close>

definition le_bytes4 :: "nat \<Rightarrow> 8 word list" where
  "le_bytes4 n = map (\<lambda>i. of_nat (n div 256 ^ i)) [0 ..< 4]"

definition spec_bytes :: "system_spec \<Rightarrow> 8 word list" where
  "spec_bytes spec = le_bytes8 (ss_id spec) @ str_bytes (ss_name spec) @
     le_bytes8 (stage_number (ss_stage spec)) @ concat (map le_bytes8 (ss_dependencies spec)) @
     concat (map (\<lambda>a. str_bytes (ac_namespace a) @ le_bytes4 (ac_component a)) (ss_reads spec)) @
     concat (map (\<lambda>a. str_bytes (ac_namespace a) @ le_bytes4 (ac_component a) @ [1]) (ss_writes spec))"

definition stage_bytes :: "'sys runtime_schedule \<Rightarrow> nat \<times> system_stage \<Rightarrow> 8 word list" where
  "stage_bytes s = (\<lambda>(i, st). le_bytes8 i @ (case map_of (sch_stage_order s) st of
     None \<Rightarrow> []
   | Some ids \<Rightarrow> concat (map (\<lambda>k. case map_of (sch_systems s) k of None \<Rightarrow> [] | Some spec \<Rightarrow> spec_bytes spec) ids)))"

definition schedule_bytes :: "'sys runtime_schedule \<Rightarrow> 8 word list" where
  "schedule_bytes s = concat (map (stage_bytes s) (enumerate 0 (sch_stages s))) @
     le_bytes8 (admission_capacity s) @ le_bytes4 (unat (max_inflight_tokens (inference_policy s))) @
     le_bytes4 (unat (max_kv_tokens (inference_policy s))) @
     le_bytes4 (unat (ap_prefill_chunk_tokens (inference_policy s))) @
     le_bytes4 (unat (max_prefill_tokens_per_tick (inference_policy s)))"

definition validate_schedule :: "(8 word list \<Rightarrow> 8 word list) \<Rightarrow> 'sys runtime_schedule \<Rightarrow>
    (schedule_error, 'sys runtime_schedule) outcome" where
  "validate_schedule hash s =
     and_then (try_each (check_known (sch_systems s)) (sch_systems s)) (\<lambda>_.
     and_then (try_each (check_cycle (sch_systems s)) (map fst (sch_systems s))) (\<lambda>_.
     and_then (try_each (check_stages s) (sch_systems s)) (\<lambda>_.
     and_then (check_conflicting s) (\<lambda>_. Ok (s\<lparr>sch_hash := hash (schedule_bytes s)\<rparr>)))))"

subsection \<open>The order of a stage\<close>

definition count_dep :: "nat set \<Rightarrow> nat \<Rightarrow> nat \<Rightarrow> (nat \<rightharpoonup> nat) \<times> (nat \<rightharpoonup> nat list) \<Rightarrow>
    (nat \<rightharpoonup> nat) \<times> (nat \<rightharpoonup> nat list)" where
  "count_dep ids i dep = (\<lambda>(deg, dependents).
     if dep \<in> ids then
       (deg(i \<mapsto> (case deg i of None \<Rightarrow> 0 | Some d \<Rightarrow> d) + 1),
        dependents(dep \<mapsto> (case dependents dep of None \<Rightarrow> [] | Some cs \<Rightarrow> cs) @ [i]))
     else (deg, dependents))"

fun relax_children :: "bool \<Rightarrow> nat list \<Rightarrow> (nat \<rightharpoonup> nat) \<times> nat list \<Rightarrow> ((nat \<rightharpoonup> nat) \<times> nat list) option" where
  "relax_children dbg [] (deg, queue) = Some (deg, queue)"
| "relax_children dbg (c # cs) (deg, queue) =
     (case deg c of
        None \<Rightarrow> relax_children dbg cs (deg, queue)
      | Some d \<Rightarrow> Option.bind (u64_sub dbg d 1) (\<lambda>d'.
          relax_children dbg cs (deg(c \<mapsto> d'), if d' = 0 then queue @ [c] else queue)))"

partial_function (option) sort_loop ::
  "bool \<Rightarrow> (nat \<rightharpoonup> nat list) \<Rightarrow> (nat \<rightharpoonup> nat) \<Rightarrow> nat list \<Rightarrow> nat list \<Rightarrow> nat list option" where
  "sort_loop dbg dependents deg queue sorted_ids =
     (case queue of
        [] \<Rightarrow> Some sorted_ids
      | i # rest \<Rightarrow>
          Option.bind (case dependents i of None \<Rightarrow> Some (deg, rest)
              | Some children \<Rightarrow> relax_children dbg children (deg, rest)) (\<lambda>r.
            sort_loop dbg dependents (fst r) (sort (snd r)) (sorted_ids @ [i])))"

text \<open>The \<open>Debug\<close> form of a stage.\<close>

fun stage_name :: "system_stage \<Rightarrow> string" where
  "stage_name ObserveStage = ''Observe''"
| "stage_name PlanStage = ''Plan''"
| "stage_name AdmitStage = ''Admit''"
| "stage_name LeaseStage = ''Lease''"
| "stage_name DispatchStage = ''Dispatch''"
| "stage_name CollectStage = ''Collect''"
| "stage_name PublishStage = ''Publish''"
| "stage_name CleanupStage = ''Cleanup''"

definition stage_cycle :: "system_stage \<Rightarrow> runtime_error" where
  "stage_cycle st = EntityError (''cycle detected in stage '' @ stage_name st)"

definition kahn_sort :: "bool \<Rightarrow> (nat \<times> system_spec) list \<Rightarrow> nat list \<Rightarrow> system_stage \<Rightarrow>
    (runtime_error, nat list) outcome" where
  "kahn_sort dbg sys ids st =
     (let start = fold (\<lambda>i (deg, dependents).
            (if deg i = None then deg(i \<mapsto> 0) else deg,
             if dependents i = None then dependents(i \<mapsto> []) else dependents)) ids (Map.empty, Map.empty);
          (deg, dependents) = fold (\<lambda>i st. fold (count_dep (set ids) i) (deps_of sys i) st) ids start;
          queue = sort (filter (\<lambda>i. (case deg i of None \<Rightarrow> 0 | Some d \<Rightarrow> d) = 0) ids)
      in case sort_loop dbg dependents deg queue [] of
           None \<Rightarrow> Panic
         | Some sorted_ids \<Rightarrow>
             if length sorted_ids \<noteq> length ids then Err (stage_cycle st)
             else Ok sorted_ids)"

fun order_stages :: "bool \<Rightarrow> 'sys runtime_schedule \<Rightarrow> system_stage list \<Rightarrow> (system_stage \<times> nat list) list \<Rightarrow>
    (runtime_error, (system_stage \<times> nat list) list) outcome" where
  "order_stages dbg s [] result = Ok result"
| "order_stages dbg s (st # sts) result =
     and_then (kahn_sort dbg (sch_systems s)
         (case map_of (sch_stage_order s) st of None \<Rightarrow> [] | Some ids \<Rightarrow> ids) st) (\<lambda>sorted_ids.
       if sorted_ids = [] then order_stages dbg s sts result
       else order_stages dbg s sts (btree_insert st sorted_ids result))"

definition topological_order :: "bool \<Rightarrow> 'sys runtime_schedule \<Rightarrow>
    (runtime_error, (system_stage \<times> nat list) list) outcome" where
  "topological_order dbg s = order_stages dbg s (sch_stages s) []"

subsection \<open>The order of a stage is correct\<close>

definition stage_edges :: "(nat \<times> system_spec) list \<Rightarrow> nat list \<Rightarrow> (nat \<times> nat) list" where
  "stage_edges sys ids = concat (map (\<lambda>i. map (\<lambda>d. (d, i)) (filter (\<lambda>d. d \<in> set ids) (deps_of sys i))) ids)"

definition intra_deps :: "(nat \<times> system_spec) list \<Rightarrow> nat list \<Rightarrow> (nat \<times> nat) set" where
  "intra_deps sys ids = {(d, i). i \<in> set ids \<and> d \<in> set ids \<and> d \<in> set (deps_of sys i)}"

lemma set_stage_edges: "set (stage_edges sys ids) = intra_deps sys ids"
  by (auto simp: stage_edges_def intra_deps_def)

definition tables :: "nat set \<Rightarrow> (nat \<times> nat) list \<Rightarrow> (nat \<rightharpoonup> nat) \<times> (nat \<rightharpoonup> nat list) \<Rightarrow> bool" where
  "tables V ps st \<longleftrightarrow> (\<forall>v. fst st v = (if v \<in> V then Some (waiting_on ps {} v) else None)) \<and>
     (\<forall>u. snd st u = (if u \<in> V then Some (succs_of ps u) else None))"

lemma tables_count:
  assumes "tables V ps st" "i \<in> V"
  shows "tables V (ps @ (if d \<in> V then [(d, i)] else [])) (count_dep V i d st)"
  using assms by (cases st) (auto simp: tables_def count_dep_def edge_snoc)

lemma tables_deps:
  assumes "tables V ps st" "i \<in> V"
  shows "tables V (ps @ map (\<lambda>d. (d, i)) (filter (\<lambda>d. d \<in> V) ds)) (fold (count_dep V i) ds st)"
  using assms
proof (induction ds arbitrary: ps st)
  case (Cons d ds)
  have "tables V ((ps @ (if d \<in> V then [(d, i)] else [])) @ map (\<lambda>d. (d, i)) (filter (\<lambda>d. d \<in> V) ds))
      (fold (count_dep V i) ds (count_dep V i d st))"
    using Cons.IH[OF tables_count[OF Cons.prems] Cons.prems(2)] .
  then show ?case by (simp split: if_splits)
qed simp

lemma tables_ids:
  assumes "tables V ps st" "set is \<subseteq> V"
  shows "tables V (ps @ concat (map (\<lambda>i. map (\<lambda>d. (d, i)) (filter (\<lambda>d. d \<in> V) (deps_of sys i))) is))
    (fold (\<lambda>i st. fold (count_dep V i) (deps_of sys i) st) is st)"
  using assms
proof (induction "is" arbitrary: ps st)
  case (Cons i js)
  then show ?case
    using Cons.IH[OF tables_deps[of V ps st i "deps_of sys i"]] by simp
qed simp

lemma tables_start:
  "tables (set ids) [] (fold (\<lambda>i (deg, dependents). (if deg i = None then deg(i \<mapsto> 0) else deg,
     if dependents i = None then dependents(i \<mapsto> []) else dependents)) ids (Map.empty, Map.empty))"
proof (induction ids rule: rev_induct)
  case (snoc i ids)
  let ?f = "\<lambda>i (deg :: nat \<rightharpoonup> nat, dependents :: nat \<rightharpoonup> nat list). (if deg i = None then deg(i \<mapsto> 0) else deg,
     if dependents i = None then dependents(i \<mapsto> []) else dependents)"
  obtain deg dependents where f: "fold ?f ids (Map.empty, Map.empty) = (deg, dependents)"
    by (cases "fold ?f ids (Map.empty, Map.empty)")
  then have "deg v = (if v \<in> set ids then Some 0 else None)"
    "dependents v = (if v \<in> set ids then Some [] else None)" for v
    using snoc by (simp_all add: tables_def waiting_on_def succs_of_def)
  then show ?case using f by (auto simp: tables_def waiting_on_def succs_of_def)
qed (simp add: tables_def)

lemma relax_children_fold:
  assumes "\<And>c. c \<in> set cs \<Longrightarrow> \<exists>d. deg c = Some d \<and> count_list cs c \<le> d"
  shows "relax_children dbg cs (deg, q) = Some (fold (relax_with (\<lambda>t. t) put_degree) cs (deg, q))"
  using assms
proof (induction cs arbitrary: deg q)
  case (Cons c cs)
  obtain d where d: "deg c = Some d" "Suc (count_list cs c) \<le> d" using Cons.prems[of c] by auto
  have "\<exists>d'. (deg(c \<mapsto> d - 1)) v = Some d' \<and> count_list cs v \<le> d'" if "v \<in> set cs" for v
    using Cons.prems[of v] that d by (auto split: if_splits)
  note ih = Cons.IH[OF this]
  have "relax_with (\<lambda>t. t) put_degree c (deg, q) =
      (deg(c \<mapsto> d - 1), if d - 1 = 0 then q @ [c] else q)"
    using d(1) by (simp add: relax_with_def put_degree_def)
  then show ?case using d ih[of "if d - 1 = 0 then q @ [c] else q"] by (simp del: fun_upd_apply)
qed simp

lemma succs_count_le:
  assumes "kahn_inv (\<lambda>t. t) V ps deg (x # rest) ord" "set ps \<subseteq> V \<times> V" "c \<in> set (succs_of ps x)"
  shows "\<exists>d. deg c = Some d \<and> count_list (succs_of ps x) c \<le> d"
proof -
  have "c \<in> V" using assms(2,3) by (auto simp: succs_of_def)
  moreover have "x \<notin> set ord" using assms(1) by (auto simp: kahn_inv_def)
  then have "count_list (succs_of ps x) c \<le> waiting_on ps (set ord) c"
    using waiting_on_insert[of x "set ord" ps c] by simp
  ultimately show ?thesis using assms(1) by (auto simp: kahn_inv_def)
qed

text \<open>Every step takes the least of the nodes that are ready.\<close>

definition takes_least :: "nat set \<Rightarrow> (nat \<times> nat) set \<Rightarrow> nat list \<Rightarrow> bool" where
  "takes_least V R ord \<longleftrightarrow> (\<forall>i < length ord. ord ! i =
     Min {v \<in> V - set (take i ord). \<forall>d. (d, v) \<in> R \<longrightarrow> d \<in> set (take i ord)})"

lemma takes_least_snoc:
  assumes "takes_least V R ord" "x = Min {v \<in> V - set ord. \<forall>d. (d, v) \<in> R \<longrightarrow> d \<in> set ord}"
  shows "takes_least V R (ord @ [x])"
  using assms by (auto simp: takes_least_def nth_append less_Suc_eq)

lemma kahn_inv_least:
  assumes inv: "kahn_inv get V ps t (x # rest) ord" and s: "sorted (x # rest)"
  shows "x = Min {v \<in> V - set ord. \<forall>d. (d, v) \<in> set ps \<longrightarrow> d \<in> set ord}"
proof -
  have "{v \<in> V - set ord. \<forall>d. (d, v) \<in> set ps \<longrightarrow> d \<in> set ord} = set (x # rest)"
  proof (rule set_eqI)
    fix v
    have "distinct (ord @ x # rest)" "set (ord @ x # rest) \<subseteq> V"
      "v \<in> V \<Longrightarrow> waiting_on ps (set ord) v = 0 \<longleftrightarrow> v \<in> set (ord @ x # rest)"
      using inv unfolding kahn_inv_def by blast+
    then show "v \<in> {v \<in> V - set ord. \<forall>d. (d, v) \<in> set ps \<longrightarrow> d \<in> set ord} \<longleftrightarrow> v \<in> set (x # rest)"
      unfolding waiting_on_0 by auto
  qed
  moreover have "Min (set (x # rest)) = x" using s by (intro Min_eqI) auto
  ultimately show ?thesis by simp
qed

lemma sort_loop_returns:
  assumes "kahn_inv (\<lambda>t. t) V ps deg q ord" "sorted q" "takes_least V (set ps) ord"
    and ps: "set ps \<subseteq> V \<times> V" and V: "finite V" and deps: "\<And>v. v \<in> V \<Longrightarrow> dependents v = Some (succs_of ps v)"
  shows "\<exists>deg' ord'. sort_loop dbg dependents deg q ord = Some ord' \<and>
    kahn_inv (\<lambda>t. t) V ps deg' [] ord' \<and> takes_least V (set ps) ord'"
  using assms(1-3)
proof (induction "card V - length ord" arbitrary: deg q ord rule: less_induct)
  case less
  show ?case
  proof (cases q)
    case Nil
    then show ?thesis using less.prems by (subst sort_loop.simps) auto
  next
    case (Cons x rest)
    note inv = less.prems(1)[unfolded Cons]
    have x: "x \<in> V" using inv by (simp add: kahn_inv_def)
    obtain deg' q' where f: "fold (relax_with (\<lambda>t. t) put_degree) (succs_of ps x) (deg, rest) = (deg', q')"
        and inv': "kahn_inv (\<lambda>t. t) V ps deg' q' (ord @ [x])"
      using tab.kahn_step[OF inv ps] by blast
    have q': "kahn_inv (\<lambda>t. t) V ps deg' (sort q') (ord @ [x])"
      by (rule kahn_inv_queue[OF inv']) (use inv' in \<open>simp_all add: kahn_inv_def\<close>)
    have "sort_loop dbg dependents deg q ord = sort_loop dbg dependents deg' (sort q') (ord @ [x])"
      using Cons deps[OF x] relax_children_fold[of "succs_of ps x" deg dbg rest] succs_count_le[OF inv ps] f
      by (subst sort_loop.simps) simp
    moreover have "takes_least V (set ps) (ord @ [x])"
      by (rule takes_least_snoc[OF less.prems(3) kahn_inv_least[OF inv less.prems(2)[unfolded Cons]]])
    moreover have "length (ord @ q) \<le> card V" by (rule kahn_inv_length[OF less.prems(1) V])
    ultimately show ?thesis using less.hyps[OF _ q'] Cons by simp
  qed
qed

lemma kahn_sort_runs:
  assumes "distinct ids"
  shows "\<exists>deg ord. kahn_inv (\<lambda>t. t) (set ids) (stage_edges sys ids) deg [] ord \<and>
    takes_least (set ids) (intra_deps sys ids) ord \<and>
    kahn_sort dbg sys ids st = (if length ord \<noteq> length ids then Err (stage_cycle st) else Ok ord)"
proof -
  let ?V = "set ids" and ?ps = "stage_edges sys ids"
  let ?start = "fold (\<lambda>i (deg, dependents). (if deg i = None then deg(i \<mapsto> 0) else deg,
     if dependents i = None then dependents(i \<mapsto> []) else dependents)) ids (Map.empty, Map.empty)"
  obtain deg dependents where t: "fold (\<lambda>i st. fold (count_dep ?V i) (deps_of sys i) st) ids ?start = (deg, dependents)"
    by (cases "fold (\<lambda>i st. fold (count_dep ?V i) (deps_of sys i) st) ids ?start")
  have tab: "tables ?V ?ps (deg, dependents)"
    using tables_ids[OF tables_start subset_refl, of ids sys] t by (simp add: stage_edges_def)
  let ?q = "sort (filter (\<lambda>i. (case deg i of None \<Rightarrow> 0 | Some d \<Rightarrow> d) = 0) ids)"
  have ps: "set ?ps \<subseteq> ?V \<times> ?V" by (auto simp: set_stage_edges intra_deps_def)
  have "kahn_inv (\<lambda>t. t) ?V ?ps deg ?q []"
    by (rule kahn_queue_start) (use tab assms in \<open>auto simp: tables_def\<close>)
  moreover have "takes_least ?V (set ?ps) []" by (simp add: takes_least_def)
  ultimately obtain deg' ord where "sort_loop dbg dependents deg ?q [] = Some ord"
      "kahn_inv (\<lambda>t. t) ?V ?ps deg' [] ord" "takes_least ?V (set ?ps) ord"
    using sort_loop_returns[of ?V ?ps deg ?q "[]" dependents dbg] ps tab by (auto simp: tables_def)
  then show ?thesis
    using t by (auto simp: kahn_sort_def set_stage_edges)
qed

lemma kahn_sort_decides:
  assumes "distinct ids"
  shows "if acyclic (intra_deps sys ids)
    then \<exists>ord. kahn_sort dbg sys ids st = Ok ord \<and> distinct ord \<and> set ord = set ids \<and>
      topo_prefix (stage_edges sys ids) ord \<and> takes_least (set ids) (intra_deps sys ids) ord
    else kahn_sort dbg sys ids st = Err (stage_cycle st)"
proof -
  obtain deg ord where inv: "kahn_inv (\<lambda>t. t) (set ids) (stage_edges sys ids) deg [] ord"
      and least: "takes_least (set ids) (intra_deps sys ids) ord"
      and run: "kahn_sort dbg sys ids st = (if length ord \<noteq> length ids then Err (stage_cycle st) else Ok ord)"
    using kahn_sort_runs[OF assms] by blast
  have o: "distinct ord" "set ord \<subseteq> set ids" "topo_prefix (stage_edges sys ids) ord"
    using inv by (auto simp: kahn_inv_def)
  have ps: "set (stage_edges sys ids) \<subseteq> set ids \<times> set ids" by (auto simp: set_stage_edges intra_deps_def)
  have len: "length ord = length ids \<longleftrightarrow> set ord = set ids"
    using o(1,2) assms by (metis card_subset_eq distinct_card finite_set)
  show ?thesis
  proof (cases "acyclic (intra_deps sys ids)")
    case True
    then have "set ids \<subseteq> set ord"
      using kahn_inv_end[OF inv ps] by (auto simp: acyclic_def set_stage_edges)
    then have "set ord = set ids" using o(2) by blast
    then show ?thesis using True run len least o by simp
  next
    case False
    have "set ord \<noteq> set ids"
    proof
      assume "set ord = set ids"
      then have "acyclic (set (stage_edges sys ids))"
        using topo_prefix_acyclic[OF o(3) o(1)] ps by auto
      then show False using False by (simp add: set_stage_edges)
    qed
    then show ?thesis using False run len by simp
  qed
qed

text \<open>C16: the order of a stage exists exactly when the dependencies inside the stage have no cycle. It
  then lists every system of the stage once and takes at every step the least id whose
  dependencies in the stage have run.
\<close>

theorem kahn_sort_correct:
  assumes "distinct ids"
  shows "if acyclic (intra_deps sys ids)
    then \<exists>ord. kahn_sort dbg sys ids st = Ok ord \<and> distinct ord \<and> set ord = set ids \<and>
      (\<forall>i < length ord. ord ! i =
        Min {v \<in> set ids - set (take i ord). \<forall>d. (d, v) \<in> intra_deps sys ids \<longrightarrow> d \<in> set (take i ord)})
    else kahn_sort dbg sys ids st = Err (stage_cycle st)"
  using kahn_sort_decides[OF assms, of sys dbg st] unfolding takes_least_def by (auto split: if_splits)

theorem kahn_sort_correct_witness:
  "\<exists>ord. kahn_sort True [(1, \<lparr>ss_id = 1, ss_name = ''a'', ss_stage = PlanStage, ss_reads = [], ss_writes = [],
      ss_dependencies = [2]\<rparr>)] [1, 2] PlanStage = Ok ord \<and> set ord = {1, 2}"
proof -
  let ?sys = "[(1, \<lparr>ss_id = 1, ss_name = ''a'', ss_stage = PlanStage, ss_reads = [], ss_writes = [], ss_dependencies = [2]\<rparr>)]"
  have "intra_deps ?sys [1, 2] = {(2, 1)}" by (auto simp: intra_deps_def deps_of_def)
  moreover have "acyclic {(2 :: nat, 1)}"
    by (rule acyclic_subset[OF wf_acyclic[OF wf_measure[of "\<lambda>n. 2 - n"]]]) simp
  ultimately show ?thesis using kahn_sort_correct[of "[1, 2]" ?sys True PlanStage] by auto
qed

subsection \<open>The search for cycles\<close>

text \<open>Systems and what they depend on.\<close>

definition dep_rel :: "(nat \<times> system_spec) list \<Rightarrow> (nat \<times> nat) set" where
  "dep_rel sys = {(i, d). d \<in> set (deps_of sys i)}"

abbreviation (input) dep_path :: "(nat \<times> system_spec) list \<Rightarrow> nat list \<Rightarrow> bool" where
  "dep_path sys st \<equiv> successively (\<lambda>a b. b \<in> set (deps_of sys a)) st"

lemma dep_path_reaches: "dep_path sys (x # st) \<Longrightarrow> y \<in> set (x # st) \<Longrightarrow> (x, y) \<in> (dep_rel sys)\<^sup>*"
proof (induction st arbitrary: x)
  case (Cons z st)
  then show ?case
    by (auto simp: dep_rel_def intro: converse_rtrancl_into_rtrancl)
qed simp

text \<open>A path whose last system occurs before it.\<close>

definition closes_cycle :: "(nat \<times> system_spec) list \<Rightarrow> nat list \<Rightarrow> bool" where
  "closes_cycle sys st \<longleftrightarrow> st \<noteq> [] \<and> dep_path sys st \<and> last st \<in> set (butlast st)"

lemma closes_cycle_cyclic:
  assumes "closes_cycle sys st"
  shows "\<not> acyclic (dep_rel sys)"
proof -
  define s where "s = last st"
  have st: "st = butlast st @ [s]" "s \<in> set (butlast st)" "dep_path sys st"
    using assms by (simp_all add: closes_cycle_def s_def)
  then obtain pre mid where "butlast st = pre @ s # mid" by (meson split_list)
  then have "dep_path sys (s # mid @ [s])"
    using st(1,3) by (metis append_Cons append_assoc successively_append_iff)
  then obtain d where d: "d \<in> set (deps_of sys s)" "(d, s) \<in> (dep_rel sys)\<^sup>*"
  proof (cases mid)
    case Nil
    then show ?thesis using \<open>dep_path sys (s # mid @ [s])\<close> by (intro that[of s]) simp_all
  next
    case (Cons d rest)
    then have "dep_path sys (d # rest @ [s])" "d \<in> set (deps_of sys s)"
      using \<open>dep_path sys (s # mid @ [s])\<close> by auto
    then show ?thesis using dep_path_reaches[of sys d "rest @ [s]" s] by (intro that[of d]) auto
  qed
  then have "(s, s) \<in> (dep_rel sys)\<^sup>+" by (auto simp: dep_rel_def intro: rtrancl_into_trancl2)
  then show ?thesis by (auto simp: acyclic_def)
qed

text \<open>
  The systems that left the stack: their dependencies left it too, and none is on a cycle.
\<close>

definition dfs_ok :: "(nat \<times> system_spec) list \<Rightarrow> nat set \<Rightarrow> nat list \<Rightarrow> bool" where
  "dfs_ok sys visited stack \<longleftrightarrow> set stack \<subseteq> visited \<and> dep_path sys stack \<and>
     (\<forall>x \<in> visited - set stack. set (deps_of sys x) \<subseteq> visited - set stack \<and> (x, x) \<notin> (dep_rel sys)\<^sup>+)"

lemma dfs_closed:
  assumes "dfs_ok sys visited stack" "x \<in> visited - set stack" "(x, y) \<in> (dep_rel sys)\<^sup>*"
  shows "y \<in> visited - set stack"
  using assms(3,2)
proof (induction rule: rtrancl_induct)
  case (step y z)
  then show ?case using assms(1) unfolding dfs_ok_def dep_rel_def by blast
qed

lemma dfs_push:
  assumes "dfs_ok sys visited stack" "s \<notin> visited" "stack = [] \<or> s \<in> set (deps_of sys (last stack))"
  shows "dfs_ok sys (insert s visited) (stack @ [s])"
proof -
  have "insert s visited - set (stack @ [s]) = visited - set stack" using assms(1,2) by (auto simp: dfs_ok_def)
  then show ?thesis using assms by (auto simp: dfs_ok_def successively_append_iff)
qed

lemma dfs_pop:
  assumes ok: "dfs_ok sys v (stack @ [s])" and s: "s \<notin> set stack"
    and deps: "set (deps_of sys s) \<subseteq> v - set (stack @ [s])"
  shows "dfs_ok sys v stack"
proof -
  have "(s, s) \<notin> (dep_rel sys)\<^sup>+"
  proof
    assume "(s, s) \<in> (dep_rel sys)\<^sup>+"
    then obtain d where "d \<in> set (deps_of sys s)" "(d, s) \<in> (dep_rel sys)\<^sup>*"
      by (auto simp: dep_rel_def dest: tranclD)
    then have "s \<in> v - set (stack @ [s])" using dfs_closed[OF ok, of d s] deps by blast
    then show False by simp
  qed
  then show ?thesis
    using ok s deps by (auto simp: dfs_ok_def successively_append_iff)
qed

definition reachable_systems :: "(nat \<times> system_spec) list \<Rightarrow> nat set" where
  "reachable_systems sys = fst ` set sys \<union> (\<Union>(i, spec) \<in> set sys. set (ss_dependencies spec))"

lemma deps_reachable: "set (deps_of sys i) \<subseteq> reachable_systems sys"
proof (cases "map_of sys i")
  case (Some spec)
  then have "(i, spec) \<in> set sys" by (rule map_of_SomeD)
  then show ?thesis using Some by (force simp: deps_of_def reachable_systems_def)
qed (simp add: deps_of_def)

definition dfs_result :: "(nat \<times> system_spec) list \<Rightarrow> nat list \<Rightarrow> nat set \<Rightarrow> nat list \<Rightarrow>
    (bool \<times> nat set \<times> nat list) option \<Rightarrow> bool" where
  "dfs_result sys starts visited stack r \<longleftrightarrow> (\<exists>found v st. r = Some (found, v, st) \<and> visited \<subseteq> v \<and>
     (if found then closes_cycle sys st
      else st = stack \<and> dfs_ok sys v stack \<and> set starts \<subseteq> v - set stack))"

lemma dfs_found: "visited \<subseteq> v \<Longrightarrow> closes_cycle sys st \<Longrightarrow> dfs_result sys starts visited stack (Some (True, v, st))"
  by (simp add: dfs_result_def) (rule exI[of _ True], simp)

lemma dfs_done: "visited \<subseteq> v \<Longrightarrow> dfs_ok sys v stack \<Longrightarrow> set starts \<subseteq> v - set stack \<Longrightarrow>
    dfs_result sys starts visited stack (Some (False, v, stack))"
  by (simp add: dfs_result_def) (rule exI[of _ False], simp)

lemma dfs_resultE:
  assumes "dfs_result sys starts visited stack r"
  obtains v st where "r = Some (True, v, st)" "visited \<subseteq> v" "closes_cycle sys st"
  | v where "r = Some (False, v, stack)" "visited \<subseteq> v" "dfs_ok sys v stack" "set starts \<subseteq> v - set stack"
  using assms unfolding dfs_result_def by (auto split: if_splits)

lemma dfs_result_more:
  assumes "dfs_result sys rest v stack r" "visited \<subseteq> v" "s \<in> v - set stack"
  shows "dfs_result sys (s # rest) visited stack r"
  using assms(1)
proof (cases rule: dfs_resultE)
  case (1 w st)
  then show ?thesis using assms(2) by (auto intro: dfs_found)
next
  case (2 w)
  then show ?thesis using assms(2,3) dfs_done[of visited w sys stack "s # rest"] by auto
qed

lemma detect_deps_correct:
  assumes "dfs_ok sys visited stack" "set starts \<subseteq> V"
    "\<forall>s \<in> set starts. stack = [] \<or> s \<in> set (deps_of sys (last stack))"
    and V: "finite V" "reachable_systems sys \<subseteq> V"
  shows "dfs_result sys starts visited stack (detect_deps sys starts visited stack)"
  using assms(1-3)
proof (induction "card (V - visited)" arbitrary: starts visited stack rule: less_induct)
  case less
  note outer = less.hyps
  show ?case using less.prems
  proof (induction starts)
    case Nil
    then show ?case by (subst detect_deps.simps) (simp add: dfs_done)
  next
    case (Cons s rest)
    have ih: "dfs_result sys rest visited stack (detect_deps sys rest visited stack)"
      using Cons by simp
    have s: "s \<in> V" "stack = [] \<or> s \<in> set (deps_of sys (last stack))" using Cons.prems by auto
    consider "s \<in> set stack" | "s \<notin> set stack" "s \<in> visited" | "s \<notin> set stack" "s \<notin> visited" by blast
    then show ?case
    proof cases
      case 1
      then have "closes_cycle sys (stack @ [s])"
        using Cons.prems(1) s(2) by (auto simp: closes_cycle_def dfs_ok_def successively_append_iff)
      then show ?thesis using 1 by (subst detect_deps.simps) (simp add: dfs_found)
    next
      case 2
      then show ?thesis using dfs_result_more[OF ih subset_refl, of s] by (subst detect_deps.simps) simp
    next
      case 3
      have smaller: "card (V - v) < card (V - visited)" if "insert s visited \<subseteq> v" for v
        using that s(1) 3(2) V(1) by (intro psubset_card_mono) auto
      have push: "dfs_ok sys (insert s visited) (stack @ [s])" using dfs_push[OF Cons.prems(1) 3(2) s(2)] .
      have "dfs_result sys (deps_of sys s) (insert s visited) (stack @ [s])
          (detect_deps sys (deps_of sys s) (insert s visited) (stack @ [s]))"
        by (rule outer[OF smaller[OF subset_refl] push])
          (use deps_reachable[of sys s] V(2) in auto)
      then show ?thesis
      proof (cases rule: dfs_resultE)
        case (1 v st)
        then show ?thesis using 3 by (subst detect_deps.simps) (simp add: dfs_found)
      next
        case (2 v)
        then have pop: "dfs_ok sys v stack" using dfs_pop[of sys v stack s] 3(1) by simp
        have "dfs_result sys rest v stack (detect_deps sys rest v stack)"
          using outer[OF smaller[OF 2(2)] pop] Cons.prems(2,3) by auto
        then have "dfs_result sys (s # rest) visited stack (detect_deps sys rest v stack)"
          by (rule dfs_result_more) (use 2 3 in auto)
        then show ?thesis using 3 2 by (subst detect_deps.simps) simp
      qed
    qed
  qed
qed

lemma check_cycle_correct:
  "check_cycle sys i = Ok () \<and> (i, i) \<notin> (dep_rel sys)\<^sup>+ \<or>
   (\<exists>st. check_cycle sys i = Err (CycleDetected st) \<and> closes_cycle sys st)"
proof -
  have "dfs_result sys [i] {} [] (detect_deps sys [i] {} [])"
    by (rule detect_deps_correct[where V = "insert i (reachable_systems sys)"])
      (auto simp: dfs_ok_def reachable_systems_def)
  then show ?thesis
    by (cases rule: dfs_resultE) (auto simp: check_cycle_def detect_cycle_def dfs_ok_def)
qed

subsection \<open>Validation accepts exactly the well-formed schedules\<close>

text \<open>What registration keeps: ids are keys, and \<open>stage_order\<close> lists the systems of every stage once.\<close>

definition stage_ids :: "'sys runtime_schedule \<Rightarrow> system_stage \<Rightarrow> nat list" where
  "stage_ids s st = (case map_of (sch_stage_order s) st of None \<Rightarrow> [] | Some ids \<Rightarrow> ids)"

definition stage_members :: "'sys runtime_schedule \<Rightarrow> system_stage \<Rightarrow> nat set" where
  "stage_members s st = {i. \<exists>spec. map_of (sch_systems s) i = Some spec \<and> ss_stage spec = st}"

definition all_stages :: "system_stage list" where
  "all_stages = [ObserveStage, PlanStage, AdmitStage, LeaseStage, DispatchStage, CollectStage, PublishStage,
     CleanupStage]"

lemma all_stages_complete [simp]: "st \<in> set all_stages"
  by (cases st) (simp_all add: all_stages_def)

lemma all_stages_sorted: "sorted_wrt (<) all_stages"
  by (simp add: all_stages_def less_system_stage_def)

lemma stage_index_all [simp]: "stage_index all_stages st = stage_number st"
  by (cases st) (simp_all add: stage_index_def all_stages_def upt_conv_Cons)

definition schedule_inv :: "'sys runtime_schedule \<Rightarrow> bool" where
  "schedule_inv s \<longleftrightarrow> sch_stages s = all_stages \<and> sorted_wrt (<) (map fst (sch_systems s)) \<and>
     (\<forall>(i, spec) \<in> set (sch_systems s). ss_id spec = i) \<and> sorted_wrt (<) (map fst (sch_stage_order s)) \<and>
     (\<forall>st. distinct (stage_ids s st) \<and> set (stage_ids s st) = stage_members s st)"

lemma schedule_new_inv: "schedule_inv schedule_new"
  by (simp add: schedule_inv_def schedule_new_def all_stages_def stage_ids_def stage_members_def)

lemma set_map_of_sorted: "sorted_wrt (<) (map fst m) \<Longrightarrow> (k, x) \<in> set m \<longleftrightarrow> map_of m k = Some (x :: 'a)"
  for m :: "('k::linorder \<times> 'a) list"
  using strict_sorted_iff[of "map fst m"] by (simp add: sorted_wrt_map)

lemma register_spec_inv:
  assumes inv: "schedule_inv s" and r: "register_spec spec s = Ok s'"
  shows "schedule_inv s'"
proof -
  have fresh: "map_of (sch_systems s) (ss_id spec) = None"
    and s': "s' = s\<lparr>sch_systems := btree_insert (ss_id spec) spec (sch_systems s),
      sch_stage_order := btree_push (ss_stage spec) (ss_id spec) (sch_stage_order s)\<rparr>"
    using r by (auto simp: register_spec_def split: if_splits)
  have i: "sorted_wrt (<) (map fst (sch_systems s))" "\<forall>(i, spec) \<in> set (sch_systems s). ss_id spec = i"
      "sorted_wrt (<) (map fst (sch_stage_order s))"
      "\<And>st. distinct (stage_ids s st) \<and> set (stage_ids s st) = stage_members s st"
    using inv by (simp_all add: schedule_inv_def)
  have ids: "stage_ids s' st = (if st = ss_stage spec then stage_ids s st @ [ss_id spec] else stage_ids s st)" for st
    using i(3) by (simp add: s' stage_ids_def map_of_btree_push)
  have members: "stage_members s' st =
      (if st = ss_stage spec then insert (ss_id spec) (stage_members s st) else stage_members s st)" for st
    using fresh by (auto simp: s' stage_members_def map_of_btree_insert)
  have new: "ss_id spec \<notin> stage_members s st" for st using fresh by (simp add: stage_members_def)
  have "distinct (stage_ids s' st) \<and> set (stage_ids s' st) = stage_members s' st" for st
    using i(4)[of st] new[of st] by (auto simp: ids members)
  moreover have "\<forall>(i, spec) \<in> set (sch_systems s'). ss_id spec = i"
  proof (clarify)
    fix j a
    assume "(j, a) \<in> set (sch_systems s')"
    then have "map_of (sch_systems s') j = Some a"
      using i(1) by (simp add: set_map_of_sorted sorted_btree_insert s')
    then show "ss_id a = j"
      using i(2) by (auto simp: s' map_of_btree_insert split: if_splits dest: map_of_SomeD)
  qed
  ultimately show ?thesis
    using inv i(1,3) by (simp add: schedule_inv_def s' sorted_btree_insert sorted_btree_push)
qed

lemma register_system_inv:
  assumes "schedule_inv s" "register_system spec system s = Ok s'"
  shows "schedule_inv s'"
proof -
  obtain s1 where "register_spec spec s = Ok s1" "s' = s1\<lparr>sch_system_map := (sch_system_map s1)(ss_id spec \<mapsto> system)\<rparr>"
    using assms(2) by (auto simp: register_system_def and_then_Ok)
  then show ?thesis
    using register_spec_inv[OF assms(1)]
    by (simp add: schedule_inv_def stage_ids_def stage_members_def)
qed

text \<open>What two systems of one stage may not share.\<close>

definition writes_of :: "system_spec \<Rightarrow> (string \<times> nat) set" where
  "writes_of spec = (\<lambda>a. (ac_namespace a, ac_component a)) ` set (ss_writes spec)"

lemma write_conflicts_empty: "write_conflicts a b = [] \<longleftrightarrow> writes_of a \<inter> writes_of b = {}"
  by (auto simp: write_conflicts_def writes_of_def filter_empty_conv)

lemma write_conflicts_sound:
  assumes "(i, j, name) \<in> set (write_conflicts a b)"
  shows "i = ss_id a \<and> j = ss_id b \<and> (\<exists>ns c. (ns, c) \<in> writes_of a \<inter> writes_of b \<and> name = ns @ '':'' @ decimal c)"
proof -
  obtain wa wb where w: "wa \<in> set (ss_writes a)" "wb \<in> set (ss_writes b)" "ac_namespace wa = ac_namespace wb"
      "ac_component wa = ac_component wb" "i = ss_id a" "j = ss_id b" "name = access_name wa"
    using assms by (auto simp: write_conflicts_def)
  then have "(ac_namespace wa, ac_component wa) \<in> writes_of a \<inter> writes_of b"
    by (auto simp: writes_of_def intro: rev_image_eqI)
  then show ?thesis using w by (auto simp: access_name_def)
qed

text \<open>The faults that validation reports.\<close>

fun fault_in :: "(nat \<times> system_spec) list \<Rightarrow> schedule_error \<Rightarrow> bool" where
  "fault_in sys (MissingDependency i d) \<longleftrightarrow> i \<in> fst ` set sys \<and> d \<in> set (deps_of sys i) \<and> d \<notin> fst ` set sys"
| "fault_in sys (CycleDetected st) \<longleftrightarrow> closes_cycle sys st"
| "fault_in sys (InvalidStageDependency i d) \<longleftrightarrow> (\<exists>a b. (i, a) \<in> set sys \<and> (d, b) \<in> set sys \<and>
     d \<in> set (ss_dependencies a) \<and> ss_stage a < ss_stage b)"
| "fault_in sys (ConflictingParallelWrite cs) \<longleftrightarrow> cs \<noteq> [] \<and> (\<forall>(i, j, name) \<in> set cs. \<exists>a b ns c.
     (i, a) \<in> set sys \<and> (j, b) \<in> set sys \<and> i \<noteq> j \<and> ss_stage a = ss_stage b \<and>
     (ns, c) \<in> writes_of a \<inter> writes_of b \<and> name = ns @ '':'' @ decimal c)"
| "fault_in sys _ \<longleftrightarrow> False"

definition well_formed_schedule :: "(nat \<times> system_spec) list \<Rightarrow> bool" where
  "well_formed_schedule sys \<longleftrightarrow>
     (\<forall>(i, a) \<in> set sys. set (ss_dependencies a) \<subseteq> fst ` set sys) \<and>
     acyclic (dep_rel sys) \<and>
     (\<forall>(i, a) \<in> set sys. \<forall>(j, b) \<in> set sys. j \<in> set (ss_dependencies a) \<longrightarrow> ss_stage b \<le> ss_stage a) \<and>
     (\<forall>(i, a) \<in> set sys. \<forall>(j, b) \<in> set sys. i \<noteq> j \<and> ss_stage a = ss_stage b \<longrightarrow> writes_of a \<inter> writes_of b = {})"

lemma deps_of_set: "sorted_wrt (<) (map fst sys) \<Longrightarrow> (i, a) \<in> set sys \<Longrightarrow> deps_of sys i = ss_dependencies a"
  by (simp add: deps_of_def set_map_of_sorted)

text \<open>One pass of the validation: it succeeds when the condition holds and otherwise reports a fault.\<close>

definition decides :: "(nat \<times> system_spec) list \<Rightarrow> bool \<Rightarrow> (schedule_error, unit) outcome \<Rightarrow> bool" where
  "decides sys P r \<longleftrightarrow> (if P then r = Ok () else \<exists>e. r = Err e \<and> fault_in sys e)"

lemma decides_and:
  assumes "decides sys P r" "P \<Longrightarrow> decides sys Q r'"
  shows "decides sys (P \<and> Q) (and_then r (\<lambda>_. r'))"
  using assms by (auto simp: decides_def split: if_splits)

lemma decides_each:
  assumes "\<And>x. x \<in> set xs \<Longrightarrow> decides sys (P x) (f x)"
  shows "decides sys (\<forall>x \<in> set xs. P x) (try_each f xs)"
  using assms
proof (induction xs)
  case (Cons x xs)
  then show ?case using decides_and[of sys "P x" "f x" "\<forall>x \<in> set xs. P x" "try_each f xs"] by simp
qed (simp add: decides_def)

lemma decides_known:
  assumes "sorted_wrt (<) (map fst sys)"
  shows "decides sys (\<forall>(i, a) \<in> set sys. set (ss_dependencies a) \<subseteq> fst ` set sys) (try_each (check_known sys) sys)"
proof -
  have "decides sys (\<forall>p \<in> set sys. \<forall>d \<in> set (ss_dependencies (snd p)). d \<in> fst ` set sys)
      (try_each (check_known sys) sys)"
  proof (rule decides_each)
    fix p
    assume p: "p \<in> set sys"
    show "decides sys (\<forall>d \<in> set (ss_dependencies (snd p)). d \<in> fst ` set sys) (check_known sys p)"
      unfolding check_known_def case_prod_beta
      by (rule decides_each)
        (use p deps_of_set[OF assms, of "fst p" "snd p"] in \<open>auto simp: decides_def map_of_eq_None_iff\<close>)
  qed
  then show ?thesis by (simp add: case_prod_beta subset_eq)
qed

lemma decides_acyclic:
  "decides sys (acyclic (dep_rel sys)) (try_each (check_cycle sys) (map fst sys))"
proof (cases "acyclic (dep_rel sys)")
  case True
  then have "check_cycle sys i = Ok ()" for i
    using check_cycle_correct[of sys i] closes_cycle_cyclic[of sys] by blast
  then show ?thesis using True by (simp add: decides_def try_each_Ok)
next
  case False
  then obtain i where i: "(i, i) \<in> (dep_rel sys)\<^sup>+" by (auto simp: acyclic_def)
  then obtain d where "d \<in> set (deps_of sys i)" using tranclD[OF i] by (auto simp: dep_rel_def)
  then have "map_of sys i \<noteq> None" by (cases "map_of sys i") (simp_all add: deps_of_def)
  then have "i \<in> set (map fst sys)" by (simp add: map_of_eq_None_iff)
  then have "try_each (check_cycle sys) (map fst sys) \<noteq> Ok ()"
    unfolding try_each_Ok using check_cycle_correct[of sys i] i by (metis outcome.distinct(5))
  moreover have "try_each (check_cycle sys) (map fst sys) \<noteq> Panic"
  proof (rule try_each_no_panic)
    show "check_cycle sys x \<noteq> Panic" for x using check_cycle_correct[of sys x] by auto
  qed
  ultimately obtain e where e: "try_each (check_cycle sys) (map fst sys) = Err e"
    by (cases "try_each (check_cycle sys) (map fst sys)") auto
  obtain j where "check_cycle sys j = Err e" using try_each_Err[OF e] by blast
  then show ?thesis using e False check_cycle_correct[of sys j] by (auto simp: decides_def)
qed

lemma decides_stages:
  assumes "sch_stages s = all_stages" "sorted_wrt (<) (map fst (sch_systems s))"
  shows "decides (sch_systems s) (\<forall>(i, a) \<in> set (sch_systems s). \<forall>(j, b) \<in> set (sch_systems s).
      j \<in> set (ss_dependencies a) \<longrightarrow> ss_stage b \<le> ss_stage a) (try_each (check_stages s) (sch_systems s))"
proof -
  let ?sys = "sch_systems s"
  let ?late = "\<lambda>a j. \<exists>b. map_of ?sys j = Some b \<and> ss_stage a < ss_stage b"
  have "decides ?sys (\<forall>p \<in> set ?sys. \<forall>j \<in> set (ss_dependencies (snd p)). \<not> ?late (snd p) j)
      (try_each (check_stages s) ?sys)"
  proof (rule decides_each)
    fix p
    assume p: "p \<in> set ?sys"
    show "decides ?sys (\<forall>j \<in> set (ss_dependencies (snd p)). \<not> ?late (snd p) j) (check_stages s p)"
      unfolding check_stages_def case_prod_beta
    proof (rule decides_each)
      fix j
      assume j: "j \<in> set (ss_dependencies (snd p))"
      have fault: "fault_in ?sys (InvalidStageDependency (fst p) j)" if "?late (snd p) j"
      proof -
        have "(fst p, snd p) \<in> set ?sys" using p by simp
        then show ?thesis unfolding fault_in.simps using that j map_of_SomeD by fast
      qed
      then show "decides ?sys (\<not> ?late (snd p) j)
          (case map_of ?sys j of None \<Rightarrow> Ok ()
           | Some dep_spec \<Rightarrow>
               if stage_index (sch_stages s) (ss_stage (snd p)) < stage_index (sch_stages s) (ss_stage dep_spec)
               then Err (InvalidStageDependency (fst p) j) else Ok ())"
        using assms(1)
        by (auto simp: decides_def less_system_stage_def simp del: fault_in.simps split: option.splits)
    qed
  qed
  moreover have "(\<forall>p \<in> set ?sys. \<forall>j \<in> set (ss_dependencies (snd p)). \<not> ?late (snd p) j) \<longleftrightarrow>
      (\<forall>(i, a) \<in> set ?sys. \<forall>(j, b) \<in> set ?sys. j \<in> set (ss_dependencies a) \<longrightarrow> ss_stage b \<le> ss_stage a)"
    unfolding set_map_of_sorted[OF assms(2), symmetric] by (fastforce simp: not_less)
  ultimately show ?thesis by simp
qed

lemma stage_conflicts_some:
  assumes "\<forall>i \<in> set ids. map_of sys i \<noteq> None" "distinct ids"
  shows "\<exists>cs. stage_conflicts sys ids = Some cs \<and>
    (cs = [] \<longleftrightarrow> sorted_wrt (\<lambda>i j. writes_of (the (map_of sys i)) \<inter> writes_of (the (map_of sys j)) = {}) ids) \<and>
    (\<forall>c \<in> set cs. \<exists>i \<in> set ids. \<exists>j \<in> set ids. i \<noteq> j \<and>
       c \<in> set (write_conflicts (the (map_of sys i)) (the (map_of sys j))))"
  using assms
proof (induction ids)
  case (Cons k ids)
  let ?w = "\<lambda>i. the (map_of sys i)" and ?cs = "concat (map (\<lambda>j. write_conflicts (the (map_of sys k)) (the (map_of sys j))) ids)"
  obtain cs where cs: "stage_conflicts sys ids = Some cs"
      "cs = [] \<longleftrightarrow> sorted_wrt (\<lambda>i j. writes_of (?w i) \<inter> writes_of (?w j) = {}) ids"
      "\<forall>c \<in> set cs. \<exists>i \<in> set ids. \<exists>j \<in> set ids. i \<noteq> j \<and> c \<in> set (write_conflicts (?w i) (?w j))"
    using Cons by auto
  have "those (map (pair_conflicts sys k) js) = Some (map (\<lambda>j. write_conflicts (?w k) (?w j)) js)"
    if "set js \<subseteq> set ids" for js
    using that Cons.prems(1) by (induction js) (auto simp: pair_conflicts_def)
  then have run: "stage_conflicts sys (k # ids) = Some (?cs @ cs)"
    using cs(1) by simp
  show ?case
  proof (intro exI conjI, rule run)
    show "?cs @ cs = [] \<longleftrightarrow> sorted_wrt (\<lambda>i j. writes_of (?w i) \<inter> writes_of (?w j) = {}) (k # ids)"
      unfolding append_is_Nil_conv cs(2) by (simp add: write_conflicts_empty)
    show "\<forall>c \<in> set (?cs @ cs). \<exists>i \<in> set (k # ids). \<exists>j \<in> set (k # ids). i \<noteq> j \<and>
        c \<in> set (write_conflicts (?w i) (?w j))"
      using cs(3) Cons.prems(2) by fastforce
  qed
qed simp

lemma sorted_wrt_pairwise:
  "sorted_wrt P xs \<Longrightarrow> (\<And>x y. P x y \<Longrightarrow> P y x) \<Longrightarrow> x \<in> set xs \<Longrightarrow> y \<in> set xs \<Longrightarrow> x \<noteq> y \<Longrightarrow> P x y"
  by (induction xs) auto

lemma sorted_wrt_distinct:
  "distinct xs \<Longrightarrow> (\<And>x y. x \<in> set xs \<Longrightarrow> y \<in> set xs \<Longrightarrow> x \<noteq> y \<Longrightarrow> P x y) \<Longrightarrow> sorted_wrt P xs"
  by (induction xs) auto

lemma decides_conflicts:
  assumes inv: "schedule_inv s"
  shows "decides (sch_systems s) (\<forall>(i, a) \<in> set (sch_systems s). \<forall>(j, b) \<in> set (sch_systems s).
      i \<noteq> j \<and> ss_stage a = ss_stage b \<longrightarrow> writes_of a \<inter> writes_of b = {}) (check_conflicting s)"
proof -
  let ?sys = "sch_systems s" and ?w = "\<lambda>i. the (map_of (sch_systems s) i)"
  let ?ok = "\<lambda>ids. sorted_wrt (\<lambda>i j. writes_of (?w i) \<inter> writes_of (?w j) = {}) ids"
  have i: "sorted_wrt (<) (map fst ?sys)" "\<And>i a. (i, a) \<in> set ?sys \<Longrightarrow> ss_id a = i"
      "sorted_wrt (<) (map fst (sch_stage_order s))"
      "\<And>st. distinct (stage_ids s st) \<and> set (stage_ids s st) = stage_members s st"
    using inv by (auto simp: schedule_inv_def)
  have stage: "distinct ids \<and> (\<forall>k. k \<in> set ids \<longleftrightarrow> (\<exists>a. map_of ?sys k = Some a \<and> ss_stage a = st))"
    if "(st, ids) \<in> set (sch_stage_order s)" for st ids
    using i(4)[of st] that i(3) by (auto simp: set_map_of_sorted stage_ids_def stage_members_def)
  have "\<exists>css. those (map (\<lambda>p. stage_conflicts ?sys (snd p)) ps) = Some css \<and>
      (concat css = [] \<longleftrightarrow> (\<forall>p \<in> set ps. ?ok (snd p))) \<and>
      (\<forall>c \<in> set (concat css). \<exists>p \<in> set ps. \<exists>i \<in> set (snd p). \<exists>j \<in> set (snd p). i \<noteq> j \<and>
         c \<in> set (write_conflicts (?w i) (?w j)))" if "set ps \<subseteq> set (sch_stage_order s)" for ps
    using that
  proof (induction ps)
    case (Cons p ps)
    have p: "distinct (snd p)" "\<forall>k \<in> set (snd p). map_of ?sys k \<noteq> None"
      using stage[of "fst p" "snd p"] Cons.prems by auto
    obtain cs where "stage_conflicts ?sys (snd p) = Some cs" "cs = [] \<longleftrightarrow> ?ok (snd p)"
        "\<forall>c \<in> set cs. \<exists>i \<in> set (snd p). \<exists>j \<in> set (snd p). i \<noteq> j \<and> c \<in> set (write_conflicts (?w i) (?w j))"
      using stage_conflicts_some[OF p(2,1)] by blast
    then show ?case using Cons by fastforce
  qed simp
  then obtain css where r: "those (map (\<lambda>p. stage_conflicts ?sys (snd p)) (sch_stage_order s)) = Some css"
      "concat css = [] \<longleftrightarrow> (\<forall>p \<in> set (sch_stage_order s). ?ok (snd p))"
      "\<forall>c \<in> set (concat css). \<exists>p \<in> set (sch_stage_order s). \<exists>i \<in> set (snd p). \<exists>j \<in> set (snd p). i \<noteq> j \<and>
         c \<in> set (write_conflicts (?w i) (?w j))"
    by blast
  have "(\<forall>p \<in> set (sch_stage_order s). ?ok (snd p)) \<longleftrightarrow>
      (\<forall>(i, a) \<in> set ?sys. \<forall>(j, b) \<in> set ?sys. i \<noteq> j \<and> ss_stage a = ss_stage b \<longrightarrow> writes_of a \<inter> writes_of b = {})"
    (is "?L \<longleftrightarrow> ?R")
  proof
    assume L: ?L
    have "writes_of a \<inter> writes_of b = {}" if "(i, a) \<in> set ?sys" "(j, b) \<in> set ?sys" "i \<noteq> j" "ss_stage a = ss_stage b" for i a j b
    proof -
      have m: "map_of ?sys i = Some a" "map_of ?sys j = Some b" using that i(1) by (simp_all add: set_map_of_sorted)
      have ij: "i \<in> set (stage_ids s (ss_stage a))" "j \<in> set (stage_ids s (ss_stage a))"
        using i(4)[of "ss_stage a"] m that(4) by (auto simp: stage_members_def)
      then obtain ids where ids: "stage_ids s (ss_stage a) = ids" "(ss_stage a, ids) \<in> set (sch_stage_order s)"
        by (cases "map_of (sch_stage_order s) (ss_stage a)") (auto simp: stage_ids_def dest: map_of_SomeD)
      then have "?ok ids" using L by fastforce
      then show ?thesis using sorted_wrt_pairwise[of "\<lambda>i j. writes_of (?w i) \<inter> writes_of (?w j) = {}" ids i j] ij that(3) m ids(1)
        by (simp add: Int_commute)
    qed
    then show ?R by blast
  next
    assume R: ?R
    show ?L
    proof
      fix p
      assume p: "p \<in> set (sch_stage_order s)"
      note st = stage[of "fst p" "snd p"]
      have "writes_of (?w k) \<inter> writes_of (?w l) = {}" if "k \<in> set (snd p)" "l \<in> set (snd p)" "k \<noteq> l" for k l
      proof -
        note kl = that
        obtain a b where ab: "map_of ?sys k = Some a" "map_of ?sys l = Some b" "ss_stage a = fst p" "ss_stage b = fst p"
          using st p kl(1,2) by auto
        then have m: "(k, a) \<in> set ?sys" "(l, b) \<in> set ?sys" by (simp_all add: map_of_SomeD)
        have "\<forall>(j, b) \<in> set ?sys. k \<noteq> j \<and> ss_stage a = ss_stage b \<longrightarrow> writes_of a \<inter> writes_of b = {}"
          using bspec[OF R m(1)] by simp
        from bspec[OF this m(2)] have "writes_of a \<inter> writes_of b = {}" using kl(3) ab(3,4) by simp
        then show ?thesis using ab by simp
      qed
      then show "?ok (snd p)"
        using st p by (intro sorted_wrt_distinct) auto
    qed
  qed
  moreover have "fault_in ?sys (ConflictingParallelWrite (concat css))" if ne: "concat css \<noteq> []"
  proof -
    have sound: "\<exists>a b ns c. (i, a) \<in> set ?sys \<and> (j, b) \<in> set ?sys \<and> i \<noteq> j \<and> ss_stage a = ss_stage b \<and>
        (ns, c) \<in> writes_of a \<inter> writes_of b \<and> name = ns @ '':'' @ decimal c"
      if "(i, j, name) \<in> set (concat css)" for i j name
    proof -
      note named = that
      obtain p k l where p: "p \<in> set (sch_stage_order s)" "k \<in> set (snd p)" "l \<in> set (snd p)" "k \<noteq> l"
          "(i, j, name) \<in> set (write_conflicts (?w k) (?w l))"
        using bspec[OF r(3) named] by blast
      have st: "\<forall>k. k \<in> set (snd p) \<longleftrightarrow> (\<exists>a. map_of ?sys k = Some a \<and> ss_stage a = fst p)"
        using stage[of "fst p" "snd p"] p(1) by simp
      obtain a b where ab: "map_of ?sys k = Some a" "map_of ?sys l = Some b" "ss_stage a = ss_stage b"
        using p(2,3) unfolding st[rule_format] by auto
      then have mem: "(k, a) \<in> set ?sys" "(l, b) \<in> set ?sys" by (simp_all add: map_of_SomeD)
      have "i = ss_id a \<and> j = ss_id b \<and> (\<exists>ns c. (ns, c) \<in> writes_of a \<inter> writes_of b \<and> name = ns @ '':'' @ decimal c)"
        using write_conflicts_sound[OF p(5)] ab by simp
      then show ?thesis using mem i(2)[OF mem(1)] i(2)[OF mem(2)] p(4) ab(3) by blast
    qed
    show ?thesis
      unfolding fault_in.simps
    proof (intro conjI ballI, rule ne)
      fix x
      assume "x \<in> set (concat css)"
      then show "case x of (i, j, name) \<Rightarrow> \<exists>a b ns c. (i, a) \<in> set ?sys \<and> (j, b) \<in> set ?sys \<and> i \<noteq> j \<and>
          ss_stage a = ss_stage b \<and> (ns, c) \<in> writes_of a \<inter> writes_of b \<and> name = ns @ '':'' @ decimal c"
        using sound[of "fst x" "fst (snd x)" "snd (snd x)"]
        by (simp add: case_prod_beta)
    qed
  qed
  ultimately show ?thesis using r(1,2) by (simp add: decides_def check_conflicting_def del: fault_in.simps concat_eq_Nil_conv)
qed

lemma and_then_assoc: "and_then (and_then m f) g = and_then m (\<lambda>a. and_then (f a) g)"
  by (cases m) auto

lemma validate_decides:
  assumes inv: "schedule_inv s"
  shows "if well_formed_schedule (sch_systems s)
    then validate_schedule hash s = Ok (s\<lparr>sch_hash := hash (schedule_bytes s)\<rparr>)
    else \<exists>e. validate_schedule hash s = Err e \<and> fault_in (sch_systems s) e"
proof -
  have i: "sch_stages s = all_stages" "sorted_wrt (<) (map fst (sch_systems s))" using inv by (simp_all add: schedule_inv_def)
  have "decides (sch_systems s) (well_formed_schedule (sch_systems s))
      (and_then (try_each (check_known (sch_systems s)) (sch_systems s)) (\<lambda>_.
       and_then (try_each (check_cycle (sch_systems s)) (map fst (sch_systems s))) (\<lambda>_.
       and_then (try_each (check_stages s) (sch_systems s)) (\<lambda>_. check_conflicting s))))" (is "decides _ _ ?r")
    unfolding well_formed_schedule_def
    by (intro decides_and decides_known[OF i(2)] decides_acyclic decides_stages[OF i] decides_conflicts[OF inv])
  moreover have "validate_schedule hash s = and_then ?r (\<lambda>_. Ok (s\<lparr>sch_hash := hash (schedule_bytes s)\<rparr>))"
    by (simp add: validate_schedule_def and_then_assoc)
  ultimately show ?thesis by (auto simp: decides_def split: if_splits)
qed

text \<open>C15: validation of a schedule built by registration always ends. It accepts exactly the schedules
  whose dependencies are registered, acyclic and never on a later stage and whose systems of one stage write
  disjoint components, and changes only the schedule hash; otherwise it reports a fault that is there: a cycle is a
  path of dependencies that returns to one of its systems, a conflict names two systems of one stage and a component
  that both write.
\<close>

theorem validate_schedule_iff:
  assumes "schedule_inv s"
  shows "if well_formed_schedule (sch_systems s)
    then validate_schedule hash s = Ok (s\<lparr>sch_hash := hash (schedule_bytes s)\<rparr>)
    else \<exists>e. validate_schedule hash s = Err e \<and> fault_in (sch_systems s) e"
  by (rule validate_decides[OF assms])

theorem validate_schedule_iff_witness:
  "(\<exists>s :: unit runtime_schedule. register_spec \<lparr>ss_id = 1, ss_name = ''a'', ss_stage = PlanStage, ss_reads = [],
      ss_writes = [], ss_dependencies = [1]\<rparr> schedule_new = Ok s \<and>
    (\<exists>e. validate_schedule id s = Err e \<and> fault_in (sch_systems s) e))"
proof -
  let ?spec = "\<lparr>ss_id = 1, ss_name = ''a'', ss_stage = PlanStage, ss_reads = [], ss_writes = [], ss_dependencies = [1]\<rparr>"
  obtain s :: "unit runtime_schedule" where s: "register_spec ?spec schedule_new = Ok s" "sch_systems s = [(1, ?spec)]"
    by (simp add: register_spec_def schedule_new_def)
  have "(1, 1) \<in> dep_rel [(1, ?spec)]" by (simp add: dep_rel_def deps_of_def)
  then have "\<not> well_formed_schedule (sch_systems s)" using s(2) by (auto simp: well_formed_schedule_def acyclic_def)
  then show ?thesis
    using validate_schedule_iff[OF register_spec_inv[OF schedule_new_inv s(1)], of id] s(1) by auto
qed

subsection \<open>The order of a tick\<close>

text \<open>The order in which \<open>run_tick\<close> looks the systems of the stages up.\<close>

definition run_order :: "(system_stage \<times> nat list) list \<Rightarrow> system_stage list \<Rightarrow> nat list" where
  "run_order m sts = concat (map (\<lambda>st. case map_of m st of None \<Rightarrow> [] | Some ids \<Rightarrow> ids) sts)"

lemma order_stages_Ok:
  assumes "\<And>st. kahn_sort dbg (sch_systems s) (stage_ids s st) st = Ok (ord st)"
  shows "\<exists>m. order_stages dbg s sts result = Ok m \<and>
    map_of m = (\<lambda>st. if st \<in> set sts \<and> ord st \<noteq> [] then Some (ord st) else map_of result st)"
proof (induction sts arbitrary: result)
  case (Cons st sts)
  have run: "order_stages dbg s (st # sts) result =
      (if ord st = [] then order_stages dbg s sts result else order_stages dbg s sts (btree_insert st (ord st) result))"
    using assms[of st] by (simp add: stage_ids_def)
  show ?case
    using Cons.IH[of result] Cons.IH[of "btree_insert st (ord st) result"] unfolding run
    by (cases "ord st = []") (auto simp: map_of_btree_insert fun_eq_iff)
qed auto

lemma prefix_concat_stages:
  assumes sts: "sorted_wrt (<) (sts :: system_stage list)" and k: "k < length (concat (map ord sts))"
  shows "\<exists>st i. st \<in> set sts \<and> i < length (ord st) \<and> concat (map ord sts) ! k = ord st ! i \<and>
    set (take k (concat (map ord sts))) = (\<Union>st' \<in> {st' \<in> set sts. st' < st}. set (ord st')) \<union> set (take i (ord st))"
  using assms
proof (induction sts arbitrary: k)
  case (Cons a sts)
  show ?case
  proof (cases "k < length (ord a)")
    case True
    have none: "{st' \<in> set (a # sts). st' < a} = {}" using Cons.prems(1) by auto
    show ?thesis
      by (intro exI[of _ a] exI[of _ k]) (use True in \<open>simp only: none, simp add: nth_append\<close>)
  next
    case False
    have "k - length (ord a) < length (concat (map ord sts))" "sorted_wrt (<) sts"
      using Cons.prems False by auto
    then obtain st i where st: "st \<in> set sts" "i < length (ord st)"
        "concat (map ord sts) ! (k - length (ord a)) = ord st ! i"
        "set (take (k - length (ord a)) (concat (map ord sts))) =
          (\<Union>st' \<in> {st' \<in> set sts. st' < st}. set (ord st')) \<union> set (take i (ord st))"
      using Cons.IH[of "k - length (ord a)"] by blast
    have "{st' \<in> set (a # sts). st' < st} = insert a {st' \<in> set sts. st' < st}" using Cons.prems(1) st(1) by auto
    then show ?thesis using False st by (intro exI[of _ st] exI[of _ i]) (auto simp: nth_append)
  qed
qed simp

lemma well_formed_known:
  assumes "well_formed_schedule sys" "(i, a) \<in> set sys" "d \<in> set (ss_dependencies a)"
  shows "\<exists>b. (d, b) \<in> set sys"
proof -
  have "\<forall>(i, a) \<in> set sys. set (ss_dependencies a) \<subseteq> fst ` set sys"
    using assms(1) by (simp add: well_formed_schedule_def)
  from bspec[OF this assms(2)] have "d \<in> fst ` set sys" using assms(3) by auto
  then show ?thesis by force
qed

lemma well_formed_stage:
  assumes "well_formed_schedule sys" "(i, a) \<in> set sys" "d \<in> set (ss_dependencies a)" "(d, b) \<in> set sys"
  shows "ss_stage b \<le> ss_stage a"
proof -
  have "\<forall>(i, a) \<in> set sys. \<forall>(j, b) \<in> set sys. j \<in> set (ss_dependencies a) \<longrightarrow> ss_stage b \<le> ss_stage a"
    using assms(1) by (simp add: well_formed_schedule_def)
  from bspec[OF this assms(2)] have "\<forall>(j, b) \<in> set sys. j \<in> set (ss_dependencies a) \<longrightarrow> ss_stage b \<le> ss_stage a"
    by simp
  from bspec[OF this assms(4)] show ?thesis using assms(3) by simp
qed

lemma intra_deps_sub: "intra_deps sys ids \<subseteq> (dep_rel sys)\<inverse>"
  by (auto simp: intra_deps_def dep_rel_def)

lemma stage_orders_respect:
  assumes inv: "schedule_inv s" and wf: "well_formed_schedule (sch_systems s)"
    and ord: "\<And>st. set (ord st) = stage_members s st"
      "\<And>st. topo_prefix (stage_edges (sch_systems s) (stage_ids s st)) (ord st)"
    and k: "k < length (concat (map ord all_stages))"
  shows "set (deps_of (sch_systems s) (concat (map ord all_stages) ! k)) \<subseteq> set (take k (concat (map ord all_stages)))"
proof
  let ?sys = "sch_systems s" and ?w = "concat (map ord all_stages)"
  have i: "sorted_wrt (<) (map fst ?sys)" "\<And>st. set (stage_ids s st) = stage_members s st"
    using inv by (simp_all add: schedule_inv_def)
  fix d
  assume d: "d \<in> set (deps_of ?sys (?w ! k))"
  obtain st l where st: "l < length (ord st)" "?w ! k = ord st ! l"
      "set (take k ?w) = (\<Union>st' \<in> {st' \<in> set all_stages. st' < st}. set (ord st')) \<union> set (take l (ord st))"
    using prefix_concat_stages[OF all_stages_sorted k] by blast
  have wk: "?w ! k \<in> stage_members s st" using st(1,2) nth_mem[of l "ord st"] ord(1) by simp
  then obtain a where a: "map_of ?sys (?w ! k) = Some a" "ss_stage a = st" unfolding stage_members_def by blast
  then have mem: "(?w ! k, a) \<in> set ?sys" and da: "ss_dependencies a = deps_of ?sys (?w ! k)"
    by (simp_all add: deps_of_def map_of_SomeD)
  then obtain b where b: "(d, b) \<in> set ?sys"
    using well_formed_known[OF wf mem] d da by auto
  have le: "ss_stage b \<le> st" using well_formed_stage[OF wf mem _ b] a(2) d da by simp
  have db: "d \<in> stage_members s (ss_stage b)" using b i(1) by (simp add: stage_members_def set_map_of_sorted)
  show "d \<in> set (take k ?w)"
  proof (cases "ss_stage b = st")
    case True
    then have "(d, ord st ! l) \<in> set (stage_edges ?sys (stage_ids s st))"
      using d db wk st(2) by (simp add: set_stage_edges intra_deps_def i(2))
    then show ?thesis using ord(2)[of st] st(1,3) unfolding topo_prefix_def by blast
  next
    case False
    then have "ss_stage b < st" using le by simp
    then show ?thesis using db st(3) ord(1) by auto
  qed
qed

text \<open>A schedule that validation accepts has an order for every tick: the order of the stages exists, its
  concatenation lists every registered system exactly once, and every system comes after all systems it depends on,
  those of earlier stages included.
\<close>

theorem validated_order_correct:
  assumes inv: "schedule_inv s" and ok: "validate_schedule hash s = Ok s'"
  shows "\<exists>m. topological_order dbg s' = Ok m \<and>
    distinct (run_order m (sch_stages s')) \<and> set (run_order m (sch_stages s')) = fst ` set (sch_systems s') \<and>
    (\<forall>k < length (run_order m (sch_stages s')).
       set (deps_of (sch_systems s') (run_order m (sch_stages s') ! k)) \<subseteq> set (take k (run_order m (sch_stages s'))))"
proof -
  let ?sys = "sch_systems s"
  have wf: "well_formed_schedule ?sys" and s': "s' = s\<lparr>sch_hash := hash (schedule_bytes s)\<rparr>"
    using validate_decides[OF inv, of hash] ok by (auto split: if_splits)
  have i: "sch_stages s = all_stages" "sorted_wrt (<) (map fst ?sys)"
      "\<And>st. distinct (stage_ids s st)" "\<And>st. set (stage_ids s st) = stage_members s st"
    using inv by (simp_all add: schedule_inv_def)
  have ids: "stage_ids s' st = stage_ids s st" for st by (simp add: stage_ids_def s')
  have acyc: "acyclic (intra_deps ?sys (stage_ids s st))" for st
    by (rule acyclic_subset[OF _ intra_deps_sub]) (use wf in \<open>simp add: well_formed_schedule_def acyclic_converse\<close>)
  have "\<exists>ord. \<forall>st. kahn_sort dbg ?sys (stage_ids s st) st = Ok (ord st) \<and> distinct (ord st) \<and>
      set (ord st) = set (stage_ids s st) \<and> topo_prefix (stage_edges ?sys (stage_ids s st)) (ord st)"
  proof (rule choice, rule allI)
    fix st
    show "\<exists>ord. kahn_sort dbg ?sys (stage_ids s st) st = Ok ord \<and> distinct ord \<and>
        set ord = set (stage_ids s st) \<and> topo_prefix (stage_edges ?sys (stage_ids s st)) ord"
      using kahn_sort_decides[OF i(3)[of st], where sys = ?sys and dbg = dbg and st = st] acyc[of st] by auto
  qed
  then obtain ord where ord: "\<And>st. kahn_sort dbg ?sys (stage_ids s st) st = Ok (ord st)" "\<And>st. distinct (ord st)"
      "\<And>st. set (ord st) = stage_members s st" "\<And>st. topo_prefix (stage_edges ?sys (stage_ids s st)) (ord st)"
    unfolding i(4) by blast
  obtain m where m: "topological_order dbg s' = Ok m"
      "map_of m = (\<lambda>st. if st \<in> set all_stages \<and> ord st \<noteq> [] then Some (ord st) else map_of [] st)"
    using order_stages_Ok[of dbg s' ord all_stages "[]"] ord(1) ids i(1) by (auto simp: topological_order_def s')
  define w where "w = concat (map ord all_stages)"
  have run: "run_order m (sch_stages s') = w"
    by (simp add: run_order_def w_def s' i(1) m(2) cong: map_cong) (simp add: all_stages_def)
  have members: "j \<in> stage_members s st \<longleftrightarrow> (\<exists>a. map_of ?sys j = Some a \<and> ss_stage a = st)" for j st
    by (simp add: stage_members_def)
  have "distinct w"
    using ord(2) unfolding w_def all_stages_def by (simp add: ord(3)) (auto simp: members)
  moreover have "set w = fst ` set ?sys"
  proof -
    have "set w = {j. map_of ?sys j \<noteq> None}" by (auto simp: w_def ord(3) members)
    then show ?thesis by (simp add: map_of_eq_None_iff)
  qed
  moreover have "set (deps_of ?sys (w ! k)) \<subseteq> set (take k w)" if "k < length w" for k
    using stage_orders_respect[OF inv wf ord(3,4), of k] that unfolding w_def by simp
  moreover have "sch_systems s' = ?sys" by (simp add: s')
  ultimately show ?thesis using m(1) unfolding run[symmetric] by auto
qed

theorem validated_order_correct_witness:
  "\<exists>(s :: unit runtime_schedule) s' m. register_spec \<lparr>ss_id = 1, ss_name = ''a'', ss_stage = PlanStage, ss_reads = [],
      ss_writes = [], ss_dependencies = []\<rparr> schedule_new = Ok s \<and> validate_schedule id s = Ok s' \<and>
    topological_order True s' = Ok m \<and> set (run_order m (sch_stages s')) = {1}"
proof -
  let ?spec = "\<lparr>ss_id = 1, ss_name = ''a'', ss_stage = PlanStage, ss_reads = [], ss_writes = [], ss_dependencies = []\<rparr>"
  obtain s :: "unit runtime_schedule" where s: "register_spec ?spec schedule_new = Ok s" "sch_systems s = [(1, ?spec)]"
    by (simp add: register_spec_def schedule_new_def)
  note inv = register_spec_inv[OF schedule_new_inv s(1)]
  have "dep_rel [(1, ?spec)] = {}" by (simp add: dep_rel_def deps_of_def)
  then have "well_formed_schedule (sch_systems s)"
    unfolding s(2) by (simp add: well_formed_schedule_def acyclic_def)
  then have v: "validate_schedule id s = Ok (s\<lparr>sch_hash := id (schedule_bytes s)\<rparr>)"
    using validate_decides[OF inv, of id] by simp
  obtain m where "topological_order True (s\<lparr>sch_hash := id (schedule_bytes s)\<rparr>) = Ok m"
      "set (run_order m (sch_stages (s\<lparr>sch_hash := id (schedule_bytes s)\<rparr>))) = {1}"
    using validated_order_correct[OF inv v, of True] s(2) by auto
  then show ?thesis using s(1) v by blast
qed

end
