(* ===== verification/Tick_Systems.thy ===== *)
theory Tick_Systems
  imports Tick_Schedule Buffer_Lifetimes "HOL-Library.List_Lexorder" "HOL-Library.Char_ord" "HOL-Library.Product_Lexorder"
begin

text \<open>
  The eight systems of a tick (\<open>schedule.rs\<close>) and the selection of providers (\<open>ports/mod.rs\<close>). A system reads
  the world, emits commands and keeps the handles of the running dispatches. What it takes from outside is
  in its context: the clock and the deadline, whose every reading is arbitrary, the provider selector, the
  dispatchers, JSON and the file system, and the registry of compiled artifacts (\<open>backend.rs\<close>). The locks are
  never poisoned.
\<close>

subsection \<open>Providers\<close>

record provider_descriptor =
  pd_id :: string
  pd_backend :: string
  pd_priority :: "32 word"
  pd_available :: bool

datatype fallback_reason = RequestedProviderUnavailable string | CandidateProviderUnavailable string
  | RequestedProviderNotSpecified | NoAvailableProvider

record selection_request =
  sr_operation :: string
  sr_requested :: "string option"
  sr_fallbacks :: "string list"

record selection_receipt =
  rc_request_id :: nat
  rc_operation :: string
  rc_requested :: "string option"
  rc_selected :: "string option"
  rc_backend :: "string option"
  rc_attempted :: "string list"
  rc_fallback_reason :: "fallback_reason option"

definition selector_new :: "provider_descriptor list \<Rightarrow> provider_descriptor list" where
  "selector_new providers = sort_key (\<lambda>p. (pd_priority p, pd_id p)) providers"

definition selector_default :: "provider_descriptor list" where
  "selector_default = selector_new
     [\<lparr>pd_id = ''cpu'', pd_backend = ''cpu'', pd_priority = - 1, pd_available = True\<rparr>]"

text \<open>A requested provider counts when it is neither empty nor \<open>auto\<close>.\<close>

definition requested_provider :: "selection_request \<Rightarrow> string option" where
  "requested_provider req = (case sr_requested req of
     Some p \<Rightarrow> if p \<noteq> [] \<and> p \<noteq> ''auto'' then Some p else None | None \<Rightarrow> None)"

definition selection_candidates :: "provider_descriptor list \<Rightarrow> selection_request \<Rightarrow> string list" where
  "selection_candidates providers req =
     (let cs = (case requested_provider req of Some p \<Rightarrow> [p] | None \<Rightarrow> []) @ sr_fallbacks req
      in if cs = [] then map pd_id providers else cs)"

text \<open>The loop over the candidates: the provider found, the attempts, the reason and the last unavailable candidate.\<close>

fun select_loop :: "provider_descriptor list \<Rightarrow> string option \<Rightarrow> string list \<Rightarrow> string list \<Rightarrow>
    fallback_reason option \<Rightarrow> string option \<Rightarrow>
    provider_descriptor option \<times> string list \<times> fallback_reason option \<times> string option" where
  "select_loop providers requested [] attempted reason unavailable = (None, attempted, reason, unavailable)"
| "select_loop providers requested (c # cs) attempted reason unavailable =
     (if c \<in> set attempted then select_loop providers requested cs attempted reason unavailable
      else let next_candidate = select_loop providers requested cs (attempted @ [c])
             (if requested = Some c then Some (RequestedProviderUnavailable c) else reason) (Some c)
        in case find (\<lambda>p. pd_id p = c) providers of
          Some p \<Rightarrow>
            if pd_available p
            then (Some p, attempted @ [c],
              (case requested of Some r \<Rightarrow> if r \<noteq> c then Some (RequestedProviderUnavailable r) else reason
               | None \<Rightarrow> reason), unavailable)
            else next_candidate
        | None \<Rightarrow> next_candidate)"

definition final_reason :: "selection_request \<Rightarrow> provider_descriptor option \<Rightarrow> fallback_reason option \<Rightarrow>
    string option \<Rightarrow> fallback_reason option" where
  "final_reason req selected reason unavailable =
     (if selected = None then (if reason = None then Some NoAvailableProvider else reason)
      else if reason = None then (case unavailable of
          Some p \<Rightarrow> Some (CandidateProviderUnavailable p)
        | None \<Rightarrow> if sr_requested req = None then Some RequestedProviderNotSpecified else None)
      else reason)"

definition static_select :: "provider_descriptor list \<Rightarrow> nat \<Rightarrow> selection_request \<Rightarrow> selection_receipt" where
  "static_select providers uuid req =
     (let (selected, attempted, reason, unavailable) =
        select_loop providers (requested_provider req) (selection_candidates providers req) [] None None
      in \<lparr>rc_request_id = uuid, rc_operation = sr_operation req, rc_requested = sr_requested req,
          rc_selected = map_option pd_id selected, rc_backend = map_option pd_backend selected,
          rc_attempted = attempted, rc_fallback_reason = final_reason req selected reason unavailable\<rparr>)"

definition parse_backend :: "string \<Rightarrow> (runtime_error, backend_kind) outcome" where
  "parse_backend name =
     (let n = to_ascii_lowercase name in
      if n = ''metal'' then Ok Metal
      else if n = ''cpu'' \<or> n = ''cpu-reference'' then Ok CPU
      else if n = ''ane'' then Ok ANE
      else if n = ''cuda'' then Ok CUDA
      else if n = ''vulkan'' then Ok Vulkan
      else if n = ''amd-npu'' \<or> n = ''amdnpu'' then Ok AmdNpu
      else if n = ''auto'' then Ok CPU
      else Err (DispatchError ''unknown backend''))"

subsection \<open>Dispatchers and the context of a system\<close>

record dispatch_request =
  dr_work_entity :: nat
  dr_attempt :: "32 word"
  dr_plan_generation :: "32 word"
  dr_lease_token :: string
  dr_deadline_ms :: nat
  dr_backend :: string
  dr_config :: string
  dr_input_path :: string
  dr_output_path :: string

record dispatch_handle =
  dh_id :: string
  dh_work_entity :: nat
  dh_attempt :: "32 word"

datatype dispatch_status = DispatchRunning | DispatchCompleted "8 word list" | DispatchFailed string

text \<open>
  A dispatcher answers the n-th call of a run. Cancelling is best effort: its answer is dropped.
\<close>

record dispatcher =
  wd_start :: "nat \<Rightarrow> dispatch_request \<Rightarrow> string + dispatch_handle"
  wd_poll :: "nat \<Rightarrow> dispatch_handle \<Rightarrow> string + dispatch_status"

text \<open>\<open>NoopDispatcher\<close> completes at once.\<close>

definition noop_dispatcher :: dispatcher where
  "noop_dispatcher = \<lparr>wd_start = (\<lambda>_ req. Inr \<lparr>dh_id = ''noop'', dh_work_entity = dr_work_entity req,
       dh_attempt = dr_attempt req\<rparr>),
     wd_poll = (\<lambda>_ _. Inr (DispatchCompleted []))\<rparr>"

text \<open>What is rendered as JSON: \<open>{}\<close>, the phase of an inference, a provider selection, an artifact binding.\<close>

datatype 'b dispatch_config = EmptyConfig
  | PhaseConfig string "32 word" "32 word" "32 word" nat "32 word" "32 word"
  | SelectionConfig selection_receipt | BindingConfig 'b selection_receipt

datatype publish_report = EmptyReport | FileVerified string string nat | ReadFailed string nat | EmptyOutput string
  | FileNotFound string

record 'b system_context =
  sc_should_stop :: "nat \<Rightarrow> bool"
  sc_now_ms :: "nat \<Rightarrow> nat"
  sc_admission_capacity :: nat
  sc_policy :: admission_policy
  sc_world :: kernel_world
  sc_select :: "nat \<Rightarrow> selection_request \<Rightarrow> selection_receipt"
  sc_dispatcher :: "dispatcher option"
  sc_kernel_dispatcher :: "dispatcher option"
  sc_binding :: "entity \<Rightarrow> 'b option"
  sc_validate :: "string \<Rightarrow> 'b \<Rightarrow> bool"
  sc_config_json :: "'b dispatch_config \<Rightarrow> string"
  sc_report_json :: "publish_report \<Rightarrow> string"
  sc_file_len :: "string \<Rightarrow> nat option"
  sc_read_file :: "string \<Rightarrow> 8 word list option"
  sc_hash_hex :: "8 word list \<Rightarrow> string"

record system_state =
  sy_commands :: "command list"
  sy_active :: "dispatch_handle list"
  sy_receipts :: "selection_receipt list"

type_synonym 'b tick_system = "'b system_context \<Rightarrow> (system_state, runtime_error, unit) action"

definition emit :: "command \<Rightarrow> (system_state, runtime_error, unit) action" where
  "emit c s = (Ok (), s\<lparr>sy_commands := sy_commands s @ [c]\<rparr>)"

definition lift_outcome :: "('e, 'a) outcome \<Rightarrow> ('s, 'e, 'a) action" where
  "lift_outcome r s = (r, s)"

text \<open>
  \<open>should_stop\<close> is asked at the start (reading 0) and before every entity (reading \<open>Suc i\<close>).
\<close>

fun each_until :: "(nat \<Rightarrow> bool) \<Rightarrow> nat \<Rightarrow> (nat \<Rightarrow> 'a \<Rightarrow> ('s, 'e, unit) action) \<Rightarrow> 'a list \<Rightarrow>
    ('s, 'e, unit) action" where
  "each_until stop i f [] = act_return ()"
| "each_until stop i f (x # xs) =
     (if stop (Suc i) then act_return () else act_bind (f i x) (\<lambda>_. each_until stop (Suc i) f xs))"

definition system_pass :: "'b system_context \<Rightarrow> (nat \<Rightarrow> 'a \<Rightarrow> (system_state, runtime_error, unit) action) \<Rightarrow>
    'a list \<Rightarrow> (system_state, runtime_error, unit) action" where
  "system_pass ctx f xs = (if sc_should_stop ctx 0 then act_return () else each_until (sc_should_stop ctx) 0 f xs)"

subsection \<open>Reading the world\<close>

abbreviation (input) "T_output_path \<equiv> 101 :: type_id"
abbreviation (input) "T_input_path \<equiv> 102 :: type_id"
abbreviation (input) "T_admitted \<equiv> 109 :: type_id"
abbreviation (input) "T_planned \<equiv> 110 :: type_id"
abbreviation (input) "T_published \<equiv> 111 :: type_id"

definition as_work_state :: "kernel_value \<Rightarrow> work_state option" where
  "as_work_state v = (case v of VWorkState s \<Rightarrow> Some s | _ \<Rightarrow> None)"

definition work_states :: "kernel_world \<Rightarrow> (entity \<times> work_state) list" where
  "work_states w = List.map_filter (\<lambda>(e, v). map_option (Pair e) (as_work_state v)) (query w T_work_state)"

definition has_marker :: "kernel_world \<Rightarrow> type_id \<Rightarrow> entity \<Rightarrow> bool" where
  "has_marker w t e \<longleftrightarrow> get_component w t e \<noteq> None"

definition get_output_path :: "kernel_world \<Rightarrow> entity \<Rightarrow> string option" where
  "get_output_path w e = (case get_component w T_output_path e of Some (VOther _ _ (KWorkOutputPath p)) \<Rightarrow> Some p
     | _ \<Rightarrow> None)"

definition get_input_path :: "kernel_world \<Rightarrow> entity \<Rightarrow> string option" where
  "get_input_path w e = (case get_component w T_input_path e of Some (VOther _ _ (KWorkInputPath p)) \<Rightarrow> Some p
     | _ \<Rightarrow> None)"

text \<open>The entities whose state satisfies a condition, by id, at most \<open>limit\<close> of them.\<close>

definition select_work :: "kernel_world \<Rightarrow> nat \<Rightarrow> (entity \<Rightarrow> work_state \<Rightarrow> bool) \<Rightarrow> entity list" where
  "select_work w limit p = take limit (sort_key eid (map fst (filter (\<lambda>(e, s). p e s) (work_states w))))"

definition is_leased :: "work_state \<Rightarrow> bool" where
  "is_leased s = (case s of WLeased _ \<Rightarrow> True | _ \<Rightarrow> False)"

definition cancel_expired :: "entity \<Rightarrow> string \<Rightarrow> (system_state, runtime_error, unit) action" where
  "cancel_expired e reason = emit (Lifecycle (LcRequestCancellation e reason))"

subsection \<open>Observe, plan, admit and lease\<close>

definition observe_run :: "'b tick_system" where
  "observe_run ctx = system_pass ctx
     (\<lambda>i e. emit (Lifecycle (LcMarkObserved e (current_epoch (sc_world ctx)))))
     (select_work (sc_world ctx) 64 (\<lambda>e s. s = WPending \<and> \<not> has_marker (sc_world ctx) T_planned e))"

definition planned_work :: "kernel_world \<Rightarrow> entity \<Rightarrow> work_state \<Rightarrow> bool" where
  "planned_work w e s \<longleftrightarrow> s = WReady \<and> has_marker w T_planned e \<and> \<not> has_marker w T_admitted e"

definition plan_run :: "'b tick_system" where
  "plan_run ctx = system_pass ctx
     (\<lambda>i e. act_bind (lift_outcome (parse_backend ''auto'')) (\<lambda>backend.
        emit (Lifecycle (LcRecordWorkPlan e backend ''cimage''
          (if get_work_item (sc_world ctx) e \<noteq> None then 1024 else 512) 30000))))
     (select_work (sc_world ctx) 64 (planned_work (sc_world ctx)))"

definition active_work :: "kernel_world \<Rightarrow> (entity \<times> work_state) list" where
  "active_work w = filter (\<lambda>(e, s). (s = WReady \<or> is_leased s) \<and> has_marker w T_admitted e) (work_states w)"

text \<open>\<open>sum\<close> on \<open>u32\<close> panics on overflow in debug builds.\<close>

fun sum_u32 :: "bool \<Rightarrow> 32 word \<Rightarrow> 32 word list \<Rightarrow> 32 word option" where
  "sum_u32 dbg acc [] = Some acc"
| "sum_u32 dbg acc (x # xs) =
     (if dbg \<and> unat acc + unat x \<ge> 2 ^ 32 then None else sum_u32 dbg (acc + x) xs)"

definition reserved_by_active :: "bool \<Rightarrow> kernel_world \<Rightarrow> 32 word option" where
  "reserved_by_active dbg w =
     sum_u32 dbg 0 (map reserved_tokens (List.map_filter (\<lambda>(e, s). get_inference w e) (active_work w)))"

definition work_priority_of :: "kernel_world \<Rightarrow> entity \<Rightarrow> 32 word" where
  "work_priority_of w e = (case get_inference w e of Some m \<Rightarrow> inf_priority m | None \<Rightarrow> 0)"

definition admit_order :: "kernel_world \<Rightarrow> entity list" where
  "admit_order w = sort_key (\<lambda>e. (2 ^ 32 - unat (work_priority_of w e), eid e))
     (map fst (filter (\<lambda>(e, s). planned_work w e s) (work_states w)))"

fun admit_loop :: "'b system_context \<Rightarrow> nat \<Rightarrow> nat \<Rightarrow> entity list \<Rightarrow> nat \<Rightarrow> 32 word \<Rightarrow>
    (system_state, runtime_error, unit) action" where
  "admit_loop ctx available i [] admitted tokens = act_return ()"
| "admit_loop ctx available i (e # es) admitted tokens =
     (if admitted \<ge> min available 64 \<or> sc_should_stop ctx (Suc i) then act_return ()
      else case get_inference (sc_world ctx) e of
        Some m \<Rightarrow>
          if deadline_expired m (sc_now_ms ctx i)
          then act_bind (cancel_expired e ''inference deadline expired before admission'')
            (\<lambda>_. admit_loop ctx available (Suc i) es admitted tokens)
          else if required_kv_tokens m > max_kv_tokens (sc_policy ctx) \<or>
              sat_add32 tokens (reserved_tokens m) > max_inflight_tokens (sc_policy ctx)
          then admit_loop ctx available (Suc i) es admitted tokens
          else act_bind (emit (Lifecycle (LcAdmitWork e)))
            (\<lambda>_. admit_loop ctx available (Suc i) es (admitted + 1) (sat_add32 tokens (reserved_tokens m)))
      | None \<Rightarrow> act_bind (emit (Lifecycle (LcAdmitWork e)))
          (\<lambda>_. admit_loop ctx available (Suc i) es (admitted + 1) tokens))"

definition admit_run :: "bool \<Rightarrow> 'b tick_system" where
  "admit_run dbg ctx =
     (if sc_should_stop ctx 0 then act_return ()
      else let active = length (active_work (sc_world ctx)) in
        act_bind (lift_outcome (of_panic (reserved_by_active dbg (sc_world ctx)))) (\<lambda>tokens.
        let available = sc_admission_capacity ctx - active in
        if available = 0 then act_return ()
        else admit_loop ctx available 0 (admit_order (sc_world ctx)) 0 tokens))"

definition lease_ttl :: "inference_metadata option \<Rightarrow> nat \<Rightarrow> nat" where
  "lease_ttl m now = (case m of
     Some m \<Rightarrow> if now \<le> deadline_ms m then min (max (deadline_ms m - now) 1) 60000 else 60000
   | None \<Rightarrow> 60000)"

text \<open>Entity \<open>i\<close> reads the clock at \<open>2 * i\<close> and \<open>2 * i + 1\<close>.\<close>

definition lease_one :: "'b system_context \<Rightarrow> nat \<Rightarrow> entity \<Rightarrow> (system_state, runtime_error, unit) action" where
  "lease_one ctx i e =
     (let m = get_inference (sc_world ctx) e in
      if (case m of Some md \<Rightarrow> deadline_expired md (sc_now_ms ctx (2 * i)) | None \<Rightarrow> False)
      then cancel_expired e ''inference deadline expired before lease''
      else emit (Lifecycle (LcAcquireWorkLease e 1 (lease_ttl m (sc_now_ms ctx (2 * i + 1))))))"

definition leasable_work :: "kernel_world \<Rightarrow> entity \<Rightarrow> work_state \<Rightarrow> bool" where
  "leasable_work w e s \<longleftrightarrow> s = WReady \<and> has_marker w T_admitted e"

definition lease_run :: "'b tick_system" where
  "lease_run ctx = system_pass ctx (lease_one ctx) (select_work (sc_world ctx) 32 (leasable_work (sc_world ctx)))"

subsection \<open>Dispatch\<close>

definition phase_config :: "admission_policy \<Rightarrow> inference_metadata \<Rightarrow> 'b dispatch_config" where
  "phase_config policy m =
     (let (start, stop) = (case phase m of
          Prefill \<Rightarrow> next_prefill_chunk m (min (ap_prefill_chunk_tokens policy) (max_prefill_tokens_per_tick policy))
        | Decode \<Rightarrow> (prefilled_tokens m, prefilled_tokens m));
          name = (if phase m = Prefill \<and> stop > start then ''prefill'' else ''decode'')
      in PhaseConfig name start stop (generated_tokens m) (kv_epoch m) (kv_tokens m) (reserved_tokens m))"

definition dispatch_deadline :: "inference_metadata option \<Rightarrow> nat \<Rightarrow> nat" where
  "dispatch_deadline m now = (case m of
     Some md \<Rightarrow> if deadline_ms md = 0 then sat_add64 now 30000 else deadline_ms md
   | None \<Rightarrow> sat_add64 now 30000)"

definition fail_work :: "entity \<Rightarrow> string \<Rightarrow> 32 word \<Rightarrow> bool \<Rightarrow> (system_state, runtime_error, unit) action" where
  "fail_work e err gen retryable = emit (Lifecycle (LcFailWork e err gen retryable))"

text \<open>The dispatcher of an entity is asked to start; its handle is kept.\<close>

definition start_dispatch :: "'b system_context \<Rightarrow> nat \<Rightarrow> entity \<Rightarrow> dispatcher option \<Rightarrow> nat \<Rightarrow> string \<Rightarrow> string \<Rightarrow>
    (system_state, runtime_error, unit) action" where
  "start_dispatch ctx i e d deadline bk config = (case d of
     None \<Rightarrow> act_return ()
   | Some disp \<Rightarrow>
       (let request = \<lparr>dr_work_entity = eid e, dr_attempt = 1, dr_plan_generation = 0,
          dr_lease_token = resource_key e, dr_deadline_ms = deadline, dr_backend = bk, dr_config = config,
          dr_input_path = (case get_input_path (sc_world ctx) e of Some q \<Rightarrow> q | None \<Rightarrow> []),
          dr_output_path = (case get_output_path (sc_world ctx) e of Some q \<Rightarrow> q | None \<Rightarrow> [])\<rparr>
        in case wd_start disp i request of
          Inr handle \<Rightarrow> (\<lambda>s. (Ok (), s\<lparr>sy_active := sy_active s @ [handle]\<rparr>))
        | Inl _ \<Rightarrow> fail_work e ''dispatch start failed'' 1 True))"

text \<open>With a provider: the artifact binding is validated, the intent emitted, the dispatch started.\<close>

definition dispatch_with :: "'b system_context \<Rightarrow> nat \<Rightarrow> entity \<Rightarrow> 'b dispatch_config \<Rightarrow> nat \<Rightarrow> selection_receipt \<Rightarrow>
    string \<Rightarrow> (system_state, runtime_error, unit) action" where
  "dispatch_with ctx i e config deadline sel bk =
     (let binding = sc_binding ctx e;
          effective = sc_config_json ctx (case binding of
              Some b \<Rightarrow> BindingConfig b sel
            | None \<Rightarrow> if config = EmptyConfig then SelectionConfig sel else config)
      in if (case binding of Some b \<Rightarrow> \<not> sc_validate ctx bk b | None \<Rightarrow> False)
         then fail_work e ''artifact dispatch validation failed'' 1 False
         else act_bind (lift_outcome (parse_backend bk)) (\<lambda>kind.
           act_bind (emit (Lifecycle (LcRecordDispatchIntent e kind effective deadline))) (\<lambda>_.
           start_dispatch ctx i e
             (if binding \<noteq> None \<and> sc_dispatcher ctx = None then sc_kernel_dispatcher ctx else sc_dispatcher ctx)
             deadline bk effective)))"

definition dispatch_selection :: selection_request where
  "dispatch_selection = \<lparr>sr_operation = ''work_dispatch'', sr_requested = Some ''auto'',
     sr_fallbacks = [''metal'', ''cpu'']\<rparr>"

definition dispatch_one :: "'b system_context \<Rightarrow> nat \<Rightarrow> entity \<Rightarrow> (system_state, runtime_error, unit) action" where
  "dispatch_one ctx i e s =
     (let m = get_inference (sc_world ctx) e; now = sc_now_ms ctx i in
      if eid e \<in> dh_work_entity ` set (sy_active s) then (Ok (), s)
      else if (case m of Some md \<Rightarrow> deadline_expired md now | None \<Rightarrow> False)
      then cancel_expired e ''inference deadline expired before dispatch'' s
      else let selection = sc_select ctx i dispatch_selection;
               s1 = s\<lparr>sy_receipts := sy_receipts s @ [selection]\<rparr>
        in case rc_backend selection of
          None \<Rightarrow> fail_work e ''provider selection failed'' 1 True s1
        | Some backend \<Rightarrow> dispatch_with ctx i e
            (case m of Some md \<Rightarrow> phase_config (sc_policy ctx) md | None \<Rightarrow> EmptyConfig)
            (dispatch_deadline m now) selection backend s1)"

definition dispatchable_work :: "kernel_world \<Rightarrow> entity \<Rightarrow> work_state \<Rightarrow> bool" where
  "dispatchable_work w e s \<longleftrightarrow> is_leased s \<and> has_marker w T_admitted e"

definition dispatch_run :: "'b tick_system" where
  "dispatch_run ctx = system_pass ctx (dispatch_one ctx)
     (select_work (sc_world ctx) 32 (dispatchable_work (sc_world ctx)))"

subsection \<open>Collect, publish and clean up\<close>

definition advance_command :: "nat \<Rightarrow> inference_metadata \<Rightarrow> command" where
  "advance_command i next_m = AdvanceInference i (phase next_m) (prefilled_tokens next_m) (generated_tokens next_m)
     (kv_epoch next_m) (kv_tokens next_m)"

definition complete_command :: "dispatch_handle \<Rightarrow> 8 word list \<Rightarrow> command" where
  "complete_command h out = Lifecycle (LcCompleteWork (Entity (dh_work_entity h) 0) (dh_attempt h) out [])"

text \<open>What a completed dispatch means for its work item.\<close>

definition completed_command :: "admission_policy \<Rightarrow> inference_metadata option \<Rightarrow> dispatch_handle \<Rightarrow> 8 word list \<Rightarrow>
    command" where
  "completed_command policy m h out = (case m of
     None \<Rightarrow> complete_command h out
   | Some md \<Rightarrow> (case phase md of
       Prefill \<Rightarrow> advance_command (dh_work_entity h)
         (next_after_prefill (min (ap_prefill_chunk_tokens policy) (max_prefill_tokens_per_tick policy)) md)
     | Decode \<Rightarrow> if is_complete_after_decode md then complete_command h out
         else advance_command (dh_work_entity h) (next_after_decode md)))"

text \<open>
  One look at a handle: \<^const>\<open>None\<close> when it stays, otherwise the command that settles it, if any.
\<close>

definition settle_handle :: "'b system_context \<Rightarrow> dispatcher \<Rightarrow> nat \<Rightarrow> dispatch_handle \<Rightarrow> command list option" where
  "settle_handle ctx d n h =
     (let e = Entity (dh_work_entity h) 0; m = get_inference (sc_world ctx) e;
          cancelled = (get_work_state (sc_world ctx) e = Some WCancelled);
          expired = (case m of Some md \<Rightarrow> deadline_expired md (sc_now_ms ctx n) | None \<Rightarrow> False)
      in if cancelled \<or> expired
         then Some (if cancelled then []
           else [Lifecycle (LcRequestCancellation e ''inference deadline expired during dispatch'')])
         else case wd_poll d n h of
           Inr (DispatchCompleted out) \<Rightarrow> Some [completed_command (sc_policy ctx) m h out]
         | Inr (DispatchFailed err) \<Rightarrow> Some [Lifecycle (LcFailWork e err (dh_attempt h) False)]
         | Inr DispatchRunning \<Rightarrow> None
         | Inl _ \<Rightarrow> None)"

text \<open>The loop over the handles: the n-th look is at index \<open>i\<close>; a settled handle is swapped out.\<close>

function collect_loop :: "'b system_context \<Rightarrow> dispatcher \<Rightarrow> nat \<Rightarrow> nat \<Rightarrow> dispatch_handle list \<Rightarrow>
    command list \<times> dispatch_handle list" where
  "collect_loop ctx d n i active =
     (if i \<ge> length active \<or> sc_should_stop ctx (Suc n) then ([], active)
      else case settle_handle ctx d n (active ! i) of
        None \<Rightarrow> collect_loop ctx d (Suc n) (Suc i) active
      | Some cs \<Rightarrow> (let (cs', active') = collect_loop ctx d (Suc n) i (swap_remove i active) in (cs @ cs', active')))"
  by pat_completeness auto
termination
  by (relation "measure (\<lambda>(_, _, _, i, active). length active - i)") (auto simp: length_swap_remove)

declare collect_loop.simps [simp del]

definition collect_run :: "'b tick_system" where
  "collect_run ctx =
     (if sc_should_stop ctx 0 then act_return ()
      else case (if sc_dispatcher ctx = None then sc_kernel_dispatcher ctx else sc_dispatcher ctx) of
        None \<Rightarrow> act_return ()
      | Some d \<Rightarrow> (\<lambda>s. let (cs, active) = collect_loop ctx d 0 0 (sy_active s)
          in (Ok (), s\<lparr>sy_commands := sy_commands s @ cs, sy_active := active\<rparr>)))"

definition publish_report_of :: "'b system_context \<Rightarrow> entity \<Rightarrow> publish_report" where
  "publish_report_of ctx e = (case get_output_path (sc_world ctx) e of
     None \<Rightarrow> EmptyReport
   | Some path \<Rightarrow> (case sc_file_len ctx path of
       None \<Rightarrow> FileNotFound path
     | Some len \<Rightarrow>
         if len > 0 then (case sc_read_file ctx path of
             Some bytes \<Rightarrow> FileVerified (sc_hash_hex ctx bytes) path len
           | None \<Rightarrow> ReadFailed path len)
         else EmptyOutput path))"

definition publish_run :: "'b tick_system" where
  "publish_run ctx = system_pass ctx
     (\<lambda>i e. emit (Lifecycle (LcPublishResult (Entity (eid e) 0) ''compilation''
        (sc_report_json ctx (publish_report_of ctx e)))))
     (select_work (sc_world ctx) 32 (\<lambda>e s. s = WCompleted \<and> \<not> has_marker (sc_world ctx) T_published e))"

definition cleanup_run :: "'b tick_system" where
  "cleanup_run ctx = system_pass ctx
     (\<lambda>i e. act_bind (emit (Lifecycle (LcReleaseWorkLease e)))
        (\<lambda>_. emit (Lifecycle (LcExpireTransientState e))))
     (select_work (sc_world ctx) 32 (\<lambda>_ s. work_is_terminal s))"

text \<open>The specification that each system declares.\<close>

definition builtin_spec :: "nat \<Rightarrow> string \<Rightarrow> system_stage \<Rightarrow> system_spec" where
  "builtin_spec i name stage = \<lparr>ss_id = i, ss_name = name, ss_stage = stage,
     ss_reads = [\<lparr>ac_namespace = ''prism.work'', ac_component = 19, ac_write = False\<rparr>], ss_writes = [],
     ss_dependencies = (if i \<le> 1 then [] else [i - 1])\<rparr>"

definition builtin_systems :: "bool \<Rightarrow> (system_spec \<times> 'b tick_system) list" where
  "builtin_systems dbg =
     [(builtin_spec 1 ''observe'' ObserveStage, observe_run), (builtin_spec 2 ''plan'' PlanStage, plan_run),
      (builtin_spec 3 ''admit'' AdmitStage, admit_run dbg), (builtin_spec 4 ''lease'' LeaseStage, lease_run),
      (builtin_spec 5 ''dispatch'' DispatchStage, dispatch_run), (builtin_spec 6 ''collect'' CollectStage, collect_run),
      (builtin_spec 7 ''publish'' PublishStage, publish_run), (builtin_spec 8 ''cleanup'' CleanupStage, cleanup_run)]"

subsection \<open>The selected provider is the first available candidate\<close>

definition is_available_as :: "provider_descriptor list \<Rightarrow> string \<Rightarrow> bool" where
  "is_available_as providers c \<longleftrightarrow> (case find (\<lambda>p. pd_id p = c) providers of Some p \<Rightarrow> pd_available p | None \<Rightarrow> False)"

definition first_available :: "provider_descriptor list \<Rightarrow> string list \<Rightarrow> provider_descriptor option" where
  "first_available providers cs = (case find (is_available_as providers) cs of
     None \<Rightarrow> None | Some c \<Rightarrow> find (\<lambda>p. pd_id p = c) providers)"

lemma first_available_id: "first_available providers cs = Some p \<Longrightarrow> pd_id p \<in> set cs \<and> is_available_as providers (pd_id p)"
  by (auto simp: first_available_def find_Some_iff split: option.splits)

lemma first_available_Cons: "first_available providers (c # cs) =
    (if is_available_as providers c then find (\<lambda>p. pd_id p = c) providers else first_available providers cs)"
  by (simp add: first_available_def)

lemma select_loop_seen: "c \<in> set attempted \<Longrightarrow>
    select_loop providers requested (c # cs) attempted reason unavailable =
      select_loop providers requested cs attempted reason unavailable"
  by simp

lemma select_loop_skip:
  assumes "c \<notin> set attempted" "\<not> is_available_as providers c"
  shows "select_loop providers requested (c # cs) attempted reason unavailable =
    select_loop providers requested cs (attempted @ [c])
      (if requested = Some c then Some (RequestedProviderUnavailable c) else reason) (Some c)"
  using assms by (simp add: is_available_as_def Let_def split: option.splits)

lemma select_loop_take:
  assumes "c \<notin> set attempted" "is_available_as providers c"
  obtains p where "find (\<lambda>p. pd_id p = c) providers = Some p" "pd_id p = c"
    "select_loop providers requested (c # cs) attempted reason unavailable = (Some p, attempted @ [c],
      (case requested of Some r \<Rightarrow> if r \<noteq> c then Some (RequestedProviderUnavailable r) else reason | None \<Rightarrow> reason),
      unavailable)"
proof -
  obtain p where p: "find (\<lambda>p. pd_id p = c) providers = Some p" "pd_available p"
    using assms(2) by (auto simp: is_available_as_def split: option.splits)
  then have "pd_id p = c" by (auto simp: find_Some_iff)
  then show ?thesis using that p assms(1) by (simp add: Let_def)
qed

text \<open>The candidates that were attempted before are not available.\<close>

lemma select_loop_result:
  assumes "\<forall>c \<in> set attempted. \<not> is_available_as providers c"
  shows "fst (select_loop providers requested cs attempted reason unavailable) = first_available providers cs \<and>
    fst (snd (snd (select_loop providers requested cs attempted reason unavailable))) = (case requested of
     None \<Rightarrow> reason
   | Some r \<Rightarrow> (case first_available providers cs of
       None \<Rightarrow> if r \<in> set cs - set attempted then Some (RequestedProviderUnavailable r) else reason
     | Some p \<Rightarrow> if pd_id p \<noteq> r then Some (RequestedProviderUnavailable r) else reason))"
  using assms
proof (induction cs arbitrary: attempted reason unavailable)
  case Nil
  then show ?case by (simp add: first_available_def split: option.split)
next
  case (Cons c cs)
  show ?case
  proof (cases "c \<in> set attempted")
    case True
    then have "first_available providers (c # cs) = first_available providers cs"
      using Cons.prems by (simp add: first_available_Cons)
    moreover have "set (c # cs) - set attempted = set cs - set attempted" using True by auto
    ultimately show ?thesis unfolding select_loop_seen[OF True] by (simp only: Cons.IH[OF Cons.prems])
  next
    case fresh: False
    show ?thesis
    proof (cases "is_available_as providers c")
      case True
      obtain p where "find (\<lambda>p. pd_id p = c) providers = Some p" "pd_id p = c"
          "select_loop providers requested (c # cs) attempted reason unavailable = (Some p, attempted @ [c],
            (case requested of Some r \<Rightarrow> if r \<noteq> c then Some (RequestedProviderUnavailable r) else reason
             | None \<Rightarrow> reason), unavailable)"
        by (rule select_loop_take[OF fresh True])
      then show ?thesis using True by (simp add: first_available_Cons split: option.split)
    next
      case False
      have ih: "\<forall>x \<in> set (attempted @ [c]). \<not> is_available_as providers x" using Cons.prems False by auto
      have first: "first_available providers (c # cs) = first_available providers cs"
        using False by (simp add: first_available_Cons)
      show ?thesis
      proof (cases "first_available providers cs")
        case None
        then show ?thesis unfolding select_loop_skip[OF fresh False] first using Cons.IH[OF ih] fresh
          by (cases requested) auto
      next
        case (Some p)
        then have "pd_id p \<noteq> c" using first_available_id[OF Some] False by auto
        then show ?thesis unfolding select_loop_skip[OF fresh False] first using Cons.IH[OF ih] Some
          by (cases requested) auto
      qed
    qed
  qed
qed

lemma select_loop_attempts:
  "distinct attempted \<Longrightarrow> distinct (fst (snd (select_loop providers requested cs attempted reason unavailable)))"
proof (induction cs arbitrary: attempted reason unavailable)
  case (Cons c cs)
  show ?case
  proof (cases "c \<in> set attempted")
    case True
    show ?thesis unfolding select_loop_seen[OF True] by (rule Cons.IH[OF Cons.prems])
  next
    case fresh: False
    show ?thesis
    proof (cases "is_available_as providers c")
      case True
      show ?thesis
        by (rule select_loop_take[OF fresh True, of requested cs reason unavailable]) (use fresh Cons.prems in simp)
    next
      case False
      show ?thesis unfolding select_loop_skip[OF fresh False] by (rule Cons.IH) (use fresh Cons.prems in simp)
    qed
  qed
qed simp

text \<open>C22: the static provider selector chooses the first candidate that is registered and available: the requested
  provider, unless it is empty or \<open>auto\<close>, then the fallbacks in order, or every registered provider when
  there is neither. A request for a named provider falls back with a reason exactly when another one is chosen, and a
  selection without result always gives a reason.
\<close>

theorem selection_correct:
  "let r = static_select providers uuid req; best = first_available providers (selection_candidates providers req) in
   rc_selected r = map_option pd_id best \<and> rc_backend r = map_option pd_backend best \<and> distinct (rc_attempted r) \<and>
   (case requested_provider req of
      Some q \<Rightarrow> rc_fallback_reason r =
        (if rc_selected r = Some q then None else Some (RequestedProviderUnavailable q))
    | None \<Rightarrow> (rc_selected r = None) = (rc_fallback_reason r = Some NoAvailableProvider))"
proof -
  obtain selected attempts reason unavailable where run: "select_loop providers (requested_provider req)
      (selection_candidates providers req) [] None None = (selected, attempts, reason, unavailable)"
    by (cases "select_loop providers (requested_provider req) (selection_candidates providers req) [] None None")
  note result = select_loop_result[of "[]" providers "requested_provider req" "selection_candidates providers req"
      None None, unfolded run, simplified]
  then have sel: "selected = first_available providers (selection_candidates providers req)" by simp
  have dist: "distinct attempts"
    using select_loop_attempts[of "[]" providers "requested_provider req" "selection_candidates providers req" None None] run
    by simp
  note reason = conjunct2[OF result]
  show ?thesis
  proof (cases "requested_provider req")
    case None
    then show ?thesis using run sel dist reason
      by (simp add: static_select_def final_reason_def split: option.splits)
  next
    case (Some q)
    then obtain cs where cs: "selection_candidates providers req = q # cs" by (simp add: selection_candidates_def)
    have req: "sr_requested req = Some q" using Some by (auto simp: requested_provider_def split: option.splits if_splits)
    show ?thesis
    proof (cases "is_available_as providers q")
      case True
      then obtain p where p: "find (\<lambda>p. pd_id p = q) providers = Some p" "pd_available p" "pd_id p = q"
        by (auto simp: is_available_as_def find_Some_iff split: option.splits)
      then have "unavailable = None" "selected = Some p" "reason = None" using run Some cs by auto
      then show ?thesis using run sel dist p req Some by (simp add: static_select_def final_reason_def)
    next
      case False
      have "first_available providers (q # cs) = Some p \<Longrightarrow> pd_id p \<noteq> q" for p
        using first_available_id[of providers cs p] False by (auto simp: first_available_Cons)
      then show ?thesis using run sel dist reason Some cs
        by (auto simp: static_select_def final_reason_def split: option.splits)
    qed
  qed
qed

subsection \<open>Passes over the work items\<close>

text \<open>The entities that a pass reaches, with their positions.\<close>

fun processed :: "(nat \<Rightarrow> bool) \<Rightarrow> nat \<Rightarrow> 'a list \<Rightarrow> (nat \<times> 'a) list" where
  "processed stop i [] = []"
| "processed stop i (x # xs) = (if stop (Suc i) then [] else (i, x) # processed stop (Suc i) xs)"

definition reached :: "'b system_context \<Rightarrow> 'a list \<Rightarrow> (nat \<times> 'a) list" where
  "reached ctx xs = (if sc_should_stop ctx 0 then [] else processed (sc_should_stop ctx) 0 xs)"

lemma processed_take: "map snd (processed stop i xs) = take (length (processed stop i xs)) xs"
  by (induction stop i xs rule: processed.induct) auto

lemma reached_take: "map snd (reached ctx xs) = take (length (reached ctx xs)) xs"
  by (simp add: reached_def processed_take)

lemma processed_all: "(\<And>n. \<not> stop n) \<Longrightarrow> processed stop i xs = zip [i ..< i + length xs] xs"
  by (induction stop i xs rule: processed.induct) (auto simp: upt_rec)

lemma reached_all: "(\<And>n. \<not> sc_should_stop ctx n) \<Longrightarrow> map snd (reached ctx xs) = xs"
  by (simp add: reached_def processed_all)

lemma each_until_emits:
  assumes "\<And>i x s. f i x s = (Ok (), s\<lparr>sy_commands := sy_commands s @ g i x\<rparr>)"
  shows "each_until stop i f xs s =
    (Ok (), s\<lparr>sy_commands := sy_commands s @ concat (map (\<lambda>(i, x). g i x) (processed stop i xs))\<rparr>)"
  by (induction stop i xs arbitrary: s rule: processed.induct) (simp_all add: act_return_def act_bind_def assms)

lemma pass_emits:
  assumes "\<And>i x s. f i x s = (Ok (), s\<lparr>sy_commands := sy_commands s @ g i x\<rparr>)"
  shows "system_pass ctx f xs s =
    (Ok (), s\<lparr>sy_commands := sy_commands s @ concat (map (\<lambda>(i, x). g i x) (reached ctx xs))\<rparr>)"
  using each_until_emits[of f g, OF assms] by (simp add: system_pass_def reached_def act_return_def)

lemma as_work_state_iff: "as_work_state v = Some s \<longleftrightarrow> v = VWorkState s"
  by (cases v) (simp_all add: as_work_state_def)

lemma get_work_state_iff: "get_work_state w e = Some s \<longleftrightarrow> get_component w T_work_state e = Some (VWorkState s)"
  for w :: kernel_world
proof (cases "get_component w T_work_state e")
  case (Some v)
  then show ?thesis by (cases v) (simp_all add: get_work_state_def)
qed (simp add: get_work_state_def)

lemma set_work_states:
  assumes "store_inv (component_store w)"
  shows "(e, s) \<in> set (work_states w) \<longleftrightarrow> store_get (component_store w) T_work_state e = Some (VWorkState s)"
  using query_iff[OF assms, of e "VWorkState s" T_work_state]
  by (auto simp: work_states_def set_filter_map as_work_state_iff intro!: bexI[of _ "(e, VWorkState s)"])

lemma kernel_store_get: "kernel_inv w \<Longrightarrow> store_get (component_store w) t e = Some v \<Longrightarrow> is_alive w e"
  by (auto simp: kernel_inv_def world_inv_def store_inv_def store_get_def column_get_iff column_iter_def
      split: option.splits dest!: set_zip_leftD)

lemma kernel_work_states:
  assumes "kernel_inv w"
  shows "(e, s) \<in> set (work_states w) \<longleftrightarrow> get_work_state w e = Some s"
proof -
  have "store_get (component_store w) T_work_state e = Some v \<longleftrightarrow> get_component w T_work_state e = Some v" for v
    using kernel_store_get[OF assms, of T_work_state e v] by (auto simp: get_component_alive)
  moreover have "store_inv (component_store w)" using assms by (simp add: kernel_inv_def world_inv_def)
  ultimately show ?thesis
    unfolding set_work_states[OF \<open>store_inv (component_store w)\<close>] get_work_state_iff by blast
qed

lemma distinct_map_filter_keys:
  assumes "distinct (map fst xs)" "\<And>p q. f p = Some q \<Longrightarrow> fst q = fst p"
  shows "distinct (map fst (List.map_filter f xs))"
proof -
  have "distinct (map fst (List.map_filter f xs)) \<and> fst ` set (List.map_filter f xs) \<subseteq> fst ` set xs"
    using assms(1)
  proof (induction xs)
    case (Cons p xs)
    then show ?case using assms(2)[of p] by (cases "f p") (auto simp: List.map_filter_simps)
  qed (simp add: List.map_filter_simps)
  then show ?thesis by blast
qed

lemma work_states_distinct:
  assumes "kernel_inv w"
  shows "distinct (map fst (work_states w))"
proof -
  have "store_inv (component_store w)" using assms by (simp add: kernel_inv_def world_inv_def)
  then have "distinct (map fst (query w T_work_state))"
    by (auto simp: query_def col_entries_def store_inv_def column_iter_distinct split: option.split)
  then show ?thesis
    unfolding work_states_def by (rule distinct_map_filter_keys) auto
qed

lemma select_work_length: "length (select_work w n p) \<le> n"
  by (simp add: select_work_def)

lemma select_work_distinct: "kernel_inv w \<Longrightarrow> distinct (select_work w n p)"
proof -
  assume "kernel_inv w"
  then have "distinct (map fst (filter (\<lambda>(e, s). p e s) (work_states w)))"
    using work_states_distinct by (metis distinct_map_filter)
  then show ?thesis by (simp add: select_work_def distinct_take)
qed

lemma select_work_mem:
  assumes "kernel_inv w" "e \<in> set (select_work w n p)"
  shows "\<exists>s. get_work_state w e = Some s \<and> p e s"
  using assms(2) by (auto simp: select_work_def kernel_work_states[OF assms(1)] dest!: in_set_takeD)

lemma select_work_all:
  assumes "kernel_inv w" "length (filter (\<lambda>(e, s). p e s) (work_states w)) \<le> n"
  shows "set (select_work w n p) = {e. \<exists>s. get_work_state w e = Some s \<and> p e s}"
  using assms(2) by (force simp: select_work_def kernel_work_states[OF assms(1)])

subsection \<open>Collecting looks at every handle once\<close>

definition settled :: "'b system_context \<Rightarrow> dispatcher \<Rightarrow> nat \<Rightarrow> dispatch_handle list \<Rightarrow> dispatch_handle list" where
  "settled ctx d n hs = map snd (filter (\<lambda>(k, h). settle_handle ctx d k h \<noteq> None) (enumerate n hs))"

definition settling_commands :: "'b system_context \<Rightarrow> dispatcher \<Rightarrow> nat \<Rightarrow> dispatch_handle list \<Rightarrow> command list" where
  "settling_commands ctx d n hs = concat (map (\<lambda>(k, h). case settle_handle ctx d k h of Some cs \<Rightarrow> cs | None \<Rightarrow> [])
     (enumerate n hs))"

lemma collect_loop_visits:
  assumes "collect_loop ctx d n i active = (cs, active')" "i \<le> length active"
  shows "\<exists>hs. mset hs \<subseteq># mset (drop i active) \<and> cs = settling_commands ctx d n hs \<and>
    mset active' + mset (settled ctx d n hs) = mset active \<and>
    ((\<forall>k. \<not> sc_should_stop ctx k) \<longrightarrow> length hs = length active - i)"
  using assms
proof (induction ctx d n i active arbitrary: cs rule: collect_loop.induct)
  case (1 ctx d n i active)
  show ?case
  proof (cases "i \<ge> length active \<or> sc_should_stop ctx (Suc n)")
    case True
    then have "cs = []" "active' = active" using "1.prems"(1) by (simp_all add: collect_loop.simps)
    then show ?thesis using True "1.prems"(2)
      by (intro exI[of _ "[]"]) (auto simp: settling_commands_def settled_def)
  next
    case False
    then have i: "i < length active" by simp
    then have rest: "add_mset (active ! i) (mset (drop (Suc i) active)) = mset (drop i active)"
      by (metis Cons_nth_drop_Suc mset.simps(2))
    show ?thesis
    proof (cases "settle_handle ctx d n (active ! i)")
      case None
      then have "collect_loop ctx d (Suc n) (Suc i) active = (cs, active')"
        using "1.prems"(1) False by (subst (asm) collect_loop.simps) simp
      then obtain hs where hs: "mset hs \<subseteq># mset (drop (Suc i) active)" "cs = settling_commands ctx d (Suc n) hs"
          "mset active' + mset (settled ctx d (Suc n) hs) = mset active"
          "(\<forall>k. \<not> sc_should_stop ctx k) \<longrightarrow> length hs = length active - Suc i"
        using "1.IH"(1)[OF False None] i by auto
      have "mset (active ! i # hs) \<subseteq># mset (drop i active)" using hs(1) rest by (metis mset.simps(2) mset_subset_eq_add_mset_cancel)
      moreover have "settling_commands ctx d n (active ! i # hs) = settling_commands ctx d (Suc n) hs"
        "settled ctx d n (active ! i # hs) = settled ctx d (Suc n) hs"
        using None by (simp_all add: settling_commands_def settled_def)
      ultimately show ?thesis using hs i by (intro exI[of _ "active ! i # hs"]) auto
    next
      case (Some cmds)
      obtain cs' where cs': "collect_loop ctx d (Suc n) i (swap_remove i active) = (cs', active')" "cs = cmds @ cs'"
        using "1.prems"(1) False Some by (subst (asm) collect_loop.simps) (auto split: prod.splits)
      have len: "length (swap_remove i active) = length active - 1" using i by (simp add: length_swap_remove)
      have i2: "i \<le> length (swap_remove i active)" using i len by linarith
      obtain hs where hs: "mset hs \<subseteq># mset (drop i (swap_remove i active))" "cs' = settling_commands ctx d (Suc n) hs"
          "mset active' + mset (settled ctx d (Suc n) hs) = mset (swap_remove i active)"
          "(\<forall>k. \<not> sc_should_stop ctx k) \<longrightarrow> length hs = length (swap_remove i active) - i"
        using "1.IH"(2)[OF False Some cs'(1) i2] by blast
      have removed: "add_mset (active ! i) (mset (swap_remove i active)) = mset active"
        unfolding mset_swap_remove[OF i] using i by (intro insert_DiffM nth_mem_mset)
      have "take i (swap_remove i active) = take i active"
        using i len by (intro nth_equalityI) (auto simp: nth_swap_remove)
      then have "add_mset (active ! i) (mset (drop i (swap_remove i active))) = mset (drop i active)"
        using removed by (metis (no_types, lifting) append_take_drop_id mset_append union_commute union_mset_add_mset_left add_left_cancel)
      then have "mset (active ! i # hs) \<subseteq># mset (drop i active)" using hs(1) by (metis mset.simps(2) mset_subset_eq_add_mset_cancel)
      moreover have "settling_commands ctx d n (active ! i # hs) = cmds @ settling_commands ctx d (Suc n) hs"
        "settled ctx d n (active ! i # hs) = active ! i # settled ctx d (Suc n) hs"
        using Some by (simp_all add: settling_commands_def settled_def)
      ultimately show ?thesis using hs i cs'(2) len removed by (intro exI[of _ "active ! i # hs"]) auto
    qed
  qed
qed

text \<open>C20: collecting ends, also when completed handles are swapped out of the list while it is scanned. It looks at no
  handle twice, and at every handle once when the tick is not stopped; it keeps exactly the handles that it
  did not settle and emits the commands of the settled ones in the order of the looks: nothing for
  cancelled work, one command otherwise.
\<close>

theorem collect_looks_once:
  assumes "sc_dispatcher ctx = Some d" "\<not> sc_should_stop ctx 0"
  shows "\<exists>hs s'. collect_run ctx s = (Ok (), s') \<and> mset hs \<subseteq># mset (sy_active s) \<and>
    mset (sy_active s') = mset (sy_active s) - mset (settled ctx d 0 hs) \<and>
    sy_commands s' = sy_commands s @ settling_commands ctx d 0 hs \<and> sy_receipts s' = sy_receipts s \<and>
    length (settling_commands ctx d 0 hs) \<le> length hs \<and>
    ((\<forall>k. \<not> sc_should_stop ctx k) \<longrightarrow> mset hs = mset (sy_active s))"
proof -
  obtain cs active where run: "collect_loop ctx d 0 0 (sy_active s) = (cs, active)"
    by (cases "collect_loop ctx d 0 0 (sy_active s)")
  obtain hs where hs: "mset hs \<subseteq># mset (sy_active s)" "cs = settling_commands ctx d 0 hs"
      "mset active + mset (settled ctx d 0 hs) = mset (sy_active s)"
      "(\<forall>k. \<not> sc_should_stop ctx k) \<longrightarrow> length hs = length (sy_active s)"
    using collect_loop_visits[OF run] by auto
  have "length (settling_commands ctx d n hs) \<le> length hs" for n
  proof (induction hs arbitrary: n)
    case (Cons h hs)
    have "length (case settle_handle ctx d n h of Some cs \<Rightarrow> cs | None \<Rightarrow> []) \<le> 1"
      by (auto simp: settle_handle_def Let_def split: sum.split dispatch_status.split)
    then show ?case using Cons[of "Suc n"] by (simp add: settling_commands_def)
  qed (simp add: settling_commands_def)
  moreover have "mset hs = mset (sy_active s)" if "length hs = length (sy_active s)"
    using hs(1) that by (metis size_mset subset_mset.le_imp_less_or_eq mset_subset_size nat_neq_iff)
  moreover have "mset active = mset (sy_active s) - mset (settled ctx d 0 hs)"
    using hs(3) by (metis add_diff_cancel_right')
  ultimately show ?thesis
    using run hs assms by (intro exI[of _ hs] exI[of _ "s\<lparr>sy_commands := sy_commands s @ cs, sy_active := active\<rparr>"])
      (auto simp: collect_run_def)
qed

text \<open>A context that never stops, with the default schedule settings.\<close>

definition sample_context :: "kernel_world \<Rightarrow> unit system_context" where
  "sample_context w = \<lparr>sc_should_stop = (\<lambda>_. False), sc_now_ms = (\<lambda>_. 0), sc_admission_capacity = 32,
     sc_policy = policy_default, sc_world = w, sc_select = static_select selector_default,
     sc_dispatcher = Some noop_dispatcher, sc_kernel_dispatcher = None, sc_binding = (\<lambda>_. None),
     sc_validate = (\<lambda>_ _. True), sc_config_json = (\<lambda>_. []), sc_report_json = (\<lambda>_. []), sc_file_len = (\<lambda>_. None),
     sc_read_file = (\<lambda>_. None), sc_hash_hex = (\<lambda>_. [])\<rparr>"

definition sample_state :: system_state where
  "sample_state = \<lparr>sy_commands = [], sy_active = [\<lparr>dh_id = ''noop'', dh_work_entity = 7, dh_attempt = 1\<rparr>],
     sy_receipts = []\<rparr>"

lemma sample_context_simps [simp]:
  "sc_world (sample_context w) = w" "sc_dispatcher (sample_context w) = Some noop_dispatcher"
  "sc_should_stop (sample_context w) n = False" "sc_policy (sample_context w) = policy_default"
  "sc_kernel_dispatcher (sample_context w) = None"
  by (simp_all add: sample_context_def)

lemma world_new_empty: "get_inference world_new e = None" "get_work_state world_new e = None"
    "work_states world_new = []"
  by (simp_all add: get_inference_def get_work_state_def get_component_def world_new_def work_states_def query_def
      col_entries_def List.map_filter_simps store_get_def)

theorem collect_looks_once_witness:
  "\<exists>s'. collect_run (sample_context world_new) sample_state = (Ok (), s') \<and> sy_active s' = []"
proof -
  let ?ctx = "sample_context world_new" and ?h = "\<lparr>dh_id = ''noop'', dh_work_entity = 7, dh_attempt = 1\<rparr>"
  have settle: "settle_handle ?ctx noop_dispatcher 0 ?h \<noteq> None"
    by (simp add: settle_handle_def noop_dispatcher_def world_new_empty)
  obtain hs s' where hs: "collect_run ?ctx sample_state = (Ok (), s')"
      "mset (sy_active s') = mset (sy_active sample_state) - mset (settled ?ctx noop_dispatcher 0 hs)"
      "mset hs = mset (sy_active sample_state)"
    using collect_looks_once[of ?ctx noop_dispatcher sample_state] by auto
  then have "hs = [?h]" by (simp add: sample_state_def)
  then have "settled ?ctx noop_dispatcher 0 hs = [?h]" using settle by (simp add: settled_def)
  then have "mset (sy_active s') = {#}" using hs(2) by (simp add: sample_state_def)
  then show ?thesis using hs(1) by auto
qed

subsection \<open>Dispatching starts no work item twice\<close>

lemma is_leased_iff: "is_leased s \<longleftrightarrow> (\<exists>g. s = WLeased g)"
  by (cases s) (simp_all add: is_leased_def)

definition starts_of :: "'b system_context \<Rightarrow> dispatcher \<Rightarrow> bool" where
  "starts_of ctx d \<longleftrightarrow> sc_dispatcher ctx = Some d \<or> sc_kernel_dispatcher ctx = Some d"

text \<open>A dispatcher answers with a handle for the work item it was asked to start.\<close>

definition names_its_work :: "dispatcher \<Rightarrow> bool" where
  "names_its_work d \<longleftrightarrow> (\<forall>n r h. wd_start d n r = Inr h \<longrightarrow> dh_work_entity h = dr_work_entity r)"

definition intent_for :: "entity \<Rightarrow> command \<Rightarrow> bool" where
  "intent_for e c \<longleftrightarrow> (\<exists>kind config deadline. c = Lifecycle (LcRecordDispatchIntent e kind config deadline))"

text \<open>A step from one state to another that starts at most the items \<open>es\<close>.\<close>

definition starts :: "entity list \<Rightarrow> system_state \<Rightarrow> system_state \<Rightarrow> bool" where
  "starts es s s' \<longleftrightarrow> (\<exists>cs. sy_commands s' = sy_commands s @ cs) \<and> (\<exists>new. sy_active s' = sy_active s @ new \<and>
     length new \<le> length es \<and> dh_work_entity ` set new \<inter> dh_work_entity ` set (sy_active s) = {} \<and>
     distinct (map dh_work_entity new) \<and>
     (\<forall>h \<in> set new. \<exists>e \<in> set es. eid e = dh_work_entity h \<and> (\<exists>c \<in> set (sy_commands s'). intent_for e c)))"

lemma starts_none: "sy_active s' = sy_active s \<Longrightarrow> sy_commands s' = sy_commands s @ cs \<Longrightarrow> starts es s s'"
  by (auto simp: starts_def)

lemma starts_trans:
  assumes "starts xs s1 s2" "starts ys s2 s3"
  shows "starts (xs @ ys) s1 s3"
proof -
  obtain c1 n1 where 1: "sy_commands s2 = sy_commands s1 @ c1" "sy_active s2 = sy_active s1 @ n1" "length n1 \<le> length xs"
      "dh_work_entity ` set n1 \<inter> dh_work_entity ` set (sy_active s1) = {}" "distinct (map dh_work_entity n1)"
      "\<forall>h \<in> set n1. \<exists>e \<in> set xs. eid e = dh_work_entity h \<and> (\<exists>c \<in> set (sy_commands s2). intent_for e c)"
    using assms(1) unfolding starts_def by blast
  obtain c2 n2 where 2: "sy_commands s3 = sy_commands s2 @ c2" "sy_active s3 = sy_active s2 @ n2" "length n2 \<le> length ys"
      "dh_work_entity ` set n2 \<inter> dh_work_entity ` set (sy_active s2) = {}" "distinct (map dh_work_entity n2)"
      "\<forall>h \<in> set n2. \<exists>e \<in> set ys. eid e = dh_work_entity h \<and> (\<exists>c \<in> set (sy_commands s3). intent_for e c)"
    using assms(2) unfolding starts_def by blast
  show ?thesis
    unfolding starts_def
  proof (intro conjI exI[of _ "n1 @ n2"] exI[of _ "c1 @ c2"])
    show "\<forall>h \<in> set (n1 @ n2). \<exists>e \<in> set (xs @ ys). eid e = dh_work_entity h \<and> (\<exists>c \<in> set (sy_commands s3). intent_for e c)"
      using 1(6) 2(1,6) by fastforce
  qed (use 1 2 in auto)
qed

lemma dispatch_one_starts:
  fixes ctx :: "'b system_context"
  assumes names: "\<And>d. starts_of ctx d \<Longrightarrow> names_its_work d"
  shows "starts [e] s (snd (dispatch_one ctx i e s))"
proof (cases "eid e \<in> dh_work_entity ` set (sy_active s)")
  case True
  then show ?thesis by (auto simp: dispatch_one_def Let_def intro!: starts_none[where cs = "[]"])
next
  case fresh: False
  note emits = cancel_expired_def emit_def fail_work_def
  let ?m = "get_inference (sc_world ctx) e"
  let ?sel = "sc_select ctx i dispatch_selection"
  let ?s1 = "s\<lparr>sy_receipts := sy_receipts s @ [?sel]\<rparr>"
  show ?thesis
  proof (cases "(case ?m of Some md \<Rightarrow> deadline_expired md (sc_now_ms ctx i) | None \<Rightarrow> False) \<or> rc_backend ?sel = None")
    case True
    then show ?thesis using fresh
      by (auto simp: dispatch_one_def Let_def emits intro!: starts_none split: if_splits option.splits)
  next
    case False
    then obtain bk where bk: "rc_backend ?sel = Some bk" by auto
    define cfg :: "'b dispatch_config" where "cfg = (case ?m of Some md \<Rightarrow> phase_config (sc_policy ctx) md | None \<Rightarrow> EmptyConfig)"
    define dl where "dl = dispatch_deadline ?m (sc_now_ms ctx i)"
    have run: "dispatch_one ctx i e s = dispatch_with ctx i e cfg dl ?sel bk ?s1"
      using fresh False bk by (simp add: dispatch_one_def Let_def cfg_def dl_def)
    show ?thesis
    proof (cases "(case sc_binding ctx e of Some b \<Rightarrow> \<not> sc_validate ctx bk b | None \<Rightarrow> False) \<or> (\<nexists>kind. parse_backend bk = Ok kind)")
      case True
      have "parse_backend bk \<noteq> Panic" by (simp add: parse_backend_def Let_def)
      then show ?thesis unfolding run using True
        by (cases "parse_backend bk")
          (auto simp: dispatch_with_def Let_def emits act_bind_def lift_outcome_def split: if_splits
            intro!: starts_none[where cs = "[]"] starts_none)
    next
      case False
      then obtain kind where kind: "parse_backend bk = Ok kind" by blast
      define eff where "eff = sc_config_json ctx (case sc_binding ctx e of
              Some b \<Rightarrow> BindingConfig b ?sel
            | None \<Rightarrow> if cfg = EmptyConfig then SelectionConfig ?sel else cfg)"
      define d where "d = (if sc_binding ctx e \<noteq> None \<and> sc_dispatcher ctx = None then sc_kernel_dispatcher ctx
        else sc_dispatcher ctx)"
      let ?intent = "Lifecycle (LcRecordDispatchIntent e kind eff dl)"
      let ?s2 = "?s1\<lparr>sy_commands := sy_commands s @ [?intent]\<rparr>"
      have run2: "dispatch_one ctx i e s = start_dispatch ctx i e d dl bk eff ?s2"
        using False kind unfolding run dispatch_with_def Let_def
        by (simp add: act_bind_def lift_outcome_def emit_def eff_def d_def)
      have intent: "intent_for e ?intent" by (simp add: intent_for_def)
      show ?thesis
      proof (cases d)
        case None
        then show ?thesis unfolding run2 by (auto simp: start_dispatch_def act_return_def intro!: starts_none)
      next
        case (Some disp)
        then have "names_its_work disp" using names[of disp] by (auto simp: d_def starts_of_def split: if_splits)
        then show ?thesis unfolding run2 using Some fresh intent
          by (auto simp: start_dispatch_def Let_def emits names_its_work_def starts_def split: sum.split)
      qed
    qed
  qed
qed

lemma starts_more: "starts es s s' \<Longrightarrow> set es \<subseteq> set es' \<Longrightarrow> length es \<le> length es' \<Longrightarrow> starts es' s s'"
  unfolding starts_def by (meson order_trans subsetD)

lemma each_until_starts:
  assumes "\<And>i e s. starts [e] s (snd (f i e s))"
  shows "starts xs s (snd (each_until stop i f xs s))"
proof (induction xs arbitrary: i s)
  case (Cons x xs)
  obtain r s1 where r: "f i x s = (r, s1)" by (cases "f i x s")
  then have step: "starts [x] s s1" using assms[of x s i] by simp
  show ?case
  proof (cases "\<not> stop (Suc i) \<and> r = Ok ()")
    case True
    then have "each_until stop i f (x # xs) s = each_until stop (Suc i) f xs s1" using r by (simp add: act_bind_def)
    then show ?thesis using starts_trans[OF step Cons.IH[of s1 "Suc i"]] by simp
  next
    case False
    then have "snd (each_until stop i f (x # xs) s) = s \<or> snd (each_until stop i f (x # xs) s) = s1"
      using r by (cases r) (auto simp: act_bind_def act_return_def)
    then show ?thesis using starts_more[OF step, of "x # xs"] by (auto intro: starts_none[where cs = "[]"])
  qed
qed (auto simp: act_return_def intro: starts_none[where cs = "[]"])



subsection \<open>Admission respects the capacity and the token budget\<close>

definition admissions :: "command list \<Rightarrow> entity list" where
  "admissions cs = List.map_filter (\<lambda>c. case c of Lifecycle (LcAdmitWork e) \<Rightarrow> Some e | _ \<Rightarrow> None) cs"

lemma admissions_simps [simp]:
  "admissions [] = []" "admissions (Lifecycle (LcAdmitWork e) # cs) = e # admissions cs"
  "admissions (Lifecycle (LcRequestCancellation e r) # cs) = admissions cs"
  by (simp_all add: admissions_def List.map_filter_simps)

definition tokens_of :: "kernel_world \<Rightarrow> entity \<Rightarrow> nat" where
  "tokens_of w e = (case get_inference w e of Some m \<Rightarrow> unat (reserved_tokens m) | None \<Rightarrow> 0)"

definition within_budget :: "'b system_context \<Rightarrow> nat \<Rightarrow> nat \<Rightarrow> entity list \<Rightarrow> bool" where
  "within_budget ctx tokens room adm \<longleftrightarrow> length adm \<le> room \<and>
     (\<forall>e \<in> set adm. tokens_of (sc_world ctx) e \<le> unat (max_kv_tokens (sc_policy ctx))) \<and>
     ((\<exists>e \<in> set adm. get_inference (sc_world ctx) e \<noteq> None) \<longrightarrow>
       tokens + sum_list (map (tokens_of (sc_world ctx)) adm) \<le> unat (max_inflight_tokens (sc_policy ctx)))"

lemma tokens_none: "\<not> (\<exists>e \<in> set adm. get_inference w e \<noteq> None) \<Longrightarrow> sum_list (map (tokens_of w) adm) = 0"
  by (induction adm) (auto simp: tokens_of_def)

lemma within_budget_admit:
  assumes rest: "within_budget ctx (unat tokens') room adm"
    and m: "get_inference (sc_world ctx) e = Some m" "required_kv_tokens m \<le> max_kv_tokens (sc_policy ctx)"
    and tokens': "tokens' = sat_add32 tokens (reserved_tokens m)" "tokens' \<le> max_inflight_tokens (sc_policy ctx)"
    and max: "max_inflight_tokens (sc_policy ctx) \<noteq> - 1"
  shows "within_budget ctx (unat tokens) (Suc room) (e # adm)"
proof -
  have "max_inflight_tokens (sc_policy ctx) \<le> - 1" by simp
  then have "tokens' \<noteq> - 1" using tokens'(2) max by (metis order_antisym)
  then have sum: "unat tokens' = unat tokens + unat (reserved_tokens m)"
    unfolding tokens'(1) by (auto simp: sat_add32_def unat_word_ariths split: if_splits)
  have "unat tokens' + sum_list (map (tokens_of (sc_world ctx)) adm) \<le> unat (max_inflight_tokens (sc_policy ctx))"
  proof (cases "\<exists>e \<in> set adm. get_inference (sc_world ctx) e \<noteq> None")
    case True
    then show ?thesis using rest by (simp add: within_budget_def)
  next
    case False
    then show ?thesis using tokens'(2) by (simp only: tokens_none[OF False] word_le_nat_alt add_0_right)
  qed
  then show ?thesis using rest m sum
    by (simp add: within_budget_def tokens_of_def required_kv_tokens_def word_le_nat_alt)
qed

lemma within_budget_plain:
  assumes "within_budget ctx tokens room adm" "get_inference (sc_world ctx) e = None"
  shows "within_budget ctx tokens (Suc room) (e # adm)"
  using assms by (auto simp: within_budget_def tokens_of_def)

lemma admit_loop_budget:
  assumes max: "max_inflight_tokens (sc_policy ctx) \<noteq> - 1"
  shows "\<exists>cs. admit_loop ctx available i es admitted tokens s = (Ok (), s\<lparr>sy_commands := sy_commands s @ cs\<rparr>) \<and>
    set (admissions cs) \<subseteq> set es \<and> (distinct es \<longrightarrow> distinct (admissions cs)) \<and>
    within_budget ctx (unat tokens) (min available 64 - admitted) (admissions cs)"
proof (induction es arbitrary: i admitted tokens s)
  case Nil
  show ?case by (intro exI[of _ "[]"]) (simp add: act_return_def within_budget_def)
next
  case (Cons e es)
  let ?room = "min available 64 - admitted"
  show ?case
  proof (cases "admitted \<ge> min available 64 \<or> sc_should_stop ctx (Suc i)")
    case True
    then show ?thesis by (intro exI[of _ "[]"]) (simp add: act_return_def within_budget_def)
  next
    case False
    then have room: "?room = Suc (min available 64 - (admitted + 1))" by linarith
    show ?thesis
    proof (cases "get_inference (sc_world ctx) e")
      case None
      obtain cs where "admit_loop ctx available (Suc i) es (admitted + 1) tokens
            (s\<lparr>sy_commands := sy_commands s @ [Lifecycle (LcAdmitWork e)]\<rparr>) =
          (Ok (), s\<lparr>sy_commands := sy_commands s @ [Lifecycle (LcAdmitWork e)] @ cs\<rparr>)"
          "set (admissions cs) \<subseteq> set es" "distinct es \<longrightarrow> distinct (admissions cs)"
          "within_budget ctx (unat tokens) (min available 64 - (admitted + 1)) (admissions cs)"
        using Cons.IH[of "Suc i" "admitted + 1" tokens "s\<lparr>sy_commands := sy_commands s @ [Lifecycle (LcAdmitWork e)]\<rparr>"]
        by auto
      then show ?thesis using False None within_budget_plain[of ctx "unat tokens" _ "admissions cs" e]
        unfolding room by (intro exI[of _ "Lifecycle (LcAdmitWork e) # cs"]) (auto simp: emit_def act_bind_def)
    next
      case (Some m)
      consider "deadline_expired m (sc_now_ms ctx i)"
        | "\<not> deadline_expired m (sc_now_ms ctx i)" "required_kv_tokens m > max_kv_tokens (sc_policy ctx) \<or>
              sat_add32 tokens (reserved_tokens m) > max_inflight_tokens (sc_policy ctx)"
        | "\<not> deadline_expired m (sc_now_ms ctx i)" "required_kv_tokens m \<le> max_kv_tokens (sc_policy ctx)"
            "sat_add32 tokens (reserved_tokens m) \<le> max_inflight_tokens (sc_policy ctx)"
        by (metis linorder_not_less)
      then show ?thesis
      proof cases
        case 1
        let ?c = "Lifecycle (LcRequestCancellation e ''inference deadline expired before admission'')"
        obtain cs where "admit_loop ctx available (Suc i) es admitted tokens
              (s\<lparr>sy_commands := sy_commands s @ [?c]\<rparr>) = (Ok (), s\<lparr>sy_commands := sy_commands s @ [?c] @ cs\<rparr>)"
            "set (admissions cs) \<subseteq> set es" "distinct es \<longrightarrow> distinct (admissions cs)"
            "within_budget ctx (unat tokens) ?room (admissions cs)"
          using Cons.IH[of "Suc i" admitted tokens "s\<lparr>sy_commands := sy_commands s @ [?c]\<rparr>"] by auto
        then show ?thesis using False Some 1
          by (intro exI[of _ "?c # cs"]) (auto simp: emit_def act_bind_def cancel_expired_def)
      next
        case 2
        then show ?thesis using Cons.IH[of "Suc i" admitted tokens s] False Some by auto
      next
        case 3
        let ?t = "sat_add32 tokens (reserved_tokens m)"
        obtain cs where "admit_loop ctx available (Suc i) es (admitted + 1) ?t
              (s\<lparr>sy_commands := sy_commands s @ [Lifecycle (LcAdmitWork e)]\<rparr>) =
            (Ok (), s\<lparr>sy_commands := sy_commands s @ [Lifecycle (LcAdmitWork e)] @ cs\<rparr>)"
            "set (admissions cs) \<subseteq> set es" "distinct es \<longrightarrow> distinct (admissions cs)"
            "within_budget ctx (unat ?t) (min available 64 - (admitted + 1)) (admissions cs)"
          using Cons.IH[of "Suc i" "admitted + 1" ?t "s\<lparr>sy_commands := sy_commands s @ [Lifecycle (LcAdmitWork e)]\<rparr>"]
          by auto
        then show ?thesis using False Some 3 within_budget_admit[of ctx ?t _ "admissions cs" e m tokens] max
          unfolding room by (intro exI[of _ "Lifecycle (LcAdmitWork e) # cs"]) (auto simp: emit_def act_bind_def)
      qed
    qed
  qed
qed

lemma sum_u32_exact: "sum_u32 True acc xs = Some t \<Longrightarrow> unat t = unat acc + sum_list (map unat xs)"
proof (induction xs arbitrary: acc)
  case (Cons x xs)
  then have "unat acc + unat x < 2 ^ 32" "sum_u32 True (acc + x) xs = Some t" by (auto split: if_splits)
  then show ?case using Cons.IH[of "acc + x"] by (simp add: unat_word_ariths)
qed simp

lemma sum_u32_panics: "sum_u32 dbg acc xs = None \<longleftrightarrow> dbg \<and> unat acc + sum_list (map unat xs) \<ge> 2 ^ 32"
proof (induction xs arbitrary: acc)
  case Nil
  then show ?case using unat_lt32[of acc] by simp
next
  case (Cons x xs)
  show ?case
  proof (cases "unat acc + unat x \<ge> 2 ^ 32")
    case False
    then have "unat (acc + x) = unat acc + unat x" by (simp add: unat_word_ariths)
    then show ?thesis using Cons.IH[of "acc + x"] False by (simp add: add.assoc)
  next
    case True
    then show ?thesis
      by (cases dbg) (use Cons.IH[of "acc + x"] in auto)
  qed
qed

lemma map_filter_tokens: "sum_list (map unat (map reserved_tokens (List.map_filter (\<lambda>(e, s). get_inference w e) xs))) =
    sum_list (map (tokens_of w) (map fst xs))"
  by (induction xs) (auto simp: List.map_filter_simps tokens_of_def split: option.split)

definition active_tokens :: "kernel_world \<Rightarrow> nat" where
  "active_tokens w = sum_list (map (tokens_of w) (map fst (active_work w)))"

lemma reserved_panics: "reserved_by_active dbg w = None \<longleftrightarrow> dbg \<and> active_tokens w \<ge> 2 ^ 32"
  by (simp only: reserved_by_active_def sum_u32_panics map_filter_tokens active_tokens_def) simp

lemma reserved_exact: "reserved_by_active True w = Some t \<Longrightarrow> unat t = active_tokens w"
  using sum_u32_exact[of 0 _ t] by (simp only: reserved_by_active_def map_filter_tokens active_tokens_def) (metis add_0 map_filter_tokens unsigned_0)



end
