(* ===== verification/Tick_Run.thy ===== *)
theory Tick_Run
  imports Tick_Systems Kernel_Hazards
begin

text \<open>
  A tick (\<open>RuntimeSchedule::run_tick\<close>): the systems of every stage run on the world as it is when the stage
  starts, then their commands are submitted to the kernel. The readings of the clock, the identifiers of the
  envelopes and what the commands take from their host are arbitrary, and so are the debug texts of a receipt; of a
  formatted error the constant part is kept. Below: a tick is a history of submissions in the order of the
  schedule, and what the cleanup stage does to finished work.
\<close>

subsection \<open>Ticks\<close>

record emitted_command =
  em_idempotency_key :: nat
  em_sequence :: "nat option"
  em_world_epoch :: "nat option"
  em_command_type :: string
  em_result_type :: string

record tick_receipt =
  tr_tick_number :: nat
  tr_schedule_hash :: "8 word list"
  tr_system_order :: "nat list"
  tr_emitted_commands :: "emitted_command list list"
  tr_duration_ms :: nat
  tr_failure :: "string option"
  tr_provider_selections :: "selection_receipt list"

text \<open>What the schedule keeps between ticks, with the kernel it is bound to.\<close>

record ('s, 'l) tick_state =
  tk_count :: nat
  tk_active :: "dispatch_handle list"
  tk_receipts :: "selection_receipt list"
  tk_kernel :: "('s, 'l) kernel option"

type_synonym ('s, 'l, 'a) tick_action = "(('s, 'l) tick_state, runtime_error, 'a) action"

definition bind_kernel :: "('s, 'l) kernel \<Rightarrow> ('s, 'l) tick_state \<Rightarrow> ('s, 'l) tick_state" where
  "bind_kernel k ts = ts\<lparr>tk_kernel := Some k\<rparr>"

definition with_kernel :: "('s, 'l, 'a) kernel_action \<Rightarrow> ('s, 'l, 'a) tick_action" where
  "with_kernel m ts = (case tk_kernel ts of
     None \<Rightarrow> (Err (EntityError ''schedule not bound to kernel''), ts)
   | Some k \<Rightarrow> (let (r, k') = m k in (r, ts\<lparr>tk_kernel := Some k'\<rparr>)))"

text \<open>
  What a tick takes from outside, by stage, system and number of the emitted command: the rest of the
  context of a system, the check of the deadline before it, the address and the key of an
  envelope, the host of a command, and the first lines of the debug texts.
\<close>

record 'b tick_host =
  th_context :: "system_stage \<Rightarrow> nat \<Rightarrow> 'b system_context"
  th_late :: "system_stage \<Rightarrow> nat \<Rightarrow> bool"
  th_envelope :: "system_stage \<Rightarrow> nat \<Rightarrow> nat \<Rightarrow> 16 word \<times> nat"
  th_command_host :: "system_stage \<Rightarrow> nat \<Rightarrow> nat \<Rightarrow> host"
  th_command_text :: "command \<Rightarrow> string"
  th_result_text :: "command_result \<Rightarrow> string"
  th_duration_ms :: nat

definition stage_context :: "'b tick_host \<Rightarrow> 'b tick_system runtime_schedule \<Rightarrow> system_stage \<Rightarrow> nat \<Rightarrow> kernel_world \<Rightarrow>
    'b system_context" where
  "stage_context th s st i w = (th_context th st i)
     \<lparr>sc_admission_capacity := admission_capacity s, sc_policy := inference_policy s, sc_world := w\<rparr>"

text \<open>One system, with a fresh command buffer: the commands it emitted. After an error they are lost.\<close>

definition run_system :: "'b tick_host \<Rightarrow> 'b tick_system runtime_schedule \<Rightarrow> system_stage \<Rightarrow> kernel_world \<Rightarrow> nat \<Rightarrow>
    'b tick_system \<Rightarrow> ('s, 'l, nat \<times> command list) tick_action" where
  "run_system th s st w i system ts =
     (let (r, sy) = system (stage_context th s st i w)
        \<lparr>sy_commands = [], sy_active = tk_active ts, sy_receipts = tk_receipts ts\<rparr>
      in (case r of Ok _ \<Rightarrow> Ok (i, sy_commands sy) | Err _ \<Rightarrow> Err (EntityError ''system failed'') | Panic \<Rightarrow> Panic,
        ts\<lparr>tk_active := sy_active sy, tk_receipts := sy_receipts sy\<rparr>))"

fun run_systems :: "'b tick_host \<Rightarrow> 'b tick_system runtime_schedule \<Rightarrow> system_stage \<Rightarrow> kernel_world \<Rightarrow> nat list \<Rightarrow>
    ('s, 'l, (nat \<times> command list) list) tick_action" where
  "run_systems th s st w [] = act_return []"
| "run_systems th s st w (i # ids) =
     (if th_late th st i then act_fail (EntityError ''tick deadline exceeded'')
      else case sch_system_map s i of
        None \<Rightarrow> run_systems th s st w ids
      | Some system \<Rightarrow> act_bind (run_system th s st w i system) (\<lambda>cs.
          act_bind (run_systems th s st w ids) (\<lambda>css. act_return (cs # css))))"

text \<open>The n-th command of a system, and its line in the receipt.\<close>

definition tick_request :: "'b tick_host \<Rightarrow> system_stage \<Rightarrow> nat \<Rightarrow> nat \<Rightarrow> command \<Rightarrow> request" where
  "tick_request th st i n c = (th_command_host th st i n,
     envelope_new (fst (th_envelope th st i n)) (snd (th_envelope th st i n)) c)"

definition emitted :: "'b tick_host \<Rightarrow> command_envelope \<Rightarrow> commit_outcome \<Rightarrow> emitted_command" where
  "emitted th env out = \<lparr>em_idempotency_key = idempotency_key env, em_sequence = Some (co_sequence out),
     em_world_epoch = Some (co_world_epoch out), em_command_type = th_command_text th (command env),
     em_result_type = th_result_text th (co_result out)\<rparr>"

fun submit_commands :: "bool \<Rightarrow> ('s, 'l, 'j) ports \<Rightarrow> 'b tick_host \<Rightarrow> system_stage \<Rightarrow> nat \<Rightarrow> nat \<Rightarrow> command list \<Rightarrow>
    ('s, 'l, emitted_command list) tick_action" where
  "submit_commands dbg p th st i n [] = act_return []"
| "submit_commands dbg p th st i n (c # cs) = (let (h, env) = tick_request th st i n c in
     act_bind (act_map_err (\<lambda>_. EntityError ''kernel submit failed'') (with_kernel (submit dbg p h env))) (\<lambda>out.
     act_bind (submit_commands dbg p th st i (Suc n) cs) (\<lambda>es. act_return (emitted th env out # es))))"

fun submit_stage :: "bool \<Rightarrow> ('s, 'l, 'j) ports \<Rightarrow> 'b tick_host \<Rightarrow> system_stage \<Rightarrow> (nat \<times> command list) list \<Rightarrow>
    ('s, 'l, (nat \<times> emitted_command list) list) tick_action" where
  "submit_stage dbg p th st [] = act_return []"
| "submit_stage dbg p th st ((i, cs) # css) =
     act_bind (submit_commands dbg p th st i 0 cs) (\<lambda>es.
     act_bind (submit_stage dbg p th st css) (\<lambda>rs. act_return ((i, es) # rs)))"

definition run_stage :: "bool \<Rightarrow> ('s, 'l, 'j) ports \<Rightarrow> 'b tick_host \<Rightarrow> 'b tick_system runtime_schedule \<Rightarrow> system_stage \<Rightarrow>
    nat list \<Rightarrow> ('s, 'l, (nat \<times> emitted_command list) list) tick_action" where
  "run_stage dbg p th s st ids = act_bind (with_kernel (\<lambda>k. (Ok (k_world k), k))) (\<lambda>w.
     act_bind (run_systems th s st w ids) (submit_stage dbg p th st))"

fun run_stages :: "bool \<Rightarrow> ('s, 'l, 'j) ports \<Rightarrow> 'b tick_host \<Rightarrow> 'b tick_system runtime_schedule \<Rightarrow>
    (system_stage \<times> nat list) list \<Rightarrow> system_stage list \<Rightarrow> ('s, 'l, (nat \<times> emitted_command list) list) tick_action" where
  "run_stages dbg p th s order [] = act_return []"
| "run_stages dbg p th s order (st # sts) = (case map_of order st of
     None \<Rightarrow> run_stages dbg p th s order sts
   | Some ids \<Rightarrow> act_bind (run_stage dbg p th s st ids) (\<lambda>xs.
       act_bind (run_stages dbg p th s order sts) (\<lambda>ys. act_return (xs @ ys))))"

definition start_tick :: "('s, 'l, nat) tick_action" where
  "start_tick ts = (Ok (tk_count ts), ts\<lparr>tk_count := tk_count ts + 1, tk_receipts := []\<rparr>)"

definition tick_receipt_of :: "'b tick_host \<Rightarrow> 'b tick_system runtime_schedule \<Rightarrow> nat \<Rightarrow>
    (nat \<times> emitted_command list) list \<Rightarrow> ('s, 'l, tick_receipt) tick_action" where
  "tick_receipt_of th s n executed ts = (Ok \<lparr>tr_tick_number = n, tr_schedule_hash = sch_hash s,
     tr_system_order = map fst executed, tr_emitted_commands = map snd executed, tr_duration_ms = th_duration_ms th,
     tr_failure = None, tr_provider_selections = tk_receipts ts\<rparr>, ts)"

definition run_tick :: "bool \<Rightarrow> ('s, 'l, 'j) ports \<Rightarrow> 'b tick_host \<Rightarrow> 'b tick_system runtime_schedule \<Rightarrow>
    ('s, 'l, tick_receipt) tick_action" where
  "run_tick dbg p th s = act_bind start_tick (\<lambda>n.
     act_bind (with_kernel (\<lambda>k. (Ok (), k))) (\<lambda>_.
     act_bind (lift_outcome (topological_order dbg s)) (\<lambda>order.
     act_bind (run_stages dbg p th s order (sch_stages s)) (tick_receipt_of th s n))))"

subsection \<open>A tick is a history of submissions\<close>

definition is_ok :: "('e, 'a) outcome \<Rightarrow> bool" where
  "is_ok r \<longleftrightarrow> (\<exists>a. r = Ok a)"

text \<open>The line of a receipt without its debug texts, for a request with its outcome.\<close>

definition trace_line :: "emitted_command \<Rightarrow> nat \<times> nat option \<times> nat option" where
  "trace_line e = (em_idempotency_key e, em_sequence e, em_world_epoch e)"

definition request_line :: "request \<Rightarrow> commit_outcome \<Rightarrow> nat \<times> nat option \<times> nat option" where
  "request_line rq out = (idempotency_key (snd rq), Some (co_sequence out), Some (co_world_epoch out))"

text \<open>
  \<open>reports Q r rs outs\<close>: of the submissions \<open>rs\<close> with the outcomes \<open>outs\<close> at most the last one fails, and where
  \<open>r\<close> is a value, none failed and the value and their lines are in \<open>Q\<close>. \<open>traces Q m\<close>: the action \<open>m\<close>
  touches the kernel only by submissions, which its result reports.
\<close>

definition reports :: "('a \<Rightarrow> (nat \<times> nat option \<times> nat option) list \<Rightarrow> bool) \<Rightarrow> ('e, 'a) outcome \<Rightarrow> request list \<Rightarrow>
    (runtime_error, commit_outcome) outcome list \<Rightarrow> bool" where
  "reports Q r rs outs \<longleftrightarrow> length outs = length rs \<and> (\<forall>out \<in> set (butlast outs). is_ok out) \<and>
     (\<forall>a. r = Ok a \<longrightarrow> (\<exists>os. outs = map Ok os \<and> Q a (map2 request_line rs os)))"

definition traces :: "bool \<Rightarrow> ('s, 'l, 'j) ports \<Rightarrow> ('a \<Rightarrow> (nat \<times> nat option \<times> nat option) list \<Rightarrow> bool) \<Rightarrow>
    ('s, 'l, 'a) tick_action \<Rightarrow> bool" where
  "traces dbg p Q m \<longleftrightarrow> (\<forall>ts k. tk_kernel ts = Some k \<longrightarrow> (\<exists>rs outs k'. tk_kernel (snd (m ts)) = Some k' \<and>
     submit_all dbg p rs k = (outs, k') \<and> reports Q (fst (m ts)) rs outs))"

lemma submit_all_append: "submit_all dbg p (rs @ rs') k = (let (outs, k1) = submit_all dbg p rs k;
    (outs', k2) = submit_all dbg p rs' k1 in (outs @ outs', k2))"
  by (induction dbg p rs k rule: submit_all.induct) (simp_all add: Let_def split: prod.split)

lemma tracesI:
  fixes m :: "('s, 'l, 'a) tick_action"
  assumes "\<And>ts k. tk_kernel ts = Some k \<Longrightarrow> \<exists>rs outs k'. tk_kernel (snd (m ts)) = Some k' \<and>
     submit_all dbg p rs k = (outs, k') \<and> reports Q (fst (m ts)) rs outs"
  shows "traces dbg p Q m"
  unfolding traces_def using assms by blast

lemma tracesE:
  fixes m :: "('s, 'l, 'a) tick_action"
  assumes "traces dbg p Q m" "tk_kernel ts = Some k"
  obtains rs outs k' where "tk_kernel (snd (m ts)) = Some k'" "submit_all dbg p rs k = (outs, k')"
    "reports Q (fst (m ts)) rs outs"
  using assms unfolding traces_def by blast

lemma reports_mono: "reports Q r rs outs \<Longrightarrow> (\<And>a es. Q a es \<Longrightarrow> Q' a es) \<Longrightarrow> reports Q' r rs outs"
  unfolding reports_def by blast

lemma reports_append:
  assumes "reports Q (Ok a) rs outs" "reports (\<lambda>b es'. \<forall>es. Q a es \<longrightarrow> Q' b (es @ es')) r rs' outs'"
  shows "reports Q' r (rs @ rs') (outs @ outs')"
proof -
  obtain os where os: "outs = map Ok os" "Q a (map2 request_line rs os)" "length os = length rs"
    using assms(1) unfolding reports_def by auto
  have "\<forall>out \<in> set (butlast (outs @ outs')). is_ok out"
    using assms(2) in_set_butlastD[of _ "map Ok os"] by (auto simp: reports_def butlast_append os(1) is_ok_def)
  moreover have "\<exists>os''. outs @ outs' = map Ok os'' \<and> Q' b (map2 request_line (rs @ rs') os'')" if r: "r = Ok b" for b
  proof -
    obtain os' where "outs' = map Ok os'" "Q' b (map2 request_line rs os @ map2 request_line rs' os')"
      using assms(2) os(2) r unfolding reports_def by blast
    then show ?thesis using os(1,3) by (intro exI[of _ "os @ os'"]) simp
  qed
  ultimately show ?thesis using assms unfolding reports_def by simp
qed

lemma traces_silent:
  fixes m :: "('s, 'l, 'a) tick_action"
  assumes "\<And>ts k. tk_kernel ts = Some k \<Longrightarrow> tk_kernel (snd (m ts)) = Some k"
    and "\<And>ts k a. tk_kernel ts = Some k \<Longrightarrow> fst (m ts) = Ok a \<Longrightarrow> Q a []"
  shows "traces dbg p Q m"
proof (rule tracesI)
  fix ts :: "('s, 'l) tick_state" and k
  assume ts: "tk_kernel ts = Some k"
  have "reports Q (fst (m ts)) [] []" using assms(2)[OF ts] by (simp add: reports_def)
  then show "\<exists>rs outs k'. tk_kernel (snd (m ts)) = Some k' \<and> submit_all dbg p rs k = (outs, k') \<and>
      reports Q (fst (m ts)) rs outs"
    using assms(1)[OF ts] submit_all.simps(1)[of dbg p k] by blast
qed

lemma traces_return: "Q a [] \<Longrightarrow> traces dbg p Q (act_return a)"
  by (rule traces_silent) (simp_all add: act_return_def)

lemma traces_fail: "traces dbg p Q (act_fail e)"
  by (rule traces_silent) (simp_all add: act_fail_def)

lemma traces_mono:
  fixes m :: "('s, 'l, 'a) tick_action"
  assumes m: "traces dbg p Q m" and sub: "\<And>a es. Q a es \<Longrightarrow> Q' a es"
  shows "traces dbg p Q' m"
proof (rule tracesI)
  fix ts :: "('s, 'l) tick_state" and k
  assume ts: "tk_kernel ts = Some k"
  show "\<exists>rs outs k'. tk_kernel (snd (m ts)) = Some k' \<and> submit_all dbg p rs k = (outs, k') \<and>
      reports Q' (fst (m ts)) rs outs"
    using reports_mono[of Q _ _ _ Q'] sub by (rule_tac tracesE[OF m ts]) blast
qed

lemma traces_bind:
  fixes m :: "('s, 'l, 'a) tick_action"
  assumes m: "traces dbg p Q m" and f: "\<And>a. traces dbg p (\<lambda>b es'. \<forall>es. Q a es \<longrightarrow> Q' b (es @ es')) (f a)"
  shows "traces dbg p Q' (act_bind m f)"
proof (rule tracesI)
  fix ts :: "('s, 'l) tick_state" and k
  assume "tk_kernel ts = Some k"
  then obtain rs outs k1 where 1: "tk_kernel (snd (m ts)) = Some k1" "submit_all dbg p rs k = (outs, k1)"
      "reports Q (fst (m ts)) rs outs"
    by (rule tracesE[OF m])
  show "\<exists>rs outs k'. tk_kernel (snd (act_bind m f ts)) = Some k' \<and> submit_all dbg p rs k = (outs, k') \<and>
      reports Q' (fst (act_bind m f ts)) rs outs"
  proof (cases "fst (m ts)")
    case (Ok a)
    have run: "act_bind m f ts = f a (snd (m ts))"
      using Ok by (cases "m ts") (simp add: act_bind_def)
    obtain rs' outs' k2 where 2: "tk_kernel (snd (f a (snd (m ts)))) = Some k2" "submit_all dbg p rs' k1 = (outs', k2)"
        "reports (\<lambda>b es'. \<forall>es. Q a es \<longrightarrow> Q' b (es @ es')) (fst (f a (snd (m ts)))) rs' outs'"
      by (rule tracesE[OF f 1(1)])
    have "submit_all dbg p (rs @ rs') k = (outs @ outs', k2)" using 1(2) 2(2) by (simp add: submit_all_append)
    moreover have "reports Q' (fst (f a (snd (m ts)))) (rs @ rs') (outs @ outs')"
      using reports_append[of Q a rs outs Q'] 1(3) 2(3) Ok by simp
    ultimately show ?thesis unfolding run using 2(1) by blast
  next
    case (Err e)
    then have "fst (act_bind m f ts) = Err e" "snd (act_bind m f ts) = snd (m ts)"
      by (cases "m ts"; simp add: act_bind_def)+
    then show ?thesis using 1 unfolding reports_def by auto
  next
    case Panic
    then have "fst (act_bind m f ts) = Panic" "snd (act_bind m f ts) = snd (m ts)"
      by (cases "m ts"; simp add: act_bind_def)+
    then show ?thesis using 1 unfolding reports_def by auto
  qed
qed

lemma traces_submit:
  fixes p :: "('s, 'l, 'j) ports"
  shows "traces dbg p (\<lambda>out es. es = [request_line (h, env) out])
    (act_map_err g (with_kernel (submit dbg p h env)))"
proof (rule tracesI)
  fix ts :: "('s, 'l) tick_state" and k
  assume ts: "tk_kernel ts = Some k"
  obtain r k' where run: "submit dbg p h env k = (r, k')" by (cases "submit dbg p h env k")
  have "reports (\<lambda>out es. es = [request_line (h, env) out]) (map_err g r) [(h, env)] [r]"
    by (cases r) (simp_all add: reports_def Cons_eq_map_conv)
  then show "\<exists>rs outs k'. tk_kernel (snd (act_map_err g (with_kernel (submit dbg p h env)) ts)) = Some k' \<and>
      submit_all dbg p rs k = (outs, k') \<and> reports (\<lambda>out es. es = [request_line (h, env) out])
        (fst (act_map_err g (with_kernel (submit dbg p h env)) ts)) rs outs"
    using ts run by (intro exI[of _ "[(h, env)]"] exI[of _ "[r]"] exI[of _ k'])
      (simp add: act_map_err_def with_kernel_def)
qed

text \<open>The stages, from the inside out.\<close>

lemma traces_run_system: "traces dbg p (\<lambda>cs es. es = [] \<and> fst cs = i) (run_system th s st w i system)"
  by (rule traces_silent) (auto simp: run_system_def Let_def case_prod_beta split: outcome.splits)

lemma traces_run_systems: "traces dbg p (\<lambda>css es. es = [] \<and> map fst css = filter (\<lambda>i. sch_system_map s i \<noteq> None) ids)
    (run_systems th s st w ids)"
proof (induction ids)
  case (Cons i ids)
  show ?case
  proof (cases "th_late th st i \<or> sch_system_map s i = None")
    case True
    then show ?thesis using Cons.IH by (auto simp: traces_fail)
  next
    case False
    then obtain system where system: "sch_system_map s i = Some system" by blast
    have "traces dbg p (\<lambda>css es. es = [] \<and> map fst css = i # filter (\<lambda>i. sch_system_map s i \<noteq> None) ids)
        (act_bind (run_system th s st w i system) (\<lambda>cs.
          act_bind (run_systems th s st w ids) (\<lambda>css. act_return (cs # css))))"
      by (rule traces_bind[OF traces_run_system], rule traces_bind[OF Cons.IH]) (simp add: traces_return)
    then show ?thesis using False system by simp
  qed
qed (simp add: traces_return)

lemma traces_submit_commands: "traces dbg p (\<lambda>ems es. es = map trace_line ems) (submit_commands dbg p th st i n cs)"
proof (induction cs arbitrary: n)
  case (Cons c cs)
  obtain h env where rq: "tick_request th st i n c = (h, env)" by (cases "tick_request th st i n c")
  have line: "trace_line (emitted th env out) = request_line (h, env) out" for out
    by (simp add: trace_line_def emitted_def request_line_def)
  show ?case unfolding submit_commands.simps rq prod.case Let_def
    by (rule traces_bind[OF traces_submit], rule traces_bind[OF Cons.IH]) (simp add: traces_return line)
qed (simp add: traces_return)

lemma traces_submit_stage: "traces dbg p (\<lambda>executed es. map fst executed = map fst css \<and>
    es = map trace_line (concat (map snd executed))) (submit_stage dbg p th st css)"
proof (induction css)
  case (Cons cs css)
  obtain i c where cs: "cs = (i, c)" by (cases cs)
  show ?case unfolding cs submit_stage.simps
    by (rule traces_bind[OF traces_submit_commands], rule traces_bind[OF Cons.IH]) (simp add: traces_return)
qed (simp add: traces_return)

lemma traces_run_stage: "traces dbg p (\<lambda>executed es. map fst executed = filter (\<lambda>i. sch_system_map s i \<noteq> None) ids \<and>
    es = map trace_line (concat (map snd executed))) (run_stage dbg p th s st ids)"
proof -
  have world: "traces dbg p (\<lambda>w es. es = []) (with_kernel (\<lambda>k. (Ok (k_world k), k)))"
    by (rule traces_silent) (simp_all add: with_kernel_def)
  show ?thesis unfolding run_stage_def
    by (rule traces_bind[OF world], simp, rule traces_bind[OF traces_run_systems])
      (auto intro: traces_mono[OF traces_submit_stage])
qed

lemma traces_run_stages: "traces dbg p (\<lambda>executed es. map fst executed = filter (\<lambda>i. sch_system_map s i \<noteq> None) (run_order order sts) \<and>
    es = map trace_line (concat (map snd executed))) (run_stages dbg p th s order sts)"
proof (induction sts)
  case (Cons st sts)
  show ?case
  proof (cases "map_of order st")
    case None
    then show ?thesis using Cons.IH by (simp add: run_order_def)
  next
    case (Some ids)
    have order: "run_order order (st # sts) = ids @ run_order order sts" using Some by (simp add: run_order_def)
    show ?thesis unfolding run_stages.simps Some option.case order
      by (rule traces_bind[OF traces_run_stage], rule traces_bind[OF Cons.IH]) (simp add: traces_return)
  qed
qed (simp add: traces_return run_order_def)

lemma traces_run_tick: "traces dbg p (\<lambda>rc es. \<exists>order. topological_order dbg s = Ok order \<and>
    tr_system_order rc = filter (\<lambda>i. sch_system_map s i \<noteq> None) (run_order order (sch_stages s)) \<and>
    length (tr_emitted_commands rc) = length (tr_system_order rc) \<and>
    es = map trace_line (concat (tr_emitted_commands rc))) (run_tick dbg p th s)"
proof -
  have start: "traces dbg p (\<lambda>_ es. es = []) start_tick"
    by (rule traces_silent) (simp_all add: start_tick_def)
  have bound: "traces dbg p (\<lambda>_ es. es = []) (with_kernel (\<lambda>k. (Ok (), k)))"
    by (rule traces_silent) (simp_all add: with_kernel_def)
  have order: "traces dbg p (\<lambda>m es. es = [] \<and> topological_order dbg s = Ok m) (lift_outcome (topological_order dbg s))"
    by (rule traces_silent) (simp_all add: lift_outcome_def)
  have receipt: "traces dbg p (\<lambda>rc es. es = [] \<and> tr_system_order rc = map fst executed \<and> tr_emitted_commands rc = map snd executed \<and>
      length (tr_emitted_commands rc) = length (tr_system_order rc))
      (tick_receipt_of th s n executed)" for n executed
    by (rule traces_silent) (auto simp: tick_receipt_of_def)
  show ?thesis unfolding run_tick_def
    by (rule traces_bind[OF start], rule traces_bind[OF bound], rule traces_bind[OF order],
        rule traces_bind[OF traces_run_stages], rule traces_mono[OF receipt]) auto
qed

lemma keeps_count_kernel: "keeps (\<lambda>ts. tk_count ts = n) (with_kernel m)"
  by (simp add: keeps_def with_kernel_def Let_def case_prod_beta split: option.split)

lemma keeps_count_system: "keeps (\<lambda>ts. tk_count ts = n) (run_system th s st w i system)"
  by (simp add: keeps_def run_system_def Let_def case_prod_beta)

lemmas keeps_count = keeps_count_kernel keeps_count_system keeps

lemma keeps_count_systems: "keeps (\<lambda>ts. tk_count ts = n) (run_systems th s st w ids)"
  by (induction ids) (auto intro!: keeps_count split: option.split)

lemma keeps_count_commands: "keeps (\<lambda>ts. tk_count ts = c) (submit_commands dbg p th st i n cs)"
  by (induction cs arbitrary: n) (auto intro!: keeps_count simp: Let_def split: prod.split)

lemma keeps_count_stage: "keeps (\<lambda>ts. tk_count ts = n) (submit_stage dbg p th st css)"
  by (induction css) (auto intro!: keeps_count keeps_count_commands)

lemma keeps_count_stages: "keeps (\<lambda>ts. tk_count ts = n) (run_stages dbg p th s order sts)"
  by (induction sts) (auto intro!: keeps_count keeps_count_systems keeps_count_stage simp: run_stage_def split: option.split)

lemma run_tick_count: "tk_count (snd (run_tick dbg p th s ts)) = tk_count ts + 1"
proof -
  have rest: "keeps (\<lambda>ts'. tk_count ts' = tk_count ts + 1) (act_bind (with_kernel (\<lambda>k. (Ok (), k))) (\<lambda>_.
     act_bind (lift_outcome (topological_order dbg s)) (\<lambda>order.
     act_bind (run_stages dbg p th s order (sch_stages s)) (tick_receipt_of th s n))))" for n
    by (intro keeps_count keeps_count_stages) (simp_all add: keeps_def lift_outcome_def tick_receipt_of_def)
  show ?thesis using rest[unfolded keeps_def] unfolding run_tick_def act_bind_def[of start_tick]
    by (simp add: start_tick_def)
qed

text \<open>C17: A tick of a validated schedule whose specifications all have a system runs every system exactly once, after all
  the systems it depends on, unless it fails. Whatever happens, it touches the kernel only by submitting commands one
  after the other: at most the last submission fails, and the receipt of a tick that succeeds names the key, sequence
  number and epoch of every submission, in that order. A tick always counts.
\<close>

theorem tick_runs_in_order:
  assumes inv: "schedule_inv s0" and ok: "validate_schedule hash s0 = Ok s"
    and all: "dom (sch_system_map s) = fst ` set (sch_systems s)"
    and k: "tk_kernel ts = Some k" and run: "run_tick dbg p th s ts = (r, ts')"
  shows "\<exists>rs outs k'. tk_kernel ts' = Some k' \<and> submit_all dbg p rs k = (outs, k') \<and>
    (\<forall>out \<in> set (butlast outs). is_ok out) \<and> tk_count ts' = tk_count ts + 1 \<and>
    (\<forall>rc. r = Ok rc \<longrightarrow> (\<exists>os. outs = map Ok os \<and>
        map trace_line (concat (tr_emitted_commands rc)) = map2 request_line rs os) \<and>
      length (tr_emitted_commands rc) = length (tr_system_order rc) \<and>
      distinct (tr_system_order rc) \<and> set (tr_system_order rc) = fst ` set (sch_systems s) \<and>
      (\<forall>j < length (tr_system_order rc).
        set (deps_of (sch_systems s) (tr_system_order rc ! j)) \<subseteq> set (take j (tr_system_order rc))))"
proof -
  obtain m where m: "topological_order dbg s = Ok m" "distinct (run_order m (sch_stages s))"
      "set (run_order m (sch_stages s)) = fst ` set (sch_systems s)"
      "\<forall>k < length (run_order m (sch_stages s)).
       set (deps_of (sch_systems s) (run_order m (sch_stages s) ! k)) \<subseteq> set (take k (run_order m (sch_stages s)))"
    using validated_order_correct[OF inv ok] by blast
  have "filter (\<lambda>i. sch_system_map s i \<noteq> None) (run_order m (sch_stages s)) = run_order m (sch_stages s)"
    using m(3) all by (auto simp: filter_id_conv)
  note order = this m
  obtain rs outs k' where tick: "tk_kernel ts' = Some k'" "submit_all dbg p rs k = (outs, k')"
      "reports (\<lambda>rc es. \<exists>order. topological_order dbg s = Ok order \<and>
        tr_system_order rc = filter (\<lambda>i. sch_system_map s i \<noteq> None) (run_order order (sch_stages s)) \<and>
        length (tr_emitted_commands rc) = length (tr_system_order rc) \<and>
        es = map trace_line (concat (tr_emitted_commands rc))) r rs outs"
    by (rule tracesE[OF traces_run_tick k, of dbg p th s, unfolded run fst_conv snd_conv])
  have "\<exists>os. outs = map Ok os \<and> tr_system_order rc = run_order m (sch_stages s) \<and>
      length (tr_emitted_commands rc) = length (tr_system_order rc) \<and>
      map trace_line (concat (tr_emitted_commands rc)) = map2 request_line rs os" if "r = Ok rc" for rc
    using tick(3) order(1,2) that unfolding reports_def by auto
  note receipt = this
  have "\<forall>out \<in> set (butlast outs). is_ok out" using tick(3) unfolding reports_def by blast
  moreover have "tk_count ts' = tk_count ts + 1" using run_tick_count[of dbg p th s ts] run by simp
  moreover have "(\<exists>os. outs = map Ok os \<and> map trace_line (concat (tr_emitted_commands rc)) = map2 request_line rs os) \<and>
      length (tr_emitted_commands rc) = length (tr_system_order rc) \<and>
      distinct (tr_system_order rc) \<and> set (tr_system_order rc) = fst ` set (sch_systems s) \<and>
      (\<forall>j < length (tr_system_order rc).
        set (deps_of (sch_systems s) (tr_system_order rc ! j)) \<subseteq> set (take j (tr_system_order rc)))"
    if rc: "r = Ok rc" for rc
  proof -
    obtain os where os: "outs = map Ok os" "tr_system_order rc = run_order m (sch_stages s)"
        "length (tr_emitted_commands rc) = length (tr_system_order rc)"
        "map trace_line (concat (tr_emitted_commands rc)) = map2 request_line rs os"
      using receipt[OF rc] by blast
    show ?thesis unfolding os(2) using order(3-5) os(1,3,4) by (simp add: os(2)) blast
  qed
  ultimately show ?thesis using tick(1,2) by blast
qed

text \<open>A host that never stops a system and numbers the commands, and a schedule with the observe system.\<close>

definition sample_tick :: "kernel_world \<Rightarrow> unit tick_host" where
  "sample_tick w = \<lparr>th_context = (\<lambda>_ _. sample_context w), th_late = (\<lambda>_ _. False), th_envelope = (\<lambda>_ i n. (0, 100 * i + n)),
     th_command_host = (\<lambda>_ _ _. sample_host), th_command_text = (\<lambda>_. []), th_result_text = (\<lambda>_. []), th_duration_ms = 0\<rparr>"

definition sample_schedule :: "unit tick_system runtime_schedule" where
  "sample_schedule = schedule_new\<lparr>sch_systems := [(1, builtin_spec 1 ''observe'' ObserveStage)],
     sch_stage_order := [(ObserveStage, [1])], sch_system_map := [1 \<mapsto> observe_run]\<rparr>"

lemma sample_registered:
  "register_system (builtin_spec 1 ''observe'' ObserveStage) observe_run schedule_new = Ok sample_schedule"
  by (simp add: register_system_def register_spec_def schedule_new_def sample_schedule_def builtin_spec_def)

lemma kahn_sort_small:
  "kahn_sort dbg sys [] st = Ok []" "deps_of sys i = [] \<Longrightarrow> kahn_sort dbg sys [i] st = Ok [i]"
  by (simp_all add: kahn_sort_def sort_loop.simps)

lemma sample_order: "topological_order dbg (sample_schedule\<lparr>sch_hash := h\<rparr>) = Ok [(ObserveStage, [1])]"
  by (simp add: topological_order_def sample_schedule_def schedule_new_def kahn_sort_small deps_of_def builtin_spec_def)

definition sample_tick_state :: "('s, 'l) kernel \<Rightarrow> ('s, 'l) tick_state" where
  "sample_tick_state k = bind_kernel k \<lparr>tk_count = 6, tk_active = [], tk_receipts = [], tk_kernel = None\<rparr>"

lemma sample_tick_kernel [simp]: "tk_kernel (sample_tick_state k) = Some k" "tk_count (sample_tick_state k) = 6"
  by (simp_all add: sample_tick_state_def bind_kernel_def)

lemma sample_validates: "validate_schedule hash sample_schedule =
    Ok (sample_schedule\<lparr>sch_hash := hash (schedule_bytes sample_schedule)\<rparr>)"
proof -
  have inv: "schedule_inv sample_schedule" by (rule register_system_inv[OF schedule_new_inv sample_registered])
  have sys: "sch_systems sample_schedule = [(1, builtin_spec 1 ''observe'' ObserveStage)]"
    by (simp add: sample_schedule_def)
  have "dep_rel (sch_systems sample_schedule) = {}" by (simp add: dep_rel_def deps_of_def sys builtin_spec_def)
  then have "well_formed_schedule (sch_systems sample_schedule)"
    unfolding sys by (simp add: well_formed_schedule_def acyclic_def builtin_spec_def)
  then show ?thesis using validate_decides[OF inv, of hash] by simp
qed

theorem tick_runs_in_order_witness:
  "\<exists>s rc ts'. validate_schedule id sample_schedule = Ok s \<and>
    run_tick True (mem_ports sample_serde (\<lambda>_. [])) (sample_tick world_new) s (sample_tick_state kernel_new) = (Ok rc, ts') \<and>
    tr_system_order rc = [1] \<and> tr_emitted_commands rc = [[]] \<and> tk_count ts' = 7"
proof -
  let ?s = "sample_schedule\<lparr>sch_hash := id (schedule_bytes sample_schedule)\<rparr>"
    and ?P = "mem_ports sample_serde (\<lambda>_. [])" and ?th = "sample_tick world_new" and ?ts = "sample_tick_state kernel_new"
  obtain r ts' where run: "run_tick True ?P ?th ?s ?ts = (r, ts')" by (cases "run_tick True ?P ?th ?s ?ts")
  have stages: "sch_stages ?s = all_stages" "sch_system_map sample_schedule = [1 \<mapsto> observe_run]"
    by (simp_all add: sample_schedule_def schedule_new_def all_stages_def)
  have "work_states world_new = []" by (rule world_new_empty)
  then obtain rc where rc: "r = Ok rc" "tr_system_order rc = [1]" "tr_emitted_commands rc = [[]]"
    using run unfolding run_tick_def sample_order stages
    by (auto simp: act_bind_def start_tick_def with_kernel_def sample_tick_state_def bind_kernel_def lift_outcome_def
        all_stages_def run_stage_def act_return_def stages run_system_def sample_tick_def observe_run_def system_pass_def
        stage_context_def select_work_def tick_receipt_of_def sample_context_def kernel_new_def)
  have "dom (sch_system_map ?s) = fst ` set (sch_systems ?s)" by (simp add: sample_schedule_def)
  then have "tk_count ts' = 7"
    using tick_runs_in_order[OF register_system_inv[OF schedule_new_inv sample_registered] sample_validates[of id] _ _ run] by auto
  then show ?thesis using sample_validates run rc by blast
qed

subsection \<open>Cleaning up revives finished work\<close>

text \<open>A kernel with the in-memory ports whose keys in \<open>keys\<close> are open.\<close>

definition ready_kernel :: "nat set \<Rightarrow> ('j mem_store, mem_leases) kernel \<Rightarrow> bool" where
  "ready_kernel keys k \<longleftrightarrow> mem_inv (k_store k) \<and> kernel_inv (k_world k) \<and> next_id (k_world k) \<le> 2 ^ 32 \<and>
     (\<forall>key \<in> keys. open_key (mem_view (k_store k)) key)"

lemma ready_kernel_step:
  assumes "ready_kernel keys k" "mem_inv (k_store k')" "kernel_inv (k_world k')" "next_id (k_world k') = next_id (k_world k)"
    and "mem_view (k_store k') = (mem_view (k_store k))(key \<mapsto> st)"
  shows "ready_kernel (keys - {key}) k'"
  using assms by (auto simp: ready_kernel_def open_key_def)

lemma release_revives:
  assumes sd: "serde_ok sd" and k: "ready_kernel keys k" "idempotency_key env \<in> keys"
    and cmd: "command env = Lifecycle (LcReleaseWorkLease e)" and e: "is_alive (k_world k) e"
  shows "\<exists>out k'. submit dbg (mem_ports sd chk) h env k = (Ok out, k') \<and> ready_kernel (keys - {idempotency_key env}) k' \<and>
    next_id (k_world k') = next_id (k_world k) \<and> (\<forall>t x. get_component (k_world k') t x =
      (if t = T_work_state \<and> x = e then Some (VWorkState WReady) else get_component (k_world k) t x))"
proof -
  let ?P = "mem_ports sd chk"
  have inv: "mem_inv (k_store k)" "open_key (mem_view (k_store k)) (idempotency_key env)"
      "kernel_inv (k_world k)" "next_id (k_world k) \<le> 2 ^ 32"
    using k by (simp_all add: ready_kernel_def)
  obtain q j s' where s': "mem_inv s'" "mem_view s' = (mem_view (k_store k))(idempotency_key env \<mapsto> InFlight q j)"
      "submit dbg ?P h env k = submit_admitted dbg ?P h env q (k\<lparr>k_store := s', k_sequence := k_sequence k + 1\<rparr>)"
    by (rule mem.submit_open[of ?P k env dbg h]) (use inv sd in auto)
  obtain w' where w': "attach dbg (EntityError ''release state transition'') e (VWorkState WReady) (k_world k) = (Ok (), w')"
      "kernel_inv w'" "next_id w' = next_id (k_world k)" "\<And>t x. get_component w' t x =
        (if t = T_work_state \<and> x = e then Some (VWorkState WReady) else get_component (k_world k) t x)"
    by (rule attach_alive[OF inv(3) e inv(4), of dbg _ "VWorkState WReady"]) auto
  let ?k = "k\<lparr>k_store := s', k_sequence := k_sequence k + 1, k_lease := removeAll (resource_key e) (k_lease k), k_world := w'\<rparr>"
  have "mem_view (k_store ?k) (idempotency_key env) = Some (InFlight q j)" using s'(2) by simp
  then obtain out s2 st where s2: "commit_release ?P q e ?k = (Ok out, ?k\<lparr>k_store := s2\<rparr>)" "mem_inv s2"
      "mem_view s2 = (mem_view s')(idempotency_key env \<mapsto> st)"
    using mem.commit_ok(2)[of ?P ?k "idempotency_key env" q j e] s'(1) by auto
  have "submit dbg ?P h env k = (Ok out, ?k\<lparr>k_store := s2\<rparr>)"
    using s'(3) s2(1) w'(1) cmd
    by (simp add: submit_admitted_def submit_release_def act_bind_def[of "act_map_err _ _"] act_map_err_def on_lease_def
        mem_release_def act_bind_def[of "on_world _"] on_world_def)
  moreover have "ready_kernel (keys - {idempotency_key env}) (?k\<lparr>k_store := s2\<rparr>)"
    by (rule ready_kernel_step[OF k(1)]) (use s2(2,3) s'(2) w' in auto)
  ultimately show ?thesis using w'(3,4) by (intro exI[of _ out] exI[of _ "?k\<lparr>k_store := s2\<rparr>"]) simp
qed

lemma expire_commits:
  assumes sd: "serde_ok sd" and k: "ready_kernel keys k" "idempotency_key env \<in> keys"
    and cmd: "command env = Lifecycle (LcExpireTransientState e)" "expected_epoch env = None"
  shows "\<exists>out k'. submit dbg (mem_ports sd chk) h env k = (Ok out, k') \<and> ready_kernel (keys - {idempotency_key env}) k' \<and>
    k_world k' = k_world k"
proof -
  have facts: "store_port (mem_ports sd chk) = mem_ops" "serde_ok (serde_json (mem_ports sd chk))" "mem_inv (k_store k)"
      "open_key (mem_view (k_store k)) (idempotency_key env)" "\<not> lease_command (command env)" "fence env (k_world k)"
    using sd k cmd by (simp_all add: ready_kernel_def fence_def)
  have eff: "command_effect dbg h (command env) (k_world k) = (Ok (LifecycleDone (LrTransientExpired e)), k_world k)"
    using cmd by (simp add: effect_plain execute_command_def execute_lifecycle_def act_return_def)
  obtain out q j k' where "submit dbg (mem_ports sd chk) h env k = (Ok out, k')" "mem_inv (k_store k')"
      "k_world k' = k_world k" "mem_view (k_store k') = (mem_view (k_store k))(idempotency_key env \<mapsto> Completed q j
        (result_json (mem_ports sd chk) (LifecycleDone (LrTransientExpired e))) (current_epoch (k_world k)))"
    using mem.submit_commits[OF facts eff] by blast
  then show ?thesis
    using ready_kernel_step[OF k(1), of k'] k(1) unfolding ready_kernel_def[of keys] by auto
qed

definition cleanup_commands :: "entity list \<Rightarrow> command list" where
  "cleanup_commands es = concat (map (\<lambda>e. [Lifecycle (LcReleaseWorkLease e), Lifecycle (LcExpireTransientState e)]) es)"

definition keys_from :: "'b tick_host \<Rightarrow> system_stage \<Rightarrow> nat \<Rightarrow> nat \<Rightarrow> nat set" where
  "keys_from th st i n = (\<lambda>m. snd (th_envelope th st i m)) ` {n..}"

lemma keys_from_Suc: "inj (\<lambda>m. snd (th_envelope th st i m)) \<Longrightarrow>
    keys_from th st i n - {snd (th_envelope th st i n)} = keys_from th st i (Suc n)"
proof -
  assume "inj (\<lambda>m. snd (th_envelope th st i m))"
  from image_set_diff[OF this, of "{n..}" "{n}"] show ?thesis by (simp add: keys_from_def atLeast_Suc)
qed

lemma submit_next:
  assumes "tk_kernel ts = Some k" "submit dbg p (th_command_host th st i n)
      (envelope_new (fst (th_envelope th st i n)) (snd (th_envelope th st i n)) c) k = (Ok out, k')"
  shows "submit_commands dbg p th st i n (c # cs) ts =
    act_bind (submit_commands dbg p th st i (Suc n) cs) (\<lambda>es. act_return (emitted th
      (envelope_new (fst (th_envelope th st i n)) (snd (th_envelope th st i n)) c) out # es)) (ts\<lparr>tk_kernel := Some k'\<rparr>)"
  using assms by (simp add: tick_request_def act_bind_def[of "act_map_err _ _"] act_map_err_def with_kernel_def)

lemma submit_cleanup:
  assumes sd: "serde_ok sd" and keys: "inj (\<lambda>m. snd (th_envelope th st i m))"
  shows "tk_kernel ts = Some k \<Longrightarrow> ready_kernel (keys_from th st i n) k \<Longrightarrow> \<forall>e \<in> set es. is_alive (k_world k) e \<Longrightarrow>
    \<exists>ems ts' k'. submit_commands dbg (mem_ports sd chk) th st i n (cleanup_commands es) ts = (Ok ems, ts') \<and>
      tk_kernel ts' = Some k' \<and> kernel_inv (k_world k') \<and> (\<forall>t x. get_component (k_world k') t x =
        (if t = T_work_state \<and> x \<in> set es then Some (VWorkState WReady) else get_component (k_world k) t x))"
proof (induction es arbitrary: ts k n)
  case Nil
  then show ?case by (simp add: cleanup_commands_def act_return_def ready_kernel_def)
next
  case (Cons e es)
  let ?env = "\<lambda>n c. envelope_new (fst (th_envelope th st i n)) (snd (th_envelope th st i n)) c"
    and ?P = "mem_ports sd chk"
  have k: "kernel_inv (k_world k)" "is_alive (k_world k) e" using Cons.prems by (simp_all add: ready_kernel_def)
  have here: "snd (th_envelope th st i n) \<in> keys_from th st i n" for n by (auto simp: keys_from_def)
  obtain out1 k1 where 1: "submit dbg ?P (th_command_host th st i n) (?env n (Lifecycle (LcReleaseWorkLease e))) k = (Ok out1, k1)"
      "ready_kernel (keys_from th st i (Suc n)) k1" "next_id (k_world k1) = next_id (k_world k)"
      "\<forall>t x. get_component (k_world k1) t x =
        (if t = T_work_state \<and> x = e then Some (VWorkState WReady) else get_component (k_world k) t x)"
    using release_revives[OF sd Cons.prems(2) _ _ k(2), of "?env n (Lifecycle (LcReleaseWorkLease e))" dbg chk
        "th_command_host th st i n"] here keys_from_Suc[OF keys] by auto
  obtain out2 k2 where 2: "submit dbg ?P (th_command_host th st i (Suc n))
        (?env (Suc n) (Lifecycle (LcExpireTransientState e))) k1 = (Ok out2, k2)"
      "ready_kernel (keys_from th st i (Suc (Suc n))) k2" "k_world k2 = k_world k1"
    using expire_commits[OF sd 1(2), of "?env (Suc n) (Lifecycle (LcExpireTransientState e))" e dbg chk
        "th_command_host th st i (Suc n)"] here keys_from_Suc[OF keys] by auto
  let ?ts = "ts\<lparr>tk_kernel := Some k2\<rparr>"
  have "\<forall>x \<in> set es. is_alive (k_world k2) x"
    using Cons.prems(3) 1(2,3) 2(3) k(1) by (simp add: ready_kernel_def kernel_alive)
  then obtain ems ts' k' where 3: "submit_commands dbg ?P th st i (Suc (Suc n)) (cleanup_commands es) ?ts = (Ok ems, ts')"
      "tk_kernel ts' = Some k'" "kernel_inv (k_world k')" "\<forall>t x. get_component (k_world k') t x =
        (if t = T_work_state \<and> x \<in> set es then Some (VWorkState WReady) else get_component (k_world k2) t x)"
    using Cons.IH[of ?ts k2 "Suc (Suc n)"] 2(2) by auto
  have cmds: "cleanup_commands (e # es) =
      Lifecycle (LcReleaseWorkLease e) # Lifecycle (LcExpireTransientState e) # cleanup_commands es"
    by (simp add: cleanup_commands_def)
  have second: "submit_commands dbg ?P th st i (Suc n) (Lifecycle (LcExpireTransientState e) # cleanup_commands es)
      (ts\<lparr>tk_kernel := Some k1\<rparr>) = (Ok (emitted th (?env (Suc n) (Lifecycle (LcExpireTransientState e))) out2 # ems), ts')"
    by (subst submit_next[where k = k1 and k' = k2 and out = out2])
      (simp_all add: 2(1) 3(1) act_bind_def act_return_def)
  have "\<exists>ems'. submit_commands dbg ?P th st i n (cleanup_commands (e # es)) ts = (Ok ems', ts')"
    unfolding cmds submit_next[OF Cons.prems(1) 1(1)] by (simp only: act_bind_def second) (simp add: act_return_def)
  then show ?case using 1(4) 2(3) 3(2-4) by auto
qed

lemma get_work_state_alive: "get_work_state w e = Some s \<Longrightarrow> is_alive w e" for w :: kernel_world
  by (auto simp: get_work_state_iff get_component_def is_alive_def split: if_splits)

text \<open>C18: the cleanup stage revives finished work. When no context stops it, it succeeds, and every terminal item that it
  selects, completed, failed or cancelled, is ready afterwards; nothing else changes. An item that was admitted is
  leasable again, so the next lease and dispatch stages run it once more.
\<close>

theorem cleanup_revives:
  assumes sd: "serde_ok sd" and k: "tk_kernel ts = Some k" "mem_inv (k_store k)" "kernel_inv (k_world k)"
      "next_id (k_world k) \<le> 2 ^ 32"
    and sys: "sch_system_map s 8 = Some cleanup_run" "\<not> th_late th CleanupStage 8"
      "\<And>n. \<not> sc_should_stop (th_context th CleanupStage 8) n"
    and keys: "inj (\<lambda>n. snd (th_envelope th CleanupStage 8 n))"
      "\<And>n. open_key (mem_view (k_store k)) (snd (th_envelope th CleanupStage 8 n))"
  shows "\<exists>rs ts' k'. run_stage dbg (mem_ports sd chk) th s CleanupStage [8] ts = (Ok rs, ts') \<and> tk_kernel ts' = Some k' \<and>
    (let es = select_work (k_world k) 32 (\<lambda>_ st. work_is_terminal st) in
      (\<forall>e \<in> set es. (\<exists>st. get_work_state (k_world k) e = Some st \<and> work_is_terminal st) \<and>
        get_work_state (k_world k') e = Some WReady \<and>
        (has_marker (k_world k) T_admitted e \<longrightarrow> leasable_work (k_world k') e WReady)) \<and>
      (\<forall>t x. t \<noteq> T_work_state \<or> x \<notin> set es \<longrightarrow> get_component (k_world k') t x = get_component (k_world k) t x))"
proof -
  define es where "es = select_work (k_world k) 32 (\<lambda>_ st. work_is_terminal st)"
  let ?ctx = "stage_context th s CleanupStage 8 (k_world k)"
    and ?sy = "\<lparr>sy_commands = [], sy_active = tk_active ts, sy_receipts = tk_receipts ts\<rparr>"
  have ctx: "\<And>n. \<not> sc_should_stop ?ctx n" "sc_world ?ctx = k_world k" using sys(3) by (simp_all add: stage_context_def)
  have "cleanup_run ?ctx ?sy = (Ok (), ?sy\<lparr>sy_commands := sy_commands ?sy @ concat (map (\<lambda>(i, e).
      [Lifecycle (LcReleaseWorkLease e), Lifecycle (LcExpireTransientState e)]) (reached ?ctx es))\<rparr>)"
    unfolding cleanup_run_def ctx es_def by (rule pass_emits) (simp add: act_bind_def emit_def)
  moreover have "map (\<lambda>(i, e). f e) (reached ?ctx es) = map f es" for f :: "entity \<Rightarrow> command list"
    using arg_cong[OF reached_all[OF ctx(1), of es], of "map f"] by (simp add: case_prod_beta' comp_def)
  ultimately have run: "cleanup_run ?ctx ?sy = (Ok (), ?sy\<lparr>sy_commands := cleanup_commands es\<rparr>)"
    by (simp add: cleanup_commands_def)
  have terminal: "\<exists>st. get_work_state (k_world k) e = Some st \<and> work_is_terminal st" if "e \<in> set es" for e
    using select_work_mem[OF k(3)] that unfolding es_def by blast
  have alive: "\<forall>e \<in> set es. is_alive (k_world k) e" using terminal get_work_state_alive by blast
  have "ready_kernel (keys_from th CleanupStage 8 0) k" using k keys(2) by (auto simp: ready_kernel_def keys_from_def)
  then obtain ems ts' k' where sub: "submit_commands dbg (mem_ports sd chk) th CleanupStage 8 0 (cleanup_commands es) ts = (Ok ems, ts')"
      "tk_kernel ts' = Some k'" "\<forall>t x. get_component (k_world k') t x =
        (if t = T_work_state \<and> x \<in> set es then Some (VWorkState WReady) else get_component (k_world k) t x)"
    using submit_cleanup[OF sd keys(1) k(1) _ alive] by blast
  have same: "ts\<lparr>tk_kernel := Some k\<rparr> = ts" using k(1) by (cases ts) simp
  have "run_stage dbg (mem_ports sd chk) th s CleanupStage [8] ts = (Ok [(8, ems)], ts')"
    using run k(1) sys(1,2) sub(1)
    by (simp add: same run_stage_def act_bind_def with_kernel_def run_system_def act_return_def)
  moreover have "get_work_state (k_world k') e = Some WReady" if "e \<in> set es" for e
    using sub(3) that by (simp add: get_work_state_iff)
  moreover have "leasable_work (k_world k') e WReady" if "has_marker (k_world k) T_admitted e" for e
    using sub(3) that by (simp add: leasable_work_def has_marker_def)
  ultimately show ?thesis using sub(2,3) terminal unfolding es_def[symmetric] Let_def by auto
qed

lemma fail_commits:
  assumes sd: "serde_ok sd" and k: "ready_kernel keys k" "key \<in> keys" and e: "is_alive (k_world k) e"
  shows "\<exists>out k'. submit dbg (mem_ports sd chk) h (envelope_new a key (Lifecycle (LcFailWork e err gen retryable))) k =
      (Ok out, k') \<and> ready_kernel (keys - {key}) k' \<and> (\<forall>t x. get_component (k_world k') t x =
      (if t = T_work_state \<and> x = e then Some (VWorkState WFailed) else get_component (k_world k) t x))"
proof -
  let ?env = "envelope_new a key (Lifecycle (LcFailWork e err gen retryable))"
  have inv: "kernel_inv (k_world k)" "next_id (k_world k) \<le> 2 ^ 32" using k by (simp_all add: ready_kernel_def)
  obtain w' where w': "attach dbg (EntityError ''fail work transition'') e (VWorkState WFailed) (k_world k) = (Ok (), w')"
      "kernel_inv w'" "next_id w' = next_id (k_world k)" "\<And>t x. get_component w' t x =
        (if t = T_work_state \<and> x = e then Some (VWorkState WFailed) else get_component (k_world k) t x)"
    by (rule attach_alive[OF inv(1) e inv(2), of dbg _ "VWorkState WFailed"]) auto
  have facts: "store_port (mem_ports sd chk) = mem_ops" "serde_ok (serde_json (mem_ports sd chk))" "mem_inv (k_store k)"
      "open_key (mem_view (k_store k)) (idempotency_key ?env)" "\<not> lease_command (command ?env)" "fence ?env (k_world k)"
    using sd k by (simp_all add: ready_kernel_def fence_def)
  have "has_entity (k_world k) e" using e by (simp add: has_entity_def)
  then have eff: "command_effect dbg h (command ?env) (k_world k) = (Ok (LifecycleDone (LrFailed e err)), w')"
    using w'(1) by (simp add: effect_plain execute_command_def execute_lifecycle_def execute_fail_work_def read_world_def
        attach_when_def act_bind_def act_return_def)
  obtain out q j k' where "submit dbg (mem_ports sd chk) h ?env k = (Ok out, k')" "mem_inv (k_store k')" "k_world k' = w'"
      "mem_view (k_store k') = (mem_view (k_store k))(idempotency_key ?env \<mapsto> Completed q j
        (result_json (mem_ports sd chk) (LifecycleDone (LrFailed e err))) (current_epoch w'))"
    using mem.submit_commits[OF facts eff] by blast
  then show ?thesis using ready_kernel_step[OF k(1), of k' key] w'(2-4) by (intro exI[of _ out] exI[of _ k']) auto
qed

text \<open>A kernel with one created work item.\<close>

lemma sample_ready:
  obtains out k where "submit True (mem_ports sample_serde (\<lambda>_. [])) sample_host
      (envelope_new 0 1 (Lifecycle (LcCreateWork sample_work))) kernel_new = (Ok out, k)"
    "ready_kernel (- {1}) k" "is_alive (k_world k) (Entity 1 0)" "next_id (k_world k) = 2"
proof -
  let ?env = "envelope_new 0 1 (Lifecycle (LcCreateWork sample_work))" and ?P = "mem_ports sample_serde (\<lambda>_. [])"
  have n: "next_id (world_new :: kernel_world) = 1" by (simp add: world_new_def)
  then have room: "next_id (world_new :: kernel_world) < 2 ^ 32" by simp
  obtain r w where w: "execute_create_work True sample_work world_new = (Ok r, w)"
      "created world_new (Entity 1 0) (work_components sample_work) w"
    using runs_create_work[OF room, of True sample_work] kernel_inv_new n unfolding runs_def by auto
  have eff: "command_effect True sample_host (command ?env) (k_world kernel_new) = (Ok r, w)"
    using w(1) by (simp add: effect_plain execute_command_def execute_lifecycle_def kernel_new_def)
  have facts: "store_port ?P = mem_ops" "serde_ok (serde_json ?P)" "mem_inv (k_store kernel_new)"
      "open_key (mem_view (k_store kernel_new)) (idempotency_key ?env)" "\<not> lease_command (command ?env)"
      "fence ?env (k_world kernel_new)"
    using serde_ok_sample by (simp_all add: kernel_new_def fence_def open_key_def)
  obtain out q j k where k: "submit True ?P sample_host ?env kernel_new = (Ok out, k)" "mem_inv (k_store k)" "k_world k = w"
      "mem_view (k_store k) = (mem_view (k_store kernel_new))(idempotency_key ?env \<mapsto>
        Completed q j (result_json ?P r) (current_epoch w))"
    using mem.submit_commits[OF facts eff] by blast
  have "kernel_inv w" "next_id w = 2" using w(2) n by (simp_all add: created_def)
  then show ?thesis using that[OF k(1)] k(2-4)
    by (simp add: ready_kernel_def kernel_alive open_key_def kernel_new_def)
qed

lemma work_states_single:
  assumes "kernel_inv w" "\<And>x s. get_work_state w x = Some s \<Longrightarrow> x = e"
  shows "length (work_states w) \<le> 1"
proof -
  have "fst ` set (work_states w) \<subseteq> {e}" using assms(2) by (auto simp: kernel_work_states[OF assms(1)])
  then have "card (fst ` set (work_states w)) \<le> 1" using card_mono[of "{e}"] by fastforce
  then show ?thesis using distinct_card[OF work_states_distinct[OF assms(1)]] by simp
qed

theorem cleanup_revives_witness:
  "\<exists>k1 k2 k3 out1 out2 rs ts'. let P = mem_ports sample_serde (\<lambda>_. []); e = Entity 1 0 in
    submit True P sample_host (envelope_new 0 1 (Lifecycle (LcCreateWork sample_work))) kernel_new = (Ok out1, k1) \<and>
    submit True P sample_host (envelope_new 0 2 (Lifecycle (LcFailWork e [] 1 False))) k1 = (Ok out2, k2) \<and>
    get_work_state (k_world k2) e = Some WFailed \<and>
    run_stage True P (sample_tick (k_world k2)) (sample_schedule\<lparr>sch_system_map := [8 \<mapsto> cleanup_run]\<rparr>) CleanupStage [8]
      (sample_tick_state k2) = (Ok rs, ts') \<and>
    tk_kernel ts' = Some k3 \<and> get_work_state (k_world k3) e = Some WReady"
proof -
  let ?P = "mem_ports sample_serde (\<lambda>_. [])" and ?e = "Entity 1 0"
    and ?s = "sample_schedule\<lparr>sch_system_map := [8 \<mapsto> cleanup_run]\<rparr>"
  obtain out1 k1 where k1: "submit True ?P sample_host (envelope_new 0 1 (Lifecycle (LcCreateWork sample_work))) kernel_new =
      (Ok out1, k1)" "ready_kernel (- {1}) k1" "is_alive (k_world k1) ?e" "next_id (k_world k1) = 2"
    by (rule sample_ready)
  obtain out2 k2 where k2: "submit True ?P sample_host (envelope_new 0 2 (Lifecycle (LcFailWork ?e [] 1 False))) k1 =
      (Ok out2, k2)" "ready_kernel (- {1} - {2}) k2" "\<forall>t x. get_component (k_world k2) t x =
      (if t = T_work_state \<and> x = ?e then Some (VWorkState WFailed) else get_component (k_world k1) t x)"
    using fail_commits[OF serde_ok_sample k1(2) _ k1(3), of 2 True "\<lambda>_. []" sample_host 0 "[]" 1 False] by auto
  let ?th = "sample_tick (k_world k2)"
  have failed: "get_work_state (k_world k2) ?e = Some WFailed" using k2(3) by (simp add: get_work_state_iff)
  have key: "snd (th_envelope ?th CleanupStage 8 n) = 800 + n" for n by (simp add: sample_tick_def)
  have inv: "mem_inv (k_store k2)" "kernel_inv (k_world k2)" "next_id (k_world k2) \<le> 2 ^ 32"
      "open_key (mem_view (k_store k2)) (snd (th_envelope ?th CleanupStage 8 n))" for n
    using k2(2) by (simp_all add: ready_kernel_def key)
  have ctx: "sch_system_map ?s 8 = Some cleanup_run" "\<not> th_late ?th CleanupStage 8"
      "\<not> sc_should_stop (th_context ?th CleanupStage 8) n" "inj (\<lambda>n. snd (th_envelope ?th CleanupStage 8 n))" for n
    by (simp_all add: sample_tick_def inj_def)
  obtain rs ts' k3 where k3: "run_stage True ?P ?th ?s CleanupStage [8] (sample_tick_state k2) = (Ok rs, ts')"
      "tk_kernel ts' = Some k3" "\<forall>e \<in> set (select_work (k_world k2) 32 (\<lambda>_ st. work_is_terminal st)).
        get_work_state (k_world k3) e = Some WReady"
    using cleanup_revives[OF serde_ok_sample sample_tick_kernel(1) inv(1-3) ctx(1-4) inv(4), where dbg = True
        and chk = "\<lambda>_. []"] by (auto simp: Let_def)
  have "?e \<in> set (select_work (k_world k2) 32 (\<lambda>_ st. work_is_terminal st))"
  proof -
    have "x = ?e" if "get_work_state (k_world k2) x = Some st" for x st
    proof (rule ccontr)
      assume "x \<noteq> ?e"
      then have "get_work_state (k_world k1) x = Some st" using k2(3) that by (simp add: get_work_state_iff)
      then show False using get_work_state_alive[of "k_world k1" x] k1(2,4) \<open>x \<noteq> ?e\<close>
        by (cases x) (simp add: ready_kernel_def kernel_alive)
    qed
    then have "length (work_states (k_world k2)) \<le> 1" by (rule work_states_single[OF inv(2)])
    then have "length (filter (\<lambda>(e, st). work_is_terminal st) (work_states (k_world k2))) \<le> 32"
      using length_filter_le[of "\<lambda>(e, st). work_is_terminal st" "work_states (k_world k2)"] by linarith
    from select_work_all[OF inv(2) this] show ?thesis using failed by (simp add: work_is_terminal_def)
  qed
  then show ?thesis using k1(1) k2(1) failed k3 by (auto simp: Let_def)
qed

end
