(* ===== verification/Lane_Capacity.thy ===== *)
theory Lane_Capacity
  imports Prism_Prelude
begin

text \<open>
  The admission of work to the hardware lanes (\<open>scheduling/state/lane_capacity.rs\<close>): permits for a lane and a
  session, counted per family of lanes, per session and in total. Counters are \<open>usize\<close> and saturate. The
  locale \<open>permit_pool\<close> is the contract of a pool of permits that are taken and given back; the manager and the
  quota of a session interpret it.
\<close>

subsection \<open>Lanes\<close>

datatype execution_lane = MlxGpu | AccelerateCpu | CoreAiAne | CandleCpu | Tensix | IntelLevelZero

definition is_metal_family :: "execution_lane \<Rightarrow> bool" where
  "is_metal_family l \<longleftrightarrow> l \<in> {MlxGpu, Tensix}"

definition is_ane :: "execution_lane \<Rightarrow> bool" where
  "is_ane l \<longleftrightarrow> l = CoreAiAne"

definition is_cpu_family :: "execution_lane \<Rightarrow> bool" where
  "is_cpu_family l \<longleftrightarrow> l \<in> {AccelerateCpu, CandleCpu, IntelLevelZero}"

fun canonical_name :: "execution_lane \<Rightarrow> string" where
  "canonical_name MlxGpu = ''mlx_gpu''"
| "canonical_name AccelerateCpu = ''accelerate_cpu''"
| "canonical_name CoreAiAne = ''core_ai_ane''"
| "canonical_name CandleCpu = ''candle_cpu''"
| "canonical_name Tensix = ''tensix''"
| "canonical_name IntelLevelZero = ''intel_level_zero''"

lemma lane_families:
  "is_metal_family l \<Longrightarrow> \<not> is_ane l \<and> \<not> is_cpu_family l" "is_ane l \<Longrightarrow> \<not> is_metal_family l \<and> \<not> is_cpu_family l"
  "\<not> is_metal_family l \<Longrightarrow> \<not> is_ane l \<Longrightarrow> is_cpu_family l"
  by (cases l; simp add: is_metal_family_def is_ane_def is_cpu_family_def)+

lemma canonical_name_inj: "canonical_name l = canonical_name l' \<longleftrightarrow> l = l'"
  by (cases l; cases l') simp_all

subsection \<open>The manager\<close>

text \<open>Saturating operations on \<open>usize\<close>; \<open>saturating_sub(1)\<close> is truncated subtraction.\<close>

definition usize_max :: nat where
  "usize_max = 2 ^ 64 - 1"

definition usize_inc :: "nat \<Rightarrow> nat" where
  "usize_inc n = min (n + 1) usize_max"

record lane_permit =
  lp_lane :: execution_lane
  lp_id :: "64 word"

record capacity_config =
  max_in_flight_command_buffers :: nat
  max_in_flight_ane_predictions :: nat
  max_in_flight_cpu_workers :: nat
  max_queued_per_lane :: nat
  max_in_flight_per_session :: nat
  global_max_pending :: nat

definition capacity_default :: capacity_config where
  "capacity_default = \<lparr>max_in_flight_command_buffers = 3, max_in_flight_ane_predictions = 1,
     max_in_flight_cpu_workers = 2, max_queued_per_lane = 64, max_in_flight_per_session = 128,
     global_max_pending = 4096\<rparr>"

record capacity_manager =
  cm_config :: capacity_config
  metal_in_flight :: nat
  ane_in_flight :: nat
  cpu_in_flight :: nat
  metal_queued :: nat
  ane_queued :: nat
  cpu_queued :: nat
  global_pending :: nat
  session_in_flight :: "string \<rightharpoonup> nat"
  next_permit_id :: "64 word"

definition capacity_new :: "capacity_config \<Rightarrow> capacity_manager" where
  "capacity_new c = \<lparr>cm_config = c, metal_in_flight = 0, ane_in_flight = 0, cpu_in_flight = 0, metal_queued = 0,
     ane_queued = 0, cpu_queued = 0, global_pending = 0, session_in_flight = Map.empty, next_permit_id = 1\<rparr>"

definition lane_at_cap :: "execution_lane \<Rightarrow> capacity_manager \<Rightarrow> bool" where
  "lane_at_cap l m =
     (if is_metal_family l then metal_in_flight m \<ge> max_in_flight_command_buffers (cm_config m)
      else if is_ane l then ane_in_flight m \<ge> max_in_flight_ane_predictions (cm_config m)
      else cpu_in_flight m \<ge> max_in_flight_cpu_workers (cm_config m))"

text \<open>The counter of the family of a lane, updated in place.\<close>

definition update_in_flight :: "(nat \<Rightarrow> nat) \<Rightarrow> execution_lane \<Rightarrow> capacity_manager \<Rightarrow> capacity_manager" where
  "update_in_flight f l m =
     (if is_metal_family l then m\<lparr>metal_in_flight := f (metal_in_flight m)\<rparr>
      else if is_ane l then m\<lparr>ane_in_flight := f (ane_in_flight m)\<rparr>
      else if is_cpu_family l then m\<lparr>cpu_in_flight := f (cpu_in_flight m)\<rparr> else m)"

definition update_queued :: "(nat \<Rightarrow> nat) \<Rightarrow> execution_lane \<Rightarrow> capacity_manager \<Rightarrow> capacity_manager" where
  "update_queued f l m =
     (if is_metal_family l then m\<lparr>metal_queued := f (metal_queued m)\<rparr>
      else if is_ane l then m\<lparr>ane_queued := f (ane_queued m)\<rparr>
      else if is_cpu_family l then m\<lparr>cpu_queued := f (cpu_queued m)\<rparr> else m)"

definition try_acquire :: "execution_lane \<Rightarrow> string \<Rightarrow> capacity_manager \<Rightarrow> lane_permit option \<times> capacity_manager" where
  "try_acquire l session m =
     (if lane_at_cap l m then (None, m)
      else if (case session_in_flight m session of Some n \<Rightarrow> n | None \<Rightarrow> 0) \<ge> max_in_flight_per_session (cm_config m)
      then (None, m)
      else if global_pending m \<ge> global_max_pending (cm_config m) then (None, m)
      else (let m1 = update_in_flight usize_inc l (m\<lparr>next_permit_id := next_permit_id m + 1\<rparr>)
        in (Some \<lparr>lp_lane = l, lp_id = next_permit_id m\<rparr>,
          m1\<lparr>global_pending := usize_inc (global_pending m1),
             session_in_flight := (session_in_flight m1)(session \<mapsto>
               (case session_in_flight m1 session of Some n \<Rightarrow> usize_inc n | None \<Rightarrow> 1))\<rparr>)))"

definition release_permit :: "lane_permit \<Rightarrow> string \<Rightarrow> capacity_manager \<Rightarrow> capacity_manager" where
  "release_permit p session m =
     (let m1 = update_in_flight (\<lambda>n. n - 1) (lp_lane p) m; m2 = m1\<lparr>global_pending := global_pending m1 - 1\<rparr>
      in case session_in_flight m2 session of
        None \<Rightarrow> m2
      | Some n \<Rightarrow> m2\<lparr>session_in_flight :=
          (session_in_flight m2)(session := (if n - 1 = 0 then None else Some (n - 1)))\<rparr>)"

definition increment_queued :: "execution_lane \<Rightarrow> capacity_manager \<Rightarrow> capacity_manager" where
  "increment_queued = update_queued usize_inc"

definition decrement_queued :: "execution_lane \<Rightarrow> capacity_manager \<Rightarrow> capacity_manager" where
  "decrement_queued = update_queued (\<lambda>n. n - 1)"

record capacity_snapshot =
  cs_metal_in_flight :: nat
  cs_ane_in_flight :: nat
  cs_cpu_in_flight :: nat
  cs_metal_queued :: nat
  cs_ane_queued :: nat
  cs_cpu_queued :: nat
  cs_global_pending :: nat
  cs_metal_capacity :: nat
  cs_ane_capacity :: nat
  cs_cpu_capacity :: nat

definition capacity_snapshot_of :: "capacity_manager \<Rightarrow> capacity_snapshot" where
  "capacity_snapshot_of m = \<lparr>cs_metal_in_flight = metal_in_flight m, cs_ane_in_flight = ane_in_flight m,
     cs_cpu_in_flight = cpu_in_flight m, cs_metal_queued = metal_queued m, cs_ane_queued = ane_queued m,
     cs_cpu_queued = cpu_queued m, cs_global_pending = global_pending m,
     cs_metal_capacity = max_in_flight_command_buffers (cm_config m),
     cs_ane_capacity = max_in_flight_ane_predictions (cm_config m),
     cs_cpu_capacity = max_in_flight_cpu_workers (cm_config m)\<rparr>"

text \<open>The quota of one session.\<close>

record session_quota =
  sq_max_pending :: nat
  sq_current :: nat

definition has_capacity :: "session_quota \<Rightarrow> bool" where
  "has_capacity q \<longleftrightarrow> sq_current q < sq_max_pending q"

definition quota_remaining :: "session_quota \<Rightarrow> nat" where
  "quota_remaining q = sq_max_pending q - sq_current q"

definition try_reserve :: "session_quota \<Rightarrow> bool \<times> session_quota" where
  "try_reserve q = (if sq_current q \<ge> sq_max_pending q then (False, q)
     else (True, q\<lparr>sq_current := usize_inc (sq_current q)\<rparr>))"

definition quota_release :: "session_quota \<Rightarrow> session_quota" where
  "quota_release q = q\<lparr>sq_current := sq_current q - 1\<rparr>"

subsection \<open>Pools of permits\<close>

text \<open>
  A run of a pool, with the permits that are out: a permit is asked for under a key, given back under the key it
  was granted for, and other operations happen in between.
\<close>

inductive pool_run :: "('k \<Rightarrow> 's \<Rightarrow> 'p option \<times> 's) \<Rightarrow> ('p \<Rightarrow> 'k \<Rightarrow> 's \<Rightarrow> 's) \<Rightarrow> ('s \<Rightarrow> 's \<Rightarrow> bool) \<Rightarrow> 's \<Rightarrow>
    ('p \<times> 'k) multiset \<Rightarrow> 's \<Rightarrow> bool" for acquire release other s0 where
  start: "pool_run acquire release other s0 {#} s0"
| granted: "pool_run acquire release other s0 A s \<Longrightarrow> acquire k s = (Some p, s') \<Longrightarrow>
    pool_run acquire release other s0 (add_mset (p, k) A) s'"
| refused: "pool_run acquire release other s0 A s \<Longrightarrow> acquire k s = (None, s') \<Longrightarrow> pool_run acquire release other s0 A s'"
| returned: "pool_run acquire release other s0 (add_mset (p, k) A) s \<Longrightarrow>
    pool_run acquire release other s0 A (release p k s)"
| between: "pool_run acquire release other s0 A s \<Longrightarrow> other s s' \<Longrightarrow> pool_run acquire release other s0 A s'"

locale permit_pool =
  fixes acquire :: "'k \<Rightarrow> 's \<Rightarrow> 'p option \<times> 's" and release :: "'p \<Rightarrow> 'k \<Rightarrow> 's \<Rightarrow> 's" and other :: "'s \<Rightarrow> 's \<Rightarrow> bool"
    and inv :: "('p \<times> 'k) multiset \<Rightarrow> 's \<Rightarrow> bool"
  assumes acquire_granted: "inv A s \<Longrightarrow> acquire k s = (Some p, s') \<Longrightarrow> inv (add_mset (p, k) A) s'"
    and acquire_refused: "acquire k s = (None, s') \<Longrightarrow> s' = s"
    and release_returned: "inv (add_mset (p, k) A) s \<Longrightarrow> inv A (release p k s)"
    and other_keeps: "inv A s \<Longrightarrow> other s s' \<Longrightarrow> inv A s'"
begin

lemma pool_keeps: "pool_run acquire release other s0 A s \<Longrightarrow> inv {#} s0 \<Longrightarrow> inv A s"
  by (induction rule: pool_run.induct) (auto dest: acquire_granted acquire_refused release_returned other_keeps)

end

text \<open>The quota: its counter is the number of units that are out.\<close>

definition quota_acquire :: "unit \<Rightarrow> session_quota \<Rightarrow> unit option \<times> session_quota" where
  "quota_acquire _ q = (let (ok, q') = try_reserve q in (if ok then Some () else None, q'))"

definition quota_inv :: "(unit \<times> unit) multiset \<Rightarrow> session_quota \<Rightarrow> bool" where
  "quota_inv A q \<longleftrightarrow> sq_current q = size A \<and> sq_current q \<le> sq_max_pending q \<and> sq_max_pending q \<le> usize_max"

interpretation quota: permit_pool quota_acquire "\<lambda>_ _. quota_release" "\<lambda>_ _. False" quota_inv
  by unfold_locales
    (auto simp: quota_inv_def quota_acquire_def try_reserve_def quota_release_def usize_inc_def split: if_splits)

subsection \<open>The counters are exact\<close>

text \<open>The permits that are out, by family and by session.\<close>

definition in_family :: "(execution_lane \<Rightarrow> bool) \<Rightarrow> (lane_permit \<times> execution_lane \<times> string) multiset \<Rightarrow> nat" where
  "in_family fam A = size {#x \<in># A. fam (lp_lane (fst x))#}"

definition of_session :: "string \<Rightarrow> (lane_permit \<times> execution_lane \<times> string) multiset \<Rightarrow> nat" where
  "of_session session A = size {#x \<in># A. snd (snd x) = session#}"

definition config_ok :: "capacity_config \<Rightarrow> bool" where
  "config_ok c \<longleftrightarrow> max_in_flight_command_buffers c \<le> usize_max \<and> max_in_flight_ane_predictions c \<le> usize_max \<and>
     max_in_flight_cpu_workers c \<le> usize_max \<and> max_in_flight_per_session c \<le> usize_max \<and> global_max_pending c \<le> usize_max"

definition capacity_inv :: "capacity_config \<Rightarrow> (lane_permit \<times> execution_lane \<times> string) multiset \<Rightarrow>
    capacity_manager \<Rightarrow> bool" where
  "capacity_inv c A m \<longleftrightarrow> config_ok c \<and> cm_config m = c \<and>
     metal_in_flight m = in_family is_metal_family A \<and> metal_in_flight m \<le> max_in_flight_command_buffers c \<and>
     ane_in_flight m = in_family is_ane A \<and> ane_in_flight m \<le> max_in_flight_ane_predictions c \<and>
     cpu_in_flight m = in_family is_cpu_family A \<and> cpu_in_flight m \<le> max_in_flight_cpu_workers c \<and>
     global_pending m = size A \<and> global_pending m \<le> global_max_pending c \<and>
     (\<forall>s. session_in_flight m s = (if of_session s A = 0 then None else Some (of_session s A)) \<and>
       of_session s A \<le> max_in_flight_per_session c)"

definition lane_acquire :: "execution_lane \<times> string \<Rightarrow> capacity_manager \<Rightarrow> lane_permit option \<times> capacity_manager" where
  "lane_acquire k = try_acquire (fst k) (snd k)"

definition queue_step :: "capacity_manager \<Rightarrow> capacity_manager \<Rightarrow> bool" where
  "queue_step m m' \<longleftrightarrow> (\<exists>l. m' = increment_queued l m \<or> m' = decrement_queued l m)"

lemma in_family_add: "in_family fam (add_mset (p, k) A) = (if fam (lp_lane p) then Suc (in_family fam A) else in_family fam A)"
  by (simp add: in_family_def)

lemma of_session_add: "of_session s (add_mset (p, l, s') A) = (if s' = s then Suc (of_session s A) else of_session s A)"
  by (simp add: of_session_def)

text \<open>A permit is granted exactly below all three limits.\<close>

lemma try_acquire_decides:
  assumes "capacity_inv c A m"
  shows "case try_acquire l session m of
      (None, m') \<Rightarrow> m' = m \<and> (lane_at_cap l m \<or> of_session session A \<ge> max_in_flight_per_session c \<or>
        size A \<ge> global_max_pending c)
    | (Some p, m') \<Rightarrow> lp_lane p = l \<and> \<not> lane_at_cap l m \<and> of_session session A < max_in_flight_per_session c \<and>
        size A < global_max_pending c"
proof -
  have "(case session_in_flight m session of Some n \<Rightarrow> n | None \<Rightarrow> 0) = of_session session A"
    using assms by (simp add: capacity_inv_def)
  then show ?thesis using assms by (auto simp: try_acquire_def capacity_inv_def Let_def not_le)
qed

lemma update_in_flight_simps [simp]:
  "cm_config (update_in_flight f l m) = cm_config m" "global_pending (update_in_flight f l m) = global_pending m"
  "session_in_flight (update_in_flight f l m) = session_in_flight m"
  "metal_in_flight (update_in_flight f l m) = (if is_metal_family l then f (metal_in_flight m) else metal_in_flight m)"
  "ane_in_flight (update_in_flight f l m) = (if is_ane l then f (ane_in_flight m) else ane_in_flight m)"
  "cpu_in_flight (update_in_flight f l m) = (if is_cpu_family l then f (cpu_in_flight m) else cpu_in_flight m)"
  using lane_families[of l] by (auto simp: update_in_flight_def)

lemma usize_inc_below: "n < limit \<Longrightarrow> limit \<le> usize_max \<Longrightarrow> usize_inc n = Suc n"
  by (simp add: usize_inc_def)

lemma acquire_keeps:
  assumes inv: "capacity_inv c A m" and run: "try_acquire l session m = (Some p, m')"
  shows "capacity_inv c (add_mset (p, l, session) A) m'"
proof -
  have dec: "lp_lane p = l" "\<not> lane_at_cap l m" "of_session session A < max_in_flight_per_session c"
      "size A < global_max_pending c"
    using try_acquire_decides[OF inv, of l session] run by simp_all
  have c: "config_ok c" "cm_config m = c" using inv by (simp_all add: capacity_inv_def)
  have m': "m' = (let m1 = update_in_flight usize_inc l (m\<lparr>next_permit_id := next_permit_id m + 1\<rparr>)
        in m1\<lparr>global_pending := usize_inc (global_pending m1),
             session_in_flight := (session_in_flight m1)(session \<mapsto>
               (case session_in_flight m1 session of Some n \<Rightarrow> usize_inc n | None \<Rightarrow> 1))\<rparr>)"
    using run by (simp add: try_acquire_def Let_def split: if_splits)
  have metal: "usize_inc (metal_in_flight m) = Suc (metal_in_flight m) \<and> metal_in_flight m < max_in_flight_command_buffers c"
    if "is_metal_family l"
    using dec(2) that c usize_inc_below[of "metal_in_flight m" "max_in_flight_command_buffers c"]
    by (simp add: lane_at_cap_def config_ok_def not_le)
  have ane: "usize_inc (ane_in_flight m) = Suc (ane_in_flight m) \<and> ane_in_flight m < max_in_flight_ane_predictions c"
    if "is_ane l"
    using dec(2) that c usize_inc_below[of "ane_in_flight m" "max_in_flight_ane_predictions c"] lane_families(2)[of l]
    by (simp add: lane_at_cap_def config_ok_def not_le)
  have cpu: "usize_inc (cpu_in_flight m) = Suc (cpu_in_flight m) \<and> cpu_in_flight m < max_in_flight_cpu_workers c"
    if "is_cpu_family l"
    using dec(2) that c usize_inc_below[of "cpu_in_flight m" "max_in_flight_cpu_workers c"] lane_families(1,2)[of l]
    by (cases "is_metal_family l"; cases "is_ane l") (simp_all add: lane_at_cap_def config_ok_def not_le)
  have sess: "usize_inc (of_session session A) = Suc (of_session session A)" "usize_inc (size A) = Suc (size A)"
    using usize_inc_below[OF dec(3)] usize_inc_below[OF dec(4)] c by (simp_all add: config_ok_def)
  have "session_in_flight m' s = (if of_session s (add_mset (p, l, session) A) = 0 then None
      else Some (of_session s (add_mset (p, l, session) A)))" for s
    using inv sess(1) by (simp add: m' Let_def of_session_add capacity_inv_def)
  moreover have "of_session s (add_mset (p, l, session) A) \<le> max_in_flight_per_session c" for s
    using inv dec(3) by (auto simp: of_session_add capacity_inv_def)
  moreover have "metal_in_flight m' = in_family is_metal_family (add_mset (p, l, session) A) \<and>
      metal_in_flight m' \<le> max_in_flight_command_buffers c"
    using inv metal dec(1) by (auto simp: m' Let_def in_family_add capacity_inv_def)
  moreover have "ane_in_flight m' = in_family is_ane (add_mset (p, l, session) A) \<and>
      ane_in_flight m' \<le> max_in_flight_ane_predictions c"
    using inv ane dec(1) by (auto simp: m' Let_def in_family_add capacity_inv_def)
  moreover have "cpu_in_flight m' = in_family is_cpu_family (add_mset (p, l, session) A) \<and>
      cpu_in_flight m' \<le> max_in_flight_cpu_workers c"
    using inv cpu dec(1) by (auto simp: m' Let_def in_family_add capacity_inv_def)
  moreover have "config_ok c" "cm_config m' = c" "global_pending m' = size (add_mset (p, l, session) A)"
      "global_pending m' \<le> global_max_pending c"
    using inv sess(2) dec(4) by (simp_all add: m' Let_def capacity_inv_def)
  ultimately show ?thesis unfolding capacity_inv_def by blast
qed

lemma release_keeps:
  assumes inv: "capacity_inv c (add_mset (p, l, session) A) m"
  shows "capacity_inv c A (release_permit p session m)"
proof -
  have s: "session_in_flight m session = Some (Suc (of_session session A))"
    using inv by (simp add: capacity_inv_def of_session_add)
  have counts: "session_in_flight (release_permit p session m) s = (if of_session s A = 0 then None else Some (of_session s A))"
    for s using inv s by (simp add: release_permit_def Let_def capacity_inv_def of_session_add)
  have "of_session s A \<le> max_in_flight_per_session c" for s
  proof -
    have "of_session s (add_mset (p, l, session) A) \<le> max_in_flight_per_session c" using inv by (simp add: capacity_inv_def)
    then show ?thesis by (simp add: of_session_add split: if_splits)
  qed
  moreover have "metal_in_flight (release_permit p session m) = in_family is_metal_family A"
      "ane_in_flight (release_permit p session m) = in_family is_ane A"
      "cpu_in_flight (release_permit p session m) = in_family is_cpu_family A"
      "global_pending (release_permit p session m) = size A" "cm_config (release_permit p session m) = c" "config_ok c"
    using inv s by (simp_all add: release_permit_def Let_def capacity_inv_def in_family_add)
  moreover have "in_family is_metal_family A \<le> max_in_flight_command_buffers c"
      "in_family is_ane A \<le> max_in_flight_ane_predictions c" "in_family is_cpu_family A \<le> max_in_flight_cpu_workers c"
      "size A \<le> global_max_pending c"
    using inv by (simp_all add: capacity_inv_def in_family_add split: if_splits)
  ultimately show ?thesis using counts unfolding capacity_inv_def by simp
qed

lemma queued_keeps: "capacity_inv c A m \<Longrightarrow> queue_step m m' \<Longrightarrow> capacity_inv c A m'"
  by (auto simp: queue_step_def increment_queued_def decrement_queued_def update_queued_def capacity_inv_def)

interpretation lanes: permit_pool lane_acquire "\<lambda>p k. release_permit p (snd k)" queue_step "capacity_inv c"
proof (unfold_locales, goal_cases)
  case (1 A s k p s')
  then show ?case using acquire_keeps[of c A s "fst k" "snd k" p s'] by (simp add: lane_acquire_def)
next
  case (2 k s s')
  then show ?case by (auto simp: lane_acquire_def try_acquire_def Let_def split: if_splits)
next
  case (3 p k A s)
  then show ?case using release_keeps[of c p "fst k" "snd k" A s] by simp
next
  case (4 A s s')
  then show ?case by (rule queued_keeps)
qed

text \<open>C24: the manager of lane capacities counts exactly. After any sequence of acquisitions, releases of permits that are out
  and changes of the queue counters, the counters of the three families are the numbers of their permits that are
  out, the pending count is the number of all of them, and the map of sessions lists exactly the sessions with
  permits; none exceeds its limit. A further permit is granted exactly when the family, the session and the
  total are below their limits, and a refusal changes nothing.
\<close>

theorem capacity_exact:
  assumes "config_ok c"
    and "pool_run lane_acquire (\<lambda>p k. release_permit p (snd k)) queue_step (capacity_new c) A m"
  shows "capacity_inv c A m \<and>
    (\<forall>l session. case try_acquire l session m of
        (None, m') \<Rightarrow> m' = m \<and> (lane_at_cap l m \<or> of_session session A \<ge> max_in_flight_per_session c \<or>
          size A \<ge> global_max_pending c)
      | (Some p, m') \<Rightarrow> lp_lane p = l \<and> \<not> lane_at_cap l m \<and> of_session session A < max_in_flight_per_session c \<and>
          size A < global_max_pending c)"
proof -
  have "capacity_inv c {#} (capacity_new c)"
    using assms(1) by (simp add: capacity_inv_def capacity_new_def in_family_def of_session_def)
  then have "capacity_inv c A m" by (rule lanes.pool_keeps[OF assms(2)])
  then show ?thesis by (intro conjI allI) (assumption, erule try_acquire_decides)
qed

theorem capacity_exact_witness:
  "\<exists>p m. try_acquire CoreAiAne ''s'' (capacity_new capacity_default) = (Some p, m) \<and>
    capacity_inv capacity_default {#(p, CoreAiAne, ''s'')#} m \<and> try_acquire CoreAiAne ''t'' m = (None, m)"
proof -
  let ?p = "\<lparr>lp_lane = CoreAiAne, lp_id = 1\<rparr>"
  let ?m = "(capacity_new capacity_default)\<lparr>ane_in_flight := 1, global_pending := 1,
    session_in_flight := [''s'' \<mapsto> 1], next_permit_id := 2\<rparr>"
  have one: "usize_inc 0 = 1" by (simp add: usize_inc_def usize_max_def)
  have ane: "is_ane CoreAiAne" "\<not> is_metal_family CoreAiAne" by (simp_all add: is_ane_def is_metal_family_def)
  have "try_acquire CoreAiAne ''s'' (capacity_new capacity_default) = (Some ?p, ?m)"
    by (simp add: try_acquire_def update_in_flight_def one ane lane_at_cap_def capacity_new_def capacity_default_def Let_def)
  moreover have "lane_at_cap CoreAiAne ?m" by (simp add: ane lane_at_cap_def capacity_new_def capacity_default_def)
  ultimately obtain p m where m: "try_acquire CoreAiAne ''s'' (capacity_new capacity_default) = (Some p, m)"
      "lane_at_cap CoreAiAne m" by blast
  have "pool_run lane_acquire (\<lambda>p k. release_permit p (snd k)) queue_step (capacity_new capacity_default)
      {#(p, CoreAiAne, ''s'')#} m"
    using pool_run.granted[OF pool_run.start, of lane_acquire "(CoreAiAne, ''s'')"] m(1) by (simp add: lane_acquire_def)
  moreover have "config_ok capacity_default" by (simp add: config_ok_def capacity_default_def usize_max_def)
  ultimately have "capacity_inv capacity_default {#(p, CoreAiAne, ''s'')#} m"
    using capacity_exact[of capacity_default "{#(p, CoreAiAne, ''s'')#}" m] by simp
  then show ?thesis using m by (simp add: try_acquire_def)
qed

text \<open>Queued work is not pending: the queue counters touch no limit.\<close>

lemma update_queued_simps:
  "cm_config (update_queued f l m) = cm_config m" "metal_in_flight (update_queued f l m) = metal_in_flight m"
  "ane_in_flight (update_queued f l m) = ane_in_flight m" "cpu_in_flight (update_queued f l m) = cpu_in_flight m"
  "global_pending (update_queued f l m) = global_pending m" "session_in_flight (update_queued f l m) = session_in_flight m"
  "next_permit_id (update_queued f l m) = next_permit_id m"
  by (simp_all add: update_queued_def)

lemma fst_try_acquire: "fst (try_acquire l session m) =
    (if lane_at_cap l m \<or> (case session_in_flight m session of Some n \<Rightarrow> n | None \<Rightarrow> 0) \<ge> max_in_flight_per_session (cm_config m) \<or>
      global_pending m \<ge> global_max_pending (cm_config m) then None
     else Some \<lparr>lp_lane = l, lp_id = next_permit_id m\<rparr>)"
  by (simp add: try_acquire_def Let_def)

lemma queued_not_pending:
  assumes "queue_step m m'"
  shows "global_pending m' = global_pending m \<and> fst (try_acquire l session m') = fst (try_acquire l session m)"
proof -
  obtain f k where m': "m' = update_queued f k m"
    using assms by (auto simp: queue_step_def increment_queued_def decrement_queued_def)
  have "lane_at_cap l m' = lane_at_cap l m" by (simp add: m' lane_at_cap_def update_queued_simps)
  then show ?thesis by (simp only: fst_try_acquire m' update_queued_simps)
qed

end
