(* ===== verification/Scheduler_State.thy ===== *)
theory Scheduler_State
  imports Prism_Prelude
begin

text \<open>
  State of the second generation of the scheduler (\<open>scheduling/state\<close> and \<open>scheduling/systems\<close>): the activation
  arena and its transactions, the decode loop of a session, the two computations of the ready phases, the
  machine of work statuses, the request pools and the check of a prefill batch.
\<close>

subsection \<open>Activation arena and transactions\<close>

record activation_arena =
  aa_capacity :: nat
  aa_allocated :: nat

record arena_binding =
  ab_offset :: nat
  ab_size :: nat

definition activation_arena_new :: "nat \<Rightarrow> activation_arena" where
  "activation_arena_new capacity = \<lparr>aa_capacity = capacity, aa_allocated = 0\<rparr>"

definition set_allocated_bytes :: "nat \<Rightarrow> activation_arena \<Rightarrow> activation_arena" where
  "set_allocated_bytes v a = a\<lparr>aa_allocated := min v (aa_capacity a)\<rparr>"

text \<open>
  \<open>allocate\<close>. The error carries the two numbers of its message: the request, and the capacity minus the aligned
  offset, whose subtraction is itself checked in debug builds.
\<close>

definition aligned_offset :: "bool \<Rightarrow> nat \<Rightarrow> nat \<Rightarrow> nat option" where
  "aligned_offset dbg allocated alignment =
     (if alignment = 0 then Some allocated
      else Option.bind (u64_add dbg allocated alignment) (\<lambda>s.
        map_option (\<lambda>d. d div alignment * alignment) (u64_sub dbg s 1)))"

definition arena_allocate :: "bool \<Rightarrow> nat \<Rightarrow> nat \<Rightarrow> activation_arena \<Rightarrow>
    (nat \<times> nat, arena_binding) outcome \<times> activation_arena" where
  "arena_allocate dbg byte_size alignment a =
     (case aligned_offset dbg (aa_allocated a) alignment of
        None \<Rightarrow> (Panic, a)
      | Some aligned \<Rightarrow> (case u64_add dbg aligned byte_size of
          None \<Rightarrow> (Panic, a)
        | Some stop \<Rightarrow>
            if stop > aa_capacity a
            then (and_then (of_panic (u64_sub dbg (aa_capacity a) aligned)) (\<lambda>left. Err (byte_size, left)), a)
            else (Ok \<lparr>ab_offset = aligned, ab_size = byte_size\<rparr>, a\<lparr>aa_allocated := stop\<rparr>)))"

text \<open>A transaction borrows the arena; dropping it gives the arena back.\<close>

record activation_transaction =
  tx_arena :: activation_arena
  tx_saved_watermark :: nat
  tx_committed :: bool

definition tx_new :: "activation_arena \<Rightarrow> activation_transaction" where
  "tx_new a = \<lparr>tx_arena = a, tx_saved_watermark = aa_allocated a, tx_committed = False\<rparr>"

definition tx_allocate :: "bool \<Rightarrow> nat \<Rightarrow> nat \<Rightarrow> activation_transaction \<Rightarrow>
    (nat \<times> nat, arena_binding) outcome \<times> activation_transaction" where
  "tx_allocate dbg byte_size alignment t =
     (let (r, a) = arena_allocate dbg byte_size alignment (tx_arena t) in (r, t\<lparr>tx_arena := a\<rparr>))"

definition tx_drop :: "activation_transaction \<Rightarrow> activation_arena" where
  "tx_drop t = (if tx_committed t then tx_arena t else set_allocated_bytes (tx_saved_watermark t) (tx_arena t))"

text \<open>\<open>commit\<close> consumes the transaction: it is dropped with the flag set.\<close>

definition tx_commit :: "activation_transaction \<Rightarrow> activation_arena" where
  "tx_commit t = tx_drop (t\<lparr>tx_committed := True\<rparr>)"

text \<open>
  The requests of one scope: an error leaves the transaction usable, a panic unwinds through \<open>drop\<close>. The list
  holds the bindings that were granted, and the flag tells whether the scope ended without a panic.
\<close>

fun tx_requests :: "bool \<Rightarrow> (nat \<times> nat) list \<Rightarrow> activation_transaction \<Rightarrow>
    arena_binding list \<times> bool \<times> activation_transaction" where
  "tx_requests dbg [] t = ([], True, t)"
| "tx_requests dbg ((byte_size, alignment) # reqs) t =
     (case tx_allocate dbg byte_size alignment t of
        (Panic, t') \<Rightarrow> ([], False, t')
      | (Err _, t') \<Rightarrow> tx_requests dbg reqs t'
      | (Ok b, t') \<Rightarrow> (let (bs, res) = tx_requests dbg reqs t' in (b # bs, res)))"

text \<open>The histories of an arena: scopes that commit, with the bindings they keep, and scopes that are dropped.\<close>

definition request_fits :: "nat \<Rightarrow> nat \<times> nat \<Rightarrow> bool" where
  "request_fits capacity r \<longleftrightarrow> capacity + fst r + snd r < 2 ^ 64"

inductive arena_run :: "bool \<Rightarrow> nat \<Rightarrow> arena_binding list \<Rightarrow> activation_arena \<Rightarrow> bool" for dbg capacity where
  start: "capacity < 2 ^ 64 \<Longrightarrow> arena_run dbg capacity [] (activation_arena_new capacity)"
| committed: "arena_run dbg capacity bs a \<Longrightarrow> dbg \<or> list_all (request_fits capacity) reqs \<Longrightarrow>
    tx_requests dbg reqs (tx_new a) = (new, True, t) \<Longrightarrow> arena_run dbg capacity (bs @ new) (tx_commit t)"
| dropped: "arena_run dbg capacity bs a \<Longrightarrow> tx_requests dbg reqs (tx_new a) = (new, ok, t) \<Longrightarrow>
    arena_run dbg capacity bs (tx_drop t)"

definition below :: "arena_binding \<Rightarrow> arena_binding \<Rightarrow> bool" where
  "below b b' \<longleftrightarrow> ab_offset b + ab_size b \<le> ab_offset b'"

definition arena_safe :: "nat \<Rightarrow> arena_binding list \<Rightarrow> activation_arena \<Rightarrow> bool" where
  "arena_safe capacity bs a \<longleftrightarrow> capacity < 2 ^ 64 \<and> aa_capacity a = capacity \<and> aa_allocated a \<le> capacity \<and>
     sorted_wrt below bs \<and> (\<forall>b \<in> set bs. ab_offset b + ab_size b \<le> aa_allocated a)"

text \<open>The aligned offset is the least multiple of the alignment that is not below the watermark.\<close>

lemma round_up:
  fixes k n :: nat
  assumes "0 < k"
  shows "n \<le> (n + k - 1) div k * k" "(n + k - 1) div k * k < n + k" "k dvd (n + k - 1) div k * k"
proof -
  have "(n + k - 1) div k * k + (n + k - 1) mod k = n + k - 1" by simp
  moreover have "(n + k - 1) mod k \<le> k - 1" using mod_less_divisor[OF assms, of "n + k - 1"] by linarith
  ultimately show "n \<le> (n + k - 1) div k * k" "(n + k - 1) div k * k < n + k" using assms by linarith+
qed simp

lemma u64_add_checked: "u64_add dbg a b = Some c \<Longrightarrow> dbg \<or> a + b < 2 ^ 64 \<Longrightarrow> c = a + b"
  by (auto simp: u64_add_def split: if_splits)

lemma aligned_offset_checked:
  assumes "aligned_offset dbg n k = Some m" "dbg \<or> n + k < 2 ^ 64"
  shows "m = (if k = 0 then n else (n + k - 1) div k * k)"
proof (cases "k = 0")
  case False
  then obtain s where s: "u64_add dbg n k = Some s" "map_option (\<lambda>d. d div k * k) (u64_sub dbg s 1) = Some m"
    using assms(1) by (auto simp: aligned_offset_def Option.bind_eq_Some_conv)
  have "s = n + k" by (rule u64_add_checked[OF s(1) assms(2)])
  then show ?thesis using s(2) False by (simp add: Suc_le_eq)
qed (use assms in \<open>simp add: aligned_offset_def\<close>)

lemma aligned_offset_ge: "aligned_offset dbg n k = Some m \<Longrightarrow> dbg \<or> n + k < 2 ^ 64 \<Longrightarrow> n \<le> m"
  using aligned_offset_checked[of dbg n k m] round_up(1)[of k n] by (cases "k = 0") auto

lemma allocate_keeps:
  assumes inv: "arena_safe capacity bs a" and run: "arena_allocate dbg sz k a = (Ok b, a')"
    and fits: "dbg \<or> request_fits capacity (sz, k)"
  shows "arena_safe capacity (bs @ [b]) a'"
proof -
  obtain m stop where m: "aligned_offset dbg (aa_allocated a) k = Some m" "u64_add dbg m sz = Some stop"
      "stop \<le> capacity" "b = \<lparr>ab_offset = m, ab_size = sz\<rparr>" "a' = a\<lparr>aa_allocated := stop\<rparr>"
    using run inv by (auto simp: arena_allocate_def arena_safe_def split: option.splits if_splits)
  have no: "dbg \<or> aa_allocated a + k < 2 ^ 64" using fits inv by (auto simp: request_fits_def arena_safe_def)
  have ge: "aa_allocated a \<le> m" by (rule aligned_offset_ge[OF m(1) no])
  have "m \<le> aa_allocated a + k"
    using aligned_offset_checked[OF m(1) no] round_up(2)[of k "aa_allocated a"] by (cases "k = 0") auto
  then have "dbg \<or> m + sz < 2 ^ 64" using fits inv by (auto simp: request_fits_def arena_safe_def)
  then have "stop = m + sz" by (rule u64_add_checked[OF m(2)])
  then show ?thesis using inv ge m by (fastforce simp: arena_safe_def sorted_wrt_append below_def)
qed

lemma allocate_refused: "arena_allocate dbg sz k a = (r, a') \<Longrightarrow> (\<And>b. r \<noteq> Ok b) \<Longrightarrow> a' = a"
  by (auto simp: arena_allocate_def split: option.splits if_splits)

lemma requests_capacity: "tx_requests dbg reqs t = (new, ok, t') \<Longrightarrow>
    aa_capacity (tx_arena t') = aa_capacity (tx_arena t) \<and> tx_saved_watermark t' = tx_saved_watermark t \<and>
    tx_committed t' = tx_committed t"
proof (induction dbg reqs t arbitrary: new rule: tx_requests.induct)
  case (2 dbg sz k reqs t)
  obtain r a where ra: "arena_allocate dbg sz k (tx_arena t) = (r, a)" by fastforce
  have "aa_capacity a = aa_capacity (tx_arena t)"
    using ra by (auto simp: arena_allocate_def split: option.splits if_splits)
  then show ?case using 2 ra by (cases r) (auto simp: tx_allocate_def split: prod.splits)
qed simp

lemma requests_keep:
  assumes "tx_requests dbg reqs t = (new, ok, t')" "arena_safe capacity bs (tx_arena t)"
    and "dbg \<or> list_all (request_fits capacity) reqs"
  shows "arena_safe capacity (bs @ new) (tx_arena t')"
  using assms
proof (induction dbg reqs t arbitrary: new bs rule: tx_requests.induct)
  case (2 dbg sz k reqs t)
  obtain r a where ra: "arena_allocate dbg sz k (tx_arena t) = (r, a)" by fastforce
  show ?case
  proof (cases r)
    case (Ok b)
    then obtain rest where rest: "tx_requests dbg reqs (t\<lparr>tx_arena := a\<rparr>) = (rest, ok, t')" "new = b # rest"
      using 2(3) ra by (auto simp: tx_allocate_def split: prod.splits)
    have "arena_safe capacity (bs @ [b]) a"
      using allocate_keeps[of capacity bs "tx_arena t" dbg sz k b a] 2(4,5) ra Ok by auto
    then show ?thesis using 2(2)[of "Ok b" "t\<lparr>tx_arena := a\<rparr>" b rest "bs @ [b]"] 2(5) rest ra Ok
      by (auto simp: tx_allocate_def)
  qed (use 2 ra allocate_refused[OF ra] in \<open>auto simp: tx_allocate_def\<close>)
qed simp

lemma requests_change_watermark: "tx_requests dbg reqs t = (new, ok, t') \<Longrightarrow> \<exists>n. tx_arena t' = (tx_arena t)\<lparr>aa_allocated := n\<rparr>"
  using requests_capacity[of dbg reqs t new ok t']
  by (intro exI[of _ "aa_allocated (tx_arena t')"]) simp

lemma rollback:
  assumes "aa_allocated a \<le> aa_capacity a" "tx_requests dbg reqs (tx_new a) = (new, ok, t)"
  shows "tx_drop t = a"
proof -
  obtain n where "tx_arena t = a\<lparr>aa_allocated := n\<rparr>"
    using requests_change_watermark[OF assms(2)] by (auto simp: tx_new_def)
  then show ?thesis using requests_capacity[OF assms(2)] assms(1)
    by (simp add: tx_drop_def set_allocated_bytes_def tx_new_def)
qed

lemma arena_run_safe: "arena_run dbg capacity bs a \<Longrightarrow> arena_safe capacity bs a"
proof (induction rule: arena_run.induct)
  case start
  then show ?case by (simp add: arena_safe_def activation_arena_new_def)
next
  case (committed bs a reqs new t)
  then show ?case using requests_keep[of dbg reqs "tx_new a" new True t capacity bs]
    by (simp add: tx_commit_def tx_drop_def tx_new_def)
next
  case (dropped bs a reqs new ok t)
  then show ?case using rollback[of a dbg reqs new ok t] by (simp add: arena_safe_def)
qed

lemma allocate_decides:
  assumes inv: "arena_safe capacity bs a" and fits: "request_fits capacity (sz, k)"
  shows "case arena_allocate dbg sz k a of
      (Ok b, a') \<Rightarrow> ab_size b = sz \<and> aa_allocated a \<le> ab_offset b \<and> ab_offset b + sz \<le> capacity \<and>
        (if k = 0 then ab_offset b = aa_allocated a else k dvd ab_offset b \<and> ab_offset b < aa_allocated a + k)
    | (_, a') \<Rightarrow> a' = a \<and> (if k = 0 then aa_allocated a else (aa_allocated a + k - 1) div k * k) + sz > capacity"
proof -
  define m where "m = (if k = 0 then aa_allocated a else (aa_allocated a + k - 1) div k * k)"
  have sum: "aa_allocated a + k < 2 ^ 64" using inv fits by (simp add: arena_safe_def request_fits_def)
  then have m: "aligned_offset dbg (aa_allocated a) k = Some m"
    by (simp add: aligned_offset_def m_def)
  have le: "m \<le> aa_allocated a + k" using round_up(2)[of k "aa_allocated a"] by (auto simp: m_def)
  then have add: "u64_add dbg m sz = Some (m + sz)"
    using inv fits by (intro u64_add_Some) (simp add: arena_safe_def request_fits_def)
  have cap: "aa_capacity a = capacity" using inv by (simp add: arena_safe_def)
  show ?thesis
  proof (cases "m + sz > capacity")
    case True
    then have "\<exists>r. arena_allocate dbg sz k a = (r, a) \<and> (\<forall>b. r \<noteq> Ok b)"
      by (cases "u64_sub dbg capacity m") (simp_all add: arena_allocate_def m add cap)
    then show ?thesis using True[unfolded m_def] by (auto split: outcome.splits)
  next
    case False
    then have "arena_allocate dbg sz k a = (Ok \<lparr>ab_offset = m, ab_size = sz\<rparr>, a\<lparr>aa_allocated := m + sz\<rparr>)"
      by (simp add: arena_allocate_def m add cap)
    then show ?thesis using False round_up[of k "aa_allocated a"] by (auto simp: m_def)
  qed
qed

text \<open>C25: activation transactions are atomic and their bindings never overlap. After any history of committed and dropped
  scopes (in a build with overflow checks, or with requests that do not overflow with the capacity) the
  bindings that were committed lie in increasing order, without overlap, below the watermark and within the
  capacity. Dropping a further scope gives back the arena unchanged, whatever it requested. A further request is granted, at the
  first aligned offset, exactly when it ends within the capacity; otherwise it changes nothing.
\<close>

theorem activation_transactions_correct:
  assumes "arena_run dbg capacity bs a"
  shows "sorted_wrt below bs \<and> (\<forall>b \<in> set bs. ab_offset b + ab_size b \<le> aa_allocated a) \<and> aa_allocated a \<le> capacity \<and>
    (\<forall>reqs new ok t. tx_requests dbg reqs (tx_new a) = (new, ok, t) \<longrightarrow> tx_drop t = a) \<and>
    (\<forall>sz k. request_fits capacity (sz, k) \<longrightarrow> (case arena_allocate dbg sz k a of
        (Ok b, a') \<Rightarrow> ab_size b = sz \<and> aa_allocated a \<le> ab_offset b \<and> ab_offset b + sz \<le> capacity \<and>
          (if k = 0 then ab_offset b = aa_allocated a else k dvd ab_offset b \<and> ab_offset b < aa_allocated a + k)
      | (_, a') \<Rightarrow> a' = a \<and> (if k = 0 then aa_allocated a else (aa_allocated a + k - 1) div k * k) + sz > capacity))"
proof -
  have inv: "arena_safe capacity bs a" by (rule arena_run_safe[OF assms])
  have "\<forall>reqs new ok t. tx_requests dbg reqs (tx_new a) = (new, ok, t) \<longrightarrow> tx_drop t = a"
    using rollback[of a] inv by (auto simp: arena_safe_def)
  moreover have "\<forall>sz k. request_fits capacity (sz, k) \<longrightarrow> (case arena_allocate dbg sz k a of
        (Ok b, a') \<Rightarrow> ab_size b = sz \<and> aa_allocated a \<le> ab_offset b \<and> ab_offset b + sz \<le> capacity \<and>
          (if k = 0 then ab_offset b = aa_allocated a else k dvd ab_offset b \<and> ab_offset b < aa_allocated a + k)
      | (_, a') \<Rightarrow> a' = a \<and> (if k = 0 then aa_allocated a else (aa_allocated a + k - 1) div k * k) + sz > capacity)"
    by (intro allI impI) (rule allocate_decides[OF inv])
  ultimately show ?thesis using inv unfolding arena_safe_def by blast
qed

theorem activation_transactions_correct_witness:
  "\<exists>a bs. tx_requests False [(7, 16), (7, 16), (100, 1)] (tx_new (activation_arena_new 64)) = (bs, True, a) \<and> length bs = 2 \<and>
    sorted_wrt below bs \<and> (\<forall>b \<in> set bs. ab_offset b + ab_size b \<le> 23)"
proof -
  obtain bs a where r: "tx_requests False [(7, 16), (7, 16), (100, 1)] (tx_new (activation_arena_new 64)) = (bs, True, a)"
      "length bs = 2" "aa_allocated (tx_commit a) = 23"
    by (simp add: tx_new_def activation_arena_new_def tx_allocate_def arena_allocate_def aligned_offset_def tx_commit_def tx_drop_def)
  have "arena_run False 64 ([] @ bs) (tx_commit a)"
    by (rule arena_run.committed[OF arena_run.start _ r(1)]) (simp_all add: request_fits_def)
  then have "sorted_wrt below bs \<and> (\<forall>b \<in> set bs. ab_offset b + ab_size b \<le> 23)"
    using activation_transactions_correct[of False 64 bs "tx_commit a"] r(3) by simp
  then show ?thesis using r by blast
qed

text \<open>
  Without overflow checks an alignment near \<open>u64::MAX\<close> hands out memory that is in use; and with them the text of
  the error panics when the aligned offset lies behind the capacity.
\<close>

lemma wrapped_alignment_overlaps:
  "arena_allocate False 4 (2 ^ 64 - 4) \<lparr>aa_capacity = 100, aa_allocated = 8\<rparr> =
     (Ok \<lparr>ab_offset = 0, ab_size = 4\<rparr>, \<lparr>aa_capacity = 100, aa_allocated = 4\<rparr>)"
  by (simp add: arena_allocate_def aligned_offset_def u64_add_def u64_sub_def)

lemma exhaustion_panics:
  "fst (arena_allocate True 1 16 \<lparr>aa_capacity = 10, aa_allocated = 9\<rparr>) = Panic"
  by (simp add: arena_allocate_def aligned_offset_def u64_add_def u64_sub_def)

subsection \<open>The decode loop of a session\<close>

datatype generation_state = PromptProcessing | Decoding | GenerationCompleted | GenerationFailed string

record decode_scheduler =
  epoch :: nat
  max_new_tokens :: nat
  terminated :: bool

definition decode_new :: "nat \<Rightarrow> decode_scheduler" where
  "decode_new limit = \<lparr>epoch = 0, max_new_tokens = limit, terminated = False\<rparr>"

text \<open>The comparison casts the epoch, a \<open>u64\<close>, to \<open>u32\<close>.\<close>

definition decode_advance :: "bool \<Rightarrow> decode_scheduler \<Rightarrow> decode_scheduler option" where
  "decode_advance dbg d = map_option (\<lambda>n. d\<lparr>epoch := n, terminated := terminated d \<or> as_u32 n > max_new_tokens d\<rparr>)
     (u64_add dbg (epoch d) 1)"

definition decode_terminate :: "decode_scheduler \<Rightarrow> decode_scheduler" where
  "decode_terminate d = d\<lparr>terminated := True\<rparr>"

fun advance_session_state :: "bool \<Rightarrow> generation_state \<times> decode_scheduler \<Rightarrow> (generation_state \<times> decode_scheduler) option" where
  "advance_session_state dbg (PromptProcessing, d) = Some (Decoding, d)"
| "advance_session_state dbg (Decoding, d) =
     map_option (Pair (if terminated d then GenerationCompleted else Decoding)) (decode_advance dbg d)"
| "advance_session_state dbg (s, d) = Some (s, d)"

record prism_session =
  ps_session_id :: string
  ps_image_digest :: string
  ps_scheduler :: decode_scheduler
  ps_generation_state :: generation_state

definition prism_session_new :: "string \<Rightarrow> string \<Rightarrow> nat \<Rightarrow> prism_session" where
  "prism_session_new i d limit = \<lparr>ps_session_id = i, ps_image_digest = d, ps_scheduler = decode_new limit,
     ps_generation_state = PromptProcessing\<rparr>"

definition session_step :: "bool \<Rightarrow> prism_session \<Rightarrow> prism_session option" where
  "session_step dbg p = map_option (\<lambda>(s, d). p\<lparr>ps_generation_state := s, ps_scheduler := d\<rparr>)
     (advance_session_state dbg (ps_generation_state p, ps_scheduler p))"

text \<open>A session after \<open>n\<close> calls of \<open>step\<close>.\<close>

fun session_steps :: "bool \<Rightarrow> nat \<Rightarrow> prism_session \<Rightarrow> prism_session option" where
  "session_steps dbg 0 p = Some p"
| "session_steps dbg (Suc n) p = Option.bind (session_steps dbg n p) (session_step dbg)"

definition session_at :: "string \<Rightarrow> string \<Rightarrow> nat \<Rightarrow> generation_state \<Rightarrow> nat \<Rightarrow> bool \<Rightarrow> prism_session" where
  "session_at i d limit s n stop = \<lparr>ps_session_id = i, ps_image_digest = d,
     ps_scheduler = \<lparr>epoch = n, max_new_tokens = limit, terminated = stop\<rparr>, ps_generation_state = s\<rparr>"

lemma decoding_runs:
  assumes "limit < 2 ^ 32 - 1" "n \<le> limit + 1"
  shows "session_steps dbg (Suc n) (prism_session_new i d limit) = Some (session_at i d limit Decoding n (n = limit + 1))"
  using assms(2)
proof (induction n)
  case 0
  then show ?case by (simp add: session_step_def prism_session_new_def decode_new_def session_at_def)
next
  case (Suc n)
  then have IH: "session_steps dbg (Suc n) (prism_session_new i d limit) = Some (session_at i d limit Decoding n False)"
    by simp
  have "as_u32 (Suc n) = Suc n" "n + 1 < 2 ^ 64" using assms(1) Suc.prems by simp_all
  then have "session_step dbg (session_at i d limit Decoding n False) =
      Some (session_at i d limit Decoding (Suc n) (Suc n = limit + 1))"
    using Suc.prems by (auto simp: session_step_def session_at_def decode_advance_def)
  then show ?case using IH by simp
qed

lemma session_completes_at:
  assumes "limit < 2 ^ 32 - 1"
  shows "session_steps dbg (limit + 3 + k) (prism_session_new i d limit) =
    Some (session_at i d limit GenerationCompleted (limit + 2) True)"
proof (induction k)
  case 0
  have "session_step dbg (session_at i d limit Decoding (limit + 1) True) =
      Some (session_at i d limit GenerationCompleted (limit + 2) True)"
    using assms by (simp add: session_step_def session_at_def decode_advance_def)
  then show ?case using decoding_runs[OF assms, of "limit + 1" dbg i d] by (simp add: numeral_3_eq_3)
next
  case (Suc k)
  have "session_step dbg (session_at i d limit GenerationCompleted (limit + 2) True) =
      Some (session_at i d limit GenerationCompleted (limit + 2) True)"
    by (simp add: session_step_def session_at_def)
  then show ?case unfolding add_Suc_right session_steps.simps Suc.IH by simp
qed

lemma unlimited_session_runs:
  assumes "session_steps dbg n (prism_session_new i d (2 ^ 32 - 1)) = Some p"
  shows "ps_generation_state p \<in> {PromptProcessing, Decoding} \<and> \<not> terminated (ps_scheduler p) \<and>
    max_new_tokens (ps_scheduler p) = 2 ^ 32 - 1"
  using assms
proof (induction n arbitrary: p)
  case 0
  then show ?case by (auto simp: prism_session_new_def decode_new_def)
next
  case (Suc n)
  then obtain q where q: "session_steps dbg n (prism_session_new i d (2 ^ 32 - 1)) = Some q" "session_step dbg q = Some p"
    by (auto simp: Option.bind_eq_Some_conv)
  have no: "\<not> 2 ^ 32 - 1 < as_u32 m" for m by (simp add: as_u32_def not_less less_Suc_eq_le[symmetric])
  show ?case using Suc.IH[OF q(1)] q(2) no by (auto simp: session_step_def decode_advance_def)
qed

text \<open>C26: A session ends after its budget. With a limit below \<open>u32::MAX\<close> the step \<open>n + 1\<close> leaves a session decoding in
  epoch \<open>n\<close>, up to the epoch one past the limit, which raises the termination flag; the step after it completes the session and
  advances the epoch once more, and no later step changes anything, in every build. With the limit \<open>u32::MAX\<close> no
  number of steps completes it.
\<close>

theorem session_ends:
  assumes "limit < 2 ^ 32"
  shows "if limit < 2 ^ 32 - 1
    then (\<forall>n \<le> limit + 1. session_steps dbg (Suc n) (prism_session_new i d limit) =
        Some (session_at i d limit Decoding n (n = limit + 1))) \<and>
      (\<forall>k. session_steps dbg (limit + 3 + k) (prism_session_new i d limit) =
        Some (session_at i d limit GenerationCompleted (limit + 2) True))
    else (\<forall>n p. session_steps dbg n (prism_session_new i d limit) = Some p \<longrightarrow>
        ps_generation_state p \<noteq> GenerationCompleted \<and> \<not> terminated (ps_scheduler p))"
proof (cases "limit < 2 ^ 32 - 1")
  case True
  then show ?thesis using decoding_runs[OF True] session_completes_at[OF True] by simp
next
  case False
  then have "limit = 2 ^ 32 - 1" using assms by simp
  then show ?thesis using unlimited_session_runs[of dbg _ i d] by fastforce
qed

theorem session_ends_witness:
  "session_steps True 5 (prism_session_new ''s'' ''d'' 2) = Some (session_at ''s'' ''d'' 2 GenerationCompleted 4 True)"
proof -
  have "\<forall>k. session_steps True (2 + 3 + k) (prism_session_new ''s'' ''d'' 2) =
      Some (session_at ''s'' ''d'' 2 GenerationCompleted (2 + 2) True)"
    using session_ends[of 2 True "''s''" "''d''"] by simp
  from spec[OF this, of 0] show ?thesis by simp
qed

subsection \<open>Ready phases\<close>

text \<open>The phases of the emitted graph are their ids.\<close>

record 'id emitted_edge =
  ee_from :: 'id
  ee_to :: 'id

record 'id emitted_graph =
  eg_phases :: "'id list"
  eg_edges :: "'id emitted_edge list"

definition emitted_predecessors :: "'id emitted_graph \<Rightarrow> 'id \<Rightarrow> 'id list" where
  "emitted_predecessors g p =
     List.map_filter (\<lambda>e. find (\<lambda>q. q = ee_from e) (eg_phases g)) (filter (\<lambda>e. ee_to e = p) (eg_edges g))"

definition queue_ready :: "'id emitted_graph \<Rightarrow> 'id set \<Rightarrow> 'id list" where
  "queue_ready g completed = filter (\<lambda>p. if p \<in> completed then False
     else list_all (\<lambda>q. q \<in> completed) (emitted_predecessors g p)) (eg_phases g)"

fun checker_loop :: "'id emitted_edge list \<Rightarrow> 'id set \<Rightarrow> 'id list \<Rightarrow> 'id list \<Rightarrow> 'id list" where
  "checker_loop edges completed [] ready = ready"
| "checker_loop edges completed (p # ps) ready =
     (if p \<in> completed then checker_loop edges completed ps ready
      else if list_ex (\<lambda>e. ee_to e = p \<and> ee_from e \<notin> completed) edges then checker_loop edges completed ps ready
      else checker_loop edges completed ps (ready @ [p]))"

definition checker_ready :: "'id emitted_graph \<Rightarrow> 'id set \<Rightarrow> 'id list" where
  "checker_ready g completed = checker_loop (eg_edges g) completed (eg_phases g) []"

lemma find_equal: "find (\<lambda>q. q = x) xs = (if x \<in> set xs then Some x else None)"
  by (induction xs) auto

lemma set_predecessors: "set (emitted_predecessors g p) = {ee_from e |e. e \<in> set (eg_edges g) \<and> ee_to e = p} \<inter> set (eg_phases g)"
  by (auto simp: emitted_predecessors_def List.map_filter_def find_equal image_iff split: if_splits)

lemma queue_ready_filter: "queue_ready g completed = filter (\<lambda>p. p \<notin> completed \<and>
    (\<forall>e \<in> set (eg_edges g). ee_to e = p \<longrightarrow> ee_from e \<in> set (eg_phases g) \<longrightarrow> ee_from e \<in> completed)) (eg_phases g)"
  by (auto simp: queue_ready_def list_all_iff set_predecessors intro!: filter_cong)

lemma checker_loop_filter: "checker_loop edges completed ps ready = ready @ filter (\<lambda>p. p \<notin> completed \<and>
    (\<forall>e \<in> set edges. ee_to e = p \<longrightarrow> ee_from e \<in> completed)) ps"
  by (induction ps arbitrary: ready) (auto simp: list_ex_iff)

lemmas ready_filters = queue_ready_filter checker_ready_def checker_loop_filter append_Nil

lemma ready_monotone: "C \<subseteq> C' \<Longrightarrow> set (queue_ready g C) - C' \<subseteq> set (queue_ready g C')"
  by (auto simp: queue_ready_filter)

text \<open>C27: the two computations of the ready phases, the queue of the scheduling state and the checker of the readiness
  system, agree for all sets of completed phases exactly when no edge leads from outside the graph to a phase of the
  graph that does not also wait for itself. In every graph the checker returns a part of what the queue returns: the queue takes a
  predecessor that is not in the graph for completed.
\<close>

theorem ready_computations_agree:
  "((\<forall>completed. queue_ready g completed = checker_ready g completed) \<longleftrightarrow>
      \<not> (\<exists>e. e \<in> set (eg_edges g) \<and> ee_to e \<in> set (eg_phases g) \<and> ee_from e \<notin> set (eg_phases g) \<and>
        \<lparr>ee_from = ee_to e, ee_to = ee_to e\<rparr> \<notin> set (eg_edges g))) \<and>
    set (checker_ready g completed) \<subseteq> set (queue_ready g completed)"
  (is "(?agree \<longleftrightarrow> ?closed) \<and> _")
proof (intro conjI iffI)
  assume agree: ?agree
  show ?closed
  proof (rule ccontr)
    assume "\<not> ?closed"
    then obtain e where e: "e \<in> set (eg_edges g)" "ee_to e \<in> set (eg_phases g)" "ee_from e \<notin> set (eg_phases g)"
        "\<lparr>ee_from = ee_to e, ee_to = ee_to e\<rparr> \<notin> set (eg_edges g)"
      by auto
    have self: "\<forall>e' \<in> set (eg_edges g). ee_from e' = ee_to e \<longrightarrow> ee_to e' \<noteq> ee_to e"
    proof (intro ballI impI notI)
      fix e' assume "e' \<in> set (eg_edges g)" "ee_from e' = ee_to e" "ee_to e' = ee_to e"
      then show False using e(4) by (metis emitted_edge.surjective old.unit.exhaust)
    qed
    let ?C = "set (eg_phases g) - {ee_to e}"
    have "ee_to e \<in> set (queue_ready g ?C)" using e(2) self by (auto simp: queue_ready_filter)
    moreover have "ee_to e \<notin> set (checker_ready g ?C)" using e(1,3) by (auto simp: ready_filters)
    ultimately show False using agree by simp
  qed
next
  assume closed: ?closed
  show ?agree
  proof
    fix C
    show "queue_ready g C = checker_ready g C"
      unfolding ready_filters using closed by (intro filter_cong refl) (fastforce)
  qed
qed (auto simp: ready_filters)

subsection \<open>Work statuses\<close>

datatype work_status = WsCreated | WsReady | WsSelected | WsCapacityReserved | WsSlotsReserved | WsSubmitted | WsRunning
  | WsCompleted | WsOutputReady | WsConsumed | WsReleased | WsDenied | WsCancelledBeforeSubmit | WsSubmitFailed
  | WsExecutionFailed | WsTimedOut | WsFallbackPending | WsFallbackRunning | WsFailedTerminal

definition ws_is_terminal :: "work_status \<Rightarrow> bool" where
  "ws_is_terminal s \<longleftrightarrow> s \<in> {WsReleased, WsDenied, WsCancelledBeforeSubmit, WsSubmitFailed, WsFailedTerminal}"

definition ws_is_success :: "work_status \<Rightarrow> bool" where
  "ws_is_success s \<longleftrightarrow> s = WsReleased"

definition ws_is_failure :: "work_status \<Rightarrow> bool" where
  "ws_is_failure s \<longleftrightarrow> s \<in> {WsDenied, WsCancelledBeforeSubmit, WsSubmitFailed, WsFailedTerminal}"

fun legal_transitions :: "work_status \<Rightarrow> work_status list" where
  "legal_transitions WsCreated = [WsReady, WsDenied]"
| "legal_transitions WsReady = [WsSelected, WsCancelledBeforeSubmit]"
| "legal_transitions WsSelected = [WsCapacityReserved]"
| "legal_transitions WsCapacityReserved = [WsSlotsReserved, WsDenied]"
| "legal_transitions WsSlotsReserved = [WsSubmitted, WsFallbackPending]"
| "legal_transitions WsSubmitted = [WsRunning, WsSubmitFailed]"
| "legal_transitions WsRunning = [WsCompleted, WsExecutionFailed, WsTimedOut]"
| "legal_transitions WsCompleted = [WsOutputReady]"
| "legal_transitions WsOutputReady = [WsConsumed, WsFallbackPending]"
| "legal_transitions WsConsumed = [WsReleased]"
| "legal_transitions WsReleased = []"
| "legal_transitions WsDenied = []"
| "legal_transitions WsCancelledBeforeSubmit = []"
| "legal_transitions WsSubmitFailed = []"
| "legal_transitions WsExecutionFailed = [WsFallbackPending, WsFailedTerminal]"
| "legal_transitions WsTimedOut = [WsFallbackPending, WsFailedTerminal]"
| "legal_transitions WsFallbackPending = [WsFallbackRunning]"
| "legal_transitions WsFallbackRunning = [WsCompleted, WsExecutionFailed, WsTimedOut, WsFailedTerminal]"
| "legal_transitions WsFailedTerminal = []"

lemma terminal_statuses: "ws_is_terminal s \<longleftrightarrow> legal_transitions s = []"
    "ws_is_terminal s \<longleftrightarrow> ws_is_success s \<noteq> ws_is_failure s"
  by (cases s; simp add: ws_is_terminal_def ws_is_success_def ws_is_failure_def)+

text \<open>A life of a work item: a sequence of legal transitions from its creation.\<close>

inductive work_life :: "work_status list \<Rightarrow> work_status \<Rightarrow> bool" where
  created: "work_life [] WsCreated"
| moved: "work_life h s \<Longrightarrow> t \<in> set (legal_transitions s) \<Longrightarrow> work_life (h @ [s]) t"

text \<open>Nothing runs that has not been submitted or sent to a fallback, and nothing is released that has not completed.\<close>

lemma runs_after_submission:
  assumes "work_life h s"
  shows "(s \<in> {WsCreated, WsReady, WsDenied, WsSelected, WsCancelledBeforeSubmit, WsCapacityReserved, WsSlotsReserved,
      WsSubmitted, WsFallbackPending} \<or> WsSubmitted \<in> set h \<or> WsFallbackPending \<in> set h) \<and>
    (s \<in> {WsOutputReady, WsConsumed, WsReleased} \<longrightarrow> WsCompleted \<in> set h)"
  using assms
proof (induction rule: work_life.induct)
  case (moved h s t)
  then show ?case by (cases s) auto
qed simp

text \<open>The registry records any status; it does not consult the transitions.\<close>

type_synonym work_registry = "nat \<rightharpoonup> work_status"

definition ws_registry_insert :: "nat \<Rightarrow> work_status \<Rightarrow> work_registry \<Rightarrow> work_registry" where
  "ws_registry_insert i s r = r(i \<mapsto> s)"

definition ws_registry_get :: "nat \<Rightarrow> work_registry \<Rightarrow> work_status option" where
  "ws_registry_get i r = r i"

definition ws_registry_status :: "nat \<Rightarrow> work_registry \<Rightarrow> work_status" where
  "ws_registry_status i r = (case r i of Some s \<Rightarrow> s | None \<Rightarrow> WsCreated)"

definition ws_registry_remove :: "nat \<Rightarrow> work_registry \<Rightarrow> work_status option \<times> work_registry" where
  "ws_registry_remove i r = (r i, r(i := None))"

lemma registry_revives: "ws_registry_status i (ws_registry_insert i WsRunning (ws_registry_insert i WsReleased r)) = WsRunning"
  by (simp add: ws_registry_status_def ws_registry_insert_def)

subsection \<open>Request pools\<close>

datatype request_status = RequestWaiting | RequestRunning | RequestPreempted

record request_data =
  num_tokens_with_spec :: nat
  num_computed_tokens :: nat
  rd_status :: request_status
  rd_priority :: nat
  preemption_count :: nat

record request_pools =
  max_num_scheduled_tokens :: nat
  max_num_running_reqs :: nat
  pool_running :: "string list"
  pool_waiting :: "string list"
  pool_preempted :: "string list"
  pool_requests :: "string \<rightharpoonup> request_data"

definition pools_new :: "nat \<Rightarrow> nat \<Rightarrow> request_pools" where
  "pools_new tokens reqs = \<lparr>max_num_scheduled_tokens = tokens, max_num_running_reqs = reqs, pool_running = [],
     pool_waiting = [], pool_preempted = [], pool_requests = Map.empty\<rparr>"

definition add_request :: "string \<Rightarrow> nat \<Rightarrow> nat \<Rightarrow> request_pools \<Rightarrow> request_pools" where
  "add_request i tokens priority p =
     p\<lparr>pool_requests := (pool_requests p)(i \<mapsto> \<lparr>num_tokens_with_spec = tokens, num_computed_tokens = 0,
         rd_status = RequestWaiting, rd_priority = priority, preemption_count = 0\<rparr>),
       pool_waiting := pool_waiting p @ [i]\<rparr>"

definition remove_request :: "string \<Rightarrow> request_pools \<Rightarrow> request_pools" where
  "remove_request i p = p\<lparr>pool_running := filter (\<lambda>r. r \<noteq> i) (pool_running p),
     pool_waiting := filter (\<lambda>r. r \<noteq> i) (pool_waiting p), pool_preempted := filter (\<lambda>r. r \<noteq> i) (pool_preempted p),
     pool_requests := (pool_requests p)(i := None)\<rparr>"

text \<open>\<open>schedule_once\<close> admits from the end of the waiting list (\<open>Vec::pop\<close>); its output is empty.\<close>

function admit_waiting :: "request_pools \<Rightarrow> request_pools" where
  "admit_waiting p =
     (if length (pool_running p) < max_num_running_reqs p \<and> pool_waiting p \<noteq> []
      then (let i = last (pool_waiting p);
          p1 = p\<lparr>pool_waiting := butlast (pool_waiting p), pool_requests := (case pool_requests p i of
              Some r \<Rightarrow> (pool_requests p)(i \<mapsto> r\<lparr>rd_status := RequestRunning\<rparr>) | None \<Rightarrow> pool_requests p)\<rparr>
        in admit_waiting (p1\<lparr>pool_running := pool_running p1 @ [i]\<rparr>))
      else p)"
  by pat_completeness auto
termination by (relation "measure (\<lambda>p. length (pool_waiting p))") auto

declare admit_waiting.simps [simp del]

definition schedule_once :: "request_pools \<Rightarrow> string list \<times> request_pools" where
  "schedule_once p = ([], admit_waiting p)"

lemma admit_waiting_pools:
  "\<exists>xs ys. pool_waiting p = ys @ xs \<and> pool_waiting (admit_waiting p) = ys \<and>
    pool_running (admit_waiting p) = pool_running p @ rev xs \<and>
    (ys = [] \<or> max_num_running_reqs p \<le> length (pool_running p) + length xs)"
proof (induction p rule: admit_waiting.induct)
  case (1 p)
  show ?case
  proof (cases "length (pool_running p) < max_num_running_reqs p \<and> pool_waiting p \<noteq> []")
    case True
    then obtain ws i where w: "pool_waiting p = ws @ [i]" by (metis rev_exhaust)
    define p2 where "p2 = (let j = last (pool_waiting p);
        p1 = p\<lparr>pool_waiting := butlast (pool_waiting p), pool_requests := (case pool_requests p j of
          Some r \<Rightarrow> (pool_requests p)(j \<mapsto> r\<lparr>rd_status := RequestRunning\<rparr>) | None \<Rightarrow> pool_requests p)\<rparr>
      in p1\<lparr>pool_running := pool_running p1 @ [j]\<rparr>)"
    have step: "admit_waiting p = admit_waiting p2" using True by (subst admit_waiting.simps) (simp add: p2_def Let_def)
    have p2: "pool_waiting p2 = ws" "pool_running p2 = pool_running p @ [i]" "max_num_running_reqs p2 = max_num_running_reqs p"
      using w by (simp_all add: p2_def Let_def)
    have "\<exists>xs ys. pool_waiting p2 = ys @ xs \<and> pool_waiting (admit_waiting p2) = ys \<and>
        pool_running (admit_waiting p2) = pool_running p2 @ rev xs \<and>
        (ys = [] \<or> max_num_running_reqs p2 \<le> length (pool_running p2) + length xs)"
      using 1[OF True refl refl] by (simp only: p2_def Let_def)
    then obtain xs ys where IH: "pool_waiting p2 = ys @ xs" "pool_waiting (admit_waiting p2) = ys"
        "pool_running (admit_waiting p2) = pool_running p2 @ rev xs"
        "ys = [] \<or> max_num_running_reqs p2 \<le> length (pool_running p2) + length xs"
      by blast
    have "pool_waiting p = ys @ (xs @ [i])" using IH(1) w p2 by simp
    moreover have "pool_running (admit_waiting p) = pool_running p @ rev (xs @ [i])" using IH(3) step p2 by simp
    moreover have "ys = [] \<or> max_num_running_reqs p \<le> length (pool_running p) + length (xs @ [i])"
      using IH(4) p2 by simp
    ultimately show ?thesis using IH(2) step by metis
  next
    case False
    then have "admit_waiting p = p" by (subst admit_waiting.simps) auto
    then show ?thesis using False by (intro exI[of _ "[]"] exI[of _ "pool_waiting p"]) auto
  qed
qed

text \<open>A removed request is in no pool; the last request to arrive is the first to run.\<close>

lemma remove_request_gone: "i \<notin> set (pool_running (remove_request i p)) \<union> set (pool_waiting (remove_request i p)) \<union>
    set (pool_preempted (remove_request i p)) \<union> dom (pool_requests (remove_request i p))"
  by (simp add: remove_request_def)

lemma last_arrival_first: "pool_running (snd (schedule_once (add_request ''b'' 1 9 (add_request ''a'' 1 0 (pools_new 256 1))))) = [''b'']"
  by (simp add: schedule_once_def admit_waiting.simps add_request_def pools_new_def Let_def)

subsection \<open>Prefill batches\<close>

record batched_prefill =
  bp_prompts :: "32 word list list"
  bp_max_seq_len :: nat

text \<open>\<open>validate\<close>; the error carries the numbers of its message.\<close>

definition prefill_validate :: "batched_prefill \<Rightarrow> (nat \<times> nat, nat) outcome" where
  "prefill_validate b =
     (if bp_prompts b = [] then Ok 0
      else let longest = Max (set (map length (bp_prompts b)))
        in if as_u32 longest > bp_max_seq_len b then Err (longest, bp_max_seq_len b) else Ok longest)"

lemma prefill_validate_iff:
  assumes "\<forall>p \<in> set (bp_prompts b). length p < 2 ^ 32"
  shows "(\<exists>n. prefill_validate b = Ok n) \<longleftrightarrow> (\<forall>p \<in> set (bp_prompts b). length p \<le> bp_max_seq_len b)"
proof (cases "bp_prompts b = []")
  case False
  then have "Max (length ` set (bp_prompts b)) \<in> length ` set (bp_prompts b)" by (intro Max_in) auto
  then have "as_u32 (Max (length ` set (bp_prompts b))) = Max (length ` set (bp_prompts b))" using assms by auto
  moreover have "Max (length ` set (bp_prompts b)) \<le> bp_max_seq_len b \<longleftrightarrow> (\<forall>p \<in> set (bp_prompts b). length p \<le> bp_max_seq_len b)"
    using False by (subst Max_le_iff) auto
  ultimately show ?thesis using False by (auto simp: prefill_validate_def Let_def not_less[symmetric])
qed (simp add: prefill_validate_def)

end
