(* ===== verification/Spec2Isabelle.thy ===== *)
theory Spec2Isabelle
  imports World_Txn Ecs_Components Work_Items Sessions Residencies Inference Kernel_Exec Command_Store Kernel_Hazards Kernel_Typing
    Lane_Queue Slot_Lease Block_Table Kv_Arena Phase_Engine Backpressure
    Buffer_Lifetimes Tick_Schedule Tick_Systems Tick_Run Lane_Capacity Scheduler_State
begin

text \<open>
  Prism engine: a development about the entity world, its transactions, the services that run on them,
  and the scheduling and cache bookkeeping around them.

  \<^bold>\<open>The program.\<close> \<open>crates/prism-ecs-core\<close> is an entity-component world: generational entity handles, one
  sparse column per component type, a policy that may forbid direct mutation. The crate
  \<open>crates/prism-ecs-constitutional\<close> puts optimistic transactions on top: a transaction stages spawns, inserts
  and removals, is validated against the world into a prepared transaction, and is then applied as a whole,
  advancing the epoch and leaving a journal. Its services keep domain objects in that world: work items
  (\<open>work.rs\<close>), client sessions (\<open>session.rs\<close>) and model residencies (\<open>residency.rs\<close>). A service checks a
  command against the world, turns it into a transaction, commits it and publishes domain events, and it can
  rebuild the objects from the events. \<open>crates/prism-ecs-runtime/src/schedule\<close> holds the scheduler's
  data structures: bounded priority queues per lane, the leases on output slots, the executor of phase graphs
  and the backpressure signals. \<open>crates/prism-kv-cache\<close> allocates the blocks of the attention cache.
  The runtime kernel (\<open>crates/prism-ecs-runtime/src/kernel\<close>) executes typed commands against one world: an
  envelope with an idempotency key is admitted by a command store, executed under the world lock (work leases
  through a lease coordinator before it) and completed in the store with its result. After a restart the kernel
  replays the completed commands of the store from an empty world.
  A schedule (\<open>crates/prism-ecs-runtime/src/schedule.rs\<close>) drives the kernel: it validates the dependencies of its
  systems, and a tick runs them stage by stage on a view of the world and submits the commands they emit. The eight
  systems observe, plan, admit, lease, dispatch, collect, publish and clean up work items; a provider selector and a
  dispatcher stand between them and the hardware. \<open>buffer_lifetime_plan.rs\<close> plans how long the buffers of a
  dataflow graph live.

  \<^bold>\<open>The theories.\<close>
  \<^item> \<open>Prism_Prelude\<close>: results with errors and panics (\<open>outcome\<close>), loops with early return, the vector and
    ordered-map operations of the Rust library, machine arithmetic, numbered runs and the locale
    \<open>growing_system\<close> of systems whose invariant needs a bound on the number of steps.
  \<^item> \<open>Sparse_Column\<close>: \<open>Column<T>\<close> (\<open>column.rs\<close>) with its \<open>debug_check_invariants\<close>. The locale \<open>gen_store\<close>
    is the contract of a store of values under generational handles; \<open>col\<close> interprets it.
  \<^item> \<open>Ecs_World\<close>: entity slots, spawn, despawn and scans (\<open>world.rs\<close>), the component store (\<open>store.rs\<close>).
  \<^item> \<open>Ecs_Components\<close>: component and resource operations, staging and queries (\<open>world.rs\<close>, \<open>query.rs\<close>).
  \<^item> \<open>World_Txn\<close>: transactions and the schema catalogue (\<open>world_txn/txn.rs\<close>, \<open>schema.rs\<close>).
  \<^item> \<open>Service_Types\<close>: the component types of the services, their schema registry, the JSON payloads of domain
    events, and what a committed transaction does to the world (\<open>committed\<close>, \<open>handle_update\<close>, \<open>spawn_update\<close>).
  \<^item> \<open>Lifecycle\<close>: the transition guards of \<open>lifecycle.rs\<close> and which states they let an object reach.
  \<^item> \<open>Work_Items\<close>: creation, admission, execution, completion, failure and cancellation of work (\<open>work.rs\<close>),
    histories of commands (\<open>work_run\<close>), the item's state machine (\<open>item_step\<close>), and replay.
  \<^item> \<open>Sessions\<close>: admission, transition, release and replay of sessions (\<open>session.rs\<close>), and histories.
  \<^item> \<open>Residencies\<close>: deployment of models on devices and replay (\<open>residency.rs\<close>). The BLAKE3 digest that
    names a residency and the generator of identifiers are parameters.
  \<^item> \<open>Lane_Queue\<close>: \<open>LaneQueue\<close> and \<open>LaneQueueSet\<close> (\<open>schedule/lane_queue.rs\<close>). The locale
    \<open>admission_queue\<close> is the contract of a bounded queue; \<open>lane\<close> interprets it.
  \<^item> \<open>Slot_Lease\<close>: \<open>SlotLeaseManager\<close> (\<open>schedule/lane_slot_lease.rs\<close>), a \<open>growing_system\<close>.
  \<^item> \<open>Phase_Engine\<close>: graph validation, lifecycle and execution (\<open>schedule/phase_engine.rs\<close>).
  \<^item> \<open>Backpressure\<close>: event controller, latency window, token budget (\<open>schedule/backpressure.rs\<close>).
  \<^item> \<open>Block_Table\<close>: the paged block table (\<open>block_table.rs\<close>).
  \<^item> \<open>Kv_Arena\<close>: the reference-counted block arena (\<open>arena/\<close>). The locale \<open>ref_pool\<close> is the contract
    of a pool of counted blocks; \<open>pool\<close> interprets it.

  \<^item> \<open>Inference\<close>: the metadata of an inference and its progress (\<open>inference.rs\<close>).
  \<^item> \<open>Kernel_Types\<close>: computations on a mutable state that may fail, the string functions the kernel calls, its
    components, commands, results and errors. \<open>Kernel_Exec\<close>: the command handlers (\<open>command_dispatch/envelope.rs\<close>,
    \<open>submit.rs\<close>) and the read side (\<open>agent_snapshot.rs\<close>, \<open>kernel_health.rs\<close>). What a handler asks the operating
    system or BLAKE3 is in the record \<open>host\<close>, a parameter.
  \<^item> \<open>Command_Store\<close>: the ports of the kernel and their in-memory implementations (\<open>test_adapters.rs\<close>). The
    locale \<open>journal\<close> is the contract of a command store; \<open>mem\<close> interprets it.
  \<^item> \<open>Kernel_Submit\<close>: the submit path, replay (\<open>replay.rs\<close>), snapshots and recovery (\<open>executor_loop.rs\<close>), and
    the step relation \<open>submit_step\<close>, which \<open>submit\<close> refines over any store that keeps the contract. JSON and the
    checksum are parameters; the hypothesis \<open>serde_ok\<close> says that JSON reads back what it wrote.
  \<^item> \<open>Kernel_History\<close>: histories of requests, snapshots and recoveries; the journal explains the world.
    \<open>Kernel_Hazards\<close>: failed commands, leases, epochs and interleaved submissions. \<open>Kernel_Typing\<close>: the columns
    of the kernel's world are typed.
  \<^item> \<open>Kahn\<close>: what the two sorts after Kahn have in common. The locale \<open>degrees\<close> is the contract of a table of
    in-degrees; \<open>vec\<close> interprets it on the vector of the buffer planner, \<open>tab\<close> on the map of the schedule.
  \<^item> \<open>Buffer_Lifetimes\<close>: ranks, lifetimes of values, scratch sizes (\<open>buffer_lifetime_plan.rs\<close>).
  \<^item> \<open>Tick_Schedule\<close>: registration, validation, hash and order of a schedule (\<open>schedule.rs\<close>).
  \<^item> \<open>Tick_Systems\<close>: the provider selector (\<open>ports/mod.rs\<close>) and the eight systems (\<open>schedule.rs\<close>), each a function from
    a context to a computation on the emitted commands, the active dispatches and the receipts. Every reading of the
    clock and every answer of a dispatcher is an argument indexed by its position in the run.
  \<^item> \<open>Tick_Run\<close>: \<open>run_tick\<close>, on the kernel of \<open>Kernel_Submit\<close>. \<open>traces\<close> is the simulation relation between a tick and a
    list of submissions (\<open>submit_all\<close> of \<open>Kernel_History\<close>).
  \<^item> \<open>Lane_Capacity\<close>: permits for hardware lanes (\<open>scheduling/state/lane_capacity.rs\<close>). The locale
    \<open>permit_pool\<close> is the contract of a pool of permits; \<open>lanes\<close> and \<open>quota\<close> interpret it.
  \<^item> \<open>Scheduler_State\<close>: the activation arena, the decode loop of a session, ready phases, work statuses and
    request pools of the second scheduler (\<open>scheduling/state\<close>, \<open>scheduling/systems\<close>).

  \<^bold>\<open>Correspondence.\<close> A definition has the name of the function it models (with a prefix where the name is
  taken) and takes the receiver as its last argument; a method with \<open>&mut self\<close> returns the new receiver.
  \<open>Result\<close> is \<open>outcome\<close>, and a panic is its value \<open>Panic\<close>, or \<open>None\<close> where a function has no error of its
  own. The argument \<open>dbg\<close> tells a debug build, which checks overflow and debug assertions, from a release
  build. A \<open>HashMap\<close> is a map; a \<open>BTreeMap\<close> whose order is observed is an association list with increasing
  keys. Type ids are numbers, component values have one type.

  \<^bold>\<open>What is shown.\<close> For the world: handles are fresh and die once, all operations keep the slot invariant,
  the scans and queries agree with liveness and with each other. For transactions: an exact characterisation of
  what \<open>prepare\<close> accepts, the refinement of a commit specification by \<open>apply_prepared\<close>, reads after commit,
  and that of two concurrent transactions only the first commits. For the services: the exact condition under
  which a command is accepted, the effect of a commit on every component of every entity, the refinement of the
  item state machine by the work commands, the invariants of any history of commands, and where replaying the
  events restores the world and where it does not. For the scheduler: popping is a
  stable sort, write leases are unique and reader counters exact in every reachable state, validation accepts
  exactly the acyclic graphs with one kind per edge and always ends, execution is a topological order and
  ends, the token budget is bounded and recovers. For the cache: blocks are handed out exactly when they exist,
  to one owner, and byte ranges are disjoint. For the runtime kernel: every command takes effect as a whole or
  not at all and never panics, \<open>submit\<close> implements an idempotent execution fenced by epoch, a committed
  command is never executed twice, recovery rebuilds exactly the world, inference progress never goes back, leases
  are exclusive; and the four ways in which the submit path goes wrong: the key of a failed command is stuck, an
  expected epoch is never met, a committed lease command makes recovery panic, and interleaved submissions cannot
  be replayed. For the buffer planner: producers rank before consumers and a lifetime covers every use. For the schedule:
  validation always ends and accepts exactly the well-formed schedules, an accepted schedule has an order, and a tick is
  a history of submissions in that order, faithfully reported. For the systems: admission stays within its capacity and
  budget, a work item has one active dispatch, collecting ends and looks at every handle once; and the cleanup stage
  revives finished work. For the second scheduler: permits are counted exactly, activation bindings never overlap and a
  dropped transaction leaves no trace, a session ends after its budget, and the two computations of the ready phases agree
  exactly on closed graphs. Several properties record where the code departs from its own
  documentation (a reserved spawn revives a handle, staged inserts survive a despawn, failed
  phases release their successors, and others).

  \<^bold>\<open>Bounds.\<close> Generations are 32-bit words and wrap. A sparse index is 32 bits wide: the operations that add a
  component assume fewer than \<open>2 ^ 32\<close> entries (\<open>has_room\<close>), the histories of the services at every step. The lease counters saturate at \<open>2 ^ 32 - 1\<close>, so the
  lease invariant holds for runs of that length. A kernel command creates at most two entities, so the histories of the kernel are
  shorter than \<open>2 ^ 31\<close> commands. Counters of 64 bits that only count operations (epochs,
  versions, lease and entity ids, access times) are natural numbers. Recursion is structural except for the
  execution loop of a phase graph, whose measure is the number of phases not completed, the loop over the active
  dispatches, whose measure is the number of handles ahead, and Kahn's loops and the search for cycles, which are
  partial functions that are shown to return. The passes of a tick look at the first 32 or 64 items, as the code does. No
  fuel is used.

  \<^bold>\<open>Not modelled.\<close> I/O and third-party stores (LMDB), hashing (the catalogue digest and prefix hashes are
  values, the digest of a residency is a parameter), floating-point statistics, type-erased extensions, tensor
  data, the compiler, kernels and servers. The runner registry of the phase executor is a parameter, since its
  module is not in the repository. Receipts and tracing of the services are left out where no state depends on
  them. Of the runtime kernel, kernel artifacts and hardware dispatch are left out: the registry that validates an
  artifact binding, the dispatchers, JSON and the output files are parameters of a system's context. The texts of
  formatted errors are cut to their constant part. The
  world lock of \<open>submit\<close> is modelled by cutting a submission where the lock is taken and released.

  \<^bold>\<open>Next.\<close> What would extend the development most are the event store and replay registry
  (\<open>persistence.rs\<close>), the trust states of \<open>distributed.rs\<close> and the token budget and lane work of the second
  scheduler.
\<close>

end
